(* ===== verification/Prelude.thy ===== *)
theory Prelude
  imports Main "HOL-Library.Word" "HOL-Library.Signed_Division"
begin

unbundle bit_operations_syntax

text \<open>
  Shared material of the development: names for the fixed-width integer types the C++ sources
  use, the collections of rewrite rules the component theories extend, and the generic lemmas on
  words, lists and naturals that more than one component needs.

  Conventions.  A C++ \<open>uint8_t/uint16_t/uint32_t/uint64_t\<close> is a word of that width, so its
  arithmetic wraps.  A signed \<open>int\<close>, \<open>int64_t\<close> or \<open>CAmount\<close> is an \<^typ>\<open>int\<close>: signed overflow is
  undefined behaviour in C++, so a model value agrees with the program exactly while it stays in
  range, and the range facts are stated as theorems where they matter
  (\<open>in_int64\<close>).  Signed division and remainder truncate (\<open>sdiv\<close>, \<open>smod\<close>).
\<close>

type_synonym u8 = "8 word"
type_synonym u16 = "16 word"
type_synonym u32 = "32 word"
type_synonym u64 = "64 word"
type_synonym byte = "8 word"
type_synonym CAmount = int

named_theorems uint_simps \<open>value equations of the multi-limb integer operations\<close>
named_theorems length_simps \<open>lengths of the results of the limb and byte operations\<close>

definition in_int64 :: "int \<Rightarrow> bool" where
  "in_int64 n \<longleftrightarrow> - (2 ^ 63) \<le> n \<and> n < 2 ^ 63"

definition in_int32 :: "int \<Rightarrow> bool" where
  "in_int32 n \<longleftrightarrow> - (2 ^ 31) \<le> n \<and> n < 2 ^ 31"

section \<open>Words\<close>

lemma unat_lt_2p32: "unat (x :: u32) < 4294967296"
  using unsigned_less [of x] by simp

lemma unat_lt_2p64: "unat (x :: u64) < 18446744073709551616"
  using unsigned_less [of x] by simp

lemma unat_lt_2p16: "unat (x :: u16) < 65536"
  using unsigned_less [of x] by simp

lemma unat_lt_2p8: "unat (x :: u8) < 256"
  using unsigned_less [of x] by simp

lemma unat_ucast_32_64 [simp]: "unat (ucast (x :: u32) :: u64) = unat x"
  using unat_lt_2p32 [of x] by (simp add: unsigned_ucast_eq take_bit_eq_mod)

lemma unat_ucast_64_32 [simp]: "unat (ucast (x :: u64) :: u32) = unat x mod 4294967296"
  by (simp add: unsigned_ucast_eq take_bit_eq_mod)

lemma mask32_and: "(x :: u64) AND 0xffffffff = take_bit 32 x"
  by (simp add: take_bit_eq_mask mask_numeral)

lemma unat_take_bit_32: "unat (take_bit 32 (x :: u64)) = unat x mod 4294967296"
  by (simp only: unsigned_take_bit_eq) (simp add: take_bit_eq_mod)

lemma unat_drop_bit_64_32: "unat (drop_bit 32 (x :: u64)) = unat x div 4294967296"
  using unat_lt_2p64 [of x]
  by (simp only: unsigned_drop_bit_eq) (simp add: drop_bit_eq_div take_bit_eq_mod)

lemma unat_add_no_wrap:
  "unat (x :: u64) + unat y < 18446744073709551616 \<Longrightarrow> unat (x + y) = unat x + unat y"
  by (simp add: unat_word_ariths)

lemma unat_mult_no_wrap:
  "unat (x :: u64) * unat y < 18446744073709551616 \<Longrightarrow> unat (x * y) = unat x * unat y"
  by (simp add: unat_word_ariths)

lemma unat_push_bit_u64: "unat (push_bit k (x :: u64)) = (unat x * 2 ^ k) mod 18446744073709551616"
  by (simp only: unsigned_push_bit_eq) (simp add: push_bit_eq_mult take_bit_eq_mod)

lemma unat_push_bit_u32: "unat (push_bit k (x :: u32)) = (unat x * 2 ^ k) mod 4294967296"
  by (simp only: unsigned_push_bit_eq) (simp add: push_bit_eq_mult take_bit_eq_mod)

lemma unat_drop_bit_u32: "unat (drop_bit k (x :: u32)) = unat x div 2 ^ k"
  using unat_lt_2p32 [of x]
  by (simp only: unsigned_drop_bit_eq) (simp add: drop_bit_eq_div take_bit_eq_mod)

lemma unat_minus_1_u32: "unat (- 1 :: u32) = 4294967295"
  by (simp add: unsigned_minus_1_eq_mask mask_numeral)

lemma unat_not_u32: "unat (NOT (p :: u32)) = 4294967295 - unat p"
proof -
  have "NOT p = - 1 - p" by (simp add: not_eq_complement)
  moreover have "unat (- 1 - p) = unat (- 1 :: u32) - unat p" by (rule unat_sub) simp
  ultimately show ?thesis by (simp add: unat_minus_1_u32)
qed

section \<open>Naturals\<close>

text \<open>One step of a carry loop: the low digit and the carry of the rest.\<close>

lemma carry_step:
  fixes B :: nat
  assumes "0 < B"
  shows "n mod B + B * ((n div B + r) mod M) = (n + B * r) mod (B * M)"
proof -
  have "(n + B * r) div B = n div B + r" using assms by simp
  then show ?thesis by (simp add: mod_mult2_eq)
qed

text \<open>A reduced high part over a low part is the whole, reduced.\<close>

lemma mod_high_part:
  fixes B :: nat
  assumes "x < B"
  shows "x + B * (y mod M) = (x + B * y) mod (B * M)"
  using carry_step [of B x y M] assms by simp

text \<open>The highest set bit bounds a number from both sides.\<close>

lemma highest_bit_bounds:
  fixes v :: nat
  assumes "bit v h" and "\<And>m. h < m \<Longrightarrow> \<not> bit v m"
  shows "2 ^ h \<le> v \<and> v < 2 ^ Suc h"
proof
  show "2 ^ h \<le> v"
  proof (rule ccontr)
    assume "\<not> 2 ^ h \<le> v"
    then have "take_bit h v = v" by (simp add: take_bit_nat_eq_self)
    then have "bit (take_bit h v) h" using assms(1) by simp
    then show False by (simp add: bit_simps)
  qed
  have "take_bit (Suc h) v = v"
    by (rule bit_eqI) (metis assms(2) bit_take_bit_iff not_less_eq)
  then show "v < 2 ^ Suc h" by (metis take_bit_nat_less_exp)
qed

section \<open>Lists\<close>

lemma nth_replicate_zero [simp]: "i < n \<Longrightarrow> replicate n (0 :: 'a :: zero) ! i = 0"
  by simp

lemma all_less_Suc_cases: "(\<forall>i < Suc n. P i) \<longleftrightarrow> P 0 \<and> (\<forall>i < n. P (Suc i))"
  using less_Suc_eq_0_disj by auto

lemma fold_invariant_upt:
  assumes "P 0 s" and "\<And>i s. i < n \<Longrightarrow> P i s \<Longrightarrow> P (Suc i) (f i s)"
  shows "P n (fold f [0..<n] s)"
  using assms
proof (induction n)
  case 0
  then show ?case by simp
next
  case (Suc n)
  then have "P n (fold f [0..<n] s)" by simp
  with Suc.prems(2) [of n] show ?case by simp
qed

end
