(* ===== verification/Uint256.thy ===== *)
theory Uint256
  imports Prelude
begin

unbundle bit_operations_syntax

text \<open>
  The unsigned big integers of \<open>src/src/arith_uint256.h\<close>, \<open>src/src/arith_uint256.cpp\<close> and
  \<open>src/src/uint256.cpp\<close>.  A \<open>base_uint<BITS>\<close> is its array \<open>pn\<close> of 32-bit limbs, least
  significant limb first; \<open>WIDTH\<close> is the length of the list.  \<open>uint_val\<close> reads the array as a
  natural number, and every operation is shown to compute the number it stands for, modulo
  \<open>2 ^ (32 * WIDTH)\<close>.
\<close>

type_synonym base_uint = "u32 list"

abbreviation WIDTH :: "base_uint \<Rightarrow> nat" where
  "WIDTH x \<equiv> length x"

section \<open>Operations\<close>

definition base_uint_zero :: "nat \<Rightarrow> base_uint" where
  "base_uint_zero w = replicate w 0"

definition base_uint_of_u64 :: "nat \<Rightarrow> u64 \<Rightarrow> base_uint" where
  "base_uint_of_u64 w b = (ucast b :: u32) # ucast (drop_bit 32 b) # replicate (w - 2) 0"

fun bu_is_null :: "base_uint \<Rightarrow> bool" where
  "bu_is_null [] = True"
| "bu_is_null (p # ps) = (if p \<noteq> 0 then False else bu_is_null ps)"

fun bu_not :: "base_uint \<Rightarrow> base_uint" where
  "bu_not [] = []"
| "bu_not (p # ps) = NOT p # bu_not ps"

fun bu_inc :: "base_uint \<Rightarrow> base_uint" where
  "bu_inc [] = []"
| "bu_inc [p] = [p + 1]"
| "bu_inc (p # q # ps) = (if p + 1 = 0 then (p + 1) # bu_inc (q # ps) else (p + 1) # q # ps)"

fun bu_dec :: "base_uint \<Rightarrow> base_uint" where
  "bu_dec [] = []"
| "bu_dec [p] = [p - 1]"
| "bu_dec (p # q # ps) = (if p - 1 = - 1 then (p - 1) # bu_dec (q # ps) else (p - 1) # q # ps)"

fun bu_xor :: "base_uint \<Rightarrow> base_uint \<Rightarrow> base_uint" where
  "bu_xor (p # ps) (b # bs) = (p XOR b) # bu_xor ps bs"
| "bu_xor _ _ = []"

fun bu_and :: "base_uint \<Rightarrow> base_uint \<Rightarrow> base_uint" where
  "bu_and (p # ps) (b # bs) = (p AND b) # bu_and ps bs"
| "bu_and _ _ = []"

fun bu_or :: "base_uint \<Rightarrow> base_uint \<Rightarrow> base_uint" where
  "bu_or (p # ps) (b # bs) = (p OR b) # bu_or ps bs"
| "bu_or _ _ = []"

definition bu_neg :: "base_uint \<Rightarrow> base_uint" where
  "bu_neg x = bu_inc (bu_not x)"

fun bu_add_loop :: "u64 \<Rightarrow> base_uint \<Rightarrow> base_uint \<Rightarrow> base_uint" where
  "bu_add_loop carry (p # ps) (b # bs) =
     (let n = carry + ucast p + ucast b
      in ucast (n AND 0xffffffff) # bu_add_loop (drop_bit 32 n) ps bs)"
| "bu_add_loop carry _ _ = []"

definition bu_add :: "base_uint \<Rightarrow> base_uint \<Rightarrow> base_uint" where
  "bu_add a b = bu_add_loop 0 a b"

definition bu_sub :: "base_uint \<Rightarrow> base_uint \<Rightarrow> base_uint" where
  "bu_sub a b = bu_add a (bu_neg b)"

fun bu_mul32_loop :: "u64 \<Rightarrow> u32 \<Rightarrow> base_uint \<Rightarrow> base_uint" where
  "bu_mul32_loop carry b32 [] = []"
| "bu_mul32_loop carry b32 (p # ps) =
     (let n = carry + ucast b32 * ucast p
      in ucast (n AND 0xffffffff) # bu_mul32_loop (drop_bit 32 n) b32 ps)"

definition bu_mul32 :: "base_uint \<Rightarrow> u32 \<Rightarrow> base_uint" where
  "bu_mul32 a b32 = bu_mul32_loop 0 b32 a"

text \<open>The inner loop of the long multiplication runs over \<open>pn[j], pn[j+1], ...\<close>.\<close>

fun bu_mul_row :: "u64 \<Rightarrow> u32 \<Rightarrow> base_uint \<Rightarrow> base_uint \<Rightarrow> base_uint" where
  "bu_mul_row carry aj (p # ps) (b # bs) =
     (let n = carry + ucast p + ucast aj * ucast b
      in ucast (n AND 0xffffffff) # bu_mul_row (drop_bit 32 n) aj ps bs)"
| "bu_mul_row carry aj _ _ = []"

definition bu_mul_step :: "base_uint \<Rightarrow> base_uint \<Rightarrow> nat \<Rightarrow> base_uint \<Rightarrow> base_uint" where
  "bu_mul_step a b j pn = take j pn @ bu_mul_row 0 (a ! j) (drop j pn) b"

definition bu_mul :: "base_uint \<Rightarrow> base_uint \<Rightarrow> base_uint" where
  "bu_mul a b = fold (bu_mul_step a b) [0..<WIDTH a] (base_uint_zero (WIDTH a))"

definition bu_shl_step :: "base_uint \<Rightarrow> nat \<Rightarrow> nat \<Rightarrow> nat \<Rightarrow> base_uint \<Rightarrow> base_uint" where
  "bu_shl_step a k s i pn =
     (let pn1 = (if i + k + 1 < WIDTH a \<and> s \<noteq> 0
                 then pn[i + k + 1 := pn ! (i + k + 1) OR drop_bit (32 - s) (a ! i)] else pn)
      in if i + k < WIDTH a then pn1[i + k := pn1 ! (i + k) OR push_bit s (a ! i)] else pn1)"

definition bu_shl :: "base_uint \<Rightarrow> nat \<Rightarrow> base_uint" where
  "bu_shl a shift =
     fold (bu_shl_step a (shift div 32) (shift mod 32)) [0..<WIDTH a] (base_uint_zero (WIDTH a))"

definition bu_shr_step :: "base_uint \<Rightarrow> nat \<Rightarrow> nat \<Rightarrow> nat \<Rightarrow> base_uint \<Rightarrow> base_uint" where
  "bu_shr_step a k s i pn =
     (let pn1 = (if int i - int k - 1 \<ge> 0 \<and> s \<noteq> 0
                 then pn[i - k - 1 := pn ! (i - k - 1) OR push_bit (32 - s) (a ! i)] else pn)
      in if int i - int k \<ge> 0 then pn1[i - k := pn1 ! (i - k) OR drop_bit s (a ! i)] else pn1)"

definition bu_shr :: "base_uint \<Rightarrow> nat \<Rightarrow> base_uint" where
  "bu_shr a shift =
     fold (bu_shr_step a (shift div 32) (shift mod 32)) [0..<WIDTH a] (base_uint_zero (WIDTH a))"

text \<open>\<open>CompareTo\<close> looks at the limbs from the most significant one down.\<close>

fun bu_compare_loop :: "u32 list \<Rightarrow> u32 list \<Rightarrow> int" where
  "bu_compare_loop (p # ps) (b # bs) =
     (if p < b then -1 else if b < p then 1 else bu_compare_loop ps bs)"
| "bu_compare_loop _ _ = 0"

definition bu_compare :: "base_uint \<Rightarrow> base_uint \<Rightarrow> int" where
  "bu_compare a b = bu_compare_loop (rev a) (rev b)"

definition bu_equal_u64 :: "base_uint \<Rightarrow> u64 \<Rightarrow> bool" where
  "bu_equal_u64 a b \<longleftrightarrow>
     bu_is_null (drop 2 a) \<and> a ! 1 = ucast (drop_bit 32 b) \<and> a ! 0 = ucast (b AND 0xffffffff)"

fun limb_bits :: "nat \<Rightarrow> u32 \<Rightarrow> nat" where
  "limb_bits 0 p = 0"
| "limb_bits (Suc n) p = (if p AND push_bit (Suc n) 1 \<noteq> 0 then Suc n else limb_bits n p)"

fun bu_bits_loop :: "u32 list \<Rightarrow> nat" where
  "bu_bits_loop [] = 0"
| "bu_bits_loop (p # ps) =
     (if p \<noteq> 0 then 32 * length ps + limb_bits 31 p + 1 else bu_bits_loop ps)"

definition bu_bits :: "base_uint \<Rightarrow> nat" where
  "bu_bits a = bu_bits_loop (rev a)"

text \<open>
  \<open>operator/=\<close>: shift-and-subtract division.  \<open>None\<close> is the exception thrown for a zero divisor.
  The loop state is the remaining numerator, the shifted divisor and the quotient limbs; the
  source's \<open>shift\<close> is one less than the loop argument, so argument 0 is the exit \<open>shift < 0\<close>.
\<close>

fun bu_div_loop :: "nat \<Rightarrow> base_uint \<Rightarrow> base_uint \<Rightarrow> base_uint \<Rightarrow> base_uint" where
  "bu_div_loop 0 num dv q = q"
| "bu_div_loop (Suc shift) num dv q =
     (if bu_compare num dv \<ge> 0
      then bu_div_loop shift (bu_sub num dv) (bu_shr dv 1)
             (q[shift div 32 := q ! (shift div 32) OR push_bit (shift mod 32) 1])
      else bu_div_loop shift num (bu_shr dv 1) q)"

definition bu_div :: "base_uint \<Rightarrow> base_uint \<Rightarrow> base_uint option" where
  "bu_div a b =
     (let num_bits = bu_bits a; div_bits = bu_bits b
      in if div_bits = 0 then None
         else if div_bits > num_bits then Some (base_uint_zero (WIDTH a))
         else let shift = num_bits - div_bits
              in Some (bu_div_loop (Suc shift) a (bu_shl b shift) (base_uint_zero (WIDTH a))))"

definition bu_get_low64 :: "base_uint \<Rightarrow> u64" where
  "bu_get_low64 a = ucast (a ! 0) OR push_bit 32 (ucast (a ! 1))"

section \<open>The compact (floating point like) encoding of targets\<close>

text \<open>
  \<open>SetCompact\<close> returns the value with the two out-parameters \<open>fNegative\<close> and \<open>fOverflow\<close>.
  \<open>GetCompact\<close> is \<open>None\<close> where one of its two assertions fails.
\<close>

definition SetCompact :: "u32 \<Rightarrow> base_uint \<times> bool \<times> bool" where
  "SetCompact nCompact =
     (let nSize = unat (drop_bit 24 nCompact);
          nWord0 = nCompact AND 0x007fffff;
          nWord = (if nSize \<le> 3 then drop_bit (8 * (3 - nSize)) nWord0 else nWord0);
          v = (if nSize \<le> 3 then base_uint_of_u64 8 (ucast nWord)
               else bu_shl (base_uint_of_u64 8 (ucast nWord)) (8 * (nSize - 3)))
      in (v,
          nWord \<noteq> 0 \<and> nCompact AND 0x00800000 \<noteq> 0,
          nWord \<noteq> 0 \<and> (nSize > 34 \<or> nWord > 0xff \<and> nSize > 33 \<or> nWord > 0xffff \<and> nSize > 32)))"

definition GetCompact :: "bool \<Rightarrow> base_uint \<Rightarrow> u32 option" where
  "GetCompact fNegative x =
     (let nSize0 = (bu_bits x + 7) div 8;
          nCompact0 = (if nSize0 \<le> 3 then ucast (push_bit (8 * (3 - nSize0)) (bu_get_low64 x))
                       else ucast (bu_get_low64 (bu_shr x (8 * (nSize0 - 3))))) :: u32;
          nCompact1 = (if nCompact0 AND 0x00800000 \<noteq> 0 then drop_bit 8 nCompact0 else nCompact0);
          nSize = (if nCompact0 AND 0x00800000 \<noteq> 0 then nSize0 + 1 else nSize0)
      in if nCompact1 AND NOT 0x007fffff \<noteq> 0 \<or> nSize \<ge> 256 then None
         else let nCompact2 = nCompact1 OR push_bit 24 (of_nat nSize)
              in Some (nCompact2 OR (if fNegative \<and> nCompact2 AND 0x007fffff \<noteq> 0 then 0x00800000 else 0)))"

section \<open>The number a limb array stands for\<close>

fun uint_val :: "base_uint \<Rightarrow> nat" where
  "uint_val [] = 0"
| "uint_val (p # ps) = unat p + 4294967296 * uint_val ps"

abbreviation uint_mod :: "nat \<Rightarrow> nat" where
  "uint_mod w \<equiv> 4294967296 ^ w"

lemma uint_val_less: "uint_val x < uint_mod (WIDTH x)"
proof (induction x)
  case Nil
  show ?case by simp
next
  case (Cons p ps)
  have "unat p < 4294967296" by (rule unat_lt_2p32)
  moreover have "uint_val ps + 1 \<le> uint_mod (WIDTH ps)" using Cons by simp
  ultimately have "unat p + 4294967296 * uint_val ps < 4294967296 * uint_mod (WIDTH ps)" by linarith
  then show ?case by simp
qed

lemma uint_val_mod [simp]: "uint_val x mod uint_mod (WIDTH x) = uint_val x"
  using uint_val_less by simp

lemma uint_val_append [uint_simps]:
  "uint_val (x @ y) = uint_val x + uint_mod (WIDTH x) * uint_val y"
  by (induction x) (simp_all add: algebra_simps)

lemma uint_val_replicate_0 [simp, uint_simps]: "uint_val (replicate w 0) = 0"
  by (induction w) simp_all

lemma uint_val_zero [simp, uint_simps]: "uint_val (base_uint_zero w) = 0"
  by (simp add: base_uint_zero_def)

lemma length_base_uint_zero [simp, length_simps]: "length (base_uint_zero w) = w"
  by (simp add: base_uint_zero_def)

lemma uint_val_inject: "WIDTH x = WIDTH y \<Longrightarrow> uint_val x = uint_val y \<Longrightarrow> x = y"
proof (induction x y rule: list_induct2)
  case Nil
  then show ?case by simp
next
  case (Cons p ps q qs)
  have "unat p = (unat p + 4294967296 * uint_val ps) mod 4294967296"
    using unat_lt_2p32 [of p] by simp
  also have "\<dots> = (unat q + 4294967296 * uint_val qs) mod 4294967296" using Cons.prems by simp
  also have "\<dots> = unat q" using unat_lt_2p32 [of q] by simp
  finally have "unat p = unat q" .
  with Cons show ?case by (simp add: word_unat_eq_iff)
qed

section \<open>Addition, negation, subtraction\<close>

lemma length_bu_add_loop: "length (bu_add_loop c a b) = min (length a) (length b)"
  by (induction c a b rule: bu_add_loop.induct) (simp_all add: Let_def)

lemma length_bu_add [simp, length_simps]: "length (bu_add a b) = min (length a) (length b)"
  by (simp add: bu_add_def length_bu_add_loop)

lemma unat_limb_sum:
  fixes c :: u64 and p b :: u32
  assumes "unat c \<le> 1"
  shows "unat (c + ucast p + ucast b) = unat c + unat p + unat b"
  using assms unat_lt_2p32 [of p] unat_lt_2p32 [of b]
  by (simp add: unat_add_no_wrap)

lemma uint_val_add_loop:
  "length a = length b \<Longrightarrow> unat c \<le> 1 \<Longrightarrow>
   uint_val (bu_add_loop c a b) = (unat c + uint_val a + uint_val b) mod uint_mod (length a)"
proof (induction a b arbitrary: c rule: list_induct2)
  case Nil
  then show ?case by simp
next
  case (Cons p ps b bs)
  let ?n = "c + ucast p + ucast b"
  have n: "unat ?n = unat c + unat p + unat b" using Cons.prems by (rule unat_limb_sum)
  have "unat (drop_bit 32 ?n) \<le> 1"
    using n Cons.prems unat_lt_2p32 [of p] unat_lt_2p32 [of b]
    by (simp add: unat_drop_bit_64_32)
  note IH = Cons.IH [OF this]
  have "uint_val (bu_add_loop c (p # ps) (b # bs)) =
      unat ?n mod 4294967296 + 4294967296 *
        ((unat ?n div 4294967296 + (uint_val ps + uint_val bs)) mod uint_mod (length ps))"
    using IH by (simp add: Let_def mask32_and unat_take_bit_32 unat_drop_bit_64_32 add.assoc)
  also have "\<dots> = (unat ?n + 4294967296 * (uint_val ps + uint_val bs)) mod (4294967296 * uint_mod (length ps))"
    by (rule carry_step) simp
  finally show ?case unfolding n by (simp add: algebra_simps)
qed

lemma uint_val_add [uint_simps]:
  "WIDTH a = WIDTH b \<Longrightarrow> uint_val (bu_add a b) = (uint_val a + uint_val b) mod uint_mod (WIDTH a)"
  by (simp add: bu_add_def uint_val_add_loop)

lemma length_bu_not [simp, length_simps]: "length (bu_not x) = length x"
  by (induction x rule: bu_not.induct) simp_all

lemma length_bu_inc [simp, length_simps]: "length (bu_inc x) = length x"
  by (induction x rule: bu_inc.induct) simp_all

lemma length_bu_neg [simp, length_simps]: "length (bu_neg x) = length x"
  by (simp add: bu_neg_def)

lemma uint_val_not: "uint_val (bu_not x) = uint_mod (WIDTH x) - 1 - uint_val x"
proof (induction x)
  case Nil
  show ?case by simp
next
  case (Cons p ps)
  have "uint_val ps < uint_mod (WIDTH ps)" by (rule uint_val_less)
  moreover have "unat p < 4294967296" by (rule unat_lt_2p32)
  ultimately show ?case using Cons by (simp add: unat_not_u32 algebra_simps)
qed

lemma uint_val_inc [uint_simps]: "uint_val (bu_inc x) = (uint_val x + 1) mod uint_mod (WIDTH x)"
proof (induction x rule: bu_inc.induct)
  case 1
  show ?case by simp
next
  case (2 p)
  show ?case by (simp add: unat_word_ariths)
next
  case (3 p q ps)
  show ?case
  proof (cases "p + 1 = 0")
    case True
    then have "p = - 1" by (simp add: eq_neg_iff_add_eq_0)
    then have p: "unat p = 4294967295" by (simp add: unat_minus_1_u32)
    then have "(uint_val (p # q # ps) + 1) = 4294967296 * (uint_val (q # ps) + 1)" by simp
    then have "(uint_val (p # q # ps) + 1) mod uint_mod (WIDTH (p # q # ps)) =
        4294967296 * ((uint_val (q # ps) + 1) mod uint_mod (WIDTH (q # ps)))"
      by (simp only: length_Cons power_Suc mod_mult_mult1)
    with 3 True show ?thesis by simp
  next
    case False
    then have p: "unat (p + 1) = unat p + 1" using unatSuc [of p] by (simp add: add.commute)
    then have "uint_val (bu_inc (p # q # ps)) = uint_val (p # q # ps) + 1" using False by simp
    moreover have "uint_val (bu_inc (p # q # ps)) < uint_mod (WIDTH (p # q # ps))"
      using uint_val_less [of "bu_inc (p # q # ps)"] by (simp only: length_bu_inc)
    ultimately show ?thesis by simp
  qed
qed

lemma length_bu_dec [simp, length_simps]: "length (bu_dec x) = length x"
  by (induction x rule: bu_dec.induct) simp_all

text \<open>The decrement undoes the increment, limb by limb.\<close>

lemma bu_dec_inc: "bu_dec (bu_inc x) = x"
proof (induction x rule: bu_inc.induct)
  case (3 p q ps)
  obtain r rs where inc: "bu_inc (q # ps) = r # rs" by (metis length_bu_inc length_Suc_conv)
  show ?case using 3 inc by (cases "p = - 1") (simp_all add: eq_neg_iff_add_eq_0 [symmetric])
qed simp_all

lemma uint_val_neg [uint_simps]:
  "uint_val (bu_neg x) = (uint_mod (WIDTH x) - uint_val x) mod uint_mod (WIDTH x)"
  using uint_val_less [of x] by (simp add: bu_neg_def uint_val_inc uint_val_not Suc_diff_Suc)

lemma length_bu_sub [simp, length_simps]: "length (bu_sub a b) = min (length a) (length b)"
  by (simp add: bu_sub_def)

lemma uint_val_sub:
  "WIDTH a = WIDTH b \<Longrightarrow>
   uint_val (bu_sub a b) = (uint_val a + (uint_mod (WIDTH a) - uint_val b)) mod uint_mod (WIDTH a)"
  by (simp add: bu_sub_def uint_val_add uint_val_neg mod_add_right_eq)

lemma uint_val_sub_le [uint_simps]:
  assumes "WIDTH a = WIDTH b" and "uint_val b \<le> uint_val a"
  shows "uint_val (bu_sub a b) = uint_val a - uint_val b"
proof -
  have "uint_val a + (uint_mod (WIDTH a) - uint_val b) = (uint_val a - uint_val b) + uint_mod (WIDTH a)"
    using assms uint_val_less [of b] by simp
  moreover have "uint_val a - uint_val b < uint_mod (WIDTH a)"
    using uint_val_less [of a] by simp
  ultimately show ?thesis using assms(1) by (simp add: uint_val_sub)
qed

section \<open>Multiplication\<close>

lemma length_bu_mul32_loop: "length (bu_mul32_loop c b a) = length a"
  by (induction c b a rule: bu_mul32_loop.induct) (simp_all add: Let_def)

lemma length_bu_mul32 [simp, length_simps]: "length (bu_mul32 a b) = length a"
  by (simp add: bu_mul32_def length_bu_mul32_loop)

text \<open>No step of the multiplication loops overflows its 64-bit accumulator.\<close>

lemma limb_product_bound:
  fixes x y :: u32
  shows "unat x * unat y + 4294967295 + 4294967295 \<le> 18446744073709551615"
proof -
  have "unat x \<le> 4294967295" and "unat y \<le> 4294967295"
    using unat_lt_2p32 [of x] unat_lt_2p32 [of y] by simp_all
  then have "unat x * unat y \<le> 4294967295 * 4294967295" by (rule mult_le_mono)
  then show ?thesis by simp
qed

lemma unat_limb_mac:
  fixes c :: u64 and p x y :: u32
  assumes "unat c \<le> 4294967295"
  shows "unat (c + ucast p + ucast x * ucast y) = unat c + unat p + unat x * unat y"
    and "unat (c + ucast x * ucast y) = unat c + unat x * unat y"
    and "(unat c + unat p + unat x * unat y) div 4294967296 \<le> 4294967295"
    and "(unat c + unat x * unat y) div 4294967296 \<le> 4294967295"
proof -
  have m: "unat (ucast x * ucast y :: u64) = unat x * unat y"
    using limb_product_bound [of x y] by (simp add: unat_mult_no_wrap)
  have s: "unat (c + ucast p) = unat c + unat p"
    using assms unat_lt_2p32 [of p] by (simp add: unat_add_no_wrap)
  show "unat (c + ucast p + ucast x * ucast y) = unat c + unat p + unat x * unat y"
    using assms unat_lt_2p32 [of p] limb_product_bound [of x y] by (simp add: unat_add_no_wrap m s)
  show "unat (c + ucast x * ucast y) = unat c + unat x * unat y"
    using assms limb_product_bound [of x y] by (simp add: unat_add_no_wrap m)
  show "(unat c + unat p + unat x * unat y) div 4294967296 \<le> 4294967295"
    using assms unat_lt_2p32 [of p] limb_product_bound [of x y] by simp
  show "(unat c + unat x * unat y) div 4294967296 \<le> 4294967295"
    using assms limb_product_bound [of x y] by simp
qed

lemma uint_val_mul32_loop:
  "unat c \<le> 4294967295 \<Longrightarrow>
   uint_val (bu_mul32_loop c b a) = (unat c + unat b * uint_val a) mod uint_mod (length a)"
proof (induction a arbitrary: c)
  case Nil
  then show ?case by simp
next
  case (Cons p ps)
  let ?n = "c + ucast b * ucast p"
  have n: "unat ?n = unat c + unat b * unat p" using Cons.prems by (rule unat_limb_mac(2))
  have "unat (drop_bit 32 ?n) \<le> 4294967295"
    using unat_limb_mac(4) [OF Cons.prems] n by (simp add: unat_drop_bit_64_32)
  note IH = Cons.IH [OF this]
  have "uint_val (bu_mul32_loop c b (p # ps)) =
      unat ?n mod 4294967296 + 4294967296 *
        ((unat ?n div 4294967296 + unat b * uint_val ps) mod uint_mod (length ps))"
    using IH by (simp add: Let_def mask32_and unat_take_bit_32 unat_drop_bit_64_32)
  also have "\<dots> = (unat ?n + 4294967296 * (unat b * uint_val ps)) mod (4294967296 * uint_mod (length ps))"
    by (rule carry_step) simp
  finally show ?case unfolding n by (simp add: algebra_simps)
qed

lemma uint_val_mul32 [uint_simps]:
  "uint_val (bu_mul32 a b) = (uint_val a * unat b) mod uint_mod (WIDTH a)"
  by (simp add: bu_mul32_def uint_val_mul32_loop mult.commute)

lemma length_bu_mul_row: "length (bu_mul_row c x a b) = min (length a) (length b)"
  by (induction c x a b rule: bu_mul_row.induct) (simp_all add: Let_def)

lemma uint_val_mul_row:
  "length a \<le> length b \<Longrightarrow> unat c \<le> 4294967295 \<Longrightarrow>
   uint_val (bu_mul_row c x a b) = (unat c + uint_val a + unat x * uint_val b) mod uint_mod (length a)"
proof (induction a arbitrary: b c)
  case Nil
  then show ?case by simp
next
  case (Cons p ps)
  from Cons.prems(1) obtain q qs where b: "b = q # qs" and l: "length ps \<le> length qs"
    by (cases b) auto
  let ?n = "c + ucast p + ucast x * ucast q"
  have n: "unat ?n = unat c + unat p + unat x * unat q" using Cons.prems(2) by (rule unat_limb_mac(1))
  have "unat (drop_bit 32 ?n) \<le> 4294967295"
    using unat_limb_mac(3) [OF Cons.prems(2)] n by (simp add: unat_drop_bit_64_32)
  note IH = Cons.IH [OF l this]
  have "uint_val (bu_mul_row c x (p # ps) b) =
      unat ?n mod 4294967296 + 4294967296 *
        ((unat ?n div 4294967296 + (uint_val ps + unat x * uint_val qs)) mod uint_mod (length ps))"
    using IH by (simp add: b Let_def mask32_and unat_take_bit_32 unat_drop_bit_64_32 add.assoc)
  also have "\<dots> = (unat ?n + 4294967296 * (uint_val ps + unat x * uint_val qs))
      mod (4294967296 * uint_mod (length ps))"
    by (rule carry_step) simp
  finally show ?case unfolding n b by (simp add: algebra_simps)
qed

lemma uint_mod_split: "j \<le> w \<Longrightarrow> uint_mod w = uint_mod j * uint_mod (w - j)"
  by (simp flip: power_add)

lemma uint_val_split: "j \<le> length x \<Longrightarrow>
    uint_val x = uint_val (take j x) + uint_mod j * uint_val (drop j x)"
  using uint_val_append [of "take j x" "drop j x"] by simp

lemma uint_val_take_Suc: "j < length x \<Longrightarrow>
    uint_val (take (Suc j) x) = uint_val (take j x) + uint_mod j * unat (x ! j)"
  by (simp add: take_Suc_conv_app_nth uint_val_append)

lemma uint_val_take_less: "j \<le> length x \<Longrightarrow> uint_val (take j x) < uint_mod j"
  using uint_val_less [of "take j x"] by simp

lemma length_bu_mul_step:
  "j \<le> length pn \<Longrightarrow> length pn = length b \<Longrightarrow> length (bu_mul_step a b j pn) = length pn"
  by (simp add: bu_mul_step_def length_bu_mul_row)

lemma uint_val_mul_step:
  assumes "j < length pn" and "length pn = length b"
  shows "uint_val (bu_mul_step a b j pn) =
    (uint_val pn + uint_mod j * unat (a ! j) * uint_val b) mod uint_mod (length pn)"
proof -
  have "uint_val (bu_mul_step a b j pn) = uint_val (take j pn) +
      uint_mod j * ((uint_val (drop j pn) + unat (a ! j) * uint_val b) mod uint_mod (length pn - j))"
    using assms by (simp add: bu_mul_step_def uint_val_append uint_val_mul_row)
  also have "\<dots> = (uint_val (take j pn) + uint_mod j * (uint_val (drop j pn) + unat (a ! j) * uint_val b))
      mod (uint_mod j * uint_mod (length pn - j))"
    using assms by (intro mod_high_part uint_val_take_less) simp
  also have "\<dots> = (uint_val pn + uint_mod j * unat (a ! j) * uint_val b) mod uint_mod (length pn)"
    using assms uint_val_split [of j pn] uint_mod_split [of j "length pn"] by (simp add: algebra_simps)
  finally show ?thesis .
qed

lemma bu_mul_invariant:
  assumes "WIDTH a = WIDTH b"
  shows "length (bu_mul a b) = WIDTH a \<and>
    uint_val (bu_mul a b) = (uint_val (take (WIDTH a) a) * uint_val b) mod uint_mod (WIDTH a)"
  unfolding bu_mul_def
proof (rule fold_invariant_upt [where P = "\<lambda>j pn. length pn = WIDTH a \<and>
    uint_val pn = (uint_val (take j a) * uint_val b) mod uint_mod (WIDTH a)"])
  show "length (base_uint_zero (WIDTH a)) = WIDTH a \<and>
      uint_val (base_uint_zero (WIDTH a)) = (uint_val (take 0 a) * uint_val b) mod uint_mod (WIDTH a)"
    by simp
next
  fix j pn
  assume j: "j < WIDTH a"
    and pn: "length pn = WIDTH a \<and> uint_val pn = (uint_val (take j a) * uint_val b) mod uint_mod (WIDTH a)"
  have "uint_val (bu_mul_step a b j pn) =
      (uint_val pn + uint_mod j * unat (a ! j) * uint_val b) mod uint_mod (WIDTH a)"
    using j pn assms by (simp add: uint_val_mul_step)
  also have "\<dots> = (uint_val (take (Suc j) a) * uint_val b) mod uint_mod (WIDTH a)"
    using j pn by (simp add: uint_val_take_Suc mod_simps algebra_simps)
  finally show "length (bu_mul_step a b j pn) = WIDTH a \<and>
      uint_val (bu_mul_step a b j pn) = (uint_val (take (Suc j) a) * uint_val b) mod uint_mod (WIDTH a)"
    using j pn assms by (simp add: length_bu_mul_step)
qed

lemma length_bu_mul [simp, length_simps]: "WIDTH a = WIDTH b \<Longrightarrow> length (bu_mul a b) = WIDTH a"
  by (simp add: bu_mul_invariant)

lemma uint_val_mul [uint_simps]:
  "WIDTH a = WIDTH b \<Longrightarrow> uint_val (bu_mul a b) = (uint_val a * uint_val b) mod uint_mod (WIDTH a)"
  by (simp add: bu_mul_invariant)

section \<open>Bits and shifts\<close>

lemma uint_val_bit: "bit (uint_val x) n \<longleftrightarrow> n div 32 < WIDTH x \<and> bit (x ! (n div 32)) (n mod 32)"
proof (induction x arbitrary: n)
  case Nil
  show ?case by simp
next
  case (Cons p ps)
  have "uint_val (p # ps) = take_bit 32 (unat p) + push_bit 32 (uint_val ps)"
    using unat_lt_2p32 [of p] by (simp add: take_bit_eq_mod push_bit_eq_mult)
  also have "\<dots> = take_bit 32 (unat p) OR push_bit 32 (uint_val ps)"
    by (rule disjunctive_add) (auto simp: bit_simps)
  finally have v: "bit (uint_val (p # ps)) n \<longleftrightarrow>
      n < 32 \<and> bit p n \<or> 32 \<le> n \<and> bit (uint_val ps) (n - 32)"
    by (auto simp: bit_simps dest: bit_imp_le_length)
  show ?case
  proof (cases "n < 32")
    case True
    with v show ?thesis by (simp del: uint_val.simps)
  next
    case False
    then have "n div 32 = Suc ((n - 32) div 32)" and "n mod 32 = (n - 32) mod 32"
      by (simp_all add: le_div_geq le_mod_geq)
    with False v show ?thesis by (simp add: Cons.IH del: uint_val.simps)
  qed
qed

text \<open>The shift loops write each result limb from at most two source limbs.\<close>

definition shl_limb :: "base_uint \<Rightarrow> nat \<Rightarrow> nat \<Rightarrow> nat \<Rightarrow> nat \<Rightarrow> u32" where
  "shl_limb a k s i j =
     (if k \<le> j \<and> j - k < i then push_bit s (a ! (j - k)) else 0) OR
     (if k + 1 \<le> j \<and> j - k - 1 < i \<and> s \<noteq> 0 then drop_bit (32 - s) (a ! (j - k - 1)) else 0)"

lemma shl_limb_Suc:
  "shl_limb a k s (Suc i) j =
     (if j = i + k then shl_limb a k s i j OR push_bit s (a ! i)
      else if j = i + k + 1 \<and> s \<noteq> 0 then shl_limb a k s i j OR drop_bit (32 - s) (a ! i)
      else shl_limb a k s i j)"
proof -
  consider "j = i + k" | "j = i + k + 1" | "j < i + k" | "i + k + 1 < j" by linarith
  then show ?thesis
  proof cases
    case 1
    then show ?thesis by (auto simp: shl_limb_def or.commute)
  next
    case 2
    then show ?thesis by (simp add: shl_limb_def)
  next
    case 3
    then have "j - k < Suc i \<longleftrightarrow> j - k < i" and "j - k - 1 < Suc i \<longleftrightarrow> j - k - 1 < i"
      if "k \<le> j" using that by linarith+
    with 3 show ?thesis by (auto simp: shl_limb_def)
  next
    case 4
    then have "\<not> j - k < Suc i" and "\<not> j - k - 1 < Suc i" by linarith+
    with 4 show ?thesis by (simp add: shl_limb_def)
  qed
qed

lemma bu_shl_step_nth:
  assumes "j < WIDTH a" and "length pn = WIDTH a"
  shows "bu_shl_step a k s i pn ! j =
     (if j = i + k then pn ! j OR push_bit s (a ! i)
      else if j = i + k + 1 \<and> s \<noteq> 0 then pn ! j OR drop_bit (32 - s) (a ! i)
      else pn ! j)"
  using assms by (auto simp: bu_shl_step_def Let_def nth_list_update)

lemma bu_shl_invariant:
  "length (bu_shl a n) = WIDTH a \<and>
   (\<forall>j < WIDTH a. bu_shl a n ! j = shl_limb a (n div 32) (n mod 32) (WIDTH a) j)"
  unfolding bu_shl_def
proof (rule fold_invariant_upt [where P = "\<lambda>i pn. length pn = WIDTH a \<and>
    (\<forall>j < WIDTH a. pn ! j = shl_limb a (n div 32) (n mod 32) i j)"])
  show "length (base_uint_zero (WIDTH a)) = WIDTH a \<and>
      (\<forall>j < WIDTH a. base_uint_zero (WIDTH a) ! j = shl_limb a (n div 32) (n mod 32) 0 j)"
    by (simp add: base_uint_zero_def shl_limb_def)
next
  fix i pn
  assume "i < WIDTH a"
    and pn: "length pn = WIDTH a \<and> (\<forall>j < WIDTH a. pn ! j = shl_limb a (n div 32) (n mod 32) i j)"
  then show "length (bu_shl_step a (n div 32) (n mod 32) i pn) = WIDTH a \<and>
      (\<forall>j < WIDTH a. bu_shl_step a (n div 32) (n mod 32) i pn ! j =
        shl_limb a (n div 32) (n mod 32) (Suc i) j)"
    by (simp add: bu_shl_step_nth shl_limb_Suc) (simp add: bu_shl_step_def Let_def)
qed

lemma length_bu_shl [simp, length_simps]: "length (bu_shl a n) = WIDTH a"
  by (simp add: bu_shl_invariant)

lemma shift_index:
  fixes m n :: nat
  assumes "n \<le> m"
  shows "if n mod 32 \<le> m mod 32 then (m - n) div 32 = m div 32 - n div 32 \<and> (m - n) mod 32 = m mod 32 - n mod 32
    else n div 32 < m div 32 \<and> (m - n) div 32 = m div 32 - n div 32 - 1 \<and> (m - n) mod 32 = 32 + m mod 32 - n mod 32"
proof -
  define q r q' r' where "q = m div 32" and "r = m mod 32" and "q' = n div 32" and "r' = n mod 32"
  have m: "m = 32 * q + r" and n: "n = 32 * q' + r'" and r: "r < 32" "r' < 32"
    by (simp_all add: q_def r_def q'_def r'_def)
  have le: "q' \<le> q" unfolding q_def q'_def using assms by (rule div_le_mono)
  show ?thesis
    unfolding q_def [symmetric] r_def [symmetric] q'_def [symmetric] r'_def [symmetric]
  proof (cases "r' \<le> r")
    case True
    have "m - n = 32 * (q - q') + (r - r')" using True le assms unfolding m n by (simp add: diff_mult_distrib2)
    then have "(m - n) div 32 = q - q'" and "(m - n) mod 32 = r - r'" using r by simp_all
    with True show "if r' \<le> r then (m - n) div 32 = q - q' \<and> (m - n) mod 32 = r - r'
      else q' < q \<and> (m - n) div 32 = q - q' - 1 \<and> (m - n) mod 32 = 32 + r - r'" by simp
  next
    case False
    have lt: "q' < q"
    proof (rule ccontr)
      assume "\<not> q' < q"
      with le have "q = q'" by simp
      with False assms m n show False by simp
    qed
    then obtain d where d: "q = Suc (q' + d)" using less_imp_Suc_add by blast
    have "m - n = 32 * (q - q' - 1) + (32 + r - r')"
      using False r unfolding m n d by (simp add: algebra_simps)
    moreover have "32 + r - r' < 32" using False by simp
    ultimately have "(m - n) div 32 = q - q' - 1" and "(m - n) mod 32 = 32 + r - r'" by simp_all
    with False lt show "if r' \<le> r then (m - n) div 32 = q - q' \<and> (m - n) mod 32 = r - r'
      else q' < q \<and> (m - n) div 32 = q - q' - 1 \<and> (m - n) mod 32 = 32 + r - r'" by simp
  qed
qed

lemma bit_shl_limb:
  assumes "k = n div 32" and "s = n mod 32" and "j < w" and "b < 32"
  shows "bit (shl_limb a k s w j) b \<longleftrightarrow>
    n \<le> 32 * j + b \<and> bit (a ! ((32 * j + b - n) div 32)) ((32 * j + b - n) mod 32)"
proof (cases "n \<le> 32 * j + b")
  case False
  have "32 * k + s = n" and "s < 32" using assms(1,2) by simp_all
  with False have "j < k \<or> j = k \<and> b < s" using assms(4) by (cases "j < k") auto
  then show ?thesis using False by (auto simp: shl_limb_def bit_simps)
next
  case True
  have jb: "(32 * j + b) div 32 = j" "(32 * j + b) mod 32 = b" using assms(4) by simp_all
  have s: "s < 32" using assms(2) by simp
  note idx = shift_index [OF True, unfolded jb, folded assms(1,2)]
  have kj: "k \<le> j" using True div_le_mono [OF True, of 32] jb assms(1) by simp
  show ?thesis
  proof (cases "s \<le> b")
    case le: True
    have "\<not> bit (drop_bit (32 - s) (a ! (j - k - 1))) b" if "s \<noteq> 0"
      using le that by (auto simp: bit_simps dest!: bit_imp_le_length)
    then show ?thesis
      using idx True le kj assms(3,4) by (auto simp: shl_limb_def bit_simps)
  next
    case False
    then show ?thesis
      using idx True kj assms(3,4) s by (auto simp: shl_limb_def bit_simps)
  qed
qed

lemma uint_mod_2: "uint_mod w = 2 ^ (32 * w)"
  by (simp add: power_mult)

lemma uint_val_shl [uint_simps]: "uint_val (bu_shl a n) = (uint_val a * 2 ^ n) mod uint_mod (WIDTH a)"
proof -
  have "uint_val (bu_shl a n) = take_bit (32 * WIDTH a) (push_bit n (uint_val a))"
  proof (rule bit_eqI)
    fix m
    show "bit (uint_val (bu_shl a n)) m = bit (take_bit (32 * WIDTH a) (push_bit n (uint_val a))) m"
    proof (cases "m < 32 * WIDTH a")
      case True
      then have j: "m div 32 < WIDTH a" by (simp add: less_mult_imp_div_less mult.commute)
      have l: "(m - n) div 32 < WIDTH a" using True by (simp add: less_mult_imp_div_less mult.commute)
      have "bit (uint_val (bu_shl a n)) m \<longleftrightarrow>
          bit (shl_limb a (n div 32) (n mod 32) (WIDTH a) (m div 32)) (m mod 32)"
        using j bu_shl_invariant [of a n] by (simp add: uint_val_bit)
      also have "\<dots> \<longleftrightarrow> n \<le> m \<and> bit (a ! ((m - n) div 32)) ((m - n) mod 32)"
        using bit_shl_limb [OF refl refl j, where n = n and a = a and b = "m mod 32"] by simp
      finally show ?thesis using True l by (simp add: bit_simps uint_val_bit)
    next
      case False
      then show ?thesis by (simp add: bit_simps uint_val_bit div_less_iff_less_mult mult.commute)
    qed
  qed
  then show ?thesis by (simp add: take_bit_eq_mod push_bit_eq_mult power_mult)
qed

definition shr_limb :: "base_uint \<Rightarrow> nat \<Rightarrow> nat \<Rightarrow> nat \<Rightarrow> nat \<Rightarrow> u32" where
  "shr_limb a k s i j =
     (if j + k < i then drop_bit s (a ! (j + k)) else 0) OR
     (if j + k + 1 < i \<and> s \<noteq> 0 then push_bit (32 - s) (a ! (j + k + 1)) else 0)"

lemma shr_limb_Suc:
  "shr_limb a k s (Suc i) j =
     (if j + k = i then shr_limb a k s i j OR drop_bit s (a ! i)
      else if j + k + 1 = i \<and> s \<noteq> 0 then shr_limb a k s i j OR push_bit (32 - s) (a ! i)
      else shr_limb a k s i j)"
proof -
  consider "j + k = i" | "j + k + 1 = i" | "i < j + k" | "j + k + 1 < i" by linarith
  then show ?thesis
    by cases (auto simp: shr_limb_def)
qed

lemma bu_shr_step_nth:
  assumes "j < WIDTH a" and "length pn = WIDTH a" and "i < WIDTH a"
  shows "bu_shr_step a k s i pn ! j =
     (if j + k = i then pn ! j OR drop_bit s (a ! i)
      else if j + k + 1 = i \<and> s \<noteq> 0 then pn ! j OR push_bit (32 - s) (a ! i)
      else pn ! j)"
proof (cases "k \<le> i")
  case True
  then obtain d where "i = k + d" using le_Suc_ex by blast
  with assms show ?thesis
    by (cases d) (auto simp: bu_shr_step_def Let_def nth_list_update add.commute)
next
  case False
  then show ?thesis by (simp add: bu_shr_step_def)
qed

lemma bu_shr_invariant:
  "length (bu_shr a n) = WIDTH a \<and>
   (\<forall>j < WIDTH a. bu_shr a n ! j = shr_limb a (n div 32) (n mod 32) (WIDTH a) j)"
  unfolding bu_shr_def
proof (rule fold_invariant_upt [where P = "\<lambda>i pn. length pn = WIDTH a \<and>
    (\<forall>j < WIDTH a. pn ! j = shr_limb a (n div 32) (n mod 32) i j)"])
  show "length (base_uint_zero (WIDTH a)) = WIDTH a \<and>
      (\<forall>j < WIDTH a. base_uint_zero (WIDTH a) ! j = shr_limb a (n div 32) (n mod 32) 0 j)"
    by (simp add: base_uint_zero_def shr_limb_def)
next
  fix i pn
  assume "i < WIDTH a"
    and pn: "length pn = WIDTH a \<and> (\<forall>j < WIDTH a. pn ! j = shr_limb a (n div 32) (n mod 32) i j)"
  then show "length (bu_shr_step a (n div 32) (n mod 32) i pn) = WIDTH a \<and>
      (\<forall>j < WIDTH a. bu_shr_step a (n div 32) (n mod 32) i pn ! j =
        shr_limb a (n div 32) (n mod 32) (Suc i) j)"
    by (simp add: bu_shr_step_nth shr_limb_Suc) (simp add: bu_shr_step_def Let_def)
qed

lemma length_bu_shr [simp, length_simps]: "length (bu_shr a n) = WIDTH a"
  by (simp add: bu_shr_invariant)

lemma shift_index_add:
  fixes m n :: nat
  shows "if m mod 32 + n mod 32 < 32
    then (m + n) div 32 = m div 32 + n div 32 \<and> (m + n) mod 32 = m mod 32 + n mod 32
    else (m + n) div 32 = m div 32 + n div 32 + 1 \<and> (m + n) mod 32 = m mod 32 + n mod 32 - 32"
proof -
  define q r q' r' where "q = m div 32" and "r = m mod 32" and "q' = n div 32" and "r' = n mod 32"
  have m: "m = 32 * q + r" and n: "n = 32 * q' + r'" and r: "r < 32" "r' < 32"
    by (simp_all add: q_def r_def q'_def r'_def)
  have "(m + n) div 32 = q + q' + (r + r') div 32" and "(m + n) mod 32 = (r + r') mod 32"
  proof -
    have "m + n = (r + r') + 32 * (q + q')" using m n by simp
    then show "(m + n) div 32 = q + q' + (r + r') div 32" and "(m + n) mod 32 = (r + r') mod 32"
      by (simp_all only: mod_mult_self2 div_mult_self2 zero_neq_numeral not_False_eq_True)
  qed
  moreover have "(r + r') div 32 = (if r + r' < 32 then 0 else 1)" and
    "(r + r') mod 32 = (if r + r' < 32 then r + r' else r + r' - 32)"
    using r by (simp_all add: le_div_geq le_mod_geq)
  ultimately show ?thesis
    unfolding q_def [symmetric] r_def [symmetric] q'_def [symmetric] r'_def [symmetric] by simp
qed

lemma bit_shr_limb:
  assumes "b < 32"
  shows "bit (shr_limb a (n div 32) (n mod 32) w j) b \<longleftrightarrow>
    (32 * j + b + n) div 32 < w \<and> bit (a ! ((32 * j + b + n) div 32)) ((32 * j + b + n) mod 32)"
proof -
  have jb: "(32 * j + b) div 32 = j" "(32 * j + b) mod 32 = b" using assms by simp_all
  define k s where "k = n div 32" and "s = n mod 32"
  note idx = shift_index_add [of "32 * j + b" n, unfolded jb, folded k_def s_def]
  have s: "s < 32" by (simp add: s_def)
  show ?thesis unfolding k_def [symmetric] s_def [symmetric]
  proof (cases "b + s < 32")
    case True
    then have "\<not> 32 - s \<le> b" using s by linarith
    then have "\<not> bit (push_bit (32 - s) (a ! (j + k + 1))) b" by (simp add: bit_simps)
    with True idx show "bit (shr_limb a k s w j) b = ((32 * j + b + n) div 32 < w \<and>
        bit (a ! ((32 * j + b + n) div 32)) ((32 * j + b + n) mod 32))"
      by (auto simp: shr_limb_def bit_simps add.commute)
  next
    case False
    then have "\<not> bit (drop_bit s (a ! (j + k))) b"
      by (auto simp: bit_simps dest!: bit_imp_le_length)
    with False idx assms s show "bit (shr_limb a k s w j) b = ((32 * j + b + n) div 32 < w \<and>
        bit (a ! ((32 * j + b + n) div 32)) ((32 * j + b + n) mod 32))"
      by (auto simp: shr_limb_def bit_simps)
  qed
qed

lemma uint_val_shr [uint_simps]: "uint_val (bu_shr a n) = uint_val a div 2 ^ n"
proof -
  have "uint_val (bu_shr a n) = drop_bit n (uint_val a)"
  proof (rule bit_eqI)
    fix m
    show "bit (uint_val (bu_shr a n)) m = bit (drop_bit n (uint_val a)) m"
    proof (cases "m div 32 < WIDTH a")
      case True
      then have "bit (uint_val (bu_shr a n)) m \<longleftrightarrow>
          bit (shr_limb a (n div 32) (n mod 32) (WIDTH a) (m div 32)) (m mod 32)"
        using bu_shr_invariant [of a n] by (simp add: uint_val_bit)
      also have "\<dots> \<longleftrightarrow> (m + n) div 32 < WIDTH a \<and> bit (a ! ((m + n) div 32)) ((m + n) mod 32)"
        using bit_shr_limb [of "m mod 32" a n "WIDTH a" "m div 32"] by simp
      finally show ?thesis by (simp add: bit_simps uint_val_bit add.commute)
    next
      case False
      moreover have "m div 32 \<le> (n + m) div 32" by (rule div_le_mono) simp
      ultimately show ?thesis by (simp add: bit_simps uint_val_bit)
    qed
  qed
  then show ?thesis by (simp add: drop_bit_eq_div)
qed

lemma bu_xor_nth: "length a = length b \<Longrightarrow> length (bu_xor a b) = length a \<and> (\<forall>i < length a. bu_xor a b ! i = a ! i XOR b ! i)"
  and bu_and_nth: "length a = length b \<Longrightarrow> length (bu_and a b) = length a \<and> (\<forall>i < length a. bu_and a b ! i = a ! i AND b ! i)"
  and bu_or_nth: "length a = length b \<Longrightarrow> length (bu_or a b) = length a \<and> (\<forall>i < length a. bu_or a b ! i = a ! i OR b ! i)"
  by (induction a b rule: list_induct2; simp add: all_less_Suc_cases)+

lemma uint_val_bitwise [uint_simps]:
  assumes "WIDTH a = WIDTH b"
  shows "uint_val (bu_xor a b) = uint_val a XOR uint_val b"
    and "uint_val (bu_and a b) = uint_val a AND uint_val b"
    and "uint_val (bu_or a b) = uint_val a OR uint_val b"
  using bu_xor_nth [OF assms] bu_and_nth [OF assms] bu_or_nth [OF assms] assms
  by (auto intro!: bit_eqI simp: uint_val_bit bit_simps)

section \<open>Comparison and bit length\<close>

lemma bu_compare_loop_snoc:
  "length xs = length ys \<Longrightarrow>
   bu_compare_loop (xs @ [p]) (ys @ [b]) =
     (if bu_compare_loop xs ys = 0 then (if p < b then -1 else if b < p then 1 else 0)
      else bu_compare_loop xs ys)"
  by (induction xs ys rule: list_induct2) simp_all

lemma bu_compare_sgn:
  "length a = length b \<Longrightarrow> bu_compare a b = sgn (int (uint_val a) - int (uint_val b))"
proof (induction a b rule: list_induct2)
  case Nil
  show ?case by (simp add: bu_compare_def)
next
  case (Cons p ps b bs)
  have rec: "bu_compare (p # ps) (b # bs) =
      (if bu_compare ps bs = 0 then (if p < b then -1 else if b < p then 1 else 0) else bu_compare ps bs)"
    using Cons.hyps by (simp add: bu_compare_def bu_compare_loop_snoc)
  have pb: "unat p < 4294967296" "unat b < 4294967296" by (rule unat_lt_2p32)+
  consider "uint_val ps = uint_val bs" | "uint_val ps < uint_val bs" | "uint_val bs < uint_val ps"
    by linarith
  then show ?case
  proof cases
    case 1
    then show ?thesis using Cons.IH
      by (simp add: rec word_less_def sgn_if)
  next
    case 2
    then have "uint_val ps + 1 \<le> uint_val bs" by simp
    then have "uint_val (p # ps) < uint_val (b # bs)" using pb by simp
    with 2 Cons.IH show ?thesis by (simp add: rec del: uint_val.simps)
  next
    case 3
    then have "uint_val bs + 1 \<le> uint_val ps" by simp
    then have "uint_val (b # bs) < uint_val (p # ps)" using pb by simp
    with 3 Cons.IH show ?thesis by (simp add: rec del: uint_val.simps)
  qed
qed

lemma bu_compare_ge [uint_simps]: "length a = length b \<Longrightarrow> bu_compare a b \<ge> 0 \<longleftrightarrow> uint_val b \<le> uint_val a"
  and bu_compare_gt [uint_simps]: "length a = length b \<Longrightarrow> bu_compare a b > 0 \<longleftrightarrow> uint_val b < uint_val a"
  and bu_compare_lt [uint_simps]: "length a = length b \<Longrightarrow> bu_compare a b < 0 \<longleftrightarrow> uint_val a < uint_val b"
  and bu_compare_le [uint_simps]: "length a = length b \<Longrightarrow> bu_compare a b \<le> 0 \<longleftrightarrow> uint_val a \<le> uint_val b"
  by (auto simp: bu_compare_sgn sgn_if)

lemma bu_is_null_iff [uint_simps]: "bu_is_null x \<longleftrightarrow> uint_val x = 0"
  by (induction x rule: bu_is_null.induct) (simp_all add: unat_eq_zero)

lemma limb_bits_spec:
  "(\<exists>m \<le> n. bit p m) \<Longrightarrow>
   bit p (limb_bits n p) \<and> (\<forall>m. limb_bits n p < m \<and> m \<le> n \<longrightarrow> \<not> bit p m)"
proof (induction n)
  case 0
  then show ?case by auto
next
  case (Suc n)
  show ?case
  proof (cases "bit p (Suc n)")
    case True
    then show ?thesis by (auto simp: bit_iff_and_push_bit_not_eq_0)
  next
    case False
    with Suc.prems have "\<exists>m \<le> n. bit p m" using le_Suc_eq by blast
    with Suc.IH False show ?thesis
      by (auto simp: bit_iff_and_push_bit_not_eq_0 le_Suc_eq)
  qed
qed

lemma limb_bits_bounds:
  assumes "p \<noteq> 0"
  shows "2 ^ limb_bits 31 p \<le> unat p \<and> unat p < 2 ^ Suc (limb_bits 31 p)"
proof (rule highest_bit_bounds)
  obtain m where "bit p m" using assms by (metis bit_eqI bit_0_eq bot_apply bot_bool_def)
  moreover from this have "m \<le> 31" by (auto dest: bit_imp_le_length)
  ultimately have sp: "bit p (limb_bits 31 p) \<and> (\<forall>m. limb_bits 31 p < m \<and> m \<le> 31 \<longrightarrow> \<not> bit p m)"
    by (intro limb_bits_spec) blast
  then show "bit (unat p) (limb_bits 31 p)" by (simp add: bit_simps)
  show "\<not> bit (unat p) m" if "limb_bits 31 p < m" for m
  proof
    assume "bit (unat p) m"
    then have "bit p m" by (simp add: bit_simps)
    moreover from this have "m \<le> 31" by (auto dest: bit_imp_le_length)
    ultimately show False using sp that by blast
  qed
qed

lemma bu_bits_snoc:
  "bu_bits (xs @ [p]) = (if p \<noteq> 0 then 32 * length xs + limb_bits 31 p + 1 else bu_bits xs)"
  by (simp add: bu_bits_def)

lemma bu_bits_bounds:
  "if uint_val x = 0 then bu_bits x = 0
   else 0 < bu_bits x \<and> 2 ^ (bu_bits x - 1) \<le> uint_val x \<and> uint_val x < 2 ^ bu_bits x"
proof (induction x rule: rev_induct)
  case Nil
  show ?case by (simp add: bu_bits_def)
next
  case (snoc p xs)
  show ?case
  proof (cases "p = 0")
    case True
    then have "uint_val (xs @ [p]) = uint_val xs" and "bu_bits (xs @ [p]) = bu_bits xs"
      by (simp_all add: bu_bits_snoc uint_val_append)
    with snoc show ?thesis by (simp only:)
  next
    case False
    let ?l = "limb_bits 31 p" and ?M = "2 ^ (32 * length xs) :: nat"
    have lo: "2 ^ ?l \<le> unat p" and hi: "unat p + 1 \<le> 2 ^ Suc ?l"
      using limb_bits_bounds [OF False] by auto
    have v: "uint_val (xs @ [p]) = uint_val xs + ?M * unat p"
      by (simp add: uint_val_append uint_mod_2)
    have "?M * 2 ^ ?l \<le> ?M * unat p" using lo by (rule mult_le_mono2)
    moreover have "?M * (unat p + 1) \<le> ?M * 2 ^ Suc ?l" using hi by (rule mult_le_mono2)
    moreover have "uint_val xs < ?M" using uint_val_less [of xs] by (simp add: uint_mod_2)
    moreover have "?M * 2 ^ ?l = 2 ^ (bu_bits (xs @ [p]) - 1)" and
      "?M * 2 ^ Suc ?l = 2 ^ bu_bits (xs @ [p])"
      using False by (simp_all add: bu_bits_snoc flip: power_add)
    ultimately have "2 ^ (bu_bits (xs @ [p]) - 1) \<le> uint_val (xs @ [p])"
      and "uint_val (xs @ [p]) < 2 ^ bu_bits (xs @ [p])"
      unfolding v distrib_left mult_1_right by linarith+
    then show ?thesis using False by (simp add: bu_bits_snoc)
  qed
qed

lemma bu_bits_eq_0_iff: "bu_bits x = 0 \<longleftrightarrow> uint_val x = 0"
  using bu_bits_bounds [of x] by (auto split: if_splits)

lemma bu_bits_less: "uint_val x < 2 ^ bu_bits x"
  using bu_bits_bounds [of x] by (auto split: if_splits)

lemma bu_bits_le: "bu_bits x \<le> 32 * WIDTH x"
proof (cases "uint_val x = 0")
  case True
  then have "bu_bits x = 0" by (simp only: bu_bits_eq_0_iff)
  then show ?thesis by simp
next
  case False
  then have "2 ^ (bu_bits x - 1) \<le> uint_val x" using bu_bits_bounds [of x] by simp
  also have "\<dots> < 2 ^ (32 * WIDTH x)" using uint_val_less [of x] by (simp only: uint_mod_2)
  finally have "(2 :: nat) ^ (bu_bits x - 1) < 2 ^ (32 * WIDTH x)" .
  then have "bu_bits x - 1 < 32 * WIDTH x" by (rule power_less_imp_less_exp [rotated]) simp
  then show ?thesis by simp
qed

section \<open>Division\<close>

lemma length_bu_div_loop:
  "length (bu_div_loop n num dv q) = length q"
  by (induction n num dv q rule: bu_div_loop.induct) simp_all

lemma uint_val_set_bit:
  assumes "n div 32 < WIDTH q"
  shows "uint_val (q[n div 32 := q ! (n div 32) OR push_bit (n mod 32) 1]) = uint_val q OR push_bit n 1"
proof (rule bit_eqI)
  fix m
  have "m = n \<longleftrightarrow> m div 32 = n div 32 \<and> m mod 32 = n mod 32" by (metis div_mult_mod_eq)
  moreover have "bit (push_bit (n mod 32) 1 :: u32) (m mod 32) \<longleftrightarrow> m mod 32 = n mod 32"
    by (auto simp: bit_simps)
  moreover have "bit (push_bit n 1 :: nat) m \<longleftrightarrow> m = n" by (auto simp: bit_simps)
  ultimately show "bit (uint_val (q[n div 32 := q ! (n div 32) OR push_bit (n mod 32) 1])) m =
      bit (uint_val q OR push_bit n 1) m"
    using assms by (auto simp: uint_val_bit bit_or_iff nth_list_update)
qed

lemma or_bit_clear:
  fixes v :: nat
  assumes "2 ^ Suc n dvd v"
  shows "v OR push_bit n 1 = v + 2 ^ n"
proof -
  have "\<not> bit v n" using assms by (auto simp: bit_iff_odd dvd_div_iff_mult elim!: dvdE)
  then have "v + push_bit n 1 = v OR push_bit n 1"
    by (intro disjunctive_add) (auto simp: bit_simps)
  then show ?thesis by (simp add: push_bit_eq_mult)
qed

lemma uint_val_div_loop:
  assumes "WIDTH num = w" and "WIDTH dv = w" and "WIDTH q = w" and "n \<le> 32 * w" and "0 < d"
    and "0 < n \<Longrightarrow> uint_val dv = d * 2 ^ (n - 1)" and "uint_val num < d * 2 ^ n" and "2 ^ n dvd uint_val q"
  shows "uint_val (bu_div_loop n num dv q) = uint_val q + uint_val num div d"
  using assms
proof (induction n num dv q rule: bu_div_loop.induct)
  case (1 num dv q)
  then show ?case by simp
next
  case (2 s num dv q)
  have dv: "uint_val dv = d * 2 ^ s" using "2.prems"(6) by simp
  have dv': "uint_val (bu_shr dv 1) = d * 2 ^ (s - 1)" if "0 < s"
    using that by (cases s) (simp_all add: uint_val_shr dv)
  have s: "s div 32 < w" using "2.prems"(4) by (simp add: less_mult_imp_div_less mult.commute)
  have dvd: "2 ^ s dvd uint_val q" using "2.prems"(8) by (rule power_le_dvd) simp
  show ?case
  proof (cases "bu_compare num dv \<ge> 0")
    case True
    let ?q = "q[s div 32 := q ! (s div 32) OR push_bit (s mod 32) 1]"
    have le: "d * 2 ^ s \<le> uint_val num" using True "2.prems"(1,2) by (simp add: bu_compare_ge dv)
    have q: "uint_val ?q = uint_val q + 2 ^ s"
      using uint_val_set_bit [of s q] or_bit_clear [OF "2.prems"(8)] s "2.prems"(3) by simp
    have num: "uint_val (bu_sub num dv) = uint_val num - d * 2 ^ s"
      using le "2.prems"(1,2) by (simp add: uint_val_sub_le dv)
    have "uint_val (bu_div_loop s (bu_sub num dv) (bu_shr dv 1) ?q) =
        uint_val ?q + uint_val (bu_sub num dv) div d"
      using "2.prems" dv' dvd q num by (intro "2.IH"(1) [OF True]) simp_all
    moreover have "(uint_val num - d * 2 ^ s) div d + 2 ^ s = uint_val num div d"
      using le "2.prems"(5) by (metis add.commute div_mult_self2 le_add_diff_inverse2 less_irrefl)
    ultimately show ?thesis using True q num by simp
  next
    case False
    then have "uint_val num < d * 2 ^ s" using "2.prems"(1,2) by (simp add: bu_compare_ge dv)
    then have "uint_val (bu_div_loop s num (bu_shr dv 1) q) = uint_val q + uint_val num div d"
      using "2.prems" dv' dvd by (intro "2.IH"(2) [OF False]) simp_all
    with False show ?thesis by simp
  qed
qed

lemma bu_div_zero: "uint_val b = 0 \<Longrightarrow> bu_div a b = None"
  by (simp add: bu_div_def bu_bits_eq_0_iff)

lemma bu_div_correct:
  assumes "WIDTH a = WIDTH b" and "uint_val b \<noteq> 0"
  shows "\<exists>q. bu_div a b = Some q \<and> WIDTH q = WIDTH a \<and> uint_val q = uint_val a div uint_val b"
proof (cases "bu_bits b > bu_bits a")
  case True
  have "uint_val a < 2 ^ bu_bits a" by (rule bu_bits_less)
  also have "\<dots> \<le> 2 ^ (bu_bits b - 1)" using True by (intro power_increasing) simp_all
  also have "\<dots> \<le> uint_val b" using bu_bits_bounds [of b] assms(2) by simp
  finally have "uint_val a div uint_val b = 0" by simp
  with True assms show ?thesis by (simp add: bu_div_def bu_bits_eq_0_iff)
next
  case False
  define sh where "sh = bu_bits a - bu_bits b"
  have sum: "bu_bits b + sh = bu_bits a" using False by (simp add: sh_def)
  have b0: "0 < bu_bits b" and blo: "2 ^ (bu_bits b - 1) \<le> uint_val b" and bhi: "uint_val b < 2 ^ bu_bits b"
    using bu_bits_bounds [of b] assms(2) by auto
  have "uint_val b * 2 ^ sh < 2 ^ bu_bits b * 2 ^ sh" using bhi by simp
  also have "\<dots> = 2 ^ bu_bits a" by (simp add: sum flip: power_add)
  also have "\<dots> \<le> 2 ^ (32 * WIDTH a)" using bu_bits_le by (intro power_increasing) simp_all
  finally have shl: "uint_val (bu_shl b sh) = uint_val b * 2 ^ sh"
    using assms(1) by (simp add: uint_val_shl uint_mod_2)
  have "uint_val a < 2 ^ (bu_bits b - 1) * 2 ^ Suc sh"
    using bu_bits_less [of a] b0 unfolding sum [symmetric]
    by (cases "bu_bits b") (simp_all add: power_add mult_ac)
  also have "\<dots> \<le> uint_val b * 2 ^ Suc sh" using blo by (rule mult_le_mono1)
  finally have num: "uint_val a < uint_val b * 2 ^ Suc sh" .
  have "Suc sh \<le> 32 * WIDTH a" using bu_bits_le [of a] sum b0 by linarith
  then have "uint_val (bu_div_loop (Suc sh) a (bu_shl b sh) (base_uint_zero (WIDTH a))) =
      0 + uint_val a div uint_val b"
    using assms shl num by (subst uint_val_div_loop [where w = "WIDTH a" and d = "uint_val b"]) simp_all
  with False b0 show ?thesis
    by (simp add: bu_div_def sh_def length_bu_div_loop Let_def del: bu_div_loop.simps)
qed

section \<open>The compact encoding as arithmetic\<close>

lemma length_base_uint_of_u64 [simp, length_simps]: "2 \<le> w \<Longrightarrow> length (base_uint_of_u64 w b) = w"
  by (simp add: base_uint_of_u64_def)

lemma uint_val_of_u64 [simp, uint_simps]: "uint_val (base_uint_of_u64 w b) = unat b"
proof -
  have "unat b div 4294967296 < 4294967296" using unat_lt_2p64 [of b] by simp
  then show ?thesis by (simp add: base_uint_of_u64_def unat_drop_bit_64_32)
qed

lemma unat_get_low64:
  assumes "2 \<le> WIDTH x"
  shows "unat (bu_get_low64 x) = uint_val x mod 18446744073709551616"
proof -
  obtain p q ps where x: "x = p # q # ps" using assms by (cases x; cases "tl x") auto
  have "ucast p OR push_bit 32 (ucast q :: u64) = ucast p + push_bit 32 (ucast q)"
    by (rule disjunctive_add [symmetric]) (auto simp: bit_simps dest: bit_imp_le_length)
  moreover have "unat (push_bit 32 (ucast q :: u64)) = 4294967296 * unat q"
    using unat_lt_2p32 [of q] by (simp add: push_bit_eq_mult unat_mult_no_wrap)
  ultimately have "unat (bu_get_low64 x) = unat p + 4294967296 * unat q"
    using unat_lt_2p32 [of p] unat_lt_2p32 [of q]
    by (simp add: bu_get_low64_def x unat_add_no_wrap)
  also have "\<dots> = (unat p + 4294967296 * unat q + 18446744073709551616 * uint_val ps) mod 18446744073709551616"
    using unat_lt_2p32 [of p] unat_lt_2p32 [of q] by simp
  finally show ?thesis by (simp add: x algebra_simps)
qed

text \<open>The byte length used by \<open>GetCompact\<close>.\<close>

lemma byte_size_bounds:
  assumes "uint_val x \<noteq> 0"
  defines "n \<equiv> (bu_bits x + 7) div 8"
  shows "0 < n" and "256 ^ (n - 1) \<le> uint_val x" and "uint_val x < 256 ^ n"
proof -
  have b: "0 < bu_bits x" "2 ^ (bu_bits x - 1) \<le> uint_val x" "uint_val x < 2 ^ bu_bits x"
    using bu_bits_bounds [of x] assms(1) by auto
  show "0 < n" using b(1) by (simp add: n_def)
  have "8 * (n - 1) \<le> bu_bits x - 1" using b(1) unfolding n_def by linarith
  then have "(2 :: nat) ^ (8 * (n - 1)) \<le> 2 ^ (bu_bits x - 1)" by (rule power_increasing) simp
  with b(2) show "256 ^ (n - 1) \<le> uint_val x" by (simp add: power_mult)
  have "bu_bits x \<le> 8 * n" unfolding n_def by linarith
  then have "(2 :: nat) ^ bu_bits x \<le> 2 ^ (8 * n)" by (rule power_increasing) simp
  with b(3) show "uint_val x < 256 ^ n" by (simp add: power_mult)
qed

definition compact_enc :: "nat \<Rightarrow> nat \<Rightarrow> nat \<times> nat" where
  "compact_enc n v =
     (let m = (if n \<le> 3 then v * 256 ^ (3 - n) else v div 256 ^ (n - 3))
      in if m \<ge> 8388608 then (m div 256, n + 1) else (m, n))"

definition compact_dec :: "nat \<times> nat \<Rightarrow> nat" where
  "compact_dec p = (if snd p \<le> 3 then fst p div 256 ^ (3 - snd p) else fst p * 256 ^ (snd p - 3))"

lemma bit_23_iff:
  fixes x :: u32
  assumes "unat x < 16777216"
  shows "x AND 0x00800000 \<noteq> 0 \<longleftrightarrow> unat x \<ge> 8388608"
proof -
  have "x AND 0x00800000 \<noteq> 0 \<longleftrightarrow> bit (unat x) 23"
    using bit_iff_and_push_bit_not_eq_0 [of x 23] by (simp add: bit_simps)
  also have "\<dots> \<longleftrightarrow> odd (unat x div 8388608)" by (simp add: bit_iff_odd)
  also have "\<dots> \<longleftrightarrow> unat x \<ge> 8388608"
  proof (cases "unat x \<ge> 8388608")
    case True
    then have "unat x div 8388608 = 1" using assms by simp
    with True show ?thesis by simp
  qed simp
  finally show ?thesis .
qed

lemma compact_mantissa_bound:
  fixes v n :: nat
  assumes "v < 256 ^ n"
  shows "(if n \<le> 3 then v * 256 ^ (3 - n) else v div 256 ^ (n - 3)) < 16777216"
proof (cases "n \<le> 3")
  case True
  have "v * 256 ^ (3 - n) < 256 ^ n * 256 ^ (3 - n)" using assms by simp
  also have "\<dots> = 256 ^ 3" using True by (simp only: le_add_diff_inverse flip: power_add)
  finally show ?thesis using True by simp
next
  case False
  then have "(256 :: nat) ^ n = 256 ^ (n - 3) * 256 ^ 3" by (simp only: linear le_add_diff_inverse2 flip: power_add)
  then have "v < 256 ^ (n - 3) * 16777216" using assms by simp
  then show ?thesis using False by (simp add: div_less_iff_less_mult mult.commute)
qed

text \<open>What \<open>GetCompact\<close> computes, and that its two assertions never fail.\<close>

lemma unat_ucast_small: "unat (y :: u64) < 4294967296 \<Longrightarrow> unat (ucast y :: u32) = unat y"
  by simp

lemma GetCompact_mantissa:
  assumes "WIDTH x = 8"
  defines "n \<equiv> (bu_bits x + 7) div 8"
  shows "unat ((if n \<le> 3 then ucast (push_bit (8 * (3 - n)) (bu_get_low64 x))
      else ucast (bu_get_low64 (bu_shr x (8 * (n - 3))))) :: u32) =
    (if n \<le> 3 then uint_val x * 256 ^ (3 - n) else uint_val x div 256 ^ (n - 3))"
proof -
  have v: "uint_val x < 256 ^ n"
    using byte_size_bounds(3) [of x] by (cases "uint_val x = 0") (simp_all add: n_def)
  note b = compact_mantissa_bound [OF v]
  show ?thesis
  proof (cases "n \<le> 3")
    case True
    have "uint_val x < 16777216" by (rule le_less_trans [of _ "uint_val x * 256 ^ (3 - n)"]) (use b True in simp_all)
    then have low: "unat (bu_get_low64 x) = uint_val x" using assms(1) by (simp add: unat_get_low64)
    have "unat (push_bit (8 * (3 - n)) (bu_get_low64 x)) = uint_val x * 256 ^ (3 - n)"
      using b True by (simp only: unat_push_bit_u64 low) (simp add: power_mult)
    then show ?thesis using True b by simp
  next
    case False
    have "unat (bu_get_low64 (bu_shr x (8 * (n - 3)))) = uint_val x div 256 ^ (n - 3)"
      using b False assms(1) by (simp add: unat_get_low64 uint_val_shr power_mult)
    then show ?thesis using False b by simp
  qed
qed

lemma bit_small_u32: "unat (c :: u32) < 2 ^ k \<Longrightarrow> bit c m \<Longrightarrow> m < k"
proof -
  assume "unat c < 2 ^ k" and "bit c m"
  then have "bit (take_bit k (unat c)) m" by (simp add: take_bit_nat_eq_self bit_simps)
  then show "m < k" by (simp add: bit_simps)
qed

lemma GetCompact_value:
  assumes "WIDTH x = 8"
  defines "n \<equiv> (bu_bits x + 7) div 8"
  obtains c m k where "GetCompact False x = Some c" and "compact_enc n (uint_val x) = (m, k)"
    and "unat c = m + 16777216 * k" and "m < 8388608" and "k \<le> 33"
proof -
  define c0 :: u32 where "c0 = (if n \<le> 3 then ucast (push_bit (8 * (3 - n)) (bu_get_low64 x))
      else ucast (bu_get_low64 (bu_shr x (8 * (n - 3)))))"
  define m0 where "m0 = (if n \<le> 3 then uint_val x * 256 ^ (3 - n) else uint_val x div 256 ^ (n - 3))"
  have c0: "unat c0 = m0" unfolding c0_def m0_def n_def using assms(1) by (rule GetCompact_mantissa)
  have "uint_val x < 256 ^ n"
    using byte_size_bounds(3) [of x] by (cases "uint_val x = 0") (simp_all add: n_def)
  then have m0: "m0 < 16777216" unfolding m0_def by (rule compact_mantissa_bound)
  have n: "n \<le> 32" using bu_bits_le [of x] assms(1) by (simp add: n_def)
  define c1 where "c1 = (if c0 AND 0x00800000 \<noteq> 0 then drop_bit 8 c0 else c0)"
  define k where "k = (if c0 AND 0x00800000 \<noteq> 0 then n + 1 else n)"
  have big: "c0 AND 0x00800000 \<noteq> 0 \<longleftrightarrow> m0 \<ge> 8388608" using bit_23_iff [of c0] c0 m0 by simp
  have enc: "compact_enc n (uint_val x) = (unat c1, k)"
    using big c0 by (simp only: compact_enc_def Let_def c1_def k_def m0_def [symmetric]) (simp add: unat_drop_bit_u32)
  have "m0 div 256 < 8388608" using m0 by arith
  then have c1: "unat c1 < 8388608" using big c0
    by (simp add: c1_def unat_drop_bit_u32)
  have k: "k \<le> 33" using n by (simp add: k_def)
  have a1: "c1 AND NOT 0x007fffff = 0"
  proof -
    have "\<not> bit (c1 AND NOT (mask 23)) i" for i
      using bit_small_u32 [of c1 23 i] c1 by (auto simp: bit_simps)
    then have "c1 AND NOT (mask 23) = 0" by (simp add: bit_eq_iff)
    then show ?thesis by (simp add: mask_numeral)
  qed
  have uk: "unat (push_bit 24 (of_nat k) :: u32) = 16777216 * k"
    using k by (simp only: unat_push_bit_u32) (simp add: unat_of_nat)
  have hi: "\<not> bit c1 i" if "24 \<le> i" for i using bit_small_u32 [of c1 23 i] c1 that by auto
  have "c1 OR push_bit 24 (of_nat k) = c1 + push_bit 24 (of_nat k)"
    by (intro disjunctive_add [symmetric]) (auto simp: bit_simps hi)
  then have sum: "unat (c1 OR push_bit 24 (of_nat k)) = unat c1 + 16777216 * k"
    using uk c1 k by (simp add: unat_word_ariths)
  have "GetCompact False x = Some (c1 OR push_bit 24 (of_nat k))"
    using a1 k
    by (simp only: GetCompact_def n_def [symmetric] c0_def [symmetric] c1_def [symmetric] k_def [symmetric] Let_def)
      simp
  then show thesis using that enc sum c1 k by blast
qed

lemma unat_mask23: "unat (c AND 0x007fffff :: u32) = unat c mod 8388608"
proof -
  have "c AND 0x007fffff = take_bit 23 c" by (simp add: take_bit_eq_mask mask_numeral)
  then show ?thesis by (simp only: unsigned_take_bit_eq) (simp add: take_bit_eq_mod)
qed

lemma sign_bit_iff: "c AND 0x00800000 \<noteq> (0 :: u32) \<longleftrightarrow> odd (unat c div 8388608)"
proof -
  have "c AND 0x00800000 \<noteq> 0 \<longleftrightarrow> bit (unat c) 23"
    using bit_iff_and_push_bit_not_eq_0 [of c 23] by (simp add: bit_simps)
  then show ?thesis by (simp add: bit_iff_odd)
qed

text \<open>
  The mantissa word after the shift for small exponents, the value, and the two flags.  In
  particular \<open>fOverflow\<close> is set exactly when the encoded number needs more than 256 bits.
\<close>

definition compact_word :: "u32 \<Rightarrow> u32" where
  "compact_word c = (if unat c div 16777216 \<le> 3
     then drop_bit (8 * (3 - unat c div 16777216)) (c AND 0x007fffff) else c AND 0x007fffff)"

lemma unat_compact_word:
  "unat (compact_word c) =
     (if unat c div 16777216 \<le> 3 then (unat c mod 8388608) div 256 ^ (3 - unat c div 16777216)
      else unat c mod 8388608)"
  by (cases "unat c div 16777216 \<le> 3")
    (simp_all only: compact_word_def if_True if_False unat_drop_bit_u32 unat_mask23, simp_all add: power_mult)

lemma SetCompact_unfold:
  "SetCompact c =
    (if unat c div 16777216 \<le> 3 then base_uint_of_u64 8 (ucast (compact_word c))
     else bu_shl (base_uint_of_u64 8 (ucast (compact_word c))) (8 * (unat c div 16777216 - 3)),
     compact_word c \<noteq> 0 \<and> c AND 0x00800000 \<noteq> 0,
     compact_word c \<noteq> 0 \<and> (unat c div 16777216 > 34 \<or> compact_word c > 0xff \<and> unat c div 16777216 > 33
       \<or> compact_word c > 0xffff \<and> unat c div 16777216 > 32))"
proof -
  have "unat (drop_bit 24 c) = unat c div 16777216" by (simp only: unat_drop_bit_u32) simp
  then show ?thesis by (simp only: SetCompact_def Let_def compact_word_def)
qed

lemma SetCompact_value:
  assumes "SetCompact c = (v, neg, ovf)"
  shows "WIDTH v = 8"
    and "uint_val v = compact_dec (unat c mod 8388608, unat c div 16777216) mod uint_mod 8"
proof -
  have v: "v = (if unat c div 16777216 \<le> 3 then base_uint_of_u64 8 (ucast (compact_word c))
     else bu_shl (base_uint_of_u64 8 (ucast (compact_word c))) (8 * (unat c div 16777216 - 3)))"
    using assms by (simp only: SetCompact_unfold prod.inject)
  show "WIDTH v = 8" unfolding v by simp
  show "uint_val v = compact_dec (unat c mod 8388608, unat c div 16777216) mod uint_mod 8"
  proof (cases "unat c div 16777216 \<le> 3")
    case True
    have "unat c mod 8388608 div 256 ^ (3 - unat c div 16777216) < uint_mod 8"
      by (rule le_less_trans [OF div_le_dividend], rule less_trans [of _ 8388608]) simp_all
    with True show ?thesis unfolding v by (simp add: compact_dec_def unat_compact_word)
  next
    case False
    then show ?thesis unfolding v by (simp add: compact_dec_def unat_compact_word uint_val_shl power_mult)
  qed
qed

lemma power256_le_iff: "(256 :: nat) ^ a \<le> 256 ^ b \<longleftrightarrow> a \<le> b"
  by simp

lemma compact_overflow_iff:
  fixes m k :: nat
  assumes "m < 8388608"
  shows "256 ^ 32 \<le> compact_dec (m, k) \<longleftrightarrow>
    m \<noteq> 0 \<and> (k > 34 \<or> m > 255 \<and> k > 33 \<or> m > 65535 \<and> k > 32)"
proof (cases "k \<le> 32")
  case True
  have "compact_dec (m, k) < 256 ^ 32"
  proof (cases "k \<le> 3")
    case True
    have "m div 256 ^ (3 - k) < 256 ^ 32" using assms by (intro le_less_trans [OF div_le_dividend]) simp
    then show ?thesis using True by (simp add: compact_dec_def)
  next
    case False
    have "m * 256 ^ (k - 3) < 256 ^ 3 * 256 ^ (k - 3)" using assms by simp
    also have "\<dots> = 256 ^ (3 + (k - 3))" by (simp only: power_add)
    also have "\<dots> = 256 ^ k" using False by simp
    also have "\<dots> \<le> 256 ^ 32" using True by (simp only: power256_le_iff)
    finally show ?thesis using False by (simp add: compact_dec_def)
  qed
  with True show ?thesis by auto
next
  case False
  then consider "k = 33" | "k = 34" | "k \<ge> 35" by linarith
  then show ?thesis
  proof cases
    case 3
    then have "(256 :: nat) ^ 32 \<le> 256 ^ (k - 3)" by (intro power_increasing) simp_all
    then have "256 ^ 32 \<le> m * 256 ^ (k - 3)" if "m \<noteq> 0" using that
      by (metis mult_le_mono less_one linorder_not_le mult_1 not_less_eq_eq numeral_nat(7) One_nat_def Suc_leI neq0_conv)
    with 3 show ?thesis by (cases "m = 0") (auto simp: compact_dec_def)
  qed (auto simp: compact_dec_def)
qed

lemma SetCompact_flags:
  assumes "SetCompact c = (v, neg, ovf)"
  shows "ovf \<longleftrightarrow> 256 ^ 32 \<le> compact_dec (unat c mod 8388608, unat c div 16777216)"
    and "neg \<longleftrightarrow> odd (unat c div 8388608) \<and> compact_dec (unat c mod 8388608, unat c div 16777216) \<noteq> 0"
proof -
  have ovf: "ovf \<longleftrightarrow> compact_word c \<noteq> 0 \<and> (unat c div 16777216 > 34
      \<or> compact_word c > 0xff \<and> unat c div 16777216 > 33 \<or> compact_word c > 0xffff \<and> unat c div 16777216 > 32)"
    and neg: "neg \<longleftrightarrow> compact_word c \<noteq> 0 \<and> c AND 0x00800000 \<noteq> 0"
    using assms by (simp_all only: SetCompact_unfold prod.inject)
  have m: "unat c mod 8388608 < 8388608" by simp
  have z: "compact_word c \<noteq> 0 \<longleftrightarrow> compact_dec (unat c mod 8388608, unat c div 16777216) \<noteq> 0"
    by (simp only: unat_eq_zero [symmetric] unat_compact_word) (simp add: compact_dec_def)
  show "neg \<longleftrightarrow> odd (unat c div 8388608) \<and> compact_dec (unat c mod 8388608, unat c div 16777216) \<noteq> 0"
    using neg z sign_bit_iff [of c] by blast
  show "ovf \<longleftrightarrow> 256 ^ 32 \<le> compact_dec (unat c mod 8388608, unat c div 16777216)"
    unfolding ovf compact_overflow_iff [OF m] word_less_nat_alt unat_eq_zero [symmetric]
    by (auto simp: unat_compact_word)
qed

text \<open>Encoding keeps the leading bytes of a number and decoding restores them.\<close>

lemma power256_Suc_diff: "3 \<le> n \<Longrightarrow> (256 :: nat) ^ (n - 2) = 256 * 256 ^ (n - 3)"
proof -
  assume "3 \<le> n"
  then have "n - 2 = Suc (n - 3)" by simp
  then show ?thesis by (simp only: power_Suc)
qed

lemma compact_enc_cases:
  fixes v n :: nat
  assumes "0 < n" and "256 ^ (n - 1) \<le> v" and "v < 256 ^ n" and "compact_enc n v = (m, k)"
  shows "k \<le> 3 \<and> compact_dec (m, k) = v \<or> 4 \<le> k \<and> m = v div 256 ^ (k - 3)"
    and "k = n \<and> 65536 \<le> m \<and> m < 8388608 \<or> k = Suc n \<and> 32768 \<le> m \<and> m < 65536"
proof -
  define m0 where "m0 = (if n \<le> 3 then v * 256 ^ (3 - n) else v div 256 ^ (n - 3))"
  have mk: "(m, k) = (if m0 \<ge> 8388608 then (m0 div 256, n + 1) else (m0, n))"
    using assms(4) [symmetric] by (simp only: compact_enc_def m0_def Let_def)
  have hi: "m0 < 16777216" unfolding m0_def using assms(3) by (rule compact_mantissa_bound)
  have lo: "65536 \<le> m0"
  proof (cases "n \<le> 3")
    case True
    have "(65536 :: nat) = 256 ^ (n - 1 + (3 - n))" using True assms(1) by simp
    also have "\<dots> = 256 ^ (n - 1) * 256 ^ (3 - n)" by (rule power_add)
    also have "\<dots> \<le> m0" using assms(2) True by (simp add: m0_def)
    finally show ?thesis .
  next
    case False
    then have e: "n - 1 = 2 + (n - 3)" by simp
    have "(256 :: nat) ^ (n - 1) = 65536 * 256 ^ (n - 3)" unfolding e by (simp only: power_add) simp
    then have "65536 * 256 ^ (n - 3) div 256 ^ (n - 3) \<le> v div 256 ^ (n - 3)"
      using assms(2) by (intro div_le_mono) simp
    then show ?thesis using False by (simp add: m0_def)
  qed
  have "m0 \<ge> 8388608 \<Longrightarrow> 32768 \<le> m0 div 256 \<and> m0 div 256 < 65536" using hi by linarith
  then show "k = n \<and> 65536 \<le> m \<and> m < 8388608 \<or> k = Suc n \<and> 32768 \<le> m \<and> m < 65536"
    using mk lo by (auto split: if_splits)
  show "k \<le> 3 \<and> compact_dec (m, k) = v \<or> 4 \<le> k \<and> m = v div 256 ^ (k - 3)"
  proof (cases "n \<le> 3")
    case True
    then consider "n = 1" | "n = 2" | "n = 3" using assms(1) by linarith
    then show ?thesis using mk by cases (auto simp: compact_dec_def m0_def split: if_splits)
  next
    case False
    then have "v div 256 ^ (n - 3) div 256 = v div 256 ^ (Suc n - 3)"
      by (simp add: power256_Suc_diff div_mult2_eq [symmetric] mult.commute)
    then show ?thesis using False mk by (auto simp: m0_def split: if_splits)
  qed
qed

lemma compact_enc_dec:
  fixes v n :: nat
  assumes "0 < n" and "256 ^ (n - 1) \<le> v" and "v < 256 ^ n" and "compact_enc n v = (m, k)"
  shows "256 ^ (n - 1) \<le> compact_dec (m, k)" and "compact_dec (m, k) \<le> v"
    and "compact_enc n (compact_dec (m, k)) = (m, k)" and "(v - compact_dec (m, k)) * 32768 \<le> v"
proof -
  note c = compact_enc_cases [OF assms]
  have "256 ^ (n - 1) \<le> compact_dec (m, k) \<and> compact_dec (m, k) \<le> v \<and>
    compact_enc n (compact_dec (m, k)) = (m, k) \<and> (v - compact_dec (m, k)) * 32768 \<le> v"
  proof (cases "k \<le> 3")
    case True
    then show ?thesis using c(1) assms by auto
  next
    case False
    let ?B = "256 ^ (k - 3) :: nat"
    have m: "m = v div ?B" using c(1) False by auto
    have d: "compact_dec (m, k) = m * ?B" using False by (simp add: compact_dec_def)
    have le: "m * ?B \<le> v" by (simp add: m)
    have "v - m * ?B = v mod ?B" by (simp add: m minus_div_mult_eq_mod)
    then have "(v - m * ?B) * 32768 \<le> 32768 * ?B" by (simp add: less_imp_le)
    also have "\<dots> \<le> m * ?B" using c(2) by (intro mult_le_mono1) auto
    finally have err: "(v - m * ?B) * 32768 \<le> v" using le by linarith
    from c(2) show ?thesis
    proof
      assume kn: "k = n \<and> 65536 \<le> m \<and> m < 8388608"
      have e: "n - 1 = 2 + (k - 3)" using kn False by simp
      have "(256 :: nat) ^ (n - 1) = 65536 * ?B" unfolding e by (simp only: power_add) simp
      also have "\<dots> \<le> m * ?B" using kn by (intro mult_le_mono1) simp
      finally have "256 ^ (n - 1) \<le> m * ?B" .
      moreover have "compact_enc n (m * ?B) = (m, k)" using kn False by (simp add: compact_enc_def)
      ultimately show ?thesis using le err by (simp add: d)
    next
      assume kn: "k = Suc n \<and> 32768 \<le> m \<and> m < 65536"
      have n3: "3 \<le> n" using kn False by simp
      have B: "?B = 256 * 256 ^ (n - 3)" using kn n3 by (simp add: power256_Suc_diff)
      have e: "n - 1 = 2 + (n - 3)" using n3 by simp
      have "(256 :: nat) ^ (n - 1) = 256 * ?B" unfolding e by (simp only: power_add B) simp
      also have "\<dots> \<le> m * ?B" using kn by (intro mult_le_mono1) simp
      finally have lo: "256 ^ (n - 1) \<le> m * ?B" .
      have "(if n \<le> 3 then m * ?B * 256 ^ (3 - n) else m * ?B div 256 ^ (n - 3)) = m * 256"
        using n3 by (simp add: B)
      then have "compact_enc n (m * ?B) = (m, k)" using kn by (simp only: compact_enc_def Let_def) simp
      then show ?thesis using le err lo by (simp add: d)
    qed
  qed
  then show "256 ^ (n - 1) \<le> compact_dec (m, k)" and "compact_dec (m, k) \<le> v"
    and "compact_enc n (compact_dec (m, k)) = (m, k)" and "(v - compact_dec (m, k)) * 32768 \<le> v" by simp_all
qed

lemma power256_unique:
  fixes v :: nat
  assumes "256 ^ (n - 1) \<le> v" and "v < 256 ^ n" and "256 ^ (n' - 1) \<le> v" and "v < 256 ^ n'"
  shows "n = n'"
proof -
  have "(256 :: nat) ^ (n - 1) < 256 ^ n'" and "(256 :: nat) ^ (n' - 1) < 256 ^ n"
    using assms le_less_trans by blast+
  then have "n - 1 < n'" and "n' - 1 < n" by (simp_all only: power_strict_increasing_iff one_less_numeral_iff semiring_norm)
  then show ?thesis by linarith
qed

text \<open>
  What survives of a number: its leading three bytes, or only two when the first of them is \<open>0x80\<close> or more, because the top bit of
  the mantissa is the sign.
\<close>

fun byte_len :: "nat \<Rightarrow> nat" where
  "byte_len v = (if v = 0 then 0 else Suc (byte_len (v div 256)))"

declare byte_len.simps [simp del]

definition compact_cut :: "nat \<Rightarrow> nat" where
  "compact_cut v = (let n = byte_len v; kept = (if v div 256 ^ (n - 1) \<ge> 128 then 2 else 3)
     in v div 256 ^ (n - kept) * 256 ^ (n - kept))"

lemma byte_len_bounds: "v \<noteq> 0 \<Longrightarrow> 0 < byte_len v \<and> 256 ^ (byte_len v - 1) \<le> v \<and> v < 256 ^ byte_len v"
proof (induction v rule: byte_len.induct)
  case (1 v)
  show ?case
  proof (cases "v div 256 = 0")
    case True
    then show ?thesis using 1(2) by (simp add: byte_len.simps [of v] byte_len.simps [of 0])
  next
    case False
    from 1(1) [OF 1(2) False] obtain n where "byte_len (v div 256) = Suc n" "256 ^ n \<le> v div 256" "v div 256 < 256 * 256 ^ n"
      by (cases "byte_len (v div 256)") auto
    then show ?thesis using 1(2) by (simp add: byte_len.simps [of v] less_eq_div_iff_mult_less_eq div_less_iff_less_mult mult.commute)
  qed
qed

lemma compact_enc_cut:
  assumes "0 < n" and "256 ^ (n - 1) \<le> v" and "v < 256 ^ n" and "compact_enc n v = (m, k)"
  shows "compact_dec (m, k) = compact_cut v"
proof -
  note c = compact_enc_cases [OF assms]
  have v: "v \<noteq> 0" using assms(2) by (metis le_zero_eq power_not_zero zero_neq_numeral)
  have n: "byte_len v = n" using byte_len_bounds [OF v] assms(2,3) by (intro power256_unique [of _ v]) simp_all
  show ?thesis
  proof (cases "k \<le> 3")
    case True
    then have d: "compact_dec (m, k) = v" using c(1) by simp
    have "v div 256 ^ (n - 1) < 128" if "n = 3" using that True c(2) d by (auto simp: compact_dec_def)
    moreover have "n \<le> 2 \<or> n = 3" using True c(2) by auto
    ultimately show ?thesis using d by (auto simp: compact_cut_def n)
  next
    case False
    then have m: "m = v div 256 ^ (k - 3)" "compact_dec (m, k) = m * 256 ^ (k - 3)" using c(1) by (auto simp: compact_dec_def)
    from c(2) show ?thesis
    proof
      assume k: "k = n \<and> 65536 \<le> m \<and> m < 8388608"
      have e: "n - 1 = (n - 3) + 2" using k False by simp
      have "(256 :: nat) ^ (n - 1) = 256 ^ (n - 3) * 65536" unfolding e by (simp only: power_add) simp
      then have "v div 256 ^ (n - 1) = m div 65536" using m(1) k by (simp only: div_mult2_eq)
      moreover have "m div 65536 < 128" using k by (simp add: div_less_iff_less_mult)
      ultimately have "\<not> 128 \<le> v div 256 ^ (n - 1)" by simp
      then show ?thesis using m k by (simp add: compact_cut_def n)
    next
      assume k: "k = Suc n \<and> 32768 \<le> m \<and> m < 65536"
      have e: "n - 1 = (n - 2) + 1" "k - 3 = n - 2" using k False by simp_all
      then have "(256 :: nat) ^ (n - 1) = 256 ^ (n - 2) * 256" by simp
      then have "v div 256 ^ (n - 1) = m div 256" using m(1) e(2) by (simp only: div_mult2_eq)
      moreover have "128 \<le> m div 256" using k by (simp add: less_eq_div_iff_mult_less_eq)
      ultimately have "128 \<le> v div 256 ^ (n - 1)" by simp
      then show ?thesis using m by (simp add: compact_cut_def n e(2))
    qed
  qed
qed
lemma compact_enc_spec:
  assumes "compact_enc ((bu_bits x + 7) div 8) (uint_val x) = (m, k)"
  shows "compact_dec (m, k) = compact_cut (uint_val x) \<and> compact_dec (m, k) \<le> uint_val x \<and> (uint_val x - compact_dec (m, k)) * 32768 \<le> uint_val x \<and>
    (\<forall>y. uint_val y = compact_dec (m, k) \<longrightarrow> compact_enc ((bu_bits y + 7) div 8) (uint_val y) = (m, k))"
proof (cases "uint_val x = 0")
  case True
  then have "bu_bits x = 0" by (simp only: bu_bits_eq_0_iff)
  with True assms have "m = 0 \<and> k = 0" by (simp add: compact_enc_def)
  moreover have "bu_bits y = 0" if "uint_val y = 0" for y using that by (simp only: bu_bits_eq_0_iff)
  ultimately show ?thesis using True by (simp add: compact_dec_def compact_enc_def compact_cut_def)
next
  case False
  note b = byte_size_bounds [OF False] and cd = compact_enc_dec [OF byte_size_bounds [OF False] assms]
  have "(bu_bits y + 7) div 8 = (bu_bits x + 7) div 8" if y: "uint_val y = compact_dec (m, k)" for y
  proof (rule power256_unique)
    have "uint_val y \<noteq> 0" using y cd(1) by (metis le_zero_eq power_not_zero zero_neq_numeral)
    then show "256 ^ ((bu_bits y + 7) div 8 - 1) \<le> uint_val y" and "uint_val y < 256 ^ ((bu_bits y + 7) div 8)"
      by (rule byte_size_bounds)+
    show "256 ^ ((bu_bits x + 7) div 8 - 1) \<le> uint_val y" using cd(1) y by simp
    show "uint_val y < 256 ^ ((bu_bits x + 7) div 8)" using cd(2) y b(3) by simp
  qed
  with cd compact_enc_cut [OF b assms] show ?thesis by simp
qed

text \<open>
  Round trip through the compact encoding: encoding never fails, decoding the result gives a
  target no larger than the original and within one part in \<open>2 ^ 15\<close> of it, both flags are clear,
  and encoding again gives the same 32 bits.
\<close>

lemma compact_roundtrip:
  assumes "WIDTH x = 8"
  shows "\<exists>c v. GetCompact False x = Some c \<and> SetCompact c = (v, False, False) \<and> WIDTH v = 8 \<and>
    uint_val v = compact_cut (uint_val x) \<and> uint_val v \<le> uint_val x \<and> (uint_val x - uint_val v) * 32768 \<le> uint_val x \<and>
    GetCompact False v = Some c"
proof -
  define n where "n = (bu_bits x + 7) div 8"
  obtain c m k where c: "GetCompact False x = Some c" and enc: "compact_enc n (uint_val x) = (m, k)"
    and uc: "unat c = m + 16777216 * k" and m: "m < 8388608" and k: "k \<le> 33"
    using GetCompact_value [OF assms] unfolding n_def by blast
  obtain v neg ovf where v: "SetCompact c = (v, neg, ovf)" by (cases "SetCompact c") auto
  have parts: "unat c mod 8388608 = m" "unat c div 16777216 = k" "unat c div 8388608 = 2 * k"
  proof -
    have "unat c = m + 8388608 * (2 * k)" by (simp add: uc)
    then show "unat c mod 8388608 = m" and "unat c div 8388608 = 2 * k"
      using m by (simp_all only: mod_mult_self2 div_mult_self2 zero_neq_numeral not_False_eq_True
          mod_less div_less add_0_right)
    show "unat c div 16777216 = k" using m by (simp add: uc)
  qed
  have wv: "WIDTH v = 8" using v by (rule SetCompact_value)
  have spec: "compact_dec (m, k) = compact_cut (uint_val x) \<and> compact_dec (m, k) \<le> uint_val x \<and> (uint_val x - compact_dec (m, k)) * 32768 \<le> uint_val x \<and>
    (\<forall>y. uint_val y = compact_dec (m, k) \<longrightarrow> compact_enc ((bu_bits y + 7) div 8) (uint_val y) = (m, k))"
    using enc unfolding n_def by (rule compact_enc_spec)
  then have cut: "compact_dec (m, k) = compact_cut (uint_val x)" and le: "compact_dec (m, k) \<le> uint_val x"
    and err: "(uint_val x - compact_dec (m, k)) * 32768 \<le> uint_val x" by blast+
  have less: "compact_dec (m, k) < uint_mod 8"
    using le uint_val_less [of x] assms by simp
  have uv: "uint_val v = compact_dec (m, k)"
    using SetCompact_value(2) [OF v] less by (simp add: parts)
  have "\<not> neg" and "\<not> ovf" using SetCompact_flags [OF v] less by (simp_all add: parts)
  moreover have "GetCompact False v = Some c"
  proof -
    obtain c' m' k' where c': "GetCompact False v = Some c'"
      and enc': "compact_enc ((bu_bits v + 7) div 8) (uint_val v) = (m', k')" and uc': "unat c' = m' + 16777216 * k'"
      using GetCompact_value [OF wv] by blast
    have "unat c' = unat c" using spec uv enc' uc' uc by (metis prod.inject)
    with c' show ?thesis by (simp add: word_unat_eq_iff)
  qed
  ultimately show ?thesis using c v wv cut le err uv by metis
qed

section \<open>Properties\<close>

text \<open>
  C31. The limb-wise operators compute with natural numbers modulo \<open>2 ^ (32 * WIDTH)\<close>: addition,
  subtraction, multiplication by a limb and by a number, shifts, bitwise operators and comparison.
\<close>

theorem bu_operators_refine_nat:
  assumes "WIDTH a = WIDTH b"
  shows "uint_val (bu_add a b) = (uint_val a + uint_val b) mod uint_mod (WIDTH a) \<and>
    uint_val (bu_sub a b) = (uint_val a + (uint_mod (WIDTH a) - uint_val b)) mod uint_mod (WIDTH a) \<and>
    uint_val (bu_mul a b) = (uint_val a * uint_val b) mod uint_mod (WIDTH a) \<and>
    uint_val (bu_mul32 a c) = (uint_val a * unat c) mod uint_mod (WIDTH a) \<and>
    uint_val (bu_shl a n) = (uint_val a * 2 ^ n) mod uint_mod (WIDTH a) \<and>
    uint_val (bu_shr a n) = uint_val a div 2 ^ n \<and>
    uint_val (bu_and a b) = uint_val a AND uint_val b \<and>
    uint_val (bu_or a b) = uint_val a OR uint_val b \<and>
    uint_val (bu_xor a b) = uint_val a XOR uint_val b \<and>
    (bu_compare a b < 0 \<longleftrightarrow> uint_val a < uint_val b) \<and> (bu_compare a b > 0 \<longleftrightarrow> uint_val a > uint_val b)"
  using assms by (simp add: uint_simps uint_val_sub)

theorem bu_operators_refine_nat_witness:
  "uint_val (bu_mul [0xffffffff, 1] [3, 0]) = (8589934591 * 3) mod uint_mod 2"
  using bu_operators_refine_nat [of "[0xffffffff, 1]" "[3, 0]" 0 0] by simp

text \<open>
  Division throws exactly for a zero divisor and otherwise returns the quotient of the values.
\<close>

theorem bu_div_is_quotient:
  assumes "WIDTH a = WIDTH b"
  shows "(bu_div a b = None \<longleftrightarrow> uint_val b = 0) \<and>
    (\<forall>q. bu_div a b = Some q \<longrightarrow> WIDTH q = WIDTH a \<and> uint_val q = uint_val a div uint_val b)"
  using bu_div_zero [of b a] bu_div_correct [OF assms] by (cases "uint_val b = 0") auto

theorem bu_div_is_quotient_witness:
  "bu_div [7, 0] [0, 0] = None"
  using bu_div_is_quotient [of "[7, 0]" "[0, 0]"] by simp

text \<open>
  \<open>SetCompact\<close> decodes a 32-bit compact number: mantissa (the low 23 bits) times a power of 256.
  The overflow flag says exactly that the number does not fit into 256 bits and the negative flag that
  the sign bit is set on a non-zero number.
\<close>

theorem SetCompact_decodes:
  "\<exists>v neg ovf. SetCompact c = (v, neg, ovf) \<and> WIDTH v = 8 \<and>
     uint_val v = compact_dec (unat c mod 8388608, unat c div 16777216) mod 2 ^ 256 \<and>
     (ovf \<longleftrightarrow> 2 ^ 256 \<le> compact_dec (unat c mod 8388608, unat c div 16777216)) \<and>
     (neg \<longleftrightarrow> odd (unat c div 8388608) \<and> compact_dec (unat c mod 8388608, unat c div 16777216) \<noteq> 0)"
proof -
  obtain v neg ovf where s: "SetCompact c = (v, neg, ovf)" by (cases "SetCompact c") auto
  have e: "(256 :: nat) ^ 32 = 2 ^ 256" "uint_mod 8 = 2 ^ 256" by simp_all
  show ?thesis
    using s SetCompact_value(1) [OF s] SetCompact_value(2) [OF s, unfolded e] SetCompact_flags [OF s, unfolded e] by blast
qed

text \<open>
  C32. Encoding a 256-bit number compactly always succeeds.  Decoding gives the number with all but its three leading bytes set to
  zero, all but its two leading bytes when the first of them is \<open>0x80\<close> or more, with both flags clear; so the result
  is not larger and differs by at most one part in \<open>2 ^ 15\<close>.  Encoding that again gives the same 32 bits.
\<close>

theorem compact_encoding_roundtrip:
  assumes "WIDTH x = 8"
  shows "\<exists>c v. GetCompact False x = Some c \<and> SetCompact c = (v, False, False) \<and> uint_val v = compact_cut (uint_val x) \<and>
    uint_val v \<le> uint_val x \<and> (uint_val x - uint_val v) * 32768 \<le> uint_val x \<and> GetCompact False v = Some c"
  using compact_roundtrip [OF assms] by blast

text \<open>The number \<open>0xc0dec0de12\<close> keeps two bytes.\<close>

theorem compact_encoding_roundtrip_witness:
  "\<exists>c v. GetCompact False [0xdec0de12, 0xc0, 0, 0, 0, 0, 0, 0] = Some c \<and> SetCompact c = (v, False, False) \<and> uint_val v = 0xc0de000000"
proof -
  have "compact_cut (uint_val [0xdec0de12, 0xc0, 0, 0, 0, 0, 0, 0]) = 0xc0de000000"
    by (simp add: compact_cut_def byte_len.simps)
  then show ?thesis using compact_encoding_roundtrip [of "[0xdec0de12, 0xc0, 0, 0, 0, 0, 0, 0]"] by auto
qed

end
