(* ===== verification/Consensus.thy ===== *)
theory Consensus
  imports Uint256
begin

unbundle bit_operations_syntax

text \<open>
  The consensus parameters (\<open>src/src/consensus/params.h\<close>, \<open>params.cpp\<close>), the three parameter sets of
  \<open>src/src/chainparams.cpp\<close>, and the network upgrade schedule (\<open>src/src/consensus/upgrades.cpp\<close>).
  Upgrade indices are the enumerators of \<open>UpgradeIndex\<close> as array indices; \<open>vUpgrades\<close> is the array.
  The genesis hash, the spork keys and the address prefixes of the parameter sets are not modelled
  here.
\<close>

section \<open>Parameters\<close>

abbreviation (input) BASE_NETWORK :: nat where "BASE_NETWORK \<equiv> 0"
abbreviation (input) UPGRADE_POS :: nat where "UPGRADE_POS \<equiv> 1"
abbreviation (input) UPGRADE_POS_V2 :: nat where "UPGRADE_POS_V2 \<equiv> 2"
abbreviation (input) UPGRADE_BIP65 :: nat where "UPGRADE_BIP65 \<equiv> 3"
abbreviation (input) UPGRADE_V3_4 :: nat where "UPGRADE_V3_4 \<equiv> 4"
abbreviation (input) UPGRADE_V4_0 :: nat where "UPGRADE_V4_0 \<equiv> 5"
abbreviation (input) UPGRADE_V5_0 :: nat where "UPGRADE_V5_0 \<equiv> 6"
abbreviation (input) UPGRADE_V5_2 :: nat where "UPGRADE_V5_2 \<equiv> 7"
abbreviation (input) UPGRADE_TESTDUMMY :: nat where "UPGRADE_TESTDUMMY \<equiv> 8"
abbreviation (input) MAX_NETWORK_UPGRADES :: nat where "MAX_NETWORK_UPGRADES \<equiv> 9"

abbreviation (input) ALWAYS_ACTIVE :: int where "ALWAYS_ACTIVE \<equiv> 0"
abbreviation (input) NO_ACTIVATION_HEIGHT :: int where "NO_ACTIVATION_HEIGHT \<equiv> - 1"

record NetworkUpgrade =
  nActivationHeight :: int
  hashActivationBlock :: "base_uint option"

record Params =
  fPowAllowMinDifficultyBlocks :: bool
  powLimit :: base_uint
  posLimitV1 :: base_uint
  posLimitV2 :: base_uint
  nBudgetCycleBlocks :: int
  nBudgetFeeConfirmations :: int
  nCoinbaseMaturity :: int
  nFutureTimeDriftPoW :: int
  nFutureTimeDriftPoS :: int
  nMasternodeCountDrift :: int
  nMaxMoneyOut :: CAmount
  nPoolMaxTransactions :: int
  nProposalEstablishmentTime :: int
  nStakeMinAge :: int
  nStakeMinDepth :: int
  nTargetTimespan :: int
  nTargetTimespanV2 :: int
  nTargetSpacing :: int
  nTimeSlotLength :: int
  nMaxProposalPayments :: int
  nTime_EnforceNewSporkKey :: int
  nTime_RejectOldSporkKey :: int
  vUpgrades :: "NetworkUpgrade list"

definition COIN :: CAmount where "COIN = 100000000"
definition CENT :: CAmount where "CENT = 1000000"

section \<open>Upgrade schedule\<close>

datatype UpgradeState = UPGRADE_DISABLED | UPGRADE_PENDING | UPGRADE_ACTIVE

text \<open>\<open>None\<close> is a failed assertion.\<close>

definition NetworkUpgradeState :: "int \<Rightarrow> Params \<Rightarrow> nat \<Rightarrow> UpgradeState option" where
  "NetworkUpgradeState nHeight params idx =
     (if \<not> nHeight \<ge> 0 \<or> \<not> idx < MAX_NETWORK_UPGRADES then None
      else let h = nActivationHeight (vUpgrades params ! idx)
           in Some (if h = NO_ACTIVATION_HEIGHT then UPGRADE_DISABLED
                    else if nHeight \<ge> h then UPGRADE_ACTIVE else UPGRADE_PENDING))"

definition NetworkUpgradeActive_at :: "int \<Rightarrow> Params \<Rightarrow> nat \<Rightarrow> bool option" where
  "NetworkUpgradeActive_at nHeight params idx =
     map_option (\<lambda>st. st = UPGRADE_ACTIVE) (NetworkUpgradeState nHeight params idx)"

text \<open>The member function of \<open>Consensus::Params\<close> guards the two assertions with early returns.\<close>

definition NetworkUpgradeActive :: "Params \<Rightarrow> int \<Rightarrow> nat \<Rightarrow> bool" where
  "NetworkUpgradeActive params nHeight idx =
     (if idx \<ge> MAX_NETWORK_UPGRADES then False
      else if nHeight < 0 then False
      else NetworkUpgradeState nHeight params idx = Some UPGRADE_ACTIVE)"

text \<open>The loop of \<open>CurrentEpoch\<close> runs from the given index down to 1.\<close>

fun current_epoch_loop :: "int \<Rightarrow> Params \<Rightarrow> nat \<Rightarrow> nat option" where
  "current_epoch_loop nHeight params 0 = Some BASE_NETWORK"
| "current_epoch_loop nHeight params (Suc i) =
     (case NetworkUpgradeActive_at nHeight params (Suc i) of
        None \<Rightarrow> None
      | Some active \<Rightarrow> if active then Some (Suc i) else current_epoch_loop nHeight params i)"

definition CurrentEpoch :: "int \<Rightarrow> Params \<Rightarrow> nat option" where
  "CurrentEpoch nHeight params = current_epoch_loop nHeight params (MAX_NETWORK_UPGRADES - 1)"

definition IsActivationHeight :: "int \<Rightarrow> Params \<Rightarrow> nat \<Rightarrow> bool option" where
  "IsActivationHeight nHeight params idx =
     (if \<not> idx < MAX_NETWORK_UPGRADES then None
      else if idx = BASE_NETWORK then Some False
      else Some (nHeight \<ge> 0 \<and> nHeight = nActivationHeight (vUpgrades params ! idx)))"

definition IsActivationHeightForAnyUpgrade :: "int \<Rightarrow> Params \<Rightarrow> bool" where
  "IsActivationHeightForAnyUpgrade nHeight params =
     (if nHeight < 0 then False
      else list_ex (\<lambda>idx. nHeight = nActivationHeight (vUpgrades params ! idx))
             [BASE_NETWORK + 1..<MAX_NETWORK_UPGRADES])"

fun next_epoch_loop :: "int \<Rightarrow> Params \<Rightarrow> nat list \<Rightarrow> nat option" where
  "next_epoch_loop nHeight params [] = None"
| "next_epoch_loop nHeight params (idx # rest) =
     (if NetworkUpgradeState nHeight params idx = Some UPGRADE_PENDING then Some idx
      else next_epoch_loop nHeight params rest)"

definition NextEpoch :: "int \<Rightarrow> Params \<Rightarrow> nat option" where
  "NextEpoch nHeight params =
     (if nHeight < 0 then None
      else next_epoch_loop nHeight params [BASE_NETWORK + 1..<MAX_NETWORK_UPGRADES])"

definition NextActivationHeight :: "int \<Rightarrow> Params \<Rightarrow> int option" where
  "NextActivationHeight nHeight params =
     map_option (\<lambda>idx. nActivationHeight (vUpgrades params ! idx)) (NextEpoch nHeight params)"

section \<open>Parameter member functions\<close>

definition TargetTimespan :: "Params \<Rightarrow> bool \<Rightarrow> int" where
  "TargetTimespan params fV2 = (if fV2 then nTargetTimespanV2 params else nTargetTimespan params)"

definition ProofOfStakeLimit :: "Params \<Rightarrow> bool \<Rightarrow> base_uint" where
  "ProofOfStakeLimit params fV2 = (if fV2 then posLimitV2 params else posLimitV1 params)"

definition MoneyRange :: "Params \<Rightarrow> CAmount \<Rightarrow> bool" where
  "MoneyRange params nValue \<longleftrightarrow> nValue \<ge> 0 \<and> nValue \<le> nMaxMoneyOut params"

definition IsTimeProtocolV2 :: "Params \<Rightarrow> int \<Rightarrow> bool" where
  "IsTimeProtocolV2 params nHeight = NetworkUpgradeActive params nHeight UPGRADE_V4_0"

definition FutureBlockTimeDrift :: "Params \<Rightarrow> int \<Rightarrow> int" where
  "FutureBlockTimeDrift params nHeight =
     (if IsTimeProtocolV2 params nHeight then nTimeSlotLength params - 1
      else if NetworkUpgradeActive params nHeight UPGRADE_POS then nFutureTimeDriftPoS params
      else nFutureTimeDriftPoW params)"

definition IsValidBlockTimeStamp :: "Params \<Rightarrow> int \<Rightarrow> int \<Rightarrow> bool" where
  "IsValidBlockTimeStamp params nTime nHeight =
     (if \<not> IsTimeProtocolV2 params nHeight then True else nTime smod nTimeSlotLength params = 0)"

text \<open>The age test adds an \<open>int\<close> to a \<open>uint32_t\<close>, so it is a comparison of wrapped 32-bit sums.\<close>

definition HasStakeMinAgeOrDepth :: "Params \<Rightarrow> int \<Rightarrow> u32 \<Rightarrow> int \<Rightarrow> u32 \<Rightarrow> bool" where
  "HasStakeMinAgeOrDepth params contextHeight contextTime utxoFromBlockHeight utxoFromBlockTime =
     (if \<not> NetworkUpgradeActive params contextHeight UPGRADE_V3_4
      then utxoFromBlockTime + word_of_int (nStakeMinAge params) \<le> contextTime
      else contextHeight - utxoFromBlockHeight \<ge> nStakeMinDepth params)"

section \<open>The three networks\<close>

definition upgrade :: "int \<Rightarrow> NetworkUpgrade" where
  "upgrade h = \<lparr>nActivationHeight = h, hashActivationBlock = None\<rparr>"

definition upgrade_with_hash :: "int \<Rightarrow> NetworkUpgrade" where
  "upgrade_with_hash h = \<lparr>nActivationHeight = h, hashActivationBlock = Some (base_uint_zero 8)\<rparr>"

definition main_params :: Params where
  "main_params = \<lparr>
     fPowAllowMinDifficultyBlocks = False,
     powLimit = bu_shr (bu_not (base_uint_zero 8)) 20,
     posLimitV1 = bu_shr (bu_not (base_uint_zero 8)) 24,
     posLimitV2 = bu_shr (bu_not (base_uint_zero 8)) 20,
     nBudgetCycleBlocks = 43200, nBudgetFeeConfirmations = 6, nCoinbaseMaturity = 60,
     nFutureTimeDriftPoW = 7200, nFutureTimeDriftPoS = 180, nMasternodeCountDrift = 20,
     nMaxMoneyOut = 100000 * COIN, nPoolMaxTransactions = 3,
     nProposalEstablishmentTime = 60 * 60 * 24, nStakeMinAge = 60 * 60 * 24, nStakeMinDepth = 60,
     nTargetTimespan = 40 * 60, nTargetTimespanV2 = 30 * 60, nTargetSpacing = 1 * 60,
     nTimeSlotLength = 15, nMaxProposalPayments = 6,
     nTime_EnforceNewSporkKey = 1747053468, nTime_RejectOldSporkKey = 1747308807,
     vUpgrades = [upgrade ALWAYS_ACTIVE, upgrade 2001, upgrade 1, upgrade_with_hash 2300,
       upgrade_with_hash 2001, upgrade_with_hash 2050, upgrade 2100, upgrade 2400,
       upgrade NO_ACTIVATION_HEIGHT]\<rparr>"

definition testnet_params :: Params where
  "testnet_params = \<lparr>
     fPowAllowMinDifficultyBlocks = True,
     powLimit = bu_shr (bu_not (base_uint_zero 8)) 20,
     posLimitV1 = bu_shr (bu_not (base_uint_zero 8)) 24,
     posLimitV2 = bu_shr (bu_not (base_uint_zero 8)) 20,
     nBudgetCycleBlocks = 144, nBudgetFeeConfirmations = 3, nCoinbaseMaturity = 60,
     nFutureTimeDriftPoW = 7200, nFutureTimeDriftPoS = 180, nMasternodeCountDrift = 20,
     nMaxMoneyOut = 20000000 * COIN, nPoolMaxTransactions = 3,
     nProposalEstablishmentTime = 60 * 60 * 24, nStakeMinAge = 60 * 60, nStakeMinDepth = 60,
     nTargetTimespan = 40 * 60, nTargetTimespanV2 = 30 * 60, nTargetSpacing = 2 * 60,
     nTimeSlotLength = 15, nMaxProposalPayments = 6,
     nTime_EnforceNewSporkKey = 1608512400, nTime_RejectOldSporkKey = 1614560400,
     vUpgrades = [upgrade ALWAYS_ACTIVE, upgrade 201, upgrade 1, upgrade 400, upgrade 201,
       upgrade 250, upgrade 300, upgrade 400, upgrade NO_ACTIVATION_HEIGHT]\<rparr>"

definition regtest_params :: Params where
  "regtest_params = \<lparr>
     fPowAllowMinDifficultyBlocks = True,
     powLimit = bu_shr (bu_not (base_uint_zero 8)) 20,
     posLimitV1 = bu_shr (bu_not (base_uint_zero 8)) 24,
     posLimitV2 = bu_shr (bu_not (base_uint_zero 8)) 20,
     nBudgetCycleBlocks = 144, nBudgetFeeConfirmations = 3, nCoinbaseMaturity = 100,
     nFutureTimeDriftPoW = 7200, nFutureTimeDriftPoS = 180, nMasternodeCountDrift = 4,
     nMaxMoneyOut = 43199500 * COIN, nPoolMaxTransactions = 2,
     nProposalEstablishmentTime = 60 * 5, nStakeMinAge = 0, nStakeMinDepth = 2,
     nTargetTimespan = 40 * 60, nTargetTimespanV2 = 30 * 60, nTargetSpacing = 1 * 60,
     nTimeSlotLength = 15, nMaxProposalPayments = 20,
     nTime_EnforceNewSporkKey = 0, nTime_RejectOldSporkKey = 0,
     vUpgrades = [upgrade ALWAYS_ACTIVE, upgrade 251, upgrade 251, upgrade ALWAYS_ACTIVE, upgrade 251,
       upgrade ALWAYS_ACTIVE, upgrade 300, upgrade 300, upgrade NO_ACTIVATION_HEIGHT]\<rparr>"

text \<open>The order the header of \<open>params.h\<close> asks of the array: activation heights grow with the index.\<close>

definition upgrades_sorted :: "Params \<Rightarrow> bool" where
  "upgrades_sorted params \<longleftrightarrow>
     sorted (filter (\<lambda>h. h \<noteq> NO_ACTIVATION_HEIGHT)
       (map (\<lambda>i. nActivationHeight (vUpgrades params ! i)) [0..<MAX_NETWORK_UPGRADES]))"

section \<open>Facts about the schedule\<close>

lemma NetworkUpgradeActive_iff:
  "NetworkUpgradeActive params h idx \<longleftrightarrow>
     idx < MAX_NETWORK_UPGRADES \<and> 0 \<le> h \<and>
     nActivationHeight (vUpgrades params ! idx) \<noteq> NO_ACTIVATION_HEIGHT \<and>
     nActivationHeight (vUpgrades params ! idx) \<le> h"
  by (auto simp: NetworkUpgradeActive_def NetworkUpgradeActive_at_def NetworkUpgradeState_def Let_def)

lemma NetworkUpgradeActive_mono:
  "NetworkUpgradeActive params h idx \<Longrightarrow> h \<le> h' \<Longrightarrow> NetworkUpgradeActive params h' idx"
  by (auto simp: NetworkUpgradeActive_iff)

lemma NetworkUpgradeActive_at_eq:
  "0 \<le> h \<Longrightarrow> idx < MAX_NETWORK_UPGRADES \<Longrightarrow>
   NetworkUpgradeActive_at h params idx = Some (NetworkUpgradeActive params h idx)"
  by (auto simp: NetworkUpgradeActive_def NetworkUpgradeActive_at_def NetworkUpgradeState_def Let_def)

lemma current_epoch_loop_spec:
  "0 \<le> h \<Longrightarrow> i < MAX_NETWORK_UPGRADES \<Longrightarrow>
   \<exists>e \<le> i. current_epoch_loop h params i = Some e \<and>
     (e = BASE_NETWORK \<or> NetworkUpgradeActive params h e) \<and>
     (\<forall>j. e < j \<and> j \<le> i \<longrightarrow> \<not> NetworkUpgradeActive params h j)"
proof (induction i)
  case 0
  then show ?case by simp
next
  case (Suc i)
  show ?case
  proof (cases "NetworkUpgradeActive params h (Suc i)")
    case True
    then show ?thesis using Suc.prems by (auto simp: NetworkUpgradeActive_at_eq)
  next
    case False
    from Suc obtain e where "e \<le> i" and "current_epoch_loop h params i = Some e"
      and "e = BASE_NETWORK \<or> NetworkUpgradeActive params h e"
      and "\<forall>j. e < j \<and> j \<le> i \<longrightarrow> \<not> NetworkUpgradeActive params h j" by auto
    with False Suc.prems show ?thesis
      by (intro exI [of _ e]) (auto simp: NetworkUpgradeActive_at_eq le_Suc_eq)
  qed
qed

lemma next_epoch_loop_spec:
  "next_epoch_loop h params idxs = find (\<lambda>i. NetworkUpgradeState h params i = Some UPGRADE_PENDING) idxs"
  by (induction idxs) simp_all

lemma NetworkUpgradeState_pending:
  "0 \<le> h \<Longrightarrow> i < MAX_NETWORK_UPGRADES \<Longrightarrow>
   NetworkUpgradeState h params i = Some UPGRADE_PENDING \<longleftrightarrow>
     nActivationHeight (vUpgrades params ! i) \<noteq> NO_ACTIVATION_HEIGHT \<and>
     h < nActivationHeight (vUpgrades params ! i)"
  by (auto simp: NetworkUpgradeState_def Let_def)

lemma sorted_filter_nth:
  assumes "sorted (filter P (map f [0..<n]))" and "i < j" and "j < n" and "P (f i)" and "P (f j)"
  shows "f i \<le> f j"
proof -
  have "[0..<n] = [0..<j] @ [j..<n]" using upt_add_eq_append [of 0 j "n - j"] assms(3) by simp
  then have split: "filter P (map f [0..<n]) = filter P (map f [0..<j]) @ filter P (map f [j..<n])" by simp
  have "f i \<in> set (filter P (map f [0..<j]))" and "f j \<in> set (filter P (map f [j..<n]))"
    using assms by auto
  then show ?thesis using assms(1) unfolding split sorted_append by blast
qed

lemma NextEpoch_Some:
  assumes "0 \<le> h" and "NextEpoch h params = Some i"
  shows "i < MAX_NETWORK_UPGRADES" and "nActivationHeight (vUpgrades params ! i) \<noteq> NO_ACTIVATION_HEIGHT"
    and "h < nActivationHeight (vUpgrades params ! i)"
    and "\<And>j. 0 < j \<Longrightarrow> j < i \<Longrightarrow> nActivationHeight (vUpgrades params ! j) = NO_ACTIVATION_HEIGHT
      \<or> nActivationHeight (vUpgrades params ! j) \<le> h"
proof -
  have "find (\<lambda>i. NetworkUpgradeState h params i = Some UPGRADE_PENDING) [1..<9] = Some i"
    using assms by (simp add: NextEpoch_def next_epoch_loop_spec)
  then obtain k where k: "k < 8" "i = Suc k" "NetworkUpgradeState h params i = Some UPGRADE_PENDING"
    and before: "\<forall>j < k. NetworkUpgradeState h params (Suc j) \<noteq> Some UPGRADE_PENDING"
    unfolding find_Some_iff by auto
  then show i: "i < MAX_NETWORK_UPGRADES" by simp
  show "nActivationHeight (vUpgrades params ! i) \<noteq> NO_ACTIVATION_HEIGHT"
    and "h < nActivationHeight (vUpgrades params ! i)"
    using k(3) NetworkUpgradeState_pending [OF assms(1) i] by simp_all
  show "nActivationHeight (vUpgrades params ! j) = NO_ACTIVATION_HEIGHT
      \<or> nActivationHeight (vUpgrades params ! j) \<le> h" if "0 < j" "j < i" for j
    using before that k(1,2) NetworkUpgradeState_pending [OF assms(1), of j] by (cases j) auto
qed

section \<open>Properties\<close>

text \<open>
  \<open>CurrentEpoch\<close> never trips an assertion at a non-negative height, and returns the largest
  index whose upgrade is active at that height (or \<open>BASE_NETWORK\<close> if none is).
\<close>

theorem CurrentEpoch_is_last_active:
  assumes "0 \<le> h"
  shows "\<exists>e < MAX_NETWORK_UPGRADES. CurrentEpoch h params = Some e \<and>
    (e = BASE_NETWORK \<or> NetworkUpgradeActive params h e) \<and>
    (\<forall>j. e < j \<longrightarrow> \<not> NetworkUpgradeActive params h j)"
proof -
  obtain e where "e \<le> 8" and "CurrentEpoch h params = Some e"
    and "e = BASE_NETWORK \<or> NetworkUpgradeActive params h e"
    and "\<forall>j. e < j \<and> j \<le> 8 \<longrightarrow> \<not> NetworkUpgradeActive params h j"
    using current_epoch_loop_spec [OF assms, of 8 params] by (auto simp: CurrentEpoch_def)
  then show ?thesis by (intro exI [of _ e]) (auto simp: NetworkUpgradeActive_iff)
qed

theorem CurrentEpoch_is_last_active_witness:
  "(0 :: int) \<le> 2060 \<and> (\<exists>e < MAX_NETWORK_UPGRADES. CurrentEpoch 2060 main_params = Some e \<and>
    (e = BASE_NETWORK \<or> NetworkUpgradeActive main_params 2060 e) \<and>
    (\<forall>j. e < j \<longrightarrow> \<not> NetworkUpgradeActive main_params 2060 j))"
  using CurrentEpoch_is_last_active [of 2060 main_params] by simp

text \<open>
  For a schedule whose activation heights grow with the upgrade index, \<open>NextActivationHeight\<close>
  returns the lowest activation height above the given height.
\<close>

theorem NextActivationHeight_least:
  assumes "0 \<le> h" and "upgrades_sorted params" and "NextActivationHeight h params = Some a"
  shows "h < a \<and> (\<forall>i. 0 < i \<and> i < MAX_NETWORK_UPGRADES \<and>
    nActivationHeight (vUpgrades params ! i) \<noteq> NO_ACTIVATION_HEIGHT \<and>
    h < nActivationHeight (vUpgrades params ! i) \<longrightarrow> a \<le> nActivationHeight (vUpgrades params ! i))"
proof -
  obtain e where e: "NextEpoch h params = Some e" and a: "a = nActivationHeight (vUpgrades params ! e)"
    using assms(3) by (auto simp: NextActivationHeight_def)
  note n = NextEpoch_Some [OF assms(1) e]
  have "a \<le> nActivationHeight (vUpgrades params ! i)"
    if i: "0 < i" "i < 9" "nActivationHeight (vUpgrades params ! i) \<noteq> -1"
      "h < nActivationHeight (vUpgrades params ! i)" for i
  proof -
    have "e \<le> i" using n(4) [of i] i by force
    moreover have "a \<le> nActivationHeight (vUpgrades params ! i)" if "e < i"
      using sorted_filter_nth [OF assms(2) [unfolded upgrades_sorted_def] that] i n a by simp
    ultimately show ?thesis using a by (cases "e = i") auto
  qed
  with n(3) a show ?thesis by simp
qed

definition sorted_example :: Params where
  "sorted_example = main_params\<lparr>vUpgrades := map upgrade [0, 10, 20, 30, 40, 50, 60, 70, -1]\<rparr>"

theorem NextActivationHeight_least_witness:
  "upgrades_sorted sorted_example \<and> NextActivationHeight 34 sorted_example = Some 40 \<and> (34 :: int) < 40"
proof -
  have s: "upgrades_sorted sorted_example"
    by (simp add: upgrades_sorted_def sorted_example_def upgrade_def upt_rec)
  have n: "NextActivationHeight 34 sorted_example = Some 40"
    by (simp add: NextActivationHeight_def NextEpoch_def NetworkUpgradeState_def sorted_example_def
        upgrade_def upt_rec)
  show ?thesis using s n NextActivationHeight_least [OF _ s n] by simp
qed

text \<open>
  The main network's schedule is not in index order, and there \<open>NextActivationHeight\<close> does not
  return the next activation: at height 2060 it answers 2300 (BIP65) although the upgrade
  \<open>UPGRADE_V5_0\<close> activates at 2100.
\<close>

theorem main_schedule_out_of_order:
  "\<not> upgrades_sorted main_params \<and>
   NextActivationHeight 2060 main_params = Some 2300 \<and>
   \<not> NetworkUpgradeActive main_params 2060 UPGRADE_V5_0 \<and>
   NetworkUpgradeActive main_params 2100 UPGRADE_V5_0"
  by (simp add: upgrades_sorted_def NextActivationHeight_def NextEpoch_def NetworkUpgradeState_def
      NetworkUpgradeActive_def main_params_def upgrade_def upgrade_with_hash_def upt_rec)

end
