(* ===== verification/Chain.thy ===== *)
theory Chain
  imports Consensus "HOL-Library.Monad_Syntax" "HOL-Library.Multiset"
begin

unbundle bit_operations_syntax

text \<open>
  The block tree and the active chain: \<open>CBlockIndex\<close>, \<open>CChain\<close> and the functions of
  \<open>src/src/chain.h\<close> and \<open>src/src/chain.cpp\<close>.  Block index entries live in a store from pointers to
  records, because they refer to each other (\<open>pprev\<close>, \<open>pskip\<close>) and are updated in place.  A pointer
  that may be null is a \<open>ptr option\<close>.  A computation is an option: \<open>None\<close> is undefined behaviour
  (a null or dangling pointer read, an index outside a vector) or a loop that does not end.
\<close>

type_synonym ptr = nat

section \<open>Data\<close>

record CBlockIndex =
  phashBlock :: base_uint
  pprev :: "ptr option"
  pskip :: "ptr option"
  nHeight :: int
  nFile :: int
  nDataPos :: u32
  nUndoPos :: u32
  nChainWork :: base_uint
  nTx :: u32
  nChainTx :: u32
  nStatus :: u32
  vStakeModifier :: "byte list"
  nFlags :: u32
  nSaplingValue :: CAmount
  nChainSaplingValue :: "CAmount option"
  nVersion :: int
  hashMerkleRoot :: base_uint
  hashFinalSaplingRoot :: base_uint
  nTime :: u32
  nBits :: u32
  nNonce :: u32
  nSequenceId :: u32

type_synonym index_store = "ptr \<rightharpoonup> CBlockIndex"

record CBlockHeader =
  hdr_nVersion :: int
  hdr_hashPrevBlock :: base_uint
  hdr_hashMerkleRoot :: base_uint
  hdr_nTime :: u32
  hdr_nBits :: u32
  hdr_nNonce :: u32
  hdr_hashFinalSaplingRoot :: base_uint

record CDiskBlockPos =
  pos_nFile :: int
  pos_nPos :: u32

record CChain =
  vChain :: "ptr option list"

section \<open>Single block index entries\<close>

definition BLOCK_VALID_MASK :: u32 where "BLOCK_VALID_MASK = 1 OR 2 OR 3 OR 4 OR 5"
definition BLOCK_HAVE_DATA :: u32 where "BLOCK_HAVE_DATA = 8"
definition BLOCK_HAVE_UNDO :: u32 where "BLOCK_HAVE_UNDO = 16"
definition BLOCK_FAILED_MASK :: u32 where "BLOCK_FAILED_MASK = 32 OR 64"
definition BLOCK_PROOF_OF_STAKE :: u32 where "BLOCK_PROOF_OF_STAKE = 1"
definition BLOCK_STAKE_ENTROPY :: u32 where "BLOCK_STAKE_ENTROPY = 2"
definition BLOCK_STAKE_MODIFIER :: u32 where "BLOCK_STAKE_MODIFIER = 4"

definition GetBlockTime :: "CBlockIndex \<Rightarrow> int" where
  "GetBlockTime b = uint (nTime b)"

definition IsProofOfStake :: "CBlockIndex \<Rightarrow> bool" where
  "IsProofOfStake b \<longleftrightarrow> nFlags b AND BLOCK_PROOF_OF_STAKE \<noteq> 0"

definition SetProofOfStake :: "CBlockIndex \<Rightarrow> CBlockIndex" where
  "SetProofOfStake b = b\<lparr>nFlags := nFlags b OR BLOCK_PROOF_OF_STAKE\<rparr>"

definition GeneratedStakeModifier :: "CBlockIndex \<Rightarrow> bool" where
  "GeneratedStakeModifier b \<longleftrightarrow> nFlags b AND BLOCK_STAKE_MODIFIER \<noteq> 0"

definition null_block_pos :: CDiskBlockPos where
  "null_block_pos = \<lparr>pos_nFile = - 1, pos_nPos = 0\<rparr>"

definition GetBlockPos :: "CBlockIndex \<Rightarrow> CDiskBlockPos" where
  "GetBlockPos b = (if nStatus b AND BLOCK_HAVE_DATA \<noteq> 0
     then \<lparr>pos_nFile = nFile b, pos_nPos = nDataPos b\<rparr> else null_block_pos)"

definition GetUndoPos :: "CBlockIndex \<Rightarrow> CDiskBlockPos" where
  "GetUndoPos b = (if nStatus b AND BLOCK_HAVE_UNDO \<noteq> 0
     then \<lparr>pos_nFile = nFile b, pos_nPos = nUndoPos b\<rparr> else null_block_pos)"

definition GetBlockHeader :: "index_store \<Rightarrow> CBlockIndex \<Rightarrow> CBlockHeader option" where
  "GetBlockHeader H b = do {
     prev \<leftarrow> (case pprev b of None \<Rightarrow> Some (base_uint_zero 8) | Some q \<Rightarrow> map_option phashBlock (H q));
     Some \<lparr>hdr_nVersion = nVersion b, hdr_hashPrevBlock = prev, hdr_hashMerkleRoot = hashMerkleRoot b,
       hdr_nTime = nTime b, hdr_nBits = nBits b, hdr_nNonce = nNonce b,
       hdr_hashFinalSaplingRoot = (if nVersion b \<ge> 8 then hashFinalSaplingRoot b else base_uint_zero 8)\<rparr>
   }"

text \<open>\<open>IsValid\<close> and \<open>RaiseValidity\<close> assert that only validity bits are asked for.\<close>

definition IsValid :: "CBlockIndex \<Rightarrow> u32 \<Rightarrow> bool option" where
  "IsValid b nUpTo =
     (if nUpTo AND NOT BLOCK_VALID_MASK \<noteq> 0 then None
      else if nStatus b AND BLOCK_FAILED_MASK \<noteq> 0 then Some False
      else Some (nStatus b AND BLOCK_VALID_MASK \<ge> nUpTo))"

definition RaiseValidity :: "CBlockIndex \<Rightarrow> u32 \<Rightarrow> (CBlockIndex \<times> bool) option" where
  "RaiseValidity b nUpTo =
     (if nUpTo AND NOT BLOCK_VALID_MASK \<noteq> 0 then None
      else if nStatus b AND BLOCK_FAILED_MASK \<noteq> 0 then Some (b, False)
      else if nStatus b AND BLOCK_VALID_MASK < nUpTo
      then Some (b\<lparr>nStatus := (nStatus b AND NOT BLOCK_VALID_MASK) OR nUpTo\<rparr>, True)
      else Some (b, False))"

definition SetChainSaplingValue :: "index_store \<Rightarrow> ptr \<Rightarrow> index_store option" where
  "SetChainSaplingValue H p = do {
     b \<leftarrow> H p;
     v \<leftarrow> (case pprev b of
             None \<Rightarrow> Some (Some (nSaplingValue b))
           | Some q \<Rightarrow> do { c \<leftarrow> H q; Some (map_option (\<lambda>v. v + nSaplingValue b) (nChainSaplingValue c)) });
     Some (H(p \<mapsto> b\<lparr>nChainSaplingValue := v\<rparr>))
   }"

section \<open>Ancestors and the skip list\<close>

definition InvertLowestOne :: "int \<Rightarrow> int" where
  "InvertLowestOne n = n AND (n - 1)"

definition GetSkipHeight :: "int \<Rightarrow> int" where
  "GetSkipHeight height =
     (if height < 2 then 0
      else if height AND 1 \<noteq> 0 then InvertLowestOne (InvertLowestOne (height - 1)) + 1
      else InvertLowestOne height)"

partial_function (option) GetAncestor_loop :: "index_store \<Rightarrow> ptr option \<Rightarrow> int \<Rightarrow> int \<Rightarrow> ptr option option" where
  "GetAncestor_loop H pindexWalk heightWalk height =
     (if heightWalk > height then do {
        p \<leftarrow> pindexWalk;
        b \<leftarrow> H p;
        let heightSkip = GetSkipHeight heightWalk;
            heightSkipPrev = GetSkipHeight (heightWalk - 1)
        in if heightSkip = height \<or>
              (heightSkip > height \<and> \<not> (heightSkipPrev < heightSkip - 2 \<and> heightSkipPrev \<ge> height))
           then GetAncestor_loop H (pskip b) heightSkip height
           else GetAncestor_loop H (pprev b) (heightWalk - 1) height
      } else Some pindexWalk)"

definition GetAncestor :: "index_store \<Rightarrow> ptr \<Rightarrow> int \<Rightarrow> ptr option option" where
  "GetAncestor H p height = do {
     b \<leftarrow> H p;
     if height > nHeight b \<or> height < 0 then Some None
     else GetAncestor_loop H (Some p) (nHeight b) height
   }"

definition BuildSkip :: "index_store \<Rightarrow> ptr \<Rightarrow> index_store option" where
  "BuildSkip H p = do {
     b \<leftarrow> H p;
     (case pprev b of
        None \<Rightarrow> Some H
      | Some q \<Rightarrow> do {
          a \<leftarrow> GetAncestor H q (GetSkipHeight (nHeight b));
          Some (H(p \<mapsto> b\<lparr>pskip := a\<rparr>))
        })
   }"

partial_function (option) LastCommonAncestor_loop ::
    "index_store \<Rightarrow> ptr option \<Rightarrow> ptr option \<Rightarrow> (ptr option \<times> ptr option) option" where
  "LastCommonAncestor_loop H pa pb =
     (if pa \<noteq> pb \<and> pa \<noteq> None \<and> pb \<noteq> None then do {
        a \<leftarrow> pa; b \<leftarrow> pb;
        ca \<leftarrow> H a; cb \<leftarrow> H b;
        LastCommonAncestor_loop H (pprev ca) (pprev cb)
      } else Some (pa, pb))"

definition LastCommonAncestor :: "index_store \<Rightarrow> ptr \<Rightarrow> ptr \<Rightarrow> ptr option option" where
  "LastCommonAncestor H pa pb = do {
     ca \<leftarrow> H pa; cb \<leftarrow> H pb;
     pa' \<leftarrow> (if nHeight ca > nHeight cb then GetAncestor H pa (nHeight cb) else Some (Some pa));
     pb' \<leftarrow> (if nHeight ca > nHeight cb then Some (Some pb)
             else if nHeight cb > nHeight ca then GetAncestor H pb (nHeight ca) else Some (Some pb));
     (ra, rb) \<leftarrow> LastCommonAncestor_loop H pa' pb';
     if ra = rb then Some ra else None
   }"

section \<open>Time\<close>

fun median_times :: "index_store \<Rightarrow> nat \<Rightarrow> ptr option \<Rightarrow> int list option" where
  "median_times H 0 pindex = Some []"
| "median_times H (Suc n) None = Some []"
| "median_times H (Suc n) (Some p) = do {
     b \<leftarrow> H p;
     ts \<leftarrow> median_times H n (pprev b);
     Some (GetBlockTime b # ts)
   }"

definition nMedianTimeSpan :: nat where "nMedianTimeSpan = 11"

text \<open>
  The code fills the tail of an array backwards, so the array holds the times oldest first; the
  median is the middle element after sorting.
\<close>

definition GetMedianTimePast :: "index_store \<Rightarrow> ptr \<Rightarrow> int option" where
  "GetMedianTimePast H p = do {
     ts \<leftarrow> median_times H nMedianTimeSpan (Some p);
     let sorted = sort (rev ts) in
     if length ts div 2 < length ts then Some (sorted ! (length ts div 2)) else None
   }"

definition MaxFutureBlockTime :: "Params \<Rightarrow> int \<Rightarrow> CBlockIndex \<Rightarrow> int" where
  "MaxFutureBlockTime params adjustedTime b =
     adjustedTime + FutureBlockTimeDrift params (nHeight b + 1)"

definition MinPastBlockTime :: "Params \<Rightarrow> index_store \<Rightarrow> ptr \<Rightarrow> int option" where
  "MinPastBlockTime params H p = do {
     b \<leftarrow> H p;
     if \<not> IsTimeProtocolV2 params (nHeight b + 1) then GetMedianTimePast H p
     else if nHeight b + 1 = nActivationHeight (vUpgrades params ! UPGRADE_V4_0)
     then Some (GetBlockTime b - FutureBlockTimeDrift params (nHeight b)
                + FutureBlockTimeDrift params (nHeight b + 1))
     else Some (GetBlockTime b)
   }"

section \<open>The active chain\<close>

definition chain_at :: "CChain \<Rightarrow> int \<Rightarrow> ptr option" where
  "chain_at c h = (if h < 0 \<or> h \<ge> int (length (vChain c)) then None else vChain c ! nat h)"

definition Genesis :: "CChain \<Rightarrow> ptr option" where
  "Genesis c = (if length (vChain c) > 0 then vChain c ! 0 else None)"

partial_function (option) tip_loop :: "index_store \<Rightarrow> ptr option \<Rightarrow> ptr option option" where
  "tip_loop H pindex =
     (case pindex of None \<Rightarrow> Some None
      | Some p \<Rightarrow> do {
          b \<leftarrow> H p;
          if pprev b \<noteq> None \<and> \<not> IsProofOfStake b then tip_loop H (pprev b) else Some (Some p)
        })"

definition Tip :: "index_store \<Rightarrow> CChain \<Rightarrow> bool \<Rightarrow> ptr option option" where
  "Tip H c fProofOfStake =
     (if length (vChain c) < 1 then Some None
      else let pindex = vChain c ! (length (vChain c) - 1)
           in if fProofOfStake then tip_loop H pindex else Some pindex)"

definition Height :: "CChain \<Rightarrow> int" where
  "Height c = int (length (vChain c)) - 1"

definition Contains :: "index_store \<Rightarrow> CChain \<Rightarrow> ptr \<Rightarrow> bool option" where
  "Contains H c p = do { b \<leftarrow> H p; Some (chain_at c (nHeight b) = Some p) }"

definition Next :: "index_store \<Rightarrow> CChain \<Rightarrow> ptr \<Rightarrow> ptr option option" where
  "Next H c p = do {
     b \<leftarrow> H p;
     inside \<leftarrow> Contains H c p;
     Some (if inside then chain_at c (nHeight b + 1) else None)
   }"

definition resize_ptrs :: "nat \<Rightarrow> ptr option list \<Rightarrow> ptr option list" where
  "resize_ptrs n v = take n v @ replicate (n - length v) None"

partial_function (option) SetTip_loop :: "index_store \<Rightarrow> ptr option list \<Rightarrow> ptr option \<Rightarrow> ptr option list option" where
  "SetTip_loop H v pindex =
     (case pindex of None \<Rightarrow> Some v
      | Some p \<Rightarrow> do {
          b \<leftarrow> H p;
          if nHeight b < 0 \<or> nHeight b \<ge> int (length v) then None
          else if v ! nat (nHeight b) \<noteq> Some p
          then SetTip_loop H (v[nat (nHeight b) := Some p]) (pprev b)
          else Some v
        })"

definition SetTip :: "index_store \<Rightarrow> CChain \<Rightarrow> ptr option \<Rightarrow> CChain option" where
  "SetTip H c pindex =
     (case pindex of None \<Rightarrow> Some (c\<lparr>vChain := []\<rparr>)
      | Some p \<Rightarrow> do {
          b \<leftarrow> H p;
          if nHeight b + 1 < 0 then None
          else do {
            v \<leftarrow> SetTip_loop H (resize_ptrs (nat (nHeight b + 1)) (vChain c)) (Some p);
            Some (c\<lparr>vChain := v\<rparr>)
          }
        })"

partial_function (option) FindFork_loop :: "index_store \<Rightarrow> CChain \<Rightarrow> ptr option \<Rightarrow> ptr option option" where
  "FindFork_loop H c pindex =
     (case pindex of None \<Rightarrow> Some None
      | Some p \<Rightarrow> do {
          inside \<leftarrow> Contains H c p;
          if inside then Some (Some p) else do { b \<leftarrow> H p; FindFork_loop H c (pprev b) }
        })"

definition FindFork :: "index_store \<Rightarrow> CChain \<Rightarrow> ptr option \<Rightarrow> ptr option option" where
  "FindFork H c pindex =
     (case pindex of None \<Rightarrow> Some None
      | Some p \<Rightarrow> do {
          b \<leftarrow> H p;
          start \<leftarrow> (if nHeight b > Height c then GetAncestor H p (Height c) else Some (Some p));
          FindFork_loop H c start
        })"

text \<open>\<open>GetLocator\<close> collects block hashes at exponentially growing distances.\<close>

partial_function (option) GetLocator_loop ::
    "index_store \<Rightarrow> CChain \<Rightarrow> ptr option \<Rightarrow> int \<Rightarrow> base_uint list \<Rightarrow> base_uint list option" where
  "GetLocator_loop H c pindex nStep vHave =
     (case pindex of None \<Rightarrow> Some vHave
      | Some p \<Rightarrow> do {
          b \<leftarrow> H p;
          let vHave' = vHave @ [phashBlock b] in
          if nHeight b = 0 then Some vHave'
          else do {
            let h = max (nHeight b - nStep) 0;
            inside \<leftarrow> Contains H c p;
            nxt \<leftarrow> (if inside then Some (chain_at c h) else GetAncestor H p h);
            GetLocator_loop H c nxt (if length vHave' > 10 then nStep * 2 else nStep) vHave'
          }
        })"

definition GetLocator :: "index_store \<Rightarrow> CChain \<Rightarrow> ptr option \<Rightarrow> base_uint list option" where
  "GetLocator H c pindex = do {
     start \<leftarrow> (case pindex of None \<Rightarrow> Tip H c False | Some p \<Rightarrow> Some (Some p));
     GetLocator_loop H c start 1 []
   }"

section \<open>Specification: ancestors by walking the parent pointers\<close>

fun walk :: "index_store \<Rightarrow> nat \<Rightarrow> ptr option \<Rightarrow> ptr option" where
  "walk H 0 p = p"
| "walk H (Suc n) None = None"
| "walk H (Suc n) (Some p) = (case H p of None \<Rightarrow> None | Some b \<Rightarrow> walk H n (pprev b))"

definition height_of :: "index_store \<Rightarrow> ptr \<Rightarrow> int" where
  "height_of H p = nHeight (the (H p))"

definition ancestor :: "index_store \<Rightarrow> ptr \<Rightarrow> int \<Rightarrow> ptr option" where
  "ancestor H p h = walk H (nat (height_of H p - h)) (Some p)"

text \<open>The block has a parent one below it in the set, or none and then it is at height 0.\<close>

definition parent_ok :: "index_store \<Rightarrow> ptr set \<Rightarrow> CBlockIndex \<Rightarrow> bool" where
  "parent_ok H S b \<longleftrightarrow> (case pprev b of None \<Rightarrow> nHeight b = 0
     | Some q \<Rightarrow> q \<in> S \<and> H q \<noteq> None \<and> nHeight b = height_of H q + 1)"

text \<open>
  \<open>wf_on H S\<close>: the entries of \<open>S\<close> form a part of the tree that is closed under parents, with
  correct heights and skip pointers.
\<close>

definition wf_on :: "index_store \<Rightarrow> ptr set \<Rightarrow> bool" where
  "wf_on H S \<longleftrightarrow> (\<forall>p \<in> S. \<exists>b. H p = Some b \<and> 0 \<le> nHeight b \<and> parent_ok H S b \<and>
     (1 \<le> nHeight b \<longrightarrow> pskip b = ancestor H p (GetSkipHeight (nHeight b))))"

section \<open>Skip heights\<close>

lemma InvertLowestOne_bounds:
  assumes "1 \<le> n"
  shows "0 \<le> InvertLowestOne n" and "InvertLowestOne n < n"
proof -
  show "0 \<le> InvertLowestOne n" using assms by (simp add: InvertLowestOne_def)
  have "n AND (n - 1) \<le> n - 1" using assms by (intro AND_upper2) simp
  then show "InvertLowestOne n < n" by (simp add: InvertLowestOne_def)
qed

lemma GetSkipHeight_nonneg [simp]: "0 \<le> GetSkipHeight h"
proof -
  have "0 \<le> InvertLowestOne (InvertLowestOne (h - 1))" if "2 \<le> h"
    using that InvertLowestOne_bounds [of "h - 1"] by (simp add: InvertLowestOne_def)
  then show ?thesis using InvertLowestOne_bounds [of h] by (simp add: GetSkipHeight_def)
qed

lemma GetSkipHeight_less:
  assumes "1 \<le> h"
  shows "GetSkipHeight h < h"
proof -
  have "InvertLowestOne (InvertLowestOne (h - 1)) < h - 1" if "2 \<le> h"
  proof (cases "1 \<le> InvertLowestOne (h - 1)")
    case True
    then show ?thesis using that InvertLowestOne_bounds [of "h - 1"] InvertLowestOne_bounds(2) [OF True] by simp
  next
    case False
    then have "InvertLowestOne (h - 1) = 0" using that InvertLowestOne_bounds [of "h - 1"] by simp
    then show ?thesis using that by (simp add: InvertLowestOne_def)
  qed
  then show ?thesis using assms InvertLowestOne_bounds [of h] by (auto simp: GetSkipHeight_def)
qed

section \<open>Walking\<close>

lemma walk_None [simp]: "walk H n None = None"
  by (cases n) simp_all

lemma walk_numeral [simp]: "walk H (numeral k) p = walk H (Suc (pred_numeral k)) p"
  by (simp add: numeral_eq_Suc)

lemma walk_add: "walk H (m + n) p = walk H n (walk H m p)"
proof (induction m arbitrary: p)
  case (Suc m)
  then show ?case by (cases p) (auto split: option.splits)
qed simp

lemma height_of_eq [simp]: "H p = Some b \<Longrightarrow> height_of H p = nHeight b"
  by (simp add: height_of_def)

lemma wf_on_Some:
  assumes "wf_on H S" and "p \<in> S"
  obtains b where "H p = Some b"
  using assms unfolding wf_on_def by blast

lemma wf_on_entry:
  assumes "wf_on H S" and "p \<in> S" and "H p = Some b"
  shows "0 \<le> nHeight b" and "parent_ok H S b"
    and "1 \<le> nHeight b \<Longrightarrow> pskip b = ancestor H p (GetSkipHeight (nHeight b))"
  using assms unfolding wf_on_def by fastforce+

lemma wf_on_height: "wf_on H S \<Longrightarrow> p \<in> S \<Longrightarrow> 0 \<le> height_of H p"
  by (metis wf_on_Some wf_on_entry(1) height_of_eq)

lemma wf_on_parent:
  assumes "wf_on H S" and "p \<in> S" and "H p = Some b" and "0 < nHeight b"
  obtains q where "pprev b = Some q" and "q \<in> S" and "height_of H q = nHeight b - 1"
proof -
  have "parent_ok H S b" by (rule wf_on_entry(2) [OF assms(1-3)])
  then obtain q where "pprev b = Some q" "q \<in> S" "nHeight b = height_of H q + 1"
    using assms(4) by (cases "pprev b") (auto simp: parent_ok_def)
  then show ?thesis by (intro that [of q]) simp_all
qed

lemma wf_on_root:
  assumes "wf_on H S" and "p \<in> S" and "H p = Some b" and "nHeight b = 0"
  shows "pprev b = None"
proof (cases "pprev b")
  case (Some q)
  have "parent_ok H S b" by (rule wf_on_entry(2) [OF assms(1-3)])
  then have "q \<in> S" "height_of H q = - 1" using assms(4) Some by (auto simp: parent_ok_def)
  then show ?thesis using wf_on_height [OF assms(1), of q] by simp
qed

lemma walk_in:
  assumes "wf_on H S"
  shows "p \<in> S \<Longrightarrow> int n \<le> height_of H p \<Longrightarrow>
    \<exists>q \<in> S. walk H n (Some p) = Some q \<and> height_of H q = height_of H p - int n"
proof (induction n arbitrary: p)
  case (Suc n)
  obtain b where b: "H p = Some b" by (rule wf_on_Some [OF assms Suc.prems(1)])
  obtain q where q: "pprev b = Some q" "q \<in> S" "height_of H q = nHeight b - 1"
    using wf_on_parent [OF assms Suc.prems(1) b] Suc.prems(2) b by auto
  with Suc.IH [of q] Suc.prems(2) b show ?case by auto
qed simp

lemma ancestor_in:
  assumes "wf_on H S" and "p \<in> S" and "0 \<le> h" and "h \<le> height_of H p"
  obtains q where "ancestor H p h = Some q" and "q \<in> S" and "height_of H q = h"
  using walk_in [OF assms(1,2), of "nat (height_of H p - h)"] assms(3,4) that
  unfolding ancestor_def by auto

lemma ancestor_not_None:
  assumes "wf_on H S" and "p \<in> S" and "0 \<le> h" and "h \<le> height_of H p"
  shows "ancestor H p h \<noteq> None"
  by (rule ancestor_in [OF assms]) simp

lemma ancestor_self [simp]: "ancestor H p (height_of H p) = Some p"
  by (simp add: ancestor_def)

lemma ancestor_trans:
  assumes "wf_on H S" and "p \<in> S" and "ancestor H p h = Some q"
    and "0 \<le> h'" and "h' \<le> h" and "h \<le> height_of H p"
  shows "ancestor H q h' = ancestor H p h'"
proof -
  have hq: "height_of H q = h" using ancestor_in [OF assms(1,2), of h] assms(3-) by force
  have "nat (height_of H p - h') = nat (height_of H p - h) + nat (h - h')" using assms(5,6) by simp
  then have "walk H (nat (height_of H p - h')) (Some p) = walk H (nat (h - h')) (Some q)"
    using walk_add assms(3) unfolding ancestor_def by metis
  then show ?thesis by (simp add: ancestor_def hq)
qed

lemma ancestor_parent:
  assumes "H p = Some b" and "pprev b = Some q" and "height_of H q = nHeight b - 1" and "h < nHeight b"
  shows "ancestor H p h = ancestor H q h"
proof -
  have "nat (height_of H p - h) = Suc (nat (height_of H q - h))"
    using assms by (simp add: height_of_def)
  then show ?thesis using assms(1,2) by (simp add: ancestor_def)
qed

section \<open>The skip list finds the right ancestor\<close>

lemma GetAncestor_loop_correct:
  assumes wf: "wf_on H S"
  shows "p \<in> S \<Longrightarrow> 0 \<le> h \<Longrightarrow> h \<le> height_of H p \<Longrightarrow>
    GetAncestor_loop H (Some p) (height_of H p) h = Some (ancestor H p h)"
proof (induction "nat (height_of H p)" arbitrary: p rule: less_induct)
  case less
  obtain b where Hp: "H p = Some b" by (rule wf_on_Some [OF wf less.prems(1)])
  note entry = wf_on_entry [OF wf less.prems(1) Hp]
  have b: "H p = Some b" "height_of H p = nHeight b" using Hp by simp_all
  note skip = entry(3)
  show ?case
  proof (cases "h < nHeight b")
    case False
    then have "h = height_of H p" using less.prems b by simp
    then show ?thesis by (simp add: GetAncestor_loop.simps)
  next
    case True
    let ?k = "GetSkipHeight (nHeight b)"
    have up: "GetAncestor_loop H (pskip b) ?k h = Some (ancestor H p h)" if "h \<le> ?k"
    proof -
      have k: "?k < nHeight b" using GetSkipHeight_less [of "nHeight b"] True less.prems(2) by simp
      obtain q where q: "ancestor H p ?k = Some q" "q \<in> S" "height_of H q = ?k"
        using ancestor_in [OF wf less.prems(1), of ?k] k b(2) by auto
      have "GetAncestor_loop H (Some q) (height_of H q) h = Some (ancestor H q h)"
        by (rule less.hyps) (use q k b that less.prems in auto)
      moreover have "ancestor H q h = ancestor H p h"
        using ancestor_trans [OF wf less.prems(1) q(1) less.prems(2) that] k b(2) by simp
      ultimately show ?thesis using skip q True less.prems(2) by simp
    qed
    have prev: "GetAncestor_loop H (pprev b) (nHeight b - 1) h = Some (ancestor H p h)"
    proof -
      obtain q where q: "pprev b = Some q" "q \<in> S" "height_of H q = nHeight b - 1"
        using wf_on_parent [OF wf less.prems(1) b(1)] True less.prems(2) by auto
      have "GetAncestor_loop H (Some q) (height_of H q) h = Some (ancestor H q h)"
        by (rule less.hyps) (use q b True less.prems in auto)
      then show ?thesis using q ancestor_parent [OF b(1) q(1,3) True] by simp
    qed
    show ?thesis
      using True b up prev by (subst GetAncestor_loop.simps) (auto simp: Let_def)
  qed
qed

lemma GetAncestor_eq:
  assumes "wf_on H S" and "p \<in> S"
  shows "GetAncestor H p h = Some (if 0 \<le> h \<and> h \<le> height_of H p then ancestor H p h else None)"
proof -
  obtain b where b: "H p = Some b" by (rule wf_on_Some [OF assms])
  then show ?thesis using GetAncestor_loop_correct [OF assms, of h] by (simp add: GetAncestor_def)
qed

text \<open>Setting the skip pointer of an entry outside the set changes no walk inside it.\<close>

lemma walk_update:
  assumes "wf_on H S" and "H r = Some b" and "pprev b' = pprev b"
  shows "walk (H(r \<mapsto> b')) n p = walk H n p"
proof (induction n arbitrary: p)
  case (Suc n)
  then show ?case using assms by (cases p) (auto split: option.splits)
qed simp

lemma parent_ok_mono: "parent_ok H S b \<Longrightarrow> S \<subseteq> T \<Longrightarrow> parent_ok H T b"
  by (auto simp: parent_ok_def split: option.splits)

lemma parent_ok_cong:
  "pprev b' = pprev b \<Longrightarrow> nHeight b' = nHeight b \<Longrightarrow> parent_ok H S b' = parent_ok H S b"
  by (simp add: parent_ok_def split: option.split)

lemma BuildSkip_wf:
  assumes wf: "wf_on H S" and r: "r \<notin> S" "H r = Some b" and par: "parent_ok H S b"
    and nn: "0 \<le> nHeight b"
  shows "\<exists>H'. BuildSkip H r = Some H' \<and> wf_on H' (insert r S)"
proof (cases "pprev b")
  case None
  then have "nHeight b = 0" using par by (simp add: parent_ok_def)
  then have "wf_on H (insert r S)"
    using wf r(2) par parent_ok_mono [OF _ subset_insertI] unfolding wf_on_def by fastforce
  then show ?thesis using None r(2) by (simp add: BuildSkip_def)
next
  case (Some q)
  let ?k = "GetSkipHeight (nHeight b)" and ?b = "b\<lparr>pskip := ancestor H r (GetSkipHeight (nHeight b))\<rparr>"
  let ?H = "H(r \<mapsto> ?b)"
  have q: "q \<in> S" "height_of H q = nHeight b - 1" using par Some by (simp_all add: parent_ok_def)
  have k: "?k < nHeight b" using GetSkipHeight_less wf_on_height [OF wf q(1)] q(2) by simp
  have "GetAncestor H q ?k = Some (ancestor H r ?k)"
    using GetAncestor_eq [OF wf q(1)] ancestor_parent [OF r(2) Some q(2) k] k q(2) by simp
  then have build: "BuildSkip H r = Some ?H" using r(2) Some by (simp add: BuildSkip_def)
  have height [simp]: "height_of ?H p = height_of H p" for p using r(2) by (simp add: height_of_def)
  have anc [simp]: "ancestor ?H p h = ancestor H p h" for p h
    using walk_update [OF wf r(2), of ?b] by (simp add: ancestor_def [of _ p h])
  have par': "parent_ok ?H (insert r S) c" if "parent_ok H S c" for c
    using that by (auto simp: parent_ok_def split: option.splits)
  have "\<exists>c. ?H p = Some c \<and> 0 \<le> nHeight c \<and> parent_ok ?H (insert r S) c \<and>
    (1 \<le> nHeight c \<longrightarrow> pskip c = ancestor ?H p (GetSkipHeight (nHeight c)))" if "p \<in> insert r S" for p
  proof (cases "p = r")
    case True
    have "parent_ok ?H (insert r S) ?b" using par' [OF par] by (subst parent_ok_cong [of _ b]) simp_all
    then show ?thesis using True nn by simp
  next
    case False
    then have "p \<in> S" using that by simp
    then show ?thesis using wf par' False unfolding wf_on_def by auto
  qed
  then have "wf_on ?H (insert r S)" unfolding wf_on_def by blast
  with build show ?thesis by blast
qed

section \<open>The active chain lists the ancestors of its tip\<close>

definition chain_of :: "index_store \<Rightarrow> ptr \<Rightarrow> ptr option list" where
  "chain_of H t = map (\<lambda>i. ancestor H t (int i)) [0..<nat (height_of H t + 1)]"

definition chain_ok :: "index_store \<Rightarrow> ptr set \<Rightarrow> CChain \<Rightarrow> bool" where
  "chain_ok H S c \<longleftrightarrow> vChain c = [] \<or> (\<exists>t \<in> S. vChain c = chain_of H t)"

text \<open>Below every entry of the vector are the ancestors of that entry.\<close>

definition ancestors_below :: "index_store \<Rightarrow> ptr option list \<Rightarrow> bool" where
  "ancestors_below H v \<longleftrightarrow> (\<forall>i r j. i < length v \<and> v ! i = Some r \<and> j \<le> i \<longrightarrow> v ! j = ancestor H r (int j))"

lemma chain_of_below:
  assumes "wf_on H S" and "t \<in> S"
  shows "ancestors_below H (chain_of H t)"
proof -
  have "chain_of H t ! j = ancestor H r (int j)"
    if "i < length (chain_of H t)" "chain_of H t ! i = Some r" "j \<le> i" for i r j
    using that ancestor_trans [OF assms, of "int i" r "int j"] by (simp add: chain_of_def)
  then show ?thesis by (auto simp: ancestors_below_def)
qed

lemma chain_ok_below: "wf_on H S \<Longrightarrow> chain_ok H S c \<Longrightarrow> ancestors_below H (vChain c)"
  unfolding chain_ok_def using chain_of_below by (auto simp: ancestors_below_def)

lemma resize_ptrs_length [simp]: "length (resize_ptrs n v) = n"
  by (simp add: resize_ptrs_def)

lemma resize_ptrs_below: "ancestors_below H v \<Longrightarrow> ancestors_below H (resize_ptrs n v)"
  by (auto simp: ancestors_below_def resize_ptrs_def nth_append split: if_splits)

lemma SetTip_loop_correct:
  assumes wf: "wf_on H S"
  shows "p \<in> S \<Longrightarrow> height_of H p = int h \<Longrightarrow> h < length v \<Longrightarrow>
    (\<And>i r j. i \<le> h \<Longrightarrow> v ! i = Some r \<Longrightarrow> j \<le> i \<Longrightarrow> v ! j = ancestor H r (int j)) \<Longrightarrow>
    \<exists>v'. SetTip_loop H v (Some p) = Some v' \<and> length v' = length v \<and>
      (\<forall>i \<le> h. v' ! i = ancestor H p (int i)) \<and> (\<forall>i > h. v' ! i = v ! i)"
proof (induction h arbitrary: p v)
  case 0
  obtain b where b: "H p = Some b" by (rule wf_on_Some [OF wf 0(1)])
  then have "nHeight b = 0" using 0(2) by simp
  moreover from this have "pprev b = None" by (rule wf_on_root [OF wf 0(1) b])
  moreover have "ancestor H p 0 = Some p" using ancestor_self [of H p] 0(2) by simp
  ultimately show ?case using b 0(3)
    by (subst SetTip_loop.simps) (auto simp: SetTip_loop.simps [of H _ None])
next
  case (Suc h)
  obtain b where b: "H p = Some b" by (rule wf_on_Some [OF wf Suc.prems(1)])
  then have hb: "nHeight b = int h + 1" using Suc.prems(2) by simp
  have self: "ancestor H p (int h + 1) = Some p" using ancestor_self [of H p] Suc.prems(2) by (simp add: add.commute)
  show ?case
  proof (cases "v ! Suc h = Some p")
    case True
    then have "v ! i = ancestor H p (int i)" if "i \<le> Suc h" for i using Suc.prems(4) that by blast
    then show ?thesis using b hb True Suc.prems(3)
      by (subst SetTip_loop.simps) (auto simp: nat_add_distrib)
  next
    case False
    obtain q where q: "pprev b = Some q" "q \<in> S" "height_of H q = int h"
      using wf_on_parent [OF wf Suc.prems(1) b] hb by auto
    have "\<exists>v'. SetTip_loop H (v[Suc h := Some p]) (Some q) = Some v' \<and> length v' = length (v[Suc h := Some p]) \<and>
        (\<forall>i \<le> h. v' ! i = ancestor H q (int i)) \<and> (\<forall>i > h. v' ! i = v[Suc h := Some p] ! i)"
    proof (rule Suc.IH)
      show "v[Suc h := Some p] ! j = ancestor H r (int j)"
        if "i \<le> h" "v[Suc h := Some p] ! i = Some r" "j \<le> i" for i r j
        using Suc.prems(4) [of i r j] that by simp
    qed (use q Suc.prems(3) in auto)
    then obtain v' where v': "SetTip_loop H (v[Suc h := Some p]) (Some q) = Some v'" "length v' = length v"
        "\<forall>i \<le> h. v' ! i = ancestor H q (int i)" "\<forall>i > h. v' ! i = v[Suc h := Some p] ! i" by auto
    have "SetTip_loop H v (Some p) = Some v'"
      using b hb False Suc.prems(3) v'(1) q(1) by (subst SetTip_loop.simps) (auto simp: nat_add_distrib)
    moreover have "ancestor H q (int i) = ancestor H p (int i)" if "i \<le> h" for i
      using ancestor_parent [of H p b q "int i"] b q(1,3) hb that by simp
    ultimately show ?thesis using v' self Suc.prems(3) by (auto simp: le_Suc_eq add.commute)
  qed
qed

lemma SetTip_eq:
  assumes "wf_on H S" and "chain_ok H S c" and "p \<in> S"
  shows "SetTip H c (Some p) = Some (c\<lparr>vChain := chain_of H p\<rparr>)"
proof -
  obtain b where b: "H p = Some b" by (rule wf_on_Some [OF assms(1,3)])
  note nn = wf_on_height [OF assms(1,3)]
  let ?n = "nat (nHeight b + 1)"
  let ?v = "resize_ptrs ?n (vChain c)"
  have below: "ancestors_below H ?v" by (rule resize_ptrs_below [OF chain_ok_below [OF assms(1,2)]])
  have "\<exists>v'. SetTip_loop H ?v (Some p) = Some v' \<and> length v' = length ?v \<and>
      (\<forall>i \<le> nat (nHeight b). v' ! i = ancestor H p (int i)) \<and> (\<forall>i > nat (nHeight b). v' ! i = ?v ! i)"
  proof (rule SetTip_loop_correct [OF assms(1,3)])
    show "?v ! j = ancestor H r (int j)" if "i \<le> nat (nHeight b)" "?v ! i = Some r" "j \<le> i" for i r j
    proof -
      have "i < length ?v" using that(1) b nn by simp
      then show ?thesis using below that(2,3) unfolding ancestors_below_def by blast
    qed
  qed (use b nn in auto)
  then obtain v' where v': "SetTip_loop H ?v (Some p) = Some v'" "length v' = ?n"
    "\<And>i. i \<le> nat (nHeight b) \<Longrightarrow> v' ! i = ancestor H p (int i)" by auto
  have "v' = chain_of H p"
    by (rule nth_equalityI) (use v' b nn in \<open>auto simp: chain_of_def\<close>)
  then show ?thesis using b nn v'(1) by (simp add: SetTip_def)
qed

lemma chain_of_ok: "p \<in> S \<Longrightarrow> chain_ok H S (c\<lparr>vChain := chain_of H p\<rparr>)"
  by (auto simp: chain_ok_def)

section \<open>Forks and common ancestors\<close>

text \<open>The ancestor of \<open>p\<close> at height \<open>h\<close> is the active chain's block at that height.\<close>

definition shared_at :: "index_store \<Rightarrow> CChain \<Rightarrow> ptr \<Rightarrow> int \<Rightarrow> bool" where
  "shared_at H c p h \<longleftrightarrow> 0 \<le> h \<and> h \<le> height_of H p \<and> chain_at c h = ancestor H p h"

definition is_fork :: "index_store \<Rightarrow> CChain \<Rightarrow> ptr \<Rightarrow> ptr option \<Rightarrow> bool" where
  "is_fork H c p r = (case r of None \<Rightarrow> \<forall>h. \<not> shared_at H c p h
     | Some f \<Rightarrow> ancestor H p (height_of H f) = Some f \<and> shared_at H c p (height_of H f) \<and>
         (\<forall>h. shared_at H c p h \<longrightarrow> h \<le> height_of H f))"

lemma shared_at_parent:
  assumes "H p = Some b" and "pprev b = Some q" and "height_of H q = nHeight b - 1" and "h < nHeight b"
  shows "shared_at H c q h \<longleftrightarrow> shared_at H c p h"
  using ancestor_parent [OF assms] assms by (auto simp: shared_at_def)

lemma FindFork_loop_correct:
  assumes wf: "wf_on H S"
  shows "p \<in> S \<Longrightarrow> height_of H p = int n \<Longrightarrow>
    \<exists>r. FindFork_loop H c (Some p) = Some r \<and> is_fork H c p r"
proof (induction n arbitrary: p)
  case 0
  obtain b where b: "H p = Some b" by (rule wf_on_Some [OF wf 0(1)])
  then have "nHeight b = 0" using 0(2) by simp
  moreover from this have "pprev b = None" by (rule wf_on_root [OF wf 0(1) b])
  moreover have "ancestor H p 0 = Some p" using ancestor_self [of H p] 0(2) by simp
  ultimately show ?case using b
    by (subst FindFork_loop.simps)
      (auto simp: FindFork_loop.simps [of H _ None] Contains_def is_fork_def shared_at_def)
next
  case (Suc n)
  obtain b where b: "H p = Some b" by (rule wf_on_Some [OF wf Suc.prems(1)])
  then have hb: "nHeight b = int n + 1" using Suc.prems(2) by simp
  have self: "ancestor H p (nHeight b) = Some p" using ancestor_self [of H p] b by simp
  show ?case
  proof (cases "chain_at c (nHeight b) = Some p")
    case True
    then show ?thesis using b self Suc.prems(2) hb
      by (subst FindFork_loop.simps) (auto simp: Contains_def is_fork_def shared_at_def)
  next
    case False
    obtain q where q: "pprev b = Some q" "q \<in> S" "height_of H q = int n"
      using wf_on_parent [OF wf Suc.prems(1) b] hb by auto
    obtain r where r: "FindFork_loop H c (Some q) = Some r" "is_fork H c q r" using Suc.IH [OF q(2,3)] by auto
    have shared: "shared_at H c q h \<longleftrightarrow> shared_at H c p h" for h
    proof (cases "h < nHeight b")
      case True
      then show ?thesis using shared_at_parent [of H p b q h c] b q hb by simp
    next
      case h: False
      then show ?thesis using False self q(3) hb b by (cases "h = nHeight b") (auto simp: shared_at_def)
    qed
    moreover have "ancestor H p (height_of H f) = Some f" if "r = Some f" for f
    proof -
      have "ancestor H q (height_of H f) = Some f" "height_of H f \<le> int n"
        using r(2) that q(3) by (auto simp: is_fork_def shared_at_def)
      then show ?thesis using ancestor_parent [of H p b q "height_of H f"] b q hb by simp
    qed
    ultimately have "is_fork H c p r" using r(2) by (simp add: is_fork_def split: option.splits)
    then show ?thesis using b q(1) r(1) False
      by (subst FindFork_loop.simps) (auto simp: Contains_def)
  qed
qed

lemma FindFork_spec:
  assumes wf: "wf_on H S" and p: "p \<in> S"
  shows "\<exists>r. FindFork H c (Some p) = Some r \<and> is_fork H c p r"
proof -
  obtain b where b: "H p = Some b" by (rule wf_on_Some [OF wf p])
  show ?thesis
  proof (cases "nHeight b > Height c")
    case False
    then show ?thesis using FindFork_loop_correct [OF wf p, of "nat (nHeight b)" c] b wf_on_height [OF wf p]
      by (simp add: FindFork_def)
  next
    case high: True
    have short: "\<not> shared_at H c p h" if "h > Height c" for h
      using that ancestor_not_None [OF wf p, of h]
      by (auto simp: shared_at_def chain_at_def Height_def)
    show ?thesis
    proof (cases "0 \<le> Height c")
      case False
      then have "\<not> shared_at H c p h" for h using short [of h] by (auto simp: shared_at_def)
      then show ?thesis using False b high GetAncestor_eq [OF wf p, of "Height c"]
        by (simp add: FindFork_def FindFork_loop.simps is_fork_def)
    next
      case True
      obtain q where q: "ancestor H p (Height c) = Some q" "q \<in> S" "height_of H q = Height c"
        using ancestor_in [OF wf p True] high b by auto
      obtain r where r: "FindFork_loop H c (Some q) = Some r" "is_fork H c q r"
        using FindFork_loop_correct [OF wf q(2), of "nat (Height c)" c] q(3) True by auto
      have trans: "ancestor H q h = ancestor H p h" if "0 \<le> h" "h \<le> Height c" for h
        using ancestor_trans [OF wf p q(1) that] high b by simp
      then have "shared_at H c q h \<longleftrightarrow> shared_at H c p h" for h
        using short [of h] q(3) high b by (cases "h \<le> Height c") (auto simp: shared_at_def)
      moreover have "ancestor H p (height_of H f) = Some f" if "r = Some f" for f
        using r(2) that trans [of "height_of H f"] q(3) by (auto simp: is_fork_def shared_at_def)
      ultimately have "is_fork H c p r" using r(2) by (simp add: is_fork_def split: option.splits)
      then show ?thesis using r(1) b high q(1) True GetAncestor_eq [OF wf p, of "Height c"]
        by (simp add: FindFork_def)
    qed
  qed
qed

text \<open>The highest common ancestor of two entries.\<close>

definition common_at :: "index_store \<Rightarrow> ptr \<Rightarrow> ptr \<Rightarrow> int \<Rightarrow> bool" where
  "common_at H p q h \<longleftrightarrow> 0 \<le> h \<and> h \<le> height_of H p \<and> h \<le> height_of H q \<and> ancestor H p h = ancestor H q h"

definition is_lca :: "index_store \<Rightarrow> ptr \<Rightarrow> ptr \<Rightarrow> ptr option \<Rightarrow> bool" where
  "is_lca H p q r = (case r of None \<Rightarrow> \<forall>h. \<not> common_at H p q h
     | Some f \<Rightarrow> ancestor H p (height_of H f) = Some f \<and> common_at H p q (height_of H f) \<and>
         (\<forall>h. common_at H p q h \<longrightarrow> h \<le> height_of H f))"

lemma LastCommonAncestor_loop_correct:
  assumes wf: "wf_on H S"
  shows "p \<in> S \<Longrightarrow> q \<in> S \<Longrightarrow> height_of H p = int n \<Longrightarrow> height_of H q = int n \<Longrightarrow>
    \<exists>r. LastCommonAncestor_loop H (Some p) (Some q) = Some (r, r) \<and> is_lca H p q r"
proof (induction n arbitrary: p q)
  case 0
  obtain b c where b: "H p = Some b" "H q = Some c" using wf_on_Some [OF wf] 0(1,2) by metis
  then have "pprev b = None" "pprev c = None"
    using 0 wf_on_root [OF wf 0(1) b(1)] wf_on_root [OF wf 0(2) b(2)] by simp_all
  moreover have "ancestor H p 0 = Some p" "ancestor H q 0 = Some q"
    using ancestor_self [of H p] ancestor_self [of H q] 0(3,4) by simp_all
  ultimately show ?case using b 0(3,4)
    by (subst LastCommonAncestor_loop.simps)
      (auto simp: LastCommonAncestor_loop.simps [of H None None] is_lca_def common_at_def)
next
  case (Suc n)
  show ?case
  proof (cases "p = q")
    case True
    then show ?thesis using Suc.prems ancestor_self [of H q]
      by (subst LastCommonAncestor_loop.simps) (auto simp: is_lca_def common_at_def)
  next
    case False
    obtain b c where b: "H p = Some b" "H q = Some c" using wf_on_Some [OF wf] Suc.prems(1,2) by metis
    then have hb: "nHeight b = int n + 1" "nHeight c = int n + 1" using Suc.prems by simp_all
    obtain p' where p': "pprev b = Some p'" "p' \<in> S" "height_of H p' = int n"
      using wf_on_parent [OF wf Suc.prems(1) b(1)] hb by auto
    obtain q' where q': "pprev c = Some q'" "q' \<in> S" "height_of H q' = int n"
      using wf_on_parent [OF wf Suc.prems(2) b(2)] hb by auto
    obtain r where r: "LastCommonAncestor_loop H (Some p') (Some q') = Some (r, r)" "is_lca H p' q' r"
      using Suc.IH [OF p'(2) q'(2) p'(3) q'(3)] by auto
    have up: "ancestor H p' h = ancestor H p h" "ancestor H q' h = ancestor H q h" if "h \<le> int n" for h
      using ancestor_parent [of H p b p' h] ancestor_parent [of H q c q' h] b p' q' hb that by simp_all
    have differ: "\<not> common_at H p q (int n + 1)"
      using ancestor_self [of H p] ancestor_self [of H q] Suc.prems(3,4) False by (simp add: common_at_def add.commute)
    have "common_at H p' q' h \<longleftrightarrow> common_at H p q h" for h
      using differ up [of h] p'(3) q'(3) Suc.prems(3,4) by (cases "h = int n + 1") (auto simp: common_at_def)
    moreover have "ancestor H p (height_of H f) = Some f" if "r = Some f" for f
      using r(2) that up(1) [of "height_of H f"] p'(3) by (auto simp: is_lca_def common_at_def)
    ultimately have "is_lca H p q r" using r(2) by (simp add: is_lca_def split: option.splits)
    then show ?thesis using False b p'(1) q'(1) r(1) by (subst LastCommonAncestor_loop.simps) auto
  qed
qed

lemma is_lca_swap: "is_lca H p q r \<Longrightarrow> is_lca H q p r"
  by (auto simp: is_lca_def common_at_def split: option.splits)

lemma is_lca_lift:
  assumes wf: "wf_on H S" and p: "p \<in> S" and a: "ancestor H p (height_of H q) = Some a"
    and le: "height_of H q \<le> height_of H p" and q0: "0 \<le> height_of H q" and r: "is_lca H a q r"
  shows "is_lca H p q r"
proof -
  have ha: "height_of H a = height_of H q" using ancestor_in [OF wf p q0 le] a by auto
  have up: "ancestor H a h = ancestor H p h" if "0 \<le> h" "h \<le> height_of H q" for h
    by (rule ancestor_trans [OF wf p a that le])
  then have "common_at H a q h \<longleftrightarrow> common_at H p q h" for h using ha le by (auto simp: common_at_def)
  with r up show ?thesis by (auto simp: is_lca_def common_at_def split: option.splits)
qed

lemma LastCommonAncestor_spec:
  assumes wf: "wf_on H S" and p: "p \<in> S" and q: "q \<in> S"
  shows "\<exists>r. LastCommonAncestor H p q = Some r \<and> is_lca H p q r"
proof -
  obtain b c where b: "H p = Some b" "H q = Some c" using wf_on_Some [OF wf] p q by metis
  note nn = wf_on_height [OF wf p] wf_on_height [OF wf q]
  consider "nHeight b > nHeight c" | "nHeight c > nHeight b" | "nHeight b = nHeight c" by linarith
  then show ?thesis
  proof cases
    case 1
    obtain a where a: "ancestor H p (nHeight c) = Some a" "a \<in> S" "height_of H a = nHeight c"
      using ancestor_in [OF wf p, of "nHeight c"] 1 nn b by auto
    obtain r where r: "LastCommonAncestor_loop H (Some a) (Some q) = Some (r, r)" "is_lca H a q r"
      using LastCommonAncestor_loop_correct [OF wf a(2) q, of "nat (nHeight c)"] a b nn by auto
    have "is_lca H p q r" using is_lca_lift [OF wf p _ _ nn(2) r(2)] a b 1 by simp
    then show ?thesis using r(1) b 1 a nn GetAncestor_eq [OF wf p] by (simp add: LastCommonAncestor_def)
  next
    case 2
    obtain a where a: "ancestor H q (nHeight b) = Some a" "a \<in> S" "height_of H a = nHeight b"
      using ancestor_in [OF wf q, of "nHeight b"] 2 nn b by auto
    obtain r where r: "LastCommonAncestor_loop H (Some p) (Some a) = Some (r, r)" "is_lca H p a r"
      using LastCommonAncestor_loop_correct [OF wf p a(2), of "nat (nHeight b)"] a b nn by auto
    have "is_lca H q p r" using is_lca_lift [OF wf q _ _ nn(1) is_lca_swap [OF r(2)]] a b 2 by simp
    then show ?thesis using r(1) b 2 a nn GetAncestor_eq [OF wf q] is_lca_swap
      by (simp add: LastCommonAncestor_def)
  next
    case 3
    then show ?thesis using LastCommonAncestor_loop_correct [OF wf p q, of "nat (nHeight b)"] b nn
      by (auto simp: LastCommonAncestor_def)
  qed
qed

section \<open>Median time\<close>

definition time_of :: "index_store \<Rightarrow> ptr option \<Rightarrow> int" where
  "time_of H p = GetBlockTime (the (H (the p)))"

lemma median_times_eq:
  assumes wf: "wf_on H S"
  shows "p \<in> S \<Longrightarrow> median_times H n (Some p) =
    Some (map (\<lambda>i. time_of H (ancestor H p (height_of H p - int i))) [0..<min n (nat (height_of H p + 1))])"
proof (induction n arbitrary: p)
  case (Suc n)
  obtain b where b: "H p = Some b" by (rule wf_on_Some [OF wf Suc.prems])
  have first: "time_of H (ancestor H p (height_of H p)) = GetBlockTime b" 
    using b by (simp only: ancestor_self time_of_def option.sel)
  show ?case
  proof (cases "nHeight b = 0")
    case True
    then have "pprev b = None" by (rule wf_on_root [OF wf Suc.prems b])
    then have "median_times H n (pprev b) = Some []" by (cases n) simp_all
    then show ?thesis using b True first by simp
  next
    case False
    then have pos: "0 < nHeight b" using wf_on_height [OF wf Suc.prems] b by simp
    obtain q where q: "pprev b = Some q" "q \<in> S" "height_of H q = nHeight b - 1"
      using wf_on_parent [OF wf Suc.prems b pos] by blast
    have anc: "ancestor H q (nHeight b - 1 - int i) = ancestor H p (nHeight b - int (Suc i))" for i
      using ancestor_parent [of H p b q "nHeight b - 1 - int i"] b q by (simp add: algebra_simps)
    have m: "min (Suc n) (nat (nHeight b + 1)) = Suc (min n (nat (nHeight b)))" using pos by simp
    show ?thesis using b first Suc.IH [OF q(2)] q anc
      by (simp add: m map_upt_Suc del: upt_Suc min_Suc_Suc)
  qed
qed simp

lemma sorted_median_counts:
  fixes ts :: "int list"
  assumes "k < length ts"
  shows "length (filter (\<lambda>t. t < sort ts ! k) ts) \<le> k" (is ?low)
    and "length (filter (\<lambda>t. sort ts ! k < t) ts) \<le> length ts - 1 - k" (is ?high)
proof -
  let ?s = "sort ts"
  have len: "length ?s = length ts" by simp
  have s: "sorted ?s" by simp
  have split: "?s = take k ?s @ ?s ! k # drop (Suc k) ?s" using assms len by (simp add: id_take_nth_drop)
  have cnt: "length (filter P ts) = length (filter P ?s)" for P
    by (metis mset_sort mset_filter size_mset)
  have low: "filter (\<lambda>t. t < ?s ! k) (drop (Suc k) ?s) = []" "filter (\<lambda>t. ?s ! k < t) (take k ?s) = []"
    using assms len sorted_nth_mono [OF s]
    by (auto simp: filter_empty_conv in_set_conv_nth not_less)
  have "filter (\<lambda>t. t < ?s ! k) ?s = filter (\<lambda>t. t < ?s ! k) (take k ?s)"
    using arg_cong [OF split, of "filter (\<lambda>t. t < ?s ! k)"] low(1) by simp
  then have "length (filter (\<lambda>t. t < ?s ! k) ?s) \<le> length (take k ?s)" by (metis length_filter_le)
  then show ?low using cnt [of "\<lambda>t. t < ?s ! k"] by simp
  have "filter (\<lambda>t. ?s ! k < t) ?s = filter (\<lambda>t. ?s ! k < t) (drop (Suc k) ?s)"
    using arg_cong [OF split, of "filter (\<lambda>t. ?s ! k < t)"] low(2) by simp
  then have "length (filter (\<lambda>t. ?s ! k < t) ?s) \<le> length (drop (Suc k) ?s)" by (metis length_filter_le)
  then show ?high using cnt [of "\<lambda>t. ?s ! k < t"] by simp
qed

section \<open>Validity levels\<close>

lemma replace_masked_bits:
  fixes x n m :: u32
  assumes "n AND NOT m = 0"
  shows "((x AND NOT m) OR n) AND m = n" and "((x AND NOT m) OR n) AND NOT m = x AND NOT m"
proof -
  have sub: "bit m k" if "bit n k" for k
    using arg_cong [OF assms, of "\<lambda>w. bit w k"] that
    by (auto simp: bit_and_iff bit_not_iff dest: bit_imp_le_length)
  show "((x AND NOT m) OR n) AND m = n"
    using sub by (intro bit_word_eqI) (auto simp: bit_and_iff bit_or_iff bit_not_iff)
  show "((x AND NOT m) OR n) AND NOT m = x AND NOT m"
    using sub by (intro bit_word_eqI) (auto simp: bit_and_iff bit_or_iff bit_not_iff)
qed

lemma replace_masked_disjoint:
  fixes x n m f :: u32
  assumes "n AND NOT m = 0" and "f AND m = 0"
  shows "((x AND NOT m) OR n) AND f = x AND f"
proof -
  have sub: "bit m k" if "bit n k" for k
    using arg_cong [OF assms(1), of "\<lambda>w. bit w k"] that
    by (auto simp: bit_and_iff bit_not_iff dest: bit_imp_le_length)
  have "\<not> (bit f k \<and> bit m k)" for k
    using arg_cong [OF assms(2), of "\<lambda>w. bit w k"] by (auto simp: bit_and_iff)
  then show ?thesis using sub by (intro bit_word_eqI) (auto simp: bit_and_iff bit_or_iff bit_not_iff)
qed

section \<open>A small tree\<close>

text \<open>Five blocks: 0, 1, 2, 3 in a row and 4 forking off block 1.\<close>

definition example_block :: "int \<Rightarrow> u32 \<Rightarrow> ptr option \<Rightarrow> ptr option \<Rightarrow> CBlockIndex" where
  "example_block h t prev skip = \<lparr>phashBlock = [word_of_int h, t, 0, 0, 0, 0, 0, 0], pprev = prev, pskip = skip,
     nHeight = h, nFile = 0, nDataPos = 0, nUndoPos = 0, nChainWork = base_uint_zero 8, nTx = 1, nChainTx = 1,
     nStatus = 0, vStakeModifier = [], nFlags = 0, nSaplingValue = 0, nChainSaplingValue = None,
     nVersion = 8, hashMerkleRoot = base_uint_zero 8, hashFinalSaplingRoot = base_uint_zero 8, nTime = t,
     nBits = 0, nNonce = 0, nSequenceId = 0\<rparr>"

definition example_index :: index_store where
  "example_index = [0 \<mapsto> example_block 0 100 None None, 1 \<mapsto> example_block 1 160 (Some 0) (Some 0),
     2 \<mapsto> example_block 2 150 (Some 1) (Some 0), 3 \<mapsto> example_block 3 230 (Some 2) (Some 1),
     4 \<mapsto> example_block 2 170 (Some 1) None]"

lemma example_index_wf: "wf_on example_index {0, 1, 2, 3}"
  by (simp add: wf_on_def example_index_def example_block_def parent_ok_def height_of_def ancestor_def
      GetSkipHeight_def InvertLowestOne_def)

lemma example_index_wf_fork: "wf_on (example_index(4 \<mapsto> example_block 2 170 (Some 1) (Some 0))) {0, 1, 2, 3, 4}"
  by (simp add: wf_on_def example_index_def example_block_def parent_ok_def height_of_def ancestor_def
      GetSkipHeight_def InvertLowestOne_def)

section \<open>Properties\<close>

text \<open>
  C22. On a well-formed part of the block tree \<open>GetAncestor\<close>, which jumps along the skip list, returns
  what a walk along the parent pointers reaches: the ancestor at the given height if there is one,
  and null otherwise.  It always returns.
\<close>

theorem GetAncestor_skip_list_correct:
  assumes "wf_on H S" and "p \<in> S"
  shows "GetAncestor H p h = Some (if 0 \<le> h \<and> h \<le> height_of H p then ancestor H p h else None)"
  by (rule GetAncestor_eq [OF assms])

theorem GetAncestor_skip_list_correct_witness:
  "wf_on example_index {0, 1, 2, 3} \<and> GetAncestor example_index 3 1 = Some (Some 1)"
  using example_index_wf GetAncestor_skip_list_correct [OF example_index_wf, of 3 1]
  by (simp add: ancestor_def height_of_def example_index_def example_block_def)

text \<open>
  C29. \<open>BuildSkip\<close> on a new entry whose parent is in the tree succeeds and extends the well-formed
  part of the tree by that entry.
\<close>

theorem BuildSkip_extends_tree:
  assumes "wf_on H S" and "r \<notin> S" and "H r = Some b" and "parent_ok H S b" and "0 \<le> nHeight b"
  shows "\<exists>H'. BuildSkip H r = Some H' \<and> wf_on H' (insert r S)"
  by (rule BuildSkip_wf [OF assms])

theorem BuildSkip_extends_tree_witness:
  "\<exists>H'. BuildSkip example_index 4 = Some H' \<and> wf_on H' (insert 4 {0, 1, 2, 3})"
  by (rule BuildSkip_extends_tree [OF example_index_wf, of 4 "example_block 2 170 (Some 1) None"])
    (simp_all add: example_index_def example_block_def parent_ok_def height_of_def)

text \<open>
  C23. \<open>SetTip\<close> makes the chain the list of the new tip's ancestors by height, although its loop stops
  at the first entry that is already right; the chain stays consistent.
\<close>

theorem SetTip_lists_ancestors:
  assumes "wf_on H S" and "chain_ok H S c" and "p \<in> S"
  shows "\<exists>c'. SetTip H c (Some p) = Some c' \<and> chain_ok H S c' \<and> Height c' = height_of H p \<and>
    (\<forall>h. chain_at c' h = (if 0 \<le> h \<and> h \<le> height_of H p then ancestor H p h else None))"
  using SetTip_eq [OF assms] chain_of_ok [OF assms(3), of H c] wf_on_height [OF assms(1,3)]
  by (auto simp: chain_at_def chain_of_def Height_def)

theorem SetTip_lists_ancestors_witness:
  "\<exists>c'. SetTip example_index \<lparr>vChain = [Some 0, Some 1]\<rparr> (Some 3) = Some c' \<and> Height c' = 3"
proof -
  have "chain_of example_index 1 = [Some 0, Some 1]"
    by (simp add: chain_of_def ancestor_def height_of_def example_index_def example_block_def upt_rec)
  then have "chain_ok example_index {0, 1, 2, 3} \<lparr>vChain = [Some 0, Some 1]\<rparr>"
    unfolding chain_ok_def by (intro disjI2 bexI [of _ 1]) simp_all
  then show ?thesis using SetTip_lists_ancestors [OF example_index_wf, of "\<lparr>vChain = [Some 0, Some 1]\<rparr>" 3]
    by (auto simp: height_of_def example_index_def example_block_def)
qed

text \<open>
  \<open>FindFork\<close> returns the highest ancestor of a block that lies on the active chain, or null when
  there is none, whatever the chain is.
\<close>

theorem FindFork_highest_shared:
  assumes "wf_on H S" and "p \<in> S"
  shows "\<exists>r. FindFork H c (Some p) = Some r \<and> is_fork H c p r"
  by (rule FindFork_spec [OF assms])

theorem FindFork_highest_shared_witness:
  "\<exists>r. FindFork example_index \<lparr>vChain = [Some 0, Some 1, Some 4]\<rparr> (Some 3) = Some r \<and>
     is_fork example_index \<lparr>vChain = [Some 0, Some 1, Some 4]\<rparr> 3 r"
  by (rule FindFork_highest_shared [OF example_index_wf]) simp

text \<open>
  \<open>LastCommonAncestor\<close> returns the highest common ancestor of two blocks and never fails its
  final assertion.
\<close>

theorem LastCommonAncestor_highest:
  assumes "wf_on H S" and "p \<in> S" and "q \<in> S"
  shows "\<exists>r. LastCommonAncestor H p q = Some r \<and> is_lca H p q r"
  by (rule LastCommonAncestor_spec [OF assms])

theorem LastCommonAncestor_highest_witness:
  "\<exists>r. LastCommonAncestor (example_index(4 \<mapsto> example_block 2 170 (Some 1) (Some 0))) 3 4 = Some r \<and>
     is_lca (example_index(4 \<mapsto> example_block 2 170 (Some 1) (Some 0))) 3 4 r"
  by (rule LastCommonAncestor_highest [OF example_index_wf_fork]) simp_all

text \<open>
  \<open>GetMedianTimePast\<close> returns a median of the times of the block and its ancestors, at most
  eleven of them: it is one of those times, and of the \<open>n\<close> times at most \<open>n div 2\<close> are smaller and
  at most \<open>n - 1 - n div 2\<close> are larger.
\<close>

theorem GetMedianTimePast_is_median:
  assumes "wf_on H S" and "p \<in> S"
  shows "let n = min 11 (nat (height_of H p + 1));
             ts = map (\<lambda>i. time_of H (ancestor H p (height_of H p - int i))) [0..<n]
         in \<exists>m \<in> set ts. GetMedianTimePast H p = Some m \<and>
            length (filter (\<lambda>t. t < m) ts) \<le> n div 2 \<and> length (filter (\<lambda>t. m < t) ts) \<le> n - 1 - n div 2"
proof -
  define n where "n = min 11 (nat (height_of H p + 1))"
  define ts where "ts = map (\<lambda>i. time_of H (ancestor H p (height_of H p - int i))) [0..<n]"
  have n: "0 < n" using wf_on_height [OF assms] by (simp add: n_def)
  have len: "length ts = n" by (simp add: ts_def)
  have eq: "sort (rev ts) = sort ts" by (rule properties_for_sort) simp_all
  have half: "n div 2 < length ts" using n len by simp
  have m: "sort ts ! (n div 2) \<in> set ts" using nth_mem [of "n div 2" "sort ts"] half by simp
  have times: "median_times H nMedianTimeSpan (Some p) = Some ts"
    using median_times_eq [OF assms, of nMedianTimeSpan] by (simp only: ts_def n_def nMedianTimeSpan_def)
  have "GetMedianTimePast H p = Some (sort ts ! (n div 2))"
    unfolding GetMedianTimePast_def times using half len eq by simp
  then have "\<exists>m \<in> set ts. GetMedianTimePast H p = Some m \<and>
      length (filter (\<lambda>t. t < m) ts) \<le> n div 2 \<and> length (filter (\<lambda>t. m < t) ts) \<le> n - 1 - n div 2"
    using sorted_median_counts [OF half] m len by (intro bexI [of _ "sort ts ! (n div 2)"]) simp_all
  then show ?thesis unfolding Let_def n_def ts_def .
qed

theorem GetMedianTimePast_is_median_witness:
  "\<exists>m. GetMedianTimePast example_index 3 = Some m \<and> m \<in> {230, 150, 160, 100}"
proof -
  have n: "min 11 (nat (height_of example_index 3 + 1)) = 4"
    by (simp add: height_of_def example_index_def example_block_def)
  have ts: "map (\<lambda>i. time_of example_index (ancestor example_index 3 (height_of example_index 3 - int i))) [0..<4]
      = [230, 150, 160, 100]"
    by (simp add: upt_rec height_of_def example_index_def example_block_def ancestor_def time_of_def
        GetBlockTime_def)
  show ?thesis
    using GetMedianTimePast_is_median [OF example_index_wf, of 3] unfolding n Let_def ts by auto
qed

text \<open>
  \<open>RaiseValidity\<close> to a validity level changes only the validity bits: a block without failure
  flags is valid up to that level afterwards, the level is never lowered, and all other status bits
  stay as they were.
\<close>

theorem RaiseValidity_raises:
  assumes "nUpTo AND NOT BLOCK_VALID_MASK = 0" and "nStatus b AND BLOCK_FAILED_MASK = 0"
  shows "\<exists>b' changed. RaiseValidity b nUpTo = Some (b', changed) \<and> IsValid b' nUpTo = Some True \<and>
    nStatus b AND BLOCK_VALID_MASK \<le> nStatus b' AND BLOCK_VALID_MASK \<and>
    nStatus b' AND NOT BLOCK_VALID_MASK = nStatus b AND NOT BLOCK_VALID_MASK \<and>
    (changed \<longleftrightarrow> nStatus b AND BLOCK_VALID_MASK < nUpTo)"
proof -
  have "BLOCK_FAILED_MASK AND BLOCK_VALID_MASK = 0" by (simp add: BLOCK_FAILED_MASK_def BLOCK_VALID_MASK_def)
  then show ?thesis
    using assms replace_masked_bits [OF assms(1), of "nStatus b"]
      replace_masked_disjoint [OF assms(1), of BLOCK_FAILED_MASK "nStatus b"]
    by (auto simp: RaiseValidity_def IsValid_def not_less)
qed

theorem RaiseValidity_raises_witness:
  "\<exists>b' changed. RaiseValidity (example_block 1 0 None None) 3 = Some (b', changed) \<and> IsValid b' 3 = Some True"
  using RaiseValidity_raises [of 3 "example_block 1 0 None None"]
  by (auto simp: BLOCK_VALID_MASK_def example_block_def)

end
