(* ===== verification/Bytes.thy ===== *)
theory Bytes
  imports Prelude
begin

unbundle bit_operations_syntax

text \<open>
  Integers as byte strings: the readers and writers of \<open>src/src/crypto/common.h\<close>.  A byte buffer is
  a list; the functions copy the in-memory representation and swap it to the named byte order, so
  they are positional notation in base 256, least significant byte first (LE) or last (BE).
\<close>

section \<open>Positional notation\<close>

fun le_bytes :: "nat \<Rightarrow> nat \<Rightarrow> byte list" where
  "le_bytes 0 v = []"
| "le_bytes (Suc n) v = of_nat (v mod 256) # le_bytes n (v div 256)"

fun le_val :: "byte list \<Rightarrow> nat" where
  "le_val [] = 0"
| "le_val (b # bs) = unat b + 256 * le_val bs"

section \<open>Readers and writers\<close>

definition ReadLE16 :: "byte list \<Rightarrow> u16" where "ReadLE16 p = of_nat (le_val (take 2 p))"
definition ReadLE32 :: "byte list \<Rightarrow> u32" where "ReadLE32 p = of_nat (le_val (take 4 p))"
definition ReadLE64 :: "byte list \<Rightarrow> u64" where "ReadLE64 p = of_nat (le_val (take 8 p))"
definition WriteLE16 :: "u16 \<Rightarrow> byte list" where "WriteLE16 x = le_bytes 2 (unat x)"
definition WriteLE32 :: "u32 \<Rightarrow> byte list" where "WriteLE32 x = le_bytes 4 (unat x)"
definition WriteLE64 :: "u64 \<Rightarrow> byte list" where "WriteLE64 x = le_bytes 8 (unat x)"
definition ReadBE32 :: "byte list \<Rightarrow> u32" where "ReadBE32 p = of_nat (le_val (rev (take 4 p)))"
definition ReadBE64 :: "byte list \<Rightarrow> u64" where "ReadBE64 p = of_nat (le_val (rev (take 8 p)))"
definition WriteBE32 :: "u32 \<Rightarrow> byte list" where "WriteBE32 x = rev (le_bytes 4 (unat x))"
definition WriteBE64 :: "u64 \<Rightarrow> byte list" where "WriteBE64 x = rev (le_bytes 8 (unat x))"

text \<open>\<open>memcpy (buf + off, data, n)\<close> into a buffer of fixed size.\<close>

definition copy_into :: "byte list \<Rightarrow> nat \<Rightarrow> byte list \<Rightarrow> byte list" where
  "copy_into buf off data = take off buf @ data @ drop (off + length data) buf"

lemma unat_drop_bit_1: "unat (drop_bit 1 (x :: u64)) = unat x div 2"
  by (simp add: drop_bit_eq_div unat_div_distrib)

lemma drop_bit_1_less: "(x :: u64) \<noteq> 0 \<Longrightarrow> unat (drop_bit 1 x) < unat x"
  using unat_gt_0 [of x] by (simp only: unat_drop_bit_1) simp

text \<open>The portable branch of \<open>CountBits\<close>; the loop shifts the word to the right until it is 0.\<close>

function CountBits :: "u64 \<Rightarrow> nat" where
  "CountBits x = (if x \<noteq> 0 then Suc (CountBits (drop_bit 1 x)) else 0)"
  by auto

termination by (relation "measure unat") (simp_all only: in_measure wf_measure drop_bit_1_less not_False_eq_True)

declare CountBits.simps [simp del]

section \<open>Round trips\<close>

lemma length_le_bytes [simp, length_simps]: "length (le_bytes n v) = n"
  by (induction n arbitrary: v) simp_all

lemma le_val_bytes: "le_val (le_bytes n v) = v mod 256 ^ n"
proof (induction n arbitrary: v)
  case (Suc n)
  have "unat (of_nat (v mod 256) :: byte) = v mod 256" by (simp add: unat_of_nat)
  then show ?case using Suc by (simp add: mod_mult2_eq)
qed simp

lemma le_val_bound: "le_val bs < 256 ^ length bs"
proof (induction bs)
  case (Cons b bs)
  have "unat b < 256" using unat_lt_2p8 [of b] by simp
  with Cons show ?case by simp
qed simp

lemma le_bytes_val: "le_bytes (length bs) (le_val bs) = bs"
proof (induction bs)
  case (Cons b bs)
  have "unat b < 256" using unat_lt_2p8 [of b] by simp
  with Cons show ?case by simp
qed simp

lemma le_bytes_inject:
  "v < 256 ^ n \<Longrightarrow> w < 256 ^ n \<Longrightarrow> le_bytes n v = le_bytes n w \<Longrightarrow> v = w"
  by (metis le_val_bytes mod_less)

lemma le_bytes_append: "le_bytes (m + n) v = le_bytes m v @ le_bytes n (v div 256 ^ m)"
  by (induction m arbitrary: v) (simp_all add: div_mult2_eq)

lemma le_val_append: "le_val (bs @ cs) = le_val bs + 256 ^ length bs * le_val cs"
  by (induction bs) (simp_all add: algebra_simps)

lemma length_Write [simp, length_simps]:
  "length (WriteLE16 a) = 2" "length (WriteLE32 b) = 4" "length (WriteLE64 c) = 8"
  "length (WriteBE32 b) = 4" "length (WriteBE64 c) = 8"
  by (simp_all add: WriteLE16_def WriteLE32_def WriteLE64_def WriteBE32_def WriteBE64_def)

lemma ReadLE_WriteLE [simp]:
  "ReadLE16 (WriteLE16 a @ r) = a" "ReadLE32 (WriteLE32 b @ r) = b" "ReadLE64 (WriteLE64 c @ r) = c"
  using unat_lt_2p16 [of a] unat_lt_2p32 [of b] unat_lt_2p64 [of c]
  by (simp_all add: ReadLE16_def WriteLE16_def ReadLE32_def WriteLE32_def ReadLE64_def WriteLE64_def le_val_bytes)

lemma ReadBE_WriteBE [simp]:
  "ReadBE32 (WriteBE32 b @ r) = b" "ReadBE64 (WriteBE64 c @ r) = c"
  using unat_lt_2p32 [of b] unat_lt_2p64 [of c]
  by (simp_all add: ReadBE32_def WriteBE32_def ReadBE64_def WriteBE64_def le_val_bytes)

lemma WriteLE_ReadLE:
  "length bs = 4 \<Longrightarrow> WriteLE32 (ReadLE32 bs) = bs"
  "length cs = 8 \<Longrightarrow> WriteLE64 (ReadLE64 cs) = cs"
  using le_val_bound [of bs] le_bytes_val [of bs] le_val_bound [of cs] le_bytes_val [of cs]
  by (simp_all add: ReadLE32_def WriteLE32_def ReadLE64_def WriteLE64_def unat_of_nat)

lemma length_copy_into [simp]:
  "off + length data \<le> length buf \<Longrightarrow> length (copy_into buf off data) = length buf"
  by (simp add: copy_into_def)

lemma take_copy_into: "off \<le> length buf \<Longrightarrow> take (off + length data) (copy_into buf off data) = take off buf @ data"
  by (simp add: copy_into_def)

lemma CountBits_bounds: "unat x < 2 ^ CountBits x \<and> (x \<noteq> 0 \<longrightarrow> 2 ^ (CountBits x - 1) \<le> unat x)"
proof (induction x rule: CountBits.induct)
  case (1 x)
  show ?case
  proof (cases "x = 0")
    case True
    then show ?thesis by (simp add: CountBits.simps [of x])
  next
    case False
    let ?y = "drop_bit 1 x"
    have y: "unat ?y = unat x div 2" by (rule unat_drop_bit_1)
    have ih: "unat ?y < 2 ^ CountBits ?y" "?y \<noteq> 0 \<longrightarrow> 2 ^ (CountBits ?y - 1) \<le> unat ?y"
      using 1 [OF False] by simp_all
    have c: "CountBits x = Suc (CountBits ?y)" using False by (subst CountBits.simps) simp
    have upper: "unat x < 2 ^ CountBits x" using ih(1) c y by simp
    have lower: "2 ^ (CountBits x - 1) \<le> unat x"
    proof (cases "?y = 0")
      case True
      then have "CountBits ?y = 0" by (subst CountBits.simps) simp
      then show ?thesis using c False by (simp add: unat_gt_0 Suc_leI)
    next
      case nz: False
      then have "CountBits ?y \<noteq> 0" by (subst CountBits.simps) simp
      then obtain k where k: "CountBits ?y = Suc k" by (cases "CountBits ?y") simp_all
      then have "2 ^ k \<le> unat x div 2" using ih(2) nz y by simp
      then show ?thesis using c k by simp
    qed
    show ?thesis using upper lower by simp
  qed
qed

end
