(* ===== verification/Hasher.thy ===== *)
theory Hasher
  imports Bytes
begin

unbundle bit_operations_syntax

text \<open>
  The buffering shared by the hash classes of \<open>src/src/crypto\<close>.  \<open>CSHA1\<close>, \<open>CSHA256\<close>, \<open>CSHA512\<close> and
  \<open>CRIPEMD160\<close> have the same members (chaining state, a buffer of one block, a byte counter) and the
  same text in \<open>Write\<close>, up to the block size and the transformation.  The locale \<open>block_hash\<close> states
  what the buffering relies on and proves once that it hashes the concatenation of what was written.
\<close>

section \<open>State and operations\<close>

record 's hasher =
  hs :: 's
  hbuf :: "byte list"
  hbytes :: u64

text \<open>The loop over the full chunks taken directly from the source.\<close>

function write_chunks :: "nat \<Rightarrow> ('s \<Rightarrow> byte list \<Rightarrow> 's) \<Rightarrow> 's hasher \<Rightarrow> byte list \<Rightarrow> 's hasher \<times> byte list" where
  "write_chunks B Tr h data =
     (if 0 < B \<and> B \<le> length data
      then write_chunks B Tr (h\<lparr>hs := Tr (hs h) (take B data), hbytes := hbytes h + of_nat B\<rparr>) (drop B data)
      else (h, data))"
  by auto
termination by (relation "measure (\<lambda>(B, Tr, h, data). length data)") auto

declare write_chunks.simps [simp del]

definition hasher_write :: "nat \<Rightarrow> ('s \<Rightarrow> byte list \<Rightarrow> 's) \<Rightarrow> 's hasher \<Rightarrow> byte list \<Rightarrow> 's hasher" where
  "hasher_write B Tr h data =
     (let bufsize = unat (hbytes h) mod B;
          fill = bufsize \<noteq> 0 \<and> bufsize + length data \<ge> B;
          full = copy_into (hbuf h) bufsize (take (B - bufsize) data);
          h1 = (if fill then \<lparr>hs = Tr (hs h) full, hbuf = full, hbytes = hbytes h + of_nat (B - bufsize)\<rparr> else h);
          data1 = (if fill then drop (B - bufsize) data else data);
          bufsize1 = (if fill then 0 else bufsize);
          (h2, data2) = write_chunks B Tr h1 data1
      in if data2 \<noteq> [] then h2\<lparr>hbuf := copy_into (hbuf h2) bufsize1 data2, hbytes := hbytes h2 + of_nat (length data2)\<rparr>
         else h2)"

text \<open>
  A new object has the initial chaining state and a zero counter; its buffer is not initialised, so
  its contents are an argument.
\<close>

definition hasher_new :: "'s \<Rightarrow> byte list \<Rightarrow> 's hasher" where
  "hasher_new iv junk = \<lparr>hs = iv, hbuf = junk, hbytes = 0\<rparr>"

definition hasher_reset :: "'s \<Rightarrow> 's hasher \<Rightarrow> 's hasher" where
  "hasher_reset iv h = h\<lparr>hs := iv, hbytes := 0\<rparr>"

section \<open>Specification: splitting a message into blocks\<close>

function blocks :: "nat \<Rightarrow> byte list \<Rightarrow> byte list list" where
  "blocks B m = (if 0 < B \<and> B \<le> length m then take B m # blocks B (drop B m) else [])"
  by auto
termination by (relation "measure (\<lambda>(B, m). length m)") auto

declare blocks.simps [simp del]

definition tail_of :: "nat \<Rightarrow> byte list \<Rightarrow> byte list" where
  "tail_of B m = drop (length m - length m mod B) m"

lemma blocks_short: "length m < B \<Longrightarrow> blocks B m = []"
  by (simp add: blocks.simps)

lemma blocks_step: "0 < B \<Longrightarrow> B \<le> length m \<Longrightarrow> blocks B m = take B m # blocks B (drop B m)"
  by (simp add: blocks.simps)

lemma tail_of_length [simp]: "0 < B \<Longrightarrow> length (tail_of B m) = length m mod B"
  by (simp add: tail_of_def)

lemma mod_gap: "(B :: nat) \<le> n \<Longrightarrow> n - n mod B = B + (n - B - (n - B) mod B)"
  using mod_less_eq_dividend [of "n - B" B] le_mod_geq [of B n] by linarith

lemma tail_of_step: "B \<le> length m \<Longrightarrow> tail_of B (drop B m) = tail_of B m"
  using mod_gap [of B "length m"] by (simp add: tail_of_def add.commute)

lemma tail_of_short: "length m < B \<Longrightarrow> tail_of B m = m"
  by (simp add: tail_of_def)

lemma blocks_append:
  assumes "0 < B"
  shows "blocks B (m @ d) = blocks B m @ blocks B (tail_of B m @ d) \<and>
    tail_of B (m @ d) = tail_of B (tail_of B m @ d)"
proof (induction "length m" arbitrary: m rule: less_induct)
  case less
  show ?case
  proof (cases "length m < B")
    case True
    then show ?thesis by (simp add: blocks_short tail_of_short)
  next
    case False
    have "blocks B (m @ d) = take B m # blocks B (drop B m @ d)"
      using blocks_step [OF assms, of "m @ d"] False by simp
    moreover have "tail_of B (m @ d) = tail_of B (drop B m @ d)"
      using tail_of_step [of B "m @ d"] False by simp
    ultimately show ?thesis
      using less [of "drop B m"] blocks_step [OF assms, of m] tail_of_step [of B m] False assms
      by simp
  qed
qed

lemma blocks_exact: "0 < B \<Longrightarrow> length m = B \<Longrightarrow> blocks B m = [m]"
  by (simp add: blocks_step blocks_short)

lemma write_chunks_eq:
  assumes "0 < B"
  shows "write_chunks B Tr h data =
    (h\<lparr>hs := foldl Tr (hs h) (blocks B data), hbytes := hbytes h + of_nat (length data - length data mod B)\<rparr>,
     tail_of B data)"
proof (induction B Tr h data rule: write_chunks.induct)
  case (1 B Tr h data)
  show ?case
  proof (cases "0 < B \<and> B \<le> length data")
    case True
    have "length data - length data mod B = B + (length (drop B data) - length (drop B data) mod B)"
      using True mod_gap [of B "length data"] by simp
    then show ?thesis using 1 True by (subst write_chunks.simps) (simp add: blocks_step tail_of_step)
  next
    case False
    then show ?thesis by (cases "B = 0") (simp_all add: write_chunks.simps blocks_short tail_of_short blocks.simps tail_of_def)
  qed
qed

section \<open>The contract of the buffering\<close>

text \<open>
  \<open>Tr\<close> compresses one block of \<open>B\<close> bytes into the state and \<open>iv\<close> is the initial state.  The counter has
  64 bits, so the block size has to divide \<open>2 ^ 64\<close> for the position in the buffer to stay right when
  it wraps.
\<close>

locale block_hash =
  fixes B :: nat and Tr :: "'s \<Rightarrow> byte list \<Rightarrow> 's" and iv :: 's
  assumes block_pos: "0 < B" and block_dvd: "B dvd 2 ^ 64"
begin

definition absorbed :: "'s hasher \<Rightarrow> byte list \<Rightarrow> bool" where
  "absorbed h m \<longleftrightarrow> hs h = foldl Tr iv (blocks B m) \<and> hbytes h = of_nat (length m) \<and>
     length (hbuf h) = B \<and> take (length m mod B) (hbuf h) = tail_of B m"

lemma position: "unat (of_nat n :: u64) mod B = n mod B"
  using block_dvd by (simp add: unat_of_nat mod_mod_cancel)

lemma absorbed_new: "length junk = B \<Longrightarrow> absorbed (hasher_new iv junk) []"
  using block_pos by (simp add: absorbed_def hasher_new_def blocks_short tail_of_def)

lemma absorbed_reset: "absorbed h m \<Longrightarrow> absorbed (hasher_reset iv h) []"
  using block_pos by (simp add: absorbed_def hasher_reset_def blocks_short tail_of_def)

text \<open>From a block boundary: the loop over full chunks and the copy of the rest.\<close>

lemma absorbed_chunks:
  assumes "absorbed h m" and "length m mod B = 0"
  shows "absorbed (case write_chunks B Tr h data of (h2, data2) \<Rightarrow>
      if data2 \<noteq> [] then h2\<lparr>hbuf := copy_into (hbuf h2) 0 data2, hbytes := hbytes h2 + of_nat (length data2)\<rparr>
      else h2) (m @ data)"
proof -
  have h: "hs h = foldl Tr iv (blocks B m)" "hbytes h = of_nat (length m)" "length (hbuf h) = B"
    using assms by (simp_all add: absorbed_def)
  have "tail_of B m = []" using tail_of_length [OF block_pos, of m] assms(2) by simp
  then have ap: "blocks B (m @ data) = blocks B m @ blocks B data" "tail_of B (m @ data) = tail_of B data"
    using blocks_append [OF block_pos, of m data] by simp_all
  let ?t = "length data mod B"
  have lt: "length (tail_of B data) = ?t" by (rule tail_of_length [OF block_pos])
  have t: "(length m + length data) mod B = ?t" using assms(2) by (metis add_0 mod_add_left_eq)
  have cnt: "length m + (length data - ?t) + ?t = length m + length data"
    using mod_less_eq_dividend [of "length data" B] by linarith
  have le: "?t \<le> B" using block_pos by simp
  show ?thesis
  proof (cases "tail_of B data = []")
    case True
    then have "?t = 0" using lt by simp
    then show ?thesis using h ap True t
      by (simp add: absorbed_def write_chunks_eq [OF block_pos] flip: of_nat_add)
  next
    case False
    have "take ?t (copy_into (hbuf h) 0 (tail_of B data)) = tail_of B data"
      using take_copy_into [of 0 "hbuf h" "tail_of B data"] lt by simp
    then show ?thesis using h ap False t lt cnt le
      by (simp add: absorbed_def write_chunks_eq [OF block_pos] flip: of_nat_add)
  qed
qed

lemma absorbed_fill:
  assumes "absorbed h m" and "k = length m mod B" and "length d = B - k"
  shows "absorbed \<lparr>hs = Tr (hs h) (copy_into (hbuf h) k d), hbuf = copy_into (hbuf h) k d,
      hbytes = hbytes h + of_nat (B - k)\<rparr> (m @ d)"
    and "length (m @ d) mod B = 0"
proof -
  have k: "k < B" using assms(2) block_pos by simp
  have h: "hs h = foldl Tr iv (blocks B m)" "hbytes h = of_nat (length m)" "length (hbuf h) = B"
    "take k (hbuf h) = tail_of B m"
    using assms by (simp_all add: absorbed_def)
  have full: "copy_into (hbuf h) k d = tail_of B m @ d" using h(3,4) k assms(3) by (simp add: copy_into_def)
  have len: "length (tail_of B m @ d) = B" using tail_of_length [OF block_pos, of m] k assms(2,3) by simp
  have ap: "blocks B (m @ d) = blocks B m @ [tail_of B m @ d]" "tail_of B (m @ d) = []"
    using blocks_append [OF block_pos, of m d] blocks_exact [OF block_pos len]
      tail_of_length [OF block_pos, of "tail_of B m @ d"] len by simp_all
  show mod0: "length (m @ d) mod B = 0" using ap(2) tail_of_length [OF block_pos, of "m @ d"] by simp
  show "absorbed \<lparr>hs = Tr (hs h) (copy_into (hbuf h) k d), hbuf = copy_into (hbuf h) k d,
      hbytes = hbytes h + of_nat (B - k)\<rparr> (m @ d)"
    using h ap len full mod0 assms(3) by (simp add: absorbed_def)
qed

lemma absorbed_short:
  assumes "absorbed h m" and "k = length m mod B" and "k + length d < B"
  shows "absorbed (h\<lparr>hbuf := copy_into (hbuf h) k d, hbytes := hbytes h + of_nat (length d)\<rparr>) (m @ d)"
proof -
  have h: "hs h = foldl Tr iv (blocks B m)" "hbytes h = of_nat (length m)" "length (hbuf h) = B"
    "take k (hbuf h) = tail_of B m"
    using assms by (simp_all add: absorbed_def)
  have len: "length (tail_of B m @ d) < B" using tail_of_length [OF block_pos, of m] assms(2,3) by simp
  have ap: "blocks B (m @ d) = blocks B m" "tail_of B (m @ d) = tail_of B m @ d"
    using blocks_append [OF block_pos, of m d] blocks_short [OF len] tail_of_short [OF len] by simp_all
  have "(length m + length d) mod B = k + length d"
    using tail_of_length [OF block_pos, of "m @ d"] ap(2) tail_of_length [OF block_pos, of m] assms(2) by simp
  then show ?thesis
    using h ap assms(3) take_copy_into [of k "hbuf h" d] by (simp add: absorbed_def)
qed

lemma absorbed_write:
  assumes "absorbed h m"
  shows "absorbed (hasher_write B Tr h data) (m @ data)"
proof -
  define k where "k = length m mod B"
  have pos: "unat (hbytes h) mod B = k" using assms position by (simp add: absorbed_def k_def)
  have k: "k < B" using block_pos by (simp add: k_def)
  consider "k \<noteq> 0" "k + length data \<ge> B" | "k = 0" | "k \<noteq> 0" "k + length data < B" by linarith
  then show ?thesis
  proof cases
    case 1
    let ?d = "take (B - k) data"
    have d: "length ?d = B - k" using 1 by simp
    note fill = absorbed_fill [OF assms k_def d]
    show ?thesis
      using absorbed_chunks [OF fill, of "drop (B - k) data"] 1 pos
      by (simp add: hasher_write_def Let_def)
  next
    case 2
    then show ?thesis using absorbed_chunks [OF assms, of data] pos k_def by (simp add: hasher_write_def Let_def)
  next
    case 3
    then have "length data < B" by simp
    then have "write_chunks B Tr h data = (h, data)" by (subst write_chunks.simps) simp
    moreover have "absorbed (h\<lparr>hbuf := copy_into (hbuf h) k data, hbytes := hbytes h + of_nat (length data)\<rparr>) (m @ data)"
      by (rule absorbed_short [OF assms k_def 3(2)])
    ultimately show ?thesis using 3 pos assms by (auto simp: hasher_write_def Let_def)
  qed
qed

text \<open>Writing piece by piece absorbs the concatenation.\<close>

lemma absorbed_foldl: "absorbed h m \<Longrightarrow> absorbed (foldl (hasher_write B Tr) h ds) (m @ concat ds)"
proof (induction ds arbitrary: h m)
  case (Cons d ds)
  from Cons.IH [OF absorbed_write [OF Cons.prems, of d]] show ?case by simp
qed simp

lemma absorbed_state:
  "absorbed h m \<Longrightarrow> length m mod B = 0 \<Longrightarrow> hs h = foldl Tr iv (blocks B m)"
  by (simp add: absorbed_def)

lemma absorbed_bytes: "absorbed h m \<Longrightarrow> hbytes h = of_nat (length m)"
  by (simp add: absorbed_def)

end

end
