(* ===== verification/Sha2.thy ===== *)
theory Sha2
  imports Hasher
begin

unbundle bit_operations_syntax

text \<open>
  SHA-256 and SHA-512: \<open>src/src/crypto/sha256.cpp\<close> and \<open>src/src/crypto/sha512.cpp\<close>.  The C++
  transformations are unrolled: every line is a call of \<open>Round\<close> with the eight working registers in
  rotated order, a constant and an update of one of sixteen schedule words.  The unrolled lines are
  kept as a table (\<open>sha256_rows\<close>, \<open>sha512_rows\<close>), one row per line, with the registers \<open>a\<close> to \<open>h\<close>
  numbered 0 to 7.  The reference definition is the one of FIPS 180-4: an indexed message schedule,
  a round that shifts the registers, and constants computed from the roots of the first primes.
\<close>

section \<open>The unrolled round lines\<close>

text \<open>
  \<open>Load i o\<close> is \<open>w_i = ReadBE(chunk + o)\<close>, \<open>Bump i j k l\<close> is \<open>w_i += sigma1(w_j) + w_k + sigma0(w_l)\<close> and
  \<open>Peek i j k l\<close> is the same sum without the assignment.
\<close>

datatype sched = Load nat nat | Bump nat nat nat nat | Peek nat nat nat nat

type_synonym 'a sha2_row = "nat list \<times> 'a \<times> sched"

record 'a sha2_funs =
  f_read :: "byte list \<Rightarrow> 'a"
  f_Ch :: "'a \<Rightarrow> 'a \<Rightarrow> 'a \<Rightarrow> 'a"
  f_Maj :: "'a \<Rightarrow> 'a \<Rightarrow> 'a \<Rightarrow> 'a"
  f_Sigma0 :: "'a \<Rightarrow> 'a"
  f_Sigma1 :: "'a \<Rightarrow> 'a"
  f_sigma0 :: "'a \<Rightarrow> 'a"
  f_sigma1 :: "'a \<Rightarrow> 'a"

fun sched_word :: "('a :: comm_ring_1) sha2_funs \<Rightarrow> byte list \<Rightarrow> 'a list \<Rightarrow> sched \<Rightarrow> 'a \<times> 'a list" where
  "sched_word F chunk w (Load i off) = (let x = f_read F (drop off chunk) in (x, w[i := x]))"
| "sched_word F chunk w (Bump i j k l) =
     (let x = w ! i + (f_sigma1 F (w ! j) + w ! k + f_sigma0 F (w ! l)) in (x, w[i := x]))"
| "sched_word F chunk w (Peek i j k l) =
     (w ! i + f_sigma1 F (w ! j) + w ! k + f_sigma0 F (w ! l), w)"

text \<open>\<open>Round\<close> on the registers named by the row: \<open>d\<close> and \<open>h\<close> are passed by reference.\<close>

definition sha2_Round :: "('a :: comm_ring_1) sha2_funs \<Rightarrow> nat list \<Rightarrow> 'a \<Rightarrow> 'a \<Rightarrow> 'a list \<Rightarrow> 'a list" where
  "sha2_Round F r k w v =
     (let a = v ! (r ! 0); b = v ! (r ! 1); c = v ! (r ! 2); d = v ! (r ! 3);
          e = v ! (r ! 4); f = v ! (r ! 5); g = v ! (r ! 6); h = v ! (r ! 7);
          t1 = h + f_Sigma1 F e + f_Ch F e f g + k + w;
          t2 = f_Sigma0 F a + f_Maj F a b c
      in v[r ! 3 := d + t1, r ! 7 := t1 + t2])"

definition sha2_line :: "('a :: comm_ring_1) sha2_funs \<Rightarrow> byte list \<Rightarrow> 'a sha2_row \<Rightarrow> 'a list \<times> 'a list \<Rightarrow> 'a list \<times> 'a list" where
  "sha2_line F chunk row st =
     (case (row, st) of ((r, k, sc), (v, w)) \<Rightarrow>
        let (x, w') = sched_word F chunk w sc in (sha2_Round F r k x v, w'))"

text \<open>
  The schedule words are not initialised before the first sixteen lines load them; the model starts
  them at 0.
\<close>

definition sha2_Transform :: "('a :: comm_ring_1) sha2_funs \<Rightarrow> 'a sha2_row list \<Rightarrow> 'a list \<Rightarrow> byte list \<Rightarrow> 'a list" where
  "sha2_Transform F rows s chunk =
     map2 (+) s (fst (fold (sha2_line F chunk) rows (s, replicate 16 0)))"

section \<open>SHA-256\<close>

definition sha256_Ch :: "u32 \<Rightarrow> u32 \<Rightarrow> u32 \<Rightarrow> u32" where "sha256_Ch x y z = z XOR (x AND (y XOR z))"
definition sha256_Maj :: "u32 \<Rightarrow> u32 \<Rightarrow> u32 \<Rightarrow> u32" where "sha256_Maj x y z = (x AND y) OR (z AND (x OR y))"

definition sha256_Sigma0 :: "u32 \<Rightarrow> u32" where
  "sha256_Sigma0 x = (drop_bit 2 x OR push_bit 30 x) XOR (drop_bit 13 x OR push_bit 19 x) XOR (drop_bit 22 x OR push_bit 10 x)"

definition sha256_Sigma1 :: "u32 \<Rightarrow> u32" where
  "sha256_Sigma1 x = (drop_bit 6 x OR push_bit 26 x) XOR (drop_bit 11 x OR push_bit 21 x) XOR (drop_bit 25 x OR push_bit 7 x)"

definition sha256_sigma0 :: "u32 \<Rightarrow> u32" where
  "sha256_sigma0 x = (drop_bit 7 x OR push_bit 25 x) XOR (drop_bit 18 x OR push_bit 14 x) XOR drop_bit 3 x"

definition sha256_sigma1 :: "u32 \<Rightarrow> u32" where
  "sha256_sigma1 x = (drop_bit 17 x OR push_bit 15 x) XOR (drop_bit 19 x OR push_bit 13 x) XOR drop_bit 10 x"

definition sha256_funs :: "u32 sha2_funs" where
  "sha256_funs = \<lparr>f_read = ReadBE32, f_Ch = sha256_Ch, f_Maj = sha256_Maj, f_Sigma0 = sha256_Sigma0,
     f_Sigma1 = sha256_Sigma1, f_sigma0 = sha256_sigma0, f_sigma1 = sha256_sigma1\<rparr>"

definition sha256_Initialize :: "u32 list" where
  "sha256_Initialize = [0x6a09e667, 0xbb67ae85, 0x3c6ef372, 0xa54ff53a, 0x510e527f, 0x9b05688c, 0x1f83d9ab, 0x5be0cd19]"

definition sha256_rows :: "u32 sha2_row list" where
  "sha256_rows = [
      ([0, 1, 2, 3, 4, 5, 6, 7], 0x428a2f98, Load 0 0), ([7, 0, 1, 2, 3, 4, 5, 6], 0x71374491, Load 1 4),
      ([6, 7, 0, 1, 2, 3, 4, 5], 0xb5c0fbcf, Load 2 8), ([5, 6, 7, 0, 1, 2, 3, 4], 0xe9b5dba5, Load 3 12),
      ([4, 5, 6, 7, 0, 1, 2, 3], 0x3956c25b, Load 4 16), ([3, 4, 5, 6, 7, 0, 1, 2], 0x59f111f1, Load 5 20),
      ([2, 3, 4, 5, 6, 7, 0, 1], 0x923f82a4, Load 6 24), ([1, 2, 3, 4, 5, 6, 7, 0], 0xab1c5ed5, Load 7 28),
      ([0, 1, 2, 3, 4, 5, 6, 7], 0xd807aa98, Load 8 32), ([7, 0, 1, 2, 3, 4, 5, 6], 0x12835b01, Load 9 36),
      ([6, 7, 0, 1, 2, 3, 4, 5], 0x243185be, Load 10 40), ([5, 6, 7, 0, 1, 2, 3, 4], 0x550c7dc3, Load 11 44),
      ([4, 5, 6, 7, 0, 1, 2, 3], 0x72be5d74, Load 12 48), ([3, 4, 5, 6, 7, 0, 1, 2], 0x80deb1fe, Load 13 52),
      ([2, 3, 4, 5, 6, 7, 0, 1], 0x9bdc06a7, Load 14 56), ([1, 2, 3, 4, 5, 6, 7, 0], 0xc19bf174, Load 15 60),
      ([0, 1, 2, 3, 4, 5, 6, 7], 0xe49b69c1, Bump 0 14 9 1), ([7, 0, 1, 2, 3, 4, 5, 6], 0xefbe4786, Bump 1 15 10 2),
      ([6, 7, 0, 1, 2, 3, 4, 5], 0x0fc19dc6, Bump 2 0 11 3), ([5, 6, 7, 0, 1, 2, 3, 4], 0x240ca1cc, Bump 3 1 12 4),
      ([4, 5, 6, 7, 0, 1, 2, 3], 0x2de92c6f, Bump 4 2 13 5), ([3, 4, 5, 6, 7, 0, 1, 2], 0x4a7484aa, Bump 5 3 14 6),
      ([2, 3, 4, 5, 6, 7, 0, 1], 0x5cb0a9dc, Bump 6 4 15 7), ([1, 2, 3, 4, 5, 6, 7, 0], 0x76f988da, Bump 7 5 0 8),
      ([0, 1, 2, 3, 4, 5, 6, 7], 0x983e5152, Bump 8 6 1 9), ([7, 0, 1, 2, 3, 4, 5, 6], 0xa831c66d, Bump 9 7 2 10),
      ([6, 7, 0, 1, 2, 3, 4, 5], 0xb00327c8, Bump 10 8 3 11), ([5, 6, 7, 0, 1, 2, 3, 4], 0xbf597fc7, Bump 11 9 4 12),
      ([4, 5, 6, 7, 0, 1, 2, 3], 0xc6e00bf3, Bump 12 10 5 13), ([3, 4, 5, 6, 7, 0, 1, 2], 0xd5a79147, Bump 13 11 6 14),
      ([2, 3, 4, 5, 6, 7, 0, 1], 0x06ca6351, Bump 14 12 7 15), ([1, 2, 3, 4, 5, 6, 7, 0], 0x14292967, Bump 15 13 8 0),
      ([0, 1, 2, 3, 4, 5, 6, 7], 0x27b70a85, Bump 0 14 9 1), ([7, 0, 1, 2, 3, 4, 5, 6], 0x2e1b2138, Bump 1 15 10 2),
      ([6, 7, 0, 1, 2, 3, 4, 5], 0x4d2c6dfc, Bump 2 0 11 3), ([5, 6, 7, 0, 1, 2, 3, 4], 0x53380d13, Bump 3 1 12 4),
      ([4, 5, 6, 7, 0, 1, 2, 3], 0x650a7354, Bump 4 2 13 5), ([3, 4, 5, 6, 7, 0, 1, 2], 0x766a0abb, Bump 5 3 14 6),
      ([2, 3, 4, 5, 6, 7, 0, 1], 0x81c2c92e, Bump 6 4 15 7), ([1, 2, 3, 4, 5, 6, 7, 0], 0x92722c85, Bump 7 5 0 8),
      ([0, 1, 2, 3, 4, 5, 6, 7], 0xa2bfe8a1, Bump 8 6 1 9), ([7, 0, 1, 2, 3, 4, 5, 6], 0xa81a664b, Bump 9 7 2 10),
      ([6, 7, 0, 1, 2, 3, 4, 5], 0xc24b8b70, Bump 10 8 3 11), ([5, 6, 7, 0, 1, 2, 3, 4], 0xc76c51a3, Bump 11 9 4 12),
      ([4, 5, 6, 7, 0, 1, 2, 3], 0xd192e819, Bump 12 10 5 13), ([3, 4, 5, 6, 7, 0, 1, 2], 0xd6990624, Bump 13 11 6 14),
      ([2, 3, 4, 5, 6, 7, 0, 1], 0xf40e3585, Bump 14 12 7 15), ([1, 2, 3, 4, 5, 6, 7, 0], 0x106aa070, Bump 15 13 8 0),
      ([0, 1, 2, 3, 4, 5, 6, 7], 0x19a4c116, Bump 0 14 9 1), ([7, 0, 1, 2, 3, 4, 5, 6], 0x1e376c08, Bump 1 15 10 2),
      ([6, 7, 0, 1, 2, 3, 4, 5], 0x2748774c, Bump 2 0 11 3), ([5, 6, 7, 0, 1, 2, 3, 4], 0x34b0bcb5, Bump 3 1 12 4),
      ([4, 5, 6, 7, 0, 1, 2, 3], 0x391c0cb3, Bump 4 2 13 5), ([3, 4, 5, 6, 7, 0, 1, 2], 0x4ed8aa4a, Bump 5 3 14 6),
      ([2, 3, 4, 5, 6, 7, 0, 1], 0x5b9cca4f, Bump 6 4 15 7), ([1, 2, 3, 4, 5, 6, 7, 0], 0x682e6ff3, Bump 7 5 0 8),
      ([0, 1, 2, 3, 4, 5, 6, 7], 0x748f82ee, Bump 8 6 1 9), ([7, 0, 1, 2, 3, 4, 5, 6], 0x78a5636f, Bump 9 7 2 10),
      ([6, 7, 0, 1, 2, 3, 4, 5], 0x84c87814, Bump 10 8 3 11), ([5, 6, 7, 0, 1, 2, 3, 4], 0x8cc70208, Bump 11 9 4 12),
      ([4, 5, 6, 7, 0, 1, 2, 3], 0x90befffa, Bump 12 10 5 13), ([3, 4, 5, 6, 7, 0, 1, 2], 0xa4506ceb, Bump 13 11 6 14),
      ([2, 3, 4, 5, 6, 7, 0, 1], 0xbef9a3f7, Peek 14 12 7 15), ([1, 2, 3, 4, 5, 6, 7, 0], 0xc67178f2, Peek 15 13 8 0)]"

definition sha256_Transform :: "u32 list \<Rightarrow> byte list \<Rightarrow> u32 list" where
  "sha256_Transform s chunk = sha2_Transform sha256_funs sha256_rows s chunk"

type_synonym CSHA256 = "u32 list hasher"

definition CSHA256_new :: "byte list \<Rightarrow> CSHA256" where
  "CSHA256_new junk = hasher_new sha256_Initialize junk"

definition CSHA256_Write :: "CSHA256 \<Rightarrow> byte list \<Rightarrow> CSHA256" where
  "CSHA256_Write h data = hasher_write 64 sha256_Transform h data"

definition sha_pad64 :: "u64 \<Rightarrow> byte list" where
  "sha_pad64 n = 0x80 # replicate ((119 - unat n mod 64) mod 64) 0"

text \<open>\<open>Inl\<close> is the \<open>std::length_error\<close> of a compression that did not see exactly one block.\<close>

definition CSHA256_FinalizeNoPadding :: "CSHA256 \<Rightarrow> bool \<Rightarrow> string + byte list" where
  "CSHA256_FinalizeNoPadding h enforce_compression =
     (if enforce_compression \<and> hbytes h \<noteq> 64
      then Inl ''SHA256Compress should be invoked with a 512-bit block''
      else Inr (concat (map (\<lambda>i. WriteBE32 (hs h ! i)) [0..<8])))"

definition CSHA256_Finalize :: "CSHA256 \<Rightarrow> CSHA256 \<times> byte list" where
  "CSHA256_Finalize h =
     (let sizedesc = WriteBE64 (push_bit 3 (hbytes h));
          h1 = CSHA256_Write h (sha_pad64 (hbytes h));
          h2 = CSHA256_Write h1 sizedesc
      in (h2, case CSHA256_FinalizeNoPadding h2 False of Inr out \<Rightarrow> out | Inl _ \<Rightarrow> []))"

definition CSHA256_Reset :: "CSHA256 \<Rightarrow> CSHA256" where
  "CSHA256_Reset h = hasher_reset sha256_Initialize h"

section \<open>SHA-512\<close>

definition sha512_Ch :: "u64 \<Rightarrow> u64 \<Rightarrow> u64 \<Rightarrow> u64" where "sha512_Ch x y z = z XOR (x AND (y XOR z))"
definition sha512_Maj :: "u64 \<Rightarrow> u64 \<Rightarrow> u64 \<Rightarrow> u64" where "sha512_Maj x y z = (x AND y) OR (z AND (x OR y))"

definition sha512_Sigma0 :: "u64 \<Rightarrow> u64" where
  "sha512_Sigma0 x = (drop_bit 28 x OR push_bit 36 x) XOR (drop_bit 34 x OR push_bit 30 x) XOR (drop_bit 39 x OR push_bit 25 x)"

definition sha512_Sigma1 :: "u64 \<Rightarrow> u64" where
  "sha512_Sigma1 x = (drop_bit 14 x OR push_bit 50 x) XOR (drop_bit 18 x OR push_bit 46 x) XOR (drop_bit 41 x OR push_bit 23 x)"

definition sha512_sigma0 :: "u64 \<Rightarrow> u64" where
  "sha512_sigma0 x = (drop_bit 1 x OR push_bit 63 x) XOR (drop_bit 8 x OR push_bit 56 x) XOR drop_bit 7 x"

definition sha512_sigma1 :: "u64 \<Rightarrow> u64" where
  "sha512_sigma1 x = (drop_bit 19 x OR push_bit 45 x) XOR (drop_bit 61 x OR push_bit 3 x) XOR drop_bit 6 x"

definition sha512_funs :: "u64 sha2_funs" where
  "sha512_funs = \<lparr>f_read = ReadBE64, f_Ch = sha512_Ch, f_Maj = sha512_Maj, f_Sigma0 = sha512_Sigma0,
     f_Sigma1 = sha512_Sigma1, f_sigma0 = sha512_sigma0, f_sigma1 = sha512_sigma1\<rparr>"

definition sha512_Initialize :: "u64 list" where
  "sha512_Initialize = [0x6a09e667f3bcc908, 0xbb67ae8584caa73b, 0x3c6ef372fe94f82b, 0xa54ff53a5f1d36f1, 0x510e527fade682d1, 0x9b05688c2b3e6c1f, 0x1f83d9abfb41bd6b, 0x5be0cd19137e2179]"

definition sha512_rows :: "u64 sha2_row list" where
  "sha512_rows = [
      ([0, 1, 2, 3, 4, 5, 6, 7], 0x428a2f98d728ae22, Load 0 0),
      ([7, 0, 1, 2, 3, 4, 5, 6], 0x7137449123ef65cd, Load 1 8),
      ([6, 7, 0, 1, 2, 3, 4, 5], 0xb5c0fbcfec4d3b2f, Load 2 16),
      ([5, 6, 7, 0, 1, 2, 3, 4], 0xe9b5dba58189dbbc, Load 3 24),
      ([4, 5, 6, 7, 0, 1, 2, 3], 0x3956c25bf348b538, Load 4 32),
      ([3, 4, 5, 6, 7, 0, 1, 2], 0x59f111f1b605d019, Load 5 40),
      ([2, 3, 4, 5, 6, 7, 0, 1], 0x923f82a4af194f9b, Load 6 48),
      ([1, 2, 3, 4, 5, 6, 7, 0], 0xab1c5ed5da6d8118, Load 7 56),
      ([0, 1, 2, 3, 4, 5, 6, 7], 0xd807aa98a3030242, Load 8 64),
      ([7, 0, 1, 2, 3, 4, 5, 6], 0x12835b0145706fbe, Load 9 72),
      ([6, 7, 0, 1, 2, 3, 4, 5], 0x243185be4ee4b28c, Load 10 80),
      ([5, 6, 7, 0, 1, 2, 3, 4], 0x550c7dc3d5ffb4e2, Load 11 88),
      ([4, 5, 6, 7, 0, 1, 2, 3], 0x72be5d74f27b896f, Load 12 96),
      ([3, 4, 5, 6, 7, 0, 1, 2], 0x80deb1fe3b1696b1, Load 13 104),
      ([2, 3, 4, 5, 6, 7, 0, 1], 0x9bdc06a725c71235, Load 14 112),
      ([1, 2, 3, 4, 5, 6, 7, 0], 0xc19bf174cf692694, Load 15 120),
      ([0, 1, 2, 3, 4, 5, 6, 7], 0xe49b69c19ef14ad2, Bump 0 14 9 1),
      ([7, 0, 1, 2, 3, 4, 5, 6], 0xefbe4786384f25e3, Bump 1 15 10 2),
      ([6, 7, 0, 1, 2, 3, 4, 5], 0x0fc19dc68b8cd5b5, Bump 2 0 11 3),
      ([5, 6, 7, 0, 1, 2, 3, 4], 0x240ca1cc77ac9c65, Bump 3 1 12 4),
      ([4, 5, 6, 7, 0, 1, 2, 3], 0x2de92c6f592b0275, Bump 4 2 13 5),
      ([3, 4, 5, 6, 7, 0, 1, 2], 0x4a7484aa6ea6e483, Bump 5 3 14 6),
      ([2, 3, 4, 5, 6, 7, 0, 1], 0x5cb0a9dcbd41fbd4, Bump 6 4 15 7),
      ([1, 2, 3, 4, 5, 6, 7, 0], 0x76f988da831153b5, Bump 7 5 0 8),
      ([0, 1, 2, 3, 4, 5, 6, 7], 0x983e5152ee66dfab, Bump 8 6 1 9),
      ([7, 0, 1, 2, 3, 4, 5, 6], 0xa831c66d2db43210, Bump 9 7 2 10),
      ([6, 7, 0, 1, 2, 3, 4, 5], 0xb00327c898fb213f, Bump 10 8 3 11),
      ([5, 6, 7, 0, 1, 2, 3, 4], 0xbf597fc7beef0ee4, Bump 11 9 4 12),
      ([4, 5, 6, 7, 0, 1, 2, 3], 0xc6e00bf33da88fc2, Bump 12 10 5 13),
      ([3, 4, 5, 6, 7, 0, 1, 2], 0xd5a79147930aa725, Bump 13 11 6 14),
      ([2, 3, 4, 5, 6, 7, 0, 1], 0x06ca6351e003826f, Bump 14 12 7 15),
      ([1, 2, 3, 4, 5, 6, 7, 0], 0x142929670a0e6e70, Bump 15 13 8 0),
      ([0, 1, 2, 3, 4, 5, 6, 7], 0x27b70a8546d22ffc, Bump 0 14 9 1),
      ([7, 0, 1, 2, 3, 4, 5, 6], 0x2e1b21385c26c926, Bump 1 15 10 2),
      ([6, 7, 0, 1, 2, 3, 4, 5], 0x4d2c6dfc5ac42aed, Bump 2 0 11 3),
      ([5, 6, 7, 0, 1, 2, 3, 4], 0x53380d139d95b3df, Bump 3 1 12 4),
      ([4, 5, 6, 7, 0, 1, 2, 3], 0x650a73548baf63de, Bump 4 2 13 5),
      ([3, 4, 5, 6, 7, 0, 1, 2], 0x766a0abb3c77b2a8, Bump 5 3 14 6),
      ([2, 3, 4, 5, 6, 7, 0, 1], 0x81c2c92e47edaee6, Bump 6 4 15 7),
      ([1, 2, 3, 4, 5, 6, 7, 0], 0x92722c851482353b, Bump 7 5 0 8),
      ([0, 1, 2, 3, 4, 5, 6, 7], 0xa2bfe8a14cf10364, Bump 8 6 1 9),
      ([7, 0, 1, 2, 3, 4, 5, 6], 0xa81a664bbc423001, Bump 9 7 2 10),
      ([6, 7, 0, 1, 2, 3, 4, 5], 0xc24b8b70d0f89791, Bump 10 8 3 11),
      ([5, 6, 7, 0, 1, 2, 3, 4], 0xc76c51a30654be30, Bump 11 9 4 12),
      ([4, 5, 6, 7, 0, 1, 2, 3], 0xd192e819d6ef5218, Bump 12 10 5 13),
      ([3, 4, 5, 6, 7, 0, 1, 2], 0xd69906245565a910, Bump 13 11 6 14),
      ([2, 3, 4, 5, 6, 7, 0, 1], 0xf40e35855771202a, Bump 14 12 7 15),
      ([1, 2, 3, 4, 5, 6, 7, 0], 0x106aa07032bbd1b8, Bump 15 13 8 0),
      ([0, 1, 2, 3, 4, 5, 6, 7], 0x19a4c116b8d2d0c8, Bump 0 14 9 1),
      ([7, 0, 1, 2, 3, 4, 5, 6], 0x1e376c085141ab53, Bump 1 15 10 2),
      ([6, 7, 0, 1, 2, 3, 4, 5], 0x2748774cdf8eeb99, Bump 2 0 11 3),
      ([5, 6, 7, 0, 1, 2, 3, 4], 0x34b0bcb5e19b48a8, Bump 3 1 12 4),
      ([4, 5, 6, 7, 0, 1, 2, 3], 0x391c0cb3c5c95a63, Bump 4 2 13 5),
      ([3, 4, 5, 6, 7, 0, 1, 2], 0x4ed8aa4ae3418acb, Bump 5 3 14 6),
      ([2, 3, 4, 5, 6, 7, 0, 1], 0x5b9cca4f7763e373, Bump 6 4 15 7),
      ([1, 2, 3, 4, 5, 6, 7, 0], 0x682e6ff3d6b2b8a3, Bump 7 5 0 8),
      ([0, 1, 2, 3, 4, 5, 6, 7], 0x748f82ee5defb2fc, Bump 8 6 1 9),
      ([7, 0, 1, 2, 3, 4, 5, 6], 0x78a5636f43172f60, Bump 9 7 2 10),
      ([6, 7, 0, 1, 2, 3, 4, 5], 0x84c87814a1f0ab72, Bump 10 8 3 11),
      ([5, 6, 7, 0, 1, 2, 3, 4], 0x8cc702081a6439ec, Bump 11 9 4 12),
      ([4, 5, 6, 7, 0, 1, 2, 3], 0x90befffa23631e28, Bump 12 10 5 13),
      ([3, 4, 5, 6, 7, 0, 1, 2], 0xa4506cebde82bde9, Bump 13 11 6 14),
      ([2, 3, 4, 5, 6, 7, 0, 1], 0xbef9a3f7b2c67915, Bump 14 12 7 15),
      ([1, 2, 3, 4, 5, 6, 7, 0], 0xc67178f2e372532b, Bump 15 13 8 0),
      ([0, 1, 2, 3, 4, 5, 6, 7], 0xca273eceea26619c, Bump 0 14 9 1),
      ([7, 0, 1, 2, 3, 4, 5, 6], 0xd186b8c721c0c207, Bump 1 15 10 2),
      ([6, 7, 0, 1, 2, 3, 4, 5], 0xeada7dd6cde0eb1e, Bump 2 0 11 3),
      ([5, 6, 7, 0, 1, 2, 3, 4], 0xf57d4f7fee6ed178, Bump 3 1 12 4),
      ([4, 5, 6, 7, 0, 1, 2, 3], 0x06f067aa72176fba, Bump 4 2 13 5),
      ([3, 4, 5, 6, 7, 0, 1, 2], 0x0a637dc5a2c898a6, Bump 5 3 14 6),
      ([2, 3, 4, 5, 6, 7, 0, 1], 0x113f9804bef90dae, Bump 6 4 15 7),
      ([1, 2, 3, 4, 5, 6, 7, 0], 0x1b710b35131c471b, Bump 7 5 0 8),
      ([0, 1, 2, 3, 4, 5, 6, 7], 0x28db77f523047d84, Bump 8 6 1 9),
      ([7, 0, 1, 2, 3, 4, 5, 6], 0x32caab7b40c72493, Bump 9 7 2 10),
      ([6, 7, 0, 1, 2, 3, 4, 5], 0x3c9ebe0a15c9bebc, Bump 10 8 3 11),
      ([5, 6, 7, 0, 1, 2, 3, 4], 0x431d67c49c100d4c, Bump 11 9 4 12),
      ([4, 5, 6, 7, 0, 1, 2, 3], 0x4cc5d4becb3e42b6, Bump 12 10 5 13),
      ([3, 4, 5, 6, 7, 0, 1, 2], 0x597f299cfc657e2a, Bump 13 11 6 14),
      ([2, 3, 4, 5, 6, 7, 0, 1], 0x5fcb6fab3ad6faec, Peek 14 12 7 15),
      ([1, 2, 3, 4, 5, 6, 7, 0], 0x6c44198c4a475817, Peek 15 13 8 0)]"

definition sha512_Transform :: "u64 list \<Rightarrow> byte list \<Rightarrow> u64 list" where
  "sha512_Transform s chunk = sha2_Transform sha512_funs sha512_rows s chunk"

type_synonym CSHA512 = "u64 list hasher"

definition CSHA512_new :: "byte list \<Rightarrow> CSHA512" where
  "CSHA512_new junk = hasher_new sha512_Initialize junk"

definition CSHA512_Write :: "CSHA512 \<Rightarrow> byte list \<Rightarrow> CSHA512" where
  "CSHA512_Write h data = hasher_write 128 sha512_Transform h data"

definition CSHA512_Finalize :: "CSHA512 \<Rightarrow> CSHA512 \<times> byte list" where
  "CSHA512_Finalize h =
     (let sizedesc = replicate 8 0 @ WriteBE64 (push_bit 3 (hbytes h));
          h1 = CSHA512_Write h (0x80 # replicate ((239 - unat (hbytes h) mod 128) mod 128) 0);
          h2 = CSHA512_Write h1 sizedesc
      in (h2, concat (map (\<lambda>i. WriteBE64 (hs h2 ! i)) [0..<8])))"

definition CSHA512_Reset :: "CSHA512 \<Rightarrow> CSHA512" where
  "CSHA512_Reset h = hasher_reset sha512_Initialize h"

section \<open>Reference: FIPS 180-4\<close>

fun fips_W :: "('a :: comm_ring_1) sha2_funs \<Rightarrow> nat \<Rightarrow> byte list \<Rightarrow> nat \<Rightarrow> 'a" where
  "fips_W F n chunk t =
     (if t < 16 then f_read F (drop (n * t) chunk)
      else f_sigma1 F (fips_W F n chunk (t - 2)) + fips_W F n chunk (t - 7)
         + f_sigma0 F (fips_W F n chunk (t - 15)) + fips_W F n chunk (t - 16))"

declare fips_W.simps [simp del]

fun fips_round :: "('a :: comm_ring_1) sha2_funs \<Rightarrow> 'a \<Rightarrow> 'a \<Rightarrow> 'a list \<Rightarrow> 'a list" where
  "fips_round F k w [a, b, c, d, e, f, g, h] =
     (let T1 = h + f_Sigma1 F e + f_Ch F e f g + k + w;
          T2 = f_Sigma0 F a + f_Maj F a b c
      in [T1 + T2, a, b, c, d + T1, e, f, g])"
| "fips_round F k w v = v"

definition fips_compress :: "('a :: comm_ring_1) sha2_funs \<Rightarrow> 'a list \<Rightarrow> nat \<Rightarrow> 'a list \<Rightarrow> byte list \<Rightarrow> 'a list" where
  "fips_compress F Ks n s chunk =
     map2 (+) s (fold (\<lambda>t. fips_round F (Ks ! t) (fips_W F n chunk t)) [0..<length Ks] s)"

text \<open>What the row of line \<open>t\<close> should be.\<close>

definition sha2_regs :: "nat \<Rightarrow> nat list" where
  "sha2_regs t = map (\<lambda>j. (j + 8 - t mod 8) mod 8) [0..<8]"

definition sha2_sched :: "nat \<Rightarrow> nat \<Rightarrow> sched" where
  "sha2_sched n t = (if t < 16 then Load t (n * t)
     else Bump (t mod 16) ((t + 14) mod 16) ((t + 9) mod 16) ((t + 1) mod 16))"

fun peek :: "sched \<Rightarrow> sched" where
  "peek (Bump i j k l) = Peek i j k l"
| "peek sc = sc"

section \<open>The unrolled lines compute the reference\<close>

lemma list8_cases:
  assumes "length v = 8"
  obtains a b c d e f g h where "v = [a, b, c, d, e, f, g, h]"
  using assms by (auto simp: numeral_eq_Suc length_Suc_conv)

lemma mod8_cases:
  obtains "t mod 8 = (0 :: nat)" | "t mod 8 = 1" | "t mod 8 = 2" | "t mod 8 = 3"
    | "t mod 8 = 4" | "t mod 8 = 5" | "t mod 8 = 6" | "t mod 8 = 7"
  using mod_less_divisor [of 8 t] by linarith

definition reg_view :: "nat \<Rightarrow> 'a list \<Rightarrow> 'a list" where
  "reg_view t v = map ((!) v) (sha2_regs t)"

lemma reg_view_step:
  assumes "length v = 8"
  shows "reg_view (Suc t) (sha2_Round F (sha2_regs t) k w v) = fips_round F k w (reg_view t v)"
proof -
  obtain a b c d e f g h where v: "v = [a, b, c, d, e, f, g, h]" by (rule list8_cases [OF assms])
  have upt: "[0..<8] = [0, 1, 2, 3, 4, 5, 6, 7 :: nat]" by (simp add: upt_rec)
  show ?thesis
    by (cases t rule: mod8_cases)
      (simp_all add: v upt reg_view_def sha2_regs_def sha2_Round_def Let_def mod_Suc)
qed

lemma mod16_neq:
  assumes "s < t" and "t < s + 16"
  shows "s mod 16 \<noteq> (t :: nat) mod 16"
proof
  assume "s mod 16 = t mod 16"
  then have "16 dvd t - s" using mod_eq_dvd_iff_nat [of s t 16] assms(1) by simp
  then show False using nat_dvd_not_less [of "t - s" 16] assms by simp
qed

lemma mod16_back:
  assumes "16 \<le> t" and "d \<le> 16"
  shows "(t + d) mod 16 = (t - (16 - d)) mod (16 :: nat)"
proof -
  have "t + d = t - (16 - d) + 16" using assms by simp
  then show ?thesis by (metis mod_add_self2)
qed

lemma length_sha2_Round [simp]: "length (sha2_Round F r k w v) = length v"
  by (simp add: sha2_Round_def Let_def)

text \<open>The contract of a table of unrolled lines and the lemma that it computes the reference.\<close>

locale sha2_variant =
  fixes F :: "('a :: comm_ring_1) sha2_funs" and rows :: "'a sha2_row list" and Ks :: "'a list" and n :: nat
  assumes rounds: "18 \<le> length Ks" "length Ks mod 8 = 0"
    and main_rows: "\<And>t. t + 2 < length Ks \<Longrightarrow> rows ! t = (sha2_regs t, Ks ! t, sha2_sched n t)"
    and last_rows: "\<And>t. t < length Ks \<Longrightarrow> length Ks \<le> t + 2 \<Longrightarrow>
      rows ! t = (sha2_regs t, Ks ! t, peek (sha2_sched n t))"
    and num_rows: "length rows = length Ks"
begin

definition sched_ok :: "byte list \<Rightarrow> nat \<Rightarrow> 'a list \<Rightarrow> bool" where
  "sched_ok chunk t w \<longleftrightarrow> length w = 16 \<and> (\<forall>s. s < t \<and> t \<le> s + 16 \<longrightarrow> w ! (s mod 16) = fips_W F n chunk s)"

lemma sched_value:
  assumes "sched_ok chunk t w" and "sched_word F chunk w (sha2_sched n t) = (x, w')"
  shows "x = fips_W F n chunk t" and "sched_ok chunk (Suc t) w'"
proof -
  have w: "length w = 16" "\<And>s. s < t \<Longrightarrow> t \<le> s + 16 \<Longrightarrow> w ! (s mod 16) = fips_W F n chunk s"
    using assms(1) by (auto simp: sched_ok_def)
  have keep: "w[t mod 16 := y] ! (s mod 16) = w ! (s mod 16)" if "s < t" "Suc t \<le> s + 16" for s y
  proof -
    have "s mod 16 \<noteq> t mod 16" using that by (intro mod16_neq) simp_all
    then show ?thesis by simp
  qed
  have new: "w' = w[t mod 16 := x]" and x: "x = fips_W F n chunk t"
  proof -
    show "w' = w[t mod 16 := x]"
      using assms(2) by (auto simp: sha2_sched_def Let_def split: if_splits)
    show "x = fips_W F n chunk t"
    proof (cases "t < 16")
      case True
      then show ?thesis using assms(2) by (simp add: sha2_sched_def Let_def fips_W.simps [of F n chunk t])
    next
      case False
      have idx: "w ! (t mod 16) = fips_W F n chunk (t - 16)" "w ! ((t + 14) mod 16) = fips_W F n chunk (t - 2)"
        "w ! ((t + 9) mod 16) = fips_W F n chunk (t - 7)" "w ! ((t + 1) mod 16) = fips_W F n chunk (t - 15)"
      proof -
        have m: "t mod 16 = (t - 16) mod 16" "(t + 14) mod 16 = (t - 2) mod 16"
          "(t + 9) mod 16 = (t - 7) mod 16" "(t + 1) mod 16 = (t - 15) mod 16"
          using False mod16_back [of t 0] mod16_back [of t 14] mod16_back [of t 9] mod16_back [of t 1] by simp_all
        show "w ! (t mod 16) = fips_W F n chunk (t - 16)" unfolding m(1) by (rule w(2)) (use False in simp_all)
        show "w ! ((t + 14) mod 16) = fips_W F n chunk (t - 2)" unfolding m(2) by (rule w(2)) (use False in simp_all)
        show "w ! ((t + 9) mod 16) = fips_W F n chunk (t - 7)" unfolding m(3) by (rule w(2)) (use False in simp_all)
        show "w ! ((t + 1) mod 16) = fips_W F n chunk (t - 15)" unfolding m(4) by (rule w(2)) (use False in simp_all)
      qed
      then show ?thesis using assms(2) False
        by (simp add: sha2_sched_def Let_def fips_W.simps [of F n chunk t] algebra_simps)
    qed
  qed
  then show "x = fips_W F n chunk t" by simp
  show "sched_ok chunk (Suc t) w'"
    unfolding sched_ok_def new using w keep x by (auto simp: less_Suc_eq)
qed

definition ref_state :: "'a list \<Rightarrow> byte list \<Rightarrow> nat \<Rightarrow> 'a list" where
  "ref_state s chunk t = fold (\<lambda>t. fips_round F (Ks ! t) (fips_W F n chunk t)) [0..<t] s"

lemma ref_state_Suc: "ref_state s chunk (Suc t) = fips_round F (Ks ! t) (fips_W F n chunk t) (ref_state s chunk t)"
  by (simp add: ref_state_def)

lemma fold_take_Suc: "t < length xs \<Longrightarrow> fold g (take (Suc t) xs) a = g (xs ! t) (fold g (take t xs) a)"
  by (simp add: take_Suc_conv_app_nth)

lemma main_loop:
  assumes "length s = 8" and "t + 2 \<le> length Ks"
  shows "\<exists>v w. fold (sha2_line F chunk) (take t rows) (s, replicate 16 0) = (v, w) \<and> length v = 8 \<and>
    reg_view t v = ref_state s chunk t \<and> sched_ok chunk t w"
  using assms(2)
proof (induction t)
  case 0
  have "reg_view 0 s = s"
    by (rule list8_cases [OF assms(1)]) (simp add: reg_view_def sha2_regs_def upt_rec)
  then show ?case using assms(1) by (simp add: ref_state_def sched_ok_def)
next
  case (Suc t)
  then obtain v w where vw: "fold (sha2_line F chunk) (take t rows) (s, replicate 16 0) = (v, w)" "length v = 8"
    "reg_view t v = ref_state s chunk t" "sched_ok chunk t w" by auto
  obtain x w' where x: "sched_word F chunk w (sha2_sched n t) = (x, w')" by fastforce
  note sv = sched_value [OF vw(4) x]
  have "fold (sha2_line F chunk) (take (Suc t) rows) (s, replicate 16 0)
      = (sha2_Round F (sha2_regs t) (Ks ! t) x v, w')"
    using fold_take_Suc [of t rows "sha2_line F chunk" "(s, replicate 16 0)"] vw(1) x main_rows [of t] num_rows Suc.prems
    by (simp add: sha2_line_def)
  then show ?case
    using sv vw(2,3) reg_view_step [OF vw(2), of t F "Ks ! t" x] by (simp add: ref_state_Suc)
qed

text \<open>
  The last two lines do not store their schedule word.  The first of the two words is not read by the
  second line, so nothing is lost.
\<close>

lemma peek_value:
  assumes "16 \<le> t"
  shows "sched_word F chunk w (peek (sha2_sched n t)) = (fst (sched_word F chunk w (sha2_sched n t)), w)"
  using assms by (simp add: sha2_sched_def Let_def algebra_simps)

lemma peek_skip:
  assumes "16 \<le> t" and "length w = 16"
  shows "fst (sched_word F chunk (w[t mod 16 := y]) (sha2_sched n (Suc t)))
    = fst (sched_word F chunk w (sha2_sched n (Suc t)))"
proof -
  have "t mod 16 \<noteq> Suc t mod 16" "t mod 16 \<noteq> (Suc t + 14) mod 16" "t mod 16 \<noteq> (Suc t + 9) mod 16"
    "t mod 16 \<noteq> (Suc t + 1) mod 16" by (intro mod16_neq; simp)+
  then show ?thesis using assms by (simp add: sha2_sched_def Let_def)
qed

lemma last_lines:
  assumes "length v = 8" and "reg_view t v = ref_state s chunk t" and "sched_ok chunk t w"
    and "t + 2 = length Ks"
  shows "reg_view (Suc (Suc t)) (fst (fold (sha2_line F chunk) (drop t rows) (v, w)))
    = ref_state s chunk (Suc (Suc t))"
proof -
  have t: "16 \<le> t" "t + 2 = length rows" using rounds assms(4) num_rows by simp_all
  have rows: "drop t rows = [rows ! t, rows ! Suc t]"
    using t by (simp add: Cons_nth_drop_Suc [symmetric])
  obtain x w' where x: "sched_word F chunk w (sha2_sched n t) = (x, w')" by fastforce
  obtain y w'' where y: "sched_word F chunk w' (sha2_sched n (Suc t)) = (y, w'')" by fastforce
  note sv = sched_value [OF assms(3) x] sched_value [OF sched_value(2) [OF assms(3) x] y]
  have w': "w' = w[t mod 16 := x]" using x t(1) by (auto simp: sha2_sched_def Let_def)
  have len: "length w = 16" using assms(3) by (simp add: sched_ok_def)
  have yw: "fst (sched_word F chunk w (sha2_sched n (Suc t))) = y"
    using peek_skip [OF t(1) len, of chunk x] y w' by (simp only: fst_conv)
  have "fst (fold (sha2_line F chunk) (drop t rows) (v, w))
    = sha2_Round F (sha2_regs (Suc t)) (Ks ! Suc t) y (sha2_Round F (sha2_regs t) (Ks ! t) x v)"
    using last_rows [of t] last_rows [of "Suc t"] assms(4) peek_value [OF t(1)] peek_value [of "Suc t"] t(1) x yw
    by (simp add: rows sha2_line_def)
  then show ?thesis
    using sv assms(1,2) by (simp add: reg_view_step ref_state_Suc)
qed

lemma reg_view_aligned: "length v = 8 \<Longrightarrow> t mod 8 = 0 \<Longrightarrow> reg_view t v = v"
  by (erule list8_cases) (simp add: reg_view_def sha2_regs_def upt_rec)

lemma length_fold_lines [simp]: "length (fst (fold (sha2_line F chunk) rs st)) = length (fst st)"
proof (induction rs arbitrary: st)
  case (Cons r rs)
  then show ?case by (auto simp: sha2_line_def split: prod.splits)
qed simp

theorem transform_eq:
  assumes "length s = 8"
  shows "sha2_Transform F rows s chunk = fips_compress F Ks n s chunk"
proof -
  define t where "t = length Ks - 2"
  have t: "t + 2 = length Ks" using rounds by (simp add: t_def)
  obtain v w where vw: "fold (sha2_line F chunk) (take t rows) (s, replicate 16 0) = (v, w)" "length v = 8"
    "reg_view t v = ref_state s chunk t" "sched_ok chunk t w"
    using main_loop [OF assms, of t chunk] t by auto
  have "fold (sha2_line F chunk) rows (s, replicate 16 0) = fold (sha2_line F chunk) (drop t rows) (v, w)"
    using fold_append [of "sha2_line F chunk" "take t rows" "drop t rows"] vw(1) by simp
  moreover have "reg_view (length Ks) (fst (fold (sha2_line F chunk) (drop t rows) (v, w))) = ref_state s chunk (length Ks)"
    using last_lines [OF vw(2,3,4) t] t by (simp flip: t)
  ultimately show ?thesis
    using vw(2) rounds(2) by (simp add: sha2_Transform_def fips_compress_def ref_state_def reg_view_aligned)
qed

end

section \<open>The constants of the standard\<close>

text \<open>
  FIPS 180-4 gives its constants as the leading bits of the fractional parts of roots of the first primes: cube roots for
  the round constants, square roots for the initial states.  They are computed here from that description, with no
  reference to the tables of the code.  \<open>largest_root\<close> finds the greatest number whose \<open>e\<close>-th power does not exceed \<open>N\<close>,
  from the top bit down; five bits are enough for the integer part of a root of a number below 512.
\<close>

definition first_primes :: "int list" where
  "first_primes = [2, 3, 5, 7, 11, 13, 17, 19, 23, 29, 31, 37, 41, 43, 47, 53, 59, 61, 67, 71, 73, 79, 83, 89, 97,
     101, 103, 107, 109, 113, 127, 131, 137, 139, 149, 151, 157, 163, 167, 173, 179, 181, 191, 193, 197, 199,
     211, 223, 227, 229, 233, 239, 241, 251, 257, 263, 269, 271, 277, 281, 283, 293, 307, 311, 313, 317, 331,
     337, 347, 349, 353, 359, 367, 373, 379, 383, 389, 397, 401, 409]"

text \<open>They are all the primes up to 409: a composite number below \<open>21 * 21\<close> has a divisor up to 20.\<close>

lemma first_primes_sieve: "first_primes = filter (\<lambda>p. list_all (\<lambda>d. p = d \<or> p mod d \<noteq> 0) [2..20]) [2..409]"
  by code_simp

fun largest_root :: "nat \<Rightarrow> int \<Rightarrow> nat \<Rightarrow> int \<Rightarrow> int" where
  "largest_root e N 0 x = x"
| "largest_root e N (Suc b) x = largest_root e N b (if (x + 2 ^ b) ^ e \<le> N then x + 2 ^ b else x)"

definition root_bits :: "nat \<Rightarrow> nat \<Rightarrow> int \<Rightarrow> int" where
  "root_bits e w p = largest_root e (p * 2 ^ (e * w)) (w + 5) 0 mod 2 ^ w"

definition sha256_K :: "u32 list" where "sha256_K = map (\<lambda>p. of_int (root_bits 3 32 p)) (take 64 first_primes)"
definition sha512_K :: "u64 list" where "sha512_K = map (\<lambda>p. of_int (root_bits 3 64 p)) first_primes"
definition sha256_H :: "u32 list" where "sha256_H = map (\<lambda>p. of_int (root_bits 2 32 p)) (take 8 first_primes)"
definition sha512_H :: "u64 list" where "sha512_H = map (\<lambda>p. of_int (root_bits 2 64 p)) (take 8 first_primes)"

lemma largest_root_correct:
  "0 \<le> x \<Longrightarrow> x ^ e \<le> N \<Longrightarrow> N < (x + 2 ^ b) ^ e \<Longrightarrow>
   0 \<le> largest_root e N b x \<and> largest_root e N b x ^ e \<le> N \<and> N < (largest_root e N b x + 1) ^ e"
proof (induction b arbitrary: x)
  case (Suc b)
  show ?case using Suc.IH [of "x + 2 ^ b"] Suc.IH [of x] Suc.prems by (cases "(x + 2 ^ b) ^ e \<le> N") (simp_all add: add.commute)
qed simp

lemma root_unique:
  fixes r q :: int
  assumes "0 \<le> r" "r ^ e \<le> N" "N < (r + 1) ^ e" and "0 \<le> q" "q ^ e \<le> N" "N < (q + 1) ^ e"
  shows "r = q"
proof -
  have "r < q + 1" using power_less_imp_less_base [of r e "q + 1"] assms by linarith
  moreover have "q < r + 1" using power_less_imp_less_base [of q e "r + 1"] assms by linarith
  ultimately show ?thesis by simp
qed

text \<open>
  A constant \<open>k\<close> of a table is tested by two powers of the number it is the fraction of; the integer part of a cube or square
  root is counted, up to seven.
\<close>

definition int_root :: "nat \<Rightarrow> int \<Rightarrow> int" where
  "int_root e p = foldr (\<lambda>q n. if q ^ e \<le> p then n + 1 else n) [1, 2, 3, 4, 5, 6, 7] 0"

definition root_test :: "nat \<Rightarrow> nat \<Rightarrow> int \<Rightarrow> int \<Rightarrow> bool" where
  "root_test e w p k \<longleftrightarrow> 0 \<le> k \<and> k < 2 ^ w \<and>
     (let r = int_root e p * 2 ^ w + k; n = p * 2 ^ (e * w) in r ^ e \<le> n \<and> n < (r + 1) ^ e)"

lemma root_bits_test:
  assumes "root_test e w p k" "0 < e" "0 \<le> p"
  shows "root_bits e w p = k"
proof -
  let ?m = "int_root e p" and ?n = "p * 2 ^ (e * w)"
  let ?r = "?m * 2 ^ w + k"
  have f: "0 \<le> k" "k < 2 ^ w" "?r ^ e \<le> ?n" "?n < (?r + 1) ^ e" using assms(1) by (simp_all add: root_test_def Let_def)
  have m: "0 \<le> ?m" "?m \<le> 7" by (simp_all add: int_root_def)
  have "(?m + 1) * 2 ^ w \<le> 32 * 2 ^ w" using m by (intro mult_right_mono) simp_all
  moreover have "2 ^ (w + 5) = 32 * (2 :: int) ^ w" by (simp add: power_add)
  ultimately have "?r + 1 \<le> 2 ^ (w + 5)" using f(2) unfolding distrib_right by linarith
  then have "?n < (0 + 2 ^ (w + 5)) ^ e" using f(1,4) m(1) power_mono [of "?r + 1" "2 ^ (w + 5)" e] by simp
  moreover have "0 ^ e \<le> ?n" using assms(2,3) by (simp add: power_0_left)
  ultimately have "largest_root e ?n (w + 5) 0 = ?r"
    using largest_root_correct [of 0 e ?n "w + 5"] root_unique [OF _ _ _ _ f(3,4)] f(1) m(1) by simp
  then show ?thesis using f(1,2) by (simp add: root_bits_def)
qed

lemma table_of_roots:
  assumes "0 < e" and "list_all2 (\<lambda>p k. 0 \<le> p \<and> root_test e w p (uint k)) ps ks"
  shows "map (\<lambda>p. of_int (root_bits e w p)) ps = ks"
  using assms(2)
proof (induction rule: list_all2_induct)
  case (Cons p ps k ks)
  then have "root_bits e w p = uint k" using assms(1) by (intro root_bits_test) simp_all
  then show ?case using Cons by simp
qed simp

lemma sha256_table: "sha256_K = map (\<lambda>(r, k, sc). k) sha256_rows"
  unfolding sha256_K_def by (rule table_of_roots) (simp, code_simp)

lemma sha512_table: "sha512_K = map (\<lambda>(r, k, sc). k) sha512_rows"
  unfolding sha512_K_def by (rule table_of_roots) (simp, code_simp)

lemma initial_states: "sha256_Initialize = sha256_H" "sha512_Initialize = sha512_H"
  unfolding sha256_H_def sha512_H_def by (rule table_of_roots [symmetric], simp, code_simp)+

section \<open>The tables have the shape of the standard\<close>

lemma sha256_rows_shape:
  "sha256_rows = map (\<lambda>t. (sha2_regs t, sha256_K ! t,
     if t + 2 < 64 then sha2_sched 4 t else peek (sha2_sched 4 t))) [0..<64]"
  unfolding sha256_table by code_simp

lemma sha512_rows_shape:
  "sha512_rows = map (\<lambda>t. (sha2_regs t, sha512_K ! t,
     if t + 2 < 80 then sha2_sched 8 t else peek (sha2_sched 8 t))) [0..<80]"
  unfolding sha512_table by code_simp

lemma length_sha256_K: "length sha256_K = 64"
  by (simp add: sha256_table sha256_rows_def)

lemma length_sha512_K: "length sha512_K = 80"
  by (simp add: sha512_table sha512_rows_def)

interpretation sha256: sha2_variant sha256_funs sha256_rows sha256_K 4
proof
  show "length sha256_rows = length sha256_K" by (simp add: sha256_table)
  show "sha256_rows ! t = (sha2_regs t, sha256_K ! t, sha2_sched 4 t)" if "t + 2 < length sha256_K" for t
    by (subst sha256_rows_shape) (use that length_sha256_K in simp)
  show "sha256_rows ! t = (sha2_regs t, sha256_K ! t, peek (sha2_sched 4 t))"
    if "t < length sha256_K" "length sha256_K \<le> t + 2" for t
    by (subst sha256_rows_shape) (use that length_sha256_K in simp)
qed (simp_all add: length_sha256_K)

interpretation sha512: sha2_variant sha512_funs sha512_rows sha512_K 8
proof
  show "length sha512_rows = length sha512_K" by (simp add: sha512_table)
  show "sha512_rows ! t = (sha2_regs t, sha512_K ! t, sha2_sched 8 t)" if "t + 2 < length sha512_K" for t
    by (subst sha512_rows_shape) (use that length_sha512_K in simp)
  show "sha512_rows ! t = (sha2_regs t, sha512_K ! t, peek (sha2_sched 8 t))"
    if "t < length sha512_K" "length sha512_K \<le> t + 2" for t
    by (subst sha512_rows_shape) (use that length_sha512_K in simp)
qed (simp_all add: length_sha512_K)

section \<open>Bitwise functions of the standard\<close>

definition fips_Ch :: "'a :: len word \<Rightarrow> 'a word \<Rightarrow> 'a word \<Rightarrow> 'a word" where
  "fips_Ch x y z = (x AND y) XOR (NOT x AND z)"

definition fips_Maj :: "'a :: len word \<Rightarrow> 'a word \<Rightarrow> 'a word \<Rightarrow> 'a word" where
  "fips_Maj x y z = (x AND y) XOR (x AND z) XOR (y AND z)"

definition fips256_funs :: "u32 sha2_funs" where
  "fips256_funs = \<lparr>f_read = ReadBE32, f_Ch = fips_Ch, f_Maj = fips_Maj,
     f_Sigma0 = (\<lambda>x. word_rotr 2 x XOR word_rotr 13 x XOR word_rotr 22 x),
     f_Sigma1 = (\<lambda>x. word_rotr 6 x XOR word_rotr 11 x XOR word_rotr 25 x),
     f_sigma0 = (\<lambda>x. word_rotr 7 x XOR word_rotr 18 x XOR drop_bit 3 x),
     f_sigma1 = (\<lambda>x. word_rotr 17 x XOR word_rotr 19 x XOR drop_bit 10 x)\<rparr>"

definition fips512_funs :: "u64 sha2_funs" where
  "fips512_funs = \<lparr>f_read = ReadBE64, f_Ch = fips_Ch, f_Maj = fips_Maj,
     f_Sigma0 = (\<lambda>x. word_rotr 28 x XOR word_rotr 34 x XOR word_rotr 39 x),
     f_Sigma1 = (\<lambda>x. word_rotr 14 x XOR word_rotr 18 x XOR word_rotr 41 x),
     f_sigma0 = (\<lambda>x. word_rotr 1 x XOR word_rotr 8 x XOR drop_bit 7 x),
     f_sigma1 = (\<lambda>x. word_rotr 19 x XOR word_rotr 61 x XOR drop_bit 6 x)\<rparr>"

lemma rotr_as_shifts:
  fixes x :: "'a :: len word"
  assumes "0 < n" and "n < LENGTH('a)" and "m = LENGTH('a) - n"
  shows "drop_bit n x OR push_bit m x = word_rotr n x"
proof (rule bit_word_eqI)
  fix i assume i: "i < LENGTH('a)"
  show "bit (drop_bit n x OR push_bit m x) i = bit (word_rotr n x) i"
  proof (cases "n + i < LENGTH('a)")
    case True
    then have "\<not> m \<le> i" using assms by simp
    then show ?thesis using True assms i
      by (simp add: bit_or_iff bit_drop_bit_eq bit_push_bit_iff bit_word_rotr_iff add.commute)
  next
    case False
    have "(i + n) mod LENGTH('a) = i - m" using False assms i by (simp add: mod_if)
    moreover have "\<not> bit x (n + i)" using False bit_imp_le_length by blast
    ultimately show ?thesis using False assms i
      by (auto simp: bit_or_iff bit_drop_bit_eq bit_push_bit_iff bit_word_rotr_iff)
  qed
qed

lemma fips_Ch_eq: "z XOR (x AND (y XOR z)) = fips_Ch x y z"
  by (rule bit_word_eqI) (auto simp: fips_Ch_def bit_and_iff bit_xor_iff bit_not_iff)

lemma fips_Maj_eq: "(x AND y) OR (z AND (x OR y)) = fips_Maj x y z"
  by (rule bit_word_eqI) (auto simp: fips_Maj_def bit_and_iff bit_xor_iff bit_or_iff)

lemma sha256_funs_fips: "sha256_funs = fips256_funs"
  by (simp add: sha256_funs_def fips256_funs_def fun_eq_iff sha256_Ch_def sha256_Maj_def fips_Ch_eq fips_Maj_eq
      sha256_Sigma0_def sha256_Sigma1_def sha256_sigma0_def sha256_sigma1_def rotr_as_shifts)

lemma sha512_funs_fips: "sha512_funs = fips512_funs"
  by (simp add: sha512_funs_def fips512_funs_def fun_eq_iff sha512_Ch_def sha512_Maj_def fips_Ch_eq fips_Maj_eq
      sha512_Sigma0_def sha512_Sigma1_def sha512_sigma0_def sha512_sigma1_def rotr_as_shifts)

section \<open>Hashing a message\<close>

text \<open>
  Padding of the standard: a one bit, the least number of zero bytes that leaves room for the length
  at the end of a block, and the length in bits.
\<close>

definition fips_zeros :: "nat \<Rightarrow> nat \<Rightarrow> nat \<Rightarrow> nat" where
  "fips_zeros B l n = nat ((int B - int l - 1 - int n) mod int B)"

definition fips_pad256 :: "byte list \<Rightarrow> byte list" where
  "fips_pad256 m = m @ 0x80 # replicate (fips_zeros 64 8 (length m)) 0 @ WriteBE64 (of_nat (8 * length m))"

definition fips_pad512 :: "byte list \<Rightarrow> byte list" where
  "fips_pad512 m = m @ 0x80 # replicate (fips_zeros 128 16 (length m)) 0 @
     replicate 8 0 @ WriteBE64 (of_nat (8 * length m))"

definition sha256 :: "byte list \<Rightarrow> byte list" where
  "sha256 m = concat (map WriteBE32
     (foldl (fips_compress fips256_funs sha256_K 4) sha256_H (blocks 64 (fips_pad256 m))))"

definition sha512 :: "byte list \<Rightarrow> byte list" where
  "sha512 m = concat (map WriteBE64
     (foldl (fips_compress fips512_funs sha512_K 8) sha512_H (blocks 128 (fips_pad512 m))))"

interpretation sha256_stream: block_hash 64 sha256_Transform sha256_Initialize
  by unfold_locales simp_all

interpretation sha512_stream: block_hash 128 sha512_Transform sha512_Initialize
  by unfold_locales simp_all

lemma length_sha2_Transform: "length s = 8 \<Longrightarrow> length (sha256_Transform s c) = 8"
  "length t = 8 \<Longrightarrow> length (sha512_Transform t c) = 8"
  by (simp_all add: sha256_Transform_def sha512_Transform_def sha2_Transform_def
      sha256.length_fold_lines sha512.length_fold_lines)

lemma sha2_Transform_fips:
  "length s = 8 \<Longrightarrow> sha256_Transform s c = fips_compress fips256_funs sha256_K 4 s c"
  "length t = 8 \<Longrightarrow> sha512_Transform t c = fips_compress fips512_funs sha512_K 8 t c"
  unfolding sha256_Transform_def sha512_Transform_def sha256_funs_fips [symmetric] sha512_funs_fips [symmetric]
  by (rule sha256.transform_eq sha512.transform_eq, assumption)+

lemma foldl_cong_length:
  assumes "\<And>s c. length s = n \<Longrightarrow> length (f s c) = n" and "\<And>s c. length s = n \<Longrightarrow> f s c = g s c"
  shows "length s = n \<Longrightarrow> foldl f s cs = foldl g s cs \<and> length (foldl f s cs) = n"
proof (induction cs arbitrary: s)
  case (Cons c cs)
  show ?case using Cons.IH [OF assms(1) [OF Cons.prems], of c] assms(2) [OF Cons.prems, of c] by (metis foldl_Cons)
qed simp

lemma foldl_sha256:
  "foldl sha256_Transform sha256_Initialize cs = foldl (fips_compress fips256_funs sha256_K 4) sha256_Initialize cs \<and>
   length (foldl sha256_Transform sha256_Initialize cs) = 8"
  by (rule foldl_cong_length [OF length_sha2_Transform(1) sha2_Transform_fips(1)])
    (simp_all add: sha256_Initialize_def)

lemma foldl_sha512:
  "foldl sha512_Transform sha512_Initialize cs = foldl (fips_compress fips512_funs sha512_K 8) sha512_Initialize cs \<and>
   length (foldl sha512_Transform sha512_Initialize cs) = 8"
  by (rule foldl_cong_length [OF length_sha2_Transform(2) sha2_Transform_fips(2)])
    (simp_all add: sha512_Initialize_def)

lemma pad_count_int:
  assumes "l = 2 * b - k" and "k \<le> b" and "0 < b"
  shows "(l - n mod b) mod b = nat ((int b - int k - int n) mod int b)"
proof -
  have "n mod b \<le> l" using mod_less_divisor [OF assms(3), of n] assms(1,2) by linarith
  then have "int ((l - n mod b) mod b) = (int l - int n mod int b) mod int b"
    by (simp add: zmod_int of_nat_diff)
  also have "\<dots> = (int l - int n) mod int b" by (rule mod_diff_right_eq)
  also have "\<dots> = (int b - int k - int n + int b) mod int b" using assms(1,2) by (simp add: of_nat_diff algebra_simps)
  also have "\<dots> = (int b - int k - int n) mod int b" by (rule mod_add_self2)
  finally show ?thesis by simp
qed

lemma pad_count: "(119 - n mod 64) mod 64 = fips_zeros 64 8 n" "(239 - n mod 128) mod 128 = fips_zeros 128 16 n"
  using pad_count_int [of 119 64 9 n] pad_count_int [of 239 128 17 n] by (simp_all add: fips_zeros_def)

lemma push_bit_3_of_nat: "push_bit 3 (of_nat n :: u64) = of_nat (8 * n)"
  by (simp add: push_bit_eq_mult)

lemma map_nth_8: "length xs = 8 \<Longrightarrow> map (\<lambda>i. f (xs ! i)) [0..<8] = map f xs"
  by (rule nth_equalityI) simp_all

lemma CSHA256_Finalize_absorbed:
  assumes "sha256_stream.absorbed h m"
  shows "snd (CSHA256_Finalize h) = sha256 m"
proof -
  let ?h1 = "CSHA256_Write h (sha_pad64 (hbytes h))"
  let ?h2 = "CSHA256_Write ?h1 (WriteBE64 (push_bit 3 (hbytes h)))"
  have bytes: "hbytes h = of_nat (length m)" using assms by (rule sha256_stream.absorbed_bytes)
  have pad: "sha_pad64 (hbytes h) = 0x80 # replicate (fips_zeros 64 8 (length m)) 0"
    by (simp add: sha_pad64_def bytes sha256_stream.position pad_count(1))
  have "sha256_stream.absorbed ?h2 (fips_pad256 m)"
    using sha256_stream.absorbed_write [OF sha256_stream.absorbed_write [OF assms], of
        "sha_pad64 (hbytes h)" "WriteBE64 (push_bit 3 (hbytes h))"]
    unfolding CSHA256_Write_def fips_pad256_def pad unfolding bytes push_bit_3_of_nat by simp
  then have "hs ?h2 = foldl sha256_Transform sha256_Initialize (blocks 64 (fips_pad256 m))"
    by (simp add: sha256_stream.absorbed_def)
  then have state: "hs ?h2 = foldl (fips_compress fips256_funs sha256_K 4) sha256_Initialize (blocks 64 (fips_pad256 m))"
      "length (hs ?h2) = 8"
    using foldl_sha256 [of "blocks 64 (fips_pad256 m)"] by metis+
  have "snd (CSHA256_Finalize h) = concat (map WriteBE32 (hs ?h2))"
    using map_nth_8 [OF state(2), of WriteBE32] by (simp add: CSHA256_Finalize_def CSHA256_FinalizeNoPadding_def Let_def)
  then show ?thesis using state(1) by (simp add: sha256_def initial_states)
qed

lemma CSHA512_Finalize_absorbed:
  assumes "sha512_stream.absorbed h m"
  shows "snd (CSHA512_Finalize h) = sha512 m"
proof -
  let ?pad = "0x80 # replicate ((239 - unat (hbytes h) mod 128) mod 128) 0"
  let ?size = "replicate 8 0 @ WriteBE64 (push_bit 3 (hbytes h))"
  let ?h2 = "CSHA512_Write (CSHA512_Write h ?pad) ?size"
  have bytes: "hbytes h = of_nat (length m)" using assms by (rule sha512_stream.absorbed_bytes)
  have pad: "?pad = 0x80 # replicate (fips_zeros 128 16 (length m)) 0"
    by (simp add: bytes sha512_stream.position pad_count(2))
  have "sha512_stream.absorbed ?h2 (fips_pad512 m)"
    using sha512_stream.absorbed_write [OF sha512_stream.absorbed_write [OF assms], of ?pad ?size]
    unfolding CSHA512_Write_def fips_pad512_def pad unfolding bytes push_bit_3_of_nat by simp
  then have "hs ?h2 = foldl sha512_Transform sha512_Initialize (blocks 128 (fips_pad512 m))"
    by (simp add: sha512_stream.absorbed_def)
  then have state: "hs ?h2 = foldl (fips_compress fips512_funs sha512_K 8) sha512_Initialize (blocks 128 (fips_pad512 m))"
      "length (hs ?h2) = 8"
    using foldl_sha512 [of "blocks 128 (fips_pad512 m)"] by metis+
  have "snd (CSHA512_Finalize h) = concat (map WriteBE64 (hs ?h2))"
    using map_nth_8 [OF state(2), of WriteBE64] by (simp add: CSHA512_Finalize_def Let_def)
  then show ?thesis using state(1) by (simp add: sha512_def initial_states)
qed

lemma CSHA256_absorbs_pieces:
  assumes "length junk = 64"
  shows "sha256_stream.absorbed (foldl CSHA256_Write (CSHA256_new junk) pieces) (concat pieces)"
  using sha256_stream.absorbed_foldl [OF sha256_stream.absorbed_new [OF assms], of pieces]
  by (simp add: CSHA256_new_def CSHA256_Write_def [abs_def])

lemma CSHA512_absorbs_pieces:
  assumes "length junk = 128"
  shows "sha512_stream.absorbed (foldl CSHA512_Write (CSHA512_new junk) pieces) (concat pieces)"
  using sha512_stream.absorbed_foldl [OF sha512_stream.absorbed_new [OF assms], of pieces]
  by (simp add: CSHA512_new_def CSHA512_Write_def [abs_def])

section \<open>Properties\<close>

text \<open>
  C25. The unrolled SHA-256 and SHA-512 transformations, on a state of eight words, are the compression functions of FIPS 180-4:
  the rotated register names are the register shift of the standard, the sixteen recycled schedule
  words, two of them never stored at the end, are its message schedule of 64 (80) words, and the constants in the table of
  rounds are those the standard describes, computed from the cube roots of the first 64 (80) primes.
\<close>

theorem sha2_Transform_is_fips:
  assumes "length s = 8" and "length t = 8"
  shows "sha256_Transform s chunk = fips_compress fips256_funs sha256_K 4 s chunk \<and>
    sha512_Transform t chunk' = fips_compress fips512_funs sha512_K 8 t chunk'"
  using sha2_Transform_fips(1) [OF assms(1)] sha2_Transform_fips(2) [OF assms(2)] by simp

theorem sha2_Transform_is_fips_witness:
  "sha256_Transform sha256_Initialize (replicate 64 0) =
     fips_compress fips256_funs sha256_K 4 sha256_Initialize (replicate 64 0) \<and>
   sha512_Transform sha512_Initialize (replicate 128 0) =
     fips_compress fips512_funs sha512_K 8 sha512_Initialize (replicate 128 0)"
  using sha2_Transform_is_fips [of sha256_Initialize sha512_Initialize]
  by (simp add: sha256_Initialize_def sha512_Initialize_def)

text \<open>
  C24. Writing a message to a SHA-256 or SHA-512 object in any pieces and finalising it gives the
  FIPS 180-4 digest of the concatenation, whatever the buffer of the new object held.
\<close>

theorem sha2_hashes_concat:
  assumes "length junk = 64" and "length junk' = 128"
  shows "snd (CSHA256_Finalize (foldl CSHA256_Write (CSHA256_new junk) pieces)) = sha256 (concat pieces) \<and>
    snd (CSHA512_Finalize (foldl CSHA512_Write (CSHA512_new junk') pieces)) = sha512 (concat pieces)"
  using CSHA256_Finalize_absorbed [OF CSHA256_absorbs_pieces [OF assms(1)]]
    CSHA512_Finalize_absorbed [OF CSHA512_absorbs_pieces [OF assms(2)]] by simp

theorem sha2_hashes_concat_witness:
  "snd (CSHA256_Finalize (foldl CSHA256_Write (CSHA256_new (replicate 64 7)) [[97], replicate 100 98, []]))
     = sha256 (97 # replicate 100 98) \<and>
   snd (CSHA512_Finalize (foldl CSHA512_Write (CSHA512_new (replicate 128 7)) [[97], replicate 100 98, []]))
     = sha512 (97 # replicate 100 98)"
  using sha2_hashes_concat [of "replicate 64 7" "replicate 128 7" "[[97], replicate 100 98, []]"] by simp

end
