(* ===== verification/LegacyHash.thy ===== *)
theory LegacyHash
  imports Hasher
begin

unbundle bit_operations_syntax

text \<open>
  SHA-1 and RIPEMD-160: \<open>src/src/crypto/sha1.cpp\<close> and \<open>src/src/crypto/ripemd160.cpp\<close>.  The unrolled
  lines of the two transformations are tables, one row per line, with the registers \<open>a\<close> to \<open>e\<close>
  numbered 0 to 4; the buffering is that of the theory \<open>Hasher\<close>.
\<close>

section \<open>SHA-1\<close>

definition sha1_f1 :: "u32 \<Rightarrow> u32 \<Rightarrow> u32 \<Rightarrow> u32" where "sha1_f1 b c d = d XOR (b AND (c XOR d))"
definition sha1_f2 :: "u32 \<Rightarrow> u32 \<Rightarrow> u32 \<Rightarrow> u32" where "sha1_f2 b c d = b XOR c XOR d"
definition sha1_f3 :: "u32 \<Rightarrow> u32 \<Rightarrow> u32 \<Rightarrow> u32" where "sha1_f3 b c d = (b AND c) OR (d AND (b OR c))"
definition sha1_left :: "u32 \<Rightarrow> u32" where "sha1_left x = push_bit 1 x OR drop_bit 31 x"

datatype sha1_fun = F1 | F2 | F3
datatype sha1_const = K1 | K2 | K3 | K4

text \<open>
  \<open>Load1 i o\<close> is \<open>w_i = ReadBE32(chunk + o)\<close>, \<open>Mix1 i j k l\<close> is \<open>w_i = left(w_i ^ w_j ^ w_k ^ w_l)\<close> and
  \<open>Peek1\<close> is the same value without the assignment.
\<close>

datatype sha1_sched = Load1 nat nat | Mix1 nat nat nat nat | Peek1 nat nat nat nat

type_synonym sha1_row = "nat list \<times> sha1_fun \<times> sha1_const \<times> sha1_sched"

fun sha1_apply :: "sha1_fun \<Rightarrow> u32 \<Rightarrow> u32 \<Rightarrow> u32 \<Rightarrow> u32" where
  "sha1_apply F1 = sha1_f1" | "sha1_apply F2 = sha1_f2" | "sha1_apply F3 = sha1_f3"

fun sha1_k :: "sha1_const \<Rightarrow> u32" where
  "sha1_k K1 = 0x5A827999" | "sha1_k K2 = 0x6ED9EBA1" | "sha1_k K3 = 0x8F1BBCDC" | "sha1_k K4 = 0xCA62C1D6"

fun sha1_word :: "byte list \<Rightarrow> u32 list \<Rightarrow> sha1_sched \<Rightarrow> u32 \<times> u32 list" where
  "sha1_word chunk w (Load1 i off) = (let x = ReadBE32 (drop off chunk) in (x, w[i := x]))"
| "sha1_word chunk w (Mix1 i j k l) =
     (let x = sha1_left (w ! i XOR w ! j XOR w ! k XOR w ! l) in (x, w[i := x]))"
| "sha1_word chunk w (Peek1 i j k l) = (sha1_left (w ! i XOR w ! j XOR w ! k XOR w ! l), w)"

text \<open>\<open>Round\<close>: \<open>b\<close> and \<open>e\<close> are passed by reference, and \<open>f\<close> is evaluated before the call.\<close>

definition sha1_Round :: "nat list \<Rightarrow> u32 \<Rightarrow> u32 \<Rightarrow> u32 \<Rightarrow> u32 list \<Rightarrow> u32 list" where
  "sha1_Round r f k w v =
     (let a = v ! (r ! 0); b = v ! (r ! 1); e = v ! (r ! 4)
      in v[r ! 4 := e + ((push_bit 5 a OR drop_bit 27 a) + f + k + w), r ! 1 := push_bit 30 b OR drop_bit 2 b])"

definition sha1_line :: "byte list \<Rightarrow> sha1_row \<Rightarrow> u32 list \<times> u32 list \<Rightarrow> u32 list \<times> u32 list" where
  "sha1_line chunk row st =
     (case (row, st) of ((r, fi, ki, sc), (v, w)) \<Rightarrow>
        let f = sha1_apply fi (v ! (r ! 1)) (v ! (r ! 2)) (v ! (r ! 3));
            (x, w') = sha1_word chunk w sc
        in (sha1_Round r f (sha1_k ki) x v, w'))"

definition sha1_rows :: "sha1_row list" where
  "sha1_rows = [
      ([0, 1, 2, 3, 4], F1, K1, Load1 0 0), ([4, 0, 1, 2, 3], F1, K1, Load1 1 4),
      ([3, 4, 0, 1, 2], F1, K1, Load1 2 8), ([2, 3, 4, 0, 1], F1, K1, Load1 3 12),
      ([1, 2, 3, 4, 0], F1, K1, Load1 4 16), ([0, 1, 2, 3, 4], F1, K1, Load1 5 20),
      ([4, 0, 1, 2, 3], F1, K1, Load1 6 24), ([3, 4, 0, 1, 2], F1, K1, Load1 7 28),
      ([2, 3, 4, 0, 1], F1, K1, Load1 8 32), ([1, 2, 3, 4, 0], F1, K1, Load1 9 36),
      ([0, 1, 2, 3, 4], F1, K1, Load1 10 40), ([4, 0, 1, 2, 3], F1, K1, Load1 11 44),
      ([3, 4, 0, 1, 2], F1, K1, Load1 12 48), ([2, 3, 4, 0, 1], F1, K1, Load1 13 52),
      ([1, 2, 3, 4, 0], F1, K1, Load1 14 56), ([0, 1, 2, 3, 4], F1, K1, Load1 15 60),
      ([4, 0, 1, 2, 3], F1, K1, Mix1 0 13 8 2), ([3, 4, 0, 1, 2], F1, K1, Mix1 1 14 9 3),
      ([2, 3, 4, 0, 1], F1, K1, Mix1 2 15 10 4), ([1, 2, 3, 4, 0], F1, K1, Mix1 3 0 11 5),
      ([0, 1, 2, 3, 4], F2, K2, Mix1 4 1 12 6), ([4, 0, 1, 2, 3], F2, K2, Mix1 5 2 13 7),
      ([3, 4, 0, 1, 2], F2, K2, Mix1 6 3 14 8), ([2, 3, 4, 0, 1], F2, K2, Mix1 7 4 15 9),
      ([1, 2, 3, 4, 0], F2, K2, Mix1 8 5 0 10), ([0, 1, 2, 3, 4], F2, K2, Mix1 9 6 1 11),
      ([4, 0, 1, 2, 3], F2, K2, Mix1 10 7 2 12), ([3, 4, 0, 1, 2], F2, K2, Mix1 11 8 3 13),
      ([2, 3, 4, 0, 1], F2, K2, Mix1 12 9 4 14), ([1, 2, 3, 4, 0], F2, K2, Mix1 13 10 5 15),
      ([0, 1, 2, 3, 4], F2, K2, Mix1 14 11 6 0), ([4, 0, 1, 2, 3], F2, K2, Mix1 15 12 7 1),
      ([3, 4, 0, 1, 2], F2, K2, Mix1 0 13 8 2), ([2, 3, 4, 0, 1], F2, K2, Mix1 1 14 9 3),
      ([1, 2, 3, 4, 0], F2, K2, Mix1 2 15 10 4), ([0, 1, 2, 3, 4], F2, K2, Mix1 3 0 11 5),
      ([4, 0, 1, 2, 3], F2, K2, Mix1 4 1 12 6), ([3, 4, 0, 1, 2], F2, K2, Mix1 5 2 13 7),
      ([2, 3, 4, 0, 1], F2, K2, Mix1 6 3 14 8), ([1, 2, 3, 4, 0], F2, K2, Mix1 7 4 15 9),
      ([0, 1, 2, 3, 4], F3, K3, Mix1 8 5 0 10), ([4, 0, 1, 2, 3], F3, K3, Mix1 9 6 1 11),
      ([3, 4, 0, 1, 2], F3, K3, Mix1 10 7 2 12), ([2, 3, 4, 0, 1], F3, K3, Mix1 11 8 3 13),
      ([1, 2, 3, 4, 0], F3, K3, Mix1 12 9 4 14), ([0, 1, 2, 3, 4], F3, K3, Mix1 13 10 5 15),
      ([4, 0, 1, 2, 3], F3, K3, Mix1 14 11 6 0), ([3, 4, 0, 1, 2], F3, K3, Mix1 15 12 7 1),
      ([2, 3, 4, 0, 1], F3, K3, Mix1 0 13 8 2), ([1, 2, 3, 4, 0], F3, K3, Mix1 1 14 9 3),
      ([0, 1, 2, 3, 4], F3, K3, Mix1 2 15 10 4), ([4, 0, 1, 2, 3], F3, K3, Mix1 3 0 11 5),
      ([3, 4, 0, 1, 2], F3, K3, Mix1 4 1 12 6), ([2, 3, 4, 0, 1], F3, K3, Mix1 5 2 13 7),
      ([1, 2, 3, 4, 0], F3, K3, Mix1 6 3 14 8), ([0, 1, 2, 3, 4], F3, K3, Mix1 7 4 15 9),
      ([4, 0, 1, 2, 3], F3, K3, Mix1 8 5 0 10), ([3, 4, 0, 1, 2], F3, K3, Mix1 9 6 1 11),
      ([2, 3, 4, 0, 1], F3, K3, Mix1 10 7 2 12), ([1, 2, 3, 4, 0], F3, K3, Mix1 11 8 3 13),
      ([0, 1, 2, 3, 4], F2, K4, Mix1 12 9 4 14), ([4, 0, 1, 2, 3], F2, K4, Mix1 13 10 5 15),
      ([3, 4, 0, 1, 2], F2, K4, Mix1 14 11 6 0), ([2, 3, 4, 0, 1], F2, K4, Mix1 15 12 7 1),
      ([1, 2, 3, 4, 0], F2, K4, Mix1 0 13 8 2), ([0, 1, 2, 3, 4], F2, K4, Mix1 1 14 9 3),
      ([4, 0, 1, 2, 3], F2, K4, Mix1 2 15 10 4), ([3, 4, 0, 1, 2], F2, K4, Mix1 3 0 11 5),
      ([2, 3, 4, 0, 1], F2, K4, Mix1 4 1 12 6), ([1, 2, 3, 4, 0], F2, K4, Mix1 5 2 13 7),
      ([0, 1, 2, 3, 4], F2, K4, Mix1 6 3 14 8), ([4, 0, 1, 2, 3], F2, K4, Mix1 7 4 15 9),
      ([3, 4, 0, 1, 2], F2, K4, Mix1 8 5 0 10), ([2, 3, 4, 0, 1], F2, K4, Mix1 9 6 1 11),
      ([1, 2, 3, 4, 0], F2, K4, Mix1 10 7 2 12), ([0, 1, 2, 3, 4], F2, K4, Mix1 11 8 3 13),
      ([4, 0, 1, 2, 3], F2, K4, Mix1 12 9 4 14), ([3, 4, 0, 1, 2], F2, K4, Peek1 13 10 5 15),
      ([2, 3, 4, 0, 1], F2, K4, Peek1 14 11 6 0), ([1, 2, 3, 4, 0], F2, K4, Peek1 15 12 7 1)]"

definition sha1_Initialize :: "u32 list" where
  "sha1_Initialize = [0x67452301, 0xEFCDAB89, 0x98BADCFE, 0x10325476, 0xC3D2E1F0]"

definition sha1_Transform :: "u32 list \<Rightarrow> byte list \<Rightarrow> u32 list" where
  "sha1_Transform s chunk = map2 (+) s (fst (fold (sha1_line chunk) sha1_rows (s, replicate 16 0)))"

type_synonym CSHA1 = "u32 list hasher"

definition CSHA1_new :: "byte list \<Rightarrow> CSHA1" where "CSHA1_new junk = hasher_new sha1_Initialize junk"

definition CSHA1_Write :: "CSHA1 \<Rightarrow> byte list \<Rightarrow> CSHA1" where
  "CSHA1_Write h data = hasher_write 64 sha1_Transform h data"

definition CSHA1_Finalize :: "CSHA1 \<Rightarrow> CSHA1 \<times> byte list" where
  "CSHA1_Finalize h =
     (let sizedesc = WriteBE64 (push_bit 3 (hbytes h));
          h1 = CSHA1_Write h (0x80 # replicate ((119 - unat (hbytes h) mod 64) mod 64) 0);
          h2 = CSHA1_Write h1 sizedesc
      in (h2, concat (map (\<lambda>i. WriteBE32 (hs h2 ! i)) [0..<5])))"

definition CSHA1_Reset :: "CSHA1 \<Rightarrow> CSHA1" where "CSHA1_Reset h = hasher_reset sha1_Initialize h"

section \<open>RIPEMD-160\<close>

definition ripemd_f1 :: "u32 \<Rightarrow> u32 \<Rightarrow> u32 \<Rightarrow> u32" where "ripemd_f1 x y z = x XOR y XOR z"
definition ripemd_f2 :: "u32 \<Rightarrow> u32 \<Rightarrow> u32 \<Rightarrow> u32" where "ripemd_f2 x y z = (x AND y) OR (NOT x AND z)"
definition ripemd_f3 :: "u32 \<Rightarrow> u32 \<Rightarrow> u32 \<Rightarrow> u32" where "ripemd_f3 x y z = (x OR NOT y) XOR z"
definition ripemd_f4 :: "u32 \<Rightarrow> u32 \<Rightarrow> u32 \<Rightarrow> u32" where "ripemd_f4 x y z = (x AND z) OR (y AND NOT z)"
definition ripemd_f5 :: "u32 \<Rightarrow> u32 \<Rightarrow> u32 \<Rightarrow> u32" where "ripemd_f5 x y z = x XOR (y OR NOT z)"

definition ripemd_rol :: "u32 \<Rightarrow> nat \<Rightarrow> u32" where "ripemd_rol x i = push_bit i x OR drop_bit (32 - i) x"

text \<open>The ten macros \<open>R11\<close> to \<open>R52\<close>: the second digit is the line (left 1, right 2).\<close>

datatype ripemd_fun = R11 | R21 | R31 | R41 | R51 | R12 | R22 | R32 | R42 | R52

fun ripemd_apply :: "ripemd_fun \<Rightarrow> u32 \<Rightarrow> u32 \<Rightarrow> u32 \<Rightarrow> u32" where
  "ripemd_apply R11 = ripemd_f1" | "ripemd_apply R21 = ripemd_f2" | "ripemd_apply R31 = ripemd_f3"
| "ripemd_apply R41 = ripemd_f4" | "ripemd_apply R51 = ripemd_f5"
| "ripemd_apply R12 = ripemd_f5" | "ripemd_apply R22 = ripemd_f4" | "ripemd_apply R32 = ripemd_f3"
| "ripemd_apply R42 = ripemd_f2" | "ripemd_apply R52 = ripemd_f1"

fun ripemd_k :: "ripemd_fun \<Rightarrow> u32" where
  "ripemd_k R11 = 0" | "ripemd_k R21 = 0x5A827999" | "ripemd_k R31 = 0x6ED9EBA1"
| "ripemd_k R41 = 0x8F1BBCDC" | "ripemd_k R51 = 0xA953FD4E"
| "ripemd_k R12 = 0x50A28BE6" | "ripemd_k R22 = 0x5C4DD124" | "ripemd_k R32 = 0x6D703EF3"
| "ripemd_k R42 = 0x7A6D76E9" | "ripemd_k R52 = 0"

fun ripemd_right :: "ripemd_fun \<Rightarrow> bool" where
  "ripemd_right R12 = True" | "ripemd_right R22 = True" | "ripemd_right R32 = True"
| "ripemd_right R42 = True" | "ripemd_right R52 = True"
| "ripemd_right m = False"

text \<open>A row: the macro, its registers, the message word and the rotation.\<close>

type_synonym ripemd_row = "ripemd_fun \<times> nat list \<times> nat \<times> nat"

definition ripemd_Round :: "nat list \<Rightarrow> u32 \<Rightarrow> u32 \<Rightarrow> u32 \<Rightarrow> nat \<Rightarrow> u32 list \<Rightarrow> u32 list" where
  "ripemd_Round r f x k rot v =
     (let a = v ! (r ! 0); c = v ! (r ! 2); e = v ! (r ! 4)
      in v[r ! 0 := ripemd_rol (a + f + x + k) rot + e, r ! 2 := ripemd_rol c 10])"

definition ripemd_macro :: "u32 list \<Rightarrow> ripemd_row \<Rightarrow> u32 list \<Rightarrow> u32 list" where
  "ripemd_macro w row v =
     (case row of (m, r, i, rot) \<Rightarrow>
        ripemd_Round r (ripemd_apply m (v ! (r ! 1)) (v ! (r ! 2)) (v ! (r ! 3))) (w ! i) (ripemd_k m) rot v)"

text \<open>The state of the loop: the registers of the left and of the right line.\<close>

definition ripemd_line :: "u32 list \<Rightarrow> ripemd_row \<Rightarrow> u32 list \<times> u32 list \<Rightarrow> u32 list \<times> u32 list" where
  "ripemd_line w row st =
     (if ripemd_right (fst row) then (fst st, ripemd_macro w row (snd st))
      else (ripemd_macro w row (fst st), snd st))"

definition ripemd160_rows :: "ripemd_row list" where
  "ripemd160_rows = [
      (R11, [0, 1, 2, 3, 4], 0, 11), (R12, [0, 1, 2, 3, 4], 5, 8), (R11, [4, 0, 1, 2, 3], 1, 14),
      (R12, [4, 0, 1, 2, 3], 14, 9), (R11, [3, 4, 0, 1, 2], 2, 15), (R12, [3, 4, 0, 1, 2], 7, 9),
      (R11, [2, 3, 4, 0, 1], 3, 12), (R12, [2, 3, 4, 0, 1], 0, 11), (R11, [1, 2, 3, 4, 0], 4, 5),
      (R12, [1, 2, 3, 4, 0], 9, 13), (R11, [0, 1, 2, 3, 4], 5, 8), (R12, [0, 1, 2, 3, 4], 2, 15),
      (R11, [4, 0, 1, 2, 3], 6, 7), (R12, [4, 0, 1, 2, 3], 11, 15), (R11, [3, 4, 0, 1, 2], 7, 9),
      (R12, [3, 4, 0, 1, 2], 4, 5), (R11, [2, 3, 4, 0, 1], 8, 11), (R12, [2, 3, 4, 0, 1], 13, 7),
      (R11, [1, 2, 3, 4, 0], 9, 13), (R12, [1, 2, 3, 4, 0], 6, 7), (R11, [0, 1, 2, 3, 4], 10, 14),
      (R12, [0, 1, 2, 3, 4], 15, 8), (R11, [4, 0, 1, 2, 3], 11, 15), (R12, [4, 0, 1, 2, 3], 8, 11),
      (R11, [3, 4, 0, 1, 2], 12, 6), (R12, [3, 4, 0, 1, 2], 1, 14), (R11, [2, 3, 4, 0, 1], 13, 7),
      (R12, [2, 3, 4, 0, 1], 10, 14), (R11, [1, 2, 3, 4, 0], 14, 9), (R12, [1, 2, 3, 4, 0], 3, 12),
      (R11, [0, 1, 2, 3, 4], 15, 8), (R12, [0, 1, 2, 3, 4], 12, 6), (R21, [4, 0, 1, 2, 3], 7, 7),
      (R22, [4, 0, 1, 2, 3], 6, 9), (R21, [3, 4, 0, 1, 2], 4, 6), (R22, [3, 4, 0, 1, 2], 11, 13),
      (R21, [2, 3, 4, 0, 1], 13, 8), (R22, [2, 3, 4, 0, 1], 3, 15), (R21, [1, 2, 3, 4, 0], 1, 13),
      (R22, [1, 2, 3, 4, 0], 7, 7), (R21, [0, 1, 2, 3, 4], 10, 11), (R22, [0, 1, 2, 3, 4], 0, 12),
      (R21, [4, 0, 1, 2, 3], 6, 9), (R22, [4, 0, 1, 2, 3], 13, 8), (R21, [3, 4, 0, 1, 2], 15, 7),
      (R22, [3, 4, 0, 1, 2], 5, 9), (R21, [2, 3, 4, 0, 1], 3, 15), (R22, [2, 3, 4, 0, 1], 10, 11),
      (R21, [1, 2, 3, 4, 0], 12, 7), (R22, [1, 2, 3, 4, 0], 14, 7), (R21, [0, 1, 2, 3, 4], 0, 12),
      (R22, [0, 1, 2, 3, 4], 15, 7), (R21, [4, 0, 1, 2, 3], 9, 15), (R22, [4, 0, 1, 2, 3], 8, 12),
      (R21, [3, 4, 0, 1, 2], 5, 9), (R22, [3, 4, 0, 1, 2], 12, 7), (R21, [2, 3, 4, 0, 1], 2, 11),
      (R22, [2, 3, 4, 0, 1], 4, 6), (R21, [1, 2, 3, 4, 0], 14, 7), (R22, [1, 2, 3, 4, 0], 9, 15),
      (R21, [0, 1, 2, 3, 4], 11, 13), (R22, [0, 1, 2, 3, 4], 1, 13), (R21, [4, 0, 1, 2, 3], 8, 12),
      (R22, [4, 0, 1, 2, 3], 2, 11), (R31, [3, 4, 0, 1, 2], 3, 11), (R32, [3, 4, 0, 1, 2], 15, 9),
      (R31, [2, 3, 4, 0, 1], 10, 13), (R32, [2, 3, 4, 0, 1], 5, 7), (R31, [1, 2, 3, 4, 0], 14, 6),
      (R32, [1, 2, 3, 4, 0], 1, 15), (R31, [0, 1, 2, 3, 4], 4, 7), (R32, [0, 1, 2, 3, 4], 3, 11),
      (R31, [4, 0, 1, 2, 3], 9, 14), (R32, [4, 0, 1, 2, 3], 7, 8), (R31, [3, 4, 0, 1, 2], 15, 9),
      (R32, [3, 4, 0, 1, 2], 14, 6), (R31, [2, 3, 4, 0, 1], 8, 13), (R32, [2, 3, 4, 0, 1], 6, 6),
      (R31, [1, 2, 3, 4, 0], 1, 15), (R32, [1, 2, 3, 4, 0], 9, 14), (R31, [0, 1, 2, 3, 4], 2, 14),
      (R32, [0, 1, 2, 3, 4], 11, 12), (R31, [4, 0, 1, 2, 3], 7, 8), (R32, [4, 0, 1, 2, 3], 8, 13),
      (R31, [3, 4, 0, 1, 2], 0, 13), (R32, [3, 4, 0, 1, 2], 12, 5), (R31, [2, 3, 4, 0, 1], 6, 6),
      (R32, [2, 3, 4, 0, 1], 2, 14), (R31, [1, 2, 3, 4, 0], 13, 5), (R32, [1, 2, 3, 4, 0], 10, 13),
      (R31, [0, 1, 2, 3, 4], 11, 12), (R32, [0, 1, 2, 3, 4], 0, 13), (R31, [4, 0, 1, 2, 3], 5, 7),
      (R32, [4, 0, 1, 2, 3], 4, 7), (R31, [3, 4, 0, 1, 2], 12, 5), (R32, [3, 4, 0, 1, 2], 13, 5),
      (R41, [2, 3, 4, 0, 1], 1, 11), (R42, [2, 3, 4, 0, 1], 8, 15), (R41, [1, 2, 3, 4, 0], 9, 12),
      (R42, [1, 2, 3, 4, 0], 6, 5), (R41, [0, 1, 2, 3, 4], 11, 14), (R42, [0, 1, 2, 3, 4], 4, 8),
      (R41, [4, 0, 1, 2, 3], 10, 15), (R42, [4, 0, 1, 2, 3], 1, 11), (R41, [3, 4, 0, 1, 2], 0, 14),
      (R42, [3, 4, 0, 1, 2], 3, 14), (R41, [2, 3, 4, 0, 1], 8, 15), (R42, [2, 3, 4, 0, 1], 11, 14),
      (R41, [1, 2, 3, 4, 0], 12, 9), (R42, [1, 2, 3, 4, 0], 15, 6), (R41, [0, 1, 2, 3, 4], 4, 8),
      (R42, [0, 1, 2, 3, 4], 0, 14), (R41, [4, 0, 1, 2, 3], 13, 9), (R42, [4, 0, 1, 2, 3], 5, 6),
      (R41, [3, 4, 0, 1, 2], 3, 14), (R42, [3, 4, 0, 1, 2], 12, 9), (R41, [2, 3, 4, 0, 1], 7, 5),
      (R42, [2, 3, 4, 0, 1], 2, 12), (R41, [1, 2, 3, 4, 0], 15, 6), (R42, [1, 2, 3, 4, 0], 13, 9),
      (R41, [0, 1, 2, 3, 4], 14, 8), (R42, [0, 1, 2, 3, 4], 9, 12), (R41, [4, 0, 1, 2, 3], 5, 6),
      (R42, [4, 0, 1, 2, 3], 7, 5), (R41, [3, 4, 0, 1, 2], 6, 5), (R42, [3, 4, 0, 1, 2], 10, 15),
      (R41, [2, 3, 4, 0, 1], 2, 12), (R42, [2, 3, 4, 0, 1], 14, 8), (R51, [1, 2, 3, 4, 0], 4, 9),
      (R52, [1, 2, 3, 4, 0], 12, 8), (R51, [0, 1, 2, 3, 4], 0, 15), (R52, [0, 1, 2, 3, 4], 15, 5),
      (R51, [4, 0, 1, 2, 3], 5, 5), (R52, [4, 0, 1, 2, 3], 10, 12), (R51, [3, 4, 0, 1, 2], 9, 11),
      (R52, [3, 4, 0, 1, 2], 4, 9), (R51, [2, 3, 4, 0, 1], 7, 6), (R52, [2, 3, 4, 0, 1], 1, 12),
      (R51, [1, 2, 3, 4, 0], 12, 8), (R52, [1, 2, 3, 4, 0], 5, 5), (R51, [0, 1, 2, 3, 4], 2, 13),
      (R52, [0, 1, 2, 3, 4], 8, 14), (R51, [4, 0, 1, 2, 3], 10, 12), (R52, [4, 0, 1, 2, 3], 7, 6),
      (R51, [3, 4, 0, 1, 2], 14, 5), (R52, [3, 4, 0, 1, 2], 6, 8), (R51, [2, 3, 4, 0, 1], 1, 12),
      (R52, [2, 3, 4, 0, 1], 2, 13), (R51, [1, 2, 3, 4, 0], 3, 13), (R52, [1, 2, 3, 4, 0], 13, 6),
      (R51, [0, 1, 2, 3, 4], 8, 14), (R52, [0, 1, 2, 3, 4], 14, 5), (R51, [4, 0, 1, 2, 3], 11, 11),
      (R52, [4, 0, 1, 2, 3], 0, 15), (R51, [3, 4, 0, 1, 2], 6, 8), (R52, [3, 4, 0, 1, 2], 3, 13),
      (R51, [2, 3, 4, 0, 1], 15, 5), (R52, [2, 3, 4, 0, 1], 9, 11), (R51, [1, 2, 3, 4, 0], 13, 6),
      (R52, [1, 2, 3, 4, 0], 11, 11)]"

definition ripemd160_Initialize :: "u32 list" where
  "ripemd160_Initialize = [0x67452301, 0xEFCDAB89, 0x98BADCFE, 0x10325476, 0xC3D2E1F0]"

definition ripemd160_Transform :: "u32 list \<Rightarrow> byte list \<Rightarrow> u32 list" where
  "ripemd160_Transform s chunk =
     (let w = map (\<lambda>i. ReadLE32 (drop (4 * i) chunk)) [0..<16];
          (l, r) = fold (ripemd_line w) ripemd160_rows (s, s);
          t = s ! 0
      in [s ! 1 + l ! 2 + r ! 3, s ! 2 + l ! 3 + r ! 4, s ! 3 + l ! 4 + r ! 0, s ! 4 + l ! 0 + r ! 1,
          t + l ! 1 + r ! 2])"

type_synonym CRIPEMD160 = "u32 list hasher"

definition CRIPEMD160_new :: "byte list \<Rightarrow> CRIPEMD160" where
  "CRIPEMD160_new junk = hasher_new ripemd160_Initialize junk"

definition CRIPEMD160_Write :: "CRIPEMD160 \<Rightarrow> byte list \<Rightarrow> CRIPEMD160" where
  "CRIPEMD160_Write h data = hasher_write 64 ripemd160_Transform h data"

definition CRIPEMD160_Finalize :: "CRIPEMD160 \<Rightarrow> CRIPEMD160 \<times> byte list" where
  "CRIPEMD160_Finalize h =
     (let sizedesc = WriteLE64 (push_bit 3 (hbytes h));
          h1 = CRIPEMD160_Write h (0x80 # replicate ((119 - unat (hbytes h) mod 64) mod 64) 0);
          h2 = CRIPEMD160_Write h1 sizedesc
      in (h2, concat (map (\<lambda>i. WriteLE32 (hs h2 ! i)) [0..<5])))"

definition CRIPEMD160_Reset :: "CRIPEMD160 \<Rightarrow> CRIPEMD160" where
  "CRIPEMD160_Reset h = hasher_reset ripemd160_Initialize h"

section \<open>Streaming\<close>

interpretation sha1_stream: block_hash 64 sha1_Transform sha1_Initialize
  by unfold_locales simp_all

interpretation ripemd_stream: block_hash 64 ripemd160_Transform ripemd160_Initialize
  by unfold_locales simp_all

text \<open>The digest of a whole message: padding to full blocks with a length field, then compression.\<close>

definition md_pad :: "(u64 \<Rightarrow> byte list) \<Rightarrow> byte list \<Rightarrow> byte list" where
  "md_pad enc m = m @ 0x80 # replicate ((119 - length m mod 64) mod 64) 0 @ enc (of_nat (8 * length m))"

definition sha1_digest :: "byte list \<Rightarrow> byte list" where
  "sha1_digest m = (let s = foldl sha1_Transform sha1_Initialize (blocks 64 (md_pad WriteBE64 m))
     in concat (map (\<lambda>i. WriteBE32 (s ! i)) [0..<5]))"

definition ripemd160_digest :: "byte list \<Rightarrow> byte list" where
  "ripemd160_digest m = (let s = foldl ripemd160_Transform ripemd160_Initialize (blocks 64 (md_pad WriteLE64 m))
     in concat (map (\<lambda>i. WriteLE32 (s ! i)) [0..<5]))"

lemma md_pad_exact: "length (enc (of_nat (8 * length m))) = 8 \<Longrightarrow> length (md_pad enc m) mod 64 = 0"
proof -
  assume enc: "length (enc (of_nat (8 * length m))) = 8"
  define q where "q = length m div 64"
  define r where "r = length m mod 64"
  have l: "length m = 64 * q + r" "r < 64" by (simp_all add: q_def r_def)
  have "length (md_pad enc m) = 64 * q + (r + 9 + (119 - r) mod 64)"
    using enc l by (simp add: md_pad_def)
  moreover have "(r + 9 + (119 - r) mod 64) mod 64 = 0"
  proof (cases "r \<le> 55")
    case True
    then have "(119 - r) mod 64 = 55 - r" by (simp add: mod_if)
    then show ?thesis using True by simp
  next
    case False
    then have "(119 - r) mod 64 = 119 - r" using l(2) by simp
    then show ?thesis using l(2) by simp
  qed
  ultimately show ?thesis by (metis mod_mult_self4)
qed

lemma push_bit_3_counter: "push_bit 3 (of_nat n :: u64) = of_nat (8 * n)"
  by (simp add: push_bit_eq_mult)

lemma CSHA1_Finalize_absorbed:
  assumes "sha1_stream.absorbed h m"
  shows "snd (CSHA1_Finalize h) = sha1_digest m"
proof -
  let ?pad = "0x80 # replicate ((119 - unat (hbytes h) mod 64) mod 64) 0"
  have bytes: "hbytes h = of_nat (length m)" using assms by (rule sha1_stream.absorbed_bytes)
  have pad: "?pad = 0x80 # replicate ((119 - length m mod 64) mod 64) 0"
    by (simp add: bytes sha1_stream.position)
  have "sha1_stream.absorbed (CSHA1_Write (CSHA1_Write h ?pad) (WriteBE64 (push_bit 3 (hbytes h)))) (md_pad WriteBE64 m)"
    using sha1_stream.absorbed_write [OF sha1_stream.absorbed_write [OF assms], of ?pad "WriteBE64 (push_bit 3 (hbytes h))"]
    unfolding CSHA1_Write_def md_pad_def pad unfolding bytes push_bit_3_counter by simp
  then show ?thesis by (simp add: sha1_stream.absorbed_def CSHA1_Finalize_def Let_def sha1_digest_def)
qed

lemma CRIPEMD160_Finalize_absorbed:
  assumes "ripemd_stream.absorbed h m"
  shows "snd (CRIPEMD160_Finalize h) = ripemd160_digest m"
proof -
  let ?pad = "0x80 # replicate ((119 - unat (hbytes h) mod 64) mod 64) 0"
  have bytes: "hbytes h = of_nat (length m)" using assms by (rule ripemd_stream.absorbed_bytes)
  have pad: "?pad = 0x80 # replicate ((119 - length m mod 64) mod 64) 0"
    by (simp add: bytes ripemd_stream.position)
  have "ripemd_stream.absorbed (CRIPEMD160_Write (CRIPEMD160_Write h ?pad) (WriteLE64 (push_bit 3 (hbytes h)))) (md_pad WriteLE64 m)"
    using ripemd_stream.absorbed_write [OF ripemd_stream.absorbed_write [OF assms], of ?pad "WriteLE64 (push_bit 3 (hbytes h))"]
    unfolding CRIPEMD160_Write_def md_pad_def pad unfolding bytes push_bit_3_counter by simp
  then show ?thesis by (simp add: ripemd_stream.absorbed_def CRIPEMD160_Finalize_def Let_def ripemd160_digest_def)
qed

lemma CSHA1_absorbs:
  "length junk = 64 \<Longrightarrow> sha1_stream.absorbed (foldl CSHA1_Write (CSHA1_new junk) pieces) (concat pieces)"
proof -
  assume "length junk = 64"
  then show ?thesis
    using sha1_stream.absorbed_foldl [OF sha1_stream.absorbed_new, of junk pieces]
    by (simp add: CSHA1_new_def fun_eq_iff CSHA1_Write_def [abs_def])
qed

lemma CRIPEMD160_absorbs:
  "length junk = 64 \<Longrightarrow> ripemd_stream.absorbed (foldl CRIPEMD160_Write (CRIPEMD160_new junk) pieces) (concat pieces)"
proof -
  assume "length junk = 64"
  then show ?thesis
    using ripemd_stream.absorbed_foldl [OF ripemd_stream.absorbed_new, of junk pieces]
    by (simp add: CRIPEMD160_new_def CRIPEMD160_Write_def [abs_def])
qed

section \<open>Properties\<close>

text \<open>
  Writing a message to a SHA-1 or a RIPEMD-160 object in any pieces and finalising it gives the
  digest of the concatenation: the compression of the padded message, block by block.
\<close>

theorem legacy_hashes_concat:
  assumes "length junk = 64"
  shows "snd (CSHA1_Finalize (foldl CSHA1_Write (CSHA1_new junk) pieces)) = sha1_digest (concat pieces) \<and>
    snd (CRIPEMD160_Finalize (foldl CRIPEMD160_Write (CRIPEMD160_new junk) pieces)) = ripemd160_digest (concat pieces)"
  using CSHA1_absorbs [OF assms] CRIPEMD160_absorbs [OF assms] CSHA1_Finalize_absorbed CRIPEMD160_Finalize_absorbed
  by blast

theorem legacy_hashes_concat_witness:
  "snd (CSHA1_Finalize (foldl CSHA1_Write (CSHA1_new (replicate 64 1)) [replicate 70 2, [3]])) = sha1_digest (replicate 70 2 @ [3])"
  using legacy_hashes_concat [of "replicate 64 1" "[replicate 70 2, [3]]"] by simp

end
