(* ===== verification/HashUtil.thy ===== *)
theory HashUtil
  imports Sha2 LegacyHash Uint256 "HOL-Library.Monad_Syntax"
begin

unbundle bit_operations_syntax

text \<open>
  Hash functions built from the basic ones: HMAC (\<open>src/src/crypto/hmac_sha256.cpp\<close>,
  \<open>hmac_sha512.cpp\<close>), the double hashes of \<open>src/src/hash.h\<close>, and MurmurHash3, the BIP32 hash and
  SipHash of \<open>src/src/hash.cpp\<close>.  Buffers that the C++ code leaves uninitialised are arguments
  (\<open>junk\<close>).
\<close>

section \<open>HMAC\<close>

record CHMAC_SHA256 =
  outer256 :: CSHA256
  inner256 :: CSHA256

definition CHMAC_SHA256_new :: "byte list \<Rightarrow> byte list \<Rightarrow> CHMAC_SHA256" where
  "CHMAC_SHA256_new junk key =
     (let rkey = (if length key \<le> 64 then key @ replicate (64 - length key) 0
                  else snd (CSHA256_Finalize (CSHA256_Write (CSHA256_new junk) key)) @ replicate 32 0);
          rkey1 = map (\<lambda>b. b XOR 0x5c) rkey;
          outer = CSHA256_Write (CSHA256_new junk) rkey1;
          rkey2 = map (\<lambda>b. b XOR (0x5c XOR 0x36)) rkey1;
          inner = CSHA256_Write (CSHA256_new junk) rkey2
      in \<lparr>outer256 = outer, inner256 = inner\<rparr>)"

definition CHMAC_SHA256_Write :: "CHMAC_SHA256 \<Rightarrow> byte list \<Rightarrow> CHMAC_SHA256" where
  "CHMAC_SHA256_Write h data = h\<lparr>inner256 := CSHA256_Write (inner256 h) data\<rparr>"

definition CHMAC_SHA256_Finalize :: "CHMAC_SHA256 \<Rightarrow> CHMAC_SHA256 \<times> byte list" where
  "CHMAC_SHA256_Finalize h =
     (let (inner', temp) = CSHA256_Finalize (inner256 h);
          (outer', hash) = CSHA256_Finalize (CSHA256_Write (outer256 h) temp)
      in (\<lparr>outer256 = outer', inner256 = inner'\<rparr>, hash))"

record CHMAC_SHA512 =
  outer512 :: CSHA512
  inner512 :: CSHA512

definition CHMAC_SHA512_new :: "byte list \<Rightarrow> byte list \<Rightarrow> CHMAC_SHA512" where
  "CHMAC_SHA512_new junk key =
     (let rkey = (if length key \<le> 128 then key @ replicate (128 - length key) 0
                  else snd (CSHA512_Finalize (CSHA512_Write (CSHA512_new junk) key)) @ replicate 64 0);
          rkey1 = map (\<lambda>b. b XOR 0x5c) rkey;
          outer = CSHA512_Write (CSHA512_new junk) rkey1;
          rkey2 = map (\<lambda>b. b XOR (0x5c XOR 0x36)) rkey1;
          inner = CSHA512_Write (CSHA512_new junk) rkey2
      in \<lparr>outer512 = outer, inner512 = inner\<rparr>)"

definition CHMAC_SHA512_Write :: "CHMAC_SHA512 \<Rightarrow> byte list \<Rightarrow> CHMAC_SHA512" where
  "CHMAC_SHA512_Write h data = h\<lparr>inner512 := CSHA512_Write (inner512 h) data\<rparr>"

definition CHMAC_SHA512_Finalize :: "CHMAC_SHA512 \<Rightarrow> CHMAC_SHA512 \<times> byte list" where
  "CHMAC_SHA512_Finalize h =
     (let (inner', temp) = CSHA512_Finalize (inner512 h);
          (outer', hash) = CSHA512_Finalize (CSHA512_Write (outer512 h) temp)
      in (\<lparr>outer512 = outer', inner512 = inner'\<rparr>, hash))"

definition BIP32Hash :: "byte list \<Rightarrow> byte list \<Rightarrow> u32 \<Rightarrow> byte \<Rightarrow> byte list \<Rightarrow> byte list" where
  "BIP32Hash junk chainCode nChild header data =
     (let num = [ucast (drop_bit 24 nChild AND 0xFF), ucast (drop_bit 16 nChild AND 0xFF),
                 ucast (drop_bit 8 nChild AND 0xFF), ucast (drop_bit 0 nChild AND 0xFF)]
      in snd (CHMAC_SHA512_Finalize (CHMAC_SHA512_Write (CHMAC_SHA512_Write
           (CHMAC_SHA512_Write (CHMAC_SHA512_new junk chainCode) [header]) data) num)))"

section \<open>Double hashes\<close>

text \<open>\<open>CHash256\<close> wraps a \<open>CSHA256\<close>; its \<open>Write\<close> and \<open>Reset\<close> are those of the wrapped object.\<close>

definition CHash256_Finalize :: "CSHA256 \<Rightarrow> CSHA256 \<times> byte list" where
  "CHash256_Finalize sha =
     (let (sha1, buf) = CSHA256_Finalize sha
      in CSHA256_Finalize (CSHA256_Write (CSHA256_Reset sha1) buf))"

definition CHash512_Finalize :: "CSHA512 \<Rightarrow> CSHA512 \<times> byte list" where
  "CHash512_Finalize sha =
     (let (sha1, buf) = CSHA512_Finalize sha
      in CSHA512_Finalize (CSHA512_Write (CSHA512_Reset sha1) buf))"

definition CHash160_Finalize :: "byte list \<Rightarrow> CSHA256 \<Rightarrow> CSHA256 \<times> byte list" where
  "CHash160_Finalize junk sha =
     (let (sha1, buf) = CSHA256_Finalize sha
      in (sha1, snd (CRIPEMD160_Finalize (CRIPEMD160_Write (CRIPEMD160_new junk) buf))))"

text \<open>The \<open>Hash\<close> templates write their ranges one after the other.\<close>

definition Hash :: "byte list \<Rightarrow> byte list list \<Rightarrow> byte list" where
  "Hash junk ranges = snd (CHash256_Finalize (foldl CSHA256_Write (CSHA256_new junk) ranges))"

definition Hash160 :: "byte list \<Rightarrow> byte list \<Rightarrow> byte list" where
  "Hash160 junk rng = snd (CHash160_Finalize junk (CSHA256_Write (CSHA256_new junk) rng))"

section \<open>MurmurHash3\<close>

definition ROTL32 :: "u32 \<Rightarrow> nat \<Rightarrow> u32" where
  "ROTL32 x r = push_bit r x OR drop_bit (32 - r) x"

definition murmur_k1 :: "u32 \<Rightarrow> u32" where
  "murmur_k1 k1 = ROTL32 (k1 * 0xcc9e2d51) 15 * 0x1b873593"

fun murmur_body :: "nat \<Rightarrow> u32 \<Rightarrow> byte list \<Rightarrow> u32" where
  "murmur_body 0 h1 p = h1"
| "murmur_body (Suc n) h1 p =
     murmur_body n (ROTL32 (h1 XOR murmur_k1 (ReadLE32 p)) 13 * 5 + 0xe6546b64) (drop 4 p)"

text \<open>The fall-through switch over the last one to three bytes.\<close>

definition murmur_tail :: "u32 \<Rightarrow> byte list \<Rightarrow> u32" where
  "murmur_tail h1 rest =
     (let k = (if length rest \<ge> 3 then push_bit 16 (ucast (rest ! 2)) else 0);
          k' = (if length rest \<ge> 2 then k XOR push_bit 8 (ucast (rest ! 1)) else k)
      in if length rest \<ge> 1 then h1 XOR murmur_k1 (k' XOR ucast (rest ! 0)) else h1)"

definition MurmurHash3 :: "u32 \<Rightarrow> byte list \<Rightarrow> u32" where
  "MurmurHash3 nHashSeed v =
     (let nblocks = length v div 4;
          h = (if length v > 0
               then murmur_tail (murmur_body nblocks nHashSeed v) (drop (nblocks * 4) v) else nHashSeed);
          h1 = h XOR of_nat (length v);
          h2 = (h1 XOR drop_bit 16 h1) * 0x85ebca6b;
          h3 = (h2 XOR drop_bit 13 h2) * 0xc2b2ae35
      in h3 XOR drop_bit 16 h3)"

section \<open>SipHash-2-4\<close>

definition ROTL64 :: "u64 \<Rightarrow> nat \<Rightarrow> u64" where
  "ROTL64 x b = push_bit b x OR drop_bit (64 - b) x"

type_synonym sip_state = "u64 \<times> u64 \<times> u64 \<times> u64"

fun SIPROUND :: "sip_state \<Rightarrow> sip_state" where
  "SIPROUND (v0, v1, v2, v3) =
     (let v0 = v0 + v1; v1 = ROTL64 v1 13; v1 = v1 XOR v0;
          v0 = ROTL64 v0 32;
          v2 = v2 + v3; v3 = ROTL64 v3 16; v3 = v3 XOR v2;
          v0 = v0 + v3; v3 = ROTL64 v3 21; v3 = v3 XOR v0;
          v2 = v2 + v1; v1 = ROTL64 v1 17; v1 = v1 XOR v2;
          v2 = ROTL64 v2 32
      in (v0, v1, v2, v3))"

declare SIPROUND.simps [simp del]

record CSipHasher =
  sip_v :: sip_state
  sip_tmp :: u64
  sip_count :: int

definition CSipHasher_new :: "u64 \<Rightarrow> u64 \<Rightarrow> CSipHasher" where
  "CSipHasher_new k0 k1 = \<lparr>sip_v = (0x736f6d6570736575 XOR k0, 0x646f72616e646f6d XOR k1,
     0x6c7967656e657261 XOR k0, 0x7465646279746573 XOR k1), sip_tmp = 0, sip_count = 0\<rparr>"

text \<open>\<open>v3 ^= d; SIPROUND; SIPROUND; v0 ^= d\<close>, the step that the code repeats for every word.\<close>

definition sip_absorb :: "u64 \<Rightarrow> sip_state \<Rightarrow> sip_state" where
  "sip_absorb d v =
     (case v of (v0, v1, v2, v3) \<Rightarrow> case SIPROUND (SIPROUND (v0, v1, v2, v3 XOR d)) of (w0, w1, w2, w3) \<Rightarrow> (w0 XOR d, w1, w2, w3))"

definition sip_finish :: "sip_state \<Rightarrow> u64" where
  "sip_finish v =
     (case v of (v0, v1, v2, v3) \<Rightarrow> case SIPROUND (SIPROUND (SIPROUND (SIPROUND (v0, v1, v2 XOR 0xFF, v3)))) of (w0, w1, w2, w3) \<Rightarrow>
        w0 XOR w1 XOR w2 XOR w3)"

text \<open>\<open>None\<close> is the failed assertion that a multiple of eight bytes has been written.\<close>

definition CSipHasher_Write64 :: "CSipHasher \<Rightarrow> u64 \<Rightarrow> CSipHasher option" where
  "CSipHasher_Write64 h data =
     (if sip_count h smod 8 = 0
      then Some (h\<lparr>sip_v := sip_absorb data (sip_v h), sip_count := sip_count h + 8\<rparr>) else None)"

fun sip_write_loop :: "byte list \<Rightarrow> sip_state \<Rightarrow> u64 \<Rightarrow> int \<Rightarrow> sip_state \<times> u64 \<times> int" where
  "sip_write_loop [] v t c = (v, t, c)"
| "sip_write_loop (b # data) v t c =
     (let t = t OR push_bit (nat (8 * (c smod 8))) (ucast b); c = c + 1
      in if c AND 7 = 0 then sip_write_loop data (sip_absorb t v) 0 c else sip_write_loop data v t c)"

definition CSipHasher_Write :: "CSipHasher \<Rightarrow> byte list \<Rightarrow> CSipHasher" where
  "CSipHasher_Write h data =
     (case sip_write_loop data (sip_v h) (sip_tmp h) (sip_count h) of (v, t, c) \<Rightarrow>
        \<lparr>sip_v = v, sip_tmp = t, sip_count = c\<rparr>)"

definition CSipHasher_Finalize :: "CSipHasher \<Rightarrow> u64" where
  "CSipHasher_Finalize h =
     (let t = sip_tmp h OR push_bit 56 (word_of_int (sip_count h)) in sip_finish (sip_absorb t (sip_v h)))"

text \<open>The in-memory bytes of a number of 32-bit limbs, and the 64-bit words read from them.\<close>

definition uint_bytes :: "base_uint \<Rightarrow> byte list" where
  "uint_bytes x = concat (map WriteLE32 x)"

definition GetUint64 :: "base_uint \<Rightarrow> nat \<Rightarrow> u64" where
  "GetUint64 x pos =
     (let p = drop (pos * 8) (uint_bytes x)
      in ucast (p ! 0) OR push_bit 8 (ucast (p ! 1)) OR push_bit 16 (ucast (p ! 2)) OR push_bit 24 (ucast (p ! 3))
         OR push_bit 32 (ucast (p ! 4)) OR push_bit 40 (ucast (p ! 5)) OR push_bit 48 (ucast (p ! 6))
         OR push_bit 56 (ucast (p ! 7)))"

text \<open>
  The specialised functions keep the state in variables: the first word is folded into \<open>v3\<close> at
  initialisation and the last step uses \<open>(4 << 59)\<close> as the length word.
\<close>

definition SipHashUint256 :: "u64 \<Rightarrow> u64 \<Rightarrow> base_uint \<Rightarrow> u64" where
  "SipHashUint256 k0 k1 val =
     (let d = GetUint64 val 0;
          (v0, v1, v2, v3) = SIPROUND (SIPROUND (0x736f6d6570736575 XOR k0, 0x646f72616e646f6d XOR k1,
            0x6c7967656e657261 XOR k0, 0x7465646279746573 XOR k1 XOR d));
          v0 = v0 XOR d;
          d = GetUint64 val 1; v3 = v3 XOR d;
          (v0, v1, v2, v3) = SIPROUND (SIPROUND (v0, v1, v2, v3)); v0 = v0 XOR d;
          d = GetUint64 val 2; v3 = v3 XOR d;
          (v0, v1, v2, v3) = SIPROUND (SIPROUND (v0, v1, v2, v3)); v0 = v0 XOR d;
          d = GetUint64 val 3; v3 = v3 XOR d;
          (v0, v1, v2, v3) = SIPROUND (SIPROUND (v0, v1, v2, v3)); v0 = v0 XOR d;
          v3 = v3 XOR push_bit 59 4;
          (v0, v1, v2, v3) = SIPROUND (SIPROUND (v0, v1, v2, v3)); v0 = v0 XOR push_bit 59 4;
          v2 = v2 XOR 0xFF;
          (v0, v1, v2, v3) = SIPROUND (SIPROUND (SIPROUND (SIPROUND (v0, v1, v2, v3))))
      in v0 XOR v1 XOR v2 XOR v3)"

definition SipHashUint256Extra :: "u64 \<Rightarrow> u64 \<Rightarrow> base_uint \<Rightarrow> u32 \<Rightarrow> u64" where
  "SipHashUint256Extra k0 k1 val extra =
     (let d = GetUint64 val 0;
          (v0, v1, v2, v3) = SIPROUND (SIPROUND (0x736f6d6570736575 XOR k0, 0x646f72616e646f6d XOR k1,
            0x6c7967656e657261 XOR k0, 0x7465646279746573 XOR k1 XOR d));
          v0 = v0 XOR d;
          d = GetUint64 val 1; v3 = v3 XOR d;
          (v0, v1, v2, v3) = SIPROUND (SIPROUND (v0, v1, v2, v3)); v0 = v0 XOR d;
          d = GetUint64 val 2; v3 = v3 XOR d;
          (v0, v1, v2, v3) = SIPROUND (SIPROUND (v0, v1, v2, v3)); v0 = v0 XOR d;
          d = GetUint64 val 3; v3 = v3 XOR d;
          (v0, v1, v2, v3) = SIPROUND (SIPROUND (v0, v1, v2, v3)); v0 = v0 XOR d;
          d = push_bit 56 36 OR ucast extra; v3 = v3 XOR d;
          (v0, v1, v2, v3) = SIPROUND (SIPROUND (v0, v1, v2, v3)); v0 = v0 XOR d;
          v2 = v2 XOR 0xFF;
          (v0, v1, v2, v3) = SIPROUND (SIPROUND (SIPROUND (SIPROUND (v0, v1, v2, v3))))
      in v0 XOR v1 XOR v2 XOR v3)"

section \<open>Keyed hashing\<close>

definition hmac_key :: "(byte list \<Rightarrow> byte list) \<Rightarrow> nat \<Rightarrow> nat \<Rightarrow> byte list \<Rightarrow> byte list" where
  "hmac_key H B n key = (if length key \<le> B then key @ replicate (B - length key) 0
     else H key @ replicate (B - n) 0)"

text \<open>RFC 2104.\<close>

definition hmac :: "(byte list \<Rightarrow> byte list) \<Rightarrow> nat \<Rightarrow> nat \<Rightarrow> byte list \<Rightarrow> byte list \<Rightarrow> byte list" where
  "hmac H B n key m =
     (let k = hmac_key H B n key
      in H (map (\<lambda>b. b XOR 0x5c) k @ H (map (\<lambda>b. b XOR 0x36) k @ m)))"

lemma xor_pads: "(b XOR 0x5c) XOR 0x6a = b XOR (0x36 :: byte)"
  by (simp add: xor.assoc)

lemma CSHA256_absorbs:
  "length junk = 64 \<Longrightarrow> sha256_stream.absorbed (CSHA256_Write (CSHA256_new junk) m) m"
  using CSHA256_absorbs_pieces [of junk "[m]"] by simp

lemma CSHA512_absorbs:
  "length junk = 128 \<Longrightarrow> sha512_stream.absorbed (CSHA512_Write (CSHA512_new junk) m) m"
  using CSHA512_absorbs_pieces [of junk "[m]"] by simp

lemma CSHA_absorb_more:
  "sha256_stream.absorbed h m \<Longrightarrow> sha256_stream.absorbed (CSHA256_Write h d) (m @ d)"
  "sha512_stream.absorbed g m \<Longrightarrow> sha512_stream.absorbed (CSHA512_Write g d) (m @ d)"
  by (simp_all add: CSHA256_Write_def CSHA512_Write_def sha256_stream.absorbed_write sha512_stream.absorbed_write)

lemma hmac256_pieces:
  "outer256 (foldl CHMAC_SHA256_Write h ds) = outer256 h"
  "sha256_stream.absorbed (inner256 h) m \<Longrightarrow>
   sha256_stream.absorbed (inner256 (foldl CHMAC_SHA256_Write h ds)) (m @ concat ds)"
proof (induction ds arbitrary: h m)
  case (Cons d ds)
  { case 1 show ?case using Cons.IH(1) by (simp add: CHMAC_SHA256_Write_def) }
  { case 2
    then have "sha256_stream.absorbed (inner256 (CHMAC_SHA256_Write h d)) (m @ d)"
      by (simp add: CHMAC_SHA256_Write_def CSHA_absorb_more)
    then show ?case using Cons.IH(2) [of "CHMAC_SHA256_Write h d" "m @ d"] by simp }
qed simp_all

lemma hmac512_pieces:
  "outer512 (foldl CHMAC_SHA512_Write h ds) = outer512 h"
  "sha512_stream.absorbed (inner512 h) m \<Longrightarrow>
   sha512_stream.absorbed (inner512 (foldl CHMAC_SHA512_Write h ds)) (m @ concat ds)"
proof (induction ds arbitrary: h m)
  case (Cons d ds)
  { case 1 show ?case using Cons.IH(1) by (simp add: CHMAC_SHA512_Write_def) }
  { case 2
    then have "sha512_stream.absorbed (inner512 (CHMAC_SHA512_Write h d)) (m @ d)"
      by (simp add: CHMAC_SHA512_Write_def CSHA_absorb_more)
    then show ?case using Cons.IH(2) [of "CHMAC_SHA512_Write h d" "m @ d"] by simp }
qed simp_all

lemma hmac256_new:
  assumes "length junk = 64"
  shows "sha256_stream.absorbed (outer256 (CHMAC_SHA256_new junk key)) (map (\<lambda>b. b XOR 0x5c) (hmac_key sha256 64 32 key))"
    and "sha256_stream.absorbed (inner256 (CHMAC_SHA256_new junk key)) (map (\<lambda>b. b XOR 0x36) (hmac_key sha256 64 32 key))"
proof -
  have k: "snd (CSHA256_Finalize (CSHA256_Write (CSHA256_new junk) key)) = sha256 key"
    by (rule CSHA256_Finalize_absorbed [OF CSHA256_absorbs [OF assms]])
  show "sha256_stream.absorbed (outer256 (CHMAC_SHA256_new junk key)) (map (\<lambda>b. b XOR 0x5c) (hmac_key sha256 64 32 key))"
    by (simp only: CHMAC_SHA256_new_def Let_def k CHMAC_SHA256.select_convs)
      (use CSHA256_absorbs [OF assms] in \<open>simp add: hmac_key_def\<close>)
  have inner: "inner256 (CHMAC_SHA256_new junk key) =
      CSHA256_Write (CSHA256_new junk) (map (\<lambda>b. b XOR 0x36) (hmac_key sha256 64 32 key))"
    unfolding CHMAC_SHA256_new_def Let_def k CHMAC_SHA256.select_convs map_map o_def
    by (simp add: hmac_key_def xor_pads)
  show "sha256_stream.absorbed (inner256 (CHMAC_SHA256_new junk key)) (map (\<lambda>b. b XOR 0x36) (hmac_key sha256 64 32 key))"
    unfolding inner by (rule CSHA256_absorbs [OF assms])
qed

lemma hmac512_new:
  assumes "length junk = 128"
  shows "sha512_stream.absorbed (outer512 (CHMAC_SHA512_new junk key)) (map (\<lambda>b. b XOR 0x5c) (hmac_key sha512 128 64 key))"
    and "sha512_stream.absorbed (inner512 (CHMAC_SHA512_new junk key)) (map (\<lambda>b. b XOR 0x36) (hmac_key sha512 128 64 key))"
proof -
  have k: "snd (CSHA512_Finalize (CSHA512_Write (CSHA512_new junk) key)) = sha512 key"
    by (rule CSHA512_Finalize_absorbed [OF CSHA512_absorbs [OF assms]])
  show "sha512_stream.absorbed (outer512 (CHMAC_SHA512_new junk key)) (map (\<lambda>b. b XOR 0x5c) (hmac_key sha512 128 64 key))"
    by (simp only: CHMAC_SHA512_new_def Let_def k CHMAC_SHA512.select_convs)
      (use CSHA512_absorbs [OF assms] in \<open>simp add: hmac_key_def\<close>)
  have inner: "inner512 (CHMAC_SHA512_new junk key) =
      CSHA512_Write (CSHA512_new junk) (map (\<lambda>b. b XOR 0x36) (hmac_key sha512 128 64 key))"
    unfolding CHMAC_SHA512_new_def Let_def k CHMAC_SHA512.select_convs map_map o_def
    by (simp add: hmac_key_def xor_pads)
  show "sha512_stream.absorbed (inner512 (CHMAC_SHA512_new junk key)) (map (\<lambda>b. b XOR 0x36) (hmac_key sha512 128 64 key))"
    unfolding inner by (rule CSHA512_absorbs [OF assms])
qed

lemma CSHA256_Finalize_fst:
  assumes "sha256_stream.absorbed h m"
  shows "\<exists>m'. sha256_stream.absorbed (fst (CSHA256_Finalize h)) m'"
  using CSHA_absorb_more(1) [OF CSHA_absorb_more(1) [OF assms]]
  by (auto simp: CSHA256_Finalize_def Let_def)

text \<open>The specialised function absorbs the same five words.\<close>

lemma SipHashUint256_absorbs:
  "SipHashUint256 k0 k1 val = sip_finish (sip_absorb (push_bit 59 4) (sip_absorb (GetUint64 val 3)
     (sip_absorb (GetUint64 val 2) (sip_absorb (GetUint64 val 1) (sip_absorb (GetUint64 val 0)
       (sip_v (CSipHasher_new k0 k1)))))))"
  unfolding SipHashUint256_def sip_finish_def sip_absorb_def CSipHasher_new_def Let_def
  by (simp only: CSipHasher.select_convs prod.case xor.assoc split: prod.split) simp

section \<open>Properties\<close>

text \<open>
  C30. The HMAC classes compute the HMAC of RFC 2104 over the concatenation of what was written, for
  keys of any length.
\<close>

theorem CHMAC_is_rfc2104:
  assumes "length junk = 64" and "length junk' = 128"
  shows "snd (CHMAC_SHA256_Finalize (foldl CHMAC_SHA256_Write (CHMAC_SHA256_new junk key) pieces))
      = hmac sha256 64 32 key (concat pieces) \<and>
    snd (CHMAC_SHA512_Finalize (foldl CHMAC_SHA512_Write (CHMAC_SHA512_new junk' key) pieces))
      = hmac sha512 128 64 key (concat pieces)"
proof
  show "snd (CHMAC_SHA256_Finalize (foldl CHMAC_SHA256_Write (CHMAC_SHA256_new junk key) pieces))
      = hmac sha256 64 32 key (concat pieces)"
    using hmac256_new [OF assms(1), of key] hmac256_pieces(1) [of "CHMAC_SHA256_new junk key" pieces]
      CSHA256_Finalize_absorbed [OF hmac256_pieces(2) [OF hmac256_new(2) [OF assms(1), of key], of pieces]]
      CSHA256_Finalize_absorbed [OF CSHA_absorb_more(1) [OF hmac256_new(1) [OF assms(1), of key]]]
    by (simp add: CHMAC_SHA256_Finalize_def split_beta Let_def hmac_def)
  show "snd (CHMAC_SHA512_Finalize (foldl CHMAC_SHA512_Write (CHMAC_SHA512_new junk' key) pieces))
      = hmac sha512 128 64 key (concat pieces)"
    using hmac512_new [OF assms(2), of key] hmac512_pieces(1) [of "CHMAC_SHA512_new junk' key" pieces]
      CSHA512_Finalize_absorbed [OF hmac512_pieces(2) [OF hmac512_new(2) [OF assms(2), of key], of pieces]]
      CSHA512_Finalize_absorbed [OF CSHA_absorb_more(2) [OF hmac512_new(1) [OF assms(2), of key]]]
    by (simp add: CHMAC_SHA512_Finalize_def split_beta Let_def hmac_def)
qed

theorem CHMAC_is_rfc2104_witness:
  "snd (CHMAC_SHA256_Finalize (foldl CHMAC_SHA256_Write (CHMAC_SHA256_new (replicate 64 0) [1, 2]) [[3], [4, 5]]))
     = hmac sha256 64 32 [1, 2] [3, 4, 5]"
  using CHMAC_is_rfc2104 [of "replicate 64 0" "replicate 128 0" "[1, 2]" "[[3], [4, 5]]"] by simp

text \<open>
  The \<open>Hash\<close> templates return the double SHA-256 of the concatenated ranges although they reuse
  one hasher object through \<open>Reset\<close>, and \<open>Hash160\<close> is RIPEMD-160 of SHA-256.
\<close>

theorem double_hash_correct:
  assumes "length junk = 64"
  shows "Hash junk ranges = sha256 (sha256 (concat ranges)) \<and>
    Hash160 junk rng = ripemd160_digest (sha256 rng)"
proof
  let ?h = "foldl CSHA256_Write (CSHA256_new junk) ranges"
  have h: "sha256_stream.absorbed ?h (concat ranges)" by (rule CSHA256_absorbs_pieces [OF assms])
  obtain m' where "sha256_stream.absorbed (fst (CSHA256_Finalize ?h)) m'"
    using CSHA256_Finalize_fst [OF h] by blast
  then have "sha256_stream.absorbed (CSHA256_Reset (fst (CSHA256_Finalize ?h))) []"
    unfolding CSHA256_Reset_def by (rule sha256_stream.absorbed_reset)
  from CSHA256_Finalize_absorbed [OF CSHA_absorb_more(1) [OF this, of "snd (CSHA256_Finalize ?h)"]]
  show "Hash junk ranges = sha256 (sha256 (concat ranges))"
    using CSHA256_Finalize_absorbed [OF h] by (simp add: Hash_def CHash256_Finalize_def split_beta)
  show "Hash160 junk rng = ripemd160_digest (sha256 rng)"
    using CSHA256_Finalize_absorbed [OF CSHA256_absorbs [OF assms, of rng]]
      CRIPEMD160_Finalize_absorbed [OF CRIPEMD160_absorbs [OF assms, of "[sha256 rng]"]]
    by (simp add: Hash160_def CHash160_Finalize_def split_beta)
qed

theorem double_hash_correct_witness:
  "Hash (replicate 64 9) [[1], [2]] = sha256 (sha256 [1, 2])"
  using double_hash_correct [of "replicate 64 9" "[[1], [2]]"] by simp

text \<open>
  The specialised \<open>SipHashUint256\<close> equals the general SipHash-2-4 object fed with the four 64-bit
  words of the number, as its comment promises, and the general object accepts them.
\<close>

theorem SipHashUint256_is_SipHash:
  "map_option CSipHasher_Finalize (do {
     h0 \<leftarrow> CSipHasher_Write64 (CSipHasher_new k0 k1) (GetUint64 val 0);
     h1 \<leftarrow> CSipHasher_Write64 h0 (GetUint64 val 1);
     h2 \<leftarrow> CSipHasher_Write64 h1 (GetUint64 val 2);
     CSipHasher_Write64 h2 (GetUint64 val 3) }) = Some (SipHashUint256 k0 k1 val)"
  unfolding SipHashUint256_absorbs
  by (simp add: CSipHasher_Write64_def CSipHasher_new_def CSipHasher_Finalize_def)

end
