(* ===== verification/Pow.thy ===== *)
theory Pow
  imports Chain
begin

unbundle bit_operations_syntax

text \<open>
  Difficulty: \<open>src/src/pow.cpp\<close>.  The network is a boolean \<open>fRegTest\<close> (\<open>Params().IsRegTestNet()\<close>) and
  the consensus parameters.  \<open>None\<close> is undefined behaviour (a null pointer read) or an uncaught
  exception (division by zero).  A signed 64-bit factor of \<open>operator*=\<close> selects the 32-bit overload, so
  it is truncated to 32 bits; a signed 64-bit divisor converts to an unsigned 64-bit number.
\<close>

section \<open>Operations\<close>

definition SetCompact_val :: "u32 \<Rightarrow> base_uint" where
  "SetCompact_val bits = fst (SetCompact bits)"

definition bu_div_int :: "base_uint \<Rightarrow> int \<Rightarrow> base_uint option" where
  "bu_div_int x d = bu_div x (base_uint_of_u64 8 (word_of_int d))"

text \<open>The proof-of-stake branch, from the parameters of the next block to the new compact target.\<close>

definition pos_spacing :: "Params \<Rightarrow> bool \<Rightarrow> int \<Rightarrow> int" where
  "pos_spacing consensus fTimeV2 spacing =
     (let s = (if spacing < 0 then 1 else spacing)
      in if fTimeV2 \<and> s > nTargetSpacing consensus * 10 then nTargetSpacing consensus * 10 else s)"

definition pos_retarget :: "Params \<Rightarrow> bool \<Rightarrow> bool \<Rightarrow> u32 \<Rightarrow> int \<Rightarrow> u32 option" where
  "pos_retarget consensus fTimeV2 fFirstV2 nBitsLast nActualSpacing = do {
     let bnTargetLimit = ProofOfStakeLimit consensus fTimeV2;
     let bnNew = SetCompact_val nBitsLast;
     let bnNew = (if fFirstV2 then bu_shl bnNew 4 else bnNew);
     let nInterval = TargetTimespan consensus fTimeV2 sdiv nTargetSpacing consensus;
     let bnNew = bu_mul32 bnNew (word_of_int
           ((nInterval - 1) * nTargetSpacing consensus + nActualSpacing + nActualSpacing));
     bnNew \<leftarrow> bu_div_int bnNew ((nInterval + 1) * nTargetSpacing consensus);
     let bnNew = (if bu_compare bnNew (base_uint_zero 8) \<le> 0 \<or> bu_compare bnNew bnTargetLimit > 0
                  then bnTargetLimit else bnNew);
     GetCompact False bnNew
   }"

text \<open>The loop of Dark Gravity Wave; \<open>n\<close> is the number of iterations the counter \<open>i\<close> still allows.\<close>

record dgw_state =
  dgw_avg :: base_uint
  dgw_avg_prev :: base_uint
  dgw_count :: int
  dgw_span :: int
  dgw_last :: int

definition dgw_step :: "dgw_state \<Rightarrow> CBlockIndex \<Rightarrow> dgw_state option" where
  "dgw_step st b = do {
     let CountBlocks = dgw_count st + 1;
     avg \<leftarrow> (if CountBlocks \<le> 24
            then (if CountBlocks = 1 then Some (SetCompact_val (nBits b))
                  else bu_div_int (bu_add (bu_mul32 (dgw_avg_prev st) (word_of_int CountBlocks))
                         (SetCompact_val (nBits b))) (CountBlocks + 1))
            else Some (dgw_avg st));
     let prev = (if CountBlocks \<le> 24 then avg else dgw_avg_prev st);
     let span = (if dgw_last st > 0 then dgw_span st + (dgw_last st - GetBlockTime b) else dgw_span st);
     Some \<lparr>dgw_avg = avg, dgw_avg_prev = prev, dgw_count = CountBlocks, dgw_span = span,
       dgw_last = GetBlockTime b\<rparr>
   }"

fun dgw_loop :: "index_store \<Rightarrow> nat \<Rightarrow> ptr option \<Rightarrow> dgw_state \<Rightarrow> dgw_state option" where
  "dgw_loop H n None st = Some st"
| "dgw_loop H n (Some p) st = do {
     b \<leftarrow> H p;
     if nHeight b > 0
     then (case n of 0 \<Rightarrow> Some st
           | Suc n' \<Rightarrow> do {
               st' \<leftarrow> dgw_step st b;
               (case pprev b of None \<Rightarrow> Some st' | Some q \<Rightarrow> dgw_loop H n' (Some q) st')
             })
     else Some st
   }"

definition dgw_start :: dgw_state where
  "dgw_start = \<lparr>dgw_avg = base_uint_zero 8, dgw_avg_prev = base_uint_zero 8, dgw_count = 0, dgw_span = 0, dgw_last = 0\<rparr>"

definition dgw_retarget :: "Params \<Rightarrow> dgw_state \<Rightarrow> u32 option" where
  "dgw_retarget consensus st = do {
     let timespan = dgw_count st * nTargetSpacing consensus;
     let actual = (if dgw_span st < timespan sdiv 3 then timespan sdiv 3 else dgw_span st);
     let actual = (if actual > timespan * 3 then timespan * 3 else actual);
     let bnNew = bu_mul32 (dgw_avg st) (word_of_int actual);
     bnNew \<leftarrow> bu_div_int bnNew timespan;
     let bnNew = (if bu_compare bnNew (powLimit consensus) > 0 then powLimit consensus else bnNew);
     GetCompact False bnNew
   }"

definition GetNextWorkRequired :: "Params \<Rightarrow> bool \<Rightarrow> index_store \<Rightarrow> ptr option \<Rightarrow> u32 option" where
  "GetNextWorkRequired consensus fRegTest H pindexLast =
     (if fRegTest then do { p \<leftarrow> pindexLast; b \<leftarrow> H p; Some (nBits b) }
      else case pindexLast of
        None \<Rightarrow> GetCompact False (powLimit consensus)
      | Some p \<Rightarrow> do {
          b \<leftarrow> H p;
          if nHeight b = 0 \<or> nHeight b < 24 then GetCompact False (powLimit consensus)
          else if NetworkUpgradeActive consensus (nHeight b + 1) UPGRADE_POS
          then do {
            let fTimeV2 = IsTimeProtocolV2 consensus (nHeight b + 1);
            spacing \<leftarrow> (if nHeight b \<noteq> 0
                        then do { q \<leftarrow> pprev b; c \<leftarrow> H q; Some (GetBlockTime b - GetBlockTime c) }
                        else Some 0);
            pos_retarget consensus fTimeV2 (fTimeV2 \<and> \<not> IsTimeProtocolV2 consensus (nHeight b)) (nBits b)
              (pos_spacing consensus fTimeV2 spacing)
          }
          else do {
            st \<leftarrow> dgw_loop H 24 (Some p) dgw_start;
            dgw_retarget consensus st
          }
        })"

definition CheckProofOfWork :: "Params \<Rightarrow> bool \<Rightarrow> base_uint \<Rightarrow> u32 \<Rightarrow> bool" where
  "CheckProofOfWork consensus fRegTest hash bits =
     (if fRegTest then True
      else let (bnTarget, fNegative, fOverflow) = SetCompact bits
           in if fNegative \<or> bu_is_null bnTarget \<or> fOverflow \<or> bu_compare bnTarget (powLimit consensus) > 0 then False
              else if bu_compare hash bnTarget > 0 then False
              else True)"

definition bu_one :: base_uint where
  "bu_one = base_uint_of_u64 8 1"

definition GetBlockProof :: "u32 \<Rightarrow> base_uint option" where
  "GetBlockProof bits =
     (let (bnTarget, fNegative, fOverflow) = SetCompact bits
      in if fNegative \<or> fOverflow \<or> bu_is_null bnTarget then Some (base_uint_zero 8)
         else do {
           q \<leftarrow> bu_div (bu_not bnTarget) (bu_add bnTarget bu_one);
           Some (bu_add q bu_one)
         })"

section \<open>Fixed-width unsigned numbers\<close>

text \<open>
  What the work computation needs of its number type: numbers below a modulus, complement, wrapping
  addition, a unit, and division that fails on zero.
\<close>

locale unsigned_numbers =
  fixes val :: "'u \<Rightarrow> nat" and ok :: "'u \<Rightarrow> bool" and modulus :: nat
    and compl :: "'u \<Rightarrow> 'u" and plus :: "'u \<Rightarrow> 'u \<Rightarrow> 'u" and unit :: 'u and quot :: "'u \<Rightarrow> 'u \<Rightarrow> 'u option"
  assumes val_less: "ok x \<Longrightarrow> val x < modulus"
    and ok_compl: "ok x \<Longrightarrow> ok (compl x)" and val_compl: "ok x \<Longrightarrow> val (compl x) = modulus - 1 - val x"
    and ok_plus: "ok x \<Longrightarrow> ok y \<Longrightarrow> ok (plus x y)"
    and val_plus: "ok x \<Longrightarrow> ok y \<Longrightarrow> val (plus x y) = (val x + val y) mod modulus"
    and ok_unit: "ok unit" and val_unit: "val unit = 1"
    and quot_Some: "ok x \<Longrightarrow> ok y \<Longrightarrow> val y \<noteq> 0 \<Longrightarrow>
      \<exists>q. quot x y = Some q \<and> ok q \<and> val q = val x div val y"
begin

text \<open>The formula of the source comment: \<open>modulus div (t + 1)\<close> without representing the modulus.\<close>

lemma reciprocal:
  assumes "ok t" and "0 < val t" and "val t + 1 < modulus"
  shows "\<exists>q r. quot (compl t) (plus t unit) = Some q \<and> plus q unit = r \<and> ok r \<and> val r = modulus div (val t + 1)"
proof -
  let ?n = "val t + 1"
  have n: "val (plus t unit) = ?n" "ok (plus t unit)" using assms by (simp_all add: val_plus val_unit ok_unit ok_plus)
  obtain q where q: "quot (compl t) (plus t unit) = Some q" "ok q" "val q = (modulus - 1 - val t) div ?n"
    using quot_Some [OF ok_compl [OF assms(1)] n(2)] n(1) assms(1) by (auto simp: val_compl)
  have "(modulus - ?n) div ?n + 1 = modulus div ?n"
    using assms(3) by (subst div_if [of modulus]) simp
  then have v: "val q + 1 = modulus div ?n" using q(3) by simp
  moreover have "modulus div ?n < modulus" using assms by simp
  ultimately have "val (plus q unit) = modulus div ?n" using q(2) by (simp add: val_plus ok_unit val_unit)
  then show ?thesis using q(1,2) ok_plus [OF q(2) ok_unit] by blast
qed

end

interpretation u256: unsigned_numbers uint_val "\<lambda>x. WIDTH x = 8" "2 ^ 256" bu_not bu_add bu_one bu_div
proof
  have m: "uint_mod 8 = 2 ^ 256" by simp
  fix x y :: base_uint
  show "uint_val x < 2 ^ 256" if "WIDTH x = 8" using uint_val_less [of x] that by (simp only: m)
  show "uint_val (bu_not x) = 2 ^ 256 - 1 - uint_val x" if "WIDTH x = 8" using uint_val_not [of x] that by (simp only: m)
  show "uint_val (bu_add x y) = (uint_val x + uint_val y) mod 2 ^ 256" if "WIDTH x = 8" "WIDTH y = 8"
    using uint_val_add [of x y] that by (simp only: m)
  show "\<exists>q. bu_div x y = Some q \<and> WIDTH q = 8 \<and> uint_val q = uint_val x div uint_val y"
    if "WIDTH x = 8" "WIDTH y = 8" "uint_val y \<noteq> 0" using bu_div_correct [of x y] that by simp
  show "uint_val bu_one = 1" by (simp add: bu_one_def uint_val_of_u64)
qed (simp_all add: bu_one_def)

section \<open>Targets\<close>

lemma WIDTH_SetCompact_val [simp]: "WIDTH (SetCompact_val c) = 8"
  unfolding SetCompact_val_def by (rule SetCompact_value(1)) (simp add: prod_eq_iff)

lemma compact_dec_not_max:
  assumes "m < 8388608"
  shows "compact_dec (m, e) + 1 \<noteq> uint_mod 8"
proof (cases "e \<le> 3")
  case True
  then have "compact_dec (m, e) \<le> m" by (simp add: compact_dec_def)
  then show ?thesis using assms by simp
next
  case False
  then have "e - 3 = Suc (e - 4)" by simp
  then have "compact_dec (m, e) = 256 * (m * 256 ^ (e - 4))" using False by (simp add: compact_dec_def)
  then have odd: "odd (compact_dec (m, e) + 1)" by simp
  have "even (uint_mod 8 :: nat)" by simp
  with odd show ?thesis by metis
qed

text \<open>A compact target that is positive and fits.\<close>

definition valid_target :: "u32 \<Rightarrow> bool" where
  "valid_target bits \<longleftrightarrow> (let d = compact_dec (unat bits mod 8388608, unat bits div 16777216)
     in even (unat bits div 8388608) \<and> 0 < d \<and> d < 2 ^ 256)"

definition target_of :: "u32 \<Rightarrow> nat" where
  "target_of bits = compact_dec (unat bits mod 8388608, unat bits div 16777216)"

lemma SetCompact_valid:
  assumes "SetCompact bits = (v, neg, ovf)"
  shows "valid_target bits \<longleftrightarrow> \<not> neg \<and> \<not> ovf \<and> \<not> bu_is_null v"
    and "valid_target bits \<Longrightarrow> uint_val v = target_of bits" and "WIDTH v = 8"
proof -
  have e0: "(256 :: nat) ^ 32 = uint_mod 8" and e: "uint_mod 8 = 2 ^ 256" by simp_all
  have f: "WIDTH v = 8" "uint_val v = target_of bits mod uint_mod 8" "ovf \<longleftrightarrow> uint_mod 8 \<le> target_of bits"
    "neg \<longleftrightarrow> odd (unat bits div 8388608) \<and> target_of bits \<noteq> 0"
    using SetCompact_value [OF assms] SetCompact_flags [OF assms, unfolded e0] by (simp_all only: target_of_def)
  show "WIDTH v = 8" by (fact f(1))
  show v: "uint_val v = target_of bits" if "valid_target bits"
    using that f(2) unfolding valid_target_def Let_def target_of_def [symmetric] e by simp
  show "valid_target bits \<longleftrightarrow> \<not> neg \<and> \<not> ovf \<and> \<not> bu_is_null v"
    using f(2-4) unfolding valid_target_def Let_def target_of_def [symmetric] e bu_is_null_iff by auto
qed

section \<open>Retargeting stays within the limit\<close>

definition pow_params_ok :: "Params \<Rightarrow> bool" where
  "pow_params_ok c \<longleftrightarrow> WIDTH (powLimit c) = 8 \<and> WIDTH (posLimitV1 c) = 8 \<and> WIDTH (posLimitV2 c) = 8 \<and>
     0 < nTargetSpacing c \<and> nTargetSpacing c < 2 ^ 32 \<and> 0 \<le> nTargetTimespan c \<and> nTargetTimespan c < 2 ^ 32 \<and>
     0 \<le> nTargetTimespanV2 c \<and> nTargetTimespanV2 c < 2 ^ 32"

definition work_limit :: "Params \<Rightarrow> int \<Rightarrow> base_uint" where
  "work_limit c h = (if h \<ge> 24 \<and> NetworkUpgradeActive c (h + 1) UPGRADE_POS
     then ProofOfStakeLimit c (IsTimeProtocolV2 c (h + 1)) else powLimit c)"

definition within :: "u32 \<Rightarrow> base_uint \<Rightarrow> bool" where
  "within c limit \<longleftrightarrow> (\<exists>v. SetCompact c = (v, False, False) \<and> uint_val v \<le> uint_val limit)"

lemma GetCompact_within:
  assumes "WIDTH x = 8" and "uint_val x \<le> uint_val limit"
  shows "\<exists>c. GetCompact False x = Some c \<and> within c limit"
  using compact_roundtrip [OF assms(1)] assms(2) unfolding within_def by (meson le_trans)

lemma bu_div_int_Some:
  assumes "WIDTH x = 8" and "0 < d" and "d < 2 ^ 64"
  shows "\<exists>q. bu_div_int x d = Some q \<and> WIDTH q = 8 \<and> uint_val q = uint_val x div nat d"
proof -
  have "unat (word_of_int d :: u64) = nat d" using assms(2,3) by (simp add: unat_eq_nat_uint uint_word_of_int)
  moreover have "WIDTH (base_uint_of_u64 8 (word_of_int d)) = 8" by simp
  ultimately show ?thesis
    using bu_div_correct [of x "base_uint_of_u64 8 (word_of_int d)"] assms by (auto simp: bu_div_int_def)
qed

lemma sdiv_pos: "0 \<le> a \<Longrightarrow> 0 < b \<Longrightarrow> a sdiv b = a div (b :: int)"
  by (cases "a = 0") (simp_all add: signed_divide_int_def)

lemma interval_bounds:
  assumes "pow_params_ok c"
  shows "0 < (TargetTimespan c v sdiv nTargetSpacing c + 1) * nTargetSpacing c"
    and "(TargetTimespan c v sdiv nTargetSpacing c + 1) * nTargetSpacing c < 2 ^ 64"
proof -
  let ?T = "TargetTimespan c v" and ?s = "nTargetSpacing c"
  have s: "0 < ?s" "?s < 2 ^ 32" and T: "0 \<le> ?T" "?T < 2 ^ 32"
    using assms by (auto simp: pow_params_ok_def TargetTimespan_def)
  have d: "?T sdiv ?s = ?T div ?s" using T s by (simp add: sdiv_pos)
  have "0 \<le> ?T div ?s" using T s by (simp add: pos_imp_zdiv_nonneg_iff)
  then show "0 < (?T sdiv ?s + 1) * ?s" using s d by simp
  have "?T div ?s * ?s \<le> ?T" using s by (metis div_mult_mod_eq le_add_same_cancel1 pos_mod_sign)
  then show "(?T sdiv ?s + 1) * ?s < 2 ^ 64" using d s T by (simp add: algebra_simps)
qed

lemma pos_retarget_within:
  assumes "pow_params_ok c"
  shows "\<exists>r. pos_retarget c fV2 first bits spacing = Some r \<and> within r (ProofOfStakeLimit c fV2)"
proof -
  let ?limit = "ProofOfStakeLimit c fV2"
  let ?d = "(TargetTimespan c fV2 sdiv nTargetSpacing c + 1) * nTargetSpacing c"
  have lim: "WIDTH ?limit = 8" using assms by (simp add: pow_params_ok_def ProofOfStakeLimit_def)
  define x where "x = bu_mul32 (if first then bu_shl (SetCompact_val bits) 4 else SetCompact_val bits)
    (word_of_int ((TargetTimespan c fV2 sdiv nTargetSpacing c - 1) * nTargetSpacing c + spacing + spacing))"
  have wx: "WIDTH x = 8" by (simp add: x_def)
  obtain q where q: "bu_div_int x ?d = Some q" "WIDTH q = 8"
    using bu_div_int_Some [OF wx interval_bounds [OF assms, of fV2]] by blast
  let ?y = "if bu_compare q (base_uint_zero 8) \<le> 0 \<or> bu_compare q ?limit > 0 then ?limit else q"
  have "WIDTH ?y = 8" "uint_val ?y \<le> uint_val ?limit" using q(2) lim by (auto simp: bu_compare_gt)
  from GetCompact_within [OF this] show ?thesis
    using q(1) unfolding pos_retarget_def x_def Let_def by simp
qed

definition dgw_ok :: "dgw_state \<Rightarrow> bool" where
  "dgw_ok st \<longleftrightarrow> WIDTH (dgw_avg st) = 8 \<and> WIDTH (dgw_avg_prev st) = 8 \<and> 0 \<le> dgw_count st \<and> dgw_count st \<le> 24"

lemma dgw_step_ok:
  assumes "dgw_ok st" and "dgw_count st < 24"
  shows "\<exists>st'. dgw_step st b = Some st' \<and> dgw_ok st' \<and> dgw_count st' = dgw_count st + 1"
proof -
  let ?x = "bu_add (bu_mul32 (dgw_avg_prev st) (word_of_int (dgw_count st + 1))) (SetCompact_val (nBits b))"
  have w: "WIDTH ?x = 8" and n: "0 \<le> dgw_count st" using assms(1) by (simp_all add: dgw_ok_def)
  obtain q where "bu_div_int ?x (dgw_count st + 1 + 1) = Some q" "WIDTH q = 8"
    using bu_div_int_Some [OF w, of "dgw_count st + 1 + 1"] n assms(2) by auto
  then show ?thesis using assms n
    by (cases "dgw_count st = 0") (simp_all add: dgw_step_def dgw_ok_def Let_def add.commute)
qed

lemma dgw_loop_ok:
  assumes wf: "wf_on H S"
  shows "p \<in> S \<Longrightarrow> dgw_ok st \<Longrightarrow> dgw_count st + int n \<le> 24 \<Longrightarrow>
    \<exists>st'. dgw_loop H n (Some p) st = Some st' \<and> dgw_ok st' \<and> dgw_count st \<le> dgw_count st' \<and>
      (0 < height_of H p \<and> 0 < n \<longrightarrow> dgw_count st < dgw_count st')"
proof (induction n arbitrary: p st)
  case 0
  obtain b where "H p = Some b" by (rule wf_on_Some [OF wf 0(1)])
  then show ?case using 0 by simp
next
  case (Suc n)
  obtain b where b: "H p = Some b" by (rule wf_on_Some [OF wf Suc.prems(1)])
  show ?case
  proof (cases "0 < nHeight b")
    case True
    obtain q where q: "pprev b = Some q" "q \<in> S" using wf_on_parent [OF wf Suc.prems(1) b True] by blast
    obtain st1 where st1: "dgw_step st b = Some st1" "dgw_ok st1" "dgw_count st1 = dgw_count st + 1"
      using dgw_step_ok [OF Suc.prems(2)] Suc.prems(3) by force
    from Suc.IH [OF q(2) st1(2)] st1(3) Suc.prems(3)
    obtain st' where "dgw_loop H n (Some q) st1 = Some st'" "dgw_ok st'" "dgw_count st1 \<le> dgw_count st'" by force
    then show ?thesis using b True q(1) st1 by auto
  next
    case False
    then show ?thesis using b Suc.prems(2) by auto
  qed
qed

lemma dgw_retarget_within:
  assumes c: "pow_params_ok c" and st: "dgw_ok st" and n: "0 < dgw_count st"
  shows "\<exists>r. dgw_retarget c st = Some r \<and> within r (powLimit c)"
proof -
  let ?t = "dgw_count st * nTargetSpacing c"
  have s: "0 < nTargetSpacing c" "nTargetSpacing c < 2 ^ 32" and lim: "WIDTH (powLimit c) = 8"
    using c by (simp_all add: pow_params_ok_def)
  have k: "dgw_count st \<le> 24" "WIDTH (dgw_avg st) = 8" using st by (simp_all add: dgw_ok_def)
  have t: "0 < ?t" using n s by simp
  have "?t \<le> 24 * nTargetSpacing c" using k(1) s(1) by (intro mult_right_mono) simp_all
  then have t2: "?t < 2 ^ 64" using s(2) by simp
  have "\<exists>r. do { y \<leftarrow> bu_div_int (bu_mul32 (dgw_avg st) k) ?t;
      GetCompact False (if bu_compare y (powLimit c) > 0 then powLimit c else y) } = Some r \<and> within r (powLimit c)" for k
  proof -
    obtain q where q: "bu_div_int (bu_mul32 (dgw_avg st) k) ?t = Some q" "WIDTH q = 8"
      using bu_div_int_Some [of "bu_mul32 (dgw_avg st) k", OF _ t t2] k(2) by auto
    let ?y = "if bu_compare q (powLimit c) > 0 then powLimit c else q"
    have "WIDTH ?y = 8" "uint_val ?y \<le> uint_val (powLimit c)" using q(2) lim by (auto simp: bu_compare_gt)
    from GetCompact_within [OF this] show ?thesis using q(1) by simp
  qed
  then show ?thesis by (simp add: dgw_retarget_def Let_def)
qed

section \<open>Properties\<close>

text \<open>
  C21. Outside of the regression test network \<open>GetNextWorkRequired\<close> always returns on a well-formed tree, and the compact target it returns is
  positive-signed, does not overflow and never exceeds the limit of the consensus rules that apply to
  the next block, whatever the time stamps and difficulty bits of the previous blocks are.
\<close>

theorem GetNextWorkRequired_within_limit:
  assumes "wf_on H S" and "p \<in> S" and "pow_params_ok c"
  shows "\<exists>r. GetNextWorkRequired c False H (Some p) = Some r \<and> within r (work_limit c (height_of H p))"
proof -
  obtain b where b: "H p = Some b" by (rule wf_on_Some [OF assms(1,2)])
  have lim: "WIDTH (powLimit c) = 8" using assms(3) by (simp add: pow_params_ok_def)
  consider "nHeight b < 24" | "24 \<le> nHeight b" "NetworkUpgradeActive c (nHeight b + 1) UPGRADE_POS"
    | "24 \<le> nHeight b" "\<not> NetworkUpgradeActive c (nHeight b + 1) UPGRADE_POS" by linarith
  then show ?thesis
  proof cases
    case 1
    then show ?thesis using b GetCompact_within [OF lim order_refl]
      by (auto simp: GetNextWorkRequired_def work_limit_def)
  next
    case 2
    obtain q where q: "pprev b = Some q" "q \<in> S" using wf_on_parent [OF assms(1,2) b] 2(1) by auto
    obtain d where "H q = Some d" by (rule wf_on_Some [OF assms(1) q(2)])
    then show ?thesis using b 2 q(1) pos_retarget_within [OF assms(3)]
      by (simp add: GetNextWorkRequired_def work_limit_def Let_def)
  next
    case 3
    have "dgw_ok dgw_start" "dgw_count dgw_start = 0" by (simp_all add: dgw_ok_def dgw_start_def)
    then obtain st where st: "dgw_loop H 24 (Some p) dgw_start = Some st" "dgw_ok st" "0 < dgw_count st"
      using dgw_loop_ok [OF assms(1,2), of dgw_start 24] b 3(1) by auto
    then show ?thesis using b 3 dgw_retarget_within [OF assms(3) st(2,3)]
      by (auto simp: GetNextWorkRequired_def work_limit_def simp del: dgw_loop.simps)
  qed
qed

lemma main_params_pow_ok: "pow_params_ok main_params"
  by (simp add: pow_params_ok_def main_params_def)

theorem GetNextWorkRequired_within_limit_witness:
  "\<exists>r. GetNextWorkRequired main_params False example_index (Some 3) = Some r \<and>
     within r (work_limit main_params (height_of example_index 3))"
  by (rule GetNextWorkRequired_within_limit [OF example_index_wf _ main_params_pow_ok]) simp

text \<open>
  \<open>CheckProofOfWork\<close> accepts a hash on the real networks exactly if the compact bits encode a
  positive target that fits into 256 bits and is at most the proof-of-work limit, and the hash is at
  most that target.
\<close>

theorem CheckProofOfWork_iff:
  assumes "WIDTH hash = 8" and "WIDTH (powLimit c) = 8"
  shows "CheckProofOfWork c False hash bits \<longleftrightarrow>
    valid_target bits \<and> target_of bits \<le> uint_val (powLimit c) \<and> uint_val hash \<le> target_of bits"
proof -
  obtain v neg ovf where s: "SetCompact bits = (v, neg, ovf)" by (cases "SetCompact bits") auto
  note f = SetCompact_valid [OF s]
  show ?thesis using f assms by (auto simp: CheckProofOfWork_def s bu_compare_gt)
qed

theorem CheckProofOfWork_iff_witness:
  "WIDTH (powLimit main_params) = 8 \<and>
   (CheckProofOfWork main_params False (base_uint_zero 8) 0x1e0fffff \<longleftrightarrow>
     valid_target 0x1e0fffff \<and> target_of 0x1e0fffff \<le> uint_val (powLimit main_params) \<and>
     uint_val (base_uint_zero 8) \<le> target_of 0x1e0fffff)"
proof -
  have "WIDTH (powLimit main_params) = 8" by (simp add: main_params_def)
  then show ?thesis using CheckProofOfWork_iff [of "base_uint_zero 8" main_params "0x1e0fffff"] by simp
qed

text \<open>
  The work of a block is \<open>2 ^ 256 div (target + 1)\<close> for a valid target and 0 otherwise; the
  computation never divides by zero although it adds one to the target in 256 bits.
\<close>

theorem GetBlockProof_is_reciprocal:
  "\<exists>r. GetBlockProof bits = Some r \<and> WIDTH r = 8 \<and>
     uint_val r = (if valid_target bits then 2 ^ 256 div (target_of bits + 1) else 0)"
proof -
  obtain v neg ovf where s: "SetCompact bits = (v, neg, ovf)" by (cases "SetCompact bits") auto
  note f = SetCompact_valid [OF s]
  have e: "uint_mod 8 = 2 ^ 256" by simp
  show ?thesis
  proof (cases "valid_target bits")
    case False
    then show ?thesis using f(1) by (auto simp: GetBlockProof_def s)
  next
    case True
    have "0 < uint_val v" and "uint_val v < 2 ^ 256"
      using True f(2) unfolding valid_target_def Let_def target_of_def by auto
    moreover have "uint_val v + 1 \<noteq> 2 ^ 256"
      using f(2) [OF True] compact_dec_not_max [of "unat bits mod 8388608" "unat bits div 16777216"]
      unfolding target_of_def e by simp
    ultimately have "0 < uint_val v" "uint_val v + 1 < 2 ^ 256" by linarith+
    from u256.reciprocal [OF f(3) this] show ?thesis
      using True f(1) f(2) [OF True] by (auto simp: GetBlockProof_def s simp del: power_numeral)
  qed
qed

end
