(* ===== verification/Serialize.thy ===== *)
theory Serialize
  imports Bytes
begin

unbundle bit_operations_syntax

text \<open>
  Serialisation: \<open>src/src/serialize.h\<close>.  Writing appends to a stream, so \<open>Serialize\<close> is the list of
  bytes it writes; \<open>Unserialize\<close> is a reader that consumes a prefix of the stream or throws
  \<open>std::ios_base::failure\<close>, whose messages are the constructors of \<open>ser_error\<close> (and a failed
  assertion is \<open>AssertFailed\<close>).  The locale \<open>codec\<close>
  is what a pair of \<open>Serialize\<close> and \<open>Unserialize\<close> promises; every pair of the source is an instance.
\<close>

section \<open>Readers\<close>

datatype ser_error = EndOfData | IgnoreNegativeSize | AssertFailed | NonCanonicalSize | SizeTooLarge | StringLimitExceeded | TooManyUndoRecords

type_synonym 'a reader = "byte list \<Rightarrow> ser_error + ('a \<times> byte list)"

definition rreturn :: "'a \<Rightarrow> 'a reader" where
  "rreturn x s = Inr (x, s)"

definition rfail :: "ser_error \<Rightarrow> 'a reader" where
  "rfail e s = Inl e"

definition rbind :: "'a reader \<Rightarrow> ('a \<Rightarrow> 'b reader) \<Rightarrow> 'b reader" where
  "rbind r f s = (case r s of Inl e \<Rightarrow> Inl e | Inr (x, s') \<Rightarrow> f x s')"

text \<open>\<open>CBaseDataStream::read\<close> on the unread part of the buffer.\<close>

definition read_bytes :: "nat \<Rightarrow> byte list reader" where
  "read_bytes n s = (if n \<le> length s then Inr (take n s, drop n s) else Inl EndOfData)"

section \<open>Integers\<close>

definition ser_writedata8 :: "u8 \<Rightarrow> byte list" where "ser_writedata8 x = [x]"
definition ser_writedata16 :: "u16 \<Rightarrow> byte list" where "ser_writedata16 x = WriteLE16 x"
definition ser_writedata32 :: "u32 \<Rightarrow> byte list" where "ser_writedata32 x = WriteLE32 x"
definition ser_writedata64 :: "u64 \<Rightarrow> byte list" where "ser_writedata64 x = WriteLE64 x"

definition ser_readdata8 :: "u8 reader" where
  "ser_readdata8 = rbind (read_bytes 1) (\<lambda>b. rreturn (hd b))"
definition ser_readdata16 :: "u16 reader" where
  "ser_readdata16 = rbind (read_bytes 2) (\<lambda>b. rreturn (ReadLE16 b))"
definition ser_readdata32 :: "u32 reader" where
  "ser_readdata32 = rbind (read_bytes 4) (\<lambda>b. rreturn (ReadLE32 b))"
definition ser_readdata64 :: "u64 reader" where
  "ser_readdata64 = rbind (read_bytes 8) (\<lambda>b. rreturn (ReadLE64 b))"

text \<open>Signed integers go through the unsigned type of the same width; \<open>bool\<close> is one byte.\<close>

definition Serialize_int16 :: "int \<Rightarrow> byte list" where "Serialize_int16 a = ser_writedata16 (word_of_int a)"
definition Serialize_int32 :: "int \<Rightarrow> byte list" where "Serialize_int32 a = ser_writedata32 (word_of_int a)"
definition Serialize_int64 :: "int \<Rightarrow> byte list" where "Serialize_int64 a = ser_writedata64 (word_of_int a)"
definition Unserialize_int16 :: "int reader" where
  "Unserialize_int16 = rbind ser_readdata16 (\<lambda>w. rreturn (sint w))"
definition Unserialize_int32 :: "int reader" where
  "Unserialize_int32 = rbind ser_readdata32 (\<lambda>w. rreturn (sint w))"
definition Unserialize_int64 :: "int reader" where
  "Unserialize_int64 = rbind ser_readdata64 (\<lambda>w. rreturn (sint w))"
definition Serialize_bool :: "bool \<Rightarrow> byte list" where
  "Serialize_bool a = ser_writedata8 (if a then 1 else 0)"
definition Unserialize_bool :: "bool reader" where
  "Unserialize_bool = rbind ser_readdata8 (\<lambda>f. rreturn (f \<noteq> 0))"

section \<open>Compact sizes\<close>

definition MAX_SIZE :: nat where "MAX_SIZE = 0x02000000"

definition GetSizeOfCompactSize :: "u64 \<Rightarrow> nat" where
  "GetSizeOfCompactSize nSize =
     (if nSize < 253 then 1 else if nSize \<le> 0xffff then 1 + 2 else if nSize \<le> 0xffffffff then 1 + 4 else 1 + 8)"

definition WriteCompactSize :: "u64 \<Rightarrow> byte list" where
  "WriteCompactSize nSize =
     (if nSize < 253 then ser_writedata8 (ucast nSize)
      else if nSize \<le> 0xffff then ser_writedata8 253 @ ser_writedata16 (ucast nSize)
      else if nSize \<le> 0xffffffff then ser_writedata8 254 @ ser_writedata32 (ucast nSize)
      else ser_writedata8 255 @ ser_writedata64 nSize)"

definition compact_size_payload :: "u8 \<Rightarrow> u64 reader" where
  "compact_size_payload chSize =
     (if chSize < 253 then rreturn (ucast chSize)
      else if chSize = 253 then rbind ser_readdata16 (\<lambda>w.
        if (ucast w :: u64) < 253 then rfail NonCanonicalSize else rreturn (ucast w))
      else if chSize = 254 then rbind ser_readdata32 (\<lambda>w.
        if (ucast w :: u64) < 0x10000 then rfail NonCanonicalSize else rreturn (ucast w))
      else rbind ser_readdata64 (\<lambda>w.
        if w < 0x100000000 then rfail NonCanonicalSize else rreturn w))"

definition ReadCompactSize :: "nat reader" where
  "ReadCompactSize = rbind ser_readdata8 (\<lambda>chSize. rbind (compact_size_payload chSize) (\<lambda>nSizeRet.
     if unat nSizeRet > MAX_SIZE then rfail SizeTooLarge else rreturn (unat nSizeRet)))"

text \<open>\<open>WriteCompactSize\<close> is called with a \<open>size_t\<close>, the length of a container.\<close>

definition write_size :: "nat \<Rightarrow> byte list" where
  "write_size n = WriteCompactSize (of_nat n)"

section \<open>Variable-length integers\<close>

text \<open>
  The template parameter \<open>I\<close> is an unsigned type, here a word of any length.  \<open>varint_tmp\<close> is the
  buffer \<open>tmp\<close> that the first loop of \<open>WriteVarInt\<close> fills, \<open>len\<close> the index of its next cell.
\<close>

lemma varint_decr:
  assumes "\<not> n \<le> (0x7F :: 'a :: len word)"
  shows "unat (drop_bit 7 n - 1) = unat n div 128 - 1" and "0 < unat n div 128"
proof -
  have len: "7 \<le> LENGTH('a)"
  proof (rule ccontr)
    assume "\<not> 7 \<le> LENGTH('a)"
    then have "mask 7 = (- 1 :: 'a word)" by (intro bit_eqI) (simp add: bit_simps)
    moreover have "(0x7F :: 'a word) = mask 7" by (simp add: mask_numeral)
    ultimately have "(0x7F :: 'a word) = - 1" by (simp only:)
    then show False using assms by (metis word_n1_ge)
  qed
  have "unat (0x7F :: 'a word) = 127"
  proof -
    have "(127 :: nat) < 2 ^ 7" by simp
    also have "(2 :: nat) ^ 7 \<le> 2 ^ LENGTH('a)" using len by (rule power_increasing) simp
    finally show ?thesis using unat_of_nat [of 127, where 'a = 'a] by (simp only: of_nat_numeral mod_less)
  qed
  then have big: "128 \<le> unat n" using assms by (simp add: word_le_nat_alt)
  then show pos: "0 < unat n div 128" by (simp add: div_greater_zero_iff)
  have d: "unat (drop_bit 7 n) = unat n div 128"
    using unsigned_less [of n] by (simp only: unsigned_drop_bit_eq) (simp add: drop_bit_eq_div take_bit_nat_eq_self)
  then have "1 \<le> drop_bit 7 n" using pos by (simp add: word_le_nat_alt Suc_leI)
  then show "unat (drop_bit 7 n - 1) = unat n div 128 - 1" using d by (simp add: unat_sub)
qed

function varint_tmp :: "nat \<Rightarrow> 'a :: len word \<Rightarrow> byte list" where
  "varint_tmp len n = (let b = ucast (n AND 0x7F) OR (if len \<noteq> 0 then 0x80 else 0x00)
     in if n \<le> 0x7F then [b] else b # varint_tmp (Suc len) (drop_bit 7 n - 1))"
  by auto

termination
proof (relation "measure (\<lambda>(len, n). unat n)")
  fix len and n :: "'a word" and b :: byte
  assume "\<not> n \<le> 0x7F"
  from varint_decr [OF this] show "((Suc len, drop_bit 7 n - 1), (len, n)) \<in> measure (\<lambda>(len, n). unat n)"
    by simp
qed simp

definition WriteVarInt :: "'a :: len word \<Rightarrow> byte list" where
  "WriteVarInt n = rev (varint_tmp 0 n)"

fun read_varint_loop :: "'a :: len word \<Rightarrow> byte list \<Rightarrow> ser_error + ('a word \<times> byte list)" where
  "read_varint_loop n [] = Inl EndOfData"
| "read_varint_loop n (chData # s) =
     (let n' = push_bit 7 n OR ucast (chData AND 0x7F)
      in if chData AND 0x80 \<noteq> 0 then read_varint_loop (n' + 1) s else Inr (n', s))"

definition ReadVarInt :: "'a :: len word reader" where
  "ReadVarInt = read_varint_loop 0"

function GetSizeOfVarInt :: "'a :: len word \<Rightarrow> nat" where
  "GetSizeOfVarInt n = (if n \<le> 0x7F then 1 else Suc (GetSizeOfVarInt (drop_bit 7 n - 1)))"
  by auto

termination
proof (relation "measure unat")
  fix n :: "'a word"
  assume "\<not> n \<le> 0x7F"
  from varint_decr [OF this] show "(drop_bit 7 n - 1, n) \<in> measure unat" by simp
qed simp

declare varint_tmp.simps [simp del] and GetSizeOfVarInt.simps [simp del]

section \<open>Containers\<close>

text \<open>
  Byte vectors and strings are one blob after their size.  The reader of a vector allocates in steps:
  \<open>blk\<close> bytes per read, or \<open>Suc k = 5000000 / sizeof(T)\<close> elements per resize.
\<close>

definition Serialize_bytes :: "byte list \<Rightarrow> byte list" where
  "Serialize_bytes v = write_size (length v) @ (if v \<noteq> [] then v else [])"

function read_blocks :: "nat \<Rightarrow> nat \<Rightarrow> byte list \<Rightarrow> byte list reader" where
  "read_blocks nSize i v = (if i < nSize
     then (let blk = min (nSize - i) (1 + 4999999)
           in rbind (read_bytes blk) (\<lambda>d. read_blocks nSize (i + blk) (v @ d)))
     else rreturn v)"
  by auto

termination by (relation "measure (\<lambda>(nSize, i, v). nSize - i)") auto

definition Unserialize_bytes :: "byte list reader" where
  "Unserialize_bytes = rbind ReadCompactSize (\<lambda>nSize. read_blocks nSize 0 [])"

definition Unserialize_string :: "byte list reader" where
  "Unserialize_string = rbind ReadCompactSize (\<lambda>nSize. if nSize \<noteq> 0 then read_bytes nSize else rreturn [])"

definition Unserialize_limited_string :: "nat \<Rightarrow> byte list reader" where
  "Unserialize_limited_string Limit = rbind ReadCompactSize (\<lambda>size.
     if size > Limit then rfail StringLimitExceeded else if size \<noteq> 0 then read_bytes size else rreturn [])"

definition Serialize_vector :: "('a \<Rightarrow> byte list) \<Rightarrow> 'a list \<Rightarrow> byte list" where
  "Serialize_vector ser v = write_size (length v) @ concat (map ser v)"

text \<open>\<open>for (; i < nMid; i++) Unserialize (is, v[i])\<close>: \<open>n\<close> elements are left.\<close>

fun read_items :: "'a reader \<Rightarrow> nat \<Rightarrow> 'a list \<Rightarrow> 'a list reader" where
  "read_items rd 0 v = rreturn v"
| "read_items rd (Suc n) v = rbind rd (\<lambda>x. read_items rd n (v @ [x]))"

function read_vector :: "'a reader \<Rightarrow> nat \<Rightarrow> nat \<Rightarrow> nat \<Rightarrow> 'a list \<Rightarrow> 'a list reader" where
  "read_vector rd k nSize i v = (if i < nSize
     then (let nMid = (if i + Suc k > nSize then nSize else i + Suc k)
           in rbind (read_items rd (nMid - i) v) (read_vector rd k nSize nMid))
     else rreturn v)"
  by auto

termination by (relation "measure (\<lambda>(rd, k, nSize, i, v). nSize - i)") auto

declare read_blocks.simps [simp del] and read_vector.simps [simp del]

definition Unserialize_vector :: "'a reader \<Rightarrow> nat \<Rightarrow> 'a list reader" where
  "Unserialize_vector rd k = rbind ReadCompactSize (\<lambda>nSize. read_vector rd k nSize 0 [])"

definition Unserialize_list :: "'a reader \<Rightarrow> 'a list reader" where
  "Unserialize_list rd = rbind ReadCompactSize (\<lambda>nSize. read_items rd nSize [])"

definition Serialize_array :: "('a \<Rightarrow> byte list) \<Rightarrow> 'a list \<Rightarrow> byte list" where
  "Serialize_array ser item = concat (map ser item)"

definition Unserialize_array :: "'a reader \<Rightarrow> nat \<Rightarrow> 'a list reader" where
  "Unserialize_array rd n = read_items rd n []"

definition Serialize_pair :: "('a \<Rightarrow> byte list) \<Rightarrow> ('b \<Rightarrow> byte list) \<Rightarrow> 'a \<times> 'b \<Rightarrow> byte list" where
  "Serialize_pair ser1 ser2 item = ser1 (fst item) @ ser2 (snd item)"

definition Unserialize_pair :: "'a reader \<Rightarrow> 'b reader \<Rightarrow> ('a \<times> 'b) reader" where
  "Unserialize_pair rd1 rd2 = rbind rd1 (\<lambda>x. rbind rd2 (\<lambda>y. rreturn (x, y)))"

definition Serialize_optional :: "('a \<Rightarrow> byte list) \<Rightarrow> 'a option \<Rightarrow> byte list" where
  "Serialize_optional ser item = (case item of
     Some x \<Rightarrow> ser_writedata8 0x01 @ ser x | None \<Rightarrow> ser_writedata8 0x00)"

definition Unserialize_optional :: "'a reader \<Rightarrow> 'a option reader" where
  "Unserialize_optional rd = rbind ser_readdata8 (\<lambda>discriminant.
     if discriminant = 0x00 then rreturn None else rbind rd (\<lambda>x. rreturn (Some x)))"

section \<open>The contract of a codec\<close>

lemma rbind_simps [simp]:
  "r s = Inr (x, s') \<Longrightarrow> rbind r f s = f x s'" "r s = Inl e \<Longrightarrow> rbind r f s = Inl e"
  "rreturn x s = Inr (x, s)" "rfail e s = Inl e"
  by (simp_all add: rbind_def rreturn_def rfail_def)

lemma rbind_Inr:
  "rbind r f s = Inr (y, t) \<longleftrightarrow> (\<exists>x s'. r s = Inr (x, s') \<and> f x s' = Inr (y, t))"
  by (auto simp: rbind_def split: sum.split prod.split)

lemma read_bytes_append [simp]: "n = length bs \<Longrightarrow> read_bytes n (bs @ s) = Inr (bs, s)"
  by (simp add: read_bytes_def)

lemma read_bytes_Inr: "read_bytes n s = Inr (bs, t) \<longleftrightarrow> s = bs @ t \<and> length bs = n"
  by (auto simp: read_bytes_def)

lemma read_vector_step:
  "i < nSize \<Longrightarrow> read_vector rd k nSize i v =
     (let m = min (nSize - i) (Suc k) in rbind (read_items rd m v) (read_vector rd k nSize (i + m)))"
proof -
  assume i: "i < nSize"
  let ?m = "min (nSize - i) (Suc k)"
  have "(if i + Suc k > nSize then nSize else i + Suc k) = i + ?m" using i by (cases "i + Suc k > nSize") auto
  then show ?thesis using i by (subst read_vector.simps) (simp only: Let_def if_True diff_add_inverse)
qed

lemma read_vector_done: "\<not> i < nSize \<Longrightarrow> read_vector rd k nSize i v = rreturn v"
  by (subst read_vector.simps) simp

text \<open>A reader that accepts everything the writer writes and leaves the rest of the stream.\<close>

locale codec =
  fixes ser :: "'a \<Rightarrow> byte list" and unser :: "'a reader" and ok :: "'a \<Rightarrow> bool"
  assumes unser_ser: "ok x \<Longrightarrow> unser (ser x @ s) = Inr (x, s)"
begin

lemma unser_ser_only: "ok x \<Longrightarrow> unser (ser x) = Inr (x, [])"
  using unser_ser [of x "[]"] by simp

lemma unser_bind [simp]: "ok x \<Longrightarrow> rbind unser f (ser x @ s) = f x s"
  by (simp add: unser_ser)

lemma prefix_free: "ok x \<Longrightarrow> ok y \<Longrightarrow> ser x @ s = ser y @ t \<Longrightarrow> x = y \<and> s = t"
  by (metis unser_ser sum.inject(2) prod.inject)

lemma ser_inj: "inj_on ser {x. ok x}"
  by (rule inj_onI) (metis mem_Collect_eq prefix_free append_Nil2)

lemma read_items_ser:
  "list_all ok xs \<Longrightarrow> read_items unser (length xs) v (concat (map ser xs) @ s) = Inr (v @ xs, s)"
  by (induction xs arbitrary: v) simp_all

lemma read_vector_ser:
  assumes "list_all ok xs"
  shows "i + length xs = nSize \<Longrightarrow> read_vector unser k nSize i v (concat (map ser xs) @ s) = Inr (v @ xs, s)"
  using assms
proof (induction "length xs" arbitrary: xs i v rule: less_induct)
  case less
  show ?case
  proof (cases xs)
    case Nil
    then show ?thesis using less.prems by (simp add: read_vector_done)
  next
    case (Cons x xs')
    define m where "m = min (nSize - i) (Suc k)"
    let ?a = "take m xs" and ?b = "drop m xs"
    have m: "i < nSize" "0 < m" "m \<le> length xs" using less.prems(1) by (auto simp: m_def Cons)
    have ok: "list_all ok ?a" "list_all ok ?b"
      using less.prems(2) by (metis append_take_drop_id list_all_append)+
    have e: "concat (map ser xs) = concat (map ser ?a) @ concat (map ser ?b)"
      by (metis append_take_drop_id concat_append map_append)
    have "read_items unser m v (concat (map ser ?a) @ concat (map ser ?b) @ s) = Inr (v @ ?a, concat (map ser ?b) @ s)"
      using read_items_ser [OF ok(1), of v "concat (map ser ?b) @ s"] m(3) by (simp add: min_absorb2)
    moreover have "read_vector unser k nSize (i + m) (v @ ?a) (concat (map ser ?b) @ s) = Inr ((v @ ?a) @ ?b, s)"
      by (rule less.hyps) (use m less.prems(1) ok(2) in simp_all)
    ultimately show ?thesis
      by (simp only: read_vector_step [OF m(1)] m_def [symmetric] Let_def e append_assoc rbind_simps append_take_drop_id)
  qed
qed

end

text \<open>A codec whose reader accepts nothing but what the writer writes.\<close>

locale canonical_codec = codec +
  assumes unser_canonical: "unser t = Inr (x, s) \<Longrightarrow> ok x \<and> t = ser x @ s"
begin

lemma unser_iff: "unser t = Inr (x, s) \<longleftrightarrow> ok x \<and> t = ser x @ s"
  using unser_canonical unser_ser by blast

lemma read_items_canonical:
  "read_items unser n v t = Inr (ys, s) \<Longrightarrow>
    \<exists>xs. ys = v @ xs \<and> length xs = n \<and> list_all ok xs \<and> t = concat (map ser xs) @ s"
proof (induction n arbitrary: v t)
  case (Suc n)
  then obtain x t1 where x: "unser t = Inr (x, t1)" and r: "read_items unser n (v @ [x]) t1 = Inr (ys, s)"
    by (auto simp: rbind_Inr)
  from Suc.IH [OF r] obtain xs where "ys = (v @ [x]) @ xs" "length xs = n" "list_all ok xs"
    "t1 = concat (map ser xs) @ s" by blast
  with unser_canonical [OF x] show ?case by (intro exI [of _ "x # xs"]) simp
qed simp

lemma read_vector_canonical:
  "read_vector unser k nSize i v t = Inr (ys, s) \<Longrightarrow> i \<le> nSize \<Longrightarrow>
    \<exists>xs. ys = v @ xs \<and> length xs = nSize - i \<and> list_all ok xs \<and> t = concat (map ser xs) @ s"
proof (induction "nSize - i" arbitrary: i v t rule: less_induct)
  case less
  show ?case
  proof (cases "i < nSize")
    case False
    then show ?thesis using less.prems by (simp add: read_vector_done)
  next
    case True
    define m where "m = min (nSize - i) (Suc k)"
    have m: "0 < m" "i + m \<le> nSize" using True by (auto simp: m_def)
    obtain v1 t1 where r: "read_items unser m v t = Inr (v1, t1)"
      and q: "read_vector unser k nSize (i + m) v1 t1 = Inr (ys, s)"
      using less.prems(1) unfolding read_vector_step [OF True] m_def [symmetric] Let_def rbind_Inr by blast
    from read_items_canonical [OF r] obtain xs where xs: "v1 = v @ xs" "length xs = m" "list_all ok xs"
      "t = concat (map ser xs) @ t1" by blast
    have "nSize - (i + m) < nSize - i" using m True by simp
    from less.hyps [OF this q m(2)] obtain zs where "ys = v1 @ zs" "length zs = nSize - (i + m)" "list_all ok zs"
      "t1 = concat (map ser zs) @ s" by blast
    with xs m show ?thesis by (intro exI [of _ "xs @ zs"]) simp
  qed
qed

end

section \<open>Integers as codecs\<close>

lemma ser_readdata_write [simp]:
  "ser_readdata8 (ser_writedata8 a @ s) = Inr (a, s)" "ser_readdata16 (ser_writedata16 b @ s) = Inr (b, s)"
  "ser_readdata32 (ser_writedata32 c @ s) = Inr (c, s)" "ser_readdata64 (ser_writedata64 d @ s) = Inr (d, s)"
  using ReadLE_WriteLE [where r = "[]"]
  by (simp_all add: ser_readdata8_def ser_readdata16_def ser_readdata32_def ser_readdata64_def
      ser_writedata8_def ser_writedata16_def ser_writedata32_def ser_writedata64_def rbind_def read_bytes_def)

lemma WriteLE16_ReadLE16: "length bs = 2 \<Longrightarrow> WriteLE16 (ReadLE16 bs) = bs"
  using le_val_bound [of bs] le_bytes_val [of bs] by (simp add: ReadLE16_def WriteLE16_def unat_of_nat)

interpretation u8_codec: canonical_codec ser_writedata8 ser_readdata8 "\<lambda>_. True"
proof
  show "True \<and> t = ser_writedata8 x @ s" if "ser_readdata8 t = Inr (x, s)" for t x s
    using that by (auto simp: ser_readdata8_def ser_writedata8_def rbind_Inr read_bytes_Inr length_Suc_conv)
qed simp

interpretation u16_codec: canonical_codec ser_writedata16 ser_readdata16 "\<lambda>_. True"
proof
  show "True \<and> t = ser_writedata16 x @ s" if "ser_readdata16 t = Inr (x, s)" for t x s
    using that by (auto simp: ser_readdata16_def ser_writedata16_def rbind_Inr read_bytes_Inr WriteLE16_ReadLE16)
qed simp

interpretation u32_codec: canonical_codec ser_writedata32 ser_readdata32 "\<lambda>_. True"
proof
  show "True \<and> t = ser_writedata32 x @ s" if "ser_readdata32 t = Inr (x, s)" for t x s
    using that by (auto simp: ser_readdata32_def ser_writedata32_def rbind_Inr read_bytes_Inr WriteLE_ReadLE)
qed simp

interpretation u64_codec: canonical_codec ser_writedata64 ser_readdata64 "\<lambda>_. True"
proof
  show "True \<and> t = ser_writedata64 x @ s" if "ser_readdata64 t = Inr (x, s)" for t x s
    using that by (auto simp: ser_readdata64_def ser_writedata64_def rbind_Inr read_bytes_Inr WriteLE_ReadLE)
qed simp

text \<open>Reinterpreting a value before writing and after reading keeps a codec canonical.\<close>

lemma canonical_codec_via:
  assumes "canonical_codec ser unser (\<lambda>_. True)" and "\<And>x. ok x \<Longrightarrow> g (f x) = x" and "\<And>w. f (g w) = w \<and> ok (g w)"
  shows "canonical_codec (\<lambda>x. ser (f x)) (rbind unser (\<lambda>w. rreturn (g w))) ok"
proof -
  from assms(1) have a: "unser (ser w @ s) = Inr (w, s)" and b: "unser t = Inr (w, s) \<Longrightarrow> t = ser w @ s" for w s t
    by (simp_all add: canonical_codec_def canonical_codec_axioms_def codec_def)
  show ?thesis by unfold_locales (use assms(2,3) in \<open>auto simp: a rbind_Inr dest!: b\<close>)
qed

lemma sint_in_range: "- (2 ^ (LENGTH('a) - 1)) \<le> sint (w :: 'a :: len word)" "sint w < 2 ^ (LENGTH('a) - 1)"
  using sint_greater_eq [of w] sint_less [of w] by simp_all

lemma sint_word_of_int:
  assumes "- (2 ^ (LENGTH('a) - 1)) \<le> n" and "n < 2 ^ (LENGTH('a) - 1)"
  shows "sint (word_of_int n :: 'a :: len word) = n"
  using assms by (simp add: sint_sbintrunc' signed_take_bit_int_eq_self)

definition in_int16 :: "int \<Rightarrow> bool" where
  "in_int16 n \<longleftrightarrow> - (2 ^ 15) \<le> n \<and> n < 2 ^ 15"

interpretation int16_codec: canonical_codec Serialize_int16 Unserialize_int16 in_int16
  unfolding Serialize_int16_def Unserialize_int16_def
  by (rule canonical_codec_via [OF u16_codec.canonical_codec_axioms])
    (use sint_in_range [where 'a = 16] in \<open>auto simp: in_int16_def sint_word_of_int\<close>)

interpretation int32_codec: canonical_codec Serialize_int32 Unserialize_int32 in_int32
  unfolding Serialize_int32_def Unserialize_int32_def
  by (rule canonical_codec_via [OF u32_codec.canonical_codec_axioms])
    (use sint_in_range [where 'a = 32] in \<open>auto simp: in_int32_def sint_word_of_int\<close>)

interpretation int64_codec: canonical_codec Serialize_int64 Unserialize_int64 in_int64
  unfolding Serialize_int64_def Unserialize_int64_def
  by (rule canonical_codec_via [OF u64_codec.canonical_codec_axioms])
    (use sint_in_range [where 'a = 64] in \<open>auto simp: in_int64_def sint_word_of_int\<close>)

interpretation bool_codec: codec Serialize_bool Unserialize_bool "\<lambda>_. True"
  by unfold_locales (simp add: Serialize_bool_def Unserialize_bool_def)

section \<open>Compact sizes as codec\<close>

lemma unat_ucast_up [simp]:
  "unat (ucast (a :: u8) :: u64) = unat a" "unat (ucast (b :: u16) :: u64) = unat b"
  using unat_lt_2p8 [of a] unat_lt_2p16 [of b] by (simp_all add: unsigned_ucast_eq take_bit_eq_mod)

lemma unat_ucast_down [simp]:
  "unat (ucast (x :: u64) :: u8) = unat x mod 256" "unat (ucast (x :: u64) :: u16) = unat x mod 65536"
  by (simp_all add: unsigned_ucast_eq take_bit_eq_mod)

lemmas word_nat_simps = word_le_nat_alt word_less_nat_alt word_unat_eq_iff

lemma ucast_ucast_up [simp]:
  "unat n < 256 \<Longrightarrow> ucast (ucast (n :: u64) :: u8) = n" "unat n < 65536 \<Longrightarrow> ucast (ucast (n :: u64) :: u16) = n"
  "unat n < 4294967296 \<Longrightarrow> ucast (ucast (n :: u64) :: u32) = n"
  by (simp_all add: word_unat_eq_iff)

lemma ucast_ucast_down [simp]:
  "ucast (ucast (a :: u8) :: u64) = a" "ucast (ucast (b :: u16) :: u64) = b" "ucast (ucast (c :: u32) :: u64) = c"
  using unat_lt_2p8 [of a] unat_lt_2p16 [of b] unat_lt_2p32 [of c] by (simp_all add: word_unat_eq_iff)

lemma read_write_compact: "rbind ser_readdata8 compact_size_payload (WriteCompactSize n @ s) = Inr (n, s)"
proof -
  consider "unat n < 253" | "253 \<le> unat n" "unat n < 65536" | "65536 \<le> unat n" "unat n < 4294967296"
    | "4294967296 \<le> unat n" by linarith
  then show ?thesis
    by cases (simp_all add: WriteCompactSize_def compact_size_payload_def word_nat_simps)
qed

lemma WriteCompactSize_cases:
  "unat a < 253 \<Longrightarrow> WriteCompactSize (ucast a) = [a]"
  "253 \<le> unat b \<Longrightarrow> WriteCompactSize (ucast b) = 253 # ser_writedata16 b"
  "65536 \<le> unat c \<Longrightarrow> WriteCompactSize (ucast c) = 254 # ser_writedata32 c"
  "4294967296 \<le> unat d \<Longrightarrow> WriteCompactSize d = 255 # ser_writedata64 d"
  using unat_lt_2p16 [of b] unat_lt_2p32 [of c]
  by (simp_all add: WriteCompactSize_def word_nat_simps ser_writedata8_def)

lemma compact_size_payload_canonical:
  assumes "compact_size_payload ch t = Inr (n, s)"
  shows "ch # t = WriteCompactSize n @ s"
proof -
  have "unat ch < 253 \<or> unat ch = 253 \<or> unat ch = 254 \<or> unat ch = 255"
    using unat_lt_2p8 [of ch] by linarith
  then have "unat ch < 253 \<or> ch = 253 \<or> ch = 254 \<or> ch = 255" by (simp add: word_unat_eq_iff)
  then show ?thesis using assms
    by (auto simp: compact_size_payload_def word_less_nat_alt rbind_Inr WriteCompactSize_cases
        u16_codec.unser_iff u32_codec.unser_iff u64_codec.unser_iff split: if_splits)
qed

lemma ReadCompactSize_Write:
  "ReadCompactSize (WriteCompactSize n @ s) = (if unat n > MAX_SIZE then Inl SizeTooLarge else Inr (unat n, s))"
proof -
  obtain ch t where t: "WriteCompactSize n @ s = ch # t" and p: "compact_size_payload ch t = Inr (n, s)"
    using read_write_compact [of n s] by (auto simp: rbind_Inr u8_codec.unser_iff ser_writedata8_def)
  have "ser_readdata8 (ch # t) = Inr (ch, t)" using ser_readdata_write(1) [of ch t] by (simp add: ser_writedata8_def)
  then show ?thesis using p by (simp add: ReadCompactSize_def t)
qed

lemma ReadCompactSize_canonical:
  assumes "ReadCompactSize t = Inr (n, s)"
  shows "n \<le> MAX_SIZE \<and> t = write_size n @ s"
proof -
  from assms obtain ch t1 w where "ser_readdata8 t = Inr (ch, t1)" and p: "compact_size_payload ch t1 = Inr (w, s)"
    and n: "n = unat w" "\<not> unat w > MAX_SIZE"
    by (auto simp: ReadCompactSize_def rbind_Inr split: if_splits)
  then have "t = ch # t1" by (simp add: u8_codec.unser_iff ser_writedata8_def)
  then show ?thesis using compact_size_payload_canonical [OF p] n by (simp add: write_size_def)
qed

interpretation size_codec: canonical_codec write_size ReadCompactSize "\<lambda>n. n \<le> MAX_SIZE"
proof
  show "ReadCompactSize (write_size n @ s) = Inr (n, s)" if "n \<le> MAX_SIZE" for n s
  proof -
    have "unat (of_nat n :: u64) = n" using that by (simp add: unat_of_nat MAX_SIZE_def)
    then show ?thesis using that by (simp add: write_size_def ReadCompactSize_Write)
  qed
qed (rule ReadCompactSize_canonical)

lemma length_WriteCompactSize: "length (WriteCompactSize n) = GetSizeOfCompactSize n"
  by (simp add: WriteCompactSize_def GetSizeOfCompactSize_def ser_writedata8_def ser_writedata16_def
      ser_writedata32_def ser_writedata64_def)

section \<open>Containers as codecs\<close>

lemma read_blocks_step:
  "i < nSize \<Longrightarrow> read_blocks nSize i v =
     (let blk = min (nSize - i) 5000000 in rbind (read_bytes blk) (\<lambda>d. read_blocks nSize (i + blk) (v @ d)))"
  by (subst read_blocks.simps) simp

lemma read_blocks_done: "\<not> i < nSize \<Longrightarrow> read_blocks nSize i v = rreturn v"
  by (subst read_blocks.simps) simp

lemma read_blocks_is_read:
  "i \<le> nSize \<Longrightarrow> read_blocks nSize i v = rbind (read_bytes (nSize - i)) (\<lambda>d. rreturn (v @ d))"
proof (induction "nSize - i" arbitrary: i v rule: less_induct)
  case less
  show ?case
  proof (cases "i < nSize")
    case False
    then show ?thesis using less.prems by (auto simp: read_blocks_done rbind_def read_bytes_def rreturn_def)
  next
    case True
    define m where "m = min (nSize - i) 5000000"
    have m: "0 < m" "i + m \<le> nSize" using True by (auto simp: m_def)
    then have "read_blocks nSize (i + m) (v @ d) = rbind (read_bytes (nSize - (i + m))) (\<lambda>e. rreturn ((v @ d) @ e))" for d
      using True by (intro less.hyps) simp_all
    then have "read_blocks nSize i v s = rbind (read_bytes m) (\<lambda>d. rbind (read_bytes (nSize - (i + m))) (\<lambda>e. rreturn (v @ d @ e))) s" for s
      by (simp add: read_blocks_step [OF True] m_def [symmetric] Let_def)
    also have "\<dots> s = rbind (read_bytes (nSize - i)) (\<lambda>d. rreturn (v @ d)) s" for s
    proof -
      have "nSize - i = m + (nSize - (i + m))" using m by simp
      then have "take (nSize - i) s = take m s @ take (nSize - (i + m)) (drop m s)" by (metis take_add)
      then show ?thesis using m by (auto simp: rbind_def read_bytes_def rreturn_def)
    qed
    finally show ?thesis by (rule ext)
  qed
qed

interpretation bytes_codec: canonical_codec Serialize_bytes Unserialize_bytes "\<lambda>v. length v \<le> MAX_SIZE"
proof
  fix v s t
  show "Unserialize_bytes (Serialize_bytes v @ s) = Inr (v, s)" if "length v \<le> MAX_SIZE"
    using that by (simp add: Unserialize_bytes_def Serialize_bytes_def read_blocks_is_read)
  show "length v \<le> MAX_SIZE \<and> t = Serialize_bytes v @ s" if "Unserialize_bytes t = Inr (v, s)"
    using that by (auto simp: Unserialize_bytes_def Serialize_bytes_def read_blocks_is_read rbind_Inr
        size_codec.unser_iff read_bytes_Inr)
qed

lemma read_string_is_read: "(if 0 < n then read_bytes n else rreturn []) = read_bytes n"
  by (rule ext) (simp add: read_bytes_def)

interpretation string_codec: canonical_codec Serialize_bytes Unserialize_string "\<lambda>v. length v \<le> MAX_SIZE"
proof
  fix v s t
  show "Unserialize_string (Serialize_bytes v @ s) = Inr (v, s)" if "length v \<le> MAX_SIZE"
    using that by (simp add: Unserialize_string_def Serialize_bytes_def)
  show "length v \<le> MAX_SIZE \<and> t = Serialize_bytes v @ s" if "Unserialize_string t = Inr (v, s)"
    using that by (auto simp: Unserialize_string_def read_string_is_read Serialize_bytes_def rbind_Inr
        size_codec.unser_iff read_bytes_Inr)
qed

lemma limited_string_rejects:
  "Limit < length v \<Longrightarrow> length v \<le> MAX_SIZE \<Longrightarrow>
     Unserialize_limited_string Limit (Serialize_bytes v @ s) = Inl StringLimitExceeded"
  by (simp add: Unserialize_limited_string_def Serialize_bytes_def)

text \<open>Containers of codecs are codecs, and canonical if their elements are, except \<open>Optional\<close>.\<close>

lemma vector_codec:
  assumes "canonical_codec ser unser ok"
  shows "canonical_codec (Serialize_vector ser) (Unserialize_vector unser k) (\<lambda>v. list_all ok v \<and> length v \<le> MAX_SIZE)"
    and "canonical_codec (Serialize_vector ser) (Unserialize_list unser) (\<lambda>v. list_all ok v \<and> length v \<le> MAX_SIZE)"
proof -
  note read = codec.read_vector_ser [OF canonical_codec.axioms(1) [OF assms]]
    and items = codec.read_items_ser [OF canonical_codec.axioms(1) [OF assms]]
    and canon = canonical_codec.read_vector_canonical [OF assms]
    and icanon = canonical_codec.read_items_canonical [OF assms]
  show "canonical_codec (Serialize_vector ser) (Unserialize_vector unser k) (\<lambda>v. list_all ok v \<and> length v \<le> MAX_SIZE)"
    by unfold_locales
      (auto simp: Serialize_vector_def Unserialize_vector_def read rbind_Inr size_codec.unser_iff dest!: canon)
  show "canonical_codec (Serialize_vector ser) (Unserialize_list unser) (\<lambda>v. list_all ok v \<and> length v \<le> MAX_SIZE)"
    by unfold_locales
      (auto simp: Serialize_vector_def Unserialize_list_def items rbind_Inr size_codec.unser_iff dest!: icanon)
qed

lemma array_codec:
  assumes "canonical_codec ser unser ok"
  shows "canonical_codec (Serialize_array ser) (Unserialize_array unser n) (\<lambda>v. list_all ok v \<and> length v = n)"
  using codec.read_items_ser [OF canonical_codec.axioms(1) [OF assms]] canonical_codec.read_items_canonical [OF assms]
  by unfold_locales (fastforce simp: Serialize_array_def Unserialize_array_def)+

lemma pair_codec:
  assumes "canonical_codec ser1 unser1 ok1" and "canonical_codec ser2 unser2 ok2"
  shows "canonical_codec (Serialize_pair ser1 ser2) (Unserialize_pair unser1 unser2) (\<lambda>(x, y). ok1 x \<and> ok2 y)"
  by unfold_locales
    (auto simp: Serialize_pair_def Unserialize_pair_def rbind_Inr canonical_codec.unser_iff [OF assms(1)]
      canonical_codec.unser_iff [OF assms(2)] codec.unser_ser [OF canonical_codec.axioms(1) [OF assms(1)]]
      codec.unser_ser [OF canonical_codec.axioms(1) [OF assms(2)]])

lemma optional_codec:
  assumes "codec ser unser ok"
  shows "codec (Serialize_optional ser) (Unserialize_optional unser) (pred_option ok)"
  by unfold_locales
    (auto simp: Serialize_optional_def Unserialize_optional_def codec.unser_ser [OF assms] split: option.split)

section \<open>Variable-length integers as codec\<close>

lemma varint_byte:
  fixes n :: "'a :: len word"
  shows "ucast ((ucast (n AND 0x7F) OR 0x80 :: byte) AND 0x7F) = n AND 0x7F" and
    "ucast (ucast (n AND 0x7F) AND 0x7F :: byte) = n AND 0x7F" and
    "(ucast (n AND 0x7F) OR 0x80 :: byte) AND 0x80 \<noteq> 0" and "(ucast (n AND 0x7F) :: byte) AND 0x80 = 0" and
    "push_bit 7 (drop_bit 7 n) OR (n AND 0x7F) = n"
proof -
  have m: "(0x7F :: 'a word) = mask 7" "(0x7F :: byte) = mask 7" by (simp_all add: mask_numeral)
  obtain h where h: "(0x80 :: byte) = h" by blast
  have "bit (push_bit 7 1 :: byte) k \<longleftrightarrow> k = 7" for k by (subst bit_push_bit_iff) (auto simp: bit_1_iff)
  then have b: "bit h k \<longleftrightarrow> k = 7" for k by (simp add: h [symmetric])
  show "ucast ((ucast (n AND 0x7F) OR 0x80 :: byte) AND 0x7F) = n AND 0x7F"
    unfolding m h by (rule bit_eqI) (auto simp: bit_simps b)
  show "ucast (ucast (n AND 0x7F) AND 0x7F :: byte) = n AND 0x7F"
    unfolding m by (rule bit_eqI) (auto simp: bit_simps)
  have "bit ((ucast (n AND 0x7F) OR h :: byte) AND h) 7" by (simp add: bit_simps b)
  then show "(ucast (n AND 0x7F) OR 0x80 :: byte) AND 0x80 \<noteq> 0" unfolding h by auto
  show "(ucast (n AND 0x7F) :: byte) AND 0x80 = 0"
    unfolding m h by (rule bit_eqI) (auto simp: bit_simps b)
  show "push_bit 7 (drop_bit 7 n) OR (n AND 0x7F) = n"
    unfolding m by (rule bit_eqI) (auto simp: bit_simps)
qed

lemma unat_drop_bit_7: "unat (drop_bit 7 (n :: 'a :: len word)) = unat n div 128"
  using unsigned_less [of n] by (simp only: unsigned_drop_bit_eq) (simp add: drop_bit_eq_div take_bit_nat_eq_self)

lemma varint_last: "n \<le> (0x7F :: 'a :: len word) \<Longrightarrow> unat n < 128 \<and> drop_bit 7 n = 0"
proof -
  assume "n \<le> 0x7F"
  then have "unat n \<le> unat (of_nat 127 :: 'a word)" by (simp add: word_le_nat_alt)
  also have "\<dots> \<le> 127" by (simp only: unat_of_nat mod_less_eq_dividend)
  finally have "unat n < 128" by simp
  then show ?thesis using unat_drop_bit_7 [of n] by (simp add: unat_eq_zero)
qed

lemma read_varint_cont:
  "read_varint_loop 0 (rev (varint_tmp (Suc k) n) @ s) = read_varint_loop (n + 1) s"
proof (induction k n arbitrary: s rule: varint_tmp.induct)
  case (1 k n)
  show ?case
  proof (cases "n \<le> 0x7F")
    case True
    then show ?thesis using varint_byte [of n] varint_last [OF True]
      by (subst varint_tmp.simps) (simp add: Let_def)
  next
    case False
    then show ?thesis using 1 [OF refl False] varint_byte [of n]
      by (subst varint_tmp.simps) (simp add: Let_def)
  qed
qed

lemma ReadVarInt_Write: "ReadVarInt (WriteVarInt n @ s) = Inr (n, s)"
proof (cases "n \<le> 0x7F")
  case True
  then show ?thesis using varint_byte [of n] varint_last [OF True]
    by (simp add: ReadVarInt_def WriteVarInt_def varint_tmp.simps [of 0 n])
next
  case False
  then show ?thesis using varint_byte [of n]
    by (simp add: ReadVarInt_def WriteVarInt_def varint_tmp.simps [of 0 n] read_varint_cont)
qed

interpretation varint_codec: codec WriteVarInt ReadVarInt "\<lambda>_. True"
  by unfold_locales (rule ReadVarInt_Write)

lemma length_varint_tmp: "length (varint_tmp len n) = GetSizeOfVarInt n"
  by (induction len n rule: varint_tmp.induct)
    (subst varint_tmp.simps, subst GetSizeOfVarInt.simps, simp add: Let_def)

lemma GetSizeOfVarInt_bound:
  "0 < w \<Longrightarrow> unat n < 2 ^ w \<Longrightarrow> GetSizeOfVarInt n \<le> (w + 6) div 7"
proof (induction n arbitrary: w rule: GetSizeOfVarInt.induct)
  case (1 n)
  show ?case
  proof (cases "n \<le> 0x7F")
    case True
    then show ?thesis using 1(2) by (subst GetSizeOfVarInt.simps) simp
  next
    case False
    note d = varint_decr [OF False]
    have w: "7 < w"
    proof (rule ccontr)
      assume "\<not> 7 < w"
      then have "(2 :: nat) ^ w \<le> 2 ^ 7" by (intro power_increasing) simp_all
      then show False using 1(3) d(2) by simp
    qed
    have "(2 :: nat) ^ w = 2 ^ (w - 7) * 2 ^ 7" using w by (subst power_add [symmetric]) simp
    then have "unat n div 128 < 2 ^ (w - 7)" using 1(3) by (simp add: less_mult_imp_div_less)
    then have "GetSizeOfVarInt (drop_bit 7 n - 1) \<le> (w - 7 + 6) div 7"
      using w d by (intro 1(1) [OF False]) simp_all
    moreover have "(w + 6) div 7 = Suc ((w - 7 + 6) div 7)" using w by (simp add: le_div_geq)
    ultimately show ?thesis using False by (subst GetSizeOfVarInt.simps) simp
  qed
qed

text \<open>
  The comment of the source says that every integer has exactly one encoding.  The reader drops the
  bits that do not fit, so for a fixed-width type longer encodings of small integers exist.
\<close>

lemma ReadVarInt_not_injective:
  "ReadVarInt [0x8E, 0xFE, 0xFE, 0xFF, 0x00] = Inr (0 :: u32, []) \<and> WriteVarInt (0 :: u32) = [0x00]"
  by code_simp

section \<open>Properties\<close>

text \<open>
  Compact sizes.  What \<open>WriteCompactSize\<close> writes is read back, or refused as too large exactly
  above \<open>MAX_SIZE\<close>; \<open>ReadCompactSize\<close> accepts no other byte strings than those (a size has one
  encoding); and \<open>GetSizeOfCompactSize\<close> is the number of bytes written.
\<close>

theorem compact_size_roundtrip:
  "ReadCompactSize (WriteCompactSize n @ s) = (if unat n > MAX_SIZE then Inl SizeTooLarge else Inr (unat n, s)) \<and>
   (ReadCompactSize t = Inr (m, s) \<longleftrightarrow> m \<le> MAX_SIZE \<and> t = WriteCompactSize (of_nat m) @ s) \<and>
   length (WriteCompactSize n) = GetSizeOfCompactSize n"
  using ReadCompactSize_Write size_codec.unser_iff [of t m s] length_WriteCompactSize
  by (simp add: write_size_def)

text \<open>
  Variable-length integers of any word size.  \<open>ReadVarInt\<close> inverts \<open>WriteVarInt\<close>, whatever
  follows in the stream; \<open>GetSizeOfVarInt\<close> is the number of bytes written; and the loop of
  \<open>WriteVarInt\<close> never leaves its buffer of \<open>(sizeof(n) * 8 + 6) / 7\<close> bytes.
\<close>

theorem varint_roundtrip:
  "ReadVarInt (WriteVarInt (n :: 'a :: len word) @ s) = Inr (n, s) \<and>
   length (WriteVarInt n) = GetSizeOfVarInt n \<and> length (varint_tmp 0 n) \<le> (LENGTH('a) + 6) div 7"
  using ReadVarInt_Write GetSizeOfVarInt_bound [of "LENGTH('a)" n]
  by (simp add: WriteVarInt_def length_varint_tmp)

end
