(* ===== verification/Streams.thy ===== *)
theory Streams
  imports Serialize
begin

text \<open>
  In-memory streams: \<open>CBaseDataStream\<close> and \<open>CVectorWriter\<close> of \<open>src/src/streams.h\<close>.  A data stream is
  a vector and a read position; its content is the unread suffix.  An iterator is an index into the
  vector.  The next read position is an \<open>unsigned int\<close>, so it is computed modulo \<open>2 ^ 32\<close>; the copy
  that follows a wrapped check reads out of bounds, the error \<open>OutOfBounds\<close> (undefined behaviour).
\<close>

section \<open>Data streams\<close>

datatype stream_error = ReadEndOfData | IgnoreNegative | IgnoreEndOfData | OutOfBounds | AssertionFailure

record CDataStream =
  ds_vch :: "byte list"
  ds_pos :: nat
  ds_type :: int
  ds_version :: int

definition ds_init :: "byte list \<Rightarrow> int \<Rightarrow> int \<Rightarrow> CDataStream" where
  "ds_init vchIn nTypeIn nVersionIn = \<lparr>ds_vch = vchIn, ds_pos = 0, ds_type = nTypeIn, ds_version = nVersionIn\<rparr>"

definition ds_str :: "CDataStream \<Rightarrow> byte list" where
  "ds_str s = drop (ds_pos s) (ds_vch s)"

definition ds_size :: "CDataStream \<Rightarrow> nat" where
  "ds_size s = length (ds_vch s) - ds_pos s"

definition ds_empty :: "CDataStream \<Rightarrow> bool" where
  "ds_empty s \<longleftrightarrow> length (ds_vch s) = ds_pos s"

definition ds_eof :: "CDataStream \<Rightarrow> bool" where
  "ds_eof s \<longleftrightarrow> ds_size s = 0"

definition ds_append :: "CDataStream \<Rightarrow> CDataStream \<Rightarrow> CDataStream" where
  "ds_append s b = s\<lparr>ds_vch := ds_vch s @ ds_str b\<rparr>"

definition ds_resize :: "CDataStream \<Rightarrow> nat \<Rightarrow> byte \<Rightarrow> CDataStream" where
  "ds_resize s n c = s\<lparr>ds_vch := take (n + ds_pos s) (ds_vch s) @ replicate (n + ds_pos s - length (ds_vch s)) c\<rparr>"

definition ds_nth :: "CDataStream \<Rightarrow> nat \<Rightarrow> byte" where
  "ds_nth s i = ds_vch s ! (i + ds_pos s)"

definition ds_clear :: "CDataStream \<Rightarrow> CDataStream" where
  "ds_clear s = s\<lparr>ds_vch := [], ds_pos := 0\<rparr>"

definition ds_insert :: "CDataStream \<Rightarrow> nat \<Rightarrow> byte list \<Rightarrow> CDataStream" where
  "ds_insert s it xs =
     (if xs = [] then s
      else if it = ds_pos s \<and> length xs \<le> ds_pos s
      then s\<lparr>ds_pos := ds_pos s - length xs, ds_vch := copy_into (ds_vch s) (ds_pos s - length xs) xs\<rparr>
      else s\<lparr>ds_vch := take it (ds_vch s) @ xs @ drop it (ds_vch s)\<rparr>)"

definition ds_erase1 :: "CDataStream \<Rightarrow> nat \<Rightarrow> CDataStream" where
  "ds_erase1 s it =
     (if it = ds_pos s
      then (if ds_pos s + 1 \<ge> length (ds_vch s) then s\<lparr>ds_pos := 0, ds_vch := []\<rparr>
            else s\<lparr>ds_pos := ds_pos s + 1\<rparr>)
      else s\<lparr>ds_vch := take it (ds_vch s) @ drop (it + 1) (ds_vch s)\<rparr>)"

definition ds_erase :: "CDataStream \<Rightarrow> nat \<Rightarrow> nat \<Rightarrow> CDataStream" where
  "ds_erase s i j =
     (if i = ds_pos s
      then (if j = length (ds_vch s) then s\<lparr>ds_pos := 0, ds_vch := []\<rparr> else s\<lparr>ds_pos := j\<rparr>)
      else s\<lparr>ds_vch := take i (ds_vch s) @ drop j (ds_vch s)\<rparr>)"

definition ds_Compact :: "CDataStream \<Rightarrow> CDataStream" where
  "ds_Compact s = s\<lparr>ds_vch := drop (ds_pos s) (ds_vch s), ds_pos := 0\<rparr>"

definition ds_Rewind :: "CDataStream \<Rightarrow> nat \<Rightarrow> bool \<times> CDataStream" where
  "ds_Rewind s n = (if n > ds_pos s then (False, s) else (True, s\<lparr>ds_pos := ds_pos s - n\<rparr>))"

definition ds_read :: "CDataStream \<Rightarrow> nat \<Rightarrow> stream_error + (byte list \<times> CDataStream)" where
  "ds_read s nSize =
     (if nSize = 0 then Inr ([], s)
      else let nReadPosNext = (ds_pos s + nSize) mod 2 ^ 32
           in if nReadPosNext > length (ds_vch s) then Inl ReadEndOfData
              else if ds_pos s + nSize > length (ds_vch s) then Inl OutOfBounds
              else let pch = take nSize (drop (ds_pos s) (ds_vch s))
                   in if nReadPosNext = length (ds_vch s) then Inr (pch, s\<lparr>ds_pos := 0, ds_vch := []\<rparr>)
                      else Inr (pch, s\<lparr>ds_pos := nReadPosNext\<rparr>))"

definition ds_movePos :: "CDataStream \<Rightarrow> nat \<Rightarrow> CDataStream" where
  "ds_movePos s nSize = s\<lparr>ds_pos := (ds_pos s + nSize) mod 2 ^ 32\<rparr>"

definition ds_ignore :: "CDataStream \<Rightarrow> int \<Rightarrow> stream_error + CDataStream" where
  "ds_ignore s nSize =
     (if nSize < 0 then Inl IgnoreNegative
      else let nReadPosNext = (ds_pos s + nat nSize) mod 2 ^ 32
           in if nReadPosNext \<ge> length (ds_vch s)
              then (if nReadPosNext > length (ds_vch s) then Inl IgnoreEndOfData
                    else Inr (s\<lparr>ds_pos := 0, ds_vch := []\<rparr>))
              else Inr (s\<lparr>ds_pos := nReadPosNext\<rparr>))"

definition ds_write :: "CDataStream \<Rightarrow> byte list \<Rightarrow> CDataStream" where
  "ds_write s pch = s\<lparr>ds_vch := ds_vch s @ pch\<rparr>"

definition ds_Serialize :: "CDataStream \<Rightarrow> byte list" where
  "ds_Serialize s = (if ds_vch s \<noteq> [] then ds_vch s else [])"

definition ds_GetAndClear :: "CDataStream \<Rightarrow> byte list \<Rightarrow> byte list \<times> CDataStream" where
  "ds_GetAndClear s data = (data @ ds_str s, ds_clear s)"

section \<open>Vector writers\<close>

record CVectorWriter =
  vw_data :: "byte list"
  vw_pos :: nat

definition vec_resize :: "nat \<Rightarrow> byte list \<Rightarrow> byte list" where
  "vec_resize n v = take n v @ replicate (n - length v) 0"

definition vw_new :: "byte list \<Rightarrow> nat \<Rightarrow> CVectorWriter" where
  "vw_new vchDataIn nPosIn =
     \<lparr>vw_data = (if nPosIn > length vchDataIn then vec_resize nPosIn vchDataIn else vchDataIn), vw_pos = nPosIn\<rparr>"

definition vw_write :: "CVectorWriter \<Rightarrow> byte list \<Rightarrow> stream_error + CVectorWriter" where
  "vw_write w pch =
     (if \<not> vw_pos w \<le> length (vw_data w) then Inl AssertionFailure
      else let nOverwrite = min (length pch) (length (vw_data w) - vw_pos w);
               d = (if nOverwrite \<noteq> 0 then copy_into (vw_data w) (vw_pos w) (take nOverwrite pch) else vw_data w);
               d = (if nOverwrite < length pch then d @ drop nOverwrite pch else d)
           in Inr \<lparr>vw_data = d, vw_pos = vw_pos w + length pch\<rparr>)"

definition vw_seek :: "CVectorWriter \<Rightarrow> nat \<Rightarrow> CVectorWriter" where
  "vw_seek w nSize = (let p = vw_pos w + nSize
     in \<lparr>vw_data = (if p > length (vw_data w) then vec_resize p (vw_data w) else vw_data w), vw_pos = p\<rparr>)"

section \<open>Queues of bytes\<close>

text \<open>
  What serialisation relies on: a stream has a content; reading takes from its front or fails,
  writing appends to its end.
\<close>

locale byte_queue =
  fixes content :: "'s \<Rightarrow> byte list" and inv :: "'s \<Rightarrow> bool" and fits :: "nat \<Rightarrow> 's \<Rightarrow> bool"
    and rd :: "'s \<Rightarrow> nat \<Rightarrow> 'e + (byte list \<times> 's)" and wr :: "'s \<Rightarrow> byte list \<Rightarrow> 's"
  assumes rd_ok: "inv s \<Longrightarrow> fits n s \<Longrightarrow> n \<le> length (content s) \<Longrightarrow>
      \<exists>s'. rd s n = Inr (take n (content s), s') \<and> inv s' \<and> content s' = drop n (content s) \<and> (\<forall>m. fits m s \<longrightarrow> fits m s')"
    and rd_fail: "inv s \<Longrightarrow> fits n s \<Longrightarrow> length (content s) < n \<Longrightarrow> \<exists>e. rd s n = Inl e"
    and wr_ok: "inv s \<Longrightarrow> inv (wr s bs) \<and> content (wr s bs) = content s @ bs"
begin

text \<open>One reader over the stream: success and failure agree with reading the content.\<close>

lemma rd_refines:
  assumes "inv s" and "fits n s"
  shows "case read_bytes n (content s) of
      Inl _ \<Rightarrow> \<exists>e. rd s n = Inl e
    | Inr (bs, rest) \<Rightarrow> \<exists>s'. rd s n = Inr (bs, s') \<and> inv s' \<and> content s' = rest"
  using rd_ok [OF assms] rd_fail [OF assms] by (auto simp: read_bytes_def not_le)

text \<open>What is written to an empty stream is read back in order.\<close>

lemma write_then_read:
  assumes "inv s" and "content s = []" and "fits (length a) (wr (wr s a) b)" and "fits (length b) (wr (wr s a) b)"
  shows "\<exists>s1 s2. rd (wr (wr s a) b) (length a) = Inr (a, s1) \<and> rd s1 (length b) = Inr (b, s2) \<and> content s2 = []"
proof -
  let ?s = "wr (wr s a) b"
  have c: "inv ?s" "content ?s = a @ b" using wr_ok assms(1,2) by simp_all
  then obtain s1 where s1: "rd ?s (length a) = Inr (a, s1)" "inv s1" "content s1 = b" "fits (length b) s1"
    using rd_ok [OF c(1) assms(3)] assms(4) by auto
  then show ?thesis using rd_ok [of s1 "length b"] by auto
qed

end

definition ds_ok :: "CDataStream \<Rightarrow> bool" where
  "ds_ok s \<longleftrightarrow> ds_pos s \<le> length (ds_vch s)"

lemma ds_read_cases:
  assumes "ds_ok s" and "ds_pos s + n < 2 ^ 32"
  shows "n \<le> length (ds_str s) \<Longrightarrow> \<exists>s'. ds_read s n = Inr (take n (ds_str s), s') \<and> ds_ok s' \<and>
      ds_str s' = drop n (ds_str s) \<and> ds_pos s' \<le> ds_pos s + n"
    and "length (ds_str s) < n \<Longrightarrow> ds_read s n = Inl ReadEndOfData"
proof -
  have p: "(ds_pos s + n) mod 2 ^ 32 = ds_pos s + n" using assms(2) by (rule mod_less)
  show "\<exists>s'. ds_read s n = Inr (take n (ds_str s), s') \<and> ds_ok s' \<and> ds_str s' = drop n (ds_str s) \<and> ds_pos s' \<le> ds_pos s + n"
    if "n \<le> length (ds_str s)"
    using assms(1) that unfolding ds_read_def Let_def p
    by (auto simp: ds_str_def ds_ok_def add.commute)
  show "ds_read s n = Inl ReadEndOfData" if "length (ds_str s) < n"
    using assms(1) that unfolding ds_read_def Let_def p by (auto simp: ds_str_def ds_ok_def)
qed

interpretation data_stream: byte_queue ds_str ds_ok "\<lambda>n s. length (ds_vch s) + n < 2 ^ 32" ds_read ds_write
proof
  fix s n bs
  assume ok: "ds_ok s"
  show "ds_ok (ds_write s bs) \<and> ds_str (ds_write s bs) = ds_str s @ bs"
    using ok by (auto simp: ds_ok_def ds_str_def ds_write_def)
  assume "length (ds_vch s) + n < 2 ^ 32"
  then have n: "ds_pos s + n < 2 ^ 32" using ok by (simp add: ds_ok_def)
  show "\<exists>e. ds_read s n = Inl e" if "length (ds_str s) < n" using ds_read_cases(2) [OF ok n that] by blast
  assume le: "n \<le> length (ds_str s)"
  then obtain s' where s': "ds_read s n = Inr (take n (ds_str s), s')" "ds_ok s'" "ds_str s' = drop n (ds_str s)"
    using ds_read_cases(1) [OF ok n] by blast
  moreover have "length (ds_vch s') \<le> length (ds_vch s)"
    using s'(1) by (auto simp: ds_read_def Let_def split: if_splits)
  ultimately show "\<exists>s'. ds_read s n = Inr (take n (ds_str s), s') \<and> ds_ok s' \<and> ds_str s' = drop n (ds_str s) \<and>
      (\<forall>m. length (ds_vch s) + m < 2 ^ 32 \<longrightarrow> length (ds_vch s') + m < 2 ^ 32)" by fastforce
qed

section \<open>Editing\<close>

lemma ds_ignore_cases:
  assumes "ds_ok s" and "ds_pos s + n < 2 ^ 32"
  shows "n \<le> length (ds_str s) \<Longrightarrow> \<exists>s'. ds_ignore s (int n) = Inr s' \<and> ds_ok s' \<and> ds_str s' = drop n (ds_str s)"
    and "length (ds_str s) < n \<Longrightarrow> ds_ignore s (int n) = Inl IgnoreEndOfData"
proof -
  have p: "(ds_pos s + nat (int n)) mod 2 ^ 32 = ds_pos s + n" using assms(2) by (subst nat_int) (rule mod_less)
  show "\<exists>s'. ds_ignore s (int n) = Inr s' \<and> ds_ok s' \<and> ds_str s' = drop n (ds_str s)" if "n \<le> length (ds_str s)"
    using assms(1) that unfolding ds_ignore_def Let_def p
    by (auto simp: ds_str_def ds_ok_def add.commute)
  show "ds_ignore s (int n) = Inl IgnoreEndOfData" if "length (ds_str s) < n"
    using assms(1) that unfolding ds_ignore_def Let_def p by (auto simp: ds_str_def ds_ok_def)
qed

lemma ds_insert_content:
  assumes "ds_ok s" and "ds_pos s \<le> it" and "it \<le> length (ds_vch s)"
  shows "ds_ok (ds_insert s it xs) \<and>
    ds_str (ds_insert s it xs) = take (it - ds_pos s) (ds_str s) @ xs @ drop (it - ds_pos s) (ds_str s)"
proof (cases "xs = []")
  case True
  then show ?thesis using assms(1) by (simp add: ds_insert_def)
next
  case False
  then show ?thesis using assms by (auto simp: ds_insert_def ds_str_def ds_ok_def copy_into_def drop_take min_def)
qed

lemma ds_erase_content:
  assumes "ds_ok s" and "ds_pos s \<le> i" and "i \<le> j" and "j \<le> length (ds_vch s)"
  shows "ds_ok (ds_erase s i j) \<and>
    ds_str (ds_erase s i j) = take (i - ds_pos s) (ds_str s) @ drop (j - ds_pos s) (ds_str s)"
  using assms by (auto simp: ds_erase_def ds_str_def ds_ok_def drop_take)

lemma ds_erase1_is_erase:
  "ds_ok s \<Longrightarrow> ds_pos s \<le> i \<Longrightarrow> i < length (ds_vch s) \<Longrightarrow> ds_erase1 s i = ds_erase s i (i + 1)"
  by (auto simp: ds_erase1_def ds_erase_def)

lemma ds_housekeeping:
  assumes "ds_ok s"
  shows "ds_str (ds_Compact s) = ds_str s" and "ds_str (ds_clear s) = []" and "ds_size s = length (ds_str s)"
    and "ds_empty s \<longleftrightarrow> ds_str s = []" and "ds_str (ds_append s b) = ds_str s @ ds_str b"
    and "length (ds_str (ds_resize s n c)) = n" and "ds_ok (ds_Compact s)"
  using assms by (auto simp: ds_Compact_def ds_clear_def ds_size_def ds_empty_def ds_append_def ds_resize_def ds_str_def ds_ok_def)

text \<open>
  The next position wraps: a read of \<open>2 ^ 32\<close> bytes passes the check and copies out of bounds.  Sizes
  that come from a stream are at most \<open>MAX_SIZE\<close>, so deserialisation does not reach this.
\<close>

lemma ds_read_wraps: "ds_read (ds_init [1, 2] 1 0) (2 ^ 32) = Inl OutOfBounds"
  by (simp add: ds_read_def ds_init_def)

text \<open>
  A vector writer overwrites from its position and grows the vector as needed: its assertion
  holds, bytes before the position are kept, and so are those after the last byte written.
\<close>

lemma vector_writer_overwrites:
  assumes "vw_pos w \<le> length (vw_data w)"
  shows "\<exists>w'. vw_write w pch = Inr w' \<and> vw_pos w' = vw_pos w + length pch \<and> vw_pos w' \<le> length (vw_data w') \<and>
    vw_data w' = take (vw_pos w) (vw_data w) @ pch @ drop (vw_pos w + length pch) (vw_data w)"
  using assms by (auto simp: vw_write_def Let_def copy_into_def min_def)

section \<open>Properties\<close>

text \<open>
  A data stream is a queue of bytes.  Reading and ignoring take exactly the requested bytes from
  the front or fail without having consumed anything, for every request that does not wrap the
  \<open>unsigned int\<close> position; writing appends; inserting and erasing edit the unread content only, also
  in the special cases at the front that move the read position; and the buffer that is cleared when
  the last byte is read leaves an empty stream that can be written again.
\<close>

theorem data_stream_is_queue:
  assumes "ds_ok s" and "length (ds_vch s) + n < 2 ^ 32" and "ds_pos s \<le> i" and "i \<le> j" and "j \<le> length (ds_vch s)"
  shows "(case read_bytes n (ds_str s) of
      Inl _ \<Rightarrow> (\<exists>e. ds_read s n = Inl e) \<and> ds_ignore s (int n) = Inl IgnoreEndOfData
    | Inr (bs, rest) \<Rightarrow>
        (\<exists>s1. ds_read s n = Inr (bs, s1) \<and> ds_ok s1 \<and> ds_str s1 = rest) \<and>
        (\<exists>s2. ds_ignore s (int n) = Inr s2 \<and> ds_ok s2 \<and> ds_str s2 = rest)) \<and>
    ds_str (ds_write s xs) = ds_str s @ xs \<and>
    ds_str (ds_insert s i xs) = take (i - ds_pos s) (ds_str s) @ xs @ drop (i - ds_pos s) (ds_str s) \<and>
    ds_str (ds_erase s i j) = take (i - ds_pos s) (ds_str s) @ drop (j - ds_pos s) (ds_str s)"
proof -
  have n: "ds_pos s + n < 2 ^ 32" using assms(1,2) by (simp add: ds_ok_def)
  have "case read_bytes n (ds_str s) of
      Inl _ \<Rightarrow> (\<exists>e. ds_read s n = Inl e) \<and> ds_ignore s (int n) = Inl IgnoreEndOfData
    | Inr (bs, rest) \<Rightarrow>
        (\<exists>s1. ds_read s n = Inr (bs, s1) \<and> ds_ok s1 \<and> ds_str s1 = rest) \<and>
        (\<exists>s2. ds_ignore s (int n) = Inr s2 \<and> ds_ok s2 \<and> ds_str s2 = rest)"
    using data_stream.rd_refines [OF assms(1,2)] ds_ignore_cases [OF assms(1) n]
    by (auto simp: read_bytes_def not_le split: sum.splits)
  then show ?thesis
    using data_stream.wr_ok [OF assms(1)] ds_insert_content [OF assms(1,3)] ds_erase_content [OF assms(1,3-5)] assms(4,5)
    by simp
qed

theorem data_stream_is_queue_witness:
  "\<exists>s1. ds_read (ds_init [1, 2, 3] 1 0) 2 = Inr ([1, 2], s1) \<and> ds_str s1 = [3]"
proof -
  have "ds_ok (ds_init [1, 2, 3] 1 0)" "length (ds_vch (ds_init [1, 2, 3] 1 0)) + 2 < 2 ^ 32"
    "ds_pos (ds_init [1, 2, 3] 1 0) \<le> 0" "0 \<le> (0 :: nat)" "0 \<le> length (ds_vch (ds_init [1, 2, 3] 1 0))"
    by (simp_all add: ds_ok_def ds_init_def)
  from data_stream_is_queue [OF this, of "[]"] show ?thesis
    by (auto simp: read_bytes_def ds_str_def ds_init_def)
qed

end
