(* ===== verification/BufferedFile.thy ===== *)
theory BufferedFile
  imports Bytes "HOL-Library.Monad_Syntax"
begin

text \<open>
  \<open>CBufferedFile\<close> of \<open>src/src/streams.h\<close>: a ring buffer over a file that guarantees to rewind
  \<open>nRewind\<close> bytes.  The file is its contents; \<open>fread\<close> returns what is left of it, at most what was asked
  for, and its position is \<open>nSrcPos\<close>, which only \<open>Fill\<close> and \<open>Seek\<close> move; the end-of-file indicator is
  \<open>bf_feof\<close>, set by a short read and cleared by \<open>fseek\<close>.  An exception carries the state it leaves.  Positions are \<open>uint64_t\<close>;
  indices into the buffer are \<open>unsigned int\<close>.  The loops are partial functions: \<open>None\<close> is a loop that
  does not end.
\<close>

datatype file_error = EndOfFile | PastLimit | LargerThanBuffer

record CBufferedFile =
  bf_src :: nat
  bf_pos :: nat
  bf_limit :: nat
  bf_rewind :: nat
  bf_buf :: "byte list"
  bf_feof :: bool

type_synonym file_failure = "file_error \<times> CBufferedFile"

definition bf_new :: "nat \<Rightarrow> nat \<Rightarrow> CBufferedFile" where
  "bf_new nBufSize nRewindIn =
     \<lparr>bf_src = 0, bf_pos = 0, bf_limit = 2 ^ 64 - 1, bf_rewind = nRewindIn, bf_buf = replicate nBufSize 0, bf_feof = False\<rparr>"

text \<open>\<open>Fill\<close>: where it reads to, how much it asks for, and the read.\<close>

definition bf_fill_pos :: "CBufferedFile \<Rightarrow> nat" where
  "bf_fill_pos st = (bf_src st mod length (bf_buf st)) mod 2 ^ 32"

definition bf_fill_size :: "CBufferedFile \<Rightarrow> nat" where
  "bf_fill_size st =
     (let readNow = (length (bf_buf st) - bf_fill_pos st) mod 2 ^ 32;
          nAvail = nat ((int (length (bf_buf st)) - (int (bf_src st) - int (bf_pos st)) - int (bf_rewind st)) mod 2 ^ 32)
      in if nAvail < readNow then nAvail else readNow)"

definition bf_Fill :: "byte list \<Rightarrow> CBufferedFile \<Rightarrow> file_failure + CBufferedFile" where
  "bf_Fill file st =
     (if bf_fill_size st = 0 then Inr st
      else let chunk = take (bf_fill_size st) (drop (bf_src st) file)
           in if length chunk = 0 then Inl (EndOfFile, st\<lparr>bf_feof := True\<rparr>)
              else Inr (st\<lparr>bf_buf := copy_into (bf_buf st) (bf_fill_pos st) chunk, bf_src := bf_src st + length chunk,
                     bf_feof := (length chunk < bf_fill_size st \<or> bf_feof st)\<rparr>))"

definition bf_need :: "byte list \<Rightarrow> CBufferedFile \<Rightarrow> file_failure + CBufferedFile" where
  "bf_need file st = (if bf_pos st = bf_src st then bf_Fill file st else Inr st)"

text \<open>One round of the loop of \<open>read\<close>: how many bytes it copies, and which.\<close>

definition bf_now :: "CBufferedFile \<Rightarrow> nat \<Rightarrow> nat" where
  "bf_now st nSize =
     (let pos = (bf_pos st mod length (bf_buf st)) mod 2 ^ 32;
          nNow = (if nSize + pos > length (bf_buf st) then length (bf_buf st) - pos else nSize)
      in if nNow + bf_pos st > bf_src st then bf_src st - bf_pos st else nNow)"

definition bf_chunk :: "CBufferedFile \<Rightarrow> nat \<Rightarrow> byte list" where
  "bf_chunk st nNow = take nNow (drop ((bf_pos st mod length (bf_buf st)) mod 2 ^ 32) (bf_buf st))"

partial_function (option) bf_read_loop ::
    "byte list \<Rightarrow> CBufferedFile \<Rightarrow> nat \<Rightarrow> byte list \<Rightarrow> (file_failure + (byte list \<times> CBufferedFile)) option" where
  "bf_read_loop file st nSize pch =
     (if nSize > 0
      then (case bf_need file st of
          Inl e \<Rightarrow> Some (Inl e)
        | Inr st1 \<Rightarrow> let nNow = bf_now st1 nSize
            in bf_read_loop file (st1\<lparr>bf_pos := bf_pos st1 + nNow\<rparr>) (nSize - nNow) (pch @ bf_chunk st1 nNow))
      else Some (Inr (pch, st)))"

definition bf_read :: "byte list \<Rightarrow> CBufferedFile \<Rightarrow> nat \<Rightarrow> (file_failure + (byte list \<times> CBufferedFile)) option" where
  "bf_read file st nSize =
     (if (nSize + bf_pos st) mod 2 ^ 64 > bf_limit st then Some (Inl (PastLimit, st))
      else if (nSize + bf_rewind st) mod 2 ^ 64 > length (bf_buf st) then Some (Inl (LargerThanBuffer, st))
      else bf_read_loop file st nSize [])"

definition bf_SetPos :: "CBufferedFile \<Rightarrow> nat \<Rightarrow> bool \<times> CBufferedFile" where
  "bf_SetPos st nPos =
     (if (nPos + bf_rewind st) mod 2 ^ 64 < bf_src st then (False, st\<lparr>bf_pos := bf_src st - bf_rewind st\<rparr>)
      else if nPos > bf_src st then (False, st\<lparr>bf_pos := bf_src st\<rparr>)
      else (True, st\<lparr>bf_pos := nPos\<rparr>))"

definition bf_Seek :: "CBufferedFile \<Rightarrow> nat \<Rightarrow> bool \<times> CBufferedFile" where
  "bf_Seek st nPos = (if nPos \<ge> 2 ^ 63 then (False, st) else (True, st\<lparr>bf_src := nPos, bf_pos := nPos, bf_feof := False\<rparr>))"

definition bf_SetLimit :: "CBufferedFile \<Rightarrow> nat \<Rightarrow> bool \<times> CBufferedFile" where
  "bf_SetLimit st nPos = (if nPos < bf_pos st then (False, st) else (True, st\<lparr>bf_limit := nPos\<rparr>))"

definition bf_eof :: "CBufferedFile \<Rightarrow> bool" where
  "bf_eof st \<longleftrightarrow> bf_pos st = bf_src st \<and> bf_feof st"

partial_function (option) bf_FindByte :: "byte list \<Rightarrow> CBufferedFile \<Rightarrow> byte \<Rightarrow> (file_failure + CBufferedFile) option" where
  "bf_FindByte file st ch =
     (case bf_need file st of
        Inl e \<Rightarrow> Some (Inl e)
      | Inr st1 \<Rightarrow>
          if bf_buf st1 ! (bf_pos st1 mod length (bf_buf st1)) = ch then Some (Inr st1)
          else bf_FindByte file (st1\<lparr>bf_pos := bf_pos st1 + 1\<rparr>) ch)"

section \<open>The ring buffer\<close>

text \<open>
  From position \<open>lo\<close> on, the last \<open>size\<close> bytes before \<open>nSrcPos\<close> are in the buffer, each at its position
  modulo \<open>size\<close>.  (\<open>lo\<close> is 0 unless \<open>Seek\<close> skipped a part of the file.)
\<close>

definition bf_inv :: "nat \<Rightarrow> byte list \<Rightarrow> CBufferedFile \<Rightarrow> bool" where
  "bf_inv lo file st \<longleftrightarrow> (let sz = length (bf_buf st) in
     sz < 2 ^ 32 \<and> bf_rewind st < sz \<and> lo \<le> bf_pos st \<and> bf_pos st \<le> bf_src st \<and>
     bf_src st \<le> bf_pos st + sz \<and> bf_src st \<le> length file \<and>
     (\<forall>i. lo \<le> i \<longrightarrow> i < bf_src st \<longrightarrow> bf_src st \<le> i + sz \<longrightarrow> bf_buf st ! (i mod sz) = file ! i))"

lemma mod_add_small: "(p :: nat) mod sz + k < sz \<Longrightarrow> (p + k) mod sz = p mod sz + k"
  by (metis mod_add_left_eq mod_less)

lemma mod_window:
  fixes s d sz :: nat
  assumes "c \<le> d" and "d < sz" and "s mod sz + c \<le> sz"
  shows "(s + d) mod sz < s mod sz \<or> s mod sz + c \<le> (s + d) mod sz"
proof (cases "s mod sz + d < sz")
  case True
  then show ?thesis using mod_add_small [OF True] assms(1) by simp
next
  case False
  have "(s + d) mod sz = (s mod sz + d) mod sz" by (simp add: mod_add_left_eq)
  also have "\<dots> = s mod sz + d - sz" using False assms(2)
    by (subst le_mod_geq) (auto intro!: mod_less simp: less_diff_conv2 add_strict_mono)
  also have "\<dots> < s mod sz" using False assms(2) by simp
  finally show ?thesis by simp
qed

lemma nth_copy_into:
  assumes "off + length data \<le> length buf" and "k < length buf"
  shows "copy_into buf off data ! k = (if off \<le> k \<and> k < off + length data then data ! (k - off) else buf ! k)"
  using assms by (auto simp: copy_into_def nth_append min_def)

lemma fill_window:
  assumes len: "length chunk = c" "c \<le> sz - src mod sz" "0 < sz" "length buf = sz"
    and chunk: "\<And>k. k < c \<Longrightarrow> chunk ! k = file ! (src + k)"
    and win: "\<And>i. lo \<le> i \<Longrightarrow> i < src \<Longrightarrow> src \<le> i + sz \<Longrightarrow> buf ! (i mod sz) = file ! i"
    and i: "lo \<le> i" "i < src + c" "src + c \<le> i + sz"
  shows "copy_into buf (src mod sz) chunk ! (i mod sz) = file ! i"
proof -
  have p: "src mod sz < sz" using len(3) by simp
  have fits: "src mod sz + length chunk \<le> length buf" using len p by simp
  have k: "i mod sz < length buf" using len by simp
  show ?thesis
  proof (cases "src \<le> i")
    case True
    then obtain d where d: "i = src + d" "d < c" using i(2) le_Suc_ex by fastforce
    then have "i mod sz = src mod sz + d" using len p by (simp add: mod_add_small)
    then show ?thesis using d len chunk [OF d(2)] by (subst nth_copy_into [OF fits k]) simp
  next
    case False
    define d where "d = i + sz - src"
    have d: "c \<le> d" "d < sz" "src + d = i + sz" using False i(3) by (auto simp: d_def)
    have "i mod sz < src mod sz \<or> src mod sz + c \<le> i mod sz"
      using mod_window [of c d sz src, OF d(1,2)] d(3) len(2) p by simp
    then show ?thesis using win [OF i(1)] False i(3) len(1) by (auto simp: nth_copy_into [OF fits k])
  qed
qed

lemma bf_Fill_inv:
  assumes inv: "bf_inv lo file st" and at_end: "bf_pos st = bf_src st"
  shows "bf_src st < length file \<Longrightarrow> \<exists>st'. bf_Fill file st = Inr st' \<and> bf_inv lo file st' \<and> bf_src st < bf_src st' \<and>
      bf_pos st' = bf_pos st \<and> bf_rewind st' = bf_rewind st \<and> length (bf_buf st') = length (bf_buf st) \<and> bf_limit st' = bf_limit st"
    and "bf_src st = length file \<Longrightarrow> bf_Fill file st = Inl (EndOfFile, st\<lparr>bf_feof := True\<rparr>)"
proof -
  define sz src where "sz = length (bf_buf st)" and "src = bf_src st"
  have b: "sz < 2 ^ 32" "bf_rewind st < sz" "0 < sz" and le: "src \<le> length file"
    using inv by (auto simp: bf_inv_def Let_def sz_def src_def)
  have pos: "src mod sz mod 2 ^ 32 = src mod sz" using b by (meson mod_less mod_less_divisor order.strict_trans)
  have p: "src mod sz < sz" using b by simp
  have now: "(sz - src mod sz) mod 2 ^ 32 = sz - src mod sz" using b by simp
  have av: "nat ((int sz - (int src - int (bf_pos st)) - int (bf_rewind st)) mod 2 ^ 32) = sz - bf_rewind st"
  proof -
    have "int sz - (int src - int (bf_pos st)) - int (bf_rewind st) = int (sz - bf_rewind st)"
      using b at_end by (simp add: src_def of_nat_diff)
    moreover have "int (sz - bf_rewind st) < 2 ^ 32" using b by simp
    ultimately show ?thesis by (simp add: mod_pos_pos_trivial)
  qed
  define readNow where "readNow = bf_fill_size st"
  have fp: "bf_fill_pos st = src mod sz" using pos by (simp add: bf_fill_pos_def sz_def src_def)
  have "readNow = min (sz - bf_rewind st) (sz - src mod sz)"
    unfolding readNow_def bf_fill_size_def Let_def fp sz_def [symmetric] src_def [symmetric] now av min_def by simp
  then have r: "0 < readNow" "readNow \<le> sz - src mod sz" using b p by simp_all
  define chunk where "chunk = take readNow (drop src file)"
  have F: "bf_Fill file st = (if length chunk = 0 then Inl (EndOfFile, st\<lparr>bf_feof := True\<rparr>)
      else Inr (st\<lparr>bf_buf := copy_into (bf_buf st) (src mod sz) chunk, bf_src := src + length chunk,
                 bf_feof := (length chunk < readNow \<or> bf_feof st)\<rparr>))"
    using r(1) unfolding bf_Fill_def Let_def fp readNow_def [symmetric] src_def [symmetric] chunk_def [symmetric] by simp
  show "bf_Fill file st = Inl (EndOfFile, st\<lparr>bf_feof := True\<rparr>)" if "bf_src st = length file"
    using that F by (simp add: chunk_def src_def)
  assume less: "bf_src st < length file"
  have c: "0 < length chunk" "length chunk \<le> sz - src mod sz" "src + length chunk \<le> length file"
    using less r by (auto simp: chunk_def src_def)
  have win: "copy_into (bf_buf st) (src mod sz) chunk ! (i mod sz) = file ! i"
    if "lo \<le> i" "i < src + length chunk" "src + length chunk \<le> i + sz" for i
    by (rule fill_window [OF refl c(2) b(3) sz_def [symmetric] _ _ that])
      (use inv c(3) in \<open>auto simp: chunk_def bf_inv_def Let_def sz_def src_def\<close>)
  define buf where "buf = copy_into (bf_buf st) (src mod sz) chunk"
  have "length buf = sz" using c p by (simp add: sz_def buf_def)
  then show "\<exists>st'. bf_Fill file st = Inr st' \<and> bf_inv lo file st' \<and> bf_src st < bf_src st' \<and>
      bf_pos st' = bf_pos st \<and> bf_rewind st' = bf_rewind st \<and> length (bf_buf st') = length (bf_buf st) \<and> bf_limit st' = bf_limit st"
    using F c b win inv at_end p unfolding bf_inv_def Let_def buf_def [symmetric] sz_def [symmetric] src_def [symmetric]
    by auto
qed

section \<open>Reading\<close>

definition bf_same :: "CBufferedFile \<Rightarrow> CBufferedFile \<Rightarrow> bool" where
  "bf_same st st' \<longleftrightarrow> bf_rewind st' = bf_rewind st \<and> bf_limit st' = bf_limit st \<and> length (bf_buf st') = length (bf_buf st)"

text \<open>After \<open>if (nReadPos == nSrcPos) Fill ()\<close> there is something to read, or the file has ended.\<close>

lemma bf_need_inv:
  assumes "bf_inv lo file st"
  shows "bf_pos st < length file \<Longrightarrow>
      \<exists>st'. bf_need file st = Inr st' \<and> bf_inv lo file st' \<and> bf_pos st' = bf_pos st \<and> bf_pos st' < bf_src st' \<and> bf_same st st'"
    and "length file \<le> bf_pos st \<Longrightarrow> bf_need file st = Inl (EndOfFile, st\<lparr>bf_feof := True\<rparr>)"
proof -
  have le: "bf_pos st \<le> bf_src st" "bf_src st \<le> length file" using assms by (simp_all add: bf_inv_def Let_def)
  show "\<exists>st'. bf_need file st = Inr st' \<and> bf_inv lo file st' \<and> bf_pos st' = bf_pos st \<and> bf_pos st' < bf_src st' \<and> bf_same st st'"
    if "bf_pos st < length file"
  proof (cases "bf_pos st = bf_src st")
    case True
    then show ?thesis using bf_Fill_inv(1) [OF assms True] that by (force simp: bf_need_def bf_same_def)
  next
    case False
    then show ?thesis using assms le by (simp add: bf_need_def bf_same_def)
  qed
  show "bf_need file st = Inl (EndOfFile, st\<lparr>bf_feof := True\<rparr>)" if "length file \<le> bf_pos st"
    using bf_Fill_inv(2) [OF assms] that le by (simp add: bf_need_def)
qed

text \<open>One round copies at least one byte and copies it from the file.\<close>

lemma bf_round:
  assumes inv: "bf_inv lo file st" and "bf_pos st < bf_src st" and "0 < n"
  shows "0 < bf_now st n" and "bf_now st n \<le> n" and "bf_pos st + bf_now st n \<le> bf_src st"
    and "bf_chunk st (bf_now st n) = take (bf_now st n) (drop (bf_pos st) file)"
    and "bf_inv lo file (st\<lparr>bf_pos := bf_pos st + bf_now st n\<rparr>)"
proof -
  define sz where "sz = length (bf_buf st)"
  have b: "sz < 2 ^ 32" "0 < sz" "bf_src st \<le> bf_pos st + sz" "bf_src st \<le> length file" "lo \<le> bf_pos st"
    using inv by (auto simp: bf_inv_def Let_def sz_def)
  have win: "bf_buf st ! (i mod sz) = file ! i" if "lo \<le> i" "i < bf_src st" "bf_src st \<le> i + sz" for i
    using inv that by (auto simp: bf_inv_def Let_def sz_def)
  define pos where "pos = bf_pos st mod sz"
  have pos: "pos < sz" "bf_pos st mod sz mod 2 ^ 32 = pos" using b by (simp_all add: pos_def mod_less order.strict_trans [OF mod_less_divisor])
  define m where "m = bf_now st n"
  have m: "m = min (min n (sz - pos)) (bf_src st - bf_pos st)"
    using pos(1) assms(2) unfolding m_def bf_now_def Let_def sz_def [symmetric] pos(2) by auto
  show "0 < bf_now st n" "bf_now st n \<le> n" "bf_pos st + bf_now st n \<le> bf_src st"
    using m pos(1) assms(2,3) unfolding m_def [symmetric] by auto
  show "bf_inv lo file (st\<lparr>bf_pos := bf_pos st + bf_now st n\<rparr>)"
    using inv m unfolding m_def [symmetric] by (auto simp: bf_inv_def Let_def)
  have "take m (drop pos (bf_buf st)) = take m (drop (bf_pos st) file)"
  proof (rule nth_equalityI)
    show "length (take m (drop pos (bf_buf st))) = length (take m (drop (bf_pos st) file))"
      using m b pos(1) by (auto simp: sz_def min_def)
    fix k
    assume "k < length (take m (drop pos (bf_buf st)))"
    then have k: "k < m" "pos + k < sz" "bf_pos st + k < bf_src st" using m pos(1) by (auto simp: sz_def)
    then have "(bf_pos st + k) mod sz = pos + k" by (simp add: mod_add_small pos_def)
    then show "take m (drop pos (bf_buf st)) ! k = take m (drop (bf_pos st) file) ! k"
      using k m b win [of "bf_pos st + k"] by (simp add: sz_def)
  qed
  then show "bf_chunk st (bf_now st n) = take (bf_now st n) (drop (bf_pos st) file)"
    unfolding m_def [symmetric] bf_chunk_def sz_def [symmetric] pos(2) .
qed

text \<open>What \<open>read\<close> has to do: return \<open>n\<close> bytes from position \<open>p\<close> and stand behind them, or end of file.\<close>

definition bf_read_spec :: "nat \<Rightarrow> byte list \<Rightarrow> CBufferedFile \<Rightarrow> nat \<Rightarrow> byte list \<Rightarrow> file_failure + (byte list \<times> CBufferedFile) \<Rightarrow> bool" where
  "bf_read_spec lo file st n pch r \<longleftrightarrow>
     (if bf_pos st + n \<le> length file
      then \<exists>st'. r = Inr (pch @ take n (drop (bf_pos st) file), st') \<and> bf_inv lo file st' \<and>
             bf_pos st' = bf_pos st + n \<and> bf_same st st'
      else \<exists>st'. r = Inl (EndOfFile, st') \<and> bf_inv lo file st' \<and> bf_eof st' \<and> bf_same st st')"

lemma bf_read_loop_spec:
  "bf_inv lo file st \<Longrightarrow> \<exists>r. bf_read_loop file st n pch = Some r \<and> bf_read_spec lo file st n pch r"
proof (induction n arbitrary: st pch rule: less_induct)
  case (less n)
  note inv = less.prems
  have le: "bf_pos st \<le> bf_src st" "bf_src st \<le> length file" using inv by (simp_all add: bf_inv_def Let_def)
  consider "n = 0" | "0 < n" "length file \<le> bf_pos st" | "0 < n" "bf_pos st < length file" by linarith
  then show ?case
  proof cases
    case 1
    then show ?thesis using inv le by (subst bf_read_loop.simps) (simp add: bf_read_spec_def bf_same_def)
  next
    case 2
    have "bf_inv lo file (st\<lparr>bf_feof := True\<rparr>)" using inv by (simp add: bf_inv_def)
    then show ?thesis using 2 le bf_need_inv(2) [OF inv 2(2)]
      by (subst bf_read_loop.simps) (simp add: bf_read_spec_def bf_same_def bf_eof_def)
  next
    case 3
    obtain st1 where st1: "bf_need file st = Inr st1" "bf_inv lo file st1" "bf_pos st1 = bf_pos st"
      "bf_pos st1 < bf_src st1" "bf_same st st1"
      using bf_need_inv(1) [OF inv 3(2)] by blast
    define m where "m = bf_now st1 n"
    note r = bf_round [OF st1(2,4) 3(1), folded m_def]
    define st2 where "st2 = st1\<lparr>bf_pos := bf_pos st1 + m\<rparr>"
    have st2: "bf_pos st2 = bf_pos st + m" "bf_same st st2" "bf_inv lo file st2"
      using st1(3,5) r(5) by (simp_all add: st2_def bf_same_def)
    have "n - m < n" using r(1) 3(1) by simp
    from less.IH [OF this st2(3)] obtain res where
      res: "bf_read_loop file st2 (n - m) (pch @ take m (drop (bf_pos st) file)) = Some res"
      "bf_read_spec lo file st2 (n - m) (pch @ take m (drop (bf_pos st) file)) res" by blast
    have "bf_read_loop file st n pch = Some res"
      using res(1) 3(1) st1(1,3) r(4) by (subst bf_read_loop.simps) (simp add: m_def [symmetric] st2_def Let_def)
    moreover have "take n (drop (bf_pos st) file) = take m (drop (bf_pos st) file) @ take (n - m) (drop (bf_pos st + m) file)"
      using take_add [of m "n - m" "drop (bf_pos st) file"] r(2) by (simp add: add.commute)
    then have "bf_read_spec lo file st n pch res"
      using res(2) st2 r(2) by (auto simp: bf_read_spec_def bf_same_def)
    ultimately show ?thesis by blast
  qed
qed

lemma bf_SetPos_inv:
  assumes "bf_inv lo file st" and "lo + bf_rewind st \<le> bf_src st \<or> lo \<le> n" and "n + bf_rewind st < 2 ^ 64" and "lo \<le> n"
  shows "bf_inv lo file (snd (bf_SetPos st n))" and
    "fst (bf_SetPos st n) \<longleftrightarrow> bf_src st \<le> n + bf_rewind st \<and> n \<le> bf_src st"
    and "fst (bf_SetPos st n) \<Longrightarrow> bf_pos (snd (bf_SetPos st n)) = n"
  using assms by (auto simp: bf_SetPos_def bf_inv_def Let_def)

text \<open>\<open>FindByte\<close> stops at the next occurrence of the byte, or at the end of the file.\<close>

lemma bf_at: "bf_inv lo file st \<Longrightarrow> bf_pos st < bf_src st \<Longrightarrow> bf_buf st ! (bf_pos st mod length (bf_buf st)) = file ! bf_pos st"
  by (simp add: bf_inv_def Let_def)

definition bf_find_spec :: "nat \<Rightarrow> byte list \<Rightarrow> byte \<Rightarrow> nat \<Rightarrow> file_failure + CBufferedFile \<Rightarrow> bool" where
  "bf_find_spec lo file ch p r \<longleftrightarrow> (case r of
       Inr st' \<Rightarrow> bf_inv lo file st' \<and> p \<le> bf_pos st' \<and> bf_pos st' < length file \<and> file ! bf_pos st' = ch \<and>
         (\<forall>i. p \<le> i \<and> i < bf_pos st' \<longrightarrow> file ! i \<noteq> ch)
     | Inl (e, st') \<Rightarrow> e = EndOfFile \<and> bf_eof st' \<and> (\<forall>i. p \<le> i \<and> i < length file \<longrightarrow> file ! i \<noteq> ch))"

lemma bf_find_spec_miss:
  assumes "file ! p \<noteq> ch" and "bf_find_spec lo file ch (Suc p) r"
  shows "bf_find_spec lo file ch p r"
proof -
  have "p \<le> i \<longleftrightarrow> i = p \<or> Suc p \<le> i" for i by auto
  then show ?thesis using assms by (auto simp: bf_find_spec_def split: sum.splits)
qed

lemma bf_FindByte_spec:
  "bf_inv lo file st \<Longrightarrow> \<exists>r. bf_FindByte file st ch = Some r \<and> bf_find_spec lo file ch (bf_pos st) r"
proof (induction "length file - bf_pos st" arbitrary: st rule: less_induct)
  case less
  note inv = less.prems
  have le: "bf_pos st \<le> bf_src st" "bf_src st \<le> length file" using inv by (simp_all add: bf_inv_def Let_def)
  show ?case
  proof (cases "bf_pos st < length file")
    case False
    then show ?thesis using bf_need_inv(2) [OF inv] le
      by (subst bf_FindByte.simps) (auto simp: bf_eof_def bf_find_spec_def)
  next
    case True
    obtain st1 where st1: "bf_need file st = Inr st1" "bf_inv lo file st1" "bf_pos st1 = bf_pos st" "bf_pos st1 < bf_src st1"
      using bf_need_inv(1) [OF inv True] by blast
    note at = bf_at [OF st1(2,4)]
    show ?thesis
    proof (cases "file ! bf_pos st = ch")
      case hit: True
      then show ?thesis using st1 at True by (subst bf_FindByte.simps) (auto simp: bf_find_spec_def)
    next
      case miss: False
      let ?st2 = "st1\<lparr>bf_pos := bf_pos st1 + 1\<rparr>"
      have inv2: "bf_inv lo file ?st2" using st1(2,4) by (auto simp: bf_inv_def Let_def)
      have "length file - bf_pos ?st2 < length file - bf_pos st" using True st1(3) by simp
      from less.hyps [OF this inv2] obtain r where "bf_FindByte file ?st2 ch = Some r"
        "bf_find_spec lo file ch (Suc (bf_pos st)) r" using st1(3) by auto
      then show ?thesis using miss st1(1,3) at bf_find_spec_miss [OF miss]
        by (subst bf_FindByte.simps) simp
    qed
  qed
qed

section \<open>Properties\<close>

text \<open>
  C27. Reading through the ring buffer returns: for a buffer larger than the rewind window and a
  request within the limit and the window, \<open>read\<close> ends, and yields exactly the next bytes of the file
  wherever the buffer wraps, or ends at the end of the file with an exception if too few are left.
  The buffer keeps holding the last bytes before the source position, so a successful \<open>SetPos\<close> (which
  succeeds for every position at most \<open>nRewind\<close> back) followed by \<open>read\<close> yields the same bytes again.
\<close>

theorem buffered_read_correct:
  assumes "bf_inv 0 file st" and "n + bf_pos st \<le> bf_limit st" and "n + bf_rewind st \<le> length (bf_buf st)"
    and "bf_limit st < 2 ^ 64" and "p \<le> bf_src st" and "bf_src st \<le> p + bf_rewind st" and "p + bf_rewind st < 2 ^ 64"
  shows "(\<exists>r. bf_read file st n = Some r \<and> bf_read_spec 0 file st n [] r) \<and>
    (\<exists>st'. bf_SetPos st p = (True, st') \<and> bf_pos st' = p \<and> bf_inv 0 file st')"
proof
  have "length (bf_buf st) < 2 ^ 64" using assms(1) by (simp add: bf_inv_def Let_def)
  then have "(n + bf_pos st) mod 2 ^ 64 = n + bf_pos st" "(n + bf_rewind st) mod 2 ^ 64 = n + bf_rewind st"
    using assms(2-4) by (auto intro!: mod_less)
  then show "\<exists>r. bf_read file st n = Some r \<and> bf_read_spec 0 file st n [] r"
    using bf_read_loop_spec [OF assms(1)] assms(2,3) unfolding bf_read_def by simp
  show "\<exists>st'. bf_SetPos st p = (True, st') \<and> bf_pos st' = p \<and> bf_inv 0 file st'"
    using bf_SetPos_inv [OF assms(1) _ assms(7)] assms(5,6) by (metis prod.collapse zero_le)
qed

theorem buffered_read_correct_witness:
  "\<exists>r. bf_read [1, 2, 3] (bf_new 8 2) 2 = Some r \<and> bf_read_spec 0 [1, 2, 3] (bf_new 8 2) 2 [] r"
proof -
  have "bf_inv 0 [1, 2, 3] (bf_new 8 2)" by (simp add: bf_inv_def bf_new_def)
  from buffered_read_correct [OF this, of 2 0] show ?thesis by (simp add: bf_new_def)
qed

end
