(* ===== verification/Script.thy ===== *)
theory Script
  imports Serialize HashUtil "HOL-Library.Monad_Syntax"
begin

unbundle bit_operations_syntax

text \<open>
  Scripts: \<open>src/src/script/script.h\<close> and \<open>script.cpp\<close>.  A script is its bytes; an iterator into a
  script is the suffix it points at.  An opcode is a byte, the values of \<open>enum opcodetype\<close> are
  abbreviations.  A script number is an \<open>int64_t\<close>.  \<open>None\<close> is a failed \<open>GetOp\<close> or a thrown
  \<open>scriptnum_error\<close>.
\<close>

section \<open>Opcodes\<close>

type_synonym opcodetype = byte
type_synonym CScript = "byte list"
type_synonym valtype = "byte list"

abbreviation (input) OP_0 :: opcodetype where "OP_0 \<equiv> 0x00"
abbreviation (input) OP_FALSE :: opcodetype where "OP_FALSE \<equiv> 0x00"
abbreviation (input) OP_PUSHDATA1 :: opcodetype where "OP_PUSHDATA1 \<equiv> 0x4c"
abbreviation (input) OP_PUSHDATA2 :: opcodetype where "OP_PUSHDATA2 \<equiv> 0x4d"
abbreviation (input) OP_PUSHDATA4 :: opcodetype where "OP_PUSHDATA4 \<equiv> 0x4e"
abbreviation (input) OP_1NEGATE :: opcodetype where "OP_1NEGATE \<equiv> 0x4f"
abbreviation (input) OP_RESERVED :: opcodetype where "OP_RESERVED \<equiv> 0x50"
abbreviation (input) OP_1 :: opcodetype where "OP_1 \<equiv> 0x51"
abbreviation (input) OP_TRUE :: opcodetype where "OP_TRUE \<equiv> 0x51"
abbreviation (input) OP_2 :: opcodetype where "OP_2 \<equiv> 0x52"
abbreviation (input) OP_3 :: opcodetype where "OP_3 \<equiv> 0x53"
abbreviation (input) OP_4 :: opcodetype where "OP_4 \<equiv> 0x54"
abbreviation (input) OP_5 :: opcodetype where "OP_5 \<equiv> 0x55"
abbreviation (input) OP_6 :: opcodetype where "OP_6 \<equiv> 0x56"
abbreviation (input) OP_7 :: opcodetype where "OP_7 \<equiv> 0x57"
abbreviation (input) OP_8 :: opcodetype where "OP_8 \<equiv> 0x58"
abbreviation (input) OP_9 :: opcodetype where "OP_9 \<equiv> 0x59"
abbreviation (input) OP_10 :: opcodetype where "OP_10 \<equiv> 0x5a"
abbreviation (input) OP_11 :: opcodetype where "OP_11 \<equiv> 0x5b"
abbreviation (input) OP_12 :: opcodetype where "OP_12 \<equiv> 0x5c"
abbreviation (input) OP_13 :: opcodetype where "OP_13 \<equiv> 0x5d"
abbreviation (input) OP_14 :: opcodetype where "OP_14 \<equiv> 0x5e"
abbreviation (input) OP_15 :: opcodetype where "OP_15 \<equiv> 0x5f"
abbreviation (input) OP_16 :: opcodetype where "OP_16 \<equiv> 0x60"
abbreviation (input) OP_NOP :: opcodetype where "OP_NOP \<equiv> 0x61"
abbreviation (input) OP_VER :: opcodetype where "OP_VER \<equiv> 0x62"
abbreviation (input) OP_IF :: opcodetype where "OP_IF \<equiv> 0x63"
abbreviation (input) OP_NOTIF :: opcodetype where "OP_NOTIF \<equiv> 0x64"
abbreviation (input) OP_VERIF :: opcodetype where "OP_VERIF \<equiv> 0x65"
abbreviation (input) OP_VERNOTIF :: opcodetype where "OP_VERNOTIF \<equiv> 0x66"
abbreviation (input) OP_ELSE :: opcodetype where "OP_ELSE \<equiv> 0x67"
abbreviation (input) OP_ENDIF :: opcodetype where "OP_ENDIF \<equiv> 0x68"
abbreviation (input) OP_VERIFY :: opcodetype where "OP_VERIFY \<equiv> 0x69"
abbreviation (input) OP_RETURN :: opcodetype where "OP_RETURN \<equiv> 0x6a"
abbreviation (input) OP_TOALTSTACK :: opcodetype where "OP_TOALTSTACK \<equiv> 0x6b"
abbreviation (input) OP_FROMALTSTACK :: opcodetype where "OP_FROMALTSTACK \<equiv> 0x6c"
abbreviation (input) OP_2DROP :: opcodetype where "OP_2DROP \<equiv> 0x6d"
abbreviation (input) OP_2DUP :: opcodetype where "OP_2DUP \<equiv> 0x6e"
abbreviation (input) OP_3DUP :: opcodetype where "OP_3DUP \<equiv> 0x6f"
abbreviation (input) OP_2OVER :: opcodetype where "OP_2OVER \<equiv> 0x70"
abbreviation (input) OP_2ROT :: opcodetype where "OP_2ROT \<equiv> 0x71"
abbreviation (input) OP_2SWAP :: opcodetype where "OP_2SWAP \<equiv> 0x72"
abbreviation (input) OP_IFDUP :: opcodetype where "OP_IFDUP \<equiv> 0x73"
abbreviation (input) OP_DEPTH :: opcodetype where "OP_DEPTH \<equiv> 0x74"
abbreviation (input) OP_DROP :: opcodetype where "OP_DROP \<equiv> 0x75"
abbreviation (input) OP_DUP :: opcodetype where "OP_DUP \<equiv> 0x76"
abbreviation (input) OP_NIP :: opcodetype where "OP_NIP \<equiv> 0x77"
abbreviation (input) OP_OVER :: opcodetype where "OP_OVER \<equiv> 0x78"
abbreviation (input) OP_PICK :: opcodetype where "OP_PICK \<equiv> 0x79"
abbreviation (input) OP_ROLL :: opcodetype where "OP_ROLL \<equiv> 0x7a"
abbreviation (input) OP_ROT :: opcodetype where "OP_ROT \<equiv> 0x7b"
abbreviation (input) OP_SWAP :: opcodetype where "OP_SWAP \<equiv> 0x7c"
abbreviation (input) OP_TUCK :: opcodetype where "OP_TUCK \<equiv> 0x7d"
abbreviation (input) OP_CAT :: opcodetype where "OP_CAT \<equiv> 0x7e"
abbreviation (input) OP_SUBSTR :: opcodetype where "OP_SUBSTR \<equiv> 0x7f"
abbreviation (input) OP_LEFT :: opcodetype where "OP_LEFT \<equiv> 0x80"
abbreviation (input) OP_RIGHT :: opcodetype where "OP_RIGHT \<equiv> 0x81"
abbreviation (input) OP_SIZE :: opcodetype where "OP_SIZE \<equiv> 0x82"
abbreviation (input) OP_INVERT :: opcodetype where "OP_INVERT \<equiv> 0x83"
abbreviation (input) OP_AND :: opcodetype where "OP_AND \<equiv> 0x84"
abbreviation (input) OP_OR :: opcodetype where "OP_OR \<equiv> 0x85"
abbreviation (input) OP_XOR :: opcodetype where "OP_XOR \<equiv> 0x86"
abbreviation (input) OP_EQUAL :: opcodetype where "OP_EQUAL \<equiv> 0x87"
abbreviation (input) OP_EQUALVERIFY :: opcodetype where "OP_EQUALVERIFY \<equiv> 0x88"
abbreviation (input) OP_RESERVED1 :: opcodetype where "OP_RESERVED1 \<equiv> 0x89"
abbreviation (input) OP_RESERVED2 :: opcodetype where "OP_RESERVED2 \<equiv> 0x8a"
abbreviation (input) OP_1ADD :: opcodetype where "OP_1ADD \<equiv> 0x8b"
abbreviation (input) OP_1SUB :: opcodetype where "OP_1SUB \<equiv> 0x8c"
abbreviation (input) OP_2MUL :: opcodetype where "OP_2MUL \<equiv> 0x8d"
abbreviation (input) OP_2DIV :: opcodetype where "OP_2DIV \<equiv> 0x8e"
abbreviation (input) OP_NEGATE :: opcodetype where "OP_NEGATE \<equiv> 0x8f"
abbreviation (input) OP_ABS :: opcodetype where "OP_ABS \<equiv> 0x90"
abbreviation (input) OP_NOT :: opcodetype where "OP_NOT \<equiv> 0x91"
abbreviation (input) OP_0NOTEQUAL :: opcodetype where "OP_0NOTEQUAL \<equiv> 0x92"
abbreviation (input) OP_ADD :: opcodetype where "OP_ADD \<equiv> 0x93"
abbreviation (input) OP_SUB :: opcodetype where "OP_SUB \<equiv> 0x94"
abbreviation (input) OP_MUL :: opcodetype where "OP_MUL \<equiv> 0x95"
abbreviation (input) OP_DIV :: opcodetype where "OP_DIV \<equiv> 0x96"
abbreviation (input) OP_MOD :: opcodetype where "OP_MOD \<equiv> 0x97"
abbreviation (input) OP_LSHIFT :: opcodetype where "OP_LSHIFT \<equiv> 0x98"
abbreviation (input) OP_RSHIFT :: opcodetype where "OP_RSHIFT \<equiv> 0x99"
abbreviation (input) OP_BOOLAND :: opcodetype where "OP_BOOLAND \<equiv> 0x9a"
abbreviation (input) OP_BOOLOR :: opcodetype where "OP_BOOLOR \<equiv> 0x9b"
abbreviation (input) OP_NUMEQUAL :: opcodetype where "OP_NUMEQUAL \<equiv> 0x9c"
abbreviation (input) OP_NUMEQUALVERIFY :: opcodetype where "OP_NUMEQUALVERIFY \<equiv> 0x9d"
abbreviation (input) OP_NUMNOTEQUAL :: opcodetype where "OP_NUMNOTEQUAL \<equiv> 0x9e"
abbreviation (input) OP_LESSTHAN :: opcodetype where "OP_LESSTHAN \<equiv> 0x9f"
abbreviation (input) OP_GREATERTHAN :: opcodetype where "OP_GREATERTHAN \<equiv> 0xa0"
abbreviation (input) OP_LESSTHANOREQUAL :: opcodetype where "OP_LESSTHANOREQUAL \<equiv> 0xa1"
abbreviation (input) OP_GREATERTHANOREQUAL :: opcodetype where "OP_GREATERTHANOREQUAL \<equiv> 0xa2"
abbreviation (input) OP_MIN :: opcodetype where "OP_MIN \<equiv> 0xa3"
abbreviation (input) OP_MAX :: opcodetype where "OP_MAX \<equiv> 0xa4"
abbreviation (input) OP_WITHIN :: opcodetype where "OP_WITHIN \<equiv> 0xa5"
abbreviation (input) OP_RIPEMD160 :: opcodetype where "OP_RIPEMD160 \<equiv> 0xa6"
abbreviation (input) OP_SHA1 :: opcodetype where "OP_SHA1 \<equiv> 0xa7"
abbreviation (input) OP_SHA256 :: opcodetype where "OP_SHA256 \<equiv> 0xa8"
abbreviation (input) OP_HASH160 :: opcodetype where "OP_HASH160 \<equiv> 0xa9"
abbreviation (input) OP_HASH256 :: opcodetype where "OP_HASH256 \<equiv> 0xaa"
abbreviation (input) OP_CODESEPARATOR :: opcodetype where "OP_CODESEPARATOR \<equiv> 0xab"
abbreviation (input) OP_CHECKSIG :: opcodetype where "OP_CHECKSIG \<equiv> 0xac"
abbreviation (input) OP_CHECKSIGVERIFY :: opcodetype where "OP_CHECKSIGVERIFY \<equiv> 0xad"
abbreviation (input) OP_CHECKMULTISIG :: opcodetype where "OP_CHECKMULTISIG \<equiv> 0xae"
abbreviation (input) OP_CHECKMULTISIGVERIFY :: opcodetype where "OP_CHECKMULTISIGVERIFY \<equiv> 0xaf"
abbreviation (input) OP_NOP1 :: opcodetype where "OP_NOP1 \<equiv> 0xb0"
abbreviation (input) OP_NOP2 :: opcodetype where "OP_NOP2 \<equiv> 0xb1"
abbreviation (input) OP_CHECKLOCKTIMEVERIFY :: opcodetype where "OP_CHECKLOCKTIMEVERIFY \<equiv> 0xb1"
abbreviation (input) OP_NOP3 :: opcodetype where "OP_NOP3 \<equiv> 0xb2"
abbreviation (input) OP_NOP4 :: opcodetype where "OP_NOP4 \<equiv> 0xb3"
abbreviation (input) OP_NOP5 :: opcodetype where "OP_NOP5 \<equiv> 0xb4"
abbreviation (input) OP_NOP6 :: opcodetype where "OP_NOP6 \<equiv> 0xb5"
abbreviation (input) OP_NOP7 :: opcodetype where "OP_NOP7 \<equiv> 0xb6"
abbreviation (input) OP_NOP8 :: opcodetype where "OP_NOP8 \<equiv> 0xb7"
abbreviation (input) OP_NOP9 :: opcodetype where "OP_NOP9 \<equiv> 0xb8"
abbreviation (input) OP_NOP10 :: opcodetype where "OP_NOP10 \<equiv> 0xb9"
abbreviation (input) OP_CHECKCOLDSTAKEVERIFY :: opcodetype where "OP_CHECKCOLDSTAKEVERIFY \<equiv> 0xd1"
abbreviation (input) OP_INVALIDOPCODE :: opcodetype where "OP_INVALIDOPCODE \<equiv> 0xff"

definition op_names :: "(opcodetype \<times> string) list" where
  "op_names = [
    (OP_0, ''0''), (OP_PUSHDATA1, ''OP_PUSHDATA1''), (OP_PUSHDATA2, ''OP_PUSHDATA2''),
    (OP_PUSHDATA4, ''OP_PUSHDATA4''), (OP_1NEGATE, ''-1''), (OP_RESERVED, ''OP_RESERVED''),
    (OP_1, ''1''), (OP_2, ''2''), (OP_3, ''3''), (OP_4, ''4''), (OP_5, ''5''), (OP_6, ''6''),
    (OP_7, ''7''), (OP_8, ''8''), (OP_9, ''9''), (OP_10, ''10''), (OP_11, ''11''), (OP_12, ''12''),
    (OP_13, ''13''), (OP_14, ''14''), (OP_15, ''15''), (OP_16, ''16''), (OP_NOP, ''OP_NOP''),
    (OP_VER, ''OP_VER''), (OP_IF, ''OP_IF''), (OP_NOTIF, ''OP_NOTIF''), (OP_VERIF, ''OP_VERIF''),
    (OP_VERNOTIF, ''OP_VERNOTIF''), (OP_ELSE, ''OP_ELSE''), (OP_ENDIF, ''OP_ENDIF''),
    (OP_VERIFY, ''OP_VERIFY''), (OP_RETURN, ''OP_RETURN''), (OP_TOALTSTACK, ''OP_TOALTSTACK''),
    (OP_FROMALTSTACK, ''OP_FROMALTSTACK''), (OP_2DROP, ''OP_2DROP''), (OP_2DUP, ''OP_2DUP''),
    (OP_3DUP, ''OP_3DUP''), (OP_2OVER, ''OP_2OVER''), (OP_2ROT, ''OP_2ROT''),
    (OP_2SWAP, ''OP_2SWAP''), (OP_IFDUP, ''OP_IFDUP''), (OP_DEPTH, ''OP_DEPTH''),
    (OP_DROP, ''OP_DROP''), (OP_DUP, ''OP_DUP''), (OP_NIP, ''OP_NIP''), (OP_OVER, ''OP_OVER''),
    (OP_PICK, ''OP_PICK''), (OP_ROLL, ''OP_ROLL''), (OP_ROT, ''OP_ROT''), (OP_SWAP, ''OP_SWAP''),
    (OP_TUCK, ''OP_TUCK''), (OP_CAT, ''OP_CAT''), (OP_SUBSTR, ''OP_SUBSTR''),
    (OP_LEFT, ''OP_LEFT''), (OP_RIGHT, ''OP_RIGHT''), (OP_SIZE, ''OP_SIZE''),
    (OP_INVERT, ''OP_INVERT''), (OP_AND, ''OP_AND''), (OP_OR, ''OP_OR''), (OP_XOR, ''OP_XOR''),
    (OP_EQUAL, ''OP_EQUAL''), (OP_EQUALVERIFY, ''OP_EQUALVERIFY''),
    (OP_RESERVED1, ''OP_RESERVED1''), (OP_RESERVED2, ''OP_RESERVED2''), (OP_1ADD, ''OP_1ADD''),
    (OP_1SUB, ''OP_1SUB''), (OP_2MUL, ''OP_2MUL''), (OP_2DIV, ''OP_2DIV''),
    (OP_NEGATE, ''OP_NEGATE''), (OP_ABS, ''OP_ABS''), (OP_NOT, ''OP_NOT''),
    (OP_0NOTEQUAL, ''OP_0NOTEQUAL''), (OP_ADD, ''OP_ADD''), (OP_SUB, ''OP_SUB''),
    (OP_MUL, ''OP_MUL''), (OP_DIV, ''OP_DIV''), (OP_MOD, ''OP_MOD''), (OP_LSHIFT, ''OP_LSHIFT''),
    (OP_RSHIFT, ''OP_RSHIFT''), (OP_BOOLAND, ''OP_BOOLAND''), (OP_BOOLOR, ''OP_BOOLOR''),
    (OP_NUMEQUAL, ''OP_NUMEQUAL''), (OP_NUMEQUALVERIFY, ''OP_NUMEQUALVERIFY''),
    (OP_NUMNOTEQUAL, ''OP_NUMNOTEQUAL''), (OP_LESSTHAN, ''OP_LESSTHAN''),
    (OP_GREATERTHAN, ''OP_GREATERTHAN''), (OP_LESSTHANOREQUAL, ''OP_LESSTHANOREQUAL''),
    (OP_GREATERTHANOREQUAL, ''OP_GREATERTHANOREQUAL''), (OP_MIN, ''OP_MIN''), (OP_MAX, ''OP_MAX''),
    (OP_WITHIN, ''OP_WITHIN''), (OP_RIPEMD160, ''OP_RIPEMD160''), (OP_SHA1, ''OP_SHA1''),
    (OP_SHA256, ''OP_SHA256''), (OP_HASH160, ''OP_HASH160''), (OP_HASH256, ''OP_HASH256''),
    (OP_CODESEPARATOR, ''OP_CODESEPARATOR''), (OP_CHECKSIG, ''OP_CHECKSIG''),
    (OP_CHECKSIGVERIFY, ''OP_CHECKSIGVERIFY''), (OP_CHECKMULTISIG, ''OP_CHECKMULTISIG''),
    (OP_CHECKMULTISIGVERIFY, ''OP_CHECKMULTISIGVERIFY''), (OP_NOP1, ''OP_NOP1''),
    (OP_CHECKLOCKTIMEVERIFY, ''OP_CHECKLOCKTIMEVERIFY''), (OP_NOP3, ''OP_NOP3''),
    (OP_NOP4, ''OP_NOP4''), (OP_NOP5, ''OP_NOP5''), (OP_NOP6, ''OP_NOP6''), (OP_NOP7, ''OP_NOP7''),
    (OP_NOP8, ''OP_NOP8''), (OP_NOP9, ''OP_NOP9''), (OP_NOP10, ''OP_NOP10''),
    (OP_CHECKCOLDSTAKEVERIFY, ''OP_CHECKCOLDSTAKEVERIFY''),
    (OP_INVALIDOPCODE, ''OP_INVALIDOPCODE'')]"

definition GetOpName :: "opcodetype \<Rightarrow> string" where
  "GetOpName opcode = (case map_of op_names opcode of Some s \<Rightarrow> s | None \<Rightarrow> ''OP_UNKNOWN'')"

section \<open>Numbers\<close>

definition set_vch :: "valtype \<Rightarrow> int" where
  "set_vch vch =
     (if vch = [] then 0
      else let result = int (le_val vch)
           in if last vch AND 0x80 \<noteq> 0 then - (result AND NOT (push_bit (8 * (length vch - 1)) 0x80)) else result)"

definition minimally_encoded :: "valtype \<Rightarrow> bool" where
  "minimally_encoded vch \<longleftrightarrow>
     \<not> (length vch > 0 \<and> last vch AND 0x7f = 0 \<and> (length vch \<le> 1 \<or> (vch ! (length vch - 2)) AND 0x80 = 0))"

definition CScriptNum :: "valtype \<Rightarrow> bool \<Rightarrow> nat \<Rightarrow> int option" where
  "CScriptNum vch fRequireMinimal nMaxNumSize =
     (if length vch > nMaxNumSize then None
      else if fRequireMinimal \<and> \<not> minimally_encoded vch then None
      else Some (set_vch vch))"

definition nDefaultMaxNumSize :: nat where "nDefaultMaxNumSize = 4"

text \<open>The loop that pushes the bytes of the absolute value.\<close>

fun abs_bytes :: "nat \<Rightarrow> byte list" where
  "abs_bytes absvalue = (if absvalue \<noteq> 0 then of_nat (absvalue mod 256) # abs_bytes (absvalue div 256) else [])"

declare abs_bytes.simps [simp del]

definition scriptnum_serialize :: "int \<Rightarrow> valtype" where
  "scriptnum_serialize n =
     (if n = 0 then []
      else let neg = n < 0; result = abs_bytes (nat \<bar>n\<bar>)
           in if last result AND 0x80 \<noteq> 0 then result @ [if neg then 0x80 else 0]
              else if neg then butlast result @ [last result OR 0x80]
              else result)"

definition getint :: "int \<Rightarrow> int" where
  "getint m = (if m > 2 ^ 31 - 1 then 2 ^ 31 - 1 else if m < - (2 ^ 31) then - (2 ^ 31) else m)"

section \<open>Writing scripts\<close>

definition push_data :: "CScript \<Rightarrow> valtype \<Rightarrow> CScript" where
  "push_data s b =
     (if length b < 0x4c then s @ [of_nat (length b)] @ b
      else if length b \<le> 0xff then s @ [OP_PUSHDATA1, of_nat (length b)] @ b
      else if length b \<le> 0xffff then s @ [OP_PUSHDATA2] @ WriteLE16 (of_nat (length b)) @ b
      else s @ [OP_PUSHDATA4] @ WriteLE32 (of_nat (length b)) @ b)"

definition push_opcode :: "CScript \<Rightarrow> opcodetype \<Rightarrow> CScript" where
  "push_opcode s opcode = s @ [opcode]"

definition push_int64 :: "CScript \<Rightarrow> int \<Rightarrow> CScript" where
  "push_int64 s n =
     (if n = -1 \<or> (n \<ge> 1 \<and> n \<le> 16) then s @ [word_of_int (n + 0x50)]
      else if n = 0 then s @ [OP_0]
      else push_data s (scriptnum_serialize n))"

definition DecodeOP_N :: "opcodetype \<Rightarrow> int option" where
  "DecodeOP_N opcode = (if opcode = OP_0 then Some 0
     else if opcode \<ge> OP_1 \<and> opcode \<le> OP_16 then Some (uint opcode - 0x50) else None)"

definition EncodeOP_N :: "int \<Rightarrow> opcodetype option" where
  "EncodeOP_N n = (if n \<ge> 0 \<and> n \<le> 16 then Some (if n = 0 then OP_0 else word_of_int (0x51 + n - 1)) else None)"

section \<open>Reading scripts\<close>

text \<open>The size of the immediate operand and where it starts.\<close>

definition push_size :: "opcodetype \<Rightarrow> CScript \<Rightarrow> (nat \<times> CScript) option" where
  "push_size opcode pc =
     (if opcode < OP_PUSHDATA1 then Some (unat opcode, pc)
      else if opcode = OP_PUSHDATA1 then (if length pc < 1 then None else Some (unat (hd pc), tl pc))
      else if opcode = OP_PUSHDATA2 then (if length pc < 2 then None else Some (unat (ReadLE16 pc), drop 2 pc))
      else (if length pc < 4 then None else Some (unat (ReadLE32 pc), drop 4 pc)))"

fun GetOp2 :: "CScript \<Rightarrow> (opcodetype \<times> valtype \<times> CScript) option" where
  "GetOp2 [] = None"
| "GetOp2 (opcode # pc) =
     (if opcode \<le> OP_PUSHDATA4
      then (case push_size opcode pc of
          None \<Rightarrow> None
        | Some (nSize, pc) \<Rightarrow> if length pc < nSize then None else Some (opcode, take nSize pc, drop nSize pc))
      else Some (opcode, [], pc))"

lemma push_size_suffix: "push_size opcode pc = Some (n, pc') \<Longrightarrow> length pc' \<le> length pc"
  by (auto simp: push_size_def split: if_splits)

lemma GetOp2_shorter: "GetOp2 s = Some (opcode, data, pc) \<Longrightarrow> length pc < length s"
  by (cases s) (auto split: if_splits option.splits dest!: push_size_suffix)

text \<open>The loops over the instructions of a script.\<close>

function sigop_loop :: "bool \<Rightarrow> CScript \<Rightarrow> opcodetype \<Rightarrow> nat \<Rightarrow> nat" where
  "sigop_loop fAccurate pc lastOpcode n =
     (case GetOp2 pc of
        None \<Rightarrow> n
      | Some (opcode, data, pc') \<Rightarrow>
          sigop_loop fAccurate pc' opcode
            (if opcode = OP_CHECKSIG \<or> opcode = OP_CHECKSIGVERIFY then n + 1
             else if opcode = OP_CHECKMULTISIG \<or> opcode = OP_CHECKMULTISIGVERIFY
             then (if fAccurate \<and> lastOpcode \<ge> OP_1 \<and> lastOpcode \<le> OP_16
                   then n + nat (the (DecodeOP_N lastOpcode)) else n + 20)
             else n))"
  by pat_completeness auto

termination by (relation "measure (\<lambda>(f, pc, o1, n). length pc)") (auto dest: GetOp2_shorter)

definition GetSigOpCount :: "bool \<Rightarrow> CScript \<Rightarrow> nat" where
  "GetSigOpCount fAccurate s = sigop_loop fAccurate s OP_INVALIDOPCODE 0"

function IsPushOnly :: "CScript \<Rightarrow> bool" where
  "IsPushOnly pc =
     (if pc = [] then True
      else case GetOp2 pc of
        None \<Rightarrow> False
      | Some (opcode, data, pc') \<Rightarrow> if opcode > OP_16 then False else IsPushOnly pc')"
  by pat_completeness auto

termination by (relation "measure length") (auto dest: GetOp2_shorter)

text \<open>The item the last instruction pushes, if every instruction is a push.\<close>

function last_push :: "CScript \<Rightarrow> valtype \<Rightarrow> valtype option" where
  "last_push pc data =
     (if pc = [] then Some data
      else case GetOp2 pc of
        None \<Rightarrow> None
      | Some (opcode, data', pc') \<Rightarrow> if opcode > OP_16 then None else last_push pc' data')"
  by pat_completeness auto

termination by (relation "measure (\<lambda>(pc, d). length pc)") (auto dest: GetOp2_shorter)

declare sigop_loop.simps [simp del] and IsPushOnly.simps [simp del] and last_push.simps [simp del]

definition IsPayToPublicKeyHash :: "CScript \<Rightarrow> bool" where
  "IsPayToPublicKeyHash s \<longleftrightarrow> length s = 25 \<and> s ! 0 = OP_DUP \<and> s ! 1 = OP_HASH160 \<and> s ! 2 = 0x14 \<and>
     s ! 23 = OP_EQUALVERIFY \<and> s ! 24 = OP_CHECKSIG"

definition IsPayToScriptHash :: "CScript \<Rightarrow> bool" where
  "IsPayToScriptHash s \<longleftrightarrow> length s = 23 \<and> s ! 0 = OP_HASH160 \<and> s ! 1 = 0x14 \<and> s ! 22 = OP_EQUAL"

definition IsPayToColdStaking :: "bool \<Rightarrow> CScript \<Rightarrow> bool" where
  "IsPayToColdStaking g_newP2CSRules s \<longleftrightarrow> length s = 51 \<and>
     (\<not> g_newP2CSRules \<or> s ! 0 = OP_DUP) \<and> (\<not> g_newP2CSRules \<or> s ! 1 = OP_HASH160) \<and> s ! 2 = OP_ROT \<and>
     (\<not> g_newP2CSRules \<or> s ! 3 = OP_IF) \<and> s ! 4 = OP_CHECKCOLDSTAKEVERIFY \<and> s ! 5 = 0x14 \<and>
     (\<not> g_newP2CSRules \<or> s ! 26 = OP_ELSE) \<and> s ! 27 = 0x14 \<and> (\<not> g_newP2CSRules \<or> s ! 48 = OP_ENDIF) \<and>
     s ! 49 = OP_EQUALVERIFY \<and> s ! 50 = OP_CHECKSIG"

definition StartsWithOpcode :: "CScript \<Rightarrow> opcodetype \<Rightarrow> bool" where
  "StartsWithOpcode s opcode \<longleftrightarrow> s \<noteq> [] \<and> s ! 0 = opcode"

definition MAX_SCRIPT_SIZE :: nat where "MAX_SCRIPT_SIZE = 10000"

definition IsUnspendable :: "CScript \<Rightarrow> bool" where
  "IsUnspendable s \<longleftrightarrow> (length s > 0 \<and> hd s = OP_RETURN) \<or> length s > MAX_SCRIPT_SIZE"

definition GetSigOpCount_P2SH :: "CScript \<Rightarrow> CScript \<Rightarrow> nat" where
  "GetSigOpCount_P2SH s scriptSig =
     (if \<not> IsPayToScriptHash s then GetSigOpCount True s
      else case last_push scriptSig [] of None \<Rightarrow> 0 | Some subscript \<Rightarrow> GetSigOpCount True subscript)"

function script_Find :: "CScript \<Rightarrow> opcodetype \<Rightarrow> nat" where
  "script_Find pc op1 =
     (case GetOp2 pc of
        None \<Rightarrow> 0
      | Some (opcode, data, pc') \<Rightarrow> (if opcode = op1 then 1 else 0) + script_Find pc' op1)"
  by pat_completeness auto

termination by (relation "measure (\<lambda>(pc, d). length pc)") (auto dest: GetOp2_shorter)

text \<open>\<open>FindAndDelete\<close>: skip the occurrences of \<open>b\<close> that start at an instruction, keep the instruction.\<close>

function skip_occurrences :: "CScript \<Rightarrow> CScript \<Rightarrow> nat \<Rightarrow> CScript \<times> nat" where
  "skip_occurrences b pc nFound =
     (if b \<noteq> [] \<and> length pc \<ge> length b \<and> take (length b) pc = b
      then skip_occurrences b (drop (length b) pc) (nFound + 1) else (pc, nFound))"
  by auto

termination by (relation "measure (\<lambda>(b, pc, n). length pc)") (auto intro!: diff_less)

declare script_Find.simps [simp del] and skip_occurrences.simps [simp del]

lemma skip_occurrences_shorter: "skip_occurrences b pc n = (pc', n') \<Longrightarrow> length pc' \<le> length pc"
  by (induction b pc n rule: skip_occurrences.induct) (subst (asm) skip_occurrences.simps, auto split: if_splits)

function find_delete_loop :: "CScript \<Rightarrow> CScript \<Rightarrow> CScript \<Rightarrow> nat \<Rightarrow> CScript \<times> nat" where
  "find_delete_loop b pc result nFound =
     (let (pc2, nFound') = skip_occurrences b pc nFound
      in case GetOp2 pc2 of
           None \<Rightarrow> (result @ pc2, nFound')
         | Some (opcode, data, pc') \<Rightarrow>
             find_delete_loop b pc' (result @ take (length pc2 - length pc') pc2) nFound')"
  by pat_completeness auto

termination
  by (relation "measure (\<lambda>(b, pc, r, n). length pc)")
    (auto dest!: GetOp2_shorter dest: skip_occurrences_shorter [OF sym] order.strict_trans2)

declare find_delete_loop.simps [simp del]

definition FindAndDelete :: "CScript \<Rightarrow> CScript \<Rightarrow> nat \<times> CScript" where
  "FindAndDelete s b =
     (if b = [] then (0, s)
      else let (result, nFound) = find_delete_loop b s [] 0
           in (nFound, if nFound > 0 then result else s))"

section \<open>Script numbers\<close>

lemma byte_sign:
  fixes b :: byte
  shows "unat b = (if b AND 0x80 \<noteq> 0 then 128 else 0) + unat (b AND 0x7f)"
    and "(b AND 0x7f) AND 0x80 = 0" and "b AND 0x80 \<noteq> 0 \<Longrightarrow> (b AND 0x7f) OR 0x80 = b"
    and "b AND 0x80 = 0 \<Longrightarrow> b AND 0x7f = b" and "(b OR 0x80) AND 0x80 \<noteq> 0" and "(b OR 0x80) AND 0x7f = b AND 0x7f"
    and "unat (b AND 0x7f) < 128"
proof -
  obtain h where h: "(0x80 :: byte) = h" by blast
  have "bit (push_bit 7 1 :: byte) k \<longleftrightarrow> k = 7" for k by (subst bit_push_bit_iff) (auto simp: bit_1_iff)
  then have hb: "bit h k \<longleftrightarrow> k = 7" for k by (simp add: h [symmetric])
  have m: "(0x7f :: byte) = mask 7" by (simp add: mask_numeral)
  have e: "n < 8 \<longleftrightarrow> n < 7 \<or> n = 7" for n :: nat by auto
  have z: "b AND h = 0 \<longleftrightarrow> \<not> bit b 7"
  proof
    assume "b AND h = 0"
    then have "\<not> bit (b AND h) 7" by simp
    then show "\<not> bit b 7" by (simp add: bit_simps hb)
  next
    assume "\<not> bit b 7"
    then show "b AND h = 0" by (intro bit_eqI) (auto simp: bit_simps hb)
  qed
  show "(b AND 0x7f) AND 0x80 = 0" unfolding m h by (rule bit_eqI) (auto simp: bit_simps hb)
  show or: "(b AND 0x7f) OR 0x80 = b" if "b AND 0x80 \<noteq> 0"
    using that unfolding m h z by (intro bit_eqI) (auto simp: bit_simps hb e)
  show "b AND 0x7f = b" if "b AND 0x80 = 0"
    using that unfolding m h z by (intro bit_eqI) (auto simp: bit_simps hb e)
  have "bit ((b OR h) AND h) 7" by (simp add: bit_simps hb)
  then show "(b OR 0x80) AND 0x80 \<noteq> 0" unfolding h by auto
  show "(b OR 0x80) AND 0x7f = b AND 0x7f" unfolding m h by (rule bit_eqI) (auto simp: bit_simps hb)
  have u: "unat (b AND 0x7f) = unat b mod 128"
    unfolding m by (simp only: take_bit_eq_mask [symmetric] unsigned_take_bit_eq) (simp add: take_bit_eq_mod)
  then show "unat (b AND 0x7f) < 128" by simp
  have "bit (unat b) 7 \<longleftrightarrow> bit b 7" by (simp add: bit_unsigned_iff)
  then have "bit b 7 \<longleftrightarrow> odd (unat b div 128)" by (simp add: bit_iff_odd)
  moreover have "unat b div 128 < 2" using unat_lt_2p8 [of b] by (simp add: less_mult_imp_div_less)
  ultimately have "unat b div 128 = (if b AND 0x80 \<noteq> 0 then 1 else 0)" unfolding h z by (auto simp: less_2_cases_iff)
  then show "unat b = (if b AND 0x80 \<noteq> 0 then 128 else 0) + unat (b AND 0x7f)"
    using u div_mult_mod_eq [of "unat b" 128] by (simp split: if_splits)
qed

lemma set_vch_snoc:
  "set_vch (xs @ [b]) = (if b AND 0x80 \<noteq> 0 then - int (le_val (xs @ [b AND 0x7f])) else int (le_val (xs @ [b])))"
proof (cases "b AND 0x80 \<noteq> 0")
  case False
  then show ?thesis by (simp add: set_vch_def)
next
  case True
  let ?n = "8 * length xs" and ?v = "int (le_val (xs @ [b]))" and ?h = "unat (b AND 0x7f)"
  have p: "(256 :: nat) ^ length xs = 2 ^ ?n" by (simp add: power_mult)
  have v: "?v = int (le_val xs) + 2 ^ ?n * (128 + int ?h)"
    using byte_sign(1) [of b] True by (simp only: le_val_append p) (simp add: algebra_simps)
  have "le_val xs < 2 ^ ?n" using le_val_bound [of xs] unfolding p .
  then have "int (le_val xs) < int (2 ^ ?n)" by (simp only: of_nat_less_iff)
  then have lo: "int (le_val xs) < 2 ^ ?n" by (simp only: of_nat_power of_nat_numeral)
  have "?v div 2 ^ (?n + 7) = 1"
  proof -
    have "?v div 2 ^ ?n = 128 + int ?h" unfolding v using lo by (subst div_mult_self2) simp_all
    moreover have "(128 + k) div 2 ^ 7 = 1" if "0 \<le> k" "k < 128" for k :: int using that by simp
    from this [of "int ?h"] have "(128 + int ?h) div 2 ^ 7 = 1" using byte_sign(7) [of b] by linarith
    moreover have "?v div (2 ^ ?n * 2 ^ 7) = ?v div 2 ^ ?n div 2 ^ 7" by (rule zdiv_zmult2_eq) simp
    ultimately show ?thesis by (simp only: power_add)
  qed
  then have b7: "bit ?v (?n + 7)" by (simp add: bit_iff_odd)
  have "push_bit ?n 0x80 = push_bit (?n + 7) (1 :: int)" by (simp add: push_bit_eq_mult power_add)
  then have "?v AND NOT (push_bit ?n 0x80) = unset_bit (?n + 7) ?v" by (simp add: unset_bit_eq_and_not)
  also have "\<dots> = ?v - 2 ^ (?n + 7)" using b7 by (simp add: unset_bit_eq)
  also have "\<dots> = int (le_val (xs @ [b AND 0x7f]))" unfolding v by (simp only: le_val_append p) (simp add: power_add algebra_simps)
  finally show ?thesis using True by (simp add: set_vch_def)
qed

lemma le_val_abs_bytes [simp]: "le_val (abs_bytes n) = n"
  by (induction n rule: abs_bytes.induct) (subst abs_bytes.simps, simp add: unat_of_nat)

lemma abs_bytes_le_val: "ys \<noteq> [] \<Longrightarrow> last ys \<noteq> 0 \<Longrightarrow> abs_bytes (le_val ys) = ys"
proof (induction ys)
  case (Cons b ys)
  have b: "unat b < 256" using unat_lt_2p8 [of b] by simp
  show ?case
  proof (cases "ys = []")
    case True
    then show ?thesis using Cons.prems b by (subst abs_bytes.simps, subst abs_bytes.simps) (simp add: unat_eq_zero)
  next
    case False
    then have ih: "abs_bytes (le_val ys) = ys" using Cons by simp
    then have "le_val ys \<noteq> 0" using False by (metis abs_bytes.simps)
    then show ?thesis using ih b by (subst abs_bytes.simps) simp
  qed
qed simp

lemma abs_bytes_last: "n \<noteq> 0 \<Longrightarrow> abs_bytes n \<noteq> [] \<and> last (abs_bytes n) \<noteq> 0"
proof (induction n rule: abs_bytes.induct)
  case (1 n)
  have s: "abs_bytes n = of_nat (n mod 256) # abs_bytes (n div 256)" using 1(2) by (subst abs_bytes.simps) simp
  show ?case
  proof (cases "n div 256 = 0")
    case True
    then have "abs_bytes (n div 256) = []" by (subst abs_bytes.simps) simp
    moreover have "unat (of_nat (n mod 256) :: byte) \<noteq> 0" using True 1(2) by (simp add: unat_of_nat div_eq_0_iff)
    ultimately show ?thesis unfolding s by (auto simp del: unat_of_nat)
  next
    case False
    then show ?thesis using 1(1) [OF 1(2) False] unfolding s by simp
  qed
qed

lemma set_vch_serialize: "set_vch (scriptnum_serialize n) = n"
proof (cases "n = 0")
  case True
  then show ?thesis by (simp add: scriptnum_serialize_def set_vch_def)
next
  case False
  define r where "r = abs_bytes (nat \<bar>n\<bar>)"
  have r: "r \<noteq> []" "le_val r = nat \<bar>n\<bar>" using abs_bytes_last [of "nat \<bar>n\<bar>"] False by (simp_all add: r_def)
  obtain xs b where xs: "r = xs @ [b]" using r(1) by (metis append_butlast_last_id)
  have k: "last r AND 0x80 \<noteq> 0 \<Longrightarrow> set_vch (r @ [if n < 0 then 0x80 else 0]) = n"
    using r(2) by (simp add: set_vch_snoc le_val_append)
  have m: "last r AND 0x80 = 0 \<Longrightarrow> n < 0 \<Longrightarrow> set_vch (butlast r @ [last r OR 0x80]) = n"
    using r(2) byte_sign(4) [of b] byte_sign(5,6) [of b] by (simp add: xs set_vch_snoc)
  have "last r AND 0x80 = 0 \<Longrightarrow> 0 \<le> n \<Longrightarrow> set_vch r = n"
    using r(2) unfolding xs by (simp add: set_vch_snoc)
  with k m show ?thesis using False unfolding scriptnum_serialize_def r_def [symmetric] Let_def by auto
qed

lemma serialize_set_vch:
  assumes "minimally_encoded vch"
  shows "scriptnum_serialize (set_vch vch) = vch"
proof (cases "vch = []")
  case True
  then show ?thesis by (simp add: scriptnum_serialize_def set_vch_def)
next
  case False
  then obtain xs b where vch: "vch = xs @ [b]" by (metis append_butlast_last_id)
  let ?c = "b AND 0x7f"
  have v: "set_vch vch = (if b AND 0x80 \<noteq> 0 then - 1 else 1) * int (le_val (xs @ [?c]))"
    unfolding vch set_vch_snoc using byte_sign(4) [of b] by simp
  show ?thesis
  proof (cases "?c = 0")
    case False
    then have "abs_bytes (le_val (xs @ [?c])) = xs @ [?c]" by (intro abs_bytes_le_val) simp_all
    moreover from this have "le_val (xs @ [?c]) \<noteq> 0" by (metis abs_bytes.simps snoc_eq_iff_butlast)
    ultimately show ?thesis unfolding scriptnum_serialize_def v using byte_sign(2,3,4) [of b]
      by (auto simp: Let_def vch)
  next
    case True
    then have m: "xs \<noteq> []" "last xs AND 0x80 \<noteq> 0"
      using assms by (auto simp: minimally_encoded_def vch nth_append last_conv_nth)
    then have "last xs \<noteq> 0" by auto
    then have e: "abs_bytes (le_val xs) = xs" using m(1) by (intro abs_bytes_le_val)
    then have z: "le_val xs \<noteq> 0" using m(1) by (metis abs_bytes.simps)
    have "le_val (xs @ [?c]) = le_val xs" using True by (simp add: le_val_append)
    then show ?thesis unfolding scriptnum_serialize_def v using e z m(2) byte_sign(3,4) [of b] True
      by (auto simp: Let_def vch)
  qed
qed

lemma serialize_minimal: "minimally_encoded (scriptnum_serialize n)"
proof (cases "n = 0")
  case True
  then show ?thesis by (simp add: scriptnum_serialize_def minimally_encoded_def)
next
  case False
  define r where "r = abs_bytes (nat \<bar>n\<bar>)"
  have r: "r \<noteq> []" "last r \<noteq> 0" using abs_bytes_last [of "nat \<bar>n\<bar>"] False by (simp_all add: r_def)
  then obtain xs b where xs: "r = xs @ [b]" "b \<noteq> 0" by (metis append_butlast_last_id last_snoc)
  show ?thesis using False xs(2) byte_sign(4,6) [of b] unfolding scriptnum_serialize_def r_def [symmetric] Let_def xs(1)
    by (auto simp: minimally_encoded_def nth_append)
qed

lemma le_val_snoc_bound: "unat c < 128 \<Longrightarrow> 2 * le_val (xs @ [c]) < 256 ^ Suc (length xs)"
proof -
  assume "unat c < 128"
  define q where "q = 256 ^ length xs * unat c"
  have "q \<le> 256 ^ length xs * 127" unfolding q_def using \<open>unat c < 128\<close> by (intro mult_left_mono) simp_all
  moreover have "q \<le> p * 127 \<Longrightarrow> l < p \<Longrightarrow> 2 * (l + q) < 256 * p" for l p :: nat by presburger
  ultimately show ?thesis using le_val_bound [of xs]
    unfolding le_val_append le_val.simps power_Suc mult_0_right add_0_right q_def [symmetric] by blast
qed

lemma set_vch_bound: "vch \<noteq> [] \<Longrightarrow> 2 * \<bar>set_vch vch\<bar> < 256 ^ length vch"
proof -
  assume "vch \<noteq> []"
  then obtain xs b where vch: "vch = xs @ [b]" by (metis append_butlast_last_id)
  have "\<bar>set_vch vch\<bar> = int (le_val (xs @ [b AND 0x7f]))"
    using byte_sign(4) [of b] by (simp add: vch set_vch_snoc)
  moreover have "2 * le_val (xs @ [b AND 0x7f]) < 256 ^ Suc (length xs)" by (rule le_val_snoc_bound [OF byte_sign(7)])
  ultimately show ?thesis by (simp add: vch flip: of_nat_less_iff [where 'a = int])
qed

lemma serialize_length:
  assumes "2 * \<bar>n\<bar> < 256 ^ k"
  shows "length (scriptnum_serialize n) \<le> k"
proof (rule ccontr)
  assume long: "\<not> ?thesis"
  let ?v = "scriptnum_serialize n"
  obtain ys b where ys: "?v = ys @ [b]" using long by (cases ?v rule: rev_cases) simp_all
  have ys_len: "k \<le> length ys" using long by (simp add: ys)
  have n: "\<bar>n\<bar> = int (le_val (ys @ [b AND 0x7f]))"
    using set_vch_serialize [of n] byte_sign(4) [of b] by (simp add: ys set_vch_snoc split: if_splits)
  have "256 ^ length ys \<le> 2 * le_val (ys @ [b AND 0x7f])"
  proof (cases "b AND 0x7f = 0")
    case False
    then have "1 \<le> unat (b AND 0x7f)" by (simp add: Suc_leI unat_gt_0)
    then have "256 ^ length ys \<le> 256 ^ length ys * unat (b AND 0x7f)" by simp
    moreover have "p \<le> q \<Longrightarrow> p \<le> 2 * (l + q)" for l p q :: nat by presburger
    ultimately show ?thesis unfolding le_val_append le_val.simps mult_0_right add_0_right by blast
  next
    case True
    then have m: "ys \<noteq> []" "last ys AND 0x80 \<noteq> 0"
      using serialize_minimal [of n] by (auto simp: minimally_encoded_def ys nth_append last_conv_nth)
    then obtain zs c where zs: "ys = zs @ [c]" by (metis append_butlast_last_id)
    have "128 \<le> unat c" using byte_sign(1) [of c] m(2) by (simp add: zs)
    then have "256 ^ length zs * 128 \<le> 256 ^ length zs * unat c" by (intro mult_left_mono) simp_all
    moreover have "p * 128 \<le> q \<Longrightarrow> 256 * p \<le> 2 * (l + q)" for l p q :: nat by presburger
    ultimately have "256 ^ length ys \<le> 2 * le_val ys"
      unfolding zs le_val_append le_val.simps mult_0_right add_0_right length_append_singleton power_Suc by blast
    then show ?thesis using True by (simp add: le_val_append)
  qed
  moreover have "(256 :: nat) ^ k \<le> 256 ^ length ys" using ys_len by (intro power_increasing) simp_all
  ultimately have "int (256 ^ k) \<le> 2 * \<bar>n\<bar>" unfolding n by linarith
  then show False using assms by simp
qed

lemma CScriptNum_serialize: "CScriptNum (scriptnum_serialize n) True 4 = (if \<bar>n\<bar> < 2 ^ 31 then Some n else None)"
proof (cases "\<bar>n\<bar> < 2 ^ 31")
  case True
  then have "length (scriptnum_serialize n) \<le> 4" by (intro serialize_length) simp
  then show ?thesis using True by (simp add: CScriptNum_def serialize_minimal set_vch_serialize)
next
  case False
  have "4 < length (scriptnum_serialize n)"
  proof (rule ccontr)
    assume "\<not> 4 < length (scriptnum_serialize n)"
    then have "(256 :: int) ^ length (scriptnum_serialize n) \<le> 256 ^ 4" by (intro power_increasing) simp_all
    moreover have "scriptnum_serialize n \<noteq> []" using set_vch_serialize [of n] False by (auto simp: set_vch_def)
    ultimately show False using set_vch_bound [of "scriptnum_serialize n"] False by (simp add: set_vch_serialize)
  qed
  then show ?thesis using False by (simp add: CScriptNum_def)
qed

lemma CScriptNum_canonical:
  "CScriptNum vch True 4 = Some m \<longleftrightarrow> \<bar>m\<bar> < 2 ^ 31 \<and> vch = scriptnum_serialize m"
proof
  assume a: "CScriptNum vch True 4 = Some m"
  then have "minimally_encoded vch" and m: "m = set_vch vch" by (auto simp: CScriptNum_def split: if_splits)
  then have vch: "vch = scriptnum_serialize m" by (simp add: serialize_set_vch)
  then show "\<bar>m\<bar> < 2 ^ 31 \<and> vch = scriptnum_serialize m" using a CScriptNum_serialize [of m] by (simp split: if_splits)
qed (simp add: CScriptNum_serialize)

section \<open>Pushes\<close>

lemma push_data_append: "push_data s b = s @ push_data [] b"
  by (simp add: push_data_def)

lemma ReadLE_append: "length a = 2 \<Longrightarrow> ReadLE16 (a @ r) = ReadLE16 a" "length b = 4 \<Longrightarrow> ReadLE32 (b @ r) = ReadLE32 b"
  by (simp_all add: ReadLE16_def ReadLE32_def)

lemma GetOp2_push_data:
  assumes "length b < 2 ^ 32"
  shows "\<exists>opcode. opcode \<le> OP_PUSHDATA4 \<and> GetOp2 (push_data [] b @ r) = Some (opcode, b, r)"
proof -
  consider "length b < 0x4c" | "0x4c \<le> length b" "length b \<le> 0xff" | "0xff < length b" "length b \<le> 0xffff"
    | "0xffff < length b" by linarith
  then show ?thesis
  proof cases
    case 1
    then show ?thesis
      by (intro exI [of _ "of_nat (length b)"]) (simp add: push_data_def push_size_def word_nat_simps unat_of_nat)
  next
    case 2
    then show ?thesis
      by (intro exI [of _ OP_PUSHDATA1]) (simp add: push_data_def push_size_def word_nat_simps unat_of_nat)
  next
    case 3
    then show ?thesis using ReadLE_WriteLE(1) [of "of_nat (length b)" "b @ r"]
      by (simp add: push_data_def push_size_def unat_of_nat)
  next
    case 4
    then show ?thesis using assms ReadLE_WriteLE(2) [of "of_nat (length b)" "b @ r"]
      by (simp add: push_data_def push_size_def unat_of_nat)
  qed
qed

lemma last_push_step:
  "pc \<noteq> [] \<Longrightarrow> last_push pc d = (case GetOp2 pc of None \<Rightarrow> None
     | Some (opcode, data', pc') \<Rightarrow> if opcode > OP_16 then None else last_push pc' data')"
  by (subst last_push.simps) simp

lemma last_push_Nil [simp]: "last_push [] d = Some d"
  by (subst last_push.simps) simp

lemma push_data_not_Nil [simp]: "push_data [] b \<noteq> []"
  by (simp add: push_data_def)

lemma last_push_append:
  assumes "length b < 2 ^ 32"
  shows "last_push (push_data [] b @ r) d = last_push r b"
proof -
  obtain opcode where "opcode \<le> OP_PUSHDATA4" "GetOp2 (push_data [] b @ r) = Some (opcode, b, r)"
    using GetOp2_push_data [OF assms] by blast
  then show ?thesis by (simp add: last_push_step word_nat_simps)
qed

lemma last_push_pushes:
  "list_all (\<lambda>b. length b < 2 ^ 32) bs \<Longrightarrow> last_push (concat (map (push_data []) bs)) d = Some (last (d # bs))"
  by (induction bs arbitrary: d) (simp_all add: last_push_append del: power_numeral)

lemma IsPushOnly_last_push: "IsPushOnly pc \<longleftrightarrow> (\<exists>x. last_push pc d = Some x)"
proof (induction pc arbitrary: d rule: IsPushOnly.induct)
  case (1 pc)
  show ?case
    by (subst IsPushOnly.simps, subst last_push.simps) (auto simp: 1 split: option.splits)
qed

section \<open>Output templates\<close>

lemma split_template:
  assumes "length s = a + n + c"
  obtains p h q where "s = p @ h @ q" "length p = a" "length h = n" "length q = c"
proof
  show "s = take a s @ take n (drop a s) @ drop (a + n) s" by (metis append_take_drop_id drop_drop add.commute)
qed (use assms in simp_all)

lemma list_of_length:
  "length q = Suc 0 \<longleftrightarrow> (\<exists>a. q = [a])" "length q = 2 \<longleftrightarrow> (\<exists>a b. q = [a, b])" "length q = 3 \<longleftrightarrow> (\<exists>a b c. q = [a, b, c])"
  "length q = 6 \<longleftrightarrow> (\<exists>a b c d e f. q = [a, b, c, d, e, f])"
  by (auto simp: length_Suc_conv numeral_eq_Suc)

lemma IsPayToScriptHash_iff:
  "IsPayToScriptHash s \<longleftrightarrow> (\<exists>h. length h = 20 \<and> s = push_opcode (push_data (push_opcode [] OP_HASH160) h) OP_EQUAL)"
proof
  assume p: "IsPayToScriptHash s"
  then have "length s = 2 + 20 + 1" by (simp add: IsPayToScriptHash_def)
  then obtain a h q where s: "s = a @ h @ q" "length a = 2" "length h = 20" "length q = 1" by (rule split_template)
  then show "\<exists>h. length h = 20 \<and> s = push_opcode (push_data (push_opcode [] OP_HASH160) h) OP_EQUAL"
    using p by (intro exI [of _ h]) (auto simp: IsPayToScriptHash_def list_of_length nth_append push_opcode_def push_data_def)
next
  assume "\<exists>h. length h = 20 \<and> s = push_opcode (push_data (push_opcode [] OP_HASH160) h) OP_EQUAL"
  then show "IsPayToScriptHash s" by (auto simp: IsPayToScriptHash_def nth_append push_opcode_def push_data_def)
qed

lemma IsPayToPublicKeyHash_iff:
  "IsPayToPublicKeyHash s \<longleftrightarrow> (\<exists>h. length h = 20 \<and>
     s = push_opcode (push_opcode (push_data (push_opcode (push_opcode [] OP_DUP) OP_HASH160) h) OP_EQUALVERIFY) OP_CHECKSIG)"
proof
  assume p: "IsPayToPublicKeyHash s"
  then have "length s = 3 + 20 + 2" by (simp add: IsPayToPublicKeyHash_def)
  then obtain a h q where s: "s = a @ h @ q" "length a = 3" "length h = 20" "length q = 2" by (rule split_template)
  then show "\<exists>h. length h = 20 \<and>
     s = push_opcode (push_opcode (push_data (push_opcode (push_opcode [] OP_DUP) OP_HASH160) h) OP_EQUALVERIFY) OP_CHECKSIG"
    using p by (intro exI [of _ h]) (auto simp: IsPayToPublicKeyHash_def list_of_length nth_append push_opcode_def push_data_def)
next
  assume "\<exists>h. length h = 20 \<and>
     s = push_opcode (push_opcode (push_data (push_opcode (push_opcode [] OP_DUP) OP_HASH160) h) OP_EQUALVERIFY) OP_CHECKSIG"
  then show "IsPayToPublicKeyHash s"
    by (auto simp: IsPayToPublicKeyHash_def nth_append push_opcode_def push_data_def)
qed

text \<open>The cold-staking script under the new rules, with the staker's and the owner's key hash.\<close>

definition coldstake_script :: "byte list \<Rightarrow> byte list \<Rightarrow> CScript" where
  "coldstake_script staker spender =
     [OP_DUP, OP_HASH160, OP_ROT, OP_IF, OP_CHECKCOLDSTAKEVERIFY] @ push_data [] staker @ [OP_ELSE] @
     push_data [] spender @ [OP_ENDIF, OP_EQUALVERIFY, OP_CHECKSIG]"

lemma IsPayToColdStaking_iff:
  "IsPayToColdStaking True s \<longleftrightarrow> (\<exists>h k. length h = 20 \<and> length k = 20 \<and> s = coldstake_script h k)"
proof
  assume p: "IsPayToColdStaking True s"
  then have "length s = 6 + 20 + 25" by (simp add: IsPayToColdStaking_def)
  then obtain a h r where s: "s = a @ h @ r" "length a = 6" "length h = 20" "length r = 25" by (rule split_template)
  then have "length r = 2 + 20 + 3" by simp
  then obtain b k q where r: "r = b @ k @ q" "length b = 2" "length k = 20" "length q = 3" by (rule split_template)
  then show "\<exists>h k. length h = 20 \<and> length k = 20 \<and> s = coldstake_script h k"
    using p s by (intro exI [of _ h] exI [of _ k])
      (auto simp: IsPayToColdStaking_def list_of_length nth_append coldstake_script_def push_data_def)
next
  assume "\<exists>h k. length h = 20 \<and> length k = 20 \<and> s = coldstake_script h k"
  then show "IsPayToColdStaking True s"
    by (auto simp: IsPayToColdStaking_def nth_append coldstake_script_def push_data_def)
qed

section \<open>Signature operations\<close>

text \<open>What one instruction adds to the count.\<close>

definition sigop_weight :: "bool \<Rightarrow> opcodetype \<Rightarrow> opcodetype \<Rightarrow> nat" where
  "sigop_weight f l opcode =
     (if opcode = OP_CHECKSIG \<or> opcode = OP_CHECKSIGVERIFY then 1
      else if opcode = OP_CHECKMULTISIG \<or> opcode = OP_CHECKMULTISIGVERIFY
      then (if f \<and> l \<ge> OP_1 \<and> l \<le> OP_16 then nat (the (DecodeOP_N l)) else 20) else 0)"

lemma sigop_loop_step:
  "GetOp2 pc = Some (opcode, data, pc') \<Longrightarrow> sigop_loop f pc l n = sigop_loop f pc' opcode (n + sigop_weight f l opcode)"
  "GetOp2 pc = None \<Longrightarrow> sigop_loop f pc l n = n"
  by (subst sigop_loop.simps, simp add: sigop_weight_def)+

lemma sigop_loop_acc: "sigop_loop f pc l (n + k) = sigop_loop f pc l n + k"
proof (induction "length pc" arbitrary: pc l n rule: less_induct)
  case less
  show ?case
  proof (cases "GetOp2 pc")
    case None
    then show ?thesis by (simp add: sigop_loop_step)
  next
    case (Some r)
    obtain opcode data pc' where r: "r = (opcode, data, pc')" by (cases r) auto
    let ?w = "sigop_weight f l opcode"
    have "sigop_loop f pc' opcode (n + ?w + k) = sigop_loop f pc' opcode (n + ?w) + k"
      by (rule less) (rule GetOp2_shorter [OF Some [unfolded r]])
    then show ?thesis using sigop_loop_step(1) [OF Some [unfolded r]] by (simp add: ac_simps)
  qed
qed

lemma IsPushOnly_step:
  "GetOp2 pc = Some (opcode, data, pc') \<Longrightarrow> IsPushOnly pc \<longleftrightarrow> \<not> opcode > OP_16 \<and> IsPushOnly pc'"
  by (cases pc) (simp, subst IsPushOnly.simps, simp del: GetOp2.simps)

lemma sigop_push_only: "IsPushOnly pc \<Longrightarrow> sigop_loop f pc l n = n"
proof (induction "length pc" arbitrary: pc l n rule: less_induct)
  case less
  show ?case
  proof (cases "GetOp2 pc")
    case None
    then show ?thesis by (simp add: sigop_loop_step)
  next
    case (Some r)
    obtain opcode data pc' where r: "r = (opcode, data, pc')" by (cases r) auto
    note p = IsPushOnly_step [OF Some [unfolded r]]
    have "sigop_weight f l opcode = 0" using p less.prems by (auto simp: sigop_weight_def)
    then show ?thesis using sigop_loop_step(1) [OF Some [unfolded r]] less.hyps [OF GetOp2_shorter [OF Some [unfolded r]]] p less.prems
      by simp
  qed
qed

section \<open>Finding and deleting\<close>

lemma skip_occurrences_length:
  "skip_occurrences b pc n = (pc', n') \<Longrightarrow> n \<le> n' \<and> length pc = length pc' + (n' - n) * length b"
proof (induction b pc n rule: skip_occurrences.induct)
  case (1 b pc n)
  show ?case
  proof (cases "b \<noteq> [] \<and> length b \<le> length pc \<and> take (length b) pc = b")
    case True
    then have "skip_occurrences b (drop (length b) pc) (n + 1) = (pc', n')"
      using 1(2) by (subst (asm) skip_occurrences.simps) simp
    from 1(1) [OF True this] have ih: "n + 1 \<le> n'" "length (drop (length b) pc) = length pc' + (n' - (n + 1)) * length b" by simp_all
    then obtain d where "n' = n + 1 + d" using le_Suc_ex by blast
    then show ?thesis using True ih(2) by (simp add: le_diff_conv2 [symmetric]) linarith
  next
    case False
    then have "pc' = pc" "n' = n" using 1(2) by (simp_all add: skip_occurrences.simps [of b pc n] split: if_splits)
    then show ?thesis by simp
  qed
qed

lemma find_delete_length:
  "find_delete_loop b pc result n = (r, n') \<Longrightarrow> n \<le> n' \<and> length r + (n' - n) * length b = length result + length pc"
proof (induction "length pc" arbitrary: pc result n rule: less_induct)
  case less
  obtain pc2 n2 where sk: "skip_occurrences b pc n = (pc2, n2)" by (cases "skip_occurrences b pc n")
  from skip_occurrences_length [OF sk] have n2: "n \<le> n2" "length pc = length pc2 + (n2 - n) * length b" by simp_all
  show ?case
  proof (cases "GetOp2 pc2")
    case None
    then show ?thesis using less.prems sk n2 by (subst (asm) find_delete_loop.simps) auto
  next
    case (Some t)
    obtain opcode data pc' where t: "t = (opcode, data, pc')" by (cases t) auto
    have l: "length pc' < length pc2" by (rule GetOp2_shorter [OF Some [unfolded t]])
    have rec: "find_delete_loop b pc' (result @ take (length pc2 - length pc') pc2) n2 = (r, n')"
      using less.prems sk Some t by (subst (asm) find_delete_loop.simps) simp
    have "length pc' < length pc" using l n2(2) by simp
    from less.hyps [OF this rec] have ih: "n2 \<le> n'" "length r + (n' - n2) * length b = length result + length pc2"
      using l by simp_all
    have "(n' - n) * length b = (n' - n2) * length b + (n2 - n) * length b"
      using n2(1) ih(1) by (simp flip: add_mult_distrib)
    then show ?thesis using ih n2 by simp
  qed
qed

section \<open>Properties\<close>

text \<open>
  Script numbers.  Encoding and decoding are inverse on the four-byte operand range; the decoder
  that insists on minimal encodings accepts exactly the encoder's output for numbers of magnitude
  below \<open>2 ^ 31\<close>, so every number has one encoding, and negative zero has none.
\<close>

theorem script_number_roundtrip:
  "CScriptNum (scriptnum_serialize n) True nDefaultMaxNumSize = (if \<bar>n\<bar> < 2 ^ 31 then Some n else None) \<and>
   (CScriptNum vch True nDefaultMaxNumSize = Some m \<longleftrightarrow> \<bar>m\<bar> < 2 ^ 31 \<and> vch = scriptnum_serialize m) \<and>
   set_vch (scriptnum_serialize n) = n"
  using CScriptNum_serialize CScriptNum_canonical set_vch_serialize unfolding nDefaultMaxNumSize_def by blast

text \<open>
  The fast pattern tests recognise exactly the scripts of the standard shapes (20-byte hashes in
  the places of the operands), a script of any pushes is push-only and contains no signature
  operation, and the P2SH count looks at the last item pushed: pay-to-script-hash with a redeem script
  pushed last counts the operations of that redeem script.
\<close>

theorem script_templates:
  assumes "list_all (\<lambda>b. length b < 2 ^ 32) bs"
  shows "(IsPayToScriptHash s \<longleftrightarrow> (\<exists>h. length h = 20 \<and> s = push_opcode (push_data (push_opcode [] OP_HASH160) h) OP_EQUAL)) \<and>
    (IsPayToPublicKeyHash s \<longleftrightarrow> (\<exists>h. length h = 20 \<and>
       s = push_opcode (push_opcode (push_data (push_opcode (push_opcode [] OP_DUP) OP_HASH160) h) OP_EQUALVERIFY) OP_CHECKSIG)) \<and>
    (IsPayToColdStaking True s \<longleftrightarrow> (\<exists>h k. length h = 20 \<and> length k = 20 \<and> s = coldstake_script h k)) \<and>
    IsPushOnly (concat (map (push_data []) bs)) \<and> GetSigOpCount f (concat (map (push_data []) bs)) = 0 \<and>
    (IsPayToScriptHash s \<and> bs \<noteq> [] \<longrightarrow>
       GetSigOpCount_P2SH s (concat (map (push_data []) bs)) = GetSigOpCount True (last bs))"
proof -
  have p: "IsPushOnly (concat (map (push_data []) bs))"
    using IsPushOnly_last_push [of _ "[]"] last_push_pushes [OF assms] by blast
  moreover have "GetSigOpCount f (concat (map (push_data []) bs)) = 0"
    by (simp only: GetSigOpCount_def sigop_push_only [OF p])
  moreover have "GetSigOpCount_P2SH s (concat (map (push_data []) bs)) = GetSigOpCount True (last bs)"
    if "IsPayToScriptHash s" "bs \<noteq> []" using that last_push_pushes [OF assms, of "[]"] by (simp add: GetSigOpCount_P2SH_def)
  ultimately show ?thesis
    using IsPayToScriptHash_iff [of s] IsPayToPublicKeyHash_iff [of s] IsPayToColdStaking_iff [of s] by blast
qed

theorem script_templates_witness:
  "IsPushOnly (concat (map (push_data []) [[OP_CHECKSIG], [1, 2]])) \<and>
   GetSigOpCount True (concat (map (push_data []) [[OP_CHECKSIG], [1, 2]])) = 0"
proof -
  have "list_all (\<lambda>b. length b < 2 ^ 32) [[OP_CHECKSIG], [1, 2]]" by simp
  from script_templates [OF this, of "[]" True] show ?thesis by blast
qed

end
