(* ===== verification/Transaction.thy ===== *)
theory Transaction
  imports Script
begin

unbundle bit_operations_syntax

text \<open>
  Transactions: \<open>src/src/primitives/transaction.h\<close>, \<open>transaction.cpp\<close> and the data classes of
  \<open>src/src/sapling/sapling_transaction.h\<close>.  Records have the members of the classes; \<open>CTransaction\<close> and
  \<open>CMutableTransaction\<close> share one record, the cached hash is the function \<open>GetHash\<close> of the other
  members.  A 256-bit number is its eight limbs.  Amounts are \<open>int64_t\<close>; where the source relies on
  the wrap-around of a sum it is written out (\<open>wrap64\<close>).
\<close>

section \<open>Data\<close>

type_synonym uint256 = base_uint

record COutPoint =
  op_hash :: uint256
  op_n :: u32

record CTxIn =
  prevout :: COutPoint
  scriptSig :: CScript
  nSequence :: u32

record CTxOut =
  nValue :: CAmount
  scriptPubKey :: CScript
  nRounds :: int

record SpendDescription =
  spend_cv :: uint256
  spend_anchor :: uint256
  spend_nullifier :: uint256
  spend_rk :: uint256
  spend_zkproof :: "byte list"
  spend_authSig :: "byte list"

record OutputDescription =
  output_cv :: uint256
  output_cmu :: uint256
  output_ephemeralKey :: uint256
  output_encCiphertext :: "byte list"
  output_outCiphertext :: "byte list"
  output_zkproof :: "byte list"

record SaplingTxData =
  valueBalance :: CAmount
  vShieldedSpend :: "SpendDescription list"
  vShieldedOutput :: "OutputDescription list"
  bindingSig :: "byte list"

record CTransaction =
  tx_version :: int
  tx_type :: int
  vin :: "CTxIn list"
  vout :: "CTxOut list"
  nLockTime :: u32
  sapData :: "SaplingTxData option"
  extraPayload :: "byte list option"

definition SaplingTxData_new :: SaplingTxData where
  "SaplingTxData_new = \<lparr>valueBalance = 0, vShieldedSpend = [], vShieldedOutput = [], bindingSig = replicate 64 0\<rparr>"

definition CTransaction_new :: CTransaction where
  "CTransaction_new = \<lparr>tx_version = 1, tx_type = 0, vin = [], vout = [], nLockTime = 0,
     sapData = Some SaplingTxData_new, extraPayload = None\<rparr>"

section \<open>Outpoints, inputs and outputs\<close>

definition outpoint_null :: COutPoint where
  "outpoint_null = \<lparr>op_hash = base_uint_zero 8, op_n = - 1\<rparr>"

definition outpoint_IsNull :: "COutPoint \<Rightarrow> bool" where
  "outpoint_IsNull p \<longleftrightarrow> bu_is_null (op_hash p) \<and> op_n p = - 1"

definition outpoint_less :: "COutPoint \<Rightarrow> COutPoint \<Rightarrow> bool" where
  "outpoint_less a b \<longleftrightarrow> bu_compare (op_hash a) (op_hash b) < 0 \<or>
     (op_hash a = op_hash b \<and> op_n a < op_n b)"

definition SEQUENCE_FINAL :: u32 where "SEQUENCE_FINAL = 0xffffffff"

definition txin_new :: "COutPoint \<Rightarrow> CScript \<Rightarrow> u32 \<Rightarrow> CTxIn" where
  "txin_new prevoutIn scriptSigIn nSequenceIn = \<lparr>prevout = prevoutIn, scriptSig = scriptSigIn, nSequence = nSequenceIn\<rparr>"

definition txin_IsFinal :: "CTxIn \<Rightarrow> bool" where
  "txin_IsFinal i \<longleftrightarrow> nSequence i = SEQUENCE_FINAL"

definition txin_IsNull :: "CTxIn \<Rightarrow> bool" where
  "txin_IsNull i \<longleftrightarrow> outpoint_IsNull (prevout i) \<and> scriptSig i = [] \<and> txin_IsFinal i"

definition txout_new :: "CAmount \<Rightarrow> CScript \<Rightarrow> CTxOut" where
  "txout_new nValueIn scriptPubKeyIn = \<lparr>nValue = nValueIn, scriptPubKey = scriptPubKeyIn, nRounds = -10\<rparr>"

definition txout_null :: CTxOut where
  "txout_null = \<lparr>nValue = -1, scriptPubKey = [], nRounds = -10\<rparr>"

definition txout_IsNull :: "CTxOut \<Rightarrow> bool" where
  "txout_IsNull o1 \<longleftrightarrow> nValue o1 = -1"

definition txout_SetEmpty :: "CTxOut \<Rightarrow> CTxOut" where
  "txout_SetEmpty o1 = o1\<lparr>nValue := 0, scriptPubKey := []\<rparr>"

definition txout_IsEmpty :: "CTxOut \<Rightarrow> bool" where
  "txout_IsEmpty o1 \<longleftrightarrow> nValue o1 = 0 \<and> scriptPubKey o1 = []"

section \<open>Transactions\<close>

definition hasBindingSig :: "SaplingTxData \<Rightarrow> bool" where
  "hasBindingSig d \<longleftrightarrow> list_ex (\<lambda>c. c \<noteq> 0) (bindingSig d)"

definition tx_IsNull :: "CTransaction \<Rightarrow> bool" where
  "tx_IsNull tx \<longleftrightarrow> vin tx = [] \<and> vout tx = []"

definition hasSaplingData :: "CTransaction \<Rightarrow> bool" where
  "hasSaplingData tx \<longleftrightarrow> (case sapData tx of None \<Rightarrow> False
     | Some d \<Rightarrow> vShieldedOutput d \<noteq> [] \<or> vShieldedSpend d \<noteq> [] \<or> valueBalance d \<noteq> 0 \<or> hasBindingSig d)"

definition isSaplingVersion :: "CTransaction \<Rightarrow> bool" where
  "isSaplingVersion tx \<longleftrightarrow> tx_version tx \<ge> 3"

definition IsShieldedTx :: "CTransaction \<Rightarrow> bool" where
  "IsShieldedTx tx \<longleftrightarrow> isSaplingVersion tx \<and> hasSaplingData tx"

definition hasExtraPayload :: "CTransaction \<Rightarrow> bool" where
  "hasExtraPayload tx \<longleftrightarrow> (case extraPayload tx of None \<Rightarrow> False | Some p \<Rightarrow> p \<noteq> [])"

definition IsSpecialTx :: "CTransaction \<Rightarrow> bool" where
  "IsSpecialTx tx \<longleftrightarrow> isSaplingVersion tx \<and> tx_type tx \<noteq> 0 \<and> hasExtraPayload tx"

definition IsNormalType :: "CTransaction \<Rightarrow> bool" where
  "IsNormalType tx \<longleftrightarrow> tx_type tx = 0"

datatype SigVersion = SIGVERSION_BASE | SIGVERSION_SAPLING

definition GetRequiredSigVersion :: "CTransaction \<Rightarrow> SigVersion" where
  "GetRequiredSigVersion tx = (if isSaplingVersion tx then SIGVERSION_SAPLING else SIGVERSION_BASE)"

definition IsCoinBase :: "CTransaction \<Rightarrow> bool" where
  "IsCoinBase tx \<longleftrightarrow> length (vin tx) = 1 \<and> outpoint_IsNull (prevout (vin tx ! 0))"

definition IsCoinStake :: "CTransaction \<Rightarrow> bool" where
  "IsCoinStake tx \<longleftrightarrow> (if vin tx = [] then False
     else if outpoint_IsNull (prevout (vin tx ! 0)) then False
     else length (vout tx) \<ge> 2 \<and> txout_IsEmpty (vout tx ! 0))"

definition HasP2CSOutputs :: "bool \<Rightarrow> CTransaction \<Rightarrow> bool" where
  "HasP2CSOutputs newRules tx \<longleftrightarrow> list_ex (\<lambda>txout. IsPayToColdStaking newRules (scriptPubKey txout)) (vout tx)"

datatype value_error = LessThanZero | WrapsBoundary | InvalidVersion

definition wrap64 :: "int \<Rightarrow> int" where
  "wrap64 n = (n + 2 ^ 63) mod 2 ^ 64 - 2 ^ 63"

fun value_out_loop :: "CTxOut list \<Rightarrow> CAmount \<Rightarrow> value_error + CAmount" where
  "value_out_loop [] nValueOut = Inr nValueOut"
| "value_out_loop (it # rest) nValueOut =
     (if nValue it < 0 then Inl LessThanZero
      else if wrap64 (nValueOut + nValue it) < nValueOut then Inl WrapsBoundary
      else value_out_loop rest (wrap64 (nValueOut + nValue it)))"

definition shielded_balance :: "CTransaction \<Rightarrow> CAmount" where
  "shielded_balance tx = (case sapData tx of None \<Rightarrow> 0 | Some d \<Rightarrow> valueBalance d)"

definition GetValueOut :: "CTransaction \<Rightarrow> value_error + CAmount" where
  "GetValueOut tx = (case value_out_loop (vout tx) 0 of
       Inl e \<Rightarrow> Inl e
     | Inr nValueOut \<Rightarrow>
         if hasSaplingData tx \<and> shielded_balance tx < 0
         then (if \<not> isSaplingVersion tx then Inl InvalidVersion else Inr (wrap64 (nValueOut - shielded_balance tx)))
         else Inr nValueOut)"

definition GetShieldedValueIn :: "CTransaction \<Rightarrow> value_error + CAmount" where
  "GetShieldedValueIn tx =
     (if hasSaplingData tx \<and> shielded_balance tx > 0
      then (if \<not> isSaplingVersion tx then Inl InvalidVersion else Inr (shielded_balance tx))
      else Inr 0)"

section \<open>Serialisation\<close>

definition Serialize_uint256 :: "uint256 \<Rightarrow> byte list" where
  "Serialize_uint256 x = uint_bytes x"

fun limbs_of_bytes :: "nat \<Rightarrow> byte list \<Rightarrow> base_uint" where
  "limbs_of_bytes 0 bs = []"
| "limbs_of_bytes (Suc n) bs = ReadLE32 (take 4 bs) # limbs_of_bytes n (drop 4 bs)"

definition Unserialize_uint256 :: "uint256 reader" where
  "Unserialize_uint256 = rbind (read_bytes 32) (\<lambda>b. rreturn (limbs_of_bytes 8 b))"

definition Serialize_blob :: "byte list \<Rightarrow> byte list" where
  "Serialize_blob = Serialize_array ser_writedata8"

definition Unserialize_blob :: "nat \<Rightarrow> byte list reader" where
  "Unserialize_blob n = Unserialize_array ser_readdata8 n"

definition Serialize_outpoint :: "COutPoint \<Rightarrow> byte list" where
  "Serialize_outpoint p = Serialize_uint256 (op_hash p) @ ser_writedata32 (op_n p)"

definition Unserialize_outpoint :: "COutPoint reader" where
  "Unserialize_outpoint = rbind Unserialize_uint256 (\<lambda>h. rbind ser_readdata32 (\<lambda>n. rreturn \<lparr>op_hash = h, op_n = n\<rparr>))"

definition Serialize_txin :: "CTxIn \<Rightarrow> byte list" where
  "Serialize_txin i = Serialize_outpoint (prevout i) @ Serialize_bytes (scriptSig i) @ ser_writedata32 (nSequence i)"

definition Unserialize_txin :: "CTxIn reader" where
  "Unserialize_txin = rbind Unserialize_outpoint (\<lambda>p. rbind Unserialize_bytes (\<lambda>sc. rbind ser_readdata32 (\<lambda>q.
     rreturn (txin_new p sc q))))"

definition Serialize_txout :: "CTxOut \<Rightarrow> byte list" where
  "Serialize_txout o1 = Serialize_int64 (nValue o1) @ Serialize_bytes (scriptPubKey o1)"

definition Unserialize_txout :: "CTxOut reader" where
  "Unserialize_txout = rbind Unserialize_int64 (\<lambda>v. rbind Unserialize_bytes (\<lambda>sc. rreturn (txout_new v sc)))"

definition Serialize_spend :: "SpendDescription \<Rightarrow> byte list" where
  "Serialize_spend d = Serialize_uint256 (spend_cv d) @ Serialize_uint256 (spend_anchor d) @
     Serialize_uint256 (spend_nullifier d) @ Serialize_uint256 (spend_rk d) @ Serialize_blob (spend_zkproof d) @
     Serialize_blob (spend_authSig d)"

definition Unserialize_spend :: "SpendDescription reader" where
  "Unserialize_spend = rbind Unserialize_uint256 (\<lambda>cv. rbind Unserialize_uint256 (\<lambda>an. rbind Unserialize_uint256 (\<lambda>nf.
     rbind Unserialize_uint256 (\<lambda>rk. rbind (Unserialize_blob 192) (\<lambda>pr. rbind (Unserialize_blob 64) (\<lambda>sg.
     rreturn \<lparr>spend_cv = cv, spend_anchor = an, spend_nullifier = nf, spend_rk = rk, spend_zkproof = pr, spend_authSig = sg\<rparr>))))))"

definition Serialize_output :: "OutputDescription \<Rightarrow> byte list" where
  "Serialize_output d = Serialize_uint256 (output_cv d) @ Serialize_uint256 (output_cmu d) @
     Serialize_uint256 (output_ephemeralKey d) @ Serialize_blob (output_encCiphertext d) @
     Serialize_blob (output_outCiphertext d) @ Serialize_blob (output_zkproof d)"

definition Unserialize_output :: "OutputDescription reader" where
  "Unserialize_output = rbind Unserialize_uint256 (\<lambda>cv. rbind Unserialize_uint256 (\<lambda>cm. rbind Unserialize_uint256 (\<lambda>ek.
     rbind (Unserialize_blob 580) (\<lambda>enc. rbind (Unserialize_blob 80) (\<lambda>ou. rbind (Unserialize_blob 192) (\<lambda>pr.
     rreturn \<lparr>output_cv = cv, output_cmu = cm, output_ephemeralKey = ek, output_encCiphertext = enc,
       output_outCiphertext = ou, output_zkproof = pr\<rparr>))))))"

text \<open>\<open>vstep\<close> gives, for each element type, \<open>5000000 / sizeof(T) - 1\<close> (see \<open>Unserialize_vector\<close>).\<close>

datatype elem_type = TxInElem | TxOutElem | SpendElem | OutputElem

definition Serialize_sapling :: "SaplingTxData \<Rightarrow> byte list" where
  "Serialize_sapling d = Serialize_int64 (valueBalance d) @ Serialize_vector Serialize_spend (vShieldedSpend d) @
     Serialize_vector Serialize_output (vShieldedOutput d) @ Serialize_blob (bindingSig d)"

definition Unserialize_sapling :: "(elem_type \<Rightarrow> nat) \<Rightarrow> SaplingTxData reader" where
  "Unserialize_sapling vstep = rbind Unserialize_int64 (\<lambda>v.
     rbind (Unserialize_vector Unserialize_spend (vstep SpendElem)) (\<lambda>sp.
     rbind (Unserialize_vector Unserialize_output (vstep OutputElem)) (\<lambda>ou. rbind (Unserialize_blob 64) (\<lambda>sg.
     rreturn \<lparr>valueBalance = v, vShieldedSpend = sp, vShieldedOutput = ou, bindingSig = sg\<rparr>))))"

definition SerializeTransaction :: "CTransaction \<Rightarrow> byte list" where
  "SerializeTransaction tx =
     Serialize_int16 (tx_version tx) @ Serialize_int16 (tx_type tx) @ Serialize_vector Serialize_txin (vin tx) @
     Serialize_vector Serialize_txout (vout tx) @ ser_writedata32 (nLockTime tx) @
     (if isSaplingVersion tx
      then Serialize_optional Serialize_sapling (sapData tx) @
        (if \<not> IsNormalType tx then Serialize_optional Serialize_bytes (extraPayload tx) else [])
      else [])"

text \<open>The members that are not read keep the value they have in the object read into.\<close>

definition UnserializeTransaction :: "(elem_type \<Rightarrow> nat) \<Rightarrow> CTransaction \<Rightarrow> CTransaction reader" where
  "UnserializeTransaction vstep tx0 =
     rbind Unserialize_int16 (\<lambda>ver. rbind Unserialize_int16 (\<lambda>ty.
     rbind (Unserialize_vector Unserialize_txin (vstep TxInElem)) (\<lambda>ins.
     rbind (Unserialize_vector Unserialize_txout (vstep TxOutElem)) (\<lambda>outs.
     rbind ser_readdata32 (\<lambda>lock.
       let tx = tx0\<lparr>tx_version := ver, tx_type := ty, vin := ins, vout := outs, nLockTime := lock\<rparr>
       in if isSaplingVersion tx
          then rbind (Unserialize_optional (Unserialize_sapling vstep)) (\<lambda>d.
            let tx = tx\<lparr>sapData := d\<rparr>
            in if \<not> IsNormalType tx
               then rbind (Unserialize_optional Unserialize_bytes) (\<lambda>p. rreturn (tx\<lparr>extraPayload := p\<rparr>))
               else rreturn tx)
          else rreturn tx)))))"

definition GetTotalSize :: "CTransaction \<Rightarrow> nat" where
  "GetTotalSize tx = length (SerializeTransaction tx)"

definition SerializeHash :: "byte list \<Rightarrow> byte list \<Rightarrow> uint256" where
  "SerializeHash junk obj = limbs_of_bytes 8 (Hash junk [obj])"

definition tx_GetHash :: "byte list \<Rightarrow> CTransaction \<Rightarrow> uint256" where
  "tx_GetHash junk tx = SerializeHash junk (SerializeTransaction tx)"

definition txout_GetHash :: "byte list \<Rightarrow> CTxOut \<Rightarrow> uint256" where
  "txout_GetHash junk o1 = SerializeHash junk (Serialize_txout o1)"

definition CalculateModifiedSize :: "CTransaction \<Rightarrow> nat \<Rightarrow> nat" where
  "CalculateModifiedSize tx nTxSize =
     foldl (\<lambda>sz it. let offset = 41 + min 110 (length (scriptSig it)) in if sz > offset then sz - offset else sz)
       (if nTxSize = 0 then GetTotalSize tx else nTxSize) (vin tx)"

section \<open>Codecs of the parts\<close>

lemma limbs_of_bytes_append:
  "length ws = n \<Longrightarrow> limbs_of_bytes n (concat (map WriteLE32 ws)) = ws"
  by (induction ws arbitrary: n) (auto simp: ReadLE_WriteLE(2) [where r = "[]", simplified])

lemma bytes_of_limbs:
  "length bs = 4 * n \<Longrightarrow> concat (map WriteLE32 (limbs_of_bytes n bs)) = bs"
  by (induction n arbitrary: bs) (simp_all add: WriteLE_ReadLE)

lemma length_limbs [simp]: "length (limbs_of_bytes n bs) = n"
  by (induction n arbitrary: bs) simp_all

lemma length_uint_bytes: "length (uint_bytes x) = 4 * length x"
  by (induction x) (simp_all add: uint_bytes_def)

interpretation uint256_codec: canonical_codec Serialize_uint256 Unserialize_uint256 "\<lambda>x. WIDTH x = 8"
proof
  fix x s t
  show "Unserialize_uint256 (Serialize_uint256 x @ s) = Inr (x, s)" if "WIDTH x = 8"
    using that length_uint_bytes [of x] limbs_of_bytes_append [of x 8]
    by (simp add: Unserialize_uint256_def Serialize_uint256_def uint_bytes_def)
  show "WIDTH x = 8 \<and> t = Serialize_uint256 x @ s" if "Unserialize_uint256 t = Inr (x, s)"
    using that by (auto simp: Unserialize_uint256_def Serialize_uint256_def uint_bytes_def rbind_Inr read_bytes_Inr bytes_of_limbs)
qed

lemma blob_codec: "canonical_codec Serialize_blob (Unserialize_blob n) (\<lambda>v. length v = n)"
  using array_codec [OF u8_codec.canonical_codec_axioms, of n] by (simp add: Serialize_blob_def Unserialize_blob_def list_all_iff)

interpretation blob64: canonical_codec Serialize_blob "Unserialize_blob 64" "\<lambda>v. length v = 64" by (rule blob_codec)
interpretation blob80: canonical_codec Serialize_blob "Unserialize_blob 80" "\<lambda>v. length v = 80" by (rule blob_codec)
interpretation blob192: canonical_codec Serialize_blob "Unserialize_blob 192" "\<lambda>v. length v = 192" by (rule blob_codec)
interpretation blob580: canonical_codec Serialize_blob "Unserialize_blob 580" "\<lambda>v. length v = 580" by (rule blob_codec)

lemmas part_iff = u32_codec.unser_iff int16_codec.unser_iff int64_codec.unser_iff bytes_codec.unser_iff
  uint256_codec.unser_iff blob64.unser_iff blob80.unser_iff blob192.unser_iff blob580.unser_iff rbind_Inr

definition outpoint_ok :: "COutPoint \<Rightarrow> bool" where
  "outpoint_ok p \<longleftrightarrow> WIDTH (op_hash p) = 8"

interpretation outpoint_codec: canonical_codec Serialize_outpoint Unserialize_outpoint outpoint_ok
  by unfold_locales (auto simp: Serialize_outpoint_def Unserialize_outpoint_def outpoint_ok_def part_iff)

definition txin_ok :: "CTxIn \<Rightarrow> bool" where
  "txin_ok i \<longleftrightarrow> outpoint_ok (prevout i) \<and> length (scriptSig i) \<le> MAX_SIZE"

interpretation txin_codec: canonical_codec Serialize_txin Unserialize_txin txin_ok
  by unfold_locales
    (auto simp: Serialize_txin_def Unserialize_txin_def txin_ok_def txin_new_def part_iff outpoint_codec.unser_iff)

text \<open>\<open>nRounds\<close> is not serialised; a fresh output has the value of its constructor.\<close>

definition txout_ok :: "CTxOut \<Rightarrow> bool" where
  "txout_ok o1 \<longleftrightarrow> in_int64 (nValue o1) \<and> length (scriptPubKey o1) \<le> MAX_SIZE \<and> nRounds o1 = -10"

interpretation txout_codec: canonical_codec Serialize_txout Unserialize_txout txout_ok
  by unfold_locales (auto simp: Serialize_txout_def Unserialize_txout_def txout_ok_def txout_new_def part_iff)

definition spend_ok :: "SpendDescription \<Rightarrow> bool" where
  "spend_ok d \<longleftrightarrow> WIDTH (spend_cv d) = 8 \<and> WIDTH (spend_anchor d) = 8 \<and> WIDTH (spend_nullifier d) = 8 \<and>
     WIDTH (spend_rk d) = 8 \<and> length (spend_zkproof d) = 192 \<and> length (spend_authSig d) = 64"

interpretation spend_codec: canonical_codec Serialize_spend Unserialize_spend spend_ok
  by unfold_locales (auto simp: Serialize_spend_def Unserialize_spend_def spend_ok_def part_iff)

definition output_ok :: "OutputDescription \<Rightarrow> bool" where
  "output_ok d \<longleftrightarrow> WIDTH (output_cv d) = 8 \<and> WIDTH (output_cmu d) = 8 \<and> WIDTH (output_ephemeralKey d) = 8 \<and>
     length (output_encCiphertext d) = 580 \<and> length (output_outCiphertext d) = 80 \<and> length (output_zkproof d) = 192"

interpretation output_codec: canonical_codec Serialize_output Unserialize_output output_ok
  by unfold_locales (auto simp: Serialize_output_def Unserialize_output_def output_ok_def part_iff)

interpretation txins_codec: canonical_codec "Serialize_vector Serialize_txin" "Unserialize_vector Unserialize_txin k"
    "\<lambda>v. list_all txin_ok v \<and> length v \<le> MAX_SIZE" for k
  by (rule vector_codec(1) [OF txin_codec.canonical_codec_axioms])

interpretation txouts_codec: canonical_codec "Serialize_vector Serialize_txout" "Unserialize_vector Unserialize_txout k"
    "\<lambda>v. list_all txout_ok v \<and> length v \<le> MAX_SIZE" for k
  by (rule vector_codec(1) [OF txout_codec.canonical_codec_axioms])

interpretation spends_codec: canonical_codec "Serialize_vector Serialize_spend" "Unserialize_vector Unserialize_spend k"
    "\<lambda>v. list_all spend_ok v \<and> length v \<le> MAX_SIZE" for k
  by (rule vector_codec(1) [OF spend_codec.canonical_codec_axioms])

interpretation outputs_codec: canonical_codec "Serialize_vector Serialize_output" "Unserialize_vector Unserialize_output k"
    "\<lambda>v. list_all output_ok v \<and> length v \<le> MAX_SIZE" for k
  by (rule vector_codec(1) [OF output_codec.canonical_codec_axioms])

definition sapling_ok :: "SaplingTxData \<Rightarrow> bool" where
  "sapling_ok d \<longleftrightarrow> in_int64 (valueBalance d) \<and> list_all spend_ok (vShieldedSpend d) \<and> length (vShieldedSpend d) \<le> MAX_SIZE \<and>
     list_all output_ok (vShieldedOutput d) \<and> length (vShieldedOutput d) \<le> MAX_SIZE \<and> length (bindingSig d) = 64"

interpretation sapling_codec: canonical_codec Serialize_sapling "Unserialize_sapling vstep" sapling_ok for vstep
  by unfold_locales
    (auto simp: Serialize_sapling_def Unserialize_sapling_def sapling_ok_def part_iff spends_codec.unser_iff outputs_codec.unser_iff)

interpretation opt_sapling_codec: codec "Serialize_optional Serialize_sapling" "Unserialize_optional (Unserialize_sapling vstep)"
    "pred_option sapling_ok" for vstep
  by (rule optional_codec) (rule sapling_codec.codec_axioms)

interpretation opt_bytes_codec: codec "Serialize_optional Serialize_bytes" "Unserialize_optional Unserialize_bytes"
    "pred_option (\<lambda>v. length v \<le> MAX_SIZE)"
  by (rule optional_codec) (rule bytes_codec.codec_axioms)

section \<open>Transactions as codec\<close>

text \<open>A transaction that a fresh object can hold after reading: what its version does not serialise is default.\<close>

definition tx_ok :: "CTransaction \<Rightarrow> bool" where
  "tx_ok tx \<longleftrightarrow> in_int16 (tx_version tx) \<and> in_int16 (tx_type tx) \<and>
     list_all txin_ok (vin tx) \<and> length (vin tx) \<le> MAX_SIZE \<and> list_all txout_ok (vout tx) \<and> length (vout tx) \<le> MAX_SIZE \<and>
     (if isSaplingVersion tx
      then pred_option sapling_ok (sapData tx) \<and>
        (if IsNormalType tx then extraPayload tx = None else pred_option (\<lambda>v. length v \<le> MAX_SIZE) (extraPayload tx))
      else sapData tx = Some SaplingTxData_new \<and> extraPayload tx = None)"

interpretation transaction_codec: codec SerializeTransaction "UnserializeTransaction vstep CTransaction_new" tx_ok for vstep
proof
  fix tx s
  assume ok: "tx_ok tx"
  obtain ver ty ins outs lock sap pay where
    tx: "tx = \<lparr>tx_version = ver, tx_type = ty, vin = ins, vout = outs, nLockTime = lock, sapData = sap, extraPayload = pay\<rparr>"
    by (cases tx)
  show "UnserializeTransaction vstep CTransaction_new (SerializeTransaction tx @ s) = Inr (tx, s)"
  proof (cases "3 \<le> ver")
    case False
    then show ?thesis using ok unfolding tx
      by (simp add: tx_ok_def UnserializeTransaction_def SerializeTransaction_def isSaplingVersion_def CTransaction_new_def)
  next
    case True
    then show ?thesis using ok unfolding tx
      by (cases "ty = 0")
        (simp_all add: tx_ok_def UnserializeTransaction_def SerializeTransaction_def isSaplingVersion_def
          IsNormalType_def CTransaction_new_def Let_def)
  qed
qed

section \<open>Values\<close>

lemma wrap64_id: "in_int64 n \<Longrightarrow> wrap64 n = n"
  by (simp add: wrap64_def in_int64_def)

lemma wrap64_over: "2 ^ 63 \<le> n \<Longrightarrow> n < 2 ^ 64 \<Longrightarrow> wrap64 n = n - 2 ^ 64"
proof -
  assume n: "2 ^ 63 \<le> n" "n < 2 ^ 64"
  have "(n + 2 ^ 63) mod 2 ^ 64 = (n - 2 ^ 63) mod 2 ^ 64"
    using mod_add_self2 [of "n - 2 ^ 63" "2 ^ 64 :: int"] by (simp add: algebra_simps)
  also have "\<dots> = n - 2 ^ 63" using n by (simp add: mod_pos_pos_trivial)
  finally show ?thesis by (simp add: wrap64_def)
qed

lemma wrap64_mod: "wrap64 n mod 2 ^ 64 = n mod 2 ^ 64"
  by (simp add: wrap64_def mod_simps)

lemma wrap64_cong: "a mod 2 ^ 64 = b mod 2 ^ 64 \<Longrightarrow> wrap64 a = wrap64 b"
  unfolding wrap64_def by (metis mod_add_left_eq)

lemma wrap64_simps:
  "wrap64 (wrap64 a + b) = wrap64 (a + b)" "wrap64 (a + wrap64 b) = wrap64 (a + b)"
  "wrap64 (wrap64 a - b) = wrap64 (a - b)" "wrap64 (a - wrap64 b) = wrap64 (a - b)" "wrap64 0 = 0"
  "wrap64 (a + (wrap64 b - c)) = wrap64 (a + (b - c))"
proof -
  show "wrap64 (wrap64 a + b) = wrap64 (a + b)" by (rule wrap64_cong) (metis wrap64_mod mod_add_left_eq)
  show "wrap64 (a + wrap64 b) = wrap64 (a + b)" by (rule wrap64_cong) (metis wrap64_mod mod_add_right_eq)
  show "wrap64 (wrap64 a - b) = wrap64 (a - b)" by (rule wrap64_cong) (metis wrap64_mod mod_diff_left_eq)
  show "wrap64 (a - wrap64 b) = wrap64 (a - b)" by (rule wrap64_cong) (metis wrap64_mod mod_diff_right_eq)
  show "wrap64 0 = 0" by (simp add: wrap64_def)
  show "wrap64 (a + (wrap64 b - c)) = wrap64 (a + (b - c))" by (rule wrap64_cong) (metis wrap64_mod mod_add_right_eq mod_diff_left_eq)
qed

definition total_out :: "CTransaction \<Rightarrow> CAmount" where
  "total_out tx = sum_list (map nValue (vout tx))"

lemma value_out_loop_iff:
  assumes "list_all (\<lambda>o1. in_int64 (nValue o1)) outs"
  shows "0 \<le> acc \<Longrightarrow> acc < 2 ^ 63 \<Longrightarrow> value_out_loop outs acc = Inr v \<longleftrightarrow>
    list_all (\<lambda>o1. 0 \<le> nValue o1) outs \<and> acc + sum_list (map nValue outs) < 2 ^ 63 \<and> v = acc + sum_list (map nValue outs)"
  using assms
proof (induction outs arbitrary: acc)
  case Nil
  then show ?case by auto
next
  case (Cons o1 outs)
  let ?x = "nValue o1" and ?r = "sum_list (map nValue outs)"
  have x: "- (2 ^ 63) \<le> ?x" "?x < 2 ^ 63" and ok: "list_all (\<lambda>o1. in_int64 (nValue o1)) outs"
    using Cons.prems(3) by (simp_all add: in_int64_def)
  consider "?x < 0" | "0 \<le> ?x" "acc + ?x < 2 ^ 63" | "0 \<le> ?x" "2 ^ 63 \<le> acc + ?x" by linarith
  then show ?case
  proof cases
    case 1
    then show ?thesis by simp
  next
    case 2
    have "wrap64 (acc + ?x) = acc + ?x" using 2 Cons.prems(1) by (intro wrap64_id) (simp add: in_int64_def)
    then show ?thesis using 2 Cons.IH [of "acc + ?x"] Cons.prems(1) ok by (simp add: algebra_simps)
  next
    case 3
    have "wrap64 (acc + ?x) = acc + ?x - 2 ^ 64" using 3 x Cons.prems(2) by (intro wrap64_over) simp_all
    moreover have "0 \<le> ?r" if "list_all (\<lambda>o1. 0 \<le> nValue o1) outs" using that by (induction outs) simp_all
    ultimately show ?thesis using 3 x Cons.prems(2) by auto
  qed
qed

text \<open>Outpoints are strictly and totally ordered, as the ordered containers of the node require.\<close>

lemma outpoint_less_strict_linear:
  assumes "outpoint_ok a" and "outpoint_ok b" and "outpoint_ok c"
  shows "\<not> outpoint_less a a" and "outpoint_less a b \<Longrightarrow> outpoint_less b c \<Longrightarrow> outpoint_less a c"
    and "outpoint_less a b \<or> a = b \<or> outpoint_less b a"
proof -
  have w: "WIDTH (op_hash a) = 8" "WIDTH (op_hash b) = 8" "WIDTH (op_hash c) = 8" using assms by (simp_all add: outpoint_ok_def)
  show "\<not> outpoint_less a a" "outpoint_less a b \<Longrightarrow> outpoint_less b c \<Longrightarrow> outpoint_less a c"
    using w by (auto simp: outpoint_less_def bu_compare_lt)
  have "op_hash a = op_hash b \<longleftrightarrow> uint_val (op_hash a) = uint_val (op_hash b)" using w uint_val_inject by auto
  then show "outpoint_less a b \<or> a = b \<or> outpoint_less b a"
    using w by (cases a; cases b) (auto simp: outpoint_less_def bu_compare_lt)
qed

section \<open>Properties\<close>

text \<open>
  C26. Transactions survive serialisation: for every well-formed transaction of every version and type,
  reading what \<open>SerializeTransaction\<close> wrote into a fresh object gives the transaction back and leaves
  the rest of the stream, so two well-formed transactions never share a serialisation and none is a
  prefix of another.
\<close>

theorem transaction_roundtrip:
  assumes "tx_ok tx"
  shows "UnserializeTransaction vstep CTransaction_new (SerializeTransaction tx @ s) = Inr (tx, s) \<and>
    (tx_ok tx' \<and> SerializeTransaction tx @ s = SerializeTransaction tx' @ s' \<longrightarrow> tx = tx' \<and> s = s')"
  using transaction_codec.unser_ser [OF assms] transaction_codec.prefix_free [OF assms] by blast

definition example_tx :: CTransaction where
  "example_tx = CTransaction_new\<lparr>tx_version := 3, tx_type := 1, vin := [txin_new outpoint_null [1, 2] 5],
     vout := [txout_new 7 [0x6a]], extraPayload := Some [9]\<rparr>"

theorem transaction_roundtrip_witness:
  "UnserializeTransaction (\<lambda>_. 0) CTransaction_new (SerializeTransaction example_tx @ [1]) = Inr (example_tx, [1])"
proof -
  have "tx_ok example_tx"
    by (simp add: example_tx_def tx_ok_def CTransaction_new_def in_int16_def txin_ok_def txin_new_def outpoint_ok_def
        outpoint_null_def txout_ok_def txout_new_def in_int64_def isSaplingVersion_def IsNormalType_def sapling_ok_def
        SaplingTxData_new_def MAX_SIZE_def)
  from transaction_roundtrip [OF this] show ?thesis by blast
qed

text \<open>
  \<open>GetValueOut\<close> never returns a wrapped transparent total: on outputs in \<open>int64_t\<close> range without
  shielded outflow it returns a value exactly if no output is negative and the exact sum fits, and then
  the value is that sum; with shielded outflow the outflow is added, and a transaction below the
  Sapling version is refused.
\<close>

theorem GetValueOut_is_sum:
  assumes "list_all (\<lambda>o1. in_int64 (nValue o1)) (vout tx)"
  shows "GetValueOut tx = Inr v \<longleftrightarrow>
    list_all (\<lambda>o1. 0 \<le> nValue o1) (vout tx) \<and> total_out tx < 2 ^ 63 \<and>
    (if hasSaplingData tx \<and> shielded_balance tx < 0
     then isSaplingVersion tx \<and> v = wrap64 (total_out tx - shielded_balance tx) else v = total_out tx)"
proof -
  note loop = value_out_loop_iff [OF assms, of 0]
  show ?thesis
  proof (cases "value_out_loop (vout tx) 0")
    case (Inl e)
    then have "\<not> (list_all (\<lambda>o1. 0 \<le> nValue o1) (vout tx) \<and> total_out tx < 2 ^ 63)"
      using loop [of "total_out tx"] by (simp add: total_out_def)
    then show ?thesis using Inl by (auto simp: GetValueOut_def)
  next
    case (Inr x)
    then have "list_all (\<lambda>o1. 0 \<le> nValue o1) (vout tx)" "total_out tx < 2 ^ 63" "x = total_out tx"
      using loop [of x] by (simp_all add: total_out_def)
    then show ?thesis using Inr by (auto simp: GetValueOut_def)
  qed
qed

theorem GetValueOut_is_sum_witness:
  "GetValueOut example_tx = Inr 7"
  using GetValueOut_is_sum [of example_tx 7]
  by (simp add: example_tx_def CTransaction_new_def txout_new_def total_out_def in_int64_def hasSaplingData_def
      SaplingTxData_new_def hasBindingSig_def shielded_balance_def)

end
