(* ===== verification/TxVerify.thy ===== *)
theory TxVerify
  imports Transaction Consensus
begin

text \<open>
  Context-free transaction checks: \<open>src/src/consensus/tx_verify.cpp\<close>, the non-contextual part of
  \<open>src/src/sapling/sapling_validation.cpp\<close> and \<open>src/src/tiertwo/specialtx_validation.cpp\<close>.
  A check returns \<open>Accept\<close>, a rejection with its ban score and reason (\<open>state.DoS\<close>), or a rejection that
  leaves the validation state alone.  The running total \<open>nValueOut\<close> is passed by reference in the
  source and returned with \<open>Accept\<close> here; \<open>std::set\<close> membership is list membership.
\<close>

section \<open>Results\<close>

datatype 'a check = Accept 'a | Reject nat string | RejectSilent

fun check_bind :: "'a check \<Rightarrow> ('a \<Rightarrow> 'b check) \<Rightarrow> 'b check" where
  "check_bind (Accept x) f = f x"
| "check_bind (Reject n r) f = Reject n r"
| "check_bind RejectSilent f = RejectSilent"

definition LOCKTIME_THRESHOLD :: int where "LOCKTIME_THRESHOLD = 500000000"
definition MAX_BLOCK_SIZE_CURRENT :: nat where "MAX_BLOCK_SIZE_CURRENT = 2000000"

definition MAX_TX_SIZE_AFTER_SAPLING :: nat where "MAX_TX_SIZE_AFTER_SAPLING = 400000"
definition MAX_STANDARD_TX_SIZE :: nat where "MAX_STANDARD_TX_SIZE = 100000"
definition MAX_SPECIALTX_EXTRAPAYLOAD :: nat where "MAX_SPECIALTX_EXTRAPAYLOAD = 10000"
definition MIN_COLDSTAKING_AMOUNT :: CAmount where "MIN_COLDSTAKING_AMOUNT = 100000000"

section \<open>Finality and signature operations\<close>

definition IsFinalTx :: "int \<Rightarrow> CTransaction \<Rightarrow> int \<Rightarrow> int \<Rightarrow> bool" where
  "IsFinalTx adjustedTime tx nBlockHeight nBlockTime =
     (if nLockTime tx = 0 then True
      else let nBlockTime = (if nBlockTime = 0 then adjustedTime else nBlockTime);
               lock = uint (nLockTime tx)
           in if lock < (if lock < LOCKTIME_THRESHOLD then nBlockHeight else nBlockTime) then True
              else list_all txin_IsFinal (vin tx))"

definition GetLegacySigOpCount :: "CTransaction \<Rightarrow> nat" where
  "GetLegacySigOpCount tx =
     sum_list (map (\<lambda>i. GetSigOpCount False (scriptSig i)) (vin tx)) +
     sum_list (map (\<lambda>o1. GetSigOpCount False (scriptPubKey o1)) (vout tx))"

text \<open>\<open>access\<close> is \<open>inputs.AccessCoin (_).out\<close>.\<close>

definition GetP2SHSigOpCount :: "(COutPoint \<Rightarrow> CTxOut) \<Rightarrow> CTransaction \<Rightarrow> nat" where
  "GetP2SHSigOpCount access tx =
     (if IsCoinBase tx then 0
      else sum_list (map (\<lambda>i. let out = access (prevout i)
        in if IsPayToScriptHash (scriptPubKey out) then GetSigOpCount_P2SH (scriptPubKey out) (scriptSig i) else 0) (vin tx)))"

section \<open>Sapling\<close>

fun nullifiers_distinct :: "SpendDescription list \<Rightarrow> uint256 list \<Rightarrow> bool" where
  "nullifiers_distinct [] seen = True"
| "nullifiers_distinct (d # ds) seen =
     (if spend_nullifier d \<in> set seen then False else nullifiers_distinct ds (spend_nullifier d # seen))"

definition CheckTransactionWithoutProofVerification :: "Params \<Rightarrow> SaplingTxData \<Rightarrow> CAmount \<Rightarrow> CAmount check" where
  "CheckTransactionWithoutProofVerification consensus d nValueOut =
     (if vShieldedSpend d = [] \<and> vShieldedOutput d = [] \<and> valueBalance d \<noteq> 0
      then Reject 100 ''bad-txns-valuebalance-nonzero''
      else if valueBalance d > nMaxMoneyOut consensus \<or> valueBalance d < - nMaxMoneyOut consensus
      then Reject 100 ''bad-txns-valuebalance-toolarge''
      else let nValueOut' = (if valueBalance d < 0 then nValueOut - valueBalance d else nValueOut)
        in if valueBalance d < 0 \<and> \<not> MoneyRange consensus nValueOut' then Reject 100 ''bad-txns-txouttotal-toolarge''
           else if valueBalance d > 0 \<and> \<not> MoneyRange consensus (valueBalance d) then Reject 100 ''bad-txns-txintotal-toolarge''
           else if \<not> nullifiers_distinct (vShieldedSpend d) [] then Reject 100 ''bad-spend-description-nullifiers-duplicate''
           else Accept nValueOut')"

definition Sapling_CheckTransaction :: "Params \<Rightarrow> CTransaction \<Rightarrow> CAmount \<Rightarrow> bool \<Rightarrow> CAmount check" where
  "Sapling_CheckTransaction consensus tx nValueOut fIsSaplingActive =
     (if \<not> isSaplingVersion tx \<and> hasSaplingData tx then Reject 100 ''bad-txns-form-not-sapling''
      else if \<not> hasSaplingData tx then Accept nValueOut
      else if IsCoinStake tx \<or> IsCoinBase tx then Reject 100 ''bad-txns-invalid-sapling''
      else if \<not> fIsSaplingActive then Reject 100 ''bad-txns-invalid-sapling-act''
      else case sapData tx of
        None \<Rightarrow> Accept nValueOut
      | Some d \<Rightarrow> CheckTransactionWithoutProofVerification consensus d nValueOut)"

section \<open>Special transactions\<close>

definition CheckSpecialTx :: "CTransaction \<Rightarrow> bool \<Rightarrow> unit check" where
  "CheckSpecialTx tx fIsSaplingActive =
     (if \<not> fIsSaplingActive then (if hasExtraPayload tx then RejectSilent else Accept ())
      else if \<not> isSaplingVersion tx \<and> tx_type tx \<noteq> 0 then Reject 100 ''bad-txns-type-version''
      else if tx_type tx = 0 then (if hasExtraPayload tx then Reject 100 ''bad-txns-type-payload'' else Accept ())
      else if \<not> hasExtraPayload tx then Reject 100 ''bad-txns-payload-empty''
      else if (case extraPayload tx of None \<Rightarrow> 0 | Some p \<Rightarrow> length p) > MAX_SPECIALTX_EXTRAPAYLOAD
      then Reject 100 ''bad-txns-payload-oversize''
      else Reject 10 ''bad-tx-type'')"

section \<open>Outputs and inputs\<close>

fun check_outputs :: "Params \<Rightarrow> bool \<Rightarrow> bool \<Rightarrow> bool \<Rightarrow> CTxOut list \<Rightarrow> CAmount \<Rightarrow> CAmount check" where
  "check_outputs consensus newRules fGenerated fColdStakingActive [] nValueOut = Accept nValueOut"
| "check_outputs consensus newRules fGenerated fColdStakingActive (txout # rest) nValueOut =
     (if txout_IsEmpty txout \<and> \<not> fGenerated then Reject 100 ''bad-txns-vout-empty''
      else if nValue txout < 0 then Reject 100 ''bad-txns-vout-negative''
      else if nValue txout > nMaxMoneyOut consensus then Reject 100 ''bad-txns-vout-toolarge''
      else let nValueOut' = nValueOut + nValue txout
        in if \<not> MoneyRange consensus nValueOut' then Reject 100 ''bad-txns-txouttotal-toolarge''
           else if IsPayToColdStaking newRules (scriptPubKey txout) \<and> \<not> fColdStakingActive
           then Reject 10 ''cold-stake-inactive''
           else if IsPayToColdStaking newRules (scriptPubKey txout) \<and> nValue txout < MIN_COLDSTAKING_AMOUNT
           then Reject 100 ''cold-stake-vout-toosmall''
           else check_outputs consensus newRules fGenerated fColdStakingActive rest nValueOut')"

fun inputs_distinct :: "CTxIn list \<Rightarrow> COutPoint list \<Rightarrow> bool" where
  "inputs_distinct [] seen = True"
| "inputs_distinct (i # is) seen =
     (if prevout i \<in> set seen then False else inputs_distinct is (prevout i # seen))"

definition check_inputs :: "CTransaction \<Rightarrow> unit check" where
  "check_inputs tx =
     (if \<not> inputs_distinct (vin tx) [] then Reject 100 ''bad-txns-inputs-duplicate''
      else if IsCoinBase tx
      then (let n = length (scriptSig (vin tx ! 0)) in if n < 2 \<or> n > 150 then Reject 100 ''bad-cb-length'' else Accept ())
      else if list_ex (\<lambda>i. outpoint_IsNull (prevout i)) (vin tx) then Reject 10 ''bad-txns-prevout-null''
      else Accept ())"

definition CheckTransaction :: "Params \<Rightarrow> bool \<Rightarrow> CTransaction \<Rightarrow> bool \<Rightarrow> bool \<Rightarrow> unit check" where
  "CheckTransaction consensus newRules tx fColdStakingActive fSaplingActive =
     (if vin tx = [] \<and> (case sapData tx of None \<Rightarrow> False | Some d \<Rightarrow> vShieldedSpend d = [])
      then Reject 10 ''bad-txns-vin-empty''
      else if vout tx = [] \<and> (case sapData tx of None \<Rightarrow> False | Some d \<Rightarrow> vShieldedOutput d = [])
      then Reject 10 ''bad-txns-vout-empty''
      else if fSaplingActive \<and> (tx_version tx < 1 \<or> tx_version tx \<ge> 4) then Reject 10 ''bad-tx-version-too-high''
      else if GetTotalSize tx > (if IsShieldedTx tx then MAX_TX_SIZE_AFTER_SAPLING else MAX_STANDARD_TX_SIZE)
      then Reject 10 ''bad-txns-oversize''
      else check_bind (Sapling_CheckTransaction consensus tx 0 fSaplingActive) (\<lambda>nValueOut.
        check_bind (CheckSpecialTx tx fSaplingActive) (\<lambda>_.
        check_bind (check_outputs consensus newRules (IsCoinBase tx \<or> IsCoinStake tx) fColdStakingActive (vout tx) nValueOut) (\<lambda>_.
        check_inputs tx))))"

section \<open>What acceptance means\<close>

lemma check_bind_Accept: "check_bind c f = Accept y \<longleftrightarrow> (\<exists>x. c = Accept x \<and> f x = Accept y)"
  by (cases c) auto

lemma nullifiers_distinct_iff:
  "nullifiers_distinct ds seen \<longleftrightarrow> distinct (map spend_nullifier ds) \<and> set (map spend_nullifier ds) \<inter> set seen = {}"
  by (induction ds arbitrary: seen) auto

lemma inputs_distinct_iff:
  "inputs_distinct is seen \<longleftrightarrow> distinct (map prevout is) \<and> set (map prevout is) \<inter> set seen = {}"
  by (induction "is" arbitrary: seen) auto

definition output_valid :: "Params \<Rightarrow> bool \<Rightarrow> bool \<Rightarrow> bool \<Rightarrow> CTxOut \<Rightarrow> bool" where
  "output_valid consensus newRules fGenerated fColdStakingActive txout \<longleftrightarrow>
     (txout_IsEmpty txout \<longrightarrow> fGenerated) \<and> 0 \<le> nValue txout \<and>
     (IsPayToColdStaking newRules (scriptPubKey txout) \<longrightarrow> fColdStakingActive \<and> MIN_COLDSTAKING_AMOUNT \<le> nValue txout)"

lemma sum_nonneg_outputs:
  "list_all (output_valid c nr g cs) outs \<Longrightarrow> 0 \<le> sum_list (map nValue outs)"
  by (induction outs) (simp_all add: output_valid_def)

text \<open>The checks on the running total are checks on the final total.\<close>

lemma check_outputs_iff:
  "0 \<le> acc \<Longrightarrow> check_outputs c nr g cs outs acc = Accept v \<longleftrightarrow>
     list_all (output_valid c nr g cs) outs \<and> v = acc + sum_list (map nValue outs) \<and> (outs \<noteq> [] \<longrightarrow> v \<le> nMaxMoneyOut c)"
proof (induction outs arbitrary: acc)
  case Nil
  then show ?case by auto
next
  case (Cons o1 outs)
  let ?x = "nValue o1" and ?r = "sum_list (map nValue outs)"
  show ?case
  proof (cases "output_valid c nr g cs o1 \<and> ?x \<le> nMaxMoneyOut c \<and> acc + ?x \<le> nMaxMoneyOut c")
    case True
    then have "0 \<le> acc + ?x" using Cons.prems by (simp add: output_valid_def)
    then show ?thesis using True Cons.IH [of "acc + ?x"] Cons.prems
      by (cases "outs = []") (auto simp: output_valid_def MoneyRange_def algebra_simps)
  next
    case False
    then have "check_outputs c nr g cs (o1 # outs) acc \<noteq> Accept v"
      using Cons.prems by (auto simp: output_valid_def MoneyRange_def Let_def)
    moreover have "\<not> acc + (?x + ?r) \<le> nMaxMoneyOut c" if "output_valid c nr g cs o1" "list_all (output_valid c nr g cs) outs"
      using False that Cons.prems sum_nonneg_outputs [OF that(2)] by (auto simp: output_valid_def)
    ultimately show ?thesis by (auto simp: algebra_simps)
  qed
qed

definition shielded_out :: "CTransaction \<Rightarrow> CAmount" where
  "shielded_out tx = (if hasSaplingData tx \<and> shielded_balance tx < 0 then - shielded_balance tx else 0)"

lemma Sapling_Accept:
  assumes "Sapling_CheckTransaction c tx 0 act = Accept v"
  shows "v = shielded_out tx" and "hasSaplingData tx \<Longrightarrow> isSaplingVersion tx \<and> act \<and> \<not> IsCoinBase tx \<and> \<not> IsCoinStake tx \<and>
      \<bar>shielded_balance tx\<bar> \<le> nMaxMoneyOut c \<and> (\<forall>d. sapData tx = Some d \<longrightarrow> distinct (map spend_nullifier (vShieldedSpend d)))"
    and "0 \<le> shielded_out tx" and "0 \<le> nMaxMoneyOut c \<Longrightarrow> shielded_out tx \<le> nMaxMoneyOut c"
proof -
  show r: "hasSaplingData tx \<Longrightarrow> isSaplingVersion tx \<and> act \<and> \<not> IsCoinBase tx \<and> \<not> IsCoinStake tx \<and>
      \<bar>shielded_balance tx\<bar> \<le> nMaxMoneyOut c \<and> (\<forall>d. sapData tx = Some d \<longrightarrow> distinct (map spend_nullifier (vShieldedSpend d)))"
    using assms
    by (auto simp: Sapling_CheckTransaction_def hasSaplingData_def shielded_balance_def nullifiers_distinct_iff
        CheckTransactionWithoutProofVerification_def Let_def split: if_splits option.splits)
  show "v = shielded_out tx"
    using assms
    by (auto simp: Sapling_CheckTransaction_def hasSaplingData_def shielded_balance_def shielded_out_def
        CheckTransactionWithoutProofVerification_def Let_def split: if_splits option.splits)
  show "0 \<le> shielded_out tx" "0 \<le> nMaxMoneyOut c \<Longrightarrow> shielded_out tx \<le> nMaxMoneyOut c"
    using r by (auto simp: shielded_out_def)
qed

lemma check_inputs_iff:
  "check_inputs tx = Accept () \<longleftrightarrow> distinct (map prevout (vin tx)) \<and>
     (if IsCoinBase tx then 2 \<le> length (scriptSig (vin tx ! 0)) \<and> length (scriptSig (vin tx ! 0)) \<le> 150
      else list_all (\<lambda>i. \<not> outpoint_IsNull (prevout i)) (vin tx))"
  by (auto simp: check_inputs_def inputs_distinct_iff Let_def list_all_iff list_ex_iff)

text \<open>
  The first comment of \<open>CheckTransaction\<close> says that a transaction with empty \<open>vin\<close> must have shielded
  spends.  The test is skipped if \<open>sapData\<close> is absent, which a version-3 transaction can be.
\<close>

lemma empty_transaction_accepted:
  "CheckTransaction main_params nr (CTransaction_new\<lparr>tx_version := 3, sapData := None\<rparr>) cs True = Accept ()"
  by (simp add: CheckTransaction_def CTransaction_new_def GetTotalSize_def SerializeTransaction_def Serialize_int16_def
      ser_writedata16_def Serialize_vector_def write_size_def WriteCompactSize_def ser_writedata8_def ser_writedata32_def
      Serialize_optional_def isSaplingVersion_def IsNormalType_def Sapling_CheckTransaction_def hasSaplingData_def
      CheckSpecialTx_def hasExtraPayload_def check_inputs_def IsCoinBase_def MAX_STANDARD_TX_SIZE_def MAX_TX_SIZE_AFTER_SAPLING_def)

section \<open>Properties\<close>

text \<open>
  C20. An accepted transaction is safe to account for.  It spends no outpoint and no nullifier twice;
  every output is non-negative and the total of its outputs, shielded outflow included, is within the
  money supply, so \<open>GetValueOut\<close> neither throws nor wraps and returns exactly that total; its size is
  within the limit; a coinbase has an input script of 2 to 150 bytes, every other transaction spends
  only real outpoints; cold-staking outputs appear only once enforced and with the minimum amount.
\<close>

theorem CheckTransaction_safe:
  assumes "CheckTransaction c nr tx cs act = Accept ()" and "0 \<le> nMaxMoneyOut c" and "nMaxMoneyOut c < 2 ^ 62"
    and "list_all (\<lambda>o1. in_int64 (nValue o1)) (vout tx)"
  shows "distinct (map prevout (vin tx)) \<and>
    (hasSaplingData tx \<longrightarrow> isSaplingVersion tx \<and> act \<and> distinct (map spend_nullifier (vShieldedSpend (the (sapData tx))))) \<and>
    list_all (output_valid c nr (IsCoinBase tx \<or> IsCoinStake tx) cs) (vout tx) \<and>
    total_out tx + shielded_out tx \<le> nMaxMoneyOut c \<and>
    GetValueOut tx = Inr (total_out tx + shielded_out tx) \<and>
    GetTotalSize tx \<le> (if IsShieldedTx tx then MAX_TX_SIZE_AFTER_SAPLING else MAX_STANDARD_TX_SIZE) \<and>
    (if IsCoinBase tx then 2 \<le> length (scriptSig (vin tx ! 0)) \<and> length (scriptSig (vin tx ! 0)) \<le> 150
     else list_all (\<lambda>i. \<not> outpoint_IsNull (prevout i)) (vin tx))"
proof -
  obtain nv where size: "GetTotalSize tx \<le> (if IsShieldedTx tx then MAX_TX_SIZE_AFTER_SAPLING else MAX_STANDARD_TX_SIZE)"
    and sap: "Sapling_CheckTransaction c tx 0 act = Accept nv"
    and outs: "\<exists>v. check_outputs c nr (IsCoinBase tx \<or> IsCoinStake tx) cs (vout tx) nv = Accept v"
    and ins: "check_inputs tx = Accept ()"
    using assms(1) unfolding CheckTransaction_def check_bind_Accept by (auto split: if_splits simp: check_bind_Accept)
  note s = Sapling_Accept [OF sap]
  have o: "list_all (output_valid c nr (IsCoinBase tx \<or> IsCoinStake tx) cs) (vout tx)"
    and t: "vout tx \<noteq> [] \<longrightarrow> shielded_out tx + total_out tx \<le> nMaxMoneyOut c"
    using outs s(1,3) by (auto simp: check_outputs_iff total_out_def)
  have nn: "list_all (\<lambda>o1. 0 \<le> nValue o1) (vout tx)" using o by (auto simp: list_all_iff output_valid_def)
  have tot: "total_out tx + shielded_out tx \<le> nMaxMoneyOut c"
    using t s(4) [OF assms(2)] by (cases "vout tx = []") (auto simp: total_out_def)
  have pos: "0 \<le> total_out tx" using sum_nonneg_outputs [OF o] by (simp add: total_out_def)
  have "value_out_loop (vout tx) 0 = Inr (total_out tx)"
    using value_out_loop_iff [OF assms(4), of 0 "total_out tx"] nn tot assms(3) s(3) by (simp add: total_out_def)
  moreover have "wrap64 (total_out tx + shielded_out tx) = total_out tx + shielded_out tx"
    using tot pos s(3) assms(3) by (intro wrap64_id) (simp add: in_int64_def)
  ultimately have "GetValueOut tx = Inr (total_out tx + shielded_out tx)"
    using s(2) by (auto simp: GetValueOut_def shielded_out_def)
  then show ?thesis using ins size o tot s(2) by (auto simp: check_inputs_iff hasSaplingData_def split: option.splits)
qed

definition example_spend :: CTransaction where
  "example_spend = CTransaction_new\<lparr>vin := [txin_new \<lparr>op_hash = replicate 8 1, op_n = 0\<rparr> [] 0],
     vout := [txout_new 7 [OP_CHECKSIG]]\<rparr>"

lemma example_spend_accepted: "CheckTransaction main_params False example_spend False False = Accept ()"
proof -
  have "GetTotalSize example_spend \<le> MAX_STANDARD_TX_SIZE"
    by (simp add: example_spend_def CTransaction_new_def txin_new_def txout_new_def GetTotalSize_def SerializeTransaction_def
        Serialize_int16_def ser_writedata16_def Serialize_vector_def write_size_def WriteCompactSize_def ser_writedata8_def
        ser_writedata32_def isSaplingVersion_def Serialize_txin_def Serialize_outpoint_def Serialize_uint256_def
        length_uint_bytes Serialize_bytes_def Serialize_txout_def Serialize_int64_def ser_writedata64_def MAX_STANDARD_TX_SIZE_def)
  then show ?thesis
    by (simp add: CheckTransaction_def example_spend_def CTransaction_new_def txin_new_def txout_new_def SaplingTxData_new_def
        isSaplingVersion_def IsShieldedTx_def Sapling_CheckTransaction_def hasSaplingData_def hasBindingSig_def
        CheckSpecialTx_def hasExtraPayload_def check_inputs_def IsCoinBase_def outpoint_IsNull_def txout_IsEmpty_def
        IsPayToColdStaking_def MoneyRange_def main_params_def COIN_def list_ex_iff)
qed

theorem CheckTransaction_safe_witness:
  "GetValueOut example_spend = Inr (total_out example_spend + shielded_out example_spend)"
proof -
  have "0 \<le> nMaxMoneyOut main_params" "nMaxMoneyOut main_params < 2 ^ 62" by (simp_all add: main_params_def COIN_def)
  moreover have "list_all (\<lambda>o1. in_int64 (nValue o1)) (vout example_spend)"
    by (simp add: example_spend_def txout_new_def in_int64_def)
  ultimately show ?thesis using CheckTransaction_safe [OF example_spend_accepted] by blast
qed

end
