(* ===== verification/Merkle.thy ===== *)
theory Merkle
  imports Transaction
begin

unbundle bit_operations_syntax

text \<open>
  Merkle trees of \<open>src/src/consensus/merkle.cpp\<close>: the constant-space computation of the root, of the branch of a
  leaf and of the flag for duplicated subtrees, and the check of a branch.  The loops are written for any
  way of combining two hashes; \<open>merkle_node\<close> is the one of the code.  A shift by the width of the counter and
  an access beyond \<open>inner\<close>, which happen for more than \<open>2 ^ 31\<close> leaves, are undefined in the source and \<open>None\<close>
  here.
\<close>

section \<open>The computation\<close>

definition merkle_node :: "byte list \<Rightarrow> uint256 \<Rightarrow> uint256 \<Rightarrow> uint256" where
  "merkle_node junk l r = limbs_of_bytes 8 (Hash junk [Serialize_uint256 l, Serialize_uint256 r])"

text \<open>
  What an iteration over a level does to the branch and to \<open>matchh\<close>; \<open>None\<close> for the branch is the null pointer.
\<close>

definition push_branch :: "'a list option \<Rightarrow> bool \<Rightarrow> bool \<Rightarrow> 'a \<Rightarrow> 'a \<Rightarrow> 'a list option \<times> bool" where
  "push_branch pbranch matchh at_level innr h = (case pbranch of
       None \<Rightarrow> (None, matchh)
     | Some b \<Rightarrow> if matchh then (Some (b @ [innr]), True)
         else if at_level then (Some (b @ [h]), True) else (Some b, False))"

text \<open>The loop that combines \<open>h\<close> with the stored subtrees up to the first level that is free.\<close>

function climb :: "('a \<Rightarrow> 'a \<Rightarrow> 'a) \<Rightarrow> u32 \<Rightarrow> 'a list \<Rightarrow> int \<Rightarrow> nat \<Rightarrow> 'a \<Rightarrow> bool \<Rightarrow> bool \<Rightarrow> 'a list option \<Rightarrow>
    (nat \<times> 'a \<times> bool \<times> bool \<times> 'a list option) option" where
  "climb H count innr matchlevel level h matchh mutated pbranch =
     (if level \<ge> 32 then None
      else if count AND push_bit level 1 \<noteq> 0 then Some (level, h, matchh, mutated, pbranch)
      else let (pbranch', matchh') = push_branch pbranch matchh (matchlevel = int level) (innr ! level) h
           in climb H count innr matchlevel (Suc level) (H (innr ! level) h) matchh' (mutated \<or> innr ! level = h) pbranch')"
  by pat_completeness auto
termination
  by (relation "measure (\<lambda>(H, count, innr, matchlevel, level, rest). 32 - level)") auto

declare climb.simps [simp del]

record 'a merkle_state =
  mk_mutated :: bool
  mk_count :: u32
  mk_inner :: "'a list"
  mk_matchlevel :: int
  mk_branch :: "'a list option"

fun merkle_leaves :: "('a \<Rightarrow> 'a \<Rightarrow> 'a) \<Rightarrow> u32 \<Rightarrow> 'a list \<Rightarrow> 'a merkle_state \<Rightarrow> 'a merkle_state option" where
  "merkle_leaves H branchpos [] st = Some st"
| "merkle_leaves H branchpos (h # leaves) st =
     (case climb H (mk_count st + 1) (mk_inner st) (mk_matchlevel st) 0 h (mk_count st = branchpos) (mk_mutated st) (mk_branch st) of
        None \<Rightarrow> None
      | Some (level, h', matchh, mutated, pbranch) \<Rightarrow>
          merkle_leaves H branchpos leaves \<lparr>mk_mutated = mutated, mk_count = mk_count st + 1, mk_inner = (mk_inner st)[level := h'],
            mk_matchlevel = (if matchh then int level else mk_matchlevel st), mk_branch = pbranch\<rparr>)"

text \<open>The lowest level with a subtree.\<close>

function lowest_level :: "u32 \<Rightarrow> nat \<Rightarrow> nat option" where
  "lowest_level count level = (if level \<ge> 32 then None else if count AND push_bit level 1 \<noteq> 0 then Some level
     else lowest_level count (Suc level))"
  by pat_completeness auto
termination
  by (relation "measure (\<lambda>(count, level). 32 - level)") auto

declare lowest_level.simps [simp del]

lemma climb_level:
  "climb H count innr matchlevel level h matchh mutated pbranch = Some (l, r) \<Longrightarrow> level \<le> l \<and> l < 32"
proof (induction H count innr matchlevel level h matchh mutated pbranch rule: climb.induct)
  case (1 H count innr matchlevel level h matchh mutated pbranch)
  obtain pb mh where p: "push_branch pbranch matchh (matchlevel = int level) (innr ! level) h = (pb, mh)" by fastforce
  show ?case using 1(2) [unfolded climb.simps [of H count innr matchlevel level h matchh mutated pbranch]] 1(1) [OF _ _ p [symmetric] refl]
    by (fastforce simp: p split: if_splits)
qed

text \<open>The loop that completes the tree: the last subtree of a level is combined with itself.\<close>

function merkle_top :: "('a \<Rightarrow> 'a \<Rightarrow> 'a) \<Rightarrow> 'a list \<Rightarrow> int \<Rightarrow> u32 \<Rightarrow> nat \<Rightarrow> 'a \<Rightarrow> bool \<Rightarrow> 'a list option \<Rightarrow>
    ('a \<times> 'a list option) option" where
  "merkle_top H innr matchlevel count level h matchh pbranch =
     (if level \<ge> 32 then None
      else if count = push_bit level 1 then Some (h, pbranch)
      else case climb H (count + push_bit level 1) innr matchlevel (Suc level) (H h h) matchh False
             (if matchh then map_option (\<lambda>b. b @ [h]) pbranch else pbranch) of
          None \<Rightarrow> None
        | Some (level', h', matchh', _, pbranch') \<Rightarrow>
            merkle_top H innr matchlevel (count + push_bit level 1) level' h' matchh' pbranch')"
  by pat_completeness auto
termination
  by (relation "measure (\<lambda>(H, innr, matchlevel, count, level, rest). 32 - level)") (auto dest: climb_level)

declare merkle_top.simps [simp del]

definition MerkleComputation :: "('a \<Rightarrow> 'a \<Rightarrow> 'a) \<Rightarrow> 'a \<Rightarrow> 'a list \<Rightarrow> u32 \<Rightarrow> 'a list option \<Rightarrow> ('a \<times> bool \<times> 'a list option) option" where
  "MerkleComputation H zero leaves branchpos pbranch =
     (let pbranch = map_option (\<lambda>_. []) pbranch
      in if length leaves = 0 then Some (zero, False, pbranch)
      else case merkle_leaves H branchpos leaves
             \<lparr>mk_mutated = False, mk_count = 0, mk_inner = replicate 32 zero, mk_matchlevel = -1, mk_branch = pbranch\<rparr> of
          None \<Rightarrow> None
        | Some st \<Rightarrow>
            (case lowest_level (mk_count st) 0 of
               None \<Rightarrow> None
             | Some level \<Rightarrow>
                 (case merkle_top H (mk_inner st) (mk_matchlevel st) (mk_count st) level (mk_inner st ! level)
                         (mk_matchlevel st = int level) (mk_branch st) of
                    None \<Rightarrow> None
                  | Some (h, pbranch') \<Rightarrow> Some (h, mk_mutated st, pbranch'))))"

definition ComputeMerkleRoot :: "byte list \<Rightarrow> uint256 list \<Rightarrow> (uint256 \<times> bool) option" where
  "ComputeMerkleRoot junk leaves =
     map_option (\<lambda>(hash, mutated, _). (hash, mutated)) (MerkleComputation (merkle_node junk) (base_uint_zero 8) leaves (- 1) None)"

definition ComputeMerkleBranch :: "byte list \<Rightarrow> uint256 list \<Rightarrow> u32 \<Rightarrow> uint256 list option" where
  "ComputeMerkleBranch junk leaves position =
     Option.bind (MerkleComputation (merkle_node junk) (base_uint_zero 8) leaves position (Some [])) (\<lambda>(_, _, ret). ret)"

fun root_from_branch :: "('a \<Rightarrow> 'a \<Rightarrow> 'a) \<Rightarrow> 'a \<Rightarrow> 'a list \<Rightarrow> u32 \<Rightarrow> 'a" where
  "root_from_branch H hash [] nIndex = hash"
| "root_from_branch H hash (b # bs) nIndex =
     root_from_branch H (if nIndex AND 1 \<noteq> 0 then H b hash else H hash b) bs (drop_bit 1 nIndex)"

definition ComputeMerkleRootFromBranch :: "byte list \<Rightarrow> uint256 \<Rightarrow> uint256 list \<Rightarrow> u32 \<Rightarrow> uint256" where
  "ComputeMerkleRootFromBranch junk leaf vMerkleBranch nIndex = root_from_branch (merkle_node junk) leaf vMerkleBranch nIndex"

definition BlockMerkleRoot :: "byte list \<Rightarrow> CTransaction list \<Rightarrow> (uint256 \<times> bool) option" where
  "BlockMerkleRoot junk vtx = ComputeMerkleRoot junk (map (tx_GetHash junk) vtx)"

definition BlockMerkleBranch :: "byte list \<Rightarrow> CTransaction list \<Rightarrow> u32 \<Rightarrow> uint256 list option" where
  "BlockMerkleBranch junk vtx position = ComputeMerkleBranch junk (map (tx_GetHash junk) vtx) position"

section \<open>Reference\<close>

text \<open>
  The older computation level by level, kept in \<open>src/src/test/merkle_tests.cpp\<close> for comparison: the hashes of
  the next level, whether the last two hashes of a level are a pair and equal, the root with the flag, and the sibling of a leaf and of
  its ancestors.
\<close>

fun pair_up :: "('a \<Rightarrow> 'a \<Rightarrow> 'a) \<Rightarrow> 'a list \<Rightarrow> 'a list" where
  "pair_up H [] = []"
| "pair_up H [a] = [H a a]"
| "pair_up H (a # b # xs) = H a b # pair_up H xs"

lemma length_pair_up [simp]: "length (pair_up H xs) = (length xs + 1) div 2"
  by (induction H xs rule: pair_up.induct) auto

lemma pair_up_Nil [simp]: "pair_up H xs = [] \<longleftrightarrow> xs = []" "[] = pair_up H xs \<longleftrightarrow> xs = []"
  by (cases "(H, xs)" rule: pair_up.cases; simp)+

function tree_root :: "('a \<Rightarrow> 'a \<Rightarrow> 'a) \<Rightarrow> 'a \<Rightarrow> 'a list \<Rightarrow> 'a" where
  "tree_root H zero xs = (if length xs > 1 then tree_root H zero (pair_up H xs) else if xs = [] then zero else last xs)"
  by pat_completeness auto
termination
  by (relation "measure (\<lambda>(H, zero, xs). length xs)") auto

fun equal_end :: "'a list \<Rightarrow> bool" where
  "equal_end (a # b # xs) = (if xs = [] then a = b else equal_end xs)"
| "equal_end _ = False"

function BlockBuildMerkleTree :: "('a \<Rightarrow> 'a \<Rightarrow> 'a) \<Rightarrow> 'a \<Rightarrow> 'a list \<Rightarrow> bool \<Rightarrow> 'a \<times> bool" where
  "BlockBuildMerkleTree H zero xs mutated =
     (if length xs > 1 then BlockBuildMerkleTree H zero (pair_up H xs) (mutated \<or> equal_end xs)
      else (if xs = [] then zero else last xs, mutated))"
  by pat_completeness auto
termination
  by (relation "measure (\<lambda>(H, zero, xs, mutated). length xs)") auto

function tree_branch :: "('a \<Rightarrow> 'a \<Rightarrow> 'a) \<Rightarrow> 'a list \<Rightarrow> nat \<Rightarrow> 'a list" where
  "tree_branch H xs i = (if length xs > 1 then xs ! min (i XOR 1) (length xs - 1) # tree_branch H (pair_up H xs) (i div 2) else [])"
  by pat_completeness auto
termination
  by (relation "measure (\<lambda>(H, xs, i). length xs)") auto

declare tree_root.simps [simp del] tree_branch.simps [simp del] BlockBuildMerkleTree.simps [simp del]

section \<open>Levels\<close>

text \<open>The complete subtrees of each height: the last hash of an odd level is left out.\<close>

fun pairs :: "('a \<Rightarrow> 'a \<Rightarrow> 'a) \<Rightarrow> 'a list \<Rightarrow> 'a list" where
  "pairs H [] = []"
| "pairs H [a] = []"
| "pairs H (a # b # xs) = H a b # pairs H xs"

abbreviation lev :: "('a \<Rightarrow> 'a \<Rightarrow> 'a) \<Rightarrow> nat \<Rightarrow> 'a list \<Rightarrow> 'a list" where
  "lev H k xs \<equiv> (pairs H ^^ k) xs"

abbreviation up :: "('a \<Rightarrow> 'a \<Rightarrow> 'a) \<Rightarrow> nat \<Rightarrow> 'a list \<Rightarrow> 'a list" where
  "up H k xs \<equiv> (pair_up H ^^ k) xs"

text \<open>Two equal hashes that are combined.\<close>

fun has_pair :: "'a list \<Rightarrow> bool" where
  "has_pair [] = False"
| "has_pair [a] = False"
| "has_pair (a # b # xs) = (a = b \<or> has_pair xs)"

lemma length_pairs [simp]: "length (pairs H xs) = length xs div 2"
  by (induction H xs rule: pairs.induct) auto

lemma length_lev [simp]: "length (lev H k xs) = length xs div 2 ^ k"
  by (induction k) (simp_all add: power_Suc2 div_mult2_eq del: power_Suc)

lemma length_up_bound: "length xs \<le> 2 ^ n \<Longrightarrow> k \<le> n \<Longrightarrow> length (up H k xs) \<le> 2 ^ (n - k)"
proof (induction k)
  case (Suc k)
  then have "length (up H k xs) \<le> 2 * 2 ^ (n - Suc k)" by (simp add: Suc_diff_Suc flip: power_Suc)
  then show ?case by simp
qed simp

lemma up_not_empty: "xs \<noteq> [] \<Longrightarrow> up H k xs \<noteq> []"
proof (induction k)
  case (Suc k)
  then have "length (pair_up H (up H k xs)) > 0" by (cases "up H k xs") simp_all
  then show ?case by force
qed simp

lemma pairs_append: "even (length xs) \<Longrightarrow> pairs H (xs @ ys) = pairs H xs @ pairs H ys"
  by (induction H xs rule: pairs.induct) auto

lemma pair_up_append: "even (length xs) \<Longrightarrow> pair_up H (xs @ ys) = pairs H xs @ pair_up H ys"
  by (induction H xs rule: pairs.induct) auto

lemma has_pair_append: "even (length xs) \<Longrightarrow> has_pair (xs @ ys) = (has_pair xs \<or> has_pair ys)"
  by (induction xs rule: has_pair.induct) auto

lemma odd_snoc: "odd (length xs) \<Longrightarrow> \<exists>ys. xs = ys @ [last xs] \<and> even (length ys)"
  by (rule exI [of _ "butlast xs"]) (cases xs rule: rev_cases, auto)

lemma pairs_odd:
  assumes "odd (length xs)"
  shows "pairs H (xs @ [h]) = pairs H xs @ [H (last xs) h]" and "pair_up H (xs @ [h]) = pairs H xs @ [H (last xs) h]"
    and "has_pair (xs @ [h]) \<longleftrightarrow> has_pair xs \<or> last xs = h"
proof -
  from odd_snoc [OF assms] obtain ys where ys: "xs = ys @ [last xs]" "even (length ys)" by blast
  show "pairs H (xs @ [h]) = pairs H xs @ [H (last xs) h]" by (subst (1 2) ys(1)) (simp add: pairs_append ys(2))
  show "pair_up H (xs @ [h]) = pairs H xs @ [H (last xs) h]" by (subst (1 2) ys(1)) (simp add: pairs_append pair_up_append ys(2))
  show "has_pair (xs @ [h]) \<longleftrightarrow> has_pair xs \<or> last xs = h" by (subst (1 2) ys(1)) (simp add: has_pair_append ys(2))
qed

lemma pairs_even:
  assumes "even (length xs)"
  shows "pairs H (xs @ [h]) = pairs H xs" and "pair_up H (xs @ [h]) = pairs H xs @ [H h h]" and "has_pair (xs @ [h]) = has_pair xs"
  using assms by (simp_all add: pairs_append pair_up_append has_pair_append)

lemma pair_up_even: "even (length xs) \<Longrightarrow> pair_up H xs = pairs H xs"
  using pair_up_append [of xs H "[]"] by simp

section \<open>The climbing loop\<close>

lemma bit_count: "k < 32 \<Longrightarrow> bit (count :: u32) k \<longleftrightarrow> odd (unat count div 2 ^ k)"
  by (simp add: bit_unsigned_iff flip: bit_iff_odd)

text \<open>
  \<open>U k\<close> is a level of a tree whose last hash is \<open>h\<close>, \<open>V k\<close> the level without it, whose last subtree is stored if
  its length is odd.  Below, \<open>U\<close> and \<open>V\<close> are the complete subtrees with and without the newest leaf, or the
  completed tree and its complete subtrees.  The branch of the leaf \<open>p\<close> is the list of the siblings \<open>sib k\<close>; it
  has been followed up to the subtree \<open>h\<close>, or up to a stored subtree, or the leaf is still to come.
\<close>

definition tracked :: "(nat \<Rightarrow> 'a list) \<Rightarrow> (nat \<Rightarrow> 'a list) \<Rightarrow> (nat \<Rightarrow> 'a) \<Rightarrow> nat \<Rightarrow> nat \<Rightarrow> int \<Rightarrow> nat \<Rightarrow> bool \<Rightarrow> 'a list option \<Rightarrow> bool" where
  "tracked U V sib N p matchlevel level matchh pbranch \<longleftrightarrow> (\<forall>b. pbranch = Some b \<longrightarrow>
     (if matchh then p div 2 ^ level + 1 = length (U level) \<and> b = map sib [0..<level]
      else (\<exists>m\<ge>level. matchlevel = int m \<and> odd (length (V m)) \<and> p div 2 ^ m + 1 = length (V m) \<and> b = map sib [0..<m]) \<or>
        matchlevel = -1 \<and> b = [] \<and> N \<le> p))"

lemma push_tracked:
  assumes t: "tracked U V sib N p matchlevel k matchh pbranch"
    and p: "push_branch pbranch matchh (matchlevel = int k) (last (V k)) h = (pb, mh)"
    and U: "U k = V k @ [h]" and odd: "odd (length (V k))" and len: "length (U (Suc k)) = length (U k) div 2"
    and sU: "p div 2 ^ k + 1 = length (U k) \<Longrightarrow> sib k = last (V k)" and sV: "p div 2 ^ k + 1 = length (V k) \<Longrightarrow> sib k = h"
  shows "tracked U V sib N p matchlevel (Suc k) mh pb"
proof (cases pbranch)
  case None
  then show ?thesis using p by (auto simp: push_branch_def tracked_def)
next
  case (Some b)
  have up: "p div 2 ^ Suc k + 1 = length (U (Suc k))" if "p div 2 ^ k + 1 = length (U k) \<or> p div 2 ^ k + 1 = length (V k)"
  proof -
    have "p div 2 ^ Suc k = p div 2 ^ k div 2" by (simp add: power_Suc2 div_mult2_eq del: power_Suc)
    then show ?thesis using that odd U len by (auto elim!: oddE)
  qed
  consider "matchh" | "\<not> matchh" "matchlevel = int k" | "\<not> matchh" "matchlevel \<noteq> int k" by blast
  then show ?thesis
  proof cases
    case 1
    then have "p div 2 ^ k + 1 = length (U k)" "b = map sib [0..<k]" using t Some by (auto simp: tracked_def)
    then show ?thesis using p Some 1 up sU by (auto simp: push_branch_def tracked_def)
  next
    case 2
    then have "p div 2 ^ k + 1 = length (V k)" "b = map sib [0..<k]" using t Some by (auto simp: tracked_def)
    then show ?thesis using p Some 2 up sV by (auto simp: push_branch_def tracked_def)
  next
    case 3
    then have "pb = Some b" "\<not> mh" using p Some by (auto simp: push_branch_def)
    moreover have "(\<exists>m\<ge>k. matchlevel = int m \<and> odd (length (V m)) \<and> p div 2 ^ m + 1 = length (V m) \<and> b = map sib [0..<m]) \<or> matchlevel = -1 \<and> b = [] \<and> N \<le> p"
      using t Some 3 by (simp add: tracked_def)
    ultimately show ?thesis using 3(2) unfolding tracked_def
      by (metis Suc_leI le_neq_implies_less option.inject)
  qed
qed

lemma climb_tree:
  assumes cnt: "\<And>k. k < 32 \<Longrightarrow> level \<le> k \<Longrightarrow> (\<And>j. level \<le> j \<Longrightarrow> j < k \<Longrightarrow> even (length (U j))) \<Longrightarrow> bit count k = odd (length (U k))"
    and stp: "\<And>k x. level \<le> k \<Longrightarrow> odd (length (V k)) \<Longrightarrow> U k = V k @ [x] \<Longrightarrow> U (Suc k) = V (Suc k) @ [H (last (V k)) x]"
    and inn: "\<And>k. k < 32 \<Longrightarrow> odd (length (V k)) \<Longrightarrow> innr ! k = last (V k)"
    and U: "U level = V level @ [h]"
    and len: "\<And>k. length (V (Suc k)) = length (V k) div 2"
    and sU: "\<And>k x. p div 2 ^ k + 1 = length (U k) \<Longrightarrow> odd (length (V k)) \<Longrightarrow> level \<le> k \<Longrightarrow> U k = V k @ [x] \<Longrightarrow> sib k = last (V k)"
    and sV: "\<And>k x. p div 2 ^ k + 1 = length (V k) \<Longrightarrow> odd (length (V k)) \<Longrightarrow> level \<le> k \<Longrightarrow> U k = V k @ [x] \<Longrightarrow> sib k = x"
    and t: "tracked U V sib N p matchlevel level matchh pbranch"
    and ex: "\<exists>k. level \<le> k \<and> k < 32 \<and> bit (count :: u32) k"
  shows "\<exists>l mh pb. level \<le> l \<and> l < 32 \<and> odd (length (U l)) \<and> (\<forall>j. level \<le> j \<and> j < l \<longrightarrow> odd (length (V j)) \<and> U j = V j @ [last (U j)]) \<and>
    U l = V l @ [last (U l)] \<and> tracked U V sib N p matchlevel l mh pb \<and>
    climb H count innr matchlevel level h matchh mutated pbranch =
      Some (l, last (U l), mh, mutated \<or> (\<exists>j. level \<le> j \<and> j < l \<and> last (V j) = last (U j)), pb)"
  using assms
proof (induction "32 - level" arbitrary: level h matchh mutated pbranch)
  case 0
  then show ?case by auto
next
  case (Suc n)
  have l: "level < 32" using Suc.hyps(2) by simp
  have b: "count AND push_bit level 1 \<noteq> 0 \<longleftrightarrow> odd (length (U level))"
    using Suc.prems(1) [OF l] by (simp add: bit_iff_and_push_bit_not_eq_0)
  show ?case
  proof (cases "odd (length (U level))")
    case True
    then show ?thesis using b l Suc.prems(4,8) by (intro exI [of _ level] exI [of _ matchh] exI [of _ pbranch]) (auto simp: climb.simps)
  next
    case False
    then have v: "odd (length (V level))" using Suc.prems(4) by simp
    obtain pb mh where p: "push_branch pbranch matchh (matchlevel = int level) (innr ! level) h = (pb, mh)" by fastforce
    have i: "innr ! level = last (V level)" by (rule Suc.prems(3) [OF l v])
    have c: "climb H count innr matchlevel level h matchh mutated pbranch =
        climb H count innr matchlevel (Suc level) (H (last (V level)) h) mh (mutated \<or> last (V level) = h) pb"
      using False b l p by (subst climb.simps) (simp add: i)
    have ex: "\<exists>k. Suc level \<le> k \<and> k < 32 \<and> bit count k"
      using Suc.prems(9) False Suc.prems(1) [OF l] by (metis Suc_leI le_neq_implies_less le_refl not_less)
    have lU: "length (U (Suc level)) = length (U level) div 2"
      using Suc.prems(2) [OF _ v Suc.prems(4)] Suc.prems(4,5) v by (auto elim!: oddE)
    have t: "tracked U V sib N p matchlevel (Suc level) mh pb"
      by (rule push_tracked [OF Suc.prems(8) p [unfolded i] Suc.prems(4) v lU]) (use Suc.prems(4,6,7) v in auto)
    have "\<exists>l mh' pb'. Suc level \<le> l \<and> l < 32 \<and> odd (length (U l)) \<and>
        (\<forall>j. Suc level \<le> j \<and> j < l \<longrightarrow> odd (length (V j)) \<and> U j = V j @ [last (U j)]) \<and> U l = V l @ [last (U l)] \<and> tracked U V sib N p matchlevel l mh' pb' \<and>
        climb H count innr matchlevel (Suc level) (H (last (V level)) h) mh (mutated \<or> last (V level) = h) pb =
          Some (l, last (U l), mh', (mutated \<or> last (V level) = h) \<or> (\<exists>j. Suc level \<le> j \<and> j < l \<and> last (V j) = last (U j)), pb')"
    proof (rule Suc.hyps(1))
      fix k
      assume "k < 32" "Suc level \<le> k" and e: "\<And>j. Suc level \<le> j \<Longrightarrow> j < k \<Longrightarrow> even (length (U j))"
      then show "bit count k = odd (length (U k))"
        using False by (intro Suc.prems(1)) (auto simp: le_Suc_eq less_eq_Suc_le [symmetric] dest: le_neq_implies_less)
    qed (use Suc.hyps(2) Suc.prems(2-7) v ex t in auto)
    then obtain l mh' pb' where r: "Suc level \<le> l" "l < 32" "odd (length (U l))"
        "\<And>j. Suc level \<le> j \<Longrightarrow> j < l \<Longrightarrow> odd (length (V j)) \<and> U j = V j @ [last (U j)]" "U l = V l @ [last (U l)]"
        "tracked U V sib N p matchlevel l mh' pb'"
        "climb H count innr matchlevel (Suc level) (H (last (V level)) h) mh (mutated \<or> last (V level) = h) pb =
          Some (l, last (U l), mh', (mutated \<or> last (V level) = h) \<or> (\<exists>j. Suc level \<le> j \<and> j < l \<and> last (V j) = last (U j)), pb')"
      by blast
    have u: "last (U level) = h" using Suc.prems(4) by simp
    have "(\<exists>j. level \<le> j \<and> j < l \<and> last (V j) = last (U j)) \<longleftrightarrow>
        last (V level) = h \<or> (\<exists>j. Suc level \<le> j \<and> j < l \<and> last (V j) = last (U j))"
      using r(1) u by (metis Suc_le_eq le_eq_less_or_eq)
    moreover have "odd (length (V j)) \<and> U j = V j @ [last (U j)]" if "level \<le> j" "j < l" for j
      using that r(4) v Suc.prems(4) u by (cases "j = level") auto
    ultimately show ?thesis using r c by (intro exI [of _ l] exI [of _ mh'] exI [of _ pb']) auto
  qed
qed

section \<open>The loop over the leaves\<close>

definition dup :: "('a \<Rightarrow> 'a \<Rightarrow> 'a) \<Rightarrow> 'a list \<Rightarrow> bool" where
  "dup H xs \<longleftrightarrow> (\<exists>k. has_pair (lev H k xs))"

definition sib :: "('a \<Rightarrow> 'a \<Rightarrow> 'a) \<Rightarrow> 'a list \<Rightarrow> nat \<Rightarrow> nat \<Rightarrow> 'a" where
  "sib H L p k = up H k L ! min ((p div 2 ^ k) XOR 1) (length (up H k L) - 1)"

lemma lev_prefix: "\<exists>zs. up H k (xs @ ys) = lev H k xs @ zs"
proof (induction k)
  case (Suc k)
  then obtain zs where zs: "up H k (xs @ ys) = lev H k xs @ zs" by blast
  show ?case
  proof (cases "even (length (lev H k xs))")
    case True
    then show ?thesis using zs by (simp add: pair_up_append)
  next
    case False
    from odd_snoc [OF this] obtain as where as: "lev H k xs = as @ [last (lev H k xs)]" "even (length as)" by blast
    have "pairs H (lev H k xs) = pairs H as" by (subst as(1)) (simp add: pairs_append as(2))
    moreover have "pair_up H (lev H k xs @ zs) = pairs H as @ pair_up H (last (lev H k xs) # zs)"
      by (subst as(1)) (simp add: pair_up_append as(2))
    ultimately show ?thesis using zs by simp
  qed
qed simp

lemma sib_left:
  assumes "up H k L = v @ [x] @ zs" "odd (length v)" "p div 2 ^ k + 1 = length v + 1"
  shows "sib H L p k = last v"
proof -
  have "(p div 2 ^ k) XOR 1 = length v - 1" using assms(2,3) by (simp add: xor_Suc_0_eq)
  moreover have "v \<noteq> []" using assms(2) by auto
  ultimately show ?thesis using assms(1) by (auto simp: sib_def min_def nth_append last_conv_nth)
qed

lemma sib_right:
  assumes "up H k L = v @ [x] @ zs" "odd (length v)" "p div 2 ^ k + 1 = length v"
  shows "sib H L p k = x"
proof -
  have "(p div 2 ^ k) XOR 1 = length v" 
  proof -
    have "even (p div 2 ^ k)" using assms(2,3) by (metis even_Suc Suc_eq_plus1)
    then show ?thesis using assms(3) by (simp add: xor_Suc_0_eq)
  qed
  then show ?thesis using assms(1) by (simp add: sib_def min_def nth_append)
qed

lemma sib_self:
  assumes "up H k L = v @ [x]" "even (length v)" "p div 2 ^ k = length v"
  shows "sib H L p k = x"
  using assms by (simp add: sib_def min_def xor_Suc_0_eq)

definition inner_ok :: "('a \<Rightarrow> 'a \<Rightarrow> 'a) \<Rightarrow> 'a list \<Rightarrow> 'a list \<Rightarrow> bool" where
  "inner_ok H xs innr \<longleftrightarrow> length innr = 32 \<and> (\<forall>k<32. odd (length xs div 2 ^ k) \<longrightarrow> innr ! k = last (lev H k xs))"

definition followed :: "('a \<Rightarrow> 'a \<Rightarrow> 'a) \<Rightarrow> 'a list \<Rightarrow> nat \<Rightarrow> 'a list \<Rightarrow> int \<Rightarrow> 'a list option \<Rightarrow> bool" where
  "followed H L p xs matchlevel pbranch \<longleftrightarrow> (\<forall>b. pbranch = Some b \<longrightarrow>
     (\<exists>m. matchlevel = int m \<and> odd (length xs div 2 ^ m) \<and> p div 2 ^ m + 1 = length xs div 2 ^ m \<and> b = map (sib H L p) [0..<m]) \<or>
     matchlevel = -1 \<and> b = [] \<and> length xs \<le> p)"

definition leaves_inv :: "('a \<Rightarrow> 'a \<Rightarrow> 'a) \<Rightarrow> 'a list \<Rightarrow> nat \<Rightarrow> 'a list \<Rightarrow> 'a merkle_state \<Rightarrow> bool" where
  "leaves_inv H L p xs st \<longleftrightarrow> unat (mk_count st) = length xs \<and> inner_ok H xs (mk_inner st) \<and> mk_mutated st = dup H xs \<and>
     followed H L p xs (mk_matchlevel st) (mk_branch st)"

lemma lev_above:
  assumes "lev H l ys = lev H l xs @ [x]" "even (length (lev H l xs))" "l < k"
  shows "lev H k ys = lev H k xs"
proof -
  have "lev H (Suc l + i) ys = lev H (Suc l + i) xs" for i
    using assms(1,2) by (induction i) (simp_all add: pairs_even)
  from this [of "k - Suc l"] show ?thesis using assms(3) by simp
qed

lemma some_bit: "(w :: u32) \<noteq> 0 \<Longrightarrow> \<exists>k<32. bit w k"
  by (rule ccontr) (auto dest: bit_imp_le_length intro!: bit_eqI)

text \<open>Where the newest leaf \<open>x\<close> climbs to: the first level of even length; above it nothing changes.\<close>

definition landed :: "('a \<Rightarrow> 'a \<Rightarrow> 'a) \<Rightarrow> 'a list \<Rightarrow> 'a \<Rightarrow> nat \<Rightarrow> bool" where
  "landed H xs x l \<longleftrightarrow> l < 32 \<and> odd (length (lev H l (xs @ [x]))) \<and> lev H l (xs @ [x]) = lev H l xs @ [last (lev H l (xs @ [x]))] \<and>
     (\<forall>j<l. odd (length (lev H j xs)) \<and> lev H j (xs @ [x]) = lev H j xs @ [last (lev H j (xs @ [x]))])"

lemma landed_even: "landed H xs x l \<Longrightarrow> even (length (lev H l xs))"
  unfolding landed_def by (metis even_Suc length_append_singleton)

lemma landed_above: "landed H xs x l \<Longrightarrow> l < k \<Longrightarrow> lev H k (xs @ [x]) = lev H k xs"
  by (rule lev_above [OF _ landed_even]) (auto simp: landed_def)

lemma leaf_climb:
  assumes inv: "leaves_inv H L p xs st" and n: "length xs + 1 < 2 ^ 32" and L: "L = xs @ x # ys" and p: "p = unat branchpos"
  shows "\<exists>l mh pb. landed H xs x l \<and>
    tracked (\<lambda>k. lev H k (xs @ [x])) (\<lambda>k. lev H k xs) (sib H L p) (length xs + 1) p (mk_matchlevel st) l mh pb \<and>
    climb H (mk_count st + 1) (mk_inner st) (mk_matchlevel st) 0 x (mk_count st = branchpos) (mk_mutated st) (mk_branch st) =
      Some (l, last (lev H l (xs @ [x])), mh, mk_mutated st \<or> (\<exists>j<l. last (lev H j xs) = last (lev H j (xs @ [x]))), pb)"
proof -
  let ?U = "\<lambda>k. lev H k (xs @ [x])" and ?V = "\<lambda>k. lev H k xs" and ?c = "mk_count st + 1"
  have c: "unat ?c = length xs + 1" using inv n by (simp add: leaves_inv_def unat_word_ariths)
  have inner: "inner_ok H xs (mk_inner st)" using inv by (simp add: leaves_inv_def)
  have pre: "\<exists>zs. up H k L = ?U k @ zs" for k using lev_prefix [where k = k and H = H and xs = "xs @ [x]" and ys = ys] by (simp add: L)
  have b: "bit ?c k = odd (length (?U k))" if "k < 32" for k using that c by (simp add: bit_count)
  have t: "tracked ?U ?V (sib H L p) (length xs + 1) p (mk_matchlevel st) 0 (mk_count st = branchpos) (mk_branch st)"
    using inv p unfolding leaves_inv_def followed_def tracked_def
    by (auto simp: word_unat_eq_iff dest!: le_neq_implies_less)
  have "?c \<noteq> 0" using c by auto
  then have ex: "\<exists>k\<ge>0. k < 32 \<and> bit ?c k" using some_bit by blast
  have "\<exists>l mh pb. 0 \<le> l \<and> l < 32 \<and> odd (length (?U l)) \<and> (\<forall>j. 0 \<le> j \<and> j < l \<longrightarrow> odd (length (?V j)) \<and> ?U j = ?V j @ [last (?U j)]) \<and>
      ?U l = ?V l @ [last (?U l)] \<and> tracked ?U ?V (sib H L p) (length xs + 1) p (mk_matchlevel st) l mh pb \<and>
      climb H ?c (mk_inner st) (mk_matchlevel st) 0 x (mk_count st = branchpos) (mk_mutated st) (mk_branch st) =
        Some (l, last (?U l), mh, mk_mutated st \<or> (\<exists>j. 0 \<le> j \<and> j < l \<and> last (?V j) = last (?U j)), pb)"
  proof (rule climb_tree)
    show "?U (Suc k) = ?V (Suc k) @ [H (last (?V k)) y]" if "odd (length (?V k))" "?U k = ?V k @ [y]" for k y
      using that by (simp add: pairs_odd)
    show "sib H L p k = last (?V k)" if "p div 2 ^ k + 1 = length (?U k)" "odd (length (?V k))" "?U k = ?V k @ [y]" for k y
    proof -
      have "p div 2 ^ k + 1 = length (?V k) + 1" using that(1) unfolding that(3) by simp
      then show ?thesis using pre [of k] that(2,3) by (auto intro!: sib_left)
    qed
    show "sib H L p k = y" if "p div 2 ^ k + 1 = length (?V k)" "odd (length (?V k))" "?U k = ?V k @ [y]" for k y
      using pre [of k] that by (auto intro!: sib_right)
    show "length (?V (Suc k)) = length (?V k) div 2" for k by simp
  qed (use b t ex inner in \<open>auto simp: inner_ok_def\<close>)
  then show ?thesis unfolding landed_def by simp blast
qed

lemma dup_snoc:
  assumes l: "landed H xs x l"
  shows "dup H (xs @ [x]) \<longleftrightarrow> dup H xs \<or> (\<exists>j<l. last (lev H j xs) = last (lev H j (xs @ [x])))"
proof -
  let ?U = "\<lambda>k. lev H k (xs @ [x])" and ?V = "\<lambda>k. lev H k xs"
  have "has_pair (?U k) \<longleftrightarrow> has_pair (?V k) \<or> k < l \<and> last (?V k) = last (?U k)" for k
    using l landed_above [OF l, of k] pairs_odd(3) [of "?V k" "last (?U k)"] pairs_even(3) [OF landed_even [OF l], of "last (?U l)"]
    unfolding landed_def by (cases k l rule: linorder_cases) auto
  then show ?thesis by (auto simp: dup_def)
qed

lemma inner_ok_snoc:
  assumes inner: "inner_ok H xs innr" and l: "landed H xs x l"
  shows "inner_ok H (xs @ [x]) (innr[l := last (lev H l (xs @ [x]))])"
  unfolding inner_ok_def
proof (intro conjI allI impI)
  show "length (innr[l := last (lev H l (xs @ [x]))]) = 32" using inner by (simp add: inner_ok_def)
  fix k :: nat
  assume k: "k < 32" and o: "odd (length (xs @ [x]) div 2 ^ k)"
  show "innr[l := last (lev H l (xs @ [x]))] ! k = last (lev H k (xs @ [x]))"
  proof (cases k l rule: linorder_cases)
    case less
    then have "even (length (lev H k (xs @ [x])))" using l unfolding landed_def by (metis even_Suc length_append_singleton)
    then show ?thesis using o by simp
  next
    case equal
    then show ?thesis using inner l by (simp add: inner_ok_def landed_def)
  next
    case greater
    then have e: "lev H k (xs @ [x]) = lev H k xs" by (rule landed_above [OF l])
    then have "odd (length xs div 2 ^ k)" using o by (metis length_lev)
    then show ?thesis using inner greater k by (simp add: inner_ok_def e)
  qed
qed

lemma followed_snoc:
  assumes l: "landed H xs x l"
    and t: "tracked (\<lambda>k. lev H k (xs @ [x])) (\<lambda>k. lev H k xs) (sib H L p) (length xs + 1) p matchlevel l mh pb"
  shows "followed H L p (xs @ [x]) (if mh then int l else matchlevel) pb"
  unfolding followed_def
proof (intro allI impI)
  fix b
  assume b: "pb = Some b"
  show "(\<exists>m. (if mh then int l else matchlevel) = int m \<and> odd (length (xs @ [x]) div 2 ^ m) \<and> p div 2 ^ m + 1 = length (xs @ [x]) div 2 ^ m \<and>
      b = map (sib H L p) [0..<m]) \<or> (if mh then int l else matchlevel) = -1 \<and> b = [] \<and> length (xs @ [x]) \<le> p"
  proof (cases mh)
    case True
    then show ?thesis using l t b by (auto simp: tracked_def landed_def)
  next
    case False
    then consider m where "m \<ge> l" "matchlevel = int m" "odd (length (lev H m xs))" "p div 2 ^ m + 1 = length (lev H m xs)" "b = map (sib H L p) [0..<m]"
      | "matchlevel = -1" "b = []" "length xs + 1 \<le> p" using t b by (auto simp: tracked_def)
    then show ?thesis
    proof cases
      case 1
      then have "l < m" using landed_even [OF l] by (cases "m = l") auto
      then have "length (lev H m (xs @ [x])) = length (lev H m xs)" by (simp only: landed_above [OF l])
      then show ?thesis using 1 False by (intro disjI1 exI [of _ m]) simp
    qed (use False in simp)
  qed
qed

lemma leaf_step:
  assumes inv: "leaves_inv H L p xs st" and n: "length xs + 1 < 2 ^ 32" and L: "L = xs @ x # ys" and p: "p = unat branchpos"
  shows "\<exists>st'. merkle_leaves H branchpos (x # ys) st = merkle_leaves H branchpos ys st' \<and> leaves_inv H L p (xs @ [x]) st'"
proof -
  from leaf_climb [OF assms] obtain l mh pb where l: "landed H xs x l"
    and t: "tracked (\<lambda>k. lev H k (xs @ [x])) (\<lambda>k. lev H k xs) (sib H L p) (length xs + 1) p (mk_matchlevel st) l mh pb"
    and c: "climb H (mk_count st + 1) (mk_inner st) (mk_matchlevel st) 0 x (mk_count st = branchpos) (mk_mutated st) (mk_branch st) =
      Some (l, last (lev H l (xs @ [x])), mh, mk_mutated st \<or> (\<exists>j<l. last (lev H j xs) = last (lev H j (xs @ [x]))), pb)" by blast
  let ?st = "\<lparr>mk_mutated = (mk_mutated st \<or> (\<exists>j<l. last (lev H j xs) = last (lev H j (xs @ [x])))), mk_count = mk_count st + 1,
    mk_inner = (mk_inner st)[l := last (lev H l (xs @ [x]))], mk_matchlevel = (if mh then int l else mk_matchlevel st), mk_branch = pb\<rparr>"
  have "unat (mk_count st + 1) = length xs + 1" using inv n by (simp add: leaves_inv_def unat_word_ariths)
  then have "leaves_inv H L p (xs @ [x]) ?st"
    using inv dup_snoc [OF l] inner_ok_snoc [OF _ l] followed_snoc [OF l t] by (simp add: leaves_inv_def)
  then show ?thesis using c by (intro exI [of _ ?st]) simp
qed

lemma leaves_loop:
  "leaves_inv H L p xs st \<Longrightarrow> L = xs @ ys \<Longrightarrow> length L < 2 ^ 32 \<Longrightarrow> p = unat branchpos \<Longrightarrow>
   \<exists>st'. merkle_leaves H branchpos ys st = Some st' \<and> leaves_inv H L p L st'"
proof (induction ys arbitrary: xs st)
  case (Cons y ys)
  have "length xs + 1 < 2 ^ 32" using Cons.prems(2,3) by simp
  from leaf_step [OF Cons.prems(1) this Cons.prems(2,4)] Cons.IH Cons.prems show ?case
    by (metis append.assoc append_Cons append_Nil)
qed simp

lemma lowest_level_bit:
  "\<exists>k. level \<le> k \<and> k < 32 \<and> bit count k \<Longrightarrow>
   \<exists>l. lowest_level count level = Some l \<and> level \<le> l \<and> l < 32 \<and> bit count l \<and> (\<forall>j. level \<le> j \<and> j < l \<longrightarrow> \<not> bit count j)"
proof (induction count level rule: lowest_level.induct)
  case (1 count level)
  have b: "count AND push_bit level 1 \<noteq> 0 \<longleftrightarrow> bit count level" by (simp add: bit_iff_and_push_bit_not_eq_0)
  have l: "level < 32" using 1(2) by auto
  show ?case
  proof (cases "bit count level")
    case True
    then show ?thesis using b l by (auto simp: lowest_level.simps [of count level])
  next
    case False
    then have "\<exists>k. Suc level \<le> k \<and> k < 32 \<and> bit count k" using 1(2) by (metis Suc_leI le_neq_implies_less)
    then obtain l' where "lowest_level count (Suc level) = Some l'" "Suc level \<le> l'" "l' < 32" "bit count l'" "\<forall>j. Suc level \<le> j \<and> j < l' \<longrightarrow> \<not> bit count j"
      using 1(1) l False b by auto
    moreover have "lowest_level count level = lowest_level count (Suc level)" using False b l by (subst lowest_level.simps) simp
    ultimately show ?thesis using False by (metis Suc_leD Suc_leI le_neq_implies_less)
  qed
qed

section \<open>Completing the tree\<close>

lemma tree_root_up: "(\<forall>j<k. length (up H j L) > 1) \<Longrightarrow> tree_root H zero L = tree_root H zero (up H k L)"
  by (induction k) (auto simp: tree_root.simps [of H zero "up H k L" for k])

lemma tree_branch_up:
  "(\<forall>j<k. length (up H j L) > 1) \<Longrightarrow> tree_branch H L p = map (sib H L p) [0..<k] @ tree_branch H (up H k L) (p div 2 ^ k)"
  by (induction k) (auto simp: tree_branch.simps [of H "up H k L" for k] sib_def power_Suc2 div_mult2_eq simp del: power_Suc)

lemma count_levels:
  "a \<le> k \<Longrightarrow> (\<forall>j. a \<le> j \<and> j < k \<longrightarrow> even (length (up H j L))) \<Longrightarrow> length (up H a L) * 2 ^ a = length (up H k L) * 2 ^ k"
proof (induction k)
  case (Suc k)
  then show ?case by (cases "a = Suc k") (auto elim!: evenE)
qed simp

definition top_inv :: "('a \<Rightarrow> 'a \<Rightarrow> 'a) \<Rightarrow> 'a list \<Rightarrow> nat \<Rightarrow> int \<Rightarrow> u32 \<Rightarrow> nat \<Rightarrow> 'a \<Rightarrow> bool \<Rightarrow> 'a list option \<Rightarrow> bool" where
  "top_inv H L p matchlevel count level h matchh pbranch \<longleftrightarrow>
     level < 32 \<and> (\<exists>Y. up H level L = Y @ [h] \<and> pairs H Y = lev H (Suc level) L \<and> even (length Y)) \<and>
     unat count = length (up H level L) * 2 ^ level \<and> (\<forall>j<level. length (up H j L) > 1) \<and>
     (\<forall>b. pbranch = Some b \<longrightarrow>
        (if matchh then p div 2 ^ level + 1 = length (up H level L) \<and> b = map (sib H L p) [0..<level]
         else (\<exists>m>level. matchlevel = int m \<and> odd (length (lev H m L)) \<and> p div 2 ^ m + 1 = length (lev H m L) \<and> b = map (sib H L p) [0..<m]) \<or>
           matchlevel = -1 \<and> b = [] \<and> length L \<le> p))"

lemma top_end:
  assumes inv: "top_inv H L p matchlevel count level h matchh pbranch" and c: "count = push_bit level 1"
  shows "h = tree_root H zero L" and "pbranch = Some b \<Longrightarrow> p < length L \<Longrightarrow> b = tree_branch H L p"
proof -
  have l: "level < 32" using inv by (simp add: top_inv_def)
  have "unat count = 2 ^ level"
    using power_strict_increasing [OF l, of "2 :: nat"] unat_push_bit_u32 [of level 1] by (simp add: c)
  then have one: "length (up H level L) = 1" using inv by (auto simp: top_inv_def)
  then have h: "up H level L = [h]" using inv by (auto simp: top_inv_def)
  have up: "\<forall>j<level. length (up H j L) > 1" using inv by (simp add: top_inv_def)
  show "h = tree_root H zero L" using tree_root_up [OF up] h by (simp add: tree_root.simps)
  assume b: "pbranch = Some b" and p: "p < length L"
  have "length L < 2 ^ Suc level"
  proof (rule ccontr)
    assume "\<not> ?thesis"
    then have "length (lev H (Suc level) L) > 0" by (simp only: length_lev) (simp add: div_greater_zero_iff)
    moreover have "lev H (Suc level) L = pairs H []" using inv h by (auto simp: top_inv_def)
    ultimately show False by (metis length_0_conv less_numeral_extra(3) pairs.simps(1))
  qed
  then have "length L div 2 ^ m = 0" if "m > level" for m
    using that power_increasing [of "Suc level" m "2 :: nat"] by simp
  then have "even (length (lev H m L))" if "m > level" for m using that by simp
  then have "matchh" using inv b p unfolding top_inv_def by (metis not_less)
  then have "b = map (sib H L p) [0..<level]" using inv b by (simp add: top_inv_def)
  then show "b = tree_branch H L p" using tree_branch_up [OF up] h by (simp add: tree_branch.simps)
qed

text \<open>The counter after an odd level has been completed.\<close>

lemma top_count:
  assumes inv: "top_inv H L p matchlevel count level h matchh pbranch" and L: "L \<noteq> []" "length L \<le> 2 ^ 31" and c: "count \<noteq> push_bit level 1"
  shows "length (up H level L) \<ge> 3" and "unat (count + push_bit level 1) = length (up H (Suc level) L) * 2 ^ Suc level"
proof -
  let ?U = "\<lambda>k. up H k L"
  obtain Y where Y: "?U level = Y @ [h]" "even (length Y)" and l: "level < 32" and n: "unat count = length (?U level) * 2 ^ level"
    using inv by (auto simp: top_inv_def)
  have u: "unat (push_bit level 1 :: u32) = 2 ^ level"
    using power_strict_increasing [OF l, of "2 :: nat"] unat_push_bit_u32 [of level 1] by simp
  then have "Y \<noteq> []" using c n Y(1) by (auto simp: word_unat_eq_iff)
  then show big: "length (?U level) \<ge> 3" using Y by (cases Y rule: list.exhaust) (auto simp: Suc_le_eq elim!: evenE)
  have l30: "level < 30"
  proof (rule ccontr)
    assume "\<not> level < 30"
    then have "level = 30 \<or> level = 31" using l by auto
    then show False using length_up_bound [OF L(2), of level H] big by auto
  qed
  have "even (length (?U level) + 1)" using Y by simp
  from dvd_div_mult_self [OF this] have "length (?U (Suc level)) * 2 = length (?U level) + 1"
    by (simp only: funpow.simps comp_apply length_pair_up)
  then have c1: "length (?U (Suc level)) * 2 ^ Suc level = (length (?U level) + 1) * 2 ^ level" by (metis mult.assoc power_Suc)
  have "length (?U (Suc level)) * 2 ^ Suc level \<le> 2 ^ (31 - Suc level) * 2 ^ Suc level"
    using length_up_bound [OF L(2), of "Suc level" H] l30 by (intro mult_right_mono) auto
  also have "\<dots> = 2 ^ 31" using l30 by (simp flip: power_add)
  finally have small: "length (?U (Suc level)) * 2 ^ Suc level \<le> 2 ^ 31" .
  have "unat count + unat (push_bit level 1 :: u32) = length (?U (Suc level)) * 2 ^ Suc level"
    unfolding c1 n u by (simp add: algebra_simps)
  moreover have "m mod 2 ^ LENGTH(32) = m" if "m \<le> 2 ^ 31" for m :: nat using that by simp
  ultimately show "unat (count + push_bit level 1) = length (?U (Suc level)) * 2 ^ Suc level"
    using small unfolding unat_word_ariths(1) by metis
qed

lemma high_bit:
  assumes "unat (c :: u32) = n * 2 ^ l" "n > 0"
  shows "\<exists>k. l \<le> k \<and> k < 32 \<and> bit c k"
proof -
  have "c \<noteq> 0" using assms by auto
  then obtain k where k: "bit c k" "k < 32" using some_bit by blast
  have "l \<le> k"
  proof (rule ccontr)
    assume "\<not> l \<le> k"
    then have "(2 :: nat) ^ l = 2 ^ k * (2 * 2 ^ (l - k - 1))" by (simp flip: power_Suc power_add)
    then show False using k bit_count [of k c] assms(1) by simp
  qed
  then show ?thesis using k by blast
qed

text \<open>A hash that is combined with itself is its own sibling.\<close>

lemma top_tracked:
  assumes inv: "top_inv H L p matchlevel count level h matchh pbranch"
  shows "tracked (\<lambda>k. up H k L) (\<lambda>k. lev H k L) (sib H L p) (length L) p matchlevel (Suc level) matchh
    (if matchh then map_option (\<lambda>b. b @ [h]) pbranch else pbranch)"
proof (cases matchh)
  case True
  obtain Y where Y: "up H level L = Y @ [h]" "even (length Y)" using inv by (auto simp: top_inv_def)
  have "sib H L p level = h" "p div 2 ^ Suc level + 1 = length (up H (Suc level) L)" if "p div 2 ^ level + 1 = length (up H level L)"
  proof -
    show "sib H L p level = h" using that Y by (intro sib_self) simp_all
    have "p div 2 ^ Suc level = p div 2 ^ level div 2" by (simp add: power_Suc2 div_mult2_eq del: power_Suc)
    then show "p div 2 ^ Suc level + 1 = length (up H (Suc level) L)" using that Y by (auto elim!: evenE)
  qed
  then show ?thesis using inv True by (auto simp: tracked_def top_inv_def)
next
  case False
  then show ?thesis using inv by (simp add: tracked_def top_inv_def) (metis Suc_leI)
qed

lemma top_climb:
  assumes inv: "top_inv H L p matchlevel count level h matchh pbranch" and L: "L \<noteq> []"
    and inner: "inner_ok H L innr" and c: "unat c = length (up H (Suc level) L) * 2 ^ Suc level"
  shows "\<exists>l mh mu pb. Suc level \<le> l \<and> l < 32 \<and> odd (length (up H l L)) \<and> (\<forall>j. Suc level \<le> j \<and> j < l \<longrightarrow> even (length (up H j L))) \<and>
    up H l L = lev H l L @ [last (up H l L)] \<and> tracked (\<lambda>k. up H k L) (\<lambda>k. lev H k L) (sib H L p) (length L) p matchlevel l mh pb \<and>
    climb H c innr matchlevel (Suc level) (H h h) matchh False (if matchh then map_option (\<lambda>b. b @ [h]) pbranch else pbranch) =
      Some (l, last (up H l L), mh, mu, pb)"
proof -
  let ?U = "\<lambda>k. up H k L" and ?V = "\<lambda>k. lev H k L" and ?pb = "if matchh then map_option (\<lambda>b. b @ [h]) pbranch else pbranch"
  obtain Y where Y: "?U level = Y @ [h]" "pairs H Y = ?V (Suc level)" "even (length Y)" using inv by (auto simp: top_inv_def)
  have U1: "?U (Suc level) = ?V (Suc level) @ [H h h]" using Y by (simp add: pairs_even)
  have ex: "\<exists>k. Suc level \<le> k \<and> k < 32 \<and> bit c k"
    using up_not_empty [OF L, where k = "Suc level" and H = H] by (intro high_bit [OF c]) (auto simp del: funpow.simps)
  have "\<exists>l mh pb. Suc level \<le> l \<and> l < 32 \<and> odd (length (?U l)) \<and> (\<forall>j. Suc level \<le> j \<and> j < l \<longrightarrow> odd (length (?V j)) \<and> ?U j = ?V j @ [last (?U j)]) \<and>
      ?U l = ?V l @ [last (?U l)] \<and> tracked ?U ?V (sib H L p) (length L) p matchlevel l mh pb \<and>
      climb H c innr matchlevel (Suc level) (H h h) matchh False ?pb =
        Some (l, last (?U l), mh, False \<or> (\<exists>j. Suc level \<le> j \<and> j < l \<and> last (?V j) = last (?U j)), pb)"
  proof (rule climb_tree)
    show "bit c k = odd (length (?U k))" if "k < 32" "Suc level \<le> k" "\<And>j. Suc level \<le> j \<Longrightarrow> j < k \<Longrightarrow> even (length (?U j))" for k
      using count_levels [OF that(2), where H = H and L = L] that(3) c by (simp add: bit_count [OF that(1)] del: funpow.simps)
    show "?U (Suc k) = ?V (Suc k) @ [H (last (?V k)) x]" if "odd (length (?V k))" "?U k = ?V k @ [x]" for k x
      using that by (simp add: pairs_odd)
    show "sib H L p k = last (?V k)" if "p div 2 ^ k + 1 = length (?U k)" "odd (length (?V k))" "?U k = ?V k @ [x]" for k x
      using sib_left [where v = "?V k" and x = x and zs = "[]", OF _ that(2)] that by simp
    show "sib H L p k = x" if "p div 2 ^ k + 1 = length (?V k)" "odd (length (?V k))" "?U k = ?V k @ [x]" for k x
      using sib_right [where v = "?V k" and x = x and zs = "[]", OF _ that(2)] that by simp
    show "length (?V (Suc k)) = length (?V k) div 2" for k by simp
  qed (use U1 top_tracked [OF inv] ex inner in \<open>auto simp: inner_ok_def\<close>)
  moreover have "even (length (?U j))" if "odd (length (?V j))" "?U j = ?V j @ [last (?U j)]" for j
    using that by (metis even_Suc length_append_singleton)
  ultimately show ?thesis by blast
qed

lemma top_step:
  assumes inv: "top_inv H L p matchlevel count level h matchh pbranch" and L: "L \<noteq> []" "length L \<le> 2 ^ 31"
    and inner: "inner_ok H L innr" and c: "count \<noteq> push_bit level 1"
  shows "\<exists>l h' mh mu pb. climb H (count + push_bit level 1) innr matchlevel (Suc level) (H h h) matchh False
      (if matchh then map_option (\<lambda>b. b @ [h]) pbranch else pbranch) = Some (l, h', mh, mu, pb) \<and>
    top_inv H L p matchlevel (count + push_bit level 1) l h' mh pb"
proof -
  let ?U = "\<lambda>k. up H k L" and ?V = "\<lambda>k. lev H k L" and ?c = "count + push_bit level 1"
  note uc = top_count [OF inv L c]
  have up: "\<forall>j<level. length (?U j) > 1" using inv by (simp add: top_inv_def)
  from top_climb [OF inv L(1) inner uc(2)] obtain l mh mu pb where
    r: "Suc level \<le> l" "l < 32" "odd (length (?U l))" "\<And>j. Suc level \<le> j \<Longrightarrow> j < l \<Longrightarrow> even (length (?U j))"
      "?U l = ?V l @ [last (?U l)]" "tracked ?U ?V (sib H L p) (length L) p matchlevel l mh pb"
      "climb H ?c innr matchlevel (Suc level) (H h h) matchh False (if matchh then map_option (\<lambda>b. b @ [h]) pbranch else pbranch) =
        Some (l, last (?U l), mh, mu, pb)" by blast
  have "top_inv H L p matchlevel ?c l (last (?U l)) mh pb"
    unfolding top_inv_def
  proof (intro conjI allI impI)
    show "\<exists>Y. ?U l = Y @ [last (?U l)] \<and> pairs H Y = ?V (Suc l) \<and> even (length Y)"
      using r(3,5) by (intro exI [of _ "?V l"]) (metis comp_apply even_Suc funpow.simps(2) length_append_singleton)
    show "unat ?c = length (?U l) * 2 ^ l" using count_levels [OF r(1)] r(4) uc(2) by metis
    show "length (?U j) > 1" if "j < l" for j
    proof (cases j level rule: linorder_cases)
      case greater
      then show ?thesis using r(4) [of j] that up_not_empty [OF L(1), where k = j and H = H]
        by (metis Suc_leI length_0_conv less_one linorder_neqE_nat odd_one)
    qed (use up uc(1) in auto)
    fix b
    assume b: "pb = Some b"
    have "odd (length (?V m)) \<Longrightarrow> m \<noteq> l" for m using r(3,5) by (metis even_Suc length_append_singleton)
    then show "if mh then p div 2 ^ l + 1 = length (?U l) \<and> b = map (sib H L p) [0..<l]
         else (\<exists>m>l. matchlevel = int m \<and> odd (length (?V m)) \<and> p div 2 ^ m + 1 = length (?V m) \<and> b = map (sib H L p) [0..<m]) \<or>
           matchlevel = -1 \<and> b = [] \<and> length L \<le> p"
      using r(6) b unfolding tracked_def by (metis le_neq_implies_less)
  qed (rule r(2))
  then show ?thesis using r(7) by blast
qed

lemma push_branch_none: "push_branch pbranch matchh a i h = (pb, mh) \<Longrightarrow> pb = None \<longleftrightarrow> pbranch = None"
  by (auto simp: push_branch_def split: option.splits if_splits)

lemma climb_none:
  "climb H count innr matchlevel level h matchh mutated pbranch = Some (l, h', mh, mu, pb) \<Longrightarrow> pb = None \<longleftrightarrow> pbranch = None"
proof (induction H count innr matchlevel level h matchh mutated pbranch rule: climb.induct)
  case (1 H count innr matchlevel level h matchh mutated pbranch)
  obtain pb1 mh1 where p: "push_branch pbranch matchh (matchlevel = int level) (innr ! level) h = (pb1, mh1)" by fastforce
  show ?case using 1(2) [unfolded climb.simps [of H count innr matchlevel level h matchh mutated pbranch]] 1(1) [OF _ _ p [symmetric] refl]
      push_branch_none [OF p] by (auto simp: p split: if_splits)
qed

lemma top_loop:
  "top_inv H L p matchlevel count level h matchh pbranch \<Longrightarrow> L \<noteq> [] \<Longrightarrow> length L \<le> 2 ^ 31 \<Longrightarrow> inner_ok H L innr \<Longrightarrow>
   \<exists>pb. merkle_top H innr matchlevel count level h matchh pbranch = Some (tree_root H zero L, pb) \<and> (pb = None \<longleftrightarrow> pbranch = None) \<and>
     (p < length L \<longrightarrow> pb = None \<or> pb = Some (tree_branch H L p))"
proof (induction H innr matchlevel count level h matchh pbranch rule: merkle_top.induct)
  case (1 H innr matchlevel count level h matchh pbranch)
  have l: "level < 32" using 1(2) by (simp add: top_inv_def)
  show ?case
  proof (cases "count = push_bit level 1")
    case True
    then have "merkle_top H innr matchlevel count level h matchh pbranch = Some (tree_root H zero L, pbranch)"
      using l top_end(1) [OF 1(2) True] by (subst merkle_top.simps) simp
    then show ?thesis using top_end(2) [OF 1(2) True] by (cases pbranch) auto
  next
    case False
    from top_step [OF 1(2-5) False] obtain l' h' mh mu pb where
      c: "climb H (count + push_bit level 1) innr matchlevel (Suc level) (H h h) matchh False
        (if matchh then map_option (\<lambda>b. b @ [h]) pbranch else pbranch) = Some (l', h', mh, mu, pb)"
      and t: "top_inv H L p matchlevel (count + push_bit level 1) l' h' mh pb" by blast
    have "merkle_top H innr matchlevel count level h matchh pbranch = merkle_top H innr matchlevel (count + push_bit level 1) l' h' mh pb"
      using l False c by (subst merkle_top.simps) simp
    moreover have "pb = None \<longleftrightarrow> pbranch = None" using climb_none [OF c] by (simp split: if_splits)
    ultimately show ?thesis using 1(1) [OF _ False c refl refl refl refl t 1(3-5)] l by auto
  qed
qed

lemma up_lev: "(\<forall>j<k. even (length (lev H j L))) \<Longrightarrow> up H k L = lev H k L"
  by (induction k) (auto simp: pair_up_even)

lemma top_start:
  assumes inv: "leaves_inv H L p L st" and L: "L \<noteq> []" and l: "l < 32" "bit (mk_count st) l" "\<forall>j<l. \<not> bit (mk_count st) j"
  shows "top_inv H L p (mk_matchlevel st) (mk_count st) l (mk_inner st ! l) (mk_matchlevel st = int l) (mk_branch st)"
proof -
  have c: "unat (mk_count st) = length L" using inv by (simp add: leaves_inv_def)
  have o: "odd (length (lev H l L))" using l(1,2) c by (simp add: bit_count)
  have e: "even (length (lev H j L))" if "j < l" for j using l that c by (auto simp: bit_count)
  have u: "up H j L = lev H j L" if "j \<le> l" for j using e that by (intro up_lev) auto
  have i: "mk_inner st ! l = last (lev H l L)" using inv l(1) o by (simp add: leaves_inv_def inner_ok_def)
  from odd_snoc [OF o] obtain Y where Y: "lev H l L = Y @ [last (lev H l L)]" "even (length Y)" by blast
  have p: "pairs H Y = lev H (Suc l) L" using pairs_even(1) [OF Y(2), of H "last (lev H l L)"] Y(1) by simp
  have n: "unat (mk_count st) = length (up H l L) * 2 ^ l"
    using count_levels [of 0 l H L] e u c by simp
  have "length (up H j L) > 1" if "j < l" for j
    using e [OF that] u [of j] that up_not_empty [OF L, where k = j and H = H]
    by (metis length_0_conv less_imp_le less_one linorder_neqE_nat odd_one)
  moreover have "m \<noteq> l \<Longrightarrow> odd (length L div 2 ^ m) \<Longrightarrow> l < m" for m
    using l(3) c l(1) by (metis bit_count linorder_neqE_nat order.strict_trans)
  ultimately show ?thesis
    using l(1) n i u [of l] Y p inv unfolding top_inv_def leaves_inv_def followed_def
    by (auto simp del: funpow.simps)
qed

lemma leaves_none: "merkle_leaves H branchpos ys st = Some st' \<Longrightarrow> mk_branch st' = None \<longleftrightarrow> mk_branch st = None"
proof (induction ys arbitrary: st)
  case (Cons y ys)
  from Cons.prems obtain l h' mh mu pb where
    c: "climb H (mk_count st + 1) (mk_inner st) (mk_matchlevel st) 0 y (mk_count st = branchpos) (mk_mutated st) (mk_branch st) = Some (l, h', mh, mu, pb)"
    by (auto split: option.splits)
  show ?case using Cons.IH Cons.prems climb_none [OF c] c by fastforce
qed simp

text \<open>The computation equals the reference.\<close>

lemma MerkleComputation_reference:
  assumes L: "L \<noteq> []" "length L \<le> 2 ^ 31"
  shows "\<exists>pb. MerkleComputation H zero L pos pb0 = Some (tree_root H zero L, dup H L, pb) \<and> (pb = None \<longleftrightarrow> pb0 = None) \<and>
    (unat pos < length L \<longrightarrow> pb = None \<or> pb = Some (tree_branch H L (unat pos)))"
proof -
  let ?st = "\<lparr>mk_mutated = False, mk_count = 0, mk_inner = replicate 32 zero, mk_matchlevel = -1, mk_branch = map_option (\<lambda>_. []) pb0\<rparr>"
  have e: "lev H k [] = []" for k by (induction k) simp_all
  have "leaves_inv H L (unat pos) [] ?st" by (auto simp: leaves_inv_def inner_ok_def followed_def dup_def e)
  from leaves_loop [OF this _ _ refl] L obtain st where
    st: "merkle_leaves H pos L ?st = Some st" "leaves_inv H L (unat pos) L st" by auto
  have c: "unat (mk_count st) = length L" using st(2) by (simp add: leaves_inv_def)
  then have "mk_count st \<noteq> 0" using L(1) by (metis length_0_conv unat_0)
  then have "\<exists>k\<ge>0. k < 32 \<and> bit (mk_count st) k" using some_bit by blast
  from lowest_level_bit [OF this] obtain l where
    l: "lowest_level (mk_count st) 0 = Some l" "l < 32" "bit (mk_count st) l" "\<forall>j<l. \<not> bit (mk_count st) j" by auto
  have "inner_ok H L (mk_inner st)" "mk_mutated st = dup H L" using st(2) by (simp_all add: leaves_inv_def)
  note i = this
  from top_loop [OF top_start [OF st(2) L(1) l(2-4)] L i(1), of zero] show ?thesis
    using st(1) l(1) L(1) i(2) leaves_none [OF st(1)] by (auto simp: MerkleComputation_def Let_def)
qed

lemma pair_up_nth: "j < (length xs + 1) div 2 \<Longrightarrow> pair_up H xs ! j = H (xs ! (2 * j)) (xs ! min (2 * j + 1) (length xs - 1))"
proof (induction H xs arbitrary: j rule: pair_up.induct)
  case (3 H a b xs)
  show ?case
  proof (cases j)
    case (Suc i)
    then have "i < (length xs + 1) div 2" using 3(2) by simp
    then show ?thesis using 3(1) Suc by (cases xs) (auto simp: min_def)
  qed simp
qed auto

lemma root_from_branch_reference:
  "i < length xs \<Longrightarrow> unat nIndex = i \<Longrightarrow> root_from_branch H (xs ! i) (tree_branch H xs i) nIndex = tree_root H zero xs"
proof (induction H xs i arbitrary: nIndex rule: tree_branch.induct)
  case (1 H xs i)
  show ?case
  proof (cases "length xs > 1")
    case True
    have x: "i XOR 1 = (if odd i then i - 1 else i + 1)" by (simp add: xor_Suc_0_eq)
    have o: "nIndex AND 1 \<noteq> 0 \<longleftrightarrow> odd i" using 1(3) bit_count [of 0 nIndex] by (simp add: bit_0 and_one_eq flip: odd_iff_mod_2_eq_one)
    have n: "pair_up H xs ! (i div 2) = (if odd i then H (xs ! (i XOR 1)) (xs ! i) else H (xs ! i) (xs ! min (i XOR 1) (length xs - 1)))"
      using 1(2) pair_up_nth [of "i div 2" xs H] by (auto simp: xor_Suc_0_eq elim!: oddE evenE)
    have "i div 2 < length (pair_up H xs)" using 1(2) by auto
    moreover have "unat (drop_bit 1 nIndex) = i div 2" using 1(3) unat_drop_bit_u32 [of 1 nIndex] by simp
    ultimately have "root_from_branch H (pair_up H xs ! (i div 2)) (tree_branch H (pair_up H xs) (i div 2)) (drop_bit 1 nIndex) = tree_root H zero (pair_up H xs)"
      by (rule 1(1) [OF True])
    then show ?thesis using True n o 1(2) by (subst tree_branch.simps, subst tree_root.simps) (auto simp: xor_Suc_0_eq min_def)
  next
    case False
    then show ?thesis using 1(2) by (cases xs) (simp_all add: tree_root.simps tree_branch.simps)
  qed
qed

section \<open>What the root commits to\<close>

fun depth :: "nat \<Rightarrow> nat" where
  "depth n = (if n > 1 then Suc (depth ((n + 1) div 2)) else 0)"

declare depth.simps [simp del]

fun level_pairs :: "'a list \<Rightarrow> ('a \<times> 'a) set" where
  "level_pairs [] = {}"
| "level_pairs [a] = {(a, a)}"
| "level_pairs (a # b # xs) = insert (a, b) (level_pairs xs)"

text \<open>The pairs that are hashed for a tree, and a collision among some pairs.\<close>

definition nodes :: "('a \<Rightarrow> 'a \<Rightarrow> 'a) \<Rightarrow> 'a list \<Rightarrow> ('a \<times> 'a) set" where
  "nodes H xs = (\<Union>k<depth (length xs). level_pairs (up H k xs))"

definition collision :: "('a \<Rightarrow> 'a \<Rightarrow> 'a) \<Rightarrow> ('a \<times> 'a) set \<Rightarrow> bool" where
  "collision H S \<longleftrightarrow> \<not> inj_on (\<lambda>(a, b). H a b) S"

lemma up_depth: "xs \<noteq> [] \<Longrightarrow> length (up H (depth (length xs)) xs) = 1"
proof (induction "length xs" arbitrary: xs rule: depth.induct)
  case 1
  show ?case
  proof (cases "length xs > 1")
    case True
    then have "length (up H (depth (length (pair_up H xs))) (pair_up H xs)) = 1" by (intro 1(1)) auto
    then show ?thesis using True by (simp add: depth.simps [of "length xs"] funpow_swap1)
  next
    case False
    then show ?thesis using 1(2) by (cases xs) (auto simp: depth.simps)
  qed
qed

lemma up_below_depth: "k < depth (length xs) \<Longrightarrow> length (up H k xs) > 1"
proof (induction "length xs" arbitrary: xs k rule: depth.induct)
  case 1
  then have l: "length xs > 1" by (auto simp: depth.simps split: if_splits)
  show ?case
  proof (cases k)
    case (Suc j)
    then have "j < depth (length (pair_up H xs))" using 1(2) l by (simp add: depth.simps [of "length xs"])
    then have "length (up H j (pair_up H xs)) > 1" using l by (intro 1(1)) auto
    then show ?thesis by (simp add: Suc funpow_swap1)
  qed (use l in simp)
qed

lemma above_depth: "length (up H k xs) > 1 \<Longrightarrow> k < depth (length xs)"
proof (rule ccontr)
  assume k: "length (up H k xs) > 1" "\<not> k < depth (length xs)"
  have "xs \<noteq> []" using k(1) by (induction k) auto
  moreover have "length (up H (d + i) xs) = 1" if "length (up H d xs) = 1" for d i using that by (induction i) auto
  ultimately show False using k up_depth [where xs = xs and H = H] by (metis less_irrefl_nat le_add_diff_inverse linorder_not_less)
qed

lemma up_cases: "up H k xs = lev H k xs \<or> (\<exists>h. up H k xs = lev H k xs @ [h])"
proof (induction k)
  case (Suc k)
  show ?case
  proof (cases "even (length (lev H k xs))")
    case True
    then show ?thesis using Suc by (auto simp: pairs_even pair_up_even)
  next
    case False
    from odd_snoc [OF this] obtain Y where Y: "lev H k xs = Y @ [last (lev H k xs)]" "even (length Y)" by blast
    have "pair_up H (lev H k xs) = pairs H (lev H k xs) @ [H (last (lev H k xs)) (last (lev H k xs))]"
      using pairs_even(1,2) [OF Y(2), of H "last (lev H k xs)"] Y(1) by simp
    then show ?thesis using Suc pairs_odd [OF False] by auto
  qed
qed simp

lemma pairs_level: "r \<in> set (pairs H xs) \<Longrightarrow> \<exists>a b. r = H a b \<and> (a, b) \<in> level_pairs (xs @ ys) \<and> a \<in> set xs \<and> b \<in> set xs \<and> (a = b \<longrightarrow> has_pair xs)"
proof (induction H xs rule: pairs.induct)
  case (3 H a b xs)
  then show ?case by (cases "r = H a b") fastforce+
qed simp_all

lemma level_pairs_append: "even (length xs) \<Longrightarrow> level_pairs (xs @ ys) = level_pairs xs \<union> level_pairs ys"
  by (induction xs rule: has_pair.induct) auto

text \<open>A complete subtree never equals the subtree with the duplicated end, or one of its nodes has equal children.\<close>

lemma real_not_virtual:
  assumes inj: "inj_on (\<lambda>(a, b). H a b) (nodes H xs)"
  shows "up H k xs = lev H k xs @ [h] \<Longrightarrow> h \<in> set (lev H k xs) \<Longrightarrow> dup H xs"
proof (induction k arbitrary: h)
  case (Suc k)
  have "length (up H (Suc k) xs) > 1" using Suc.prems by (cases "lev H (Suc k) xs") auto
  then have "k < depth (length xs)" using above_depth [where k = "Suc k" and H = H and xs = xs] by simp
  then have lp: "level_pairs (up H k xs) \<subseteq> nodes H xs" by (auto simp: nodes_def)
  have eq: "a = c \<and> b = d" if "(a, b) \<in> level_pairs (up H k xs)" "(c, d) \<in> level_pairs (up H k xs)" "H a b = H c d" for a b c d
    using inj_onD [OF inj, of "(a, b)" "(c, d)"] that lp by auto
  obtain ys where ys: "up H k xs = lev H k xs @ ys" "ys = [] \<or> (\<exists>g. ys = [g])" using up_cases [where k = k and H = H and xs = xs] by auto
  from Suc.prems(2) pairs_level [of h H "lev H k xs" ys] obtain a b where
    ab: "h = H a b" "(a, b) \<in> level_pairs (up H k xs)" "a \<in> set (lev H k xs)" "b \<in> set (lev H k xs)" "a = b \<Longrightarrow> has_pair (lev H k xs)"
    using ys(1) by auto
  have d: "a = b \<Longrightarrow> dup H xs" using ab(5) by (auto simp: dup_def)
  show ?case
  proof (cases "even (length (lev H k xs))")
    case True
    then obtain g where g: "ys = [g]" using ys Suc.prems(1) by (auto simp: pair_up_even)
    then have "h = H g g" using Suc.prems(1) ys(1) True by (simp add: pairs_even)
    moreover have "(g, g) \<in> level_pairs (up H k xs)" using ys(1) g True by (simp add: level_pairs_append)
    ultimately show ?thesis using eq [OF ab(2)] ab(1) d by auto
  next
    case False
    from odd_snoc [OF this] obtain Y y where Y: "lev H k xs = Y @ [y]" "even (length Y)" by blast
    have h: "h = H y (last (y # ys))" using Suc.prems(1) ys Y by (auto simp: pair_up_append pairs_append)
    have "(y, last (y # ys)) \<in> level_pairs (up H k xs)" using ys Y by (auto simp: level_pairs_append)
    then have e: "a = y" "b = last (y # ys)" using eq [OF ab(2)] h ab(1) by auto
    show ?thesis
    proof (cases ys)
      case Nil
      then show ?thesis using e d by simp
    next
      case (Cons g zs)
      then have "up H k xs = lev H k xs @ [g]" "b = g" using ys e by auto
      then show ?thesis using Suc.IH ab(4) by blast
    qed
  qed
qed simp

lemma no_pair_in_tree:
  assumes "inj_on (\<lambda>(a, b). H a b) (nodes H xs)" "\<not> dup H xs"
  shows "\<not> has_pair (up H k xs)"
proof
  assume p: "has_pair (up H k xs)"
  have l: "\<not> has_pair (lev H k xs)" using assms(2) by (auto simp: dup_def)
  then obtain h where h: "up H k xs = lev H k xs @ [h]" using up_cases [where k = k and H = H and xs = xs] p by auto
  have o: "odd (length (lev H k xs))" using p h l pairs_even(3) by metis
  then have "last (lev H k xs) = h" using p h l pairs_odd(3) by metis
  moreover have "lev H k xs \<noteq> []" using o by (metis even_zero length_0_conv)
  ultimately have "h \<in> set (lev H k xs)" by (metis last_in_set)
  then show False using real_not_virtual [OF assms(1) h] assms(2) by blast
qed

lemma pair_up_inject:
  "pair_up H xs = pair_up H ys \<Longrightarrow> inj_on (\<lambda>(a, b). H a b) (level_pairs xs \<union> level_pairs ys) \<Longrightarrow> \<not> has_pair xs \<Longrightarrow> \<not> has_pair ys \<Longrightarrow> xs = ys"
proof (induction xs arbitrary: ys rule: has_pair.induct)
  case 1
  then show ?case by simp
next
  case (2 a)
  from 2(1) obtain c d where cd: "ys = [c] \<and> d = c \<or> ys = [c, d]" "H c d = H a a" "(c, d) \<in> level_pairs ys"
    by (cases "(H, ys)" rule: pair_up.cases) auto
  then have "(c, d) = (a, a)" using inj_onD [OF 2(2), of "(c, d)" "(a, a)"] by auto
  then show ?case using cd(1) 2(4) by auto
next
  case (3 a b xs)
  from 3(2) obtain c ys' where ys: "ys = c # ys'" by (cases ys) auto
  show ?case
  proof (cases ys')
    case Nil
    then have "H a b = H c c" using 3(2) ys by simp
    then have "a = b" using inj_onD [OF 3(3), of "(a, b)" "(c, c)"] ys Nil by simp
    then show ?thesis using 3(4) by simp
  next
    case (Cons d zs)
    then have "H a b = H c d" "pair_up H xs = pair_up H zs" using 3(2) ys by simp_all
    then have "a = c \<and> b = d" using inj_onD [OF 3(3), of "(a, b)" "(c, d)"] ys Cons by simp
    moreover have "inj_on (\<lambda>(a, b). H a b) (level_pairs xs \<union> level_pairs zs)"
      using 3(3) by (rule inj_on_subset) (auto simp: ys Cons)
    ultimately show ?thesis using 3(1) [of zs] 3(4,5) ys Cons \<open>pair_up H xs = pair_up H zs\<close> by simp
  qed
qed

lemma up_at_depth:
  assumes z: "zs \<noteq> []"
  shows "up H (depth (length zs)) zs = [tree_root H zero zs]"
proof -
  obtain a where a: "up H (depth (length zs)) zs = [a]" using up_depth [where xs = zs and H = H, OF z] by (auto simp: length_Suc_conv)
  then have "tree_root H zero zs = tree_root H zero [a]"
    using tree_root_up [where k = "depth (length zs)" and H = H and L = zs and zero = zero] up_below_depth [where xs = zs and H = H] by metis
  then show ?thesis using a by (simp add: tree_root.simps [of H zero "[a]"])
qed

lemma root_commits:
  assumes root: "tree_root H zero xs = tree_root H zero ys" and ne: "xs \<noteq> []" "ys \<noteq> []" and d: "depth (length xs) = depth (length ys)"
    and inj: "\<not> collision H (nodes H xs \<union> nodes H ys)" and dup: "\<not> dup H xs" "\<not> dup H ys"
  shows "xs = ys"
proof -
  have inj': "inj_on (\<lambda>(a, b). H a b) (nodes H xs \<union> nodes H ys)" using inj by (simp add: collision_def)
  note np = no_pair_in_tree [OF inj_on_subset [OF inj' Un_upper1] dup(1)] no_pair_in_tree [OF inj_on_subset [OF inj' Un_upper2] dup(2)]
  note r = up_at_depth [where H = H and zero = zero]
  have "up H (depth (length xs) - i) xs = up H (depth (length xs) - i) ys" if "i \<le> depth (length xs)" for i
    using that
  proof (induction i)
    case 0
    show ?case using r [OF ne(1)] r [OF ne(2)] root d by simp
  next
    case (Suc i)
    let ?k = "depth (length xs) - Suc i"
    have k: "?k < depth (length xs)" "depth (length xs) - i = Suc ?k" using Suc.prems by auto
    have "level_pairs (up H ?k xs) \<union> level_pairs (up H ?k ys) \<subseteq> nodes H xs \<union> nodes H ys" using k(1) d by (auto simp: nodes_def)
    moreover have "pair_up H (up H ?k xs) = pair_up H (up H ?k ys)" using Suc.IH Suc.prems k(2) by simp
    ultimately show ?case using pair_up_inject [OF _ inj_on_subset [OF inj'] np] by blast
  qed
  from this [of "depth (length xs)"] show ?thesis by simp
qed

section \<open>The two flags\<close>

text \<open>
  The reference flags a level whose last two hashes are an equal pair; the constant-space computation flags an equal pair anywhere among the
  complete subtrees.
\<close>

lemma equal_end_has_pair: "equal_end xs \<Longrightarrow> has_pair xs"
  by (induction xs rule: equal_end.induct) (auto split: if_splits)

lemma BlockBuildMerkleTree_tree:
  "\<exists>b. BlockBuildMerkleTree H zero xs mutated = (tree_root H zero xs, mutated \<or> b) \<and> (b \<longrightarrow> (\<exists>k. has_pair (up H k xs)))"
proof (induction H zero xs mutated rule: BlockBuildMerkleTree.induct)
  case (1 H zero xs mutated)
  show ?case
  proof (cases "length xs > 1")
    case True
    from 1 [OF True] obtain b where
      b: "BlockBuildMerkleTree H zero (pair_up H xs) (mutated \<or> equal_end xs) = (tree_root H zero (pair_up H xs), (mutated \<or> equal_end xs) \<or> b)"
        "b \<Longrightarrow> \<exists>k. has_pair (up H k (pair_up H xs))" by blast
    have "\<exists>k. has_pair (up H k xs)" if f: "equal_end xs \<or> b"
    proof (cases "equal_end xs")
      case True
      then have "has_pair (up H 0 xs)" using equal_end_has_pair by simp
      then show ?thesis by blast
    next
      case False
      then obtain k where "has_pair (up H k (pair_up H xs))" using f b(2) by blast
      then have "has_pair (up H (Suc k) xs)" by (simp add: funpow_swap1)
      then show ?thesis by blast
    qed
    then show ?thesis using True b(1)
      by (intro exI [of _ "equal_end xs \<or> b"]) (simp add: BlockBuildMerkleTree.simps [of H zero xs] tree_root.simps [of H zero xs])
  next
    case False
    then show ?thesis by (intro exI [of _ False]) (simp add: BlockBuildMerkleTree.simps [of H zero xs] tree_root.simps [of H zero xs])
  qed
qed

lemma collision_explicit:
  "collision H S \<longleftrightarrow> (\<exists>a b c d. (a, b) \<in> S \<and> (c, d) \<in> S \<and> (a, b) \<noteq> (c, d) \<and> H a b = H c d)"
  unfolding collision_def inj_on_def by (auto, (metis (no_types, lifting) case_prod_conv prod.inject)+)

lemma reference_flag:
  "\<exists>old. BlockBuildMerkleTree H zero xs False = (tree_root H zero xs, old) \<and> (old \<longrightarrow> dup H xs \<or> collision H (nodes H xs))"
proof -
  from BlockBuildMerkleTree_tree [of H zero xs False] obtain b where
    "BlockBuildMerkleTree H zero xs False = (tree_root H zero xs, b)" "b \<Longrightarrow> \<exists>k. has_pair (up H k xs)" by auto
  moreover have "dup H xs \<or> collision H (nodes H xs)" if "has_pair (up H k xs)" for k
    using that no_pair_in_tree [where H = H and xs = xs and k = k] by (auto simp: collision_def)
  ultimately show ?thesis by blast
qed

text \<open>They differ on four leaves that begin with an equal pair, which only the constant-space computation flags.\<close>

lemma mutation_flags_differ:
  assumes "b \<noteq> c" "merkle_node junk a a \<noteq> merkle_node junk b c"
  shows "map_option snd (ComputeMerkleRoot junk [a, a, b, c]) = Some True \<and>
    snd (BlockBuildMerkleTree (merkle_node junk) (base_uint_zero 8) [a, a, b, c] False) = False"
proof
  have "has_pair (lev (merkle_node junk) 0 [a, a, b, c])" by simp
  then have "dup (merkle_node junk) [a, a, b, c]" unfolding dup_def by blast
  moreover from MerkleComputation_reference [of "[a, a, b, c]" "merkle_node junk" "base_uint_zero 8" "- 1" None] obtain pb where
    "MerkleComputation (merkle_node junk) (base_uint_zero 8) [a, a, b, c] (- 1) None =
       Some (tree_root (merkle_node junk) (base_uint_zero 8) [a, a, b, c], dup (merkle_node junk) [a, a, b, c], pb)" by auto
  ultimately show "map_option snd (ComputeMerkleRoot junk [a, a, b, c]) = Some True" by (simp add: ComputeMerkleRoot_def)
  show "snd (BlockBuildMerkleTree (merkle_node junk) (base_uint_zero 8) [a, a, b, c] False) = False"
    using assms by (simp add: BlockBuildMerkleTree.simps)
qed

section \<open>Properties\<close>

text \<open>
  C8. The constant-space Merkle computation is correct.  For every non-empty list of at most \<open>2 ^ 31\<close> leaves,
  \<open>ComputeMerkleRoot\<close> returns the root of the reference \<open>BlockBuildMerkleTree\<close>, which builds the tree level by level with the last hash of an odd
  level doubled.  Its flag says whether two equal hashes are combined anywhere in the complete
  subtrees; this covers every tree the reference flags, where only the end of a level is tested, unless that tree contains an explicit
  collision of the double hash.  For every position, \<open>ComputeMerkleBranch\<close> returns the siblings of the leaf and of its ancestors, and
  \<open>ComputeMerkleRootFromBranch\<close> recovers the root from the leaf, this branch and the position.
\<close>

theorem merkle_matches_reference:
  assumes L: "leaves \<noteq> []" "length leaves \<le> 2 ^ 31"
  shows "\<exists>root old. ComputeMerkleRoot junk leaves = Some (root, dup (merkle_node junk) leaves) \<and>
    BlockBuildMerkleTree (merkle_node junk) (base_uint_zero 8) leaves False = (root, old) \<and>
    (old \<longrightarrow> dup (merkle_node junk) leaves \<or> (\<exists>a b c d. (a, b) \<in> nodes (merkle_node junk) leaves \<and> (c, d) \<in> nodes (merkle_node junk) leaves \<and>
       (a, b) \<noteq> (c, d) \<and> merkle_node junk a b = merkle_node junk c d)) \<and>
    (unat position < length leaves \<longrightarrow> (\<exists>branch. ComputeMerkleBranch junk leaves position = Some branch \<and>
       branch = tree_branch (merkle_node junk) leaves (unat position) \<and>
       ComputeMerkleRootFromBranch junk (leaves ! unat position) branch position = root))"
proof -
  let ?H = "merkle_node junk"
  have root: "ComputeMerkleRoot junk leaves = Some (tree_root ?H (base_uint_zero 8) leaves, dup ?H leaves)"
    using MerkleComputation_reference [OF L, of ?H "base_uint_zero 8" "- 1" None] by (auto simp: ComputeMerkleRoot_def)
  have branch: "ComputeMerkleBranch junk leaves position = Some (tree_branch ?H leaves (unat position))" if "unat position < length leaves"
    using that MerkleComputation_reference [OF L, of ?H "base_uint_zero 8" position "Some []"] by (auto simp: ComputeMerkleBranch_def)
  obtain old where old: "BlockBuildMerkleTree ?H (base_uint_zero 8) leaves False = (tree_root ?H (base_uint_zero 8) leaves, old)"
    "old \<longrightarrow> dup ?H leaves \<or> collision ?H (nodes ?H leaves)" using reference_flag [of ?H "base_uint_zero 8" leaves] by (elim exE conjE)
  have flag: "old \<longrightarrow> dup ?H leaves \<or> (\<exists>a b c d. (a, b) \<in> nodes ?H leaves \<and> (c, d) \<in> nodes ?H leaves \<and> (a, b) \<noteq> (c, d) \<and> ?H a b = ?H c d)"
    using old(2) collision_explicit [of ?H "nodes ?H leaves"] by metis
  have "ComputeMerkleRootFromBranch junk (leaves ! unat position) (tree_branch ?H leaves (unat position)) position = tree_root ?H (base_uint_zero 8) leaves"
    if "unat position < length leaves"
    using root_from_branch_reference [OF that refl, of ?H "base_uint_zero 8"] by (simp add: ComputeMerkleRootFromBranch_def)
  with branch have "unat position < length leaves \<longrightarrow> (\<exists>branch. ComputeMerkleBranch junk leaves position = Some branch \<and>
      branch = tree_branch ?H leaves (unat position) \<and>
      ComputeMerkleRootFromBranch junk (leaves ! unat position) branch position = tree_root ?H (base_uint_zero 8) leaves)" by simp
  with root old(1) flag show ?thesis by (intro exI conjI)
qed

theorem merkle_matches_reference_witness:
  "ComputeMerkleRoot [] [[1], [2], [3]] = Some (merkle_node [] (merkle_node [] [1] [2]) (merkle_node [] [3] [3]), False) \<and>
   fst (BlockBuildMerkleTree (merkle_node []) (base_uint_zero 8) [[1], [2], [3]] False) = merkle_node [] (merkle_node [] [1] [2]) (merkle_node [] [3] [3]) \<and>
   ComputeMerkleBranch [] [[1], [2], [3]] 2 = Some [[3], merkle_node [] [1] [2]] \<and>
   ComputeMerkleRootFromBranch [] [3] [[3], merkle_node [] [1] [2]] 2 = merkle_node [] (merkle_node [] [1] [2]) (merkle_node [] [3] [3])"
proof -
  have e: "lev (merkle_node []) k [] = []" for k by (induction k) simp_all
  have "\<not> has_pair (lev (merkle_node []) k [[1], [2], [3]])" for k
  proof (cases k)
    case (Suc j)
    then show ?thesis by (cases j) (simp_all add: funpow_swap1 e)
  qed simp
  then have "\<not> dup (merkle_node []) [[1], [2], [3]]" by (simp add: dup_def)
  then show ?thesis using merkle_matches_reference [of "[[1], [2], [3]]" "[]" 2]
    by (simp add: BlockBuildMerkleTree.simps tree_branch.simps)
qed

lemma ComputeMerkleRoot_commits:
  assumes "ComputeMerkleRoot junk xs = Some (root, False)" "ComputeMerkleRoot junk ys = Some (root, False)"
    and "xs \<noteq> []" "ys \<noteq> []" "length xs \<le> 2 ^ 31" "length ys \<le> 2 ^ 31" and "depth (length xs) = depth (length ys)"
  shows "xs = ys \<or> collision (merkle_node junk) (nodes (merkle_node junk) xs \<union> nodes (merkle_node junk) ys)"
proof (cases "collision (merkle_node junk) (nodes (merkle_node junk) xs \<union> nodes (merkle_node junk) ys)")
  case False
  have "tree_root (merkle_node junk) (base_uint_zero 8) zs = root" "\<not> dup (merkle_node junk) zs"
    if "ComputeMerkleRoot junk zs = Some (root, False)" "zs \<noteq> []" "length zs \<le> 2 ^ 31" for zs
    using that MerkleComputation_reference [OF that(2,3), of "merkle_node junk" "base_uint_zero 8" "- 1" None]
    by (auto simp: ComputeMerkleRoot_def)
  then show ?thesis using root_commits [OF _ assms(3,4,7) False] assms by metis
qed simp

text \<open>
  C9. The root of an unmutated tree commits to its leaves.  If \<open>ComputeMerkleRoot\<close> returns the same root for two
  lists of leaves with trees of the same height and flags neither of them as mutated, then the lists are
  equal, or the pairs of hashes that are combined in the two trees contain an explicit collision of the double
  SHA-256 hash.  In particular the duplications described in the source cannot be used to change the leaves
  without the flag.
\<close>

theorem merkle_root_commits:
  assumes "ComputeMerkleRoot junk xs = Some (root, False)" "ComputeMerkleRoot junk ys = Some (root, False)"
    and "xs \<noteq> []" "ys \<noteq> []" "length xs \<le> 2 ^ 31" "length ys \<le> 2 ^ 31" and "depth (length xs) = depth (length ys)"
  shows "xs = ys \<or> (\<exists>a b c d. (a, b) \<in> nodes (merkle_node junk) xs \<union> nodes (merkle_node junk) ys \<and>
    (c, d) \<in> nodes (merkle_node junk) xs \<union> nodes (merkle_node junk) ys \<and> (a, b) \<noteq> (c, d) \<and> merkle_node junk a b = merkle_node junk c d)"
  using ComputeMerkleRoot_commits [OF assms] by (simp only: collision_explicit)

text \<open>
  Two different lists with the same root and no flag, so the second case.  Leaves of one and of two limbs take the place of a
  collision of the hash: both lists hash the same three limbs.
\<close>

theorem merkle_root_commits_witness:
  "ComputeMerkleRoot (replicate 64 0) [[1, 2], [3]] = Some (merkle_node (replicate 64 0) [1, 2] [3], False) \<and>
   ComputeMerkleRoot (replicate 64 0) [[1], [2, 3]] = Some (merkle_node (replicate 64 0) [1, 2] [3], False) \<and>
   (\<exists>a b c d. (a, b) \<in> nodes (merkle_node (replicate 64 0)) [[1, 2], [3]] \<union> nodes (merkle_node (replicate 64 0)) [[1], [2, 3]] \<and>
     (c, d) \<in> nodes (merkle_node (replicate 64 0)) [[1, 2], [3]] \<union> nodes (merkle_node (replicate 64 0)) [[1], [2, 3]] \<and>
     (a, b) \<noteq> (c, d) \<and> merkle_node (replicate 64 0) a b = merkle_node (replicate 64 0) c d)"
proof -
  have h: "merkle_node (replicate 64 0) [1] [2, 3] = merkle_node (replicate 64 0) [1, 2] [3]"
    by (simp add: merkle_node_def double_hash_correct Serialize_uint256_def uint_bytes_def)
  have "ComputeMerkleRoot j [a, b] = Some (merkle_node j a b, False)" if "a \<noteq> b" for j a b
    using that by (simp add: ComputeMerkleRoot_def MerkleComputation_def merkle_top.simps climb.simps lowest_level.simps push_branch_def numeral_eq_Suc)
  then have r: "ComputeMerkleRoot (replicate 64 0) [[1, 2], [3]] = Some (merkle_node (replicate 64 0) [1, 2] [3], False)"
    "ComputeMerkleRoot (replicate 64 0) [[1], [2, 3]] = Some (merkle_node (replicate 64 0) [1, 2] [3], False)"
    using h by simp_all
  from merkle_root_commits [OF r] r show ?thesis by auto
qed

end
