(* ===== verification/MerkleBlock.thy ===== *)
theory MerkleBlock
  imports Merkle TxVerify
begin

unbundle bit_operations_syntax

text \<open>
  Partial Merkle trees (\<open>CPartialMerkleTree\<close> of \<open>src/src/merkleblock.h/.cpp\<close>): a subset of the transactions of a
  block together with the hashes that are needed to recompute the Merkle root.  Heights are natural numbers,
  positions and the number of transactions are 32-bit words as in the source.  The shift \<open>1 << height\<close> of the
  height loop is undefined from height 31 on, which is \<open>None\<close> here.
\<close>

section \<open>Partial Merkle trees\<close>

record CPartialMerkleTree =
  nTransactions :: u32
  vBits :: "bool list"
  vHash :: "uint256 list"
  fBad :: bool

definition CalcTreeWidth :: "u32 \<Rightarrow> nat \<Rightarrow> u32" where
  "CalcTreeWidth n height = drop_bit height (n + push_bit height 1 - 1)"

fun CalcHash :: "byte list \<Rightarrow> u32 \<Rightarrow> nat \<Rightarrow> u32 \<Rightarrow> uint256 list \<Rightarrow> uint256" where
  "CalcHash junk n 0 pos vTxid = vTxid ! unat pos"
| "CalcHash junk n (Suc height) pos vTxid =
     (let left = CalcHash junk n height (pos * 2) vTxid;
          right = (if pos * 2 + 1 < CalcTreeWidth n height then CalcHash junk n height (pos * 2 + 1) vTxid else left)
      in merkle_node junk left right)"

text \<open>Whether a node is the parent of a matched transaction.\<close>

definition parent_of_match :: "u32 \<Rightarrow> nat \<Rightarrow> u32 \<Rightarrow> bool list \<Rightarrow> bool" where
  "parent_of_match n height pos vMatch =
     list_ex (\<lambda>p. vMatch ! p) [unat (push_bit height pos)..<min (unat (push_bit height (pos + 1))) (unat n)]"

fun TraverseAndBuild :: "byte list \<Rightarrow> nat \<Rightarrow> u32 \<Rightarrow> uint256 list \<Rightarrow> bool list \<Rightarrow> CPartialMerkleTree \<Rightarrow> CPartialMerkleTree" where
  "TraverseAndBuild junk 0 pos vTxid vMatch t =
     t\<lparr>vBits := vBits t @ [parent_of_match (nTransactions t) 0 pos vMatch],
       vHash := vHash t @ [CalcHash junk (nTransactions t) 0 pos vTxid]\<rparr>"
| "TraverseAndBuild junk (Suc height) pos vTxid vMatch t =
     (let fParentOfMatch = parent_of_match (nTransactions t) (Suc height) pos vMatch;
          t = t\<lparr>vBits := vBits t @ [fParentOfMatch]\<rparr>
      in if \<not> fParentOfMatch then t\<lparr>vHash := vHash t @ [CalcHash junk (nTransactions t) (Suc height) pos vTxid]\<rparr>
         else let t1 = TraverseAndBuild junk height (pos * 2) vTxid vMatch t
              in if pos * 2 + 1 < CalcTreeWidth (nTransactions t1) height
                 then TraverseAndBuild junk height (pos * 2 + 1) vTxid vMatch t1 else t1)"

text \<open>The counters, the matches and the flag that an extraction changes.\<close>

record extract_state =
  nBitsUsed :: nat
  nHashUsed :: nat
  matches :: "uint256 list"
  bad :: bool

definition extract_hash :: "CPartialMerkleTree \<Rightarrow> bool \<Rightarrow> extract_state \<Rightarrow> uint256 \<times> extract_state" where
  "extract_hash t leaf_match st =
     (if nHashUsed st \<ge> length (vHash t) then (base_uint_zero 8, st\<lparr>bad := True\<rparr>)
      else let hash = vHash t ! nHashUsed st
           in (hash, st\<lparr>nHashUsed := nHashUsed st + 1, matches := (if leaf_match then matches st @ [hash] else matches st)\<rparr>))"

fun TraverseAndExtract :: "byte list \<Rightarrow> CPartialMerkleTree \<Rightarrow> nat \<Rightarrow> u32 \<Rightarrow> extract_state \<Rightarrow> uint256 \<times> extract_state" where
  "TraverseAndExtract junk t 0 pos st =
     (if nBitsUsed st \<ge> length (vBits t) then (base_uint_zero 8, st\<lparr>bad := True\<rparr>)
      else extract_hash t (vBits t ! nBitsUsed st) (st\<lparr>nBitsUsed := nBitsUsed st + 1\<rparr>))"
| "TraverseAndExtract junk t (Suc height) pos st =
     (if nBitsUsed st \<ge> length (vBits t) then (base_uint_zero 8, st\<lparr>bad := True\<rparr>)
      else if \<not> vBits t ! nBitsUsed st then extract_hash t False (st\<lparr>nBitsUsed := nBitsUsed st + 1\<rparr>)
      else let (left, st1) = TraverseAndExtract junk t height (pos * 2) (st\<lparr>nBitsUsed := nBitsUsed st + 1\<rparr>);
               (right, st2) = (if pos * 2 + 1 < CalcTreeWidth (nTransactions t) height
                               then TraverseAndExtract junk t height (pos * 2 + 1) st1 else (left, st1))
           in (merkle_node junk left right, st2))"

function tree_height :: "u32 \<Rightarrow> nat \<Rightarrow> nat option" where
  "tree_height n nHeight = (if nHeight \<ge> 31 then None
     else if CalcTreeWidth n nHeight > 1 then tree_height n (Suc nHeight) else Some nHeight)"
  by pat_completeness auto
termination
  by (relation "measure (\<lambda>(n, nHeight). 31 - nHeight)") auto

declare tree_height.simps [simp del]

definition CPartialMerkleTree_new :: "byte list \<Rightarrow> uint256 list \<Rightarrow> bool list \<Rightarrow> CPartialMerkleTree option" where
  "CPartialMerkleTree_new junk vTxid vMatch =
     (let t = \<lparr>nTransactions = of_nat (length vTxid), vBits = [], vHash = [], fBad = False\<rparr>
      in map_option (\<lambda>nHeight. TraverseAndBuild junk nHeight 0 vTxid vMatch t) (tree_height (nTransactions t) 0))"

definition CPartialMerkleTree_empty :: CPartialMerkleTree where
  "CPartialMerkleTree_empty = \<lparr>nTransactions = 0, vBits = [], vHash = [], fBad = True\<rparr>"

text \<open>The root (zero for a failure), the matches and the tree with its flag.\<close>

definition ExtractMatches :: "byte list \<Rightarrow> CPartialMerkleTree \<Rightarrow> (uint256 \<times> uint256 list \<times> CPartialMerkleTree) option" where
  "ExtractMatches junk t =
     (if nTransactions t = 0 then Some (base_uint_zero 8, [], t)
      else if unat (nTransactions t) > MAX_BLOCK_SIZE_CURRENT div 60 then Some (base_uint_zero 8, [], t)
      else if length (vHash t) > unat (nTransactions t) then Some (base_uint_zero 8, [], t)
      else if length (vBits t) < length (vHash t) then Some (base_uint_zero 8, [], t)
      else case tree_height (nTransactions t) 0 of
          None \<Rightarrow> None
        | Some nHeight \<Rightarrow>
            let (hashMerkleRoot, st) = TraverseAndExtract junk t nHeight 0 \<lparr>nBitsUsed = 0, nHashUsed = 0, matches = [], bad = fBad t\<rparr>;
                t' = t\<lparr>fBad := bad st\<rparr>
            in Some (if bad st then base_uint_zero 8
                     else if (nBitsUsed st + 7) div 8 \<noteq> (length (vBits t) + 7) div 8 then base_uint_zero 8
                     else if nHashUsed st \<noteq> length (vHash t) then base_uint_zero 8
                     else hashMerkleRoot, matches st, t'))"

definition pack_bits :: "bool list \<Rightarrow> byte list" where
  "pack_bits bits = foldl (\<lambda>vBytes p. vBytes[p div 8 := vBytes ! (p div 8) OR push_bit (p mod 8) (of_bool (bits ! p))])
     (replicate ((length bits + 7) div 8) 0) [0..<length bits]"

definition unpack_bits :: "byte list \<Rightarrow> bool list" where
  "unpack_bits vBytes = map (\<lambda>p. vBytes ! (p div 8) AND push_bit (p mod 8) 1 \<noteq> 0) [0..<length vBytes * 8]"

definition Serialize_pmt :: "CPartialMerkleTree \<Rightarrow> byte list" where
  "Serialize_pmt t = ser_writedata32 (nTransactions t) @ Serialize_vector Serialize_uint256 (vHash t) @ Serialize_bytes (pack_bits (vBits t))"

definition Unserialize_pmt :: "CPartialMerkleTree reader" where
  "Unserialize_pmt = rbind ser_readdata32 (\<lambda>n. rbind (Unserialize_vector Unserialize_uint256 156249) (\<lambda>hashes.
     rbind Unserialize_bytes (\<lambda>vBytes. rreturn \<lparr>nTransactions = n, vBits = unpack_bits vBytes, vHash = hashes, fBad = False\<rparr>)))"

section \<open>Packed bits\<close>

lemma pack_bits_upto:
  "q \<le> length bits \<Longrightarrow>
   (let v = foldl (\<lambda>vBytes p. vBytes[p div 8 := vBytes ! (p div 8) OR push_bit (p mod 8) (of_bool (bits ! p))])
     (replicate ((length bits + 7) div 8) (0 :: byte)) [0..<q]
    in length v = (length bits + 7) div 8 \<and> (\<forall>p < length v * 8. bit (v ! (p div 8)) (p mod 8) \<longleftrightarrow> p < q \<and> bits ! p))"
proof (induction q)
  case 0
  have "p div 8 < n" if "p < n * 8" for p n :: nat using that by simp
  then show ?case by (simp add: Let_def)
next
  case (Suc q)
  let ?f = "\<lambda>vBytes p. vBytes[p div 8 := vBytes ! (p div 8) OR push_bit (p mod 8) (of_bool (bits ! p))]"
  define v :: "byte list" where "v = foldl ?f (replicate ((length bits + 7) div 8) 0) [0..<q]"
  have v: "length v = (length bits + 7) div 8" "\<And>p. p < length v * 8 \<Longrightarrow> bit (v ! (p div 8)) (p mod 8) \<longleftrightarrow> p < q \<and> bits ! p"
    using Suc by (simp_all add: Let_def v_def)
  have q: "q div 8 < length v" using Suc.prems v(1) by auto
  have "bit (?f v q ! (p div 8)) (p mod 8) \<longleftrightarrow> p < Suc q \<and> bits ! p" if p: "p < length v * 8" for p
  proof (cases "p div 8 = q div 8")
    case True
    have "p = q \<longleftrightarrow> p mod 8 = q mod 8" using True by (metis div_mult_mod_eq)
    then show ?thesis using v(2) [OF p] True q p by (auto simp: bit_or_iff bit_push_bit_iff bit_of_bool_iff less_Suc_eq)
  next
    case False
    then have "p \<noteq> q" by auto
    then show ?thesis using v(2) [OF p] False by (auto simp: less_Suc_eq)
  qed
  then show ?case using v(1) by (simp add: Let_def flip: v_def)
qed

lemma unpack_pack: "\<exists>pad. unpack_bits (pack_bits bits) = bits @ pad \<and> (length (bits @ pad) + 7) div 8 = (length bits + 7) div 8"
proof -
  have l: "length (pack_bits bits) = (length bits + 7) div 8"
    and b: "\<And>p. p < length (pack_bits bits) * 8 \<Longrightarrow> bit (pack_bits bits ! (p div 8)) (p mod 8) \<longleftrightarrow> p < length bits \<and> bits ! p"
    using pack_bits_upto [of "length bits" bits] by (simp_all add: Let_def pack_bits_def)
  have n: "length bits \<le> length (pack_bits bits) * 8" using l by simp
  have "unpack_bits (pack_bits bits) ! p = bits ! p" if "p < length bits" for p
    using that n b [of p] by (simp add: unpack_bits_def and_exp_eq_0_iff_not_bit)
  then have "take (length bits) (unpack_bits (pack_bits bits)) = bits"
    using n by (intro nth_equalityI) (simp_all add: unpack_bits_def)
  then have "unpack_bits (pack_bits bits) = bits @ drop (length bits) (unpack_bits (pack_bits bits))" by (metis append_take_drop_id)
  moreover have "length (unpack_bits (pack_bits bits)) = (length bits + 7) div 8 * 8" using l by (simp add: unpack_bits_def)
  ultimately show ?thesis by (intro exI [of _ "drop (length bits) (unpack_bits (pack_bits bits))"]) simp
qed

section \<open>The tree of a block\<close>

text \<open>
  For a list \<open>L\<close> of transaction hashes: the leaves below a node, the bits and the hashes that a traversal stores.
\<close>

abbreviation below :: "nat \<Rightarrow> nat \<Rightarrow> nat \<Rightarrow> nat list" where
  "below n h i \<equiv> [i * 2 ^ h..<min ((i + 1) * 2 ^ h) n]"

fun node_bits :: "nat \<Rightarrow> bool list \<Rightarrow> nat \<Rightarrow> nat \<Rightarrow> bool list" where
  "node_bits n M 0 i = [list_ex (\<lambda>p. M ! p) (below n 0 i)]"
| "node_bits n M (Suc h) i = (if \<not> list_ex (\<lambda>p. M ! p) (below n (Suc h) i) then [False]
     else True # node_bits n M h (2 * i) @ (if (2 * i + 1) * 2 ^ h < n then node_bits n M h (2 * i + 1) else []))"

fun node_hashes :: "('a \<Rightarrow> 'a \<Rightarrow> 'a) \<Rightarrow> 'a list \<Rightarrow> bool list \<Rightarrow> nat \<Rightarrow> nat \<Rightarrow> 'a list" where
  "node_hashes H L M 0 i = [L ! i]"
| "node_hashes H L M (Suc h) i = (if \<not> list_ex (\<lambda>p. M ! p) (below (length L) (Suc h) i) then [up H (Suc h) L ! i]
     else node_hashes H L M h (2 * i) @ (if (2 * i + 1) * 2 ^ h < length L then node_hashes H L M h (2 * i + 1) else []))"

definition node_matches :: "'a list \<Rightarrow> bool list \<Rightarrow> nat \<Rightarrow> nat \<Rightarrow> 'a list" where
  "node_matches L M h i = map (\<lambda>p. L ! p) (filter (\<lambda>p. M ! p) (below (length L) h i))"

lemma length_up: "xs \<noteq> [] \<Longrightarrow> length (up H k xs) = (length xs + 2 ^ k - 1) div 2 ^ k"
proof (induction k)
  case (Suc k)
  have "length (up H (Suc k) xs) = ((length xs + 2 ^ k - 1) div 2 ^ k + 1) div 2" using Suc by simp
  also have "(length xs + 2 ^ k - 1) div 2 ^ k + 1 = (length xs + 2 ^ k - 1 + 2 ^ k) div 2 ^ k" by (simp add: div_add_self2)
  also have "length xs + 2 ^ k - 1 + 2 ^ k = length xs + 2 ^ Suc k - 1" using Suc.prems by (cases xs) simp_all
  finally show ?case by (simp only: power_Suc2 div_mult2_eq)
qed simp

lemma less_width: "xs \<noteq> [] \<Longrightarrow> i < length (up H k xs) \<longleftrightarrow> i * 2 ^ k < length xs"
proof -
  assume "xs \<noteq> []"
  then obtain m where m: "length xs = Suc m" by (cases xs) auto
  have "length (up H k xs) = m div 2 ^ k + 1" using length_up [OF \<open>xs \<noteq> []\<close>, of k H] by (simp add: m div_add_self2)
  then show ?thesis by (simp add: m less_Suc_eq_le less_eq_div_iff_mult_less_eq)
qed

lemma below_split: "below n (Suc h) i = below n h (2 * i) @ below n h (2 * i + 1)"
proof -
  have e: "i * 2 ^ Suc h = 2 * i * 2 ^ h" "(i + 1) * 2 ^ Suc h = (2 * i + 1 + 1) * 2 ^ h" by (simp_all add: algebra_simps)
  let ?m = "(2 * i + 1) * 2 ^ h"
  have m: "2 * i * 2 ^ h \<le> ?m" "?m \<le> (2 * i + 1 + 1) * 2 ^ h" by simp_all
  show ?thesis
  proof (cases "?m \<le> n")
    case True
    then show ?thesis unfolding e using m upt_add_eq_append [of "2 * i * 2 ^ h" ?m "min ((2 * i + 1 + 1) * 2 ^ h) n - ?m"] by (simp add: min_def)
  next
    case False
    then show ?thesis unfolding e using m by (simp add: min_def)
  qed
qed

text \<open>The words of the source.\<close>

lemma unat_width:
  assumes "L \<noteq> []" "length L < 2 ^ 30" "h \<le> 30"
  shows "unat (CalcTreeWidth (of_nat (length L)) h) = length (up H h L)"
proof -
  have "2 ^ h \<le> (2 ^ 30 :: nat)" using assms(3) by (intro power_increasing) simp_all
  then have p: "unat (push_bit h 1 :: u32) = 2 ^ h" using unat_push_bit_u32 [of h 1] by simp
  have "unat (of_nat (length L) :: u32) = length L" using assms(2) by (simp add: unat_of_nat)
  then have "unat (of_nat (length L) + push_bit h 1 :: u32) = length L + 2 ^ h"
    using p assms(2) \<open>2 ^ h \<le> 2 ^ 30\<close> by (simp add: unat_word_ariths)
  moreover have "unat (x - 1) = unat x - 1" if "x \<noteq> 0" for x :: u32 using that by (simp add: unat_minus_one)
  ultimately have "unat (of_nat (length L) + push_bit h 1 - 1 :: u32) = length L + 2 ^ h - 1" by (metis add_is_0 length_0_conv assms(1) unat_0)
  then show ?thesis using length_up [OF assms(1), of h H] by (simp add: CalcTreeWidth_def unat_drop_bit_u32)
qed

lemma position_words:
  assumes "length L < 2 ^ 30" "h \<le> 30" "unat pos = i" "i * 2 ^ h < length L"
  shows "unat (push_bit h pos :: u32) = i * 2 ^ h" and "unat (push_bit h (pos + 1) :: u32) = (i + 1) * 2 ^ h"
proof -
  have "2 ^ h \<le> (2 ^ 30 :: nat)" using assms(2) by (intro power_increasing) simp_all
  then have b: "i * 2 ^ h + 2 ^ h < 2 ^ 32" using assms(1,4) by simp
  have "i \<le> i * 2 ^ h" by simp
  then have "i < 2 ^ 30" using assms(1,4) by linarith
  then have "unat (pos + 1) = i + 1" using assms(3) by (simp add: unat_word_ariths)
  then show "unat (push_bit h pos :: u32) = i * 2 ^ h" "unat (push_bit h (pos + 1) :: u32) = (i + 1) * 2 ^ h"
    using b assms(3) by (simp_all add: unat_push_bit_u32)
qed

lemma child_words:
  assumes "unat (pos :: u32) = i" "i < 2 ^ 30"
  shows "unat (pos * 2) = 2 * i" and "unat (pos * 2 + 1) = 2 * i + 1"
  using assms by (simp_all add: unat_word_ariths)

lemma right_child:
  assumes "L \<noteq> []" "length L < 2 ^ 30" "h \<le> 30" "unat (pos :: u32) = i" "i < 2 ^ 30"
  shows "pos * 2 + 1 < CalcTreeWidth (of_nat (length L)) h \<longleftrightarrow> (2 * i + 1) * 2 ^ h < length L"
  using less_width [OF assms(1), of "2 * i + 1" h] unat_width [OF assms(1-3)] child_words [OF assms(4,5)]
  by (simp add: word_less_nat_alt)

lemma up_children:
  assumes L: "L \<noteq> []" and i: "i * 2 ^ Suc h < length L"
  shows "up H (Suc h) L ! i = H (up H h L ! (2 * i)) (if (2 * i + 1) * 2 ^ h < length L then up H h L ! (2 * i + 1) else up H h L ! (2 * i))"
proof -
  have w: "i < length (up H (Suc h) L)" using L i less_width by blast
  have "2 * i * 2 ^ h < length L" using i by (simp add: mult.assoc mult.left_commute)
  then have l: "2 * i < length (up H h L)" using less_width [OF L] by blast
  have m: "2 * i + 1 < length (up H h L) \<longleftrightarrow> (2 * i + 1) * 2 ^ h < length L" using less_width [OF L] by blast
  have "up H (Suc h) L ! i = H (up H h L ! (2 * i)) (up H h L ! min (2 * i + 1) (length (up H h L) - 1))"
    using pair_up_nth [of i "up H h L" H] w by simp
  also have "min (2 * i + 1) (length (up H h L) - 1) = (if (2 * i + 1) * 2 ^ h < length L then 2 * i + 1 else 2 * i)"
    using l by (simp only: m [symmetric]) auto
  finally show ?thesis by simp
qed

lemma CalcHash_up:
  "L \<noteq> [] \<Longrightarrow> length L < 2 ^ 30 \<Longrightarrow> h \<le> 30 \<Longrightarrow> unat pos = i \<Longrightarrow> i * 2 ^ h < length L \<Longrightarrow>
   CalcHash junk (of_nat (length L)) h pos L = up (merkle_node junk) h L ! i"
proof (induction h arbitrary: pos i)
  case (Suc h)
  let ?H = "merkle_node junk"
  have le: "2 * i * 2 ^ h < length L" using Suc.prems(5) by (simp add: mult.assoc mult.left_commute)
  have "i \<le> i * 2 ^ Suc h" by simp
  then have i30: "i < 2 ^ 30" using Suc.prems(2,5) by linarith
  note c = child_words [OF Suc.prems(4) i30]
  note r = right_child [OF Suc.prems(1,2) _ Suc.prems(4) i30, of h]
  have left: "CalcHash junk (of_nat (length L)) h (pos * 2) L = up ?H h L ! (2 * i)"
    using Suc.IH [OF Suc.prems(1,2) _ c(1) le] Suc.prems(3) by simp
  have "CalcHash junk (of_nat (length L)) h (pos * 2 + 1) L = up ?H h L ! (2 * i + 1)" if "(2 * i + 1) * 2 ^ h < length L"
    using Suc.IH [OF Suc.prems(1,2) _ c(2) that] Suc.prems(3) by simp
  then show ?case using left up_children [OF Suc.prems(1,5), of ?H] r Suc.prems(3) by (simp add: Let_def del: funpow.simps)
qed simp

lemma parent_of_match_below:
  assumes "length L < 2 ^ 30" "h \<le> 30" "unat pos = i" "i * 2 ^ h < length L"
  shows "parent_of_match (of_nat (length L)) h pos M = list_ex (\<lambda>p. M ! p) (below (length L) h i)"
  using position_words [OF assms] assms(1) by (simp add: parent_of_match_def unat_of_nat)

lemma build_tree:
  "L \<noteq> [] \<Longrightarrow> length L < 2 ^ 30 \<Longrightarrow> h \<le> 30 \<Longrightarrow> unat pos = i \<Longrightarrow> i * 2 ^ h < length L \<Longrightarrow> nTransactions t = of_nat (length L) \<Longrightarrow>
   TraverseAndBuild junk h pos L M t =
     t\<lparr>vBits := vBits t @ node_bits (length L) M h i, vHash := vHash t @ node_hashes (merkle_node junk) L M h i\<rparr>"
proof (induction h arbitrary: pos i t)
  case 0
  then show ?case using parent_of_match_below [of L 0 pos i M] by simp
next
  case (Suc h)
  have le: "2 * i * 2 ^ h < length L" using Suc.prems(5) by (simp add: mult.assoc mult.left_commute)
  have "i \<le> i * 2 ^ Suc h" by simp
  then have i30: "i < 2 ^ 30" using Suc.prems(2,5) by linarith
  have h: "h \<le> 30" using Suc.prems(3) by simp
  note c = child_words [OF Suc.prems(4) i30]
  note r = right_child [OF Suc.prems(1,2) h Suc.prems(4) i30]
  note left = Suc.IH [OF Suc.prems(1,2) h c(1) le] and right = Suc.IH [OF Suc.prems(1,2) h c(2)]
  show ?case
    using parent_of_match_below [OF Suc.prems(2-5), of M] CalcHash_up [OF Suc.prems(1-5), of junk] Suc.prems(6) left right r
    by (simp add: Let_def del: CalcHash.simps funpow.simps)
qed

section \<open>Extraction\<close>

text \<open>A state that has read \<open>b\<close> bits and \<open>k\<close> hashes more and found the matches \<open>ms\<close>.\<close>

abbreviation advance :: "nat \<Rightarrow> nat \<Rightarrow> uint256 list \<Rightarrow> extract_state \<Rightarrow> extract_state" where
  "advance b k ms st \<equiv> st\<lparr>nBitsUsed := nBitsUsed st + b, nHashUsed := nHashUsed st + k, matches := matches st @ ms\<rparr>"

definition reads :: "'a list \<Rightarrow> nat \<Rightarrow> 'a list \<Rightarrow> bool" where
  "reads all pos xs \<longleftrightarrow> pos + length xs \<le> length all \<and> (\<forall>j<length xs. all ! (pos + j) = xs ! j)"

lemma reads_Cons: "reads all pos (x # xs) \<longleftrightarrow> pos < length all \<and> all ! pos = x \<and> reads all (Suc pos) xs"
  unfolding reads_def by (auto simp: nth_Cons less_Suc_eq_0_disj split: nat.splits)

lemma reads_append: "reads all pos (xs @ ys) \<longleftrightarrow> reads all pos xs \<and> reads all (pos + length xs) ys"
proof (induction xs arbitrary: pos)
  case Nil
  show ?case by (auto simp: reads_def)
qed (simp add: reads_Cons)

lemma below_leaf: "i < n \<Longrightarrow> below n 0 i = [i]"
  by (simp add: min_def upt_rec)

lemma no_match: "\<not> list_ex (\<lambda>p. M ! p) (below (length L) h i) \<Longrightarrow> node_matches L M h i = []"
  by (simp add: node_matches_def list_ex_iff filter_empty_conv)

lemma node_matches_split: "node_matches L M (Suc h) i = node_matches L M h (2 * i) @ node_matches L M h (2 * i + 1)"
  by (simp only: node_matches_def below_split filter_append map_append)

lemma node_matches_beyond: "\<not> i * 2 ^ h < length L \<Longrightarrow> node_matches L M h i = []"
  by (simp add: node_matches_def not_less min.coboundedI2)

lemma extract_tree:
  "L \<noteq> [] \<Longrightarrow> length L < 2 ^ 30 \<Longrightarrow> h \<le> 30 \<Longrightarrow> unat pos = i \<Longrightarrow> i * 2 ^ h < length L \<Longrightarrow> nTransactions t = of_nat (length L) \<Longrightarrow>
   reads (vBits t) (nBitsUsed st) (node_bits (length L) M h i) \<Longrightarrow> reads (vHash t) (nHashUsed st) (node_hashes (merkle_node junk) L M h i) \<Longrightarrow>
   TraverseAndExtract junk t h pos st = (up (merkle_node junk) h L ! i,
     advance (length (node_bits (length L) M h i)) (length (node_hashes (merkle_node junk) L M h i)) (node_matches L M h i) st)"
proof (induction h arbitrary: pos i st)
  case 0
  then show ?case
    by (auto simp: reads_Cons extract_hash_def Let_def below_leaf node_matches_def)
next
  case (Suc h)
  let ?H = "merkle_node junk"
  have le: "2 * i * 2 ^ h < length L" using Suc.prems(5) by (simp add: mult.assoc mult.left_commute)
  have "i \<le> i * 2 ^ Suc h" by simp
  then have i30: "i < 2 ^ 30" using Suc.prems(2,5) by linarith
  have h: "h \<le> 30" using Suc.prems(3) by simp
  note c = child_words [OF Suc.prems(4) i30]
  note r = right_child [OF Suc.prems(1,2) h Suc.prems(4) i30]
  show ?case
  proof (cases "list_ex (\<lambda>p. M ! p) (below (length L) (Suc h) i)")
    case False
    then show ?thesis using Suc.prems(7,8) no_match [OF False] by (simp add: reads_Cons extract_hash_def Let_def del: funpow.simps)
  next
    case True
    let ?A = "node_bits (length L) M h (2 * i)" and ?B = "node_bits (length L) M h (2 * i + 1)"
      and ?X = "node_hashes ?H L M h (2 * i)" and ?Y = "node_hashes ?H L M h (2 * i + 1)" and ?more = "(2 * i + 1) * 2 ^ h < length L"
    let ?st1 = "advance (length ?A) (length ?X) (node_matches L M h (2 * i)) (st\<lparr>nBitsUsed := nBitsUsed st + 1\<rparr>)"
    have b: "nBitsUsed st < length (vBits t)" "vBits t ! nBitsUsed st" "reads (vBits t) (nBitsUsed st + 1) ?A"
      "?more \<Longrightarrow> reads (vBits t) (nBitsUsed ?st1) ?B"
      using Suc.prems(7) True by (simp_all add: reads_Cons reads_append add.assoc add.commute)
    have x: "reads (vHash t) (nHashUsed st) ?X" "?more \<Longrightarrow> reads (vHash t) (nHashUsed ?st1) ?Y"
      using Suc.prems(8) True by (simp_all add: reads_append)
    have left: "TraverseAndExtract junk t h (pos * 2) (st\<lparr>nBitsUsed := nBitsUsed st + 1\<rparr>) = (up ?H h L ! (2 * i), ?st1)"
      using Suc.IH [OF Suc.prems(1,2) h c(1) le Suc.prems(6), of "st\<lparr>nBitsUsed := nBitsUsed st + 1\<rparr>"] b(3) x(1) by simp
    have right: "?more \<Longrightarrow> TraverseAndExtract junk t h (pos * 2 + 1) ?st1 =
        (up ?H h L ! (2 * i + 1), advance (length ?B) (length ?Y) (node_matches L M h (2 * i + 1)) ?st1)"
      using Suc.IH [OF Suc.prems(1,2) h c(2) _ Suc.prems(6), of ?st1] b(4) x(2) by simp
    show ?thesis
      using b(1,2) left right r True Suc.prems(6) up_children [OF Suc.prems(1,5), of ?H] node_matches_beyond [of "2 * i + 1" h L M]
      by (cases ?more) (simp_all add: node_matches_split Let_def del: funpow.simps)
  qed
qed

section \<open>Sizes\<close>

lemma depth_bound: "L \<noteq> [] \<Longrightarrow> length L < 2 ^ 30 \<Longrightarrow> depth (length L) \<le> 30"
proof (rule ccontr)
  assume L: "length L < 2 ^ 30" and d: "\<not> depth (length L) \<le> 30"
  define H :: "'a \<Rightarrow> 'a \<Rightarrow> 'a" where "H = (\<lambda>a b. a)"
  have "length (up H 30 L) > 1" using d by (intro up_below_depth) simp
  then show False using length_up_bound [of L 30 30 H] L by simp
qed

lemma tree_height_depth:
  assumes L: "L \<noteq> []" "length L < 2 ^ 30"
  shows "tree_height (of_nat (length L)) 0 = Some (depth (length L))"
proof -
  define H :: "'a \<Rightarrow> 'a \<Rightarrow> 'a" where "H = (\<lambda>a b. a)"
  have "tree_height (of_nat (length L)) h = Some (depth (length L))" if "h \<le> depth (length L)" for h
    using that
  proof (induction "depth (length L) - h" arbitrary: h)
    case 0
    then have "unat (CalcTreeWidth (of_nat (length L)) h) = 1"
      using unat_width [OF L, of h H] up_depth [OF L(1), of H] depth_bound [OF L] by simp
    then show ?case using 0 depth_bound [OF L] by (subst tree_height.simps) (simp add: word_less_nat_alt)
  next
    case (Suc k)
    then have "unat (CalcTreeWidth (of_nat (length L)) h) > 1"
      using unat_width [OF L, of h H] up_below_depth [of h L H] depth_bound [OF L] by simp
    moreover have "tree_height (of_nat (length L)) (Suc h) = Some (depth (length L))" using Suc by (intro Suc.hyps(1)) auto
    ultimately show ?case using Suc depth_bound [OF L] by (subst tree_height.simps) (simp add: word_less_nat_alt)
  qed
  then show ?thesis by simp
qed

lemma below_nonempty: "i * 2 ^ h < n \<Longrightarrow> length (below n h i) \<ge> 1"
  by (auto simp: min_def Suc_le_eq)

lemma node_sizes:
  "i * 2 ^ h < length L \<Longrightarrow> length (node_hashes H L M h i) \<le> length (below (length L) h i) \<and>
   length (node_hashes H L M h i) \<le> length (node_bits (length L) M h i) \<and>
   length (node_bits (length L) M h i) \<le> (h + 1) * length (below (length L) h i)"
proof (induction h arbitrary: i)
  case 0
  then show ?case by (simp add: below_leaf)
next
  case (Suc h)
  have le: "2 * i * 2 ^ h < length L" using Suc.prems by (simp add: mult.assoc mult.left_commute)
  define a where "a = length (below (length L) h (2 * i))"
  define b where "b = length (below (length L) h (2 * i + 1))"
  define x1 y1 x2 y2 where "x1 = length (node_hashes H L M h (2 * i))" and "y1 = length (node_bits (length L) M h (2 * i))"
    and "x2 = length (node_hashes H L M h (2 * i + 1))" and "y2 = length (node_bits (length L) M h (2 * i + 1))"
  note defs = a_def b_def x1_def y1_def x2_def y2_def
  let ?any = "list_ex (\<lambda>p. M ! p) (below (length L) (Suc h) i)" and ?more = "(2 * i + 1) * 2 ^ h < length L"
  have s: "length (below (length L) (Suc h) i) = a + b" by (simp only: below_split length_append defs)
  have x: "length (node_hashes H L M (Suc h) i) = (if \<not> ?any then 1 else x1 + (if ?more then x2 else 0))"
    "length (node_bits (length L) M (Suc h) i) = (if \<not> ?any then 1 else 1 + y1 + (if ?more then y2 else 0))"
    by (simp_all add: defs)
  have a: "a \<ge> 1" unfolding a_def by (rule below_nonempty [OF le])
  have l: "x1 \<le> a" "x1 \<le> y1" "y1 \<le> (h + 1) * a" using Suc.IH [OF le] unfolding defs by auto
  have r: "?more \<Longrightarrow> x2 \<le> b \<and> x2 \<le> y2 \<and> y2 \<le> (h + 1) * b" using Suc.IH [of "2 * i + 1"] unfolding defs by blast
  have m: "(Suc h + 1) * (a + b) = (h + 1) * a + (h + 1) * b + (a + b)" by (simp add: algebra_simps)
  show ?case unfolding s x m using l r a by (cases ?any; cases ?more) (simp_all only: if_True if_False not_True_eq_False not_False_eq_True, linarith+)
qed

lemma WIDTH_node [simp]: "WIDTH (merkle_node junk a b) = 8"
  by (simp add: merkle_node_def)

lemma WIDTH_pair_up: "list_all (\<lambda>x. WIDTH x = 8) xs \<Longrightarrow> list_all (\<lambda>x. WIDTH x = 8) (pair_up (merkle_node junk) xs)"
  by (induction "merkle_node junk" xs rule: pair_up.induct) simp_all

lemma WIDTH_up: "list_all (\<lambda>x. WIDTH x = 8) L \<Longrightarrow> list_all (\<lambda>x. WIDTH x = 8) (up (merkle_node junk) k L)"
  by (induction k) (simp_all add: WIDTH_pair_up)

lemma WIDTH_node_hashes:
  "list_all (\<lambda>x. WIDTH x = 8) L \<Longrightarrow> L \<noteq> [] \<Longrightarrow> i * 2 ^ h < length L \<Longrightarrow> list_all (\<lambda>x. WIDTH x = 8) (node_hashes (merkle_node junk) L M h i)"
proof (induction h arbitrary: i)
  case 0
  then show ?case by (simp add: list_all_length)
next
  case (Suc h)
  have "2 * i * 2 ^ h < length L" using Suc.prems(3) by (simp add: mult.assoc mult.left_commute)
  moreover have "i < length (up (merkle_node junk) (Suc h) L)" using less_width [OF Suc.prems(2)] Suc.prems(3) by blast
  then have "WIDTH (up (merkle_node junk) (Suc h) L ! i) = 8" using WIDTH_up [OF Suc.prems(1)] by (simp only: list_all_length)
  ultimately show ?case using Suc.IH Suc.prems(1,2) by (simp del: funpow.simps)
qed

section \<open>Properties\<close>

interpretation txids_codec: canonical_codec "Serialize_vector Serialize_uint256" "Unserialize_vector Unserialize_uint256 k"
  "\<lambda>v. list_all (\<lambda>x. WIDTH x = 8) v \<and> length v \<le> MAX_SIZE" for k
  by (rule vector_codec(1)) (rule uint256_codec.canonical_codec_axioms)

lemma pmt_roundtrip:
  assumes "list_all (\<lambda>x. WIDTH x = 8) (vHash t)" "length (vHash t) \<le> MAX_SIZE" "length (vBits t) \<le> MAX_SIZE"
  shows "Unserialize_pmt (Serialize_pmt t @ rest) =
    Inr (\<lparr>nTransactions = nTransactions t, vBits = unpack_bits (pack_bits (vBits t)), vHash = vHash t, fBad = False\<rparr>, rest)"
proof -
  have "length (pack_bits (vBits t)) = (length (vBits t) + 7) div 8"
    using pack_bits_upto [of "length (vBits t)" "vBits t"] by (simp add: Let_def pack_bits_def)
  then have "length (pack_bits (vBits t)) \<le> MAX_SIZE" using assms(3) by (simp add: MAX_SIZE_def)
  then show ?thesis using assms
    by (simp add: Serialize_pmt_def Unserialize_pmt_def u32_codec.unser_ser txids_codec.unser_ser bytes_codec.unser_ser)
qed

text \<open>
  C17. A partial Merkle tree proves its matches.  For the transaction hashes of a block (at most as many as
  a block can hold) and any selection of them, the tree that is built, written to the wire and read back
  yields through \<open>ExtractMatches\<close> exactly the selected hashes in their order and, without setting the error
  flag, the root that \<open>ComputeMerkleRoot\<close> returns for the block.
\<close>

theorem partial_merkle_tree_correct:
  assumes L: "vTxid \<noteq> []" "length vTxid \<le> 33333" and "length vMatch = length vTxid" and w: "list_all (\<lambda>x. WIDTH x = 8) vTxid"
  shows "\<exists>t t' t'' root m. CPartialMerkleTree_new junk vTxid vMatch = Some t \<and> Unserialize_pmt (Serialize_pmt t @ rest) = Inr (t', rest) \<and>
    ExtractMatches junk t' = Some (root, map (\<lambda>p. vTxid ! p) (filter (\<lambda>p. vMatch ! p) [0..<length vTxid]), t'') \<and> \<not> fBad t'' \<and>
    ComputeMerkleRoot junk vTxid = Some (root, m)"
proof -
  let ?H = "merkle_node junk" and ?n = "length vTxid" and ?d = "depth (length vTxid)"
  let ?B = "node_bits ?n vMatch ?d 0" and ?X = "node_hashes ?H vTxid vMatch ?d 0"
  have L30: "?n < 2 ^ 30" using L(2) by simp
  note d = depth_bound [OF L(1) L30] and h = tree_height_depth [OF L(1) L30]
  have n: "unat (of_nat ?n :: u32) = ?n" using L(2) by (simp add: unat_of_nat)
  define t where "t = \<lparr>nTransactions = of_nat ?n, vBits = ?B, vHash = ?X, fBad = False\<rparr>"
  have new: "CPartialMerkleTree_new junk vTxid vMatch = Some t"
    using build_tree [OF L(1) L30 d, of 0 0] L(1) h by (simp add: CPartialMerkleTree_new_def t_def)
  have all: "below ?n ?d 0 = [0..<?n]"
  proof -
    have "?n \<le> 2 ^ ?d" using less_width [OF L(1), of 1 ?d ?H] up_depth [OF L(1), of ?H] by (simp add: not_less)
    then show ?thesis by (simp add: min_def)
  qed
  have s: "length ?X \<le> ?n" "length ?X \<le> length ?B" "length ?B \<le> 31 * ?n"
  proof -
    show "length ?X \<le> ?n" "length ?X \<le> length ?B" using node_sizes [of 0 ?d vTxid ?H vMatch] L(1) by (simp_all add: all [simplified])
    have "length ?B \<le> (?d + 1) * ?n" using node_sizes [of 0 ?d vTxid ?H vMatch] L(1) by (simp add: all [simplified])
    also have "\<dots> \<le> 31 * ?n" using d by (intro mult_right_mono) simp_all
    finally show "length ?B \<le> 31 * ?n" .
  qed
  obtain pad where pad: "unpack_bits (pack_bits ?B) = ?B @ pad" "(length (?B @ pad) + 7) div 8 = (length ?B + 7) div 8" using unpack_pack by blast
  define t' where "t' = t\<lparr>vBits := ?B @ pad\<rparr>"
  have "list_all (\<lambda>x. WIDTH x = 8) ?X" using WIDTH_node_hashes [OF w L(1)] L(1) by simp
  then have rd: "Unserialize_pmt (Serialize_pmt t @ rest) = Inr (t', rest)"
    using pmt_roundtrip [of t rest] s L(2) pad by (simp add: t_def t'_def MAX_SIZE_def)
  define st where "st = \<lparr>nBitsUsed = length ?B, nHashUsed = length ?X, matches = node_matches vTxid vMatch ?d 0, bad = False\<rparr>"
  have ex: "TraverseAndExtract junk t' ?d 0 \<lparr>nBitsUsed = 0, nHashUsed = 0, matches = [], bad = False\<rparr> = (up ?H ?d vTxid ! 0, st)"
    using extract_tree [OF L(1) L30 d, of 0 0 t' "\<lparr>nBitsUsed = 0, nHashUsed = 0, matches = [], bad = False\<rparr>" vMatch junk] L(1)
    by (simp add: t_def t'_def st_def reads_def nth_append)
  have "ExtractMatches junk t' = Some (up ?H ?d vTxid ! 0, node_matches vTxid vMatch ?d 0, t'\<lparr>fBad := False\<rparr>)"
    using ex h n s(1,2) L pad(2)
    by (simp add: ExtractMatches_def MAX_BLOCK_SIZE_CURRENT_def t_def t'_def st_def word_unat_eq_iff)
  moreover have "node_matches vTxid vMatch ?d 0 = map (\<lambda>p. vTxid ! p) (filter (\<lambda>p. vMatch ! p) [0..<?n])"
    by (simp only: node_matches_def all)
  moreover have "up ?H ?d vTxid ! 0 = tree_root ?H (base_uint_zero 8) vTxid" by (simp only: up_at_depth [OF L(1), of ?H "base_uint_zero 8"] nth_Cons_0)
  moreover have "ComputeMerkleRoot junk vTxid = Some (tree_root ?H (base_uint_zero 8) vTxid, dup ?H vTxid)"
    using MerkleComputation_reference [OF L(1), of ?H "base_uint_zero 8" "- 1" None] L(2) by (auto simp: ComputeMerkleRoot_def)
  ultimately show ?thesis using new rd by auto
qed

definition example_txids :: "uint256 list" where
  "example_txids = map (\<lambda>i. of_nat i # replicate 7 0) [1..<4]"

theorem partial_merkle_tree_correct_witness:
  "\<exists>t t' t'' root m. CPartialMerkleTree_new [] example_txids [False, True, False] = Some t \<and> Unserialize_pmt (Serialize_pmt t @ []) = Inr (t', []) \<and>
    ExtractMatches [] t' = Some (root, [2 # replicate 7 0], t'') \<and> ComputeMerkleRoot [] example_txids = Some (root, m)"
proof -
  have "list_all (\<lambda>x. WIDTH x = 8) example_txids" "length example_txids = 3" by (simp_all add: example_txids_def list_all_iff)
  moreover have "map (\<lambda>p. example_txids ! p) (filter (\<lambda>p. [False, True, False] ! p) [0..<3]) = [2 # replicate 7 0]"
    by (simp add: example_txids_def upt_rec numeral_2_eq_2)
  ultimately show ?thesis using partial_merkle_tree_correct [of example_txids "[False, True, False]" "[]" "[]"] by fastforce
qed

end
