(* ===== verification/Coins.thy ===== *)
theory Coins
  imports Transaction "HOL-Library.AList"
begin

text \<open>
  The set of unspent outputs: \<open>src/src/coins.h\<close> and \<open>coins.cpp\<close>.  A view is its state and the record of
  its virtual functions; a getter returns the state too, because a cache fills itself while it is read.
  \<open>CCoinsViewCache\<close> over a view is again a view, so caches stack.  The hash maps are association lists
  with distinct keys, in an arbitrary iteration order.  The Sapling tree is the type parameter \<open>'t\<close> with
  its root function; \<open>mem\<close> and \<open>tmem\<close> are the dynamic memory of a coin and of a tree, as \<open>memusage\<close> counts
  it.  \<open>Inl\<close> is a thrown \<open>std::logic_error\<close> or a failed assertion.
\<close>

section \<open>Coins\<close>

record Coin =
  fCoinBase :: bool
  fCoinStake :: bool
  coin_out :: CTxOut
  coin_height :: u32

definition Coin_new :: "CTxOut \<Rightarrow> int \<Rightarrow> bool \<Rightarrow> bool \<Rightarrow> Coin" where
  "Coin_new outIn nHeightIn fCoinBaseIn fCoinStakeIn =
     \<lparr>fCoinBase = fCoinBaseIn, fCoinStake = fCoinStakeIn, coin_out = outIn, coin_height = word_of_int nHeightIn\<rparr>"

definition coinEmpty :: Coin where
  "coinEmpty = \<lparr>fCoinBase = False, fCoinStake = False, coin_out = txout_null, coin_height = 0\<rparr>"

definition coin_Clear :: "Coin \<Rightarrow> Coin" where
  "coin_Clear c = c\<lparr>coin_out := txout_null, fCoinBase := False, fCoinStake := False, coin_height := 0\<rparr>"

definition coin_IsSpent :: "Coin \<Rightarrow> bool" where
  "coin_IsSpent c = txout_IsNull (coin_out c)"

record CCoinsCacheEntry =
  entry_coin :: Coin
  DIRTY :: bool
  FRESH :: bool

record 't CAnchorsSaplingCacheEntry =
  anchor_entered :: bool
  anchor_tree :: 't
  anchor_DIRTY :: bool

record CNullifiersCacheEntry =
  nf_entered :: bool
  nf_DIRTY :: bool

type_synonym CCoinsMap = "(COutPoint \<times> CCoinsCacheEntry) list"
type_synonym 't CAnchorsSaplingMap = "(uint256 \<times> 't CAnchorsSaplingCacheEntry) list"
type_synonym CNullifiersMap = "(uint256 \<times> CNullifiersCacheEntry) list"

datatype coins_error = AddingSpentCoin | ReplacesNonPruned | FreshMisapplied | NoBestAnchor | NullBlockHash | HeadMismatch

section \<open>Views\<close>

record ('v, 't) CCoinsView =
  view_GetCoin :: "'v \<Rightarrow> COutPoint \<Rightarrow> Coin option \<times> 'v"
  view_HaveCoin :: "'v \<Rightarrow> COutPoint \<Rightarrow> bool \<times> 'v"
  view_GetBestBlock :: "'v \<Rightarrow> uint256 \<times> 'v"
  view_BatchWrite :: "'v \<Rightarrow> CCoinsMap \<Rightarrow> uint256 \<Rightarrow> uint256 \<Rightarrow> 't CAnchorsSaplingMap \<Rightarrow> CNullifiersMap \<Rightarrow>
    coins_error + (bool \<times> 'v)"
  view_GetSaplingAnchorAt :: "'v \<Rightarrow> uint256 \<Rightarrow> 't option \<times> 'v"
  view_GetNullifier :: "'v \<Rightarrow> uint256 \<Rightarrow> bool \<times> 'v"
  view_GetBestAnchor :: "'v \<Rightarrow> uint256 \<times> 'v"

definition CCoinsView_default :: "('v, 't) CCoinsView" where
  "CCoinsView_default = \<lparr>view_GetCoin = (\<lambda>v p. (None, v)), view_HaveCoin = (\<lambda>v p. (False, v)),
     view_GetBestBlock = (\<lambda>v. (base_uint_zero 8, v)), view_BatchWrite = (\<lambda>v m h a ms ns. Inr (False, v)),
     view_GetSaplingAnchorAt = (\<lambda>v r. (None, v)), view_GetNullifier = (\<lambda>v n. (False, v)),
     view_GetBestAnchor = (\<lambda>v. (base_uint_zero 8, v))\<rparr>"

section \<open>Cache\<close>

record ('v, 't) CCoinsViewCache =
  cv_base :: 'v
  hashBlock :: uint256
  cacheCoins :: CCoinsMap
  hashSaplingAnchor :: uint256
  cacheSaplingAnchors :: "'t CAnchorsSaplingMap"
  cacheSaplingNullifiers :: CNullifiersMap
  cachedCoinsUsage :: int

definition CCoinsViewCache_new :: "'v \<Rightarrow> ('v, 't) CCoinsViewCache" where
  "CCoinsViewCache_new baseIn = \<lparr>cv_base = baseIn, hashBlock = base_uint_zero 8, cacheCoins = [],
     hashSaplingAnchor = base_uint_zero 8, cacheSaplingAnchors = [], cacheSaplingNullifiers = [], cachedCoinsUsage = 0\<rparr>"

definition FetchCoin :: "('v, 't) CCoinsView \<Rightarrow> (Coin \<Rightarrow> int) \<Rightarrow> ('v, 't) CCoinsViewCache \<Rightarrow> COutPoint \<Rightarrow>
    CCoinsCacheEntry option \<times> ('v, 't) CCoinsViewCache" where
  "FetchCoin V mem c outpoint = (case map_of (cacheCoins c) outpoint of
       Some e \<Rightarrow> (Some e, c)
     | None \<Rightarrow> (case view_GetCoin V (cv_base c) outpoint of
           (None, b) \<Rightarrow> (None, c\<lparr>cv_base := b\<rparr>)
         | (Some tmp, b) \<Rightarrow>
             let e = \<lparr>entry_coin = tmp, DIRTY = False, FRESH = coin_IsSpent tmp\<rparr>
             in (Some e, c\<lparr>cv_base := b, cacheCoins := AList.update outpoint e (cacheCoins c),
                  cachedCoinsUsage := cachedCoinsUsage c + mem tmp\<rparr>)))"

definition GetCoin :: "('v, 't) CCoinsView \<Rightarrow> (Coin \<Rightarrow> int) \<Rightarrow> ('v, 't) CCoinsViewCache \<Rightarrow> COutPoint \<Rightarrow>
    Coin option \<times> ('v, 't) CCoinsViewCache" where
  "GetCoin V mem c outpoint = (case FetchCoin V mem c outpoint of (it, c') \<Rightarrow> (map_option entry_coin it, c'))"

definition AccessCoin :: "('v, 't) CCoinsView \<Rightarrow> (Coin \<Rightarrow> int) \<Rightarrow> ('v, 't) CCoinsViewCache \<Rightarrow> COutPoint \<Rightarrow>
    Coin \<times> ('v, 't) CCoinsViewCache" where
  "AccessCoin V mem c outpoint = (case FetchCoin V mem c outpoint of
       (None, c') \<Rightarrow> (coinEmpty, c') | (Some e, c') \<Rightarrow> (entry_coin e, c'))"

definition HaveCoin :: "('v, 't) CCoinsView \<Rightarrow> (Coin \<Rightarrow> int) \<Rightarrow> ('v, 't) CCoinsViewCache \<Rightarrow> COutPoint \<Rightarrow>
    bool \<times> ('v, 't) CCoinsViewCache" where
  "HaveCoin V mem c outpoint = (case FetchCoin V mem c outpoint of
       (None, c') \<Rightarrow> (False, c') | (Some e, c') \<Rightarrow> (\<not> coin_IsSpent (entry_coin e), c'))"

definition HaveCoinInCache :: "('v, 't) CCoinsViewCache \<Rightarrow> COutPoint \<Rightarrow> bool" where
  "HaveCoinInCache c outpoint \<longleftrightarrow> map_of (cacheCoins c) outpoint \<noteq> None"

definition AddCoin :: "(Coin \<Rightarrow> int) \<Rightarrow> ('v, 't) CCoinsViewCache \<Rightarrow> COutPoint \<Rightarrow> Coin \<Rightarrow> bool \<Rightarrow>
    coins_error + ('v, 't) CCoinsViewCache" where
  "AddCoin mem c outpoint coin possible_overwrite =
     (if coin_IsSpent coin then Inl AddingSpentCoin
      else if IsUnspendable (scriptPubKey (coin_out coin)) then Inr c
      else let inserted = (map_of (cacheCoins c) outpoint = None);
               e = (case map_of (cacheCoins c) outpoint of Some e \<Rightarrow> e
                    | None \<Rightarrow> \<lparr>entry_coin = coinEmpty, DIRTY = False, FRESH = False\<rparr>);
               usage = (if \<not> inserted then cachedCoinsUsage c - mem (entry_coin e) else cachedCoinsUsage c)
           in if \<not> possible_overwrite \<and> \<not> coin_IsSpent (entry_coin e) then Inl ReplacesNonPruned
              else let fresh = (\<not> possible_overwrite \<and> \<not> DIRTY e);
                       e' = e\<lparr>entry_coin := coin, DIRTY := True, FRESH := FRESH e \<or> fresh\<rparr>
                   in Inr (c\<lparr>cacheCoins := AList.update outpoint e' (cacheCoins c), cachedCoinsUsage := usage + mem coin\<rparr>))"

definition SpendCoin :: "('v, 't) CCoinsView \<Rightarrow> (Coin \<Rightarrow> int) \<Rightarrow> ('v, 't) CCoinsViewCache \<Rightarrow> COutPoint \<Rightarrow>
    Coin option \<times> ('v, 't) CCoinsViewCache" where
  "SpendCoin V mem c outpoint = (case FetchCoin V mem c outpoint of
       (None, c') \<Rightarrow> (None, c')
     | (Some e, c') \<Rightarrow>
         let usage = cachedCoinsUsage c' - mem (entry_coin e)
         in if FRESH e then (Some (entry_coin e), c'\<lparr>cacheCoins := AList.delete outpoint (cacheCoins c'), cachedCoinsUsage := usage\<rparr>)
            else (Some (entry_coin e), c'\<lparr>cacheCoins :=
                    AList.update outpoint (e\<lparr>DIRTY := True, entry_coin := coin_Clear (entry_coin e)\<rparr>) (cacheCoins c'),
                    cachedCoinsUsage := usage\<rparr>))"

text \<open>\<open>AddCoins\<close>: one output after the other; \<open>fSkipInvalid\<close> is not used by the source.\<close>

fun add_outputs :: "('v, 't) CCoinsView \<Rightarrow> (Coin \<Rightarrow> int) \<Rightarrow> uint256 \<Rightarrow> bool \<Rightarrow> bool \<Rightarrow> int \<Rightarrow> bool \<Rightarrow> nat \<Rightarrow> CTxOut list \<Rightarrow>
    ('v, 't) CCoinsViewCache \<Rightarrow> coins_error + ('v, 't) CCoinsViewCache" where
  "add_outputs V mem txid cb cs nHeight check i [] c = Inr c"
| "add_outputs V mem txid cb cs nHeight check i (o1 # outs) c =
     (let out = \<lparr>op_hash = txid, op_n = of_nat i\<rparr>;
          (overwrite, c) = (if check then HaveCoin V mem c out else (False, c))
      in case AddCoin mem c out (Coin_new o1 nHeight cb cs) overwrite of
           Inl err \<Rightarrow> Inl err
         | Inr c' \<Rightarrow> add_outputs V mem txid cb cs nHeight check (Suc i) outs c')"

definition AddCoins :: "('v, 't) CCoinsView \<Rightarrow> (Coin \<Rightarrow> int) \<Rightarrow> byte list \<Rightarrow> ('v, 't) CCoinsViewCache \<Rightarrow> CTransaction \<Rightarrow> int \<Rightarrow>
    bool \<Rightarrow> bool \<Rightarrow> coins_error + ('v, 't) CCoinsViewCache" where
  "AddCoins V mem junk c tx nHeight check fSkipInvalid =
     add_outputs V mem (tx_GetHash junk tx) (IsCoinBase tx) (IsCoinStake tx) nHeight check 0 (vout tx) c"

definition GetBestBlock :: "('v, 't) CCoinsView \<Rightarrow> ('v, 't) CCoinsViewCache \<Rightarrow> uint256 \<times> ('v, 't) CCoinsViewCache" where
  "GetBestBlock V c = (if bu_is_null (hashBlock c)
     then (case view_GetBestBlock V (cv_base c) of (h, b) \<Rightarrow> (h, c\<lparr>cv_base := b, hashBlock := h\<rparr>))
     else (hashBlock c, c))"

definition SetBestBlock :: "('v, 't) CCoinsViewCache \<Rightarrow> uint256 \<Rightarrow> ('v, 't) CCoinsViewCache" where
  "SetBestBlock c h = c\<lparr>hashBlock := h\<rparr>"

section \<open>Batch writes\<close>

definition batch_coin :: "(Coin \<Rightarrow> int) \<Rightarrow> COutPoint \<Rightarrow> CCoinsCacheEntry \<Rightarrow> ('v, 't) CCoinsViewCache \<Rightarrow>
    coins_error + ('v, 't) CCoinsViewCache" where
  "batch_coin mem p child c =
     (if \<not> DIRTY child then Inr c
      else case map_of (cacheCoins c) p of
        None \<Rightarrow>
          if FRESH child \<and> coin_IsSpent (entry_coin child) then Inr c
          else Inr (c\<lparr>cacheCoins := AList.update p \<lparr>entry_coin = entry_coin child, DIRTY = True, FRESH = FRESH child\<rparr> (cacheCoins c),
                 cachedCoinsUsage := cachedCoinsUsage c + mem (entry_coin child)\<rparr>)
      | Some us \<Rightarrow>
          if FRESH child \<and> \<not> coin_IsSpent (entry_coin us) then Inl FreshMisapplied
          else if FRESH us \<and> coin_IsSpent (entry_coin child)
          then Inr (c\<lparr>cacheCoins := AList.delete p (cacheCoins c), cachedCoinsUsage := cachedCoinsUsage c - mem (entry_coin us)\<rparr>)
          else Inr (c\<lparr>cacheCoins := AList.update p (us\<lparr>entry_coin := entry_coin child, DIRTY := True\<rparr>) (cacheCoins c),
                 cachedCoinsUsage := cachedCoinsUsage c - mem (entry_coin us) + mem (entry_coin child)\<rparr>))"

fun batch_coins :: "(Coin \<Rightarrow> int) \<Rightarrow> CCoinsMap \<Rightarrow> ('v, 't) CCoinsViewCache \<Rightarrow> coins_error + ('v, 't) CCoinsViewCache" where
  "batch_coins mem [] c = Inr c"
| "batch_coins mem ((p, child) # rest) c = (case batch_coin mem p child c of
       Inl e \<Rightarrow> Inl e | Inr c' \<Rightarrow> batch_coins mem rest c')"

fun BatchWriteAnchors :: "('t \<Rightarrow> int) \<Rightarrow> 't CAnchorsSaplingMap \<Rightarrow> 't CAnchorsSaplingMap \<times> int \<Rightarrow> 't CAnchorsSaplingMap \<times> int" where
  "BatchWriteAnchors tmem [] st = st"
| "BatchWriteAnchors tmem ((r, child) # rest) (cache, usage) =
     BatchWriteAnchors tmem rest
       (if \<not> anchor_DIRTY child then (cache, usage)
        else case map_of cache r of
          None \<Rightarrow> (AList.update r \<lparr>anchor_entered = anchor_entered child, anchor_tree = anchor_tree child, anchor_DIRTY = True\<rparr> cache,
                   usage + tmem (anchor_tree child))
        | Some parent \<Rightarrow>
            if anchor_entered parent \<noteq> anchor_entered child
            then (AList.update r (parent\<lparr>anchor_entered := anchor_entered child, anchor_DIRTY := True\<rparr>) cache, usage)
            else (cache, usage))"

fun BatchWriteNullifiers :: "CNullifiersMap \<Rightarrow> CNullifiersMap \<Rightarrow> CNullifiersMap" where
  "BatchWriteNullifiers [] cache = cache"
| "BatchWriteNullifiers ((n, child) # rest) cache =
     BatchWriteNullifiers rest
       (if \<not> nf_DIRTY child then cache
        else case map_of cache n of
          None \<Rightarrow> AList.update n \<lparr>nf_entered = nf_entered child, nf_DIRTY = True\<rparr> cache
        | Some parent \<Rightarrow>
            if nf_entered parent \<noteq> nf_entered child
            then AList.update n (parent\<lparr>nf_entered := nf_entered child, nf_DIRTY := True\<rparr>) cache
            else cache)"

definition BatchWrite :: "(Coin \<Rightarrow> int) \<Rightarrow> ('t \<Rightarrow> int) \<Rightarrow> ('v, 't) CCoinsViewCache \<Rightarrow> CCoinsMap \<Rightarrow> uint256 \<Rightarrow> uint256 \<Rightarrow>
    't CAnchorsSaplingMap \<Rightarrow> CNullifiersMap \<Rightarrow> coins_error + (bool \<times> ('v, 't) CCoinsViewCache)" where
  "BatchWrite mem tmem c mapCoins hashBlockIn hashSaplingAnchorIn mapSaplingAnchors mapSaplingNullifiers =
     (case batch_coins mem mapCoins c of
        Inl e \<Rightarrow> Inl e
      | Inr c1 \<Rightarrow>
          (case BatchWriteAnchors tmem mapSaplingAnchors (cacheSaplingAnchors c1, cachedCoinsUsage c1) of (anchors, usage) \<Rightarrow>
             Inr (True, c1\<lparr>cacheSaplingAnchors := anchors, cachedCoinsUsage := usage,
               cacheSaplingNullifiers := BatchWriteNullifiers mapSaplingNullifiers (cacheSaplingNullifiers c1),
               hashSaplingAnchor := hashSaplingAnchorIn, hashBlock := hashBlockIn\<rparr>)))"

definition Flush :: "('v, 't) CCoinsView \<Rightarrow> ('v, 't) CCoinsViewCache \<Rightarrow> coins_error + (bool \<times> ('v, 't) CCoinsViewCache)" where
  "Flush V c = (case view_BatchWrite V (cv_base c) (cacheCoins c) (hashBlock c) (hashSaplingAnchor c)
         (cacheSaplingAnchors c) (cacheSaplingNullifiers c) of
       Inl e \<Rightarrow> Inl e
     | Inr (fOk, b) \<Rightarrow> Inr (fOk, c\<lparr>cv_base := b, cacheCoins := [], cacheSaplingAnchors := [], cacheSaplingNullifiers := [],
         cachedCoinsUsage := 0\<rparr>))"

definition Uncache :: "(Coin \<Rightarrow> int) \<Rightarrow> ('v, 't) CCoinsViewCache \<Rightarrow> COutPoint \<Rightarrow> ('v, 't) CCoinsViewCache" where
  "Uncache mem c outpoint = (case map_of (cacheCoins c) outpoint of
       None \<Rightarrow> c
     | Some e \<Rightarrow> if \<not> DIRTY e \<and> \<not> FRESH e
         then c\<lparr>cacheCoins := AList.delete outpoint (cacheCoins c), cachedCoinsUsage := cachedCoinsUsage c - mem (entry_coin e)\<rparr>
         else c)"

definition GetCacheSize :: "('v, 't) CCoinsViewCache \<Rightarrow> nat" where
  "GetCacheSize c = length (cacheCoins c)"

section \<open>Queries over a transaction\<close>

fun sum_inputs :: "('v, 't) CCoinsView \<Rightarrow> (Coin \<Rightarrow> int) \<Rightarrow> CTxIn list \<Rightarrow> CAmount \<Rightarrow> ('v, 't) CCoinsViewCache \<Rightarrow>
    CAmount \<times> ('v, 't) CCoinsViewCache" where
  "sum_inputs V mem [] nResult c = (nResult, c)"
| "sum_inputs V mem (i # ins) nResult c = (case AccessCoin V mem c (prevout i) of
       (coin, c') \<Rightarrow> sum_inputs V mem ins (wrap64 (nResult + nValue (coin_out coin))) c')"

definition GetValueIn :: "('v, 't) CCoinsView \<Rightarrow> (Coin \<Rightarrow> int) \<Rightarrow> ('v, 't) CCoinsViewCache \<Rightarrow> CTransaction \<Rightarrow>
    value_error + (CAmount \<times> ('v, 't) CCoinsViewCache)" where
  "GetValueIn V mem c tx =
     (if IsCoinBase tx then Inr (0, c)
      else case sum_inputs V mem (vin tx) 0 c of (nResult, c') \<Rightarrow>
        (case GetShieldedValueIn tx of Inl e \<Rightarrow> Inl e | Inr sh \<Rightarrow> Inr (wrap64 (nResult + sh), c')))"

fun have_inputs :: "('v, 't) CCoinsView \<Rightarrow> (Coin \<Rightarrow> int) \<Rightarrow> CTxIn list \<Rightarrow> ('v, 't) CCoinsViewCache \<Rightarrow>
    bool \<times> ('v, 't) CCoinsViewCache" where
  "have_inputs V mem [] c = (True, c)"
| "have_inputs V mem (i # ins) c = (case HaveCoin V mem c (prevout i) of
       (False, c') \<Rightarrow> (False, c') | (True, c') \<Rightarrow> have_inputs V mem ins c')"

definition HaveInputs :: "('v, 't) CCoinsView \<Rightarrow> (Coin \<Rightarrow> int) \<Rightarrow> ('v, 't) CCoinsViewCache \<Rightarrow> CTransaction \<Rightarrow>
    bool \<times> ('v, 't) CCoinsViewCache" where
  "HaveInputs V mem c tx = (if \<not> IsCoinBase tx then have_inputs V mem (vin tx) c else (True, c))"

definition GetCoinDepthAtHeight :: "('v, 't) CCoinsView \<Rightarrow> (Coin \<Rightarrow> int) \<Rightarrow> ('v, 't) CCoinsViewCache \<Rightarrow> COutPoint \<Rightarrow> int \<Rightarrow>
    int \<times> ('v, 't) CCoinsViewCache" where
  "GetCoinDepthAtHeight V mem c p h = (case AccessCoin V mem c p of (coin, c') \<Rightarrow>
     (if \<not> coin_IsSpent coin then sint (word_of_int h - coin_height coin + 1) else -1, c'))"

section \<open>Sapling\<close>

definition GetSaplingAnchorAt :: "('v, 't) CCoinsView \<Rightarrow> ('t \<Rightarrow> int) \<Rightarrow> ('v, 't) CCoinsViewCache \<Rightarrow> uint256 \<Rightarrow>
    't option \<times> ('v, 't) CCoinsViewCache" where
  "GetSaplingAnchorAt V tmem c rt = (case map_of (cacheSaplingAnchors c) rt of
       Some e \<Rightarrow> (if anchor_entered e then Some (anchor_tree e) else None, c)
     | None \<Rightarrow> (case view_GetSaplingAnchorAt V (cv_base c) rt of
           (None, b) \<Rightarrow> (None, c\<lparr>cv_base := b\<rparr>)
         | (Some tree, b) \<Rightarrow> (Some tree, c\<lparr>cv_base := b,
             cacheSaplingAnchors := AList.update rt \<lparr>anchor_entered = True, anchor_tree = tree, anchor_DIRTY = False\<rparr> (cacheSaplingAnchors c),
             cachedCoinsUsage := cachedCoinsUsage c + tmem tree\<rparr>)))"

definition GetNullifier :: "('v, 't) CCoinsView \<Rightarrow> ('v, 't) CCoinsViewCache \<Rightarrow> uint256 \<Rightarrow> bool \<times> ('v, 't) CCoinsViewCache" where
  "GetNullifier V c nullifier = (case map_of (cacheSaplingNullifiers c) nullifier of
       Some e \<Rightarrow> (nf_entered e, c)
     | None \<Rightarrow> (case view_GetNullifier V (cv_base c) nullifier of (tmp, b) \<Rightarrow>
         (tmp, c\<lparr>cv_base := b, cacheSaplingNullifiers :=
            AList.update nullifier \<lparr>nf_entered = tmp, nf_DIRTY = False\<rparr> (cacheSaplingNullifiers c)\<rparr>)))"

definition GetBestAnchor :: "('v, 't) CCoinsView \<Rightarrow> ('v, 't) CCoinsViewCache \<Rightarrow> uint256 \<times> ('v, 't) CCoinsViewCache" where
  "GetBestAnchor V c = (if bu_is_null (hashSaplingAnchor c)
     then (case view_GetBestAnchor V (cv_base c) of (h, b) \<Rightarrow> (h, c\<lparr>cv_base := b, hashSaplingAnchor := h\<rparr>))
     else (hashSaplingAnchor c, c))"

definition PushAnchor :: "('v, 't) CCoinsView \<Rightarrow> ('t \<Rightarrow> uint256) \<Rightarrow> ('t \<Rightarrow> int) \<Rightarrow> 't \<Rightarrow> ('v, 't) CCoinsViewCache \<Rightarrow>
    ('v, 't) CCoinsViewCache" where
  "PushAnchor V root tmem tree c = (case GetBestAnchor V c of (currentRoot, c') \<Rightarrow>
     if currentRoot \<noteq> root tree
     then c'\<lparr>cachedCoinsUsage := (if map_of (cacheSaplingAnchors c') (root tree) = None then cachedCoinsUsage c' + tmem tree
                                 else cachedCoinsUsage c'),
            cacheSaplingAnchors := AList.update (root tree) \<lparr>anchor_entered = True, anchor_tree = tree, anchor_DIRTY = True\<rparr>
              (cacheSaplingAnchors c'),
            hashSaplingAnchor := root tree\<rparr>
     else c')"

definition PopAnchor :: "('v, 't) CCoinsView \<Rightarrow> ('t \<Rightarrow> int) \<Rightarrow> uint256 \<Rightarrow> ('v, 't) CCoinsViewCache \<Rightarrow>
    coins_error + ('v, 't) CCoinsViewCache" where
  "PopAnchor V tmem newrt c = (case GetBestAnchor V c of (currentRoot, c') \<Rightarrow>
     if currentRoot \<noteq> newrt
     then (case GetSaplingAnchorAt V tmem c' currentRoot of
         (None, _) \<Rightarrow> Inl NoBestAnchor
       | (Some tree, c'') \<Rightarrow> Inr (c''\<lparr>cacheSaplingAnchors := AList.update currentRoot
             \<lparr>anchor_entered = False, anchor_tree = tree, anchor_DIRTY = True\<rparr> (cacheSaplingAnchors c''),
             hashSaplingAnchor := newrt\<rparr>))
     else Inr c')"

definition SetNullifiers :: "('v, 't) CCoinsViewCache \<Rightarrow> CTransaction \<Rightarrow> bool \<Rightarrow> ('v, 't) CCoinsViewCache" where
  "SetNullifiers c tx spent = (case sapData tx of None \<Rightarrow> c
     | Some d \<Rightarrow> c\<lparr>cacheSaplingNullifiers :=
         fold (\<lambda>s. AList.update (spend_nullifier s) \<lparr>nf_entered = spent, nf_DIRTY = True\<rparr>) (vShieldedSpend d) (cacheSaplingNullifiers c)\<rparr>)"

fun have_shielded :: "('v, 't) CCoinsView \<Rightarrow> ('t \<Rightarrow> int) \<Rightarrow> SpendDescription list \<Rightarrow> ('v, 't) CCoinsViewCache \<Rightarrow>
    bool \<times> ('v, 't) CCoinsViewCache" where
  "have_shielded V tmem [] c = (True, c)"
| "have_shielded V tmem (s # ss) c = (case GetNullifier V c (spend_nullifier s) of
       (True, c') \<Rightarrow> (False, c')
     | (False, c') \<Rightarrow> (case GetSaplingAnchorAt V tmem c' (spend_anchor s) of
           (None, c'') \<Rightarrow> (False, c'') | (Some _, c'') \<Rightarrow> have_shielded V tmem ss c''))"

definition HaveShieldedRequirements :: "('v, 't) CCoinsView \<Rightarrow> ('t \<Rightarrow> int) \<Rightarrow> ('v, 't) CCoinsViewCache \<Rightarrow> CTransaction \<Rightarrow>
    bool \<times> ('v, 't) CCoinsViewCache" where
  "HaveShieldedRequirements V tmem c tx =
     (if IsShieldedTx tx then have_shielded V tmem (vShieldedSpend (the (sapData tx))) c else (True, c))"

text \<open>A cache is a view: the virtual functions of \<open>CCoinsViewCache\<close>.\<close>

definition cache_view :: "('v, 't) CCoinsView \<Rightarrow> (Coin \<Rightarrow> int) \<Rightarrow> ('t \<Rightarrow> int) \<Rightarrow> (('v, 't) CCoinsViewCache, 't) CCoinsView" where
  "cache_view V mem tmem = \<lparr>view_GetCoin = GetCoin V mem, view_HaveCoin = HaveCoin V mem, view_GetBestBlock = GetBestBlock V,
     view_BatchWrite = BatchWrite mem tmem, view_GetSaplingAnchorAt = GetSaplingAnchorAt V tmem,
     view_GetNullifier = GetNullifier V, view_GetBestAnchor = GetBestAnchor V\<rparr>"

section \<open>The contract of a view\<close>

text \<open>
  Abstractly a view is the partial map of its unspent coins and the set of its spent nullifiers.  A
  spent coin and no coin are the same to a caller.  Reading changes neither; a batch write applies the
  dirty entries, provided that an entry marked fresh is really absent from the view.
\<close>

definition visible :: "Coin \<Rightarrow> Coin option" where
  "visible coin = (if coin_IsSpent coin then None else Some coin)"

definition apply_coins :: "CCoinsMap \<Rightarrow> (COutPoint \<Rightarrow> Coin option) \<Rightarrow> COutPoint \<Rightarrow> Coin option" where
  "apply_coins m u p = (case map_of m p of Some e \<Rightarrow> if DIRTY e then visible (entry_coin e) else u p | None \<Rightarrow> u p)"

definition apply_nullifiers :: "CNullifiersMap \<Rightarrow> (uint256 \<Rightarrow> bool) \<Rightarrow> uint256 \<Rightarrow> bool" where
  "apply_nullifiers m f n = (case map_of m n of Some e \<Rightarrow> if nf_DIRTY e then nf_entered e else f n | None \<Rightarrow> f n)"

text \<open>
  The coins a database record can hold: the height leaves room for the two flags in 32 bits, the amount
  does not overflow its compressed form, the script is not too long and \<open>nRounds\<close>, which is not stored,
  has its initial value.
\<close>

definition coin_ok :: "Coin \<Rightarrow> bool" where
  "coin_ok coin \<longleftrightarrow> unat (coin_height coin) < 2 ^ 30 \<and> 0 \<le> nValue (coin_out coin) \<and> nValue (coin_out coin) < 2 ^ 60 \<and>
     length (scriptPubKey (coin_out coin)) \<le> MAX_SCRIPT_SIZE \<and> nRounds (coin_out coin) = -10"

definition batch_valid :: "CCoinsMap \<Rightarrow> (COutPoint \<Rightarrow> Coin option) \<Rightarrow> bool" where
  "batch_valid m u \<longleftrightarrow> distinct (map fst m) \<and> (\<forall>p e. map_of m p = Some e \<longrightarrow> outpoint_ok p \<and>
     (DIRTY e \<longrightarrow> (FRESH e \<longrightarrow> u p = None) \<and> (coin_IsSpent (entry_coin e) \<or> coin_ok (entry_coin e))))"

definition nullifiers_valid :: "CNullifiersMap \<Rightarrow> bool" where
  "nullifiers_valid ns \<longleftrightarrow> distinct (map fst ns) \<and> (\<forall>n e. map_of ns n = Some e \<longrightarrow> WIDTH n = 8)"

definition cache_utxo :: "('v \<Rightarrow> COutPoint \<Rightarrow> Coin option) \<Rightarrow> ('v, 't) CCoinsViewCache \<Rightarrow> COutPoint \<Rightarrow> Coin option" where
  "cache_utxo utxo c p = (case map_of (cacheCoins c) p of Some e \<Rightarrow> visible (entry_coin e) | None \<Rightarrow> utxo (cv_base c) p)"

definition cache_nf :: "('v \<Rightarrow> uint256 \<Rightarrow> bool) \<Rightarrow> ('v, 't) CCoinsViewCache \<Rightarrow> uint256 \<Rightarrow> bool" where
  "cache_nf nf c n = (case map_of (cacheSaplingNullifiers c) n of Some e \<Rightarrow> nf_entered e | None \<Rightarrow> nf (cv_base c) n)"

text \<open>
  The invariant of a cache: a fresh entry is absent from the base, an entry that is not dirty agrees
  with the base, and a coin that is not spent can be stored.
\<close>

definition entry_ok :: "(COutPoint \<Rightarrow> Coin option) \<Rightarrow> COutPoint \<Rightarrow> CCoinsCacheEntry \<Rightarrow> bool" where
  "entry_ok u p e \<longleftrightarrow> outpoint_ok p \<and> (coin_IsSpent (entry_coin e) \<or> coin_ok (entry_coin e)) \<and> (FRESH e \<longrightarrow> u p = None) \<and> (\<not> DIRTY e \<longrightarrow> visible (entry_coin e) = u p)"

definition cache_ok :: "('v \<Rightarrow> bool) \<Rightarrow> ('v \<Rightarrow> COutPoint \<Rightarrow> Coin option) \<Rightarrow> ('v \<Rightarrow> uint256 \<Rightarrow> bool) \<Rightarrow>
    ('v, 't) CCoinsViewCache \<Rightarrow> bool" where
  "cache_ok ok utxo nf c \<longleftrightarrow> ok (cv_base c) \<and>
     distinct (map fst (cacheCoins c)) \<and> distinct (map fst (cacheSaplingNullifiers c)) \<and>
     (\<forall>p e. map_of (cacheCoins c) p = Some e \<longrightarrow> entry_ok (utxo (cv_base c)) p e) \<and>
     (\<forall>n e. map_of (cacheSaplingNullifiers c) n = Some e \<longrightarrow> WIDTH n = 8 \<and> (\<not> nf_DIRTY e \<longrightarrow> nf_entered e = nf (cv_base c) n))"

text \<open>What the two ways of changing the coin map do to the abstraction and to the invariant.\<close>

lemma cache_update:
  assumes "cv_base c' = cv_base c" and "cacheSaplingNullifiers c' = cacheSaplingNullifiers c"
    and "cacheCoins c' = AList.update p e (cacheCoins c)"
  shows "cache_utxo utxo c' = (cache_utxo utxo c)(p := visible (entry_coin e)) \<and> cache_nf nf c' = cache_nf nf c \<and>
    (cache_ok ok utxo nf c \<longrightarrow> entry_ok (utxo (cv_base c)) p e \<longrightarrow> cache_ok ok utxo nf c')"
proof (intro conjI impI)
  show "cache_utxo utxo c' = (cache_utxo utxo c)(p := visible (entry_coin e))"
    by (rule ext) (simp add: cache_utxo_def assms update_conv' split: option.split)
  show "cache_nf nf c' = cache_nf nf c" by (rule ext) (simp add: cache_nf_def assms split: option.split)
  show "cache_ok ok utxo nf c'" if "cache_ok ok utxo nf c" "entry_ok (utxo (cv_base c)) p e"
    using that by (simp add: cache_ok_def assms update_conv' distinct_update)
qed

lemma cache_delete:
  assumes "cv_base c' = cv_base c" and "cacheSaplingNullifiers c' = cacheSaplingNullifiers c"
    and "cacheCoins c' = AList.delete p (cacheCoins c)"
  shows "cache_utxo utxo c' = (cache_utxo utxo c)(p := utxo (cv_base c) p) \<and> cache_nf nf c' = cache_nf nf c \<and>
    (cache_ok ok utxo nf c \<longrightarrow> cache_ok ok utxo nf c')"
proof (intro conjI impI)
  show "cache_utxo utxo c' = (cache_utxo utxo c)(p := utxo (cv_base c) p)"
    by (rule ext) (simp add: cache_utxo_def assms delete_conv' split: option.split)
  show "cache_nf nf c' = cache_nf nf c" by (rule ext) (simp add: cache_nf_def assms split: option.split)
  show "cache_ok ok utxo nf c'" if "cache_ok ok utxo nf c"
    using that by (auto simp: cache_ok_def assms delete_conv' distinct_delete split: if_splits)
qed

text \<open>A change of the state of the base that its abstraction does not see.\<close>

lemma cache_base:
  assumes "cacheSaplingNullifiers c' = cacheSaplingNullifiers c" and "cacheCoins c' = cacheCoins c"
    and "ok (cv_base c')" and "utxo (cv_base c') = utxo (cv_base c)" and "nf (cv_base c') = nf (cv_base c)"
  shows "cache_utxo utxo c' = cache_utxo utxo c \<and> cache_nf nf c' = cache_nf nf c \<and>
    (cache_ok ok utxo nf c \<longrightarrow> cache_ok ok utxo nf c')"
proof (intro conjI impI)
  show "cache_utxo utxo c' = cache_utxo utxo c" by (rule ext) (simp add: cache_utxo_def assms split: option.split)
  show "cache_nf nf c' = cache_nf nf c" by (rule ext) (simp add: cache_nf_def assms split: option.split)
  show "cache_ok ok utxo nf c'" if "cache_ok ok utxo nf c" using that by (simp add: cache_ok_def assms)
qed

lemma visible_simps [simp]:
  "visible (coin_Clear x) = None" "coin_IsSpent (coin_Clear x)" "visible coinEmpty = None" "coin_IsSpent coinEmpty" "\<not> coin_IsSpent y \<Longrightarrow> visible y = Some y"
  by (simp_all add: visible_def coin_Clear_def coinEmpty_def coin_IsSpent_def txout_IsNull_def txout_null_def)

lemma entry_of_ok: "cache_ok ok utxo nf c \<Longrightarrow> map_of (cacheCoins c) p = Some e \<Longrightarrow> entry_ok (utxo (cv_base c)) p e"
  by (simp add: cache_ok_def)

lemma cache_utxo_entry: "map_of (cacheCoins c) p = Some e \<Longrightarrow> cache_utxo utxo c p = visible (entry_coin e)"
  "map_of (cacheCoins c) p = None \<Longrightarrow> cache_utxo utxo c p = utxo (cv_base c) p"
  by (simp_all add: cache_utxo_def)

lemma apply_coins_Cons:
  assumes "p \<notin> fst ` set rest"
  shows "apply_coins ((p, e) # rest) u = apply_coins rest (if DIRTY e then u(p := visible (entry_coin e)) else u)"
proof
  fix q
  have "map_of rest p = None" using assms by (simp add: map_of_eq_None_iff)
  then show "apply_coins ((p, e) # rest) u q = apply_coins rest (if DIRTY e then u(p := visible (entry_coin e)) else u) q"
    by (cases "q = p") (auto simp: apply_coins_def split: option.split)
qed

lemma batch_valid_entries:
  "batch_valid m u \<longleftrightarrow> distinct (map fst m) \<and> (\<forall>(p, e) \<in> set m. outpoint_ok p \<and>
     (DIRTY e \<longrightarrow> (FRESH e \<longrightarrow> u p = None) \<and> (coin_IsSpent (entry_coin e) \<or> coin_ok (entry_coin e))))"
  unfolding batch_valid_def by (rule conj_cong) auto

lemma batch_valid_Cons:
  assumes "batch_valid ((p, e) # rest) u" and "\<And>q. q \<noteq> p \<Longrightarrow> u' q = u q"
  shows "batch_valid rest u'"
proof -
  have "q \<noteq> p" if "(q, e') \<in> set rest" for q e'
    using assms(1) that by (force simp: batch_valid_entries)
  then show ?thesis using assms by (auto simp: batch_valid_entries)
qed

definition nf_lookup :: "CNullifiersMap \<Rightarrow> (uint256 \<Rightarrow> bool) \<Rightarrow> uint256 \<Rightarrow> bool" where
  "nf_lookup m f n = (case map_of m n of Some e \<Rightarrow> nf_entered e | None \<Rightarrow> f n)"

definition nf_agrees :: "CNullifiersMap \<Rightarrow> (uint256 \<Rightarrow> bool) \<Rightarrow> bool" where
  "nf_agrees m f \<longleftrightarrow> distinct (map fst m) \<and> (\<forall>n e. map_of m n = Some e \<longrightarrow> WIDTH n = 8 \<and> (\<not> nf_DIRTY e \<longrightarrow> nf_entered e = f n))"

lemma nf_update:
  "nf_lookup (AList.update n e m) f = (nf_lookup m f)(n := nf_entered e)"
  "nf_agrees m f \<Longrightarrow> WIDTH n = 8 \<Longrightarrow> (\<not> nf_DIRTY e \<Longrightarrow> nf_entered e = f n) \<Longrightarrow> nf_agrees (AList.update n e m) f"
  by (rule ext) (simp_all add: nf_lookup_def nf_agrees_def update_conv' distinct_update)

lemma BatchWriteNullifiers_refines:
  assumes "nullifiers_valid ns" and "nf_agrees cache f"
  shows "nf_agrees (BatchWriteNullifiers ns cache) f \<and>
    nf_lookup (BatchWriteNullifiers ns cache) f = apply_nullifiers ns (nf_lookup cache f)"
  using assms
proof (induction ns arbitrary: cache)
  case Nil
  then show ?case by (simp add: apply_nullifiers_def fun_eq_iff)
next
  case (Cons ne rest)
  obtain n e where ne: "ne = (n, e)" by (cases ne)
  define c1 where "c1 = (if \<not> nf_DIRTY e then cache
        else case map_of cache n of
          None \<Rightarrow> AList.update n \<lparr>nf_entered = nf_entered e, nf_DIRTY = True\<rparr> cache
        | Some parent \<Rightarrow>
            if nf_entered parent \<noteq> nf_entered e
            then AList.update n (parent\<lparr>nf_entered := nf_entered e, nf_DIRTY := True\<rparr>) cache
            else cache)"
  have n: "n \<notin> fst ` set rest" "WIDTH n = 8" "nullifiers_valid rest"
    using Cons.prems(1) by (auto simp: nullifiers_valid_def ne split: if_splits)
  have c1: "nf_agrees c1 f" "nf_lookup c1 f = (if nf_DIRTY e then (nf_lookup cache f)(n := nf_entered e) else nf_lookup cache f)"
    using Cons.prems(2) n(2)
    by (auto simp: c1_def nf_lookup_def fun_eq_iff update_conv' intro!: nf_update(2) split: option.split)
  have "map_of rest n = None" using n(1) by (simp add: map_of_eq_None_iff)
  then have "apply_nullifiers rest (nf_lookup c1 f) = apply_nullifiers ((n, e) # rest) (nf_lookup cache f)"
    by (auto simp: c1(2) apply_nullifiers_def fun_eq_iff split: option.split)
  moreover have "BatchWriteNullifiers (ne # rest) cache = BatchWriteNullifiers rest c1" by (simp add: ne c1_def)
  ultimately show ?case using Cons.IH [OF n(3) c1(1)] by (simp add: ne)
qed

lemma cache_nf_lookup: "cache_nf nf c = nf_lookup (cacheSaplingNullifiers c) (nf (cv_base c))"
  by (simp add: cache_nf_def nf_lookup_def fun_eq_iff)

lemma cache_ok_nf: "cache_ok ok utxo nf c \<longleftrightarrow> ok (cv_base c) \<and> distinct (map fst (cacheCoins c)) \<and>
    (\<forall>p e. map_of (cacheCoins c) p = Some e \<longrightarrow> entry_ok (utxo (cv_base c)) p e) \<and>
    nf_agrees (cacheSaplingNullifiers c) (nf (cv_base c))"
  by (auto simp: cache_ok_def nf_agrees_def)

text \<open>The coins that \<open>AddCoins\<close> creates: the spendable outputs from position \<open>i\<close> on.\<close>

definition out_coin :: "uint256 \<Rightarrow> bool \<Rightarrow> bool \<Rightarrow> int \<Rightarrow> nat \<Rightarrow> CTxOut list \<Rightarrow> COutPoint \<Rightarrow> Coin option" where
  "out_coin txid cb cs h i outs p = (let n = unat (op_n p) in
     if op_hash p = txid \<and> i \<le> n \<and> n < i + length outs \<and> \<not> IsUnspendable (scriptPubKey (outs ! (n - i)))
     then Some (Coin_new (outs ! (n - i)) h cb cs) else None)"

lemma out_coin_step:
  assumes "op_hash p = txid" and "unat (op_n p) = i"
  shows "(if IsUnspendable (scriptPubKey o1) then u else u(p \<mapsto> Coin_new o1 h cb cs)) ++ out_coin txid cb cs h (Suc i) outs =
    u ++ out_coin txid cb cs h i (o1 # outs)"
proof
  fix q
  show "((if IsUnspendable (scriptPubKey o1) then u else u(p \<mapsto> Coin_new o1 h cb cs)) ++ out_coin txid cb cs h (Suc i) outs) q =
    (u ++ out_coin txid cb cs h i (o1 # outs)) q"
  proof (cases "q = p")
    case True
    then show ?thesis using assms by (simp add: map_add_def out_coin_def)
  next
    case False
    have "out_coin txid cb cs h (Suc i) outs q = out_coin txid cb cs h i (o1 # outs) q"
    proof (cases "op_hash q = txid \<and> unat (op_n q) = i")
      case True
      then have "op_n q = op_n p" using assms(2) by (simp add: word_unat_eq_iff)
      then show ?thesis using True assms(1) False by simp
    next
      case n: False
      then show ?thesis by (auto simp: out_coin_def Let_def nth_Cons' le_eq_less_or_eq)
    qed
    then show ?thesis using False by (simp add: map_add_def split: option.split)
  qed
qed

lemma cache_view_sel:
  "view_GetCoin (cache_view V mem tmem) = GetCoin V mem" "view_GetNullifier (cache_view V mem tmem) = GetNullifier V"
  "view_GetBestBlock (cache_view V mem tmem) = GetBestBlock V" "view_GetBestAnchor (cache_view V mem tmem) = GetBestAnchor V"
  "view_GetSaplingAnchorAt (cache_view V mem tmem) = GetSaplingAnchorAt V tmem"
  "view_BatchWrite (cache_view V mem tmem) = BatchWrite mem tmem"
  by (simp_all add: cache_view_def)

locale coins_view =
  fixes V :: "('v, 't) CCoinsView" and ok :: "'v \<Rightarrow> bool"
    and utxo :: "'v \<Rightarrow> COutPoint \<Rightarrow> Coin option" and nf :: "'v \<Rightarrow> uint256 \<Rightarrow> bool"
  assumes utxo_unspent: "ok v \<Longrightarrow> utxo v p = Some coin \<Longrightarrow> \<not> coin_IsSpent coin \<and> coin_ok coin"
    and get_coin: "ok v \<Longrightarrow> outpoint_ok p \<Longrightarrow> view_GetCoin V v p = (r, v') \<Longrightarrow>
      ok v' \<and> utxo v' = utxo v \<and> nf v' = nf v \<and> utxo v p = Option.bind r visible"
    and get_nullifier: "ok v \<Longrightarrow> WIDTH n = 8 \<Longrightarrow> view_GetNullifier V v n = (b, v') \<Longrightarrow> ok v' \<and> utxo v' = utxo v \<and> nf v' = nf v \<and> b = nf v n"
    and get_best_block: "ok v \<Longrightarrow> view_GetBestBlock V v = (h, v') \<Longrightarrow> ok v' \<and> utxo v' = utxo v \<and> nf v' = nf v"
    and get_anchor: "ok v \<Longrightarrow> view_GetSaplingAnchorAt V v rt = (t, v') \<Longrightarrow> ok v' \<and> utxo v' = utxo v \<and> nf v' = nf v"
    and get_best_anchor: "ok v \<Longrightarrow> view_GetBestAnchor V v = (h, v') \<Longrightarrow> ok v' \<and> utxo v' = utxo v \<and> nf v' = nf v"
    and batch_write: "ok v \<Longrightarrow> batch_valid m (utxo v) \<Longrightarrow> nullifiers_valid ns \<Longrightarrow> \<not> bu_is_null h \<Longrightarrow>
      \<exists>v'. view_BatchWrite V v m h a ms ns = Inr (True, v') \<and> ok v' \<and> utxo v' = apply_coins m (utxo v) \<and>
        nf v' = apply_nullifiers ns (nf v)"
begin

abbreviation cok :: "('v, 't) CCoinsViewCache \<Rightarrow> bool" where
  "cok \<equiv> cache_ok ok utxo nf"

lemma fetch_coin:
  assumes c: "cok c" and p: "outpoint_ok p" and f: "FetchCoin V mem c p = (r, c')"
  shows "cok c'" and "cache_utxo utxo c' = cache_utxo utxo c" and "cache_nf nf c' = cache_nf nf c"
    and "map_of (cacheCoins c') p = r" and "cache_utxo utxo c p = Option.bind r (\<lambda>e. visible (entry_coin e))"
    and "\<And>e. r = Some e \<Longrightarrow> entry_ok (utxo (cv_base c')) p e"
proof -
  have "cok c' \<and> cache_utxo utxo c' = cache_utxo utxo c \<and> cache_nf nf c' = cache_nf nf c \<and>
    map_of (cacheCoins c') p = r \<and> cache_utxo utxo c p = Option.bind r (\<lambda>e. visible (entry_coin e))"
  proof (cases "map_of (cacheCoins c) p")
    case (Some e)
    then have "r = Some e" "c' = c" using f by (simp_all add: FetchCoin_def)
    then show ?thesis using c Some by (simp add: cache_utxo_entry)
  next
    case None
    obtain r0 b where g: "view_GetCoin V (cv_base c) p = (r0, b)" by (cases "view_GetCoin V (cv_base c) p")
    have b: "ok b" "utxo b = utxo (cv_base c)" "nf b = nf (cv_base c)" and v: "utxo (cv_base c) p = Option.bind r0 visible"
      using get_coin [OF _ p g] c by (auto simp: cache_ok_def)
    define c1 where "c1 = c\<lparr>cv_base := b\<rparr>"
    have c1: "cok c1" "cache_utxo utxo c1 = cache_utxo utxo c" "cache_nf nf c1 = cache_nf nf c"
      using cache_base [of c1 c ok utxo nf] c b by (simp_all add: c1_def)
    show ?thesis
    proof (cases r0)
      case nr: None
      then have "r = None" "c' = c1" using f None g by (simp_all add: FetchCoin_def c1_def)
      then show ?thesis using c1 None v nr by (simp add: cache_utxo_entry c1_def)
    next
      case (Some tmp)
      let ?e = "\<lparr>entry_coin = tmp, DIRTY = False, FRESH = coin_IsSpent tmp\<rparr>"
      have r: "r = Some ?e" "c' = c1\<lparr>cacheCoins := AList.update p ?e (cacheCoins c1), cachedCoinsUsage := cachedCoinsUsage c1 + mem tmp\<rparr>"
        using f None g Some by (simp_all add: FetchCoin_def c1_def Let_def)
      have u: "cache_utxo utxo c p = visible tmp" using v Some None by (simp add: cache_utxo_entry)
      have "coin_IsSpent tmp \<or> coin_ok tmp" using utxo_unspent [of "cv_base c" p tmp] v Some c by (cases "coin_IsSpent tmp") (simp_all add: cache_ok_def)
      then have "entry_ok (utxo (cv_base c1)) p ?e" using v Some b(2) p by (simp add: entry_ok_def visible_def c1_def)
      with cache_update [of c' c1 p ?e utxo nf ok] r(2) c1 u show ?thesis
        by (simp add: r(1) update_conv' fun_upd_idem)
    qed
  qed
  then show "cok c'" "cache_utxo utxo c' = cache_utxo utxo c" "cache_nf nf c' = cache_nf nf c"
    "map_of (cacheCoins c') p = r" "cache_utxo utxo c p = Option.bind r (\<lambda>e. visible (entry_coin e))"
    "\<And>e. r = Some e \<Longrightarrow> entry_ok (utxo (cv_base c')) p e"
    by (auto simp: cache_ok_def)
qed

lemma GetCoin_refines:
  assumes "cok c" and "outpoint_ok p" and "GetCoin V mem c p = (r, c')"
  shows "cok c' \<and> cache_utxo utxo c' = cache_utxo utxo c \<and> cache_nf nf c' = cache_nf nf c \<and>
    cache_utxo utxo c p = Option.bind r visible"
proof -
  obtain it where f: "FetchCoin V mem c p = (it, c')" "r = map_option entry_coin it"
    using assms(3) by (cases "FetchCoin V mem c p") (auto simp: GetCoin_def)
  show ?thesis using fetch_coin [OF assms(1,2) f(1)] f(2) by (cases it) auto
qed

lemma HaveCoin_refines:
  assumes "cok c" and "outpoint_ok p" and "HaveCoin V mem c p = (b, c')"
  shows "cok c' \<and> cache_utxo utxo c' = cache_utxo utxo c \<and> cache_nf nf c' = cache_nf nf c \<and>
    b = (cache_utxo utxo c p \<noteq> None)"
proof -
  obtain it where f: "FetchCoin V mem c p = (it, c')"
    using assms(3) by (cases "FetchCoin V mem c p") (auto simp: HaveCoin_def split: option.splits)
  show ?thesis using fetch_coin [OF assms(1,2) f(1)] assms(3) f by (cases it) (auto simp: HaveCoin_def visible_def)
qed

lemma AccessCoin_refines:
  assumes "cok c" and "outpoint_ok p" and "AccessCoin V mem c p = (coin, c')"
  shows "cok c' \<and> cache_utxo utxo c' = cache_utxo utxo c \<and> cache_nf nf c' = cache_nf nf c \<and>
    visible coin = cache_utxo utxo c p"
proof -
  obtain it where f: "FetchCoin V mem c p = (it, c')"
    using assms(3) by (cases "FetchCoin V mem c p") (auto simp: AccessCoin_def split: option.splits)
  have "visible coinEmpty = None"
    by (simp add: visible_def coinEmpty_def coin_IsSpent_def txout_IsNull_def txout_null_def)
  then show ?thesis using fetch_coin [OF assms(1,2) f(1)] assms(3) f by (cases it) (auto simp: AccessCoin_def)
qed

text \<open>Adding: without the overwrite flag the caller has to know that the coin is absent.\<close>

lemma AddCoin_refines:
  assumes c: "cok c" and p: "outpoint_ok p" and new: "\<not> coin_IsSpent coin" "coin_ok coin" and absent: "possible_overwrite \<or> cache_utxo utxo c p = None"
  shows "\<exists>c'. AddCoin mem c p coin possible_overwrite = Inr c' \<and> cok c' \<and> cache_nf nf c' = cache_nf nf c \<and>
    cache_utxo utxo c' = (if IsUnspendable (scriptPubKey (coin_out coin)) then cache_utxo utxo c
                          else (cache_utxo utxo c)(p := Some coin))"
proof (cases "IsUnspendable (scriptPubKey (coin_out coin))")
  case True
  then show ?thesis using c new(1) by (simp add: AddCoin_def)
next
  case False
  define e where "e = (case map_of (cacheCoins c) p of Some e \<Rightarrow> e | None \<Rightarrow> \<lparr>entry_coin = coinEmpty, DIRTY = False, FRESH = False\<rparr>)"
  define e' where "e' = e\<lparr>entry_coin := coin, DIRTY := True, FRESH := FRESH e \<or> (\<not> possible_overwrite \<and> \<not> DIRTY e)\<rparr>"
  have sp: "possible_overwrite \<or> coin_IsSpent (entry_coin e)"
    using absent by (cases "map_of (cacheCoins c) p") (auto simp: e_def cache_utxo_entry visible_def split: if_splits)
  then obtain u where a: "AddCoin mem c p coin possible_overwrite =
      Inr (c\<lparr>cacheCoins := AList.update p e' (cacheCoins c), cachedCoinsUsage := u\<rparr>)" (is "_ = Inr ?c'")
    using new(1) False by (auto simp: AddCoin_def Let_def e_def e'_def split: if_splits)
  have "entry_ok (utxo (cv_base c)) p e'"
  proof (cases "map_of (cacheCoins c) p")
    case None
    then show ?thesis using absent p new by (auto simp: entry_ok_def e'_def e_def cache_utxo_entry)
  next
    case (Some e0)
    then show ?thesis using entry_of_ok [OF c Some] sp p new by (auto simp: entry_ok_def e'_def e_def visible_def)
  qed
  moreover have "visible (entry_coin e') = Some coin" using new(1) by (simp add: e'_def)
  ultimately show ?thesis using a c False cache_update [of ?c' c p e' utxo nf ok] by simp
qed

lemma SpendCoin_refines:
  assumes c: "cok c" and p: "outpoint_ok p" and s: "SpendCoin V mem c p = (r, c')"
  shows "cok c' \<and> cache_utxo utxo c' = (cache_utxo utxo c)(p := None) \<and> cache_nf nf c' = cache_nf nf c \<and>
    cache_utxo utxo c p = Option.bind r visible"
proof -
  obtain it c1 where f: "FetchCoin V mem c p = (it, c1)" by (cases "FetchCoin V mem c p")
  note fc = fetch_coin [OF c p f]
  show ?thesis
  proof (cases it)
    case None
    then have "r = None" "c' = c1" using s f by (simp_all add: SpendCoin_def)
    then show ?thesis using fc None by (simp add: fun_upd_idem)
  next
    case (Some e)
    have e: "entry_ok (utxo (cv_base c1)) p e" "map_of (cacheCoins c1) p = Some e" using fc Some by auto
    have r: "r = Some (entry_coin e)" using s f Some by (auto simp: SpendCoin_def Let_def split: if_splits)
    let ?e = "e\<lparr>DIRTY := True, entry_coin := coin_Clear (entry_coin e)\<rparr>"
    have "cok c' \<and> cache_utxo utxo c' = (cache_utxo utxo c1)(p := None) \<and> cache_nf nf c' = cache_nf nf c1"
    proof (cases "FRESH e")
      case True
      then have "utxo (cv_base c1) p = None" using e(1) by (simp add: entry_ok_def)
      moreover have "c' = c1\<lparr>cacheCoins := AList.delete p (cacheCoins c1), cachedCoinsUsage := cachedCoinsUsage c1 - mem (entry_coin e)\<rparr>"
        using True s f Some by (simp add: SpendCoin_def Let_def)
      ultimately show ?thesis using fc(1) cache_delete [of c' c1 p utxo nf ok] by simp
    next
      case False
      then have "entry_ok (utxo (cv_base c1)) p ?e" using p by (simp add: entry_ok_def)
      moreover have "c' = c1\<lparr>cacheCoins := AList.update p ?e (cacheCoins c1), cachedCoinsUsage := cachedCoinsUsage c1 - mem (entry_coin e)\<rparr>"
        using False s f Some by (simp add: SpendCoin_def Let_def)
      ultimately show ?thesis using fc(1) cache_update [of c' c1 p ?e utxo nf ok] by simp
    qed
    then show ?thesis using fc r Some by simp
  qed
qed

lemma Uncache_refines:
  assumes "cok c"
  shows "cok (Uncache mem c p) \<and> cache_utxo utxo (Uncache mem c p) = cache_utxo utxo c \<and> cache_nf nf (Uncache mem c p) = cache_nf nf c"
proof (cases "\<exists>e. map_of (cacheCoins c) p = Some e \<and> \<not> DIRTY e \<and> \<not> FRESH e")
  case True
  then obtain e where e: "map_of (cacheCoins c) p = Some e" "\<not> DIRTY e" "\<not> FRESH e" by blast
  let ?c = "Uncache mem c p"
  have "?c = c\<lparr>cacheCoins := AList.delete p (cacheCoins c), cachedCoinsUsage := cachedCoinsUsage c - mem (entry_coin e)\<rparr>"
    using e by (simp add: Uncache_def)
  moreover have "utxo (cv_base c) p = cache_utxo utxo c p"
    using entry_of_ok [OF assms e(1)] e by (simp add: entry_ok_def cache_utxo_entry)
  ultimately show ?thesis using cache_delete [of ?c c p utxo nf ok] assms by (simp add: fun_upd_idem)
next
  case False
  then have "Uncache mem c p = c" by (auto simp: Uncache_def split: option.splits)
  then show ?thesis using assms by simp
qed

text \<open>A batch from a child cache whose fresh entries are absent here.\<close>

lemma batch_coin_refines:
  assumes c: "cok c" and p: "outpoint_ok p" and new: "DIRTY ch \<Longrightarrow> coin_IsSpent (entry_coin ch) \<or> coin_ok (entry_coin ch)"
    and fresh: "DIRTY ch \<Longrightarrow> FRESH ch \<Longrightarrow> cache_utxo utxo c p = None"
  shows "\<exists>c'. batch_coin mem p ch c = Inr c' \<and> cok c' \<and> cache_nf nf c' = cache_nf nf c \<and>
    cache_utxo utxo c' = (if DIRTY ch then (cache_utxo utxo c)(p := visible (entry_coin ch)) else cache_utxo utxo c) \<and>
    cv_base c' = cv_base c \<and> cacheSaplingNullifiers c' = cacheSaplingNullifiers c"
proof (cases "DIRTY ch")
  case False
  then show ?thesis using c by (simp add: batch_coin_def)
next
  case dirty: True
  show ?thesis
  proof (cases "map_of (cacheCoins c) p")
    case None
    note u = cache_utxo_entry(2) [OF None, of utxo]
    show ?thesis
    proof (cases "FRESH ch \<and> coin_IsSpent (entry_coin ch)")
      case True
      then have "(cache_utxo utxo c)(p := visible (entry_coin ch)) = cache_utxo utxo c"
        using fresh [OF dirty] by (simp add: visible_def fun_upd_idem)
      then show ?thesis using True None c dirty by (simp add: batch_coin_def)
    next
      case False
      let ?e = "\<lparr>entry_coin = entry_coin ch, DIRTY = True, FRESH = FRESH ch\<rparr>"
      let ?c = "c\<lparr>cacheCoins := AList.update p ?e (cacheCoins c), cachedCoinsUsage := cachedCoinsUsage c + mem (entry_coin ch)\<rparr>"
      have "entry_ok (utxo (cv_base c)) p ?e" using fresh [OF dirty] new [OF dirty] u p by (simp add: entry_ok_def)
      then show ?thesis using False None c dirty cache_update [of ?c c p ?e utxo nf ok] by (auto simp: batch_coin_def)
    qed
  next
    case (Some us)
    note u = cache_utxo_entry(1) [OF Some, of utxo] and e = entry_of_ok [OF c Some]
    have sp: "\<not> (FRESH ch \<and> \<not> coin_IsSpent (entry_coin us))" using fresh [OF dirty] u by (auto simp: visible_def split: if_splits)
    show ?thesis
    proof (cases "FRESH us \<and> coin_IsSpent (entry_coin ch)")
      case True
      let ?c = "c\<lparr>cacheCoins := AList.delete p (cacheCoins c), cachedCoinsUsage := cachedCoinsUsage c - mem (entry_coin us)\<rparr>"
      have "utxo (cv_base c) p = visible (entry_coin ch)" using True e by (simp add: entry_ok_def visible_def)
      then show ?thesis using sp True Some c dirty cache_delete [of ?c c p utxo nf ok] by (simp add: batch_coin_def)
    next
      case False
      let ?e = "us\<lparr>entry_coin := entry_coin ch, DIRTY := True\<rparr>"
      let ?c = "c\<lparr>cacheCoins := AList.update p ?e (cacheCoins c),
                 cachedCoinsUsage := cachedCoinsUsage c - mem (entry_coin us) + mem (entry_coin ch)\<rparr>"
      have "entry_ok (utxo (cv_base c)) p ?e" using e new [OF dirty] by (simp add: entry_ok_def)
      then show ?thesis using sp False Some c dirty cache_update [of ?c c p ?e utxo nf ok] by (auto simp: batch_coin_def)
    qed
  qed
qed

lemma batch_coins_refines:
  "cok c \<Longrightarrow> batch_valid m (cache_utxo utxo c) \<Longrightarrow>
   \<exists>c'. batch_coins mem m c = Inr c' \<and> cok c' \<and> cache_nf nf c' = cache_nf nf c \<and>
     cache_utxo utxo c' = apply_coins m (cache_utxo utxo c) \<and> cv_base c' = cv_base c \<and>
     cacheSaplingNullifiers c' = cacheSaplingNullifiers c"
proof (induction m arbitrary: c)
  case Nil
  then show ?case by (simp add: apply_coins_def fun_eq_iff)
next
  case (Cons pe rest)
  obtain p e where pe: "pe = (p, e)" by (cases pe)
  have notin: "p \<notin> fst ` set rest" using Cons.prems(2) by (simp add: pe batch_valid_def)
  obtain c1 where c1: "batch_coin mem p e c = Inr c1" "cok c1" "cache_nf nf c1 = cache_nf nf c"
    "cache_utxo utxo c1 = (if DIRTY e then (cache_utxo utxo c)(p := visible (entry_coin e)) else cache_utxo utxo c)"
    "cv_base c1 = cv_base c" "cacheSaplingNullifiers c1 = cacheSaplingNullifiers c"
    using batch_coin_refines [OF Cons.prems(1), of p e mem] Cons.prems(2) by (auto simp: batch_valid_entries pe)
  have "batch_valid rest (cache_utxo utxo c1)"
    using batch_valid_Cons [OF Cons.prems(2) [unfolded pe]] by (simp add: c1(4))
  then show ?case using Cons.IH [OF c1(2)] c1 notin
    by (auto simp: pe apply_coins_Cons [OF notin])
qed

lemma BatchWrite_refines:
  assumes c: "cok c" and "batch_valid m (cache_utxo utxo c)" and "nullifiers_valid ns"
  shows "\<exists>c'. BatchWrite mem tmem c m h a ms ns = Inr (True, c') \<and> cok c' \<and>
    cache_utxo utxo c' = apply_coins m (cache_utxo utxo c) \<and> cache_nf nf c' = apply_nullifiers ns (cache_nf nf c)"
proof -
  obtain c1 where c1: "batch_coins mem m c = Inr c1" "cok c1" "cache_nf nf c1 = cache_nf nf c"
    "cache_utxo utxo c1 = apply_coins m (cache_utxo utxo c)" "cv_base c1 = cv_base c"
    "cacheSaplingNullifiers c1 = cacheSaplingNullifiers c"
    using batch_coins_refines [OF c assms(2)] by blast
  obtain anchors usage where an: "BatchWriteAnchors tmem ms (cacheSaplingAnchors c1, cachedCoinsUsage c1) = (anchors, usage)"
    by (cases "BatchWriteAnchors tmem ms (cacheSaplingAnchors c1, cachedCoinsUsage c1)")
  define c2 where "c2 = c1\<lparr>cacheSaplingAnchors := anchors, cachedCoinsUsage := usage,
     cacheSaplingNullifiers := BatchWriteNullifiers ns (cacheSaplingNullifiers c1), hashSaplingAnchor := a, hashBlock := h\<rparr>"
  have w: "BatchWrite mem tmem c m h a ms ns = Inr (True, c2)" by (simp add: BatchWrite_def c1(1) an c2_def)
  note nfs = BatchWriteNullifiers_refines [OF assms(3), of "cacheSaplingNullifiers c1" "nf (cv_base c1)"]
  have "cok c2" using c1(2) nfs by (simp add: cache_ok_nf c2_def)
  moreover have "cache_utxo utxo c2 = cache_utxo utxo c1" by (simp add: cache_utxo_def c2_def fun_eq_iff split: option.split)
  moreover have "cache_nf nf c2 = apply_nullifiers ns (cache_nf nf c1)"
    using c1(2) nfs by (simp add: cache_nf_lookup cache_ok_nf c2_def)
  ultimately show ?thesis using w c1 by simp
qed

lemma GetNullifier_refines:
  assumes c: "cok c" and n: "WIDTH n = 8" and g: "GetNullifier V c n = (b, c')"
  shows "cok c' \<and> cache_utxo utxo c' = cache_utxo utxo c \<and> cache_nf nf c' = cache_nf nf c \<and> b = cache_nf nf c n"
proof (cases "map_of (cacheSaplingNullifiers c) n")
  case (Some e)
  then show ?thesis using g c by (auto simp: GetNullifier_def cache_nf_def)
next
  case None
  obtain tmp v where v: "view_GetNullifier V (cv_base c) n = (tmp, v)" by (cases "view_GetNullifier V (cv_base c) n")
  have b: "ok v" "utxo v = utxo (cv_base c)" "nf v = nf (cv_base c)" "tmp = nf (cv_base c) n"
    using get_nullifier [OF _ n v] c by (auto simp: cache_ok_def)
  let ?e = "\<lparr>nf_entered = tmp, nf_DIRTY = False\<rparr>"
  have c': "b = tmp" "c' = c\<lparr>cv_base := v, cacheSaplingNullifiers := AList.update n ?e (cacheSaplingNullifiers c)\<rparr>"
    using g None v by (auto simp: GetNullifier_def)
  have "cok c'" using c b n by (simp add: cache_ok_nf c' nf_update)
  moreover have "cache_nf nf c' = (cache_nf nf c)(n := tmp)" by (simp add: cache_nf_lookup c' nf_update b)
  moreover have "cache_nf nf c n = tmp" using None b(4) by (simp add: cache_nf_def)
  moreover have "cache_utxo utxo c' = cache_utxo utxo c" by (simp add: cache_utxo_def c' b fun_eq_iff split: option.split)
  ultimately show ?thesis using c'(1) by (simp add: fun_upd_idem)
qed

lemma getters_refine:
  assumes c: "cok c"
  shows "GetBestBlock V c = (h, c1) \<Longrightarrow> cok c1 \<and> cache_utxo utxo c1 = cache_utxo utxo c \<and> cache_nf nf c1 = cache_nf nf c"
    and "GetBestAnchor V c = (h, c2) \<Longrightarrow> cok c2 \<and> cache_utxo utxo c2 = cache_utxo utxo c \<and> cache_nf nf c2 = cache_nf nf c"
    and "GetSaplingAnchorAt V tmem c rt = (t, c3) \<Longrightarrow> cok c3 \<and> cache_utxo utxo c3 = cache_utxo utxo c \<and> cache_nf nf c3 = cache_nf nf c"
proof -
  have b: "ok (cv_base c)" using c by (simp add: cache_ok_def)
  show "cok c1 \<and> cache_utxo utxo c1 = cache_utxo utxo c \<and> cache_nf nf c1 = cache_nf nf c" if "GetBestBlock V c = (h, c1)"
    using that get_best_block [OF b] cache_base [of c1 c ok utxo nf] c
    by (auto simp: GetBestBlock_def split: if_splits prod.splits)
  show "cok c2 \<and> cache_utxo utxo c2 = cache_utxo utxo c \<and> cache_nf nf c2 = cache_nf nf c" if "GetBestAnchor V c = (h, c2)"
    using that get_best_anchor [OF b] cache_base [of c2 c ok utxo nf] c
    by (auto simp: GetBestAnchor_def split: if_splits prod.splits)
  show "cok c3 \<and> cache_utxo utxo c3 = cache_utxo utxo c \<and> cache_nf nf c3 = cache_nf nf c" if "GetSaplingAnchorAt V tmem c rt = (t, c3)"
    using that get_anchor [OF b] cache_base [of c3 c ok utxo nf] c
    by (auto simp: GetSaplingAnchorAt_def split: option.splits prod.splits)
qed

text \<open>A cache over a view is a view, with the abstraction of the cache.\<close>

lemma cache_is_view: "coins_view (cache_view V mem tmem) cok (cache_utxo utxo) (cache_nf nf)"
proof
  show "\<not> coin_IsSpent coin \<and> coin_ok coin" if "cok c" "cache_utxo utxo c p = Some coin" for c p coin
    using that utxo_unspent by (auto simp: cache_utxo_def cache_ok_def entry_ok_def visible_def split: option.splits if_splits)
  fix c r c' p n b h rt t m a ms ns
  assume c: "cok c"
  show "cok c' \<and> cache_utxo utxo c' = cache_utxo utxo c \<and> cache_nf nf c' = cache_nf nf c \<and>
      cache_utxo utxo c p = Option.bind r visible" if "outpoint_ok p" "view_GetCoin (cache_view V mem tmem) c p = (r, c')"
    by (rule GetCoin_refines [OF c that [unfolded cache_view_sel]])
  show "cok c' \<and> cache_utxo utxo c' = cache_utxo utxo c \<and> cache_nf nf c' = cache_nf nf c \<and> b = cache_nf nf c n"
    if "WIDTH n = 8" "view_GetNullifier (cache_view V mem tmem) c n = (b, c')"
    by (rule GetNullifier_refines [OF c that [unfolded cache_view_sel]])
  show "cok c' \<and> cache_utxo utxo c' = cache_utxo utxo c \<and> cache_nf nf c' = cache_nf nf c"
    if "view_GetBestBlock (cache_view V mem tmem) c = (h, c')"
    by (rule getters_refine(1) [OF c that [unfolded cache_view_sel]])
  show "cok c' \<and> cache_utxo utxo c' = cache_utxo utxo c \<and> cache_nf nf c' = cache_nf nf c"
    if "view_GetSaplingAnchorAt (cache_view V mem tmem) c rt = (t, c')"
    by (rule getters_refine(3) [OF c that [unfolded cache_view_sel]])
  show "cok c' \<and> cache_utxo utxo c' = cache_utxo utxo c \<and> cache_nf nf c' = cache_nf nf c"
    if "view_GetBestAnchor (cache_view V mem tmem) c = (h, c')"
    by (rule getters_refine(2) [OF c that [unfolded cache_view_sel]])
  show "\<exists>c'. view_BatchWrite (cache_view V mem tmem) c m h a ms ns = Inr (True, c') \<and> cok c' \<and>
      cache_utxo utxo c' = apply_coins m (cache_utxo utxo c) \<and> cache_nf nf c' = apply_nullifiers ns (cache_nf nf c)"
    if "batch_valid m (cache_utxo utxo c)" "nullifiers_valid ns"
    unfolding cache_view_sel by (rule BatchWrite_refines [OF c that])
qed

text \<open>Flushing moves the state down and leaves the abstraction alone.\<close>

lemma Flush_refines:
  assumes c: "cok c" and h: "\<not> bu_is_null (hashBlock c)"
  shows "\<exists>c'. Flush V c = Inr (True, c') \<and> cok c' \<and> cacheCoins c' = [] \<and>
    cache_utxo utxo c' = cache_utxo utxo c \<and> utxo (cv_base c') = cache_utxo utxo c \<and>
    cache_nf nf c' = cache_nf nf c \<and> nf (cv_base c') = cache_nf nf c"
proof -
  have b: "ok (cv_base c)" "batch_valid (cacheCoins c) (utxo (cv_base c))" "nullifiers_valid (cacheSaplingNullifiers c)"
    using c by (auto simp: cache_ok_def batch_valid_def nullifiers_valid_def entry_ok_def)
  from batch_write [OF b h] obtain v where v: "view_BatchWrite V (cv_base c) (cacheCoins c) (hashBlock c) (hashSaplingAnchor c)
      (cacheSaplingAnchors c) (cacheSaplingNullifiers c) = Inr (True, v)" "ok v"
    "utxo v = apply_coins (cacheCoins c) (utxo (cv_base c))" "nf v = apply_nullifiers (cacheSaplingNullifiers c) (nf (cv_base c))"
    by blast
  have u: "utxo v = cache_utxo utxo c"
    using c by (auto simp: v(3) fun_eq_iff apply_coins_def cache_utxo_def cache_ok_def entry_ok_def split: option.split)
  have n: "nf v = cache_nf nf c"
    using c by (auto simp: v(4) fun_eq_iff apply_nullifiers_def cache_nf_def cache_ok_def split: option.split)
  show ?thesis using v(1,2) u n by (simp add: Flush_def cache_ok_def cache_utxo_def cache_nf_def fun_eq_iff)
qed

text \<open>Queries over the inputs of a transaction, and adding its outputs.\<close>

lemma have_inputs_refines:
  assumes "cok c" and "list_all (\<lambda>i. outpoint_ok (prevout i)) ins" and "have_inputs V mem ins c = (b, c')"
  shows "cok c' \<and> cache_utxo utxo c' = cache_utxo utxo c \<and> cache_nf nf c' = cache_nf nf c \<and>
    b = list_all (\<lambda>i. cache_utxo utxo c (prevout i) \<noteq> None) ins"
  using assms
proof (induction ins arbitrary: c)
  case (Cons i ins)
  obtain b1 c1 where h: "HaveCoin V mem c (prevout i) = (b1, c1)" by (cases "HaveCoin V mem c (prevout i)")
  have r: "cok c1" "cache_utxo utxo c1 = cache_utxo utxo c" "cache_nf nf c1 = cache_nf nf c" "b1 = (cache_utxo utxo c (prevout i) \<noteq> None)"
    using HaveCoin_refines [OF Cons.prems(1) _ h] Cons.prems(2) by auto
  show ?case
  proof (cases b1)
    case True
    then have "have_inputs V mem ins c1 = (b, c')" using Cons.prems(3) h by simp
    then show ?thesis using Cons.IH [OF r(1)] Cons.prems(2) r True by simp
  next
    case False
    then show ?thesis using Cons.prems(3) h r by simp
  qed
qed simp

lemma sum_inputs_refines:
  assumes "cok c" and "list_all (\<lambda>i. outpoint_ok (prevout i) \<and> cache_utxo utxo c (prevout i) \<noteq> None) ins"
    and "sum_inputs V mem ins acc c = (s, c')" and "wrap64 acc = acc"
  shows "cok c' \<and> cache_utxo utxo c' = cache_utxo utxo c \<and> cache_nf nf c' = cache_nf nf c \<and>
    s = wrap64 (acc + (\<Sum>i\<leftarrow>ins. nValue (coin_out (the (cache_utxo utxo c (prevout i))))))"
  using assms
proof (induction ins arbitrary: c acc)
  case (Cons i ins)
  obtain coin c1 where h: "AccessCoin V mem c (prevout i) = (coin, c1)" by (cases "AccessCoin V mem c (prevout i)")
  have r: "cok c1" "cache_utxo utxo c1 = cache_utxo utxo c" "cache_nf nf c1 = cache_nf nf c" "visible coin = cache_utxo utxo c (prevout i)"
    using AccessCoin_refines [OF Cons.prems(1) _ h] Cons.prems(2) by auto
  have "the (cache_utxo utxo c (prevout i)) = coin"
    using r(4) [symmetric] Cons.prems(2) by (auto simp: visible_def split: if_splits)
  moreover have "sum_inputs V mem ins (wrap64 (acc + nValue (coin_out coin))) c1 = (s, c')" using Cons.prems(3) h by simp
  moreover have "wrap64 (wrap64 n) = wrap64 n" for n using wrap64_simps(1) [of n 0] by simp
  ultimately show ?case using Cons.IH [OF r(1), of "wrap64 (acc + nValue (coin_out coin))"] Cons.prems(2) r
    by (simp add: wrap64_simps add.assoc)
qed simp

lemma add_outputs_refines:
  assumes "cok c" and "WIDTH txid = 8" and "i + length outs \<le> 2 ^ 32"
    and "list_all (\<lambda>o1. coin_ok (Coin_new o1 h cb cs)) outs"
    and "chk \<or> (\<forall>p. op_hash p = txid \<longrightarrow> i \<le> unat (op_n p) \<longrightarrow> unat (op_n p) < i + length outs \<longrightarrow> cache_utxo utxo c p = None)"
  shows "\<exists>c'. add_outputs V mem txid cb cs h chk i outs c = Inr c' \<and> cok c' \<and> cache_nf nf c' = cache_nf nf c \<and>
    cache_utxo utxo c' = cache_utxo utxo c ++ out_coin txid cb cs h i outs"
  using assms
proof (induction outs arbitrary: i c)
  case Nil
  have "out_coin txid cb cs h i [] = Map.empty" by (simp add: out_coin_def fun_eq_iff Let_def)
  then show ?case using Nil by simp
next
  case (Cons o1 outs)
  define p where "p = \<lparr>op_hash = txid, op_n = of_nat i\<rparr>"
  have i: "unat (op_n p) = i" using Cons.prems(3) by (simp add: p_def unat_of_nat)
  have p: "outpoint_ok p" using Cons.prems(2) by (simp add: p_def outpoint_ok_def)
  obtain ow c1 where h: "(if chk then HaveCoin V mem c p else (False, c)) = (ow, c1)" by (cases "if chk then HaveCoin V mem c p else (False, c)")
  have c1: "cok c1" "cache_utxo utxo c1 = cache_utxo utxo c" "cache_nf nf c1 = cache_nf nf c" "ow \<or> cache_utxo utxo c1 p = None"
    using h HaveCoin_refines [OF Cons.prems(1) p, of mem ow c1] Cons.prems(1,5) i by (auto simp: p_def split: if_splits)
  let ?coin = "Coin_new o1 h cb cs"
  have ok: "coin_ok ?coin" "\<not> coin_IsSpent ?coin"
    using Cons.prems(4) by (auto simp: coin_ok_def coin_IsSpent_def txout_IsNull_def)
  have scr: "scriptPubKey (coin_out ?coin) = scriptPubKey o1" by (simp add: Coin_new_def)
  from AddCoin_refines [OF c1(1) p ok(2,1) c1(4), of mem] obtain c2 where
    c2: "AddCoin mem c1 p ?coin ow = Inr c2" "cok c2" "cache_nf nf c2 = cache_nf nf c"
      "cache_utxo utxo c2 = (if IsUnspendable (scriptPubKey o1) then cache_utxo utxo c else (cache_utxo utxo c)(p \<mapsto> ?coin))"
    using c1(2,3) by (auto simp: scr)
  have step: "add_outputs V mem txid cb cs h chk i (o1 # outs) c = add_outputs V mem txid cb cs h chk (Suc i) outs c2"
    using h c2(1) by (simp add: p_def [symmetric])
  have "q \<noteq> p" if "Suc i \<le> unat (op_n q)" for q using that i by auto
  then have "chk \<or> (\<forall>q. op_hash q = txid \<longrightarrow> Suc i \<le> unat (op_n q) \<longrightarrow> unat (op_n q) < Suc i + length outs \<longrightarrow> cache_utxo utxo c2 q = None)"
    using Cons.prems(5) by (auto simp: c2(4))
  then obtain c' where "add_outputs V mem txid cb cs h chk (Suc i) outs c2 = Inr c'" "cok c'" "cache_nf nf c' = cache_nf nf c2"
      "cache_utxo utxo c' = cache_utxo utxo c2 ++ out_coin txid cb cs h (Suc i) outs"
    using Cons.IH [OF c2(2), of "Suc i"] Cons.prems(2-4) by auto
  moreover have "cache_utxo utxo c2 ++ out_coin txid cb cs h (Suc i) outs = cache_utxo utxo c ++ out_coin txid cb cs h i (o1 # outs)"
    unfolding c2(4) using i by (intro out_coin_step) (simp_all add: p_def)
  ultimately show ?case using step c2(3) by auto
qed

end

end
