(* ===== verification/Compressor.thy ===== *)
theory Compressor
  imports Coins
begin

unbundle bit_operations_syntax

text \<open>
  The compact form of a coin in the database: \<open>src/src/compressor.h\<close>, \<open>compressor.cpp\<close> and
  \<open>Coin::Serialize\<close> of \<open>coins.h\<close>.  A public key (\<open>src/src/pubkey.h\<close>) is the bytes between its \<open>begin\<close> and
  \<open>end\<close>, an invalid one is empty.  The elliptic curve is libsecp256k1: \<open>ec_parse\<close> and \<open>ec_ser\<close> are
  \<open>secp256k1_ec_pubkey_parse\<close> and \<open>secp256k1_ec_pubkey_serialize\<close> with \<open>SECP256K1_EC_UNCOMPRESSED\<close>, and
  \<open>ec_laws\<close> is what the library documents of them.
\<close>

section \<open>Public keys\<close>

type_synonym CPubKey = "byte list"

definition pk_GetLen :: "byte \<Rightarrow> nat" where
  "pk_GetLen chHeader = (if chHeader = 2 \<or> chHeader = 3 then 33
     else if chHeader = 4 \<or> chHeader = 6 \<or> chHeader = 7 then 65 else 0)"

definition pk_Set :: "byte list \<Rightarrow> CPubKey" where
  "pk_Set p = (let len = (if p = [] then 0 else pk_GetLen (hd p)) in if len \<noteq> 0 \<and> len = length p then p else [])"

definition pk_IsValid :: "CPubKey \<Rightarrow> bool" where
  "pk_IsValid pk \<longleftrightarrow> length pk > 0"

definition pk_IsFullyValid :: "(byte list \<Rightarrow> 'p option) \<Rightarrow> CPubKey \<Rightarrow> bool" where
  "pk_IsFullyValid ec_parse pk \<longleftrightarrow> pk_IsValid pk \<and> ec_parse pk \<noteq> None"

definition pk_Decompress :: "(byte list \<Rightarrow> 'p option) \<Rightarrow> ('p \<Rightarrow> byte list) \<Rightarrow> CPubKey \<Rightarrow> CPubKey option" where
  "pk_Decompress ec_parse ec_ser pk = (if \<not> pk_IsValid pk then None
     else case ec_parse pk of None \<Rightarrow> None | Some pubkey \<Rightarrow> Some (pk_Set (ec_ser pubkey)))"

section \<open>Scripts\<close>

definition IsToKeyID :: "CScript \<Rightarrow> byte list option" where
  "IsToKeyID script = (if length script = 25 \<and> script ! 0 = OP_DUP \<and> script ! 1 = OP_HASH160 \<and> script ! 2 = 20 \<and>
       script ! 23 = OP_EQUALVERIFY \<and> script ! 24 = OP_CHECKSIG
     then Some (take 20 (drop 3 script)) else None)"

definition IsToScriptID :: "CScript \<Rightarrow> byte list option" where
  "IsToScriptID script = (if length script = 23 \<and> script ! 0 = OP_HASH160 \<and> script ! 1 = 20 \<and> script ! 22 = OP_EQUAL
     then Some (take 20 (drop 2 script)) else None)"

definition IsToPubKey :: "(byte list \<Rightarrow> 'p option) \<Rightarrow> CScript \<Rightarrow> CPubKey option" where
  "IsToPubKey ec_parse script =
     (if length script = 35 \<and> script ! 0 = 33 \<and> script ! 34 = OP_CHECKSIG \<and> (script ! 1 = 0x02 \<or> script ! 1 = 0x03)
      then Some (pk_Set (take 33 (drop 1 script)))
      else if length script = 67 \<and> script ! 0 = 65 \<and> script ! 66 = OP_CHECKSIG \<and> script ! 1 = 0x04
      then let pubkey = pk_Set (take 65 (drop 1 script)) in if pk_IsFullyValid ec_parse pubkey then Some pubkey else None
      else None)"

definition compress_pubkey :: "CPubKey \<Rightarrow> byte list option" where
  "compress_pubkey pubkey =
     (if pubkey ! 0 = 0x02 \<or> pubkey ! 0 = 0x03 then Some (pubkey ! 0 # take 32 (drop 1 pubkey))
      else if pubkey ! 0 = 0x04 then Some ((0x04 OR (pubkey ! 64 AND 0x01)) # take 32 (drop 1 pubkey))
      else None)"

definition Compress :: "(byte list \<Rightarrow> 'p option) \<Rightarrow> CScript \<Rightarrow> byte list option" where
  "Compress ec_parse script = (case IsToKeyID script of Some keyID \<Rightarrow> Some (0x00 # keyID)
     | None \<Rightarrow> (case IsToScriptID script of Some scriptID \<Rightarrow> Some (0x01 # scriptID)
     | None \<Rightarrow> (case IsToPubKey ec_parse script of Some pubkey \<Rightarrow> compress_pubkey pubkey
     | None \<Rightarrow> None)))"

definition GetSpecialSize :: "u32 \<Rightarrow> nat" where
  "GetSpecialSize nSize = (if nSize = 0 \<or> nSize = 1 then 20
     else if nSize = 2 \<or> nSize = 3 \<or> nSize = 4 \<or> nSize = 5 then 32 else 0)"

text \<open>The script after \<open>Decompress\<close>, which leaves it alone when it returns false.\<close>

definition Decompress :: "(byte list \<Rightarrow> 'p option) \<Rightarrow> ('p \<Rightarrow> byte list) \<Rightarrow> u32 \<Rightarrow> byte list \<Rightarrow> CScript \<Rightarrow>
    ser_error + (bool \<times> CScript)" where
  "Decompress ec_parse ec_ser nSize vch script =
     (if nSize = 0x00 then Inr (True, [OP_DUP, OP_HASH160, 20] @ take 20 vch @ [OP_EQUALVERIFY, OP_CHECKSIG])
      else if nSize = 0x01 then Inr (True, [OP_HASH160, 20] @ take 20 vch @ [OP_EQUAL])
      else if nSize = 0x02 \<or> nSize = 0x03 then Inr (True, [33, ucast nSize] @ take 32 vch @ [OP_CHECKSIG])
      else if nSize = 0x04 \<or> nSize = 0x05 then
        (case pk_Decompress ec_parse ec_ser (pk_Set (ucast (nSize - 2) # take 32 vch)) of
           None \<Rightarrow> Inr (False, script)
         | Some pubkey \<Rightarrow> if length pubkey \<noteq> 65 then Inl AssertFailed
             else Inr (True, [65] @ pubkey @ [OP_CHECKSIG]))
      else Inr (False, script))"

definition nSpecialScripts :: u32 where "nSpecialScripts = 6"

definition Serialize_script :: "(byte list \<Rightarrow> 'p option) \<Rightarrow> CScript \<Rightarrow> byte list" where
  "Serialize_script ec_parse script = (case Compress ec_parse script of
       Some compr \<Rightarrow> compr
     | None \<Rightarrow> WriteVarInt (of_nat (length script) + nSpecialScripts) @ script)"

text \<open>\<open>s.ignore (nSize)\<close>: the argument is converted to \<open>int\<close>.\<close>

definition ignore_bytes :: "u32 \<Rightarrow> unit reader" where
  "ignore_bytes nSize = (if sint nSize < 0 then rfail IgnoreNegativeSize
     else rbind (read_bytes (unat nSize)) (\<lambda>_. rreturn ()))"

definition Unserialize_script :: "(byte list \<Rightarrow> 'p option) \<Rightarrow> ('p \<Rightarrow> byte list) \<Rightarrow> CScript \<Rightarrow> CScript reader" where
  "Unserialize_script ec_parse ec_ser script = rbind ReadVarInt (\<lambda>nSize.
     if nSize < nSpecialScripts then
       rbind (read_bytes (GetSpecialSize nSize)) (\<lambda>vch. case Decompress ec_parse ec_ser nSize vch script of
         Inl e \<Rightarrow> rfail e | Inr (ok, script') \<Rightarrow> rreturn script')
     else let nSize = nSize - nSpecialScripts
       in if unat nSize > MAX_SCRIPT_SIZE then rbind (ignore_bytes nSize) (\<lambda>_. rreturn (push_opcode script OP_RETURN))
          else read_bytes (unat nSize))"

section \<open>Amounts\<close>

function strip_zeros :: "u64 \<Rightarrow> nat \<Rightarrow> u64 \<times> nat" where
  "strip_zeros n e = (if n mod 10 = 0 \<and> e < 9 then strip_zeros (n div 10) (e + 1) else (n, e))"
  by auto

termination by (relation "measure (\<lambda>(n, e). 9 - e)") auto

definition CompressAmount :: "u64 \<Rightarrow> u64" where
  "CompressAmount n = (if n = 0 then 0 else (case strip_zeros n 0 of (n, e) \<Rightarrow>
     if e < 9 then (let d = n mod 10; n = n div 10 in 1 + (n * 9 + d - 1) * 10 + of_nat e)
     else 1 + (n - 1) * 10 + 9))"

fun append_zeros :: "nat \<Rightarrow> u64 \<Rightarrow> u64" where
  "append_zeros 0 n = n"
| "append_zeros (Suc e) n = append_zeros e (n * 10)"

definition DecompressAmount :: "u64 \<Rightarrow> u64" where
  "DecompressAmount x = (if x = 0 then 0 else
     let x = x - 1; e = unat (x mod 10); x = x div 10;
         n = (if e < 9 then (let d = x mod 9 + 1; x = x div 9 in x * 10 + d) else x + 1)
     in append_zeros e n)"

definition Serialize_txout_compressed :: "(byte list \<Rightarrow> 'p option) \<Rightarrow> CTxOut \<Rightarrow> byte list" where
  "Serialize_txout_compressed ec_parse txout =
     WriteVarInt (CompressAmount (word_of_int (nValue txout))) @ Serialize_script ec_parse (scriptPubKey txout)"

definition Unserialize_txout_compressed :: "(byte list \<Rightarrow> 'p option) \<Rightarrow> ('p \<Rightarrow> byte list) \<Rightarrow> CTxOut \<Rightarrow> CTxOut reader" where
  "Unserialize_txout_compressed ec_parse ec_ser txout = rbind ReadVarInt (\<lambda>nVal.
     rbind (Unserialize_script ec_parse ec_ser (scriptPubKey txout)) (\<lambda>script.
       rreturn (txout\<lparr>nValue := sint (DecompressAmount nVal), scriptPubKey := script\<rparr>)))"

section \<open>Coins\<close>

definition coin_code :: "Coin \<Rightarrow> u32" where
  "coin_code coin = coin_height coin * 4 + (if fCoinBase coin then 2 else 0) + (if fCoinStake coin then 1 else 0)"

definition Serialize_coin :: "(byte list \<Rightarrow> 'p option) \<Rightarrow> Coin \<Rightarrow> byte list option" where
  "Serialize_coin ec_parse coin = (if coin_IsSpent coin then None
     else Some (WriteVarInt (coin_code coin) @ Serialize_txout_compressed ec_parse (coin_out coin)))"

definition Unserialize_coin :: "(byte list \<Rightarrow> 'p option) \<Rightarrow> ('p \<Rightarrow> byte list) \<Rightarrow> Coin \<Rightarrow> Coin reader" where
  "Unserialize_coin ec_parse ec_ser coin = rbind ReadVarInt (\<lambda>code.
     rbind (Unserialize_txout_compressed ec_parse ec_ser (coin_out coin)) (\<lambda>out.
       rreturn (coin\<lparr>coin_height := drop_bit 2 code, fCoinBase := (code AND 2 \<noteq> 0), fCoinStake := (code AND 1 \<noteq> 0), coin_out := out\<rparr>)))"

section \<open>Amounts survive compression\<close>

declare strip_zeros.simps [simp del]

lemma u64_of_nat: "unat (x :: u64) = k \<Longrightarrow> x = of_nat k"
  by auto

lemma unat_of_nat_u64: "k < 2 ^ 64 \<Longrightarrow> unat (of_nat k :: u64) = k"
  by (simp add: unat_of_nat)

lemma u64_div_mod:
  "unat (x :: u64) = k \<Longrightarrow> c < 2 ^ 64 \<Longrightarrow> x div of_nat c = of_nat (k div c)"
  "unat (x :: u64) = k \<Longrightarrow> c < 2 ^ 64 \<Longrightarrow> x mod of_nat c = of_nat (k mod c)"
  by (auto intro!: u64_of_nat simp: unat_div unat_mod unat_of_nat)

lemma u64_exact: "(n :: u64) mod 10 = 0 \<Longrightarrow> n = n div 10 * 10"
  by (metis add.right_neutral div_mult_mod_eq)

lemma strip_zeros_exact:
  "strip_zeros n e = (m, f) \<Longrightarrow> e \<le> 9 \<Longrightarrow> e \<le> f \<and> f \<le> 9 \<and> n = m * 10 ^ (f - e) \<and> (f < 9 \<longrightarrow> m mod 10 \<noteq> 0) \<and> unat m \<le> unat n"
proof (induction n e rule: strip_zeros.induct)
  case (1 n e)
  show ?case
  proof (cases "n mod 10 = 0 \<and> e < 9")
    case True
    then have s: "strip_zeros (n div 10) (e + 1) = (m, f)" using "1.prems" by (subst (asm) strip_zeros.simps) simp
    have ih: "e + 1 \<le> f" "f \<le> 9" "n div 10 = m * 10 ^ (f - (e + 1))" "f < 9 \<longrightarrow> m mod 10 \<noteq> 0" "unat m \<le> unat (n div 10)"
      using "1.IH" [OF True s] True by auto
    have "n = n div 10 * 10" by (rule u64_exact) (use True in simp)
    also have "\<dots> = m * 10 ^ (f - e)" using ih(1) by (simp add: ih(3) power_Suc2 [symmetric] Suc_diff_Suc mult.assoc)
    finally have "n = m * 10 ^ (f - e)" .
    moreover have "unat (n div 10) \<le> unat n" by (simp add: unat_div div_le_dividend)
    ultimately show ?thesis using ih by auto
  next
    case False
    then have "m = n" "f = e" using "1.prems" by (subst (asm) strip_zeros.simps; auto)+
    then show ?thesis using False "1.prems"(2) by auto
  qed
qed

lemma append_zeros: "append_zeros e n = n * 10 ^ e"
  by (induction e arbitrary: n) (simp_all add: mult.assoc)

text \<open>The assertion of \<open>CompressAmount\<close>: the last digit is between 1 and 9.\<close>

lemma CompressAmount_digit:
  assumes "n \<noteq> 0" and "strip_zeros n 0 = (m, e)" and "e < 9"
  shows "1 \<le> unat (m mod 10) \<and> unat (m mod 10) \<le> 9"
proof -
  have "unat (m mod 10) \<noteq> 0" using strip_zeros_exact [OF assms(2)] assms(3) by (simp add: unat_eq_0)
  moreover have "unat (m mod 10) < 10" by (simp add: unat_mod)
  ultimately show ?thesis by linarith
qed

lemma DecompressAmount_eqI:
  assumes "unat x = Suc (10 * y + e)" and "e < 10"
  shows "DecompressAmount x = (if e < 9 then of_nat (y div 9 * 10 + (y mod 9 + 1)) else of_nat (y + 1)) * 10 ^ e"
proof -
  have x0: "x \<noteq> 0" using assms(1) by auto
  have x1: "unat (x - 1) = 10 * y + e" using assms(1) x0 by (simp add: unat_minus_one)
  have "unat ((x - 1) mod 10) = e" using x1 assms(2) by (simp add: unat_mod)
  moreover have d: "unat ((x - 1) div 10) = y" using x1 assms(2) by (simp add: unat_div)
  moreover have "(x - 1) div 10 = of_nat y" by (rule u64_of_nat [OF d])
  moreover have "(x - 1) div 10 div 9 = of_nat (y div 9)" "(x - 1) div 10 mod 9 = of_nat (y mod 9)"
    using u64_div_mod [OF d, of 9] by simp_all
  ultimately show ?thesis using x0 by (simp add: DecompressAmount_def Let_def append_zeros ac_simps)
qed

lemma amount_roundtrip:
  assumes "unat n < 2 ^ 60"
  shows "DecompressAmount (CompressAmount n) = n"
proof (cases "n = 0")
  case True
  then show ?thesis by (simp add: CompressAmount_def DecompressAmount_def)
next
  case False
  obtain m e where s: "strip_zeros n 0 = (m, e)" by (cases "strip_zeros n 0")
  note ex = strip_zeros_exact [OF s]
  have m: "unat m < 2 ^ 60" "n = m * 10 ^ e" "e \<le> 9" using ex assms by auto
  have m0: "unat m \<noteq> 0" using m(2) False by (auto simp: unat_eq_0)
  define M where "M = unat m"
  have mM: "m = of_nat M" by (simp add: M_def)
  show ?thesis
  proof (cases "e < 9")
    case True
    define d where "d = M mod 10"
    define q where "q = M div 10"
    have d: "1 \<le> d" "d \<le> 9" using CompressAmount_digit [OF False s True] by (simp_all add: d_def M_def unat_mod)
    have w: "m mod 10 = of_nat d" "m div 10 = of_nat q"
      using u64_div_mod [of m M 10] by (simp_all add: M_def d_def q_def)
    obtain k where k: "d = Suc k" using d(1) by (cases d) auto
    have c: "CompressAmount n = of_nat (Suc (10 * (9 * q + k) + e))"
      using False s True w by (simp add: CompressAmount_def k algebra_simps)
    have "Suc (10 * (9 * q + k) + e) < 2 ^ 64" using m(1) d True by (simp add: q_def M_def k)
    then have "unat (CompressAmount n) = Suc (10 * (9 * q + k) + e)" unfolding c by (rule unat_of_nat_u64)
    from DecompressAmount_eqI [OF this] True d
    have "DecompressAmount (CompressAmount n) = of_nat (q * 10 + d) * 10 ^ e" by (simp add: k)
    moreover have "q * 10 + d = M" by (simp add: q_def d_def)
    ultimately show ?thesis using m(2) mM by simp
  next
    case e9: False
    then have e: "e = 9" using m(3) by simp
    obtain k where k: "M = Suc k" using m0 by (cases M) (auto simp: M_def)
    have c: "CompressAmount n = of_nat (Suc (10 * k + 9))"
      using False s e by (simp add: CompressAmount_def mM k)
    have "M < 2 ^ 60" using m(1) by (simp add: M_def)
    then have "Suc (10 * k + 9) < 2 ^ 64" by (simp add: k)
    then have "unat (CompressAmount n) = Suc (10 * k + 9)" unfolding c by (rule unat_of_nat_u64)
    from DecompressAmount_eqI [OF this]
    have "DecompressAmount (CompressAmount n) = of_nat M * 10 ^ 9" by (simp add: k)
    then show ?thesis using m(2) e mM by simp
  qed
qed

section \<open>Scripts survive compression\<close>

text \<open>
  Documented of libsecp256k1: serialising a point that was parsed from its uncompressed form with header
  4 gives that form again, and the compressed form, the parity of y and the bytes of x, parses to the
  same point.
\<close>

definition ec_laws :: "(byte list \<Rightarrow> 'p option) \<Rightarrow> ('p \<Rightarrow> byte list) \<Rightarrow> bool" where
  "ec_laws ec_parse ec_ser \<longleftrightarrow> (\<forall>k pt. length k = 65 \<longrightarrow> k ! 0 = 4 \<longrightarrow> ec_parse k = Some pt \<longrightarrow>
     ec_ser pt = k \<and> ec_parse ((2 OR (k ! 64 AND 1)) # take 32 (drop 1 k)) = Some pt)"

lemma first_bytes: "2 \<le> length s \<Longrightarrow> take 2 s = [s ! 0, s ! 1]" "3 \<le> length s \<Longrightarrow> take 3 s = [s ! 0, s ! 1, s ! 2]"
  "1 \<le> length s \<Longrightarrow> take 1 s = [s ! 0]"
  by (cases s; cases "tl s"; cases "tl (tl s)"; simp)+

lemma last_bytes: "length s = Suc n \<Longrightarrow> drop n s = [s ! n]" "length s = Suc (Suc n) \<Longrightarrow> drop n s = [s ! n, s ! Suc n]"
  by (simp_all flip: Cons_nth_drop_Suc)

lemma window: "s = take a s @ take n (drop a s) @ drop (n + a) s"
  by (metis append_take_drop_id drop_drop)

lemma IsToKeyID_Some: "IsToKeyID s = Some h \<Longrightarrow> length h = 20 \<and> s = [OP_DUP, OP_HASH160, 20] @ h @ [OP_EQUALVERIFY, OP_CHECKSIG]"
  using window [of s 3 20] last_bytes(2) [of s 23] first_bytes(2) [of s]
  by (auto simp: IsToKeyID_def split: if_splits)

lemma IsToScriptID_Some: "IsToScriptID s = Some h \<Longrightarrow> length h = 20 \<and> s = [OP_HASH160, 20] @ h @ [OP_EQUAL]"
  using window [of s 2 20] last_bytes(1) [of s 22] first_bytes(1) [of s]
  by (auto simp: IsToScriptID_def split: if_splits)

lemma IsToPubKey_Some:
  assumes "IsToPubKey ec_parse s = Some pk"
  shows "(length pk = 33 \<and> (pk ! 0 = 2 \<or> pk ! 0 = 3) \<and> s = [33] @ pk @ [OP_CHECKSIG]) \<or>
    (length pk = 65 \<and> pk ! 0 = 4 \<and> ec_parse pk \<noteq> None \<and> s = [65] @ pk @ [OP_CHECKSIG])"
proof (cases "length s = 35 \<and> s ! 0 = 33 \<and> s ! 34 = OP_CHECKSIG \<and> (s ! 1 = 0x02 \<or> s ! 1 = 0x03)")
  case True
  let ?k = "take 33 (drop 1 s)"
  have k: "length ?k = 33" "?k ! 0 = s ! 1" "hd ?k = s ! 1" using True by (auto simp: hd_conv_nth)
  then have "pk_Set ?k = ?k" using True by (auto simp: pk_Set_def pk_GetLen_def)
  then have "pk = ?k" using assms True by (simp add: IsToPubKey_def)
  then show ?thesis using True k window [of s 1 33] last_bytes(1) [of s 34] first_bytes(3) [of s] by simp
next
  case False
  let ?k = "take 65 (drop 1 s)"
  have l: "length s = 67" "s ! 0 = 65" "s ! 66 = OP_CHECKSIG" "s ! 1 = 4"
    and p: "(let pubkey = pk_Set ?k in if pk_IsFullyValid ec_parse pubkey then Some pubkey else None) = Some pk"
    using assms False by (auto simp: IsToPubKey_def split: if_splits)
  have k: "length ?k = 65" "?k ! 0 = s ! 1" "hd ?k = s ! 1" using l by (auto simp: hd_conv_nth)
  then have "pk_Set ?k = ?k" using l by (auto simp: pk_Set_def pk_GetLen_def)
  then have "pk = ?k" "ec_parse pk \<noteq> None" using p by (auto simp: pk_IsFullyValid_def Let_def split: if_splits)
  then show ?thesis using l k window [of s 1 65] last_bytes(1) [of s 66] first_bytes(3) [of s] by simp
qed

lemma read_special: "b \<in> {0, 1, 2, 3, 4, 5} \<Longrightarrow> (ReadVarInt :: u32 reader) (b # s) = Inr (ucast b, s)"
  by (auto simp: ReadVarInt_def)

text \<open>A special script: the first byte selects the case, the rest is the payload.\<close>

lemma unserialize_special:
  assumes "b \<in> {0, 1, 2, 3, 4, 5}" and "length payload = GetSpecialSize (ucast b)"
    and "Decompress ec_parse ec_ser (ucast b) payload script0 = Inr (f, script)"
  shows "Unserialize_script ec_parse ec_ser script0 ((b # payload) @ s) = Inr (script, s)"
proof -
  have "(ucast b :: u32) < nSpecialScripts" using assms(1) by (auto simp: nSpecialScripts_def)
  then show ?thesis using assms by (simp add: Unserialize_script_def read_special)
qed

lemma parity_cases: "((y :: byte) AND 1 = 0) \<or> (y AND 1 = 1)"
  by (simp add: and_one_eq mod_2_eq_odd)

lemma Compress_correct:
  assumes "ec_laws ec_parse ec_ser" and "Compress ec_parse script = Some out"
  shows "Unserialize_script ec_parse ec_ser script0 (out @ s) = Inr (script, s)"
proof -
  consider h where "IsToKeyID script = Some h" "out = 0 # h" | h where "IsToScriptID script = Some h" "out = 1 # h"
    | pk where "IsToPubKey ec_parse script = Some pk" "compress_pubkey pk = Some out"
    using assms(2) by (auto simp: Compress_def split: option.splits)
  then show ?thesis
  proof cases
    case 1
    show ?thesis unfolding 1(2) using IsToKeyID_Some [OF 1(1)]
      by (intro unserialize_special [where f = True]) (auto simp: GetSpecialSize_def Decompress_def)
  next
    case 2
    show ?thesis unfolding 2(2) using IsToScriptID_Some [OF 2(1)]
      by (intro unserialize_special [where f = True]) (auto simp: GetSpecialSize_def Decompress_def)
  next
    case 3
    from IsToPubKey_Some [OF 3(1)]
    consider (short) "length pk = 33" "pk ! 0 = 2 \<or> pk ! 0 = 3" "script = [33] @ pk @ [OP_CHECKSIG]"
      | (full) "length pk = 65" "pk ! 0 = 4" "ec_parse pk \<noteq> None" "script = [65] @ pk @ [OP_CHECKSIG]" by blast
    then show ?thesis
    proof cases
      case k: short
      then have "pk = pk ! 0 # drop 1 pk" by (cases pk) auto
      moreover have "out = pk ! 0 # drop 1 pk" using 3(2) k by (auto simp: compress_pubkey_def)
      ultimately have o2: "out = pk ! 0 # drop 1 pk" "script = 33 # pk ! 0 # drop 1 pk @ [OP_CHECKSIG]" using k(3) by simp_all
      show ?thesis unfolding o2 using k(1,2)
        by (intro unserialize_special [where f = True]) (auto simp: GetSpecialSize_def Decompress_def)
    next
      case k: full
      let ?x = "take 32 (drop 1 pk)" and ?y = "pk ! 64 AND 1"
      have out: "out = (4 OR ?y) # ?x" using 3(2) k by (simp add: compress_pubkey_def)
      obtain pt where pt: "ec_ser pt = pk" "ec_parse ((2 OR ?y) # ?x) = Some pt"
        using assms(1) k by (auto simp: ec_laws_def)
      have b: "4 OR ?y \<in> {4, 5}" "(ucast ((ucast (4 OR ?y) :: u32) - 2) :: byte) = 2 OR ?y" "2 OR ?y \<in> {2, 3}"
        using parity_cases [of "pk ! 64"] by auto
      have "pk_Set ((2 OR ?y) # ?x) = (2 OR ?y) # ?x" using b(3) k(1) by (auto simp: pk_Set_def pk_GetLen_def)
      moreover have "pk_Set pk = pk" using k(1,2) by (cases pk) (auto simp: pk_Set_def pk_GetLen_def)
      ultimately have "pk_Decompress ec_parse ec_ser (pk_Set ((2 OR ?y) # ?x)) = Some pk"
        using pt by (simp add: pk_Decompress_def pk_IsValid_def)
      then have "Decompress ec_parse ec_ser (ucast (4 OR ?y)) ?x script0 = Inr (True, script)"
        using b k by (auto simp: Decompress_def)
      then show ?thesis unfolding out using b(1) k(1)
        by (intro unserialize_special) (auto simp: GetSpecialSize_def)
    qed
  qed
qed

lemma script_roundtrip:
  assumes "ec_laws ec_parse ec_ser" and "length script \<le> MAX_SCRIPT_SIZE"
  shows "Unserialize_script ec_parse ec_ser script0 (Serialize_script ec_parse script @ s) = Inr (script, s)"
proof (cases "Compress ec_parse script")
  case (Some out)
  then show ?thesis using Compress_correct [OF assms(1) Some] by (simp add: Serialize_script_def)
next
  case None
  let ?n = "of_nat (length script) :: u32"
  have u: "unat ?n = length script" using assms(2) by (simp add: MAX_SCRIPT_SIZE_def unat_of_nat)
  have "unat (of_nat (length script + 6) :: u32) = length script + 6"
    using assms(2) by (subst unat_of_nat) (simp add: MAX_SCRIPT_SIZE_def)
  then have "unat (?n + nSpecialScripts) = length script + 6" by (simp add: nSpecialScripts_def add.commute)
  then have "\<not> ?n + nSpecialScripts < nSpecialScripts" by (simp add: word_less_nat_alt nSpecialScripts_def)
  then show ?thesis using None u assms(2)
    by (simp add: Serialize_script_def Unserialize_script_def ReadVarInt_Write)
qed

text \<open>A script that is too long is read back as an unspendable one, the stream stays aligned.\<close>

lemma long_script_unspendable:
  assumes "MAX_SCRIPT_SIZE < length script" and "length script < 2 ^ 31 - 6"
  shows "Unserialize_script ec_parse ec_ser [] (Serialize_script ec_parse script @ s) = Inr ([OP_RETURN], s) \<and> IsUnspendable [OP_RETURN]"
proof -
  let ?n = "of_nat (length script) :: u32"
  have c: "Compress ec_parse script = None"
    using assms(1) by (simp add: Compress_def IsToKeyID_def IsToScriptID_def IsToPubKey_def MAX_SCRIPT_SIZE_def)
  have u: "unat ?n = length script" using assms(2) by (simp add: unat_of_nat)
  have "unat (of_nat (length script + 6) :: u32) = length script + 6"
    using assms(2) by (subst unat_of_nat) (simp add: MAX_SCRIPT_SIZE_def)
  then have "unat (?n + nSpecialScripts) = length script + 6" by (simp add: nSpecialScripts_def add.commute)
  then have "\<not> ?n + nSpecialScripts < nSpecialScripts" by (simp add: word_less_nat_alt nSpecialScripts_def)
  moreover have "\<not> sint ?n < 0" using assms(2) sint_word_of_int [of "int (length script)", where 'a = 32] by simp
  ultimately show ?thesis using c u assms(1)
    by (simp add: Serialize_script_def Unserialize_script_def ReadVarInt_Write ignore_bytes_def push_opcode_def IsUnspendable_def)
qed

section \<open>Coins survive storage\<close>

lemma coin_code_bits:
  assumes "unat (coin_height coin) < 2 ^ 30"
  shows "drop_bit 2 (coin_code coin) = coin_height coin" and "coin_code coin AND 2 \<noteq> 0 \<longleftrightarrow> fCoinBase coin"
    and "coin_code coin AND 1 \<noteq> 0 \<longleftrightarrow> fCoinStake coin"
proof -
  define h where "h = unat (coin_height coin)"
  define f :: nat where "f = (if fCoinBase coin then 2 else 0) + (if fCoinStake coin then 1 else 0)"
  have "coin_code coin = of_nat (h * 4 + f)" by (simp add: coin_code_def h_def f_def)
  then have u: "unat (coin_code coin) = h * 4 + f"
    using assms by (simp only: unat_of_nat) (simp add: h_def f_def)
  have "unat (drop_bit 2 (coin_code coin)) = h" by (simp only: unat_drop_bit_u32 u) (simp add: f_def)
  then show "drop_bit 2 (coin_code coin) = coin_height coin" by (simp only: h_def word_unat_eq_iff)
  have b: "bit (coin_code coin) n = odd ((h * 4 + f) div 2 ^ n)" for n
  proof -
    have "bit (coin_code coin) n = bit (unat (coin_code coin)) n" by (simp add: bit_unsigned_iff)
    then show ?thesis by (simp only: u bit_iff_odd)
  qed
  have "bit (coin_code coin) 1 \<longleftrightarrow> fCoinBase coin" "bit (coin_code coin) 0 \<longleftrightarrow> fCoinStake coin"
    unfolding b f_def by simp_all
  moreover have "(w AND 2 \<noteq> 0) = bit w 1" "(w AND 1 \<noteq> 0) = bit w 0" for w :: u32
    by (simp_all add: bit_0 and_one_eq mod_2_eq_odd and_exp_eq_0_iff_not_bit [of w 1, simplified])
  ultimately show "coin_code coin AND 2 \<noteq> 0 \<longleftrightarrow> fCoinBase coin" "coin_code coin AND 1 \<noteq> 0 \<longleftrightarrow> fCoinStake coin"
    by simp_all
qed

lemma txout_compressed_roundtrip:
  assumes "ec_laws ec_parse ec_ser" and "0 \<le> nValue out" and "nValue out < 2 ^ 60"
    and "length (scriptPubKey out) \<le> MAX_SCRIPT_SIZE" and "nRounds out = nRounds out0"
  shows "Unserialize_txout_compressed ec_parse ec_ser out0 (Serialize_txout_compressed ec_parse out @ s) = Inr (out, s)"
proof -
  let ?w = "word_of_int (nValue out) :: u64"
  have "unat ?w < 2 ^ 60" using assms(2,3) by (simp add: unat_eq_nat_uint uint_word_of_int)
  then have "sint (DecompressAmount (CompressAmount ?w)) = nValue out"
    using assms(2,3) by (simp add: amount_roundtrip sint_word_of_int)
  then show ?thesis using assms(5)
    by (simp add: Unserialize_txout_compressed_def Serialize_txout_compressed_def ReadVarInt_Write
        script_roundtrip [OF assms(1,4)])
qed

lemma coin_ok_unspent: "coin_ok coin \<Longrightarrow> \<not> coin_IsSpent coin"
  by (auto simp: coin_ok_def coin_IsSpent_def txout_IsNull_def)

lemma coin_storage:
  assumes "ec_laws ec_parse ec_ser" and "coin_ok coin"
  shows "\<exists>bs. Serialize_coin ec_parse coin = Some bs \<and> (\<forall>s. Unserialize_coin ec_parse ec_ser coinEmpty (bs @ s) = Inr (coin, s))"
proof -
  note ok = assms(2) [unfolded coin_ok_def]
  have "nRounds (coin_out coin) = nRounds (coin_out coinEmpty)" using ok by (simp add: coinEmpty_def txout_null_def)
  then show ?thesis using coin_ok_unspent [OF assms(2)] ok
    by (simp add: Serialize_coin_def Unserialize_coin_def ReadVarInt_Write coin_code_bits txout_compressed_roundtrip [OF assms(1)])
qed

text \<open>
  C28. A coin that the database can hold (height below 2^30, amount below 2^60, script of at most
  \<open>MAX_SCRIPT_SIZE\<close> bytes) passes the assertion of \<open>Coin::Serialize\<close>, and \<open>Coin::Unserialize\<close> into a fresh
  coin gives exactly it back and leaves the rest of the stream, through the compression of the amount and
  of the script, whatever template the script matches; of libsecp256k1 only its documented agreement
  between the two encodings of a point is used.
\<close>

theorem coin_roundtrip:
  assumes "ec_laws ec_parse ec_ser" and "coin_ok coin"
  shows "\<exists>bs. Serialize_coin ec_parse coin = Some bs \<and> (\<forall>s. Unserialize_coin ec_parse ec_ser coinEmpty (bs @ s) = Inr (coin, s))"
  by (rule coin_storage [OF assms])

text \<open>A curve with the points \<open>(x, parity)\<close>, whose y is the parity itself.\<close>

definition toy_parse :: "byte list \<Rightarrow> (byte list \<times> byte) option" where
  "toy_parse k = (if length k = 33 \<and> hd k \<in> {2, 3} then Some (tl k, hd k AND 1)
     else if length k = 65 \<and> hd k = 4 \<and> drop 33 k \<in> {replicate 31 0 @ [0], replicate 31 0 @ [1]}
     then Some (take 32 (tl k), k ! 64) else None)"

definition toy_ser :: "byte list \<times> byte \<Rightarrow> byte list" where
  "toy_ser pt = [4] @ fst pt @ replicate 31 0 @ [snd pt]"

lemma toy_laws: "ec_laws toy_parse toy_ser"
  unfolding ec_laws_def
proof (intro allI impI)
  fix k :: "byte list" and pt
  assume k: "length k = 65" "k ! 0 = 4" "toy_parse k = Some pt"
  have n: "k ! 64 = c" if "drop 33 k = replicate 31 0 @ [c]" for c
  proof -
    have "drop 33 k ! 31 = k ! 64" using k(1) by (subst nth_drop) simp_all
    then show ?thesis using that by (metis nth_append_length length_replicate)
  qed
  have y: "drop 33 k = replicate 31 0 @ [k ! 64]" "k ! 64 \<in> {0, 1}" and pt: "pt = (take 32 (tl k), k ! 64)"
    using k n [of 0] n [of 1] by (auto simp: toy_parse_def split: if_splits)
  have "k = 4 # take 32 (tl k) @ drop 33 k"
    using k(1,2) by (cases k) (simp_all add: drop_Cons' flip: append_take_drop_id [of 32 "tl k"])
  then have "toy_ser pt = k" using y(1) by (simp add: toy_ser_def pt)
  moreover have "toy_parse ((2 OR (k ! 64 AND 1)) # take 32 (drop 1 k)) = Some pt"
    using y(2) k(1) by (auto simp: toy_parse_def pt drop_Suc)
  ultimately show "toy_ser pt = k \<and> toy_parse ((2 OR (k ! 64 AND 1)) # take 32 (drop 1 k)) = Some pt" by blast
qed

definition example_coin :: Coin where
  "example_coin = \<lparr>fCoinBase = True, fCoinStake = False,
     coin_out = \<lparr>nValue = 25000000000, scriptPubKey = [65, 4] @ replicate 63 0 @ [1, OP_CHECKSIG], nRounds = -10\<rparr>, coin_height = 7\<rparr>"

lemma example_coin_ok: "coin_ok example_coin"
  by (simp add: coin_ok_def example_coin_def MAX_SCRIPT_SIZE_def)

theorem coin_roundtrip_witness:
  "\<exists>bs. Serialize_coin toy_parse example_coin = Some bs \<and>
     (\<forall>s. Unserialize_coin toy_parse toy_ser coinEmpty (bs @ s) = Inr (example_coin, s))"
  using coin_roundtrip [OF toy_laws example_coin_ok] .

end
