(* ===== verification/Standard.thy ===== *)
theory Standard
  imports Compressor
begin

unbundle bit_operations_syntax

text \<open>
  Standard output scripts (\<open>src/src/script/standard.h/.cpp\<close>): \<open>Solver\<close>, destinations and the functions that build the
  scripts.  Key and script identifiers (\<open>uint160\<close>) are their 20 bytes.  \<open>None\<close> for a matcher or for \<open>Solver\<close> is the
  result \<open>false\<close> with its outputs cleared.
\<close>

section \<open>Matching\<close>

datatype txnouttype = TX_NONSTANDARD | TX_PUBKEY | TX_PUBKEYHASH | TX_SCRIPTHASH | TX_MULTISIG | TX_NULL_DATA | TX_COLDSTAKE

datatype CTxDestination = CNoDestination | CKeyID "byte list" | CScriptID "byte list"

definition pk_ValidSize :: "valtype \<Rightarrow> bool" where
  "pk_ValidSize vch \<longleftrightarrow> length vch > 0 \<and> pk_GetLen (hd vch) = length vch"

definition pk_GetID :: "byte list \<Rightarrow> CPubKey \<Rightarrow> byte list" where
  "pk_GetID junk pk = Hash160 junk pk"

definition script_id :: "byte list \<Rightarrow> CScript \<Rightarrow> byte list" where
  "script_id junk s = Hash160 junk s"

definition GetTxnOutputType :: "txnouttype \<Rightarrow> string" where
  "GetTxnOutputType t = (case t of TX_NONSTANDARD \<Rightarrow> ''nonstandard'' | TX_PUBKEY \<Rightarrow> ''pubkey'' | TX_PUBKEYHASH \<Rightarrow> ''pubkeyhash''
     | TX_SCRIPTHASH \<Rightarrow> ''scripthash'' | TX_MULTISIG \<Rightarrow> ''multisig'' | TX_COLDSTAKE \<Rightarrow> ''coldstake'' | TX_NULL_DATA \<Rightarrow> ''nulldata'')"

definition MatchPayToPubkey :: "CScript \<Rightarrow> valtype option" where
  "MatchPayToPubkey script =
     (if length script = 65 + 2 \<and> script ! 0 = 65 \<and> last script = OP_CHECKSIG
      then let pubkey = take 65 (drop 1 script) in if pk_ValidSize pubkey then Some pubkey else None
      else if length script = 33 + 2 \<and> script ! 0 = 33 \<and> last script = OP_CHECKSIG
      then let pubkey = take 33 (drop 1 script) in if pk_ValidSize pubkey then Some pubkey else None
      else None)"

definition MatchPayToPubkeyHash :: "CScript \<Rightarrow> valtype option" where
  "MatchPayToPubkeyHash script =
     (if length script = 25 \<and> script ! 0 = OP_DUP \<and> script ! 1 = OP_HASH160 \<and> script ! 2 = 20 \<and> script ! 23 = OP_EQUALVERIFY \<and> script ! 24 = OP_CHECKSIG
      then Some (take 20 (drop 3 script)) else None)"

definition MatchPayToColdStaking :: "bool \<Rightarrow> CScript \<Rightarrow> (valtype \<times> valtype) option" where
  "MatchPayToColdStaking g_newP2CSRules script =
     (if IsPayToColdStaking g_newP2CSRules script then Some (take 20 (drop 6 script), take 20 (drop 28 script)) else None)"

definition IsSmallInteger :: "opcodetype \<Rightarrow> bool" where
  "IsSmallInteger opcode \<longleftrightarrow> opcode \<ge> OP_1 \<and> opcode \<le> OP_16"

text \<open>The loop over the keys: the keys, the first instruction that is not a key, and what follows it.\<close>

function multisig_keys :: "CScript \<Rightarrow> valtype list \<Rightarrow> (opcodetype \<times> valtype list \<times> CScript) option" where
  "multisig_keys it pubkeys =
     (case GetOp2 it of
        None \<Rightarrow> None
      | Some (opcode, data, it') \<Rightarrow> if pk_ValidSize data then multisig_keys it' (pubkeys @ [data]) else Some (opcode, pubkeys, it'))"
  by pat_completeness auto
termination
  by (relation "measure (\<lambda>(it, pubkeys). length it)") (auto dest: GetOp2_shorter)

declare multisig_keys.simps [simp del]

definition MatchMultisig :: "CScript \<Rightarrow> (nat \<times> valtype list) option" where
  "MatchMultisig script =
     (if length script < 1 \<or> last script \<noteq> OP_CHECKMULTISIG then None
      else case GetOp2 script of
        None \<Rightarrow> None
      | Some (opcode, data, it) \<Rightarrow>
          if \<not> IsSmallInteger opcode then None
          else case DecodeOP_N opcode of
            None \<Rightarrow> None
          | Some required \<Rightarrow>
              (case multisig_keys it [] of
                 None \<Rightarrow> None
               | Some (opcode, pubkeys, it) \<Rightarrow>
                   if \<not> IsSmallInteger opcode then None
                   else case DecodeOP_N opcode of
                     None \<Rightarrow> None
                   | Some keys \<Rightarrow> if int (length pubkeys) \<noteq> keys \<or> keys < required then None
                       else if length it = 1 then Some (nat required, pubkeys) else None))"

definition Solver :: "bool \<Rightarrow> CScript \<Rightarrow> (txnouttype \<times> valtype list) option" where
  "Solver g_newP2CSRules scriptPubKeyIn =
     (if scriptPubKeyIn = [] then None
      else if IsPayToScriptHash scriptPubKeyIn then Some (TX_SCRIPTHASH, [take 20 (drop 2 scriptPubKeyIn)])
      else if length scriptPubKeyIn \<ge> 1 \<and> scriptPubKeyIn ! 0 = OP_RETURN \<and> IsPushOnly (drop 1 scriptPubKeyIn) then Some (TX_NULL_DATA, [])
      else case MatchPayToPubkey scriptPubKeyIn of Some data \<Rightarrow> Some (TX_PUBKEY, [data])
      | None \<Rightarrow> (case MatchPayToPubkeyHash scriptPubKeyIn of Some data \<Rightarrow> Some (TX_PUBKEYHASH, [data])
      | None \<Rightarrow> (case MatchPayToColdStaking g_newP2CSRules scriptPubKeyIn of Some (data, data1) \<Rightarrow> Some (TX_COLDSTAKE, [data, data1])
      | None \<Rightarrow> (case MatchMultisig scriptPubKeyIn of
          Some (required, keys) \<Rightarrow> Some (TX_MULTISIG, [of_nat required] # keys @ [[of_nat (length keys)]])
        | None \<Rightarrow> None))))"

definition ScriptSigArgsExpected :: "txnouttype \<Rightarrow> valtype list \<Rightarrow> int" where
  "ScriptSigArgsExpected t vSolutions = (case t of
       TX_NONSTANDARD \<Rightarrow> -1 | TX_NULL_DATA \<Rightarrow> -1 | TX_PUBKEY \<Rightarrow> 1 | TX_PUBKEYHASH \<Rightarrow> 2 | TX_COLDSTAKE \<Rightarrow> 3
     | TX_MULTISIG \<Rightarrow> if length vSolutions < 1 \<or> length (vSolutions ! 0) < 1 then -1 else uint (vSolutions ! 0 ! 0) + 1
     | TX_SCRIPTHASH \<Rightarrow> 1)"

section \<open>Destinations\<close>

definition ExtractDestination :: "bool \<Rightarrow> byte list \<Rightarrow> CScript \<Rightarrow> bool \<Rightarrow> CTxDestination option" where
  "ExtractDestination g_newP2CSRules junk scriptPubKeyIn fColdStake =
     (case Solver g_newP2CSRules scriptPubKeyIn of
        None \<Rightarrow> None
      | Some (whichType, vSolutions) \<Rightarrow>
          if whichType = TX_PUBKEY
          then (let pubKey = pk_Set (vSolutions ! 0) in if \<not> pk_IsValid pubKey then None else Some (CKeyID (pk_GetID junk pubKey)))
          else if whichType = TX_PUBKEYHASH then Some (CKeyID (vSolutions ! 0))
          else if whichType = TX_SCRIPTHASH then Some (CScriptID (vSolutions ! 0))
          else if whichType = TX_COLDSTAKE then Some (CKeyID (vSolutions ! of_bool (\<not> fColdStake)))
          else None)"

definition ExtractDestinations :: "bool \<Rightarrow> byte list \<Rightarrow> CScript \<Rightarrow> (txnouttype \<times> CTxDestination list \<times> int) option" where
  "ExtractDestinations g_newP2CSRules junk scriptPubKeyIn =
     (case Solver g_newP2CSRules scriptPubKeyIn of
        None \<Rightarrow> None
      | Some (typeRet, vSolutions) \<Rightarrow>
          if typeRet = TX_NULL_DATA then None
          else if typeRet = TX_MULTISIG
          then (let keys = filter pk_IsValid (map pk_Set (butlast (tl vSolutions)));
                    addressRet = map (\<lambda>pubKey. CKeyID (pk_GetID junk pubKey)) keys
                in if addressRet = [] then None else Some (typeRet, addressRet, uint (hd vSolutions ! 0)))
          else if typeRet = TX_COLDSTAKE
          then (if length vSolutions < 2 then None else Some (typeRet, [CKeyID (vSolutions ! 0), CKeyID (vSolutions ! 1)], 2))
          else (case ExtractDestination g_newP2CSRules junk scriptPubKeyIn False of
                  None \<Rightarrow> None
                | Some address \<Rightarrow> Some (typeRet, [address], 1)))"

definition IsValidDestination :: "CTxDestination \<Rightarrow> bool" where
  "IsValidDestination dest \<longleftrightarrow> dest \<noteq> CNoDestination"

section \<open>Building scripts\<close>

definition GetScriptForDestination :: "CTxDestination \<Rightarrow> CScript" where
  "GetScriptForDestination dest = (case dest of
       CNoDestination \<Rightarrow> []
     | CKeyID keyID \<Rightarrow> push_opcode (push_opcode (push_data (push_opcode (push_opcode [] OP_DUP) OP_HASH160) keyID) OP_EQUALVERIFY) OP_CHECKSIG
     | CScriptID scriptID \<Rightarrow> push_opcode (push_data (push_opcode [] OP_HASH160) scriptID) OP_EQUAL)"

definition GetScriptForRawPubKey :: "CPubKey \<Rightarrow> CScript" where
  "GetScriptForRawPubKey pubKey = push_opcode (push_data [] pubKey) OP_CHECKSIG"

definition GetScriptForStakeDelegation :: "byte list \<Rightarrow> byte list \<Rightarrow> CScript" where
  "GetScriptForStakeDelegation stakingKey spendingKey =
     foldl push_opcode (push_data (push_opcode (push_data (foldl push_opcode [] [OP_DUP, OP_HASH160, OP_ROT, OP_IF, OP_CHECKCOLDSTAKEVERIFY])
       stakingKey) OP_ELSE) spendingKey) [OP_ENDIF, OP_EQUALVERIFY, OP_CHECKSIG]"

text \<open>\<open>None\<close> is the failed assertion of \<open>EncodeOP_N\<close>.\<close>

definition GetScriptForMultisig :: "int \<Rightarrow> CPubKey list \<Rightarrow> CScript option" where
  "GetScriptForMultisig nRequired keys =
     (case EncodeOP_N nRequired of
        None \<Rightarrow> None
      | Some op1 \<Rightarrow> (case EncodeOP_N (int (length keys)) of
          None \<Rightarrow> None
        | Some op2 \<Rightarrow> Some (push_opcode (push_opcode (foldl push_data (push_opcode [] op1) keys) op2) OP_CHECKMULTISIG)))"

definition GetScriptForOpReturn :: "uint256 \<Rightarrow> CScript" where
  "GetScriptForOpReturn message = push_data (push_opcode [] OP_RETURN) (Serialize_uint256 message)"

section \<open>Lemmas\<close>

lemma valid_size_cases: "pk_ValidSize k \<Longrightarrow> length k = 33 \<or> length k = 65"
  by (auto simp: pk_ValidSize_def pk_GetLen_def split: if_splits)

lemma pk_Set_valid: "pk_ValidSize k \<Longrightarrow> pk_Set k = k \<and> pk_IsValid k"
  by (auto simp: pk_ValidSize_def pk_Set_def pk_IsValid_def Let_def)

lemma pk_header: "pk_ValidSize k \<Longrightarrow> hd k \<in> {2, 3, 4, 6, 7} \<and> k \<noteq> []"
  by (cases k) (auto simp: pk_ValidSize_def pk_GetLen_def split: if_splits)

lemma push_short: "length b < 0x4c \<Longrightarrow> push_data s b = s @ [of_nat (length b)] @ b"
  by (simp add: push_data_def)

lemma key_push: "pk_ValidSize k \<Longrightarrow> push_data s k = s @ [of_nat (length k)] @ k"
  using valid_size_cases [of k] by (intro push_short) auto

lemmas build_simps = GetScriptForDestination_def GetScriptForRawPubKey_def GetScriptForStakeDelegation_def push_opcode_def push_short

text \<open>Each builder and its matcher.\<close>

lemma P2PKH_iff:
  "MatchPayToPubkeyHash s = Some h \<longleftrightarrow> length h = 20 \<and> s = GetScriptForDestination (CKeyID h)"
proof
  assume m: "MatchPayToPubkeyHash s = Some h"
  then have "length s = 3 + 20 + 2" by (auto simp: MatchPayToPubkeyHash_def split: if_splits)
  then obtain a b c where s: "s = a @ b @ c" "length a = 3" "length b = 20" "length c = 2" by (rule split_template)
  then show "length h = 20 \<and> s = GetScriptForDestination (CKeyID h)"
    using m by (auto simp: MatchPayToPubkeyHash_def list_of_length nth_append build_simps split: if_splits)
next
  assume "length h = 20 \<and> s = GetScriptForDestination (CKeyID h)"
  then show "MatchPayToPubkeyHash s = Some h" by (simp add: MatchPayToPubkeyHash_def build_simps nth_append)
qed

lemma P2SH_iff: "IsPayToScriptHash s \<longleftrightarrow> (\<exists>h. length h = 20 \<and> s = GetScriptForDestination (CScriptID h))"
proof
  assume m: "IsPayToScriptHash s"
  then have "length s = 2 + 20 + 1" by (simp add: IsPayToScriptHash_def)
  then obtain a b c where s: "s = a @ b @ c" "length a = 2" "length b = 20" "length c = 1" by (rule split_template)
  then show "\<exists>h. length h = 20 \<and> s = GetScriptForDestination (CScriptID h)"
    using m by (intro exI [of _ b]) (auto simp: IsPayToScriptHash_def list_of_length nth_append build_simps)
qed (auto simp: IsPayToScriptHash_def build_simps nth_append)

lemma P2PK_iff: "MatchPayToPubkey s = Some k \<longleftrightarrow> pk_ValidSize k \<and> s = GetScriptForRawPubKey k"
proof
  assume m: "MatchPayToPubkey s = Some k"
  then consider "length s = 1 + 65 + 1" | "length s = 1 + 33 + 1" by (auto simp: MatchPayToPubkey_def split: if_splits)
  then show "pk_ValidSize k \<and> s = GetScriptForRawPubKey k"
  proof cases
    case 1
    then obtain a b c where s: "s = a @ b @ c" "length a = 1" "length b = 65" "length c = 1" by (rule split_template)
    then show ?thesis using m by (auto simp: MatchPayToPubkey_def list_of_length build_simps Let_def split: if_splits)
  next
    case 2
    then obtain a b c where s: "s = a @ b @ c" "length a = 1" "length b = 33" "length c = 1" by (rule split_template)
    then show ?thesis using m by (auto simp: MatchPayToPubkey_def list_of_length build_simps Let_def split: if_splits)
  qed
next
  assume k: "pk_ValidSize k \<and> s = GetScriptForRawPubKey k"
  then show "MatchPayToPubkey s = Some k" using valid_size_cases [of k]
    by (auto simp: MatchPayToPubkey_def build_simps Let_def)
qed

lemma coldstake_build: "GetScriptForStakeDelegation h k = coldstake_script h k" if "length h = 20" "length k = 20"
  using that by (simp add: build_simps coldstake_script_def)

lemma multisig_keys_push:
  "list_all pk_ValidSize keys \<Longrightarrow> IsSmallInteger op1 \<Longrightarrow>
   multisig_keys (concat (map (push_data []) keys) @ op1 # r) acc = Some (op1, acc @ keys, r)"
proof (induction keys arbitrary: acc)
  case Nil
  have "GetOp2 (op1 # r) = Some (op1, [], r)" using Nil by (auto simp: IsSmallInteger_def word_le_nat_alt)
  then show ?case by (subst multisig_keys.simps) (simp add: pk_ValidSize_def)
next
  case (Cons k keys)
  have "length k < 2 ^ 32" using valid_size_cases [of k] Cons.prems by auto
  from GetOp2_push_data [OF this] obtain opcode where
    "GetOp2 (push_data [] k @ concat (map (push_data []) keys) @ op1 # r) = Some (opcode, k, concat (map (push_data []) keys) @ op1 # r)" by blast
  then show ?case using Cons by (subst multisig_keys.simps) simp
qed

lemma foldl_push: "foldl push_data s keys = s @ concat (map (push_data []) keys)"
proof (induction keys arbitrary: s)
  case (Cons k keys)
  have "push_data s k = s @ push_data [] k" by (simp add: push_data_def)
  then show ?case using Cons by simp
qed simp

lemma small_integer:
  assumes "1 \<le> n" "n \<le> 16"
  shows "\<exists>opcode. EncodeOP_N n = Some opcode \<and> IsSmallInteger opcode \<and> DecodeOP_N opcode = Some n"
proof -
  have u: "uint (word_of_int (0x51 + n - 1) :: byte) = 0x50 + n" unfolding uint_word_of_int using assms by simp
  have z: "word_of_int (0x51 + n - 1) \<noteq> (0 :: byte)"
  proof
    assume "word_of_int (0x51 + n - 1) = (0 :: byte)"
    then have "uint (word_of_int (0x51 + n - 1) :: byte) = 0" by simp
    then show False using u assms by simp
  qed
  show ?thesis using assms u z
    by (simp add: EncodeOP_N_def DecodeOP_N_def IsSmallInteger_def word_le_def)
qed

text \<open>No script matches two templates: the length, the first byte or the last byte tells them apart.\<close>

lemma last_byte:
  "IsPayToScriptHash s \<Longrightarrow> last s = OP_EQUAL"
  "MatchPayToPubkey s = Some k \<Longrightarrow> last s = OP_CHECKSIG"
  "MatchPayToPubkeyHash s = Some k \<Longrightarrow> last s = OP_CHECKSIG"
  "IsPayToColdStaking r s \<Longrightarrow> last s = OP_CHECKSIG"
  by (auto simp: IsPayToScriptHash_def MatchPayToPubkey_def MatchPayToPubkeyHash_def IsPayToColdStaking_def Let_def last_conv_nth
      simp flip: length_greater_0_conv split: if_splits)

lemma first_byte:
  "MatchPayToPubkey s = Some k \<Longrightarrow> s ! 0 \<noteq> OP_RETURN"
  "MatchPayToPubkeyHash s = Some k \<Longrightarrow> s ! 0 \<noteq> OP_RETURN"
  "IsPayToColdStaking True s \<Longrightarrow> s ! 0 \<noteq> OP_RETURN"
  by (auto simp: MatchPayToPubkey_def MatchPayToPubkeyHash_def IsPayToColdStaking_def Let_def split: if_splits)

lemma template_length:
  "MatchPayToPubkey s = Some k \<Longrightarrow> length s \<in> {35, 67}"
  "MatchPayToPubkeyHash s = Some k \<Longrightarrow> length s = 25"
  "IsPayToColdStaking r s \<Longrightarrow> length s = 51"
  by (auto simp: MatchPayToPubkey_def MatchPayToPubkeyHash_def IsPayToColdStaking_def Let_def split: if_splits)

lemma no_pubkey: "length s \<notin> {35, 67} \<or> last s \<noteq> OP_CHECKSIG \<Longrightarrow> MatchPayToPubkey s = None"
  using template_length(1) last_byte(2) by (cases "MatchPayToPubkey s") auto

lemma no_pubkeyhash: "length s \<noteq> 25 \<or> last s \<noteq> OP_CHECKSIG \<Longrightarrow> MatchPayToPubkeyHash s = None"
  using template_length(2) last_byte(3) by (cases "MatchPayToPubkeyHash s") auto

lemma Solver_coldstake:
  "IsPayToColdStaking r s \<Longrightarrow> \<not> (s ! 0 = OP_RETURN \<and> IsPushOnly (drop 1 s)) \<Longrightarrow>
   Solver r s = Some (TX_COLDSTAKE, [take 20 (drop 6 s), take 20 (drop 28 s)])"
  using last_byte(1) [of s] last_byte(4) [of r s] template_length(3) [of r s]
  by (auto simp: Solver_def MatchPayToColdStaking_def no_pubkey no_pubkeyhash)

lemma Solver_coldstakeD:
  "Solver r s = Some (TX_COLDSTAKE, sol) \<Longrightarrow>
   IsPayToColdStaking r s \<and> \<not> (s ! 0 = OP_RETURN \<and> IsPushOnly (drop 1 s)) \<and> sol = [take 20 (drop 6 s), take 20 (drop 28 s)]"
  by (cases s) (auto simp: Solver_def MatchPayToColdStaking_def split: if_split_asm option.split_asm prod.split_asm)

text \<open>The shape of a cold-staking script under the old rules, where five of the opcodes are free.\<close>

definition loose_coldstake :: "byte list \<Rightarrow> byte list \<Rightarrow> byte list \<Rightarrow> CScript" where
  "loose_coldstake free h k = [free ! 0, free ! 1, OP_ROT, free ! 2, OP_CHECKCOLDSTAKEVERIFY, 0x14] @ h @ [free ! 3, 0x14] @ k @
     [free ! 4, OP_EQUALVERIFY, OP_CHECKSIG]"

lemma IsPayToColdStaking_loose:
  "IsPayToColdStaking False s \<longleftrightarrow> (\<exists>free h k. length h = 20 \<and> length k = 20 \<and> s = loose_coldstake free h k)"
proof
  assume p: "IsPayToColdStaking False s"
  then have "length s = 6 + 20 + 25" by (simp add: IsPayToColdStaking_def)
  then obtain a h t where s: "s = a @ h @ t" "length a = 6" "length h = 20" "length t = 25" by (rule split_template)
  then have "length t = 2 + 20 + 3" by simp
  then obtain b k q where t: "t = b @ k @ q" "length b = 2" "length k = 20" "length q = 3" by (rule split_template)
  obtain a0 a1 a2 a3 a4 a5 b0 b1 q0 q1 q2 where e: "a = [a0, a1, a2, a3, a4, a5]" "b = [b0, b1]" "q = [q0, q1, q2]"
    using s(2) t(2,4) by (auto simp: list_of_length)
  have "s = loose_coldstake [a0, a1, a3, b0, q0] h k"
    using p s(3) t(3) unfolding s(1) t(1) e by (simp add: IsPayToColdStaking_def nth_append loose_coldstake_def)
  then show "\<exists>free h k. length h = 20 \<and> length k = 20 \<and> s = loose_coldstake free h k" using s(3) t(3) by blast
next
  assume "\<exists>free h k. length h = 20 \<and> length k = 20 \<and> s = loose_coldstake free h k"
  then show "IsPayToColdStaking False s" by (auto simp: IsPayToColdStaking_def nth_append loose_coldstake_def)
qed

lemma loose_slices:
  "length h = 20 \<Longrightarrow> length k = 20 \<Longrightarrow>
   take 20 (drop 6 (loose_coldstake free h k)) = h \<and> take 20 (drop 28 (loose_coldstake free h k)) = k \<and> loose_coldstake free h k ! 0 = free ! 0"
  by (simp add: loose_coldstake_def)

lemma Solver_pubkey: "MatchPayToPubkey s = Some k \<Longrightarrow> Solver r s = Some (TX_PUBKEY, [k])"
  using last_byte(1) [of s] last_byte(2) [of s k] first_byte(1) [of s k] template_length(1) [of s k] by (auto simp: Solver_def)

lemma Solver_pubkeyhash: "MatchPayToPubkeyHash s = Some h \<Longrightarrow> Solver r s = Some (TX_PUBKEYHASH, [h])"
  using last_byte(1) [of s] last_byte(3) [of s h] first_byte(2) [of s h] template_length(2) [of s h]
  by (auto simp: Solver_def no_pubkey)

lemma Solver_multisig:
  assumes "MatchMultisig s = Some (m, keys)" "s ! 0 \<noteq> OP_RETURN"
  shows "Solver r s = Some (TX_MULTISIG, [of_nat m] # keys @ [[of_nat (length keys)]])"
proof -
  have "s \<noteq> []" "last s = OP_CHECKMULTISIG" using assms(1) by (auto simp: MatchMultisig_def split: if_splits)
  then show ?thesis using assms last_byte(1) [of s] last_byte(4) [of r s]
    by (auto simp: Solver_def MatchPayToColdStaking_def no_pubkey no_pubkeyhash)
qed

lemma GetScriptForMultisig_matches:
  assumes "1 \<le> m" "m \<le> length keys" "length keys \<le> 16" "list_all pk_ValidSize keys"
  shows "\<exists>s. GetScriptForMultisig (int m) keys = Some s \<and> MatchMultisig s = Some (m, keys) \<and> s ! 0 \<noteq> OP_RETURN"
proof -
  obtain a where a: "EncodeOP_N (int m) = Some a" "IsSmallInteger a" "DecodeOP_N a = Some (int m)"
    using small_integer [of "int m"] assms by auto
  obtain b where b: "EncodeOP_N (int (length keys)) = Some b" "IsSmallInteger b" "DecodeOP_N b = Some (int (length keys))"
    using small_integer [of "int (length keys)"] assms by auto
  have g: "GetOp2 (a # r) = Some (a, [], r)" for r using a(2) by (auto simp: IsSmallInteger_def word_le_nat_alt)
  have "a \<noteq> OP_RETURN" using a(2) by (auto simp: IsSmallInteger_def)
  then show ?thesis using a b assms multisig_keys_push [OF assms(4) b(2), of "[OP_CHECKMULTISIG]" "[]"]
    by (simp add: GetScriptForMultisig_def MatchMultisig_def foldl_push push_opcode_def g del: GetOp2.simps)
qed

lemma template_slices:
  "length h = 20 \<Longrightarrow> take 20 (drop 2 (GetScriptForDestination (CScriptID h))) = h"
  "length h = 20 \<Longrightarrow> length k = 20 \<Longrightarrow>
   take 20 (drop 6 (GetScriptForStakeDelegation h k)) = h \<and> take 20 (drop 28 (GetScriptForStakeDelegation h k)) = k"
  by (simp_all add: build_simps)

lemma Solver_scripthash:
  "length h = 20 \<Longrightarrow> Solver r (GetScriptForDestination (CScriptID h)) = Some (TX_SCRIPTHASH, [h])"
  using P2SH_iff [of "GetScriptForDestination (CScriptID h)"] template_slices(1) [of h]
  by (cases "GetScriptForDestination (CScriptID h) = []") (auto simp: Solver_def IsPayToScriptHash_def)

lemma Solver_delegation:
  "length h = 20 \<Longrightarrow> length k = 20 \<Longrightarrow> Solver r (GetScriptForStakeDelegation h k) = Some (TX_COLDSTAKE, [h, k])"
proof -
  assume l: "length h = 20" "length k = 20"
  have p: "IsPayToColdStaking True (GetScriptForStakeDelegation h k)" using IsPayToColdStaking_iff l by (auto simp: coldstake_build)
  then have "IsPayToColdStaking r (GetScriptForStakeDelegation h k)" by (simp add: IsPayToColdStaking_def)
  then show ?thesis using Solver_coldstake first_byte(3) [OF p] template_slices(2) [OF l] by simp
qed

section \<open>Properties\<close>

text \<open>
  C33. \<open>Solver\<close> recognises the single-destination templates exactly.  Under the old and the new cold-staking rules it answers
  pay-to-script-hash, pay-to-public-key or pay-to-public-key-hash with given solutions for the scripts \<open>GetScriptForDestination\<close> and
  \<open>GetScriptForRawPubKey\<close> build from those solutions and for no other script.  Under the new rules it answers cold staking for the scripts of
  \<open>GetScriptForStakeDelegation\<close> and no other.  Under the old rules it answers cold staking for all scripts of the same length and
  layout in which five opcodes are arbitrary, unless the script is unspendable data.\<close>

theorem Solver_exact:
  "(Solver g_newP2CSRules s = Some (TX_SCRIPTHASH, sol) \<longleftrightarrow> (\<exists>h. length h = 20 \<and> sol = [h] \<and> s = GetScriptForDestination (CScriptID h))) \<and>
   (Solver g_newP2CSRules s = Some (TX_PUBKEYHASH, sol) \<longleftrightarrow> (\<exists>h. length h = 20 \<and> sol = [h] \<and> s = GetScriptForDestination (CKeyID h))) \<and>
   (Solver g_newP2CSRules s = Some (TX_PUBKEY, sol) \<longleftrightarrow> (\<exists>k. pk_ValidSize k \<and> sol = [k] \<and> s = GetScriptForRawPubKey k)) \<and>
   (Solver True s = Some (TX_COLDSTAKE, sol) \<longleftrightarrow>
      (\<exists>h k. length h = 20 \<and> length k = 20 \<and> sol = [h, k] \<and> s = GetScriptForStakeDelegation h k)) \<and>
   (Solver False s = Some (TX_COLDSTAKE, sol) \<longleftrightarrow>
      (\<exists>free h k. length h = 20 \<and> length k = 20 \<and> sol = [h, k] \<and> s = loose_coldstake free h k \<and>
         \<not> (free ! 0 = OP_RETURN \<and> IsPushOnly (drop 1 s))))"
proof (intro conjI iffI)
  assume "Solver g_newP2CSRules s = Some (TX_SCRIPTHASH, sol)"
  then have "IsPayToScriptHash s \<and> sol = [take 20 (drop 2 s)]" by (auto simp: Solver_def split: if_splits option.splits prod.splits)
  then show "\<exists>h. length h = 20 \<and> sol = [h] \<and> s = GetScriptForDestination (CScriptID h)" using P2SH_iff [of s] template_slices(1) by blast
next
  assume "Solver True s = Some (TX_COLDSTAKE, sol)"
  note d = Solver_coldstakeD [OF this]
  then obtain h k where l: "length h = 20" "length k = 20" and s: "s = coldstake_script h k" using IsPayToColdStaking_iff by blast
  then show "\<exists>h k. length h = 20 \<and> length k = 20 \<and> sol = [h, k] \<and> s = GetScriptForStakeDelegation h k"
    using d template_slices(2) [OF l] coldstake_build [of h k] by (intro exI [of _ h] exI [of _ k]) simp
next
  assume "Solver False s = Some (TX_COLDSTAKE, sol)"
  note d = Solver_coldstakeD [OF this]
  then obtain free h k where l: "length h = 20" "length k = 20" and s: "s = loose_coldstake free h k" using IsPayToColdStaking_loose by blast
  then show "\<exists>free h k. length h = 20 \<and> length k = 20 \<and> sol = [h, k] \<and> s = loose_coldstake free h k \<and> \<not> (free ! 0 = OP_RETURN \<and> IsPushOnly (drop 1 s))"
    using d loose_slices [OF l, of free] by (intro exI [of _ free] exI [of _ h] exI [of _ k]) simp
next
  assume "\<exists>free h k. length h = 20 \<and> length k = 20 \<and> sol = [h, k] \<and> s = loose_coldstake free h k \<and> \<not> (free ! 0 = OP_RETURN \<and> IsPushOnly (drop 1 s))"
  then obtain free h k where l: "length h = 20" "length k = 20" and s: "sol = [h, k]" "s = loose_coldstake free h k"
    and n: "\<not> (free ! 0 = OP_RETURN \<and> IsPushOnly (drop 1 s))" by blast
  have "IsPayToColdStaking False s" using IsPayToColdStaking_loose l s(2) by blast
  then show "Solver False s = Some (TX_COLDSTAKE, sol)" using Solver_coldstake [of False s] loose_slices [OF l, of free] n unfolding s by simp
next
  assume "\<exists>h k. length h = 20 \<and> length k = 20 \<and> sol = [h, k] \<and> s = GetScriptForStakeDelegation h k"
  then show "Solver True s = Some (TX_COLDSTAKE, sol)" using Solver_delegation by blast
next
  assume "\<exists>h. length h = 20 \<and> sol = [h] \<and> s = GetScriptForDestination (CScriptID h)"
  then show "Solver g_newP2CSRules s = Some (TX_SCRIPTHASH, sol)" using Solver_scripthash by blast
next
  assume "Solver g_newP2CSRules s = Some (TX_PUBKEY, sol)"
  then have "\<exists>k. MatchPayToPubkey s = Some k \<and> sol = [k]" by (auto simp: Solver_def split: if_splits option.splits prod.splits)
  then show "\<exists>k. pk_ValidSize k \<and> sol = [k] \<and> s = GetScriptForRawPubKey k" using P2PK_iff by auto
next
  assume "Solver g_newP2CSRules s = Some (TX_PUBKEYHASH, sol)"
  then have "\<exists>h. MatchPayToPubkeyHash s = Some h \<and> sol = [h]" by (auto simp: Solver_def split: if_splits option.splits prod.splits)
  then show "\<exists>h. length h = 20 \<and> sol = [h] \<and> s = GetScriptForDestination (CKeyID h)" using P2PKH_iff by auto
qed (auto intro!: Solver_pubkey Solver_pubkeyhash simp: P2PK_iff P2PKH_iff)

text \<open>
  C34. Under the old and the new cold-staking rules the addresses read from a script are those it was built for: of \<open>GetScriptForDestination\<close> the destination, of a
  delegation the staker or the owner as asked, and of an m-of-n script over up to sixteen keys of valid size the identifiers of all the
  keys in order with the number m.\<close>

theorem destination_roundtrip:
  assumes "length h = 20" "length k = 20" "1 \<le> m" "m \<le> length keys" "length keys \<le> 16" "list_all pk_ValidSize keys"
  shows "ExtractDestination g_newP2CSRules junk (GetScriptForDestination (CKeyID h)) c = Some (CKeyID h) \<and>
    ExtractDestination g_newP2CSRules junk (GetScriptForDestination (CScriptID h)) c = Some (CScriptID h) \<and>
    ExtractDestination g_newP2CSRules junk (GetScriptForStakeDelegation h k) c = Some (CKeyID (if c then h else k)) \<and>
    (\<exists>s. GetScriptForMultisig (int m) keys = Some s \<and>
       ExtractDestinations g_newP2CSRules junk s = Some (TX_MULTISIG, map (\<lambda>pk. CKeyID (Hash160 junk pk)) keys, int m))"
proof (intro conjI)
  show "ExtractDestination g_newP2CSRules junk (GetScriptForDestination (CKeyID h)) c = Some (CKeyID h)"
    using assms(1) Solver_pubkeyhash [of _ h g_newP2CSRules] by (simp add: ExtractDestination_def P2PKH_iff)
  show "ExtractDestination g_newP2CSRules junk (GetScriptForDestination (CScriptID h)) c = Some (CScriptID h)"
    using assms(1) by (simp add: ExtractDestination_def Solver_scripthash)
  show "ExtractDestination g_newP2CSRules junk (GetScriptForStakeDelegation h k) c = Some (CKeyID (if c then h else k))"
    using assms(1,2) by (simp add: ExtractDestination_def Solver_delegation)
  obtain s where s: "GetScriptForMultisig (int m) keys = Some s" "MatchMultisig s = Some (m, keys)" "s ! 0 \<noteq> OP_RETURN"
    using GetScriptForMultisig_matches [OF assms(3-6)] by auto
  have k: "map pk_Set keys = keys" "filter pk_IsValid keys = keys" "keys \<noteq> []"
    using assms pk_Set_valid by (auto simp: list_all_iff intro!: map_idI filter_True)
  have "uint (of_nat m :: byte) = int m" using assms(4,5) by (simp add: uint_word_of_int_eq unsigned_of_nat take_bit_nat_eq_self)
  with k Solver_multisig [OF s(2,3)]
  have "ExtractDestinations g_newP2CSRules junk s = Some (TX_MULTISIG, map (\<lambda>pk. CKeyID (Hash160 junk pk)) keys, int m)"
    by (simp add: ExtractDestinations_def pk_GetID_def Let_def)
  then show "\<exists>s. GetScriptForMultisig (int m) keys = Some s \<and>
       ExtractDestinations g_newP2CSRules junk s = Some (TX_MULTISIG, map (\<lambda>pk. CKeyID (Hash160 junk pk)) keys, int m)" using s(1) by blast
qed

theorem destination_roundtrip_witness:
  "ExtractDestination True [] (GetScriptForStakeDelegation (replicate 20 7) (replicate 20 9)) True = Some (CKeyID (replicate 20 7)) \<and>
   (\<exists>s. GetScriptForMultisig 1 [2 # replicate 32 5, 4 # replicate 64 6] = Some s \<and>
     ExtractDestinations True [] s =
       Some (TX_MULTISIG, [CKeyID (Hash160 [] (2 # replicate 32 5)), CKeyID (Hash160 [] (4 # replicate 64 6))], 1))"
  using destination_roundtrip [of "replicate 20 7" "replicate 20 9" 1 "[2 # replicate 32 5, 4 # replicate 64 6]" True "[]" True]
  by (simp add: pk_ValidSize_def pk_GetLen_def)

end
