(* ===== verification/Interpreter.thy ===== *)
theory Interpreter
  imports TxVerify Compressor "HOL-Library.Sublist"
begin

unbundle bit_operations_syntax

text \<open>
  The script interpreter: \<open>src/src/script/interpreter.h\<close> and \<open>interpreter.cpp\<close>.  A stack is a list whose
  head is the top, so \<open>stacktop (-i)\<close> is element \<open>i - 1\<close>; \<open>vfExec\<close> has its back at the head.  An iterator is
  the suffix of the script it points at.  \<open>Inl\<close> is a failure with its \<open>ScriptError\<close>, and what the source
  throws (and catches in \<open>EvalScript\<close>) is \<open>SCRIPT_ERR_UNKNOWN_ERROR\<close>.  The record \<open>script_env\<close> holds the
  virtual functions of \<open>BaseSignatureChecker\<close>, where a signature check that throws is \<open>None\<close>, and
  \<open>CPubKey::CheckLowS\<close>, which is libsecp256k1.  \<open>BLAKE2b\<close> (libsodium) and ECDSA verification are parameters.
\<close>

section \<open>Errors, flags, checkers\<close>

datatype ScriptError =
  SCRIPT_ERR_UNKNOWN_ERROR | SCRIPT_ERR_EVAL_FALSE | SCRIPT_ERR_OP_RETURN
| SCRIPT_ERR_SCRIPT_SIZE | SCRIPT_ERR_PUSH_SIZE | SCRIPT_ERR_OP_COUNT | SCRIPT_ERR_STACK_SIZE
| SCRIPT_ERR_SIG_COUNT | SCRIPT_ERR_PUBKEY_COUNT
| SCRIPT_ERR_VERIFY | SCRIPT_ERR_EQUALVERIFY | SCRIPT_ERR_CHECKCOLDSTAKEVERIFY | SCRIPT_ERR_CHECKMULTISIGVERIFY
| SCRIPT_ERR_CHECKSIGVERIFY | SCRIPT_ERR_NUMEQUALVERIFY
| SCRIPT_ERR_BAD_OPCODE | SCRIPT_ERR_DISABLED_OPCODE | SCRIPT_ERR_INVALID_STACK_OPERATION
| SCRIPT_ERR_INVALID_ALTSTACK_OPERATION | SCRIPT_ERR_UNBALANCED_CONDITIONAL
| SCRIPT_ERR_NEGATIVE_LOCKTIME | SCRIPT_ERR_UNSATISFIED_LOCKTIME
| SCRIPT_ERR_SIG_HASHTYPE | SCRIPT_ERR_SIG_DER | SCRIPT_ERR_MINIMALDATA | SCRIPT_ERR_SIG_PUSHONLY
| SCRIPT_ERR_SIG_HIGH_S | SCRIPT_ERR_SIG_NULLDUMMY | SCRIPT_ERR_PUBKEYTYPE | SCRIPT_ERR_DISCOURAGE_UPGRADABLE_NOPS

definition SCRIPT_VERIFY_P2SH :: u32 where "SCRIPT_VERIFY_P2SH = 1"
definition SCRIPT_VERIFY_STRICTENC :: u32 where "SCRIPT_VERIFY_STRICTENC = 2"
definition SCRIPT_VERIFY_DERSIG :: u32 where "SCRIPT_VERIFY_DERSIG = 4"
definition SCRIPT_VERIFY_LOW_S :: u32 where "SCRIPT_VERIFY_LOW_S = 8"
definition SCRIPT_VERIFY_NULLDUMMY :: u32 where "SCRIPT_VERIFY_NULLDUMMY = 16"
definition SCRIPT_VERIFY_SIGPUSHONLY :: u32 where "SCRIPT_VERIFY_SIGPUSHONLY = 32"
definition SCRIPT_VERIFY_MINIMALDATA :: u32 where "SCRIPT_VERIFY_MINIMALDATA = 64"
definition SCRIPT_VERIFY_DISCOURAGE_UPGRADABLE_NOPS :: u32 where "SCRIPT_VERIFY_DISCOURAGE_UPGRADABLE_NOPS = 128"
definition SCRIPT_VERIFY_CHECKLOCKTIMEVERIFY :: u32 where "SCRIPT_VERIFY_CHECKLOCKTIMEVERIFY = 512"

definition has_flag :: "u32 \<Rightarrow> u32 \<Rightarrow> bool" where
  "has_flag flags f \<longleftrightarrow> flags AND f \<noteq> 0"

abbreviation minimal_flag :: "u32 \<Rightarrow> bool" where
  "minimal_flag flags \<equiv> has_flag flags SCRIPT_VERIFY_MINIMALDATA"

record script_env =
  CheckSig :: "valtype \<Rightarrow> valtype \<Rightarrow> CScript \<Rightarrow> SigVersion \<Rightarrow> bool option"
  CheckLockTime :: "int \<Rightarrow> bool"
  CheckColdStake :: "CScript \<Rightarrow> valtype list \<Rightarrow> u32 \<Rightarrow> ScriptError + unit"
  CheckLowS :: "valtype \<Rightarrow> bool"
  hash_junk :: "byte list"

section \<open>Encodings\<close>

fun CastToBool :: "valtype \<Rightarrow> bool" where
  "CastToBool [] = False"
| "CastToBool (b # vch) = (if b \<noteq> 0 then \<not> (vch = [] \<and> b = 0x80) else CastToBool vch)"

definition IsCompressedOrUncompressedPubKey :: "valtype \<Rightarrow> bool" where
  "IsCompressedOrUncompressedPubKey vchPubKey =
     (if length vchPubKey < 33 then False
      else if vchPubKey ! 0 = 0x04 then length vchPubKey = 65
      else if vchPubKey ! 0 = 0x02 \<or> vchPubKey ! 0 = 0x03 then length vchPubKey = 33
      else False)"

definition IsValidSignatureEncoding :: "valtype \<Rightarrow> bool" where
  "IsValidSignatureEncoding sig =
     (if length sig < 9 then False
      else if length sig > 73 then False
      else if sig ! 0 \<noteq> 0x30 then False
      else if unat (sig ! 1) \<noteq> length sig - 3 then False
      else let lenR = unat (sig ! 3) in
        if 5 + lenR \<ge> length sig then False
        else let lenS = unat (sig ! (5 + lenR)) in
          if lenR + lenS + 7 \<noteq> length sig then False
          else if sig ! 2 \<noteq> 0x02 then False
          else if lenR = 0 then False
          else if sig ! 4 AND 0x80 \<noteq> 0 then False
          else if lenR > 1 \<and> sig ! 4 = 0x00 \<and> sig ! 5 AND 0x80 = 0 then False
          else if sig ! (lenR + 4) \<noteq> 0x02 then False
          else if lenS = 0 then False
          else if sig ! (lenR + 6) AND 0x80 \<noteq> 0 then False
          else if lenS > 1 \<and> sig ! (lenR + 6) = 0x00 \<and> sig ! (lenR + 7) AND 0x80 = 0 then False
          else True)"

definition IsLowDERSignature :: "script_env \<Rightarrow> valtype \<Rightarrow> ScriptError option" where
  "IsLowDERSignature E vchSig =
     (if \<not> IsValidSignatureEncoding vchSig then Some SCRIPT_ERR_SIG_DER
      else if \<not> CheckLowS E (butlast vchSig) then Some SCRIPT_ERR_SIG_HIGH_S
      else None)"

definition IsDefinedHashtypeSignature :: "valtype \<Rightarrow> bool" where
  "IsDefinedHashtypeSignature vchSig =
     (if length vchSig = 0 then False
      else let nHashType = last vchSig AND NOT 0x80 in \<not> (nHashType < 1 \<or> nHashType > 3))"

text \<open>The two encoding checks return the error they set, if any.\<close>

definition CheckSignatureEncoding :: "script_env \<Rightarrow> valtype \<Rightarrow> u32 \<Rightarrow> ScriptError option" where
  "CheckSignatureEncoding E vchSig flags =
     (if length vchSig = 0 then None
      else if flags AND (SCRIPT_VERIFY_DERSIG OR SCRIPT_VERIFY_LOW_S OR SCRIPT_VERIFY_STRICTENC) \<noteq> 0 \<and> \<not> IsValidSignatureEncoding vchSig
      then Some SCRIPT_ERR_SIG_DER
      else if has_flag flags SCRIPT_VERIFY_LOW_S \<and> IsLowDERSignature E vchSig \<noteq> None then IsLowDERSignature E vchSig
      else if has_flag flags SCRIPT_VERIFY_STRICTENC \<and> \<not> IsDefinedHashtypeSignature vchSig then Some SCRIPT_ERR_SIG_HASHTYPE
      else None)"

definition CheckPubKeyEncoding :: "valtype \<Rightarrow> u32 \<Rightarrow> ScriptError option" where
  "CheckPubKeyEncoding vchPubKey flags =
     (if has_flag flags SCRIPT_VERIFY_STRICTENC \<and> \<not> IsCompressedOrUncompressedPubKey vchPubKey
      then Some SCRIPT_ERR_PUBKEYTYPE else None)"

definition check_encodings :: "script_env \<Rightarrow> valtype \<Rightarrow> valtype \<Rightarrow> u32 \<Rightarrow> ScriptError option" where
  "check_encodings E vchSig vchPubKey flags =
     (case CheckSignatureEncoding E vchSig flags of Some e \<Rightarrow> Some e | None \<Rightarrow> CheckPubKeyEncoding vchPubKey flags)"

definition CheckMinimalPush :: "valtype \<Rightarrow> opcodetype \<Rightarrow> bool" where
  "CheckMinimalPush data opcode =
     (if length data = 0 then opcode = OP_0
      else if length data = 1 \<and> data ! 0 \<ge> 1 \<and> data ! 0 \<le> 16 then unat opcode = unat OP_1 + (unat (data ! 0) - 1)
      else if length data = 1 \<and> data ! 0 = 0x81 then opcode = OP_1NEGATE
      else if length data \<le> 75 then unat opcode = length data
      else if length data \<le> 255 then opcode = OP_PUSHDATA1
      else if length data \<le> 65535 then opcode = OP_PUSHDATA2
      else True)"

section \<open>State of an evaluation\<close>

record eval_state =
  es_stack :: "valtype list"
  es_alt :: "valtype list"
  vfExec :: "bool list"
  nOpCount :: int
  pbegincodehash :: CScript

definition vchFalse :: valtype where "vchFalse = []"
definition vchTrue :: valtype where "vchTrue = [1]"

abbreviation vch_bool :: "bool \<Rightarrow> valtype" where
  "vch_bool b \<equiv> (if b then vchTrue else vchFalse)"

type_synonym op_result = "ScriptError + eval_state"

abbreviation bad_stack :: op_result where
  "bad_stack \<equiv> Inl SCRIPT_ERR_INVALID_STACK_OPERATION"

abbreviation set_stack :: "eval_state \<Rightarrow> valtype list \<Rightarrow> op_result" where
  "set_stack st s \<equiv> Inr (st\<lparr>es_stack := s\<rparr>)"

text \<open>\<open>CScriptNum (vch, fRequireMinimal)\<close>, whose exception ends the evaluation.\<close>

definition with_num :: "u32 \<Rightarrow> nat \<Rightarrow> valtype \<Rightarrow> (int \<Rightarrow> op_result) \<Rightarrow> op_result" where
  "with_num flags maxSize vch f = (case CScriptNum vch (minimal_flag flags) maxSize of
     None \<Rightarrow> Inl SCRIPT_ERR_UNKNOWN_ERROR | Some n \<Rightarrow> f n)"

section \<open>Operations on the stack\<close>

text \<open>\<open>None\<close> is \<open>SCRIPT_ERR_INVALID_STACK_OPERATION\<close>: the stack has too few elements.\<close>

fun op_2DROP :: "valtype list \<Rightarrow> valtype list option" where
  "op_2DROP (x2 # x1 # s) = Some s"
| "op_2DROP _ = None"

fun op_2DUP :: "valtype list \<Rightarrow> valtype list option" where
  "op_2DUP (x2 # x1 # s) = Some (x2 # x1 # x2 # x1 # s)"
| "op_2DUP _ = None"

fun op_3DUP :: "valtype list \<Rightarrow> valtype list option" where
  "op_3DUP (x3 # x2 # x1 # s) = Some (x3 # x2 # x1 # x3 # x2 # x1 # s)"
| "op_3DUP _ = None"

fun op_2OVER :: "valtype list \<Rightarrow> valtype list option" where
  "op_2OVER (x4 # x3 # x2 # x1 # s) = Some (x2 # x1 # x4 # x3 # x2 # x1 # s)"
| "op_2OVER _ = None"

fun op_2ROT :: "valtype list \<Rightarrow> valtype list option" where
  "op_2ROT (x6 # x5 # x4 # x3 # x2 # x1 # s) = Some (x2 # x1 # x6 # x5 # x4 # x3 # s)"
| "op_2ROT _ = None"

fun op_2SWAP :: "valtype list \<Rightarrow> valtype list option" where
  "op_2SWAP (x4 # x3 # x2 # x1 # s) = Some (x2 # x1 # x4 # x3 # s)"
| "op_2SWAP _ = None"

fun op_IFDUP :: "valtype list \<Rightarrow> valtype list option" where
  "op_IFDUP (vch # s) = Some (if CastToBool vch then vch # vch # s else vch # s)"
| "op_IFDUP _ = None"

definition op_DEPTH :: "valtype list \<Rightarrow> valtype list option" where
  "op_DEPTH s = Some (scriptnum_serialize (int (length s)) # s)"

fun op_DROP :: "valtype list \<Rightarrow> valtype list option" where
  "op_DROP (x # s) = Some s"
| "op_DROP _ = None"

fun op_DUP :: "valtype list \<Rightarrow> valtype list option" where
  "op_DUP (x # s) = Some (x # x # s)"
| "op_DUP _ = None"

fun op_NIP :: "valtype list \<Rightarrow> valtype list option" where
  "op_NIP (x2 # x1 # s) = Some (x2 # s)"
| "op_NIP _ = None"

fun op_OVER :: "valtype list \<Rightarrow> valtype list option" where
  "op_OVER (x2 # x1 # s) = Some (x1 # x2 # x1 # s)"
| "op_OVER _ = None"

fun op_ROT :: "valtype list \<Rightarrow> valtype list option" where
  "op_ROT (x3 # x2 # x1 # s) = Some (x1 # x3 # x2 # s)"
| "op_ROT _ = None"

fun op_SWAP :: "valtype list \<Rightarrow> valtype list option" where
  "op_SWAP (x2 # x1 # s) = Some (x1 # x2 # s)"
| "op_SWAP _ = None"

fun op_TUCK :: "valtype list \<Rightarrow> valtype list option" where
  "op_TUCK (x2 # x1 # s) = Some (x2 # x1 # x2 # s)"
| "op_TUCK _ = None"

fun op_SIZE :: "valtype list \<Rightarrow> valtype list option" where
  "op_SIZE (x # s) = Some (scriptnum_serialize (int (length x)) # x # s)"
| "op_SIZE _ = None"

definition lift_stack :: "(valtype list \<Rightarrow> valtype list option) \<Rightarrow> eval_state \<Rightarrow> op_result" where
  "lift_stack f st = (case f (es_stack st) of None \<Rightarrow> bad_stack | Some s \<Rightarrow> set_stack st s)"

definition op_PICK_ROLL :: "u32 \<Rightarrow> bool \<Rightarrow> eval_state \<Rightarrow> op_result" where
  "op_PICK_ROLL flags roll st = (case es_stack st of
     x # y # r \<Rightarrow> with_num flags nDefaultMaxNumSize x (\<lambda>m.
       let n = getint m; s = y # r
       in if n < 0 \<or> n \<ge> int (length s) then bad_stack
          else let k = nat n; vch = s ! k
               in set_stack st (vch # (if roll then take k s @ drop (Suc k) s else s)))
   | _ \<Rightarrow> bad_stack)"

definition op_TOALTSTACK :: "eval_state \<Rightarrow> op_result" where
  "op_TOALTSTACK st = (case es_stack st of
     x # s \<Rightarrow> Inr (st\<lparr>es_stack := s, es_alt := x # es_alt st\<rparr>)
   | [] \<Rightarrow> bad_stack)"

definition op_FROMALTSTACK :: "eval_state \<Rightarrow> op_result" where
  "op_FROMALTSTACK st = (case es_alt st of
     x # a \<Rightarrow> Inr (st\<lparr>es_stack := x # es_stack st, es_alt := a\<rparr>)
   | [] \<Rightarrow> Inl SCRIPT_ERR_INVALID_ALTSTACK_OPERATION)"

text \<open>The tail of the operations with a \<open>VERIFY\<close> variant: the result is pushed, and popped again if true.\<close>

definition push_result :: "bool \<Rightarrow> ScriptError \<Rightarrow> bool \<Rightarrow> valtype list \<Rightarrow> eval_state \<Rightarrow> op_result" where
  "push_result verify e b s st =
     (if verify then (if b then set_stack st s else Inl e) else set_stack st (vch_bool b # s))"

definition op_EQUAL :: "bool \<Rightarrow> eval_state \<Rightarrow> op_result" where
  "op_EQUAL verify st = (case es_stack st of
     x2 # x1 # s \<Rightarrow> push_result verify SCRIPT_ERR_EQUALVERIFY (x1 = x2) s st
   | _ \<Rightarrow> bad_stack)"

section \<open>Control\<close>

definition op_push_number :: "opcodetype \<Rightarrow> eval_state \<Rightarrow> op_result" where
  "op_push_number opcode st = set_stack st (scriptnum_serialize (uint opcode - (0x51 - 1)) # es_stack st)"

definition op_CHECKLOCKTIMEVERIFY :: "script_env \<Rightarrow> u32 \<Rightarrow> eval_state \<Rightarrow> op_result" where
  "op_CHECKLOCKTIMEVERIFY E flags st =
     (if \<not> has_flag flags SCRIPT_VERIFY_CHECKLOCKTIMEVERIFY
      then (if has_flag flags SCRIPT_VERIFY_DISCOURAGE_UPGRADABLE_NOPS then Inl SCRIPT_ERR_DISCOURAGE_UPGRADABLE_NOPS
            else Inr st)
      else case es_stack st of
          [] \<Rightarrow> bad_stack
        | x # _ \<Rightarrow> with_num flags 5 x (\<lambda>n.
            if n < 0 then Inl SCRIPT_ERR_NEGATIVE_LOCKTIME
            else if \<not> CheckLockTime E n then Inl SCRIPT_ERR_UNSATISFIED_LOCKTIME
            else Inr st))"

definition op_NOP :: "eval_state \<Rightarrow> op_result" where
  "op_NOP st = Inr st"

definition op_NOPn :: "u32 \<Rightarrow> eval_state \<Rightarrow> op_result" where
  "op_NOPn flags st = (if has_flag flags SCRIPT_VERIFY_DISCOURAGE_UPGRADABLE_NOPS
     then Inl SCRIPT_ERR_DISCOURAGE_UPGRADABLE_NOPS else Inr st)"

definition op_IF :: "bool \<Rightarrow> bool \<Rightarrow> eval_state \<Rightarrow> op_result" where
  "op_IF notif fExec st =
     (if fExec
      then (case es_stack st of
          [] \<Rightarrow> Inl SCRIPT_ERR_UNBALANCED_CONDITIONAL
        | vch # s \<Rightarrow> let fValue = CastToBool vch
                     in Inr (st\<lparr>es_stack := s, vfExec := (if notif then \<not> fValue else fValue) # vfExec st\<rparr>))
      else Inr (st\<lparr>vfExec := False # vfExec st\<rparr>))"

definition op_ELSE :: "eval_state \<Rightarrow> op_result" where
  "op_ELSE st = (case vfExec st of
     [] \<Rightarrow> Inl SCRIPT_ERR_UNBALANCED_CONDITIONAL | b # v \<Rightarrow> Inr (st\<lparr>vfExec := (\<not> b) # v\<rparr>))"

definition op_ENDIF :: "eval_state \<Rightarrow> op_result" where
  "op_ENDIF st = (case vfExec st of
     [] \<Rightarrow> Inl SCRIPT_ERR_UNBALANCED_CONDITIONAL | b # v \<Rightarrow> Inr (st\<lparr>vfExec := v\<rparr>))"

definition op_VERIFY :: "eval_state \<Rightarrow> op_result" where
  "op_VERIFY st = (case es_stack st of
     [] \<Rightarrow> bad_stack | x # s \<Rightarrow> if CastToBool x then set_stack st s else Inl SCRIPT_ERR_VERIFY)"

definition op_RETURN :: "eval_state \<Rightarrow> op_result" where
  "op_RETURN st = Inl SCRIPT_ERR_OP_RETURN"

definition op_CODESEPARATOR :: "CScript \<Rightarrow> eval_state \<Rightarrow> op_result" where
  "op_CODESEPARATOR pc st = Inr (st\<lparr>pbegincodehash := pc\<rparr>)"

section \<open>Arithmetic\<close>

definition op_unary :: "u32 \<Rightarrow> (int \<Rightarrow> int) \<Rightarrow> eval_state \<Rightarrow> op_result" where
  "op_unary flags f st = (case es_stack st of
     [] \<Rightarrow> bad_stack
   | x # s \<Rightarrow> with_num flags nDefaultMaxNumSize x (\<lambda>bn. set_stack st (scriptnum_serialize (f bn) # s)))"

definition unary_ops :: "(opcodetype \<times> (int \<Rightarrow> int)) list" where
  "unary_ops = [(OP_1ADD, \<lambda>bn. bn + 1), (OP_1SUB, \<lambda>bn. bn - 1), (OP_NEGATE, \<lambda>bn. - bn),
     (OP_ABS, \<lambda>bn. if bn < 0 then - bn else bn), (OP_NOT, \<lambda>bn. of_bool (bn = 0)),
     (OP_0NOTEQUAL, \<lambda>bn. of_bool (bn \<noteq> 0))]"

definition op_binary :: "u32 \<Rightarrow> bool \<Rightarrow> (int \<Rightarrow> int \<Rightarrow> int) \<Rightarrow> eval_state \<Rightarrow> op_result" where
  "op_binary flags verify f st = (case es_stack st of
     x2 # x1 # s \<Rightarrow>
       with_num flags nDefaultMaxNumSize x1 (\<lambda>bn1. with_num flags nDefaultMaxNumSize x2 (\<lambda>bn2.
         let bn = scriptnum_serialize (f bn1 bn2)
         in if verify then (if CastToBool bn then set_stack st s else Inl SCRIPT_ERR_NUMEQUALVERIFY)
            else set_stack st (bn # s)))
   | _ \<Rightarrow> bad_stack)"

definition binary_ops :: "(opcodetype \<times> (int \<Rightarrow> int \<Rightarrow> int)) list" where
  "binary_ops = [(OP_ADD, \<lambda>bn1 bn2. bn1 + bn2), (OP_SUB, \<lambda>bn1 bn2. bn1 - bn2),
     (OP_BOOLAND, \<lambda>bn1 bn2. of_bool (bn1 \<noteq> 0 \<and> bn2 \<noteq> 0)), (OP_BOOLOR, \<lambda>bn1 bn2. of_bool (bn1 \<noteq> 0 \<or> bn2 \<noteq> 0)),
     (OP_NUMEQUAL, \<lambda>bn1 bn2. of_bool (bn1 = bn2)), (OP_NUMNOTEQUAL, \<lambda>bn1 bn2. of_bool (bn1 \<noteq> bn2)),
     (OP_LESSTHAN, \<lambda>bn1 bn2. of_bool (bn1 < bn2)), (OP_GREATERTHAN, \<lambda>bn1 bn2. of_bool (bn1 > bn2)),
     (OP_LESSTHANOREQUAL, \<lambda>bn1 bn2. of_bool (bn1 \<le> bn2)), (OP_GREATERTHANOREQUAL, \<lambda>bn1 bn2. of_bool (bn1 \<ge> bn2)),
     (OP_MIN, \<lambda>bn1 bn2. if bn1 < bn2 then bn1 else bn2), (OP_MAX, \<lambda>bn1 bn2. if bn1 > bn2 then bn1 else bn2)]"

definition op_WITHIN :: "u32 \<Rightarrow> eval_state \<Rightarrow> op_result" where
  "op_WITHIN flags st = (case es_stack st of
     x3 # x2 # x1 # s \<Rightarrow>
       with_num flags nDefaultMaxNumSize x1 (\<lambda>bn1. with_num flags nDefaultMaxNumSize x2 (\<lambda>bn2.
       with_num flags nDefaultMaxNumSize x3 (\<lambda>bn3. set_stack st (vch_bool (bn2 \<le> bn1 \<and> bn1 < bn3) # s))))
   | _ \<Rightarrow> bad_stack)"

section \<open>Hashes and signatures\<close>

definition hash_ops :: "byte list \<Rightarrow> (opcodetype \<times> (valtype \<Rightarrow> valtype)) list" where
  "hash_ops junk =
     [(OP_RIPEMD160, \<lambda>vch. snd (CRIPEMD160_Finalize (CRIPEMD160_Write (CRIPEMD160_new junk) vch))),
      (OP_SHA1, \<lambda>vch. snd (CSHA1_Finalize (CSHA1_Write (CSHA1_new junk) vch))),
      (OP_SHA256, \<lambda>vch. snd (CSHA256_Finalize (CSHA256_Write (CSHA256_new junk) vch))),
      (OP_HASH160, \<lambda>vch. snd (CHash160_Finalize junk (CSHA256_Write (CSHA256_new junk) vch))),
      (OP_HASH256, \<lambda>vch. snd (CHash256_Finalize (CSHA256_Write (CSHA256_new junk) vch)))]"

definition op_HASH :: "(valtype \<Rightarrow> valtype) \<Rightarrow> eval_state \<Rightarrow> op_result" where
  "op_HASH f st = (case es_stack st of [] \<Rightarrow> bad_stack | vch # s \<Rightarrow> set_stack st (f vch # s))"

definition op_CHECKSIG :: "script_env \<Rightarrow> u32 \<Rightarrow> SigVersion \<Rightarrow> bool \<Rightarrow> eval_state \<Rightarrow> op_result" where
  "op_CHECKSIG E flags sigversion verify st = (case es_stack st of
     vchPubKey # vchSig # s \<Rightarrow>
       let scriptCode = snd (FindAndDelete (pbegincodehash st) (push_data [] vchSig))
       in (case check_encodings E vchSig vchPubKey flags of
             Some e \<Rightarrow> Inl e
           | None \<Rightarrow> (case CheckSig E vchSig vchPubKey scriptCode sigversion of
               None \<Rightarrow> Inl SCRIPT_ERR_UNKNOWN_ERROR
             | Some fSuccess \<Rightarrow> push_result verify SCRIPT_ERR_CHECKSIGVERIFY fSuccess s st))
   | _ \<Rightarrow> bad_stack)"

text \<open>
  The loop of \<open>OP_CHECKMULTISIG\<close> over the signatures and keys still to be looked at; it stops as soon as
  there are more signatures than keys.
\<close>

fun multisig_loop :: "script_env \<Rightarrow> u32 \<Rightarrow> SigVersion \<Rightarrow> CScript \<Rightarrow> valtype list \<Rightarrow> valtype list \<Rightarrow> ScriptError + bool" where
  "multisig_loop E flags sigversion scriptCode [] keys = Inr True"
| "multisig_loop E flags sigversion scriptCode (vchSig # sigs) [] = Inr False"
| "multisig_loop E flags sigversion scriptCode (vchSig # sigs) (vchPubKey # keys) =
     (case check_encodings E vchSig vchPubKey flags of
        Some e \<Rightarrow> Inl e
      | None \<Rightarrow> (case CheckSig E vchSig vchPubKey scriptCode sigversion of
          None \<Rightarrow> Inl SCRIPT_ERR_UNKNOWN_ERROR
        | Some fOk \<Rightarrow>
            let sigs' = (if fOk then sigs else vchSig # sigs)
            in if length sigs' > length keys then Inr False
               else multisig_loop E flags sigversion scriptCode sigs' keys))"

definition op_CHECKMULTISIG :: "script_env \<Rightarrow> u32 \<Rightarrow> SigVersion \<Rightarrow> bool \<Rightarrow> eval_state \<Rightarrow> op_result" where
  "op_CHECKMULTISIG E flags sigversion verify st =
     (let s = es_stack st in
      if length s < 1 then bad_stack
      else with_num flags nDefaultMaxNumSize (s ! 0) (\<lambda>m. let nKeysCount = getint m in
        if nKeysCount < 0 \<or> nKeysCount > 20 then Inl SCRIPT_ERR_PUBKEY_COUNT
        else let st = st\<lparr>nOpCount := nOpCount st + nKeysCount\<rparr>; k = nat nKeysCount in
        if nOpCount st > 201 then Inl SCRIPT_ERR_OP_COUNT
        else if length s < 2 + k then bad_stack
        else with_num flags nDefaultMaxNumSize (s ! (1 + k)) (\<lambda>m. let nSigsCount = getint m in
          if nSigsCount < 0 \<or> nSigsCount > nKeysCount then Inl SCRIPT_ERR_SIG_COUNT
          else let l = nat nSigsCount in
          if length s < 3 + k + l then bad_stack
          else let keys = take k (drop 1 s); sigs = take l (drop (2 + k) s);
                   scriptCode = foldl (\<lambda>sc vchSig. snd (FindAndDelete sc (push_data [] vchSig))) (pbegincodehash st) sigs
               in case multisig_loop E flags sigversion scriptCode sigs keys of
                    Inl e \<Rightarrow> Inl e
                  | Inr fSuccess \<Rightarrow>
                      let rest = drop (2 + k + l) s
                      in if has_flag flags SCRIPT_VERIFY_NULLDUMMY \<and> length (rest ! 0) \<noteq> 0 then Inl SCRIPT_ERR_SIG_NULLDUMMY
                         else push_result verify SCRIPT_ERR_CHECKMULTISIGVERIFY fSuccess (drop 1 rest) st)))"

section \<open>The interpreter loop\<close>

text \<open>
  The \<open>switch\<close> over the opcode, as the table of its cases.  \<open>pc\<close> is the position after the instruction.
\<close>

definition op_table :: "script_env \<Rightarrow> u32 \<Rightarrow> SigVersion \<Rightarrow> CScript \<Rightarrow> bool \<Rightarrow> (opcodetype \<times> (eval_state \<Rightarrow> op_result)) list" where
  "op_table E flags sigversion pc fExec =
     map (\<lambda>opcode. (opcode, op_push_number opcode))
       [OP_1NEGATE, OP_1, OP_2, OP_3, OP_4, OP_5, OP_6, OP_7, OP_8, OP_9, OP_10, OP_11, OP_12, OP_13, OP_14, OP_15, OP_16] @
     [(OP_NOP, op_NOP), (OP_CHECKLOCKTIMEVERIFY, op_CHECKLOCKTIMEVERIFY E flags)] @
     map (\<lambda>opcode. (opcode, op_NOPn flags))
       [OP_NOP1, OP_NOP3, OP_NOP4, OP_NOP5, OP_NOP6, OP_NOP7, OP_NOP8, OP_NOP9, OP_NOP10] @
     [(OP_IF, op_IF False fExec), (OP_NOTIF, op_IF True fExec), (OP_ELSE, op_ELSE), (OP_ENDIF, op_ENDIF),
      (OP_VERIFY, op_VERIFY), (OP_RETURN, op_RETURN),
      (OP_TOALTSTACK, op_TOALTSTACK), (OP_FROMALTSTACK, op_FROMALTSTACK)] @
     map (\<lambda>(opcode, f). (opcode, lift_stack f))
       [(OP_2DROP, op_2DROP), (OP_2DUP, op_2DUP), (OP_3DUP, op_3DUP), (OP_2OVER, op_2OVER), (OP_2ROT, op_2ROT),
        (OP_2SWAP, op_2SWAP), (OP_IFDUP, op_IFDUP), (OP_DEPTH, op_DEPTH), (OP_DROP, op_DROP), (OP_DUP, op_DUP),
        (OP_NIP, op_NIP), (OP_OVER, op_OVER), (OP_ROT, op_ROT), (OP_SWAP, op_SWAP), (OP_TUCK, op_TUCK), (OP_SIZE, op_SIZE)] @
     [(OP_PICK, op_PICK_ROLL flags False), (OP_ROLL, op_PICK_ROLL flags True),
      (OP_EQUAL, op_EQUAL False), (OP_EQUALVERIFY, op_EQUAL True)] @
     map (\<lambda>(opcode, f). (opcode, op_unary flags f)) unary_ops @
     map (\<lambda>(opcode, f). (opcode, op_binary flags False f)) binary_ops @
     [(OP_NUMEQUALVERIFY, op_binary flags True (\<lambda>bn1 bn2. of_bool (bn1 = bn2))), (OP_WITHIN, op_WITHIN flags)] @
     map (\<lambda>(opcode, f). (opcode, op_HASH f)) (hash_ops (hash_junk E)) @
     [(OP_CODESEPARATOR, op_CODESEPARATOR pc),
      (OP_CHECKSIG, op_CHECKSIG E flags sigversion False), (OP_CHECKSIGVERIFY, op_CHECKSIG E flags sigversion True),
      (OP_CHECKMULTISIG, op_CHECKMULTISIG E flags sigversion False),
      (OP_CHECKMULTISIGVERIFY, op_CHECKMULTISIG E flags sigversion True)]"

definition exec_op :: "script_env \<Rightarrow> u32 \<Rightarrow> SigVersion \<Rightarrow> CScript \<Rightarrow> bool \<Rightarrow> opcodetype \<Rightarrow> eval_state \<Rightarrow> op_result" where
  "exec_op E flags sigversion pc fExec opcode st =
     (case map_of (op_table E flags sigversion pc fExec) opcode of
        None \<Rightarrow> Inl SCRIPT_ERR_BAD_OPCODE
      | Some f \<Rightarrow> f st)"

definition MAX_SCRIPT_ELEMENT_SIZE :: nat where "MAX_SCRIPT_ELEMENT_SIZE = 520"

definition disabled_opcodes :: "opcodetype list" where
  "disabled_opcodes = [OP_CAT, OP_SUBSTR, OP_LEFT, OP_RIGHT, OP_INVERT, OP_AND, OP_OR, OP_XOR, OP_2MUL, OP_2DIV,
     OP_MUL, OP_DIV, OP_MOD, OP_LSHIFT, OP_RSHIFT]"

abbreviation executing :: "eval_state \<Rightarrow> bool" where
  "executing st \<equiv> False \<notin> set (vfExec st)"

text \<open>One iteration of the loop: the checks before the \<open>switch\<close>, and the \<open>switch\<close> with the check after it.\<close>

definition fetch_checks :: "opcodetype \<Rightarrow> valtype \<Rightarrow> eval_state \<Rightarrow> op_result" where
  "fetch_checks opcode vchPushValue st =
     (if length vchPushValue > MAX_SCRIPT_ELEMENT_SIZE then Inl SCRIPT_ERR_PUSH_SIZE
      else let st = (if opcode > OP_16 then st\<lparr>nOpCount := nOpCount st + 1\<rparr> else st)
      in if opcode > OP_16 \<and> nOpCount st > 201 then Inl SCRIPT_ERR_OP_COUNT
      else if opcode \<in> set disabled_opcodes then Inl SCRIPT_ERR_DISABLED_OPCODE
      else Inr st)"

definition run_instruction :: "script_env \<Rightarrow> u32 \<Rightarrow> SigVersion \<Rightarrow> CScript \<Rightarrow> opcodetype \<Rightarrow> valtype \<Rightarrow> eval_state \<Rightarrow> op_result" where
  "run_instruction E flags sigversion pc opcode vchPushValue st =
     (if executing st \<and> opcode \<le> OP_PUSHDATA4
      then (if minimal_flag flags \<and> \<not> CheckMinimalPush vchPushValue opcode then Inl SCRIPT_ERR_MINIMALDATA
            else set_stack st (vchPushValue # es_stack st))
      else if executing st \<or> (OP_IF \<le> opcode \<and> opcode \<le> OP_ENDIF)
      then exec_op E flags sigversion pc (executing st) opcode st
      else Inr st)"

definition dispatch :: "script_env \<Rightarrow> u32 \<Rightarrow> SigVersion \<Rightarrow> CScript \<Rightarrow> opcodetype \<Rightarrow> valtype \<Rightarrow> eval_state \<Rightarrow> op_result" where
  "dispatch E flags sigversion pc opcode vchPushValue st =
     (case run_instruction E flags sigversion pc opcode vchPushValue st of
        Inl e \<Rightarrow> Inl e
      | Inr st' \<Rightarrow> if length (es_stack st') + length (es_alt st') > 1000 then Inl SCRIPT_ERR_STACK_SIZE else Inr st')"

function eval_loop :: "script_env \<Rightarrow> u32 \<Rightarrow> SigVersion \<Rightarrow> CScript \<Rightarrow> CScript \<Rightarrow> eval_state \<Rightarrow> ScriptError + valtype list" where
  "eval_loop E flags sigversion script pc st =
     (if pc = []
      then (if vfExec st \<noteq> [] then Inl SCRIPT_ERR_UNBALANCED_CONDITIONAL else Inr (es_stack st))
      else case GetOp2 pc of
          None \<Rightarrow> Inl SCRIPT_ERR_BAD_OPCODE
        | Some (opcode, vchPushValue, pc') \<Rightarrow>
            (case fetch_checks opcode vchPushValue st of
               Inl e \<Rightarrow> Inl e
             | Inr st1 \<Rightarrow>
                 if executing st1 \<and> opcode = OP_CHECKCOLDSTAKEVERIFY
                 then (case CheckColdStake E script (es_stack st1) flags of
                         Inl e \<Rightarrow> Inl e | Inr _ \<Rightarrow> Inr (es_stack st1))
                 else (case dispatch E flags sigversion pc' opcode vchPushValue st1 of
                         Inl e \<Rightarrow> Inl e
                       | Inr st2 \<Rightarrow> eval_loop E flags sigversion script pc' st2)))"
  by pat_completeness auto

termination
  by (relation "measure (\<lambda>(E, flags, v, script, pc, st). length pc)") (auto dest: GetOp2_shorter)

declare eval_loop.simps [simp del]

definition eval_start :: "valtype list \<Rightarrow> CScript \<Rightarrow> eval_state" where
  "eval_start stack script = \<lparr>es_stack = stack, es_alt = [], vfExec = [], nOpCount = 0, pbegincodehash = script\<rparr>"

definition EvalScript :: "script_env \<Rightarrow> valtype list \<Rightarrow> CScript \<Rightarrow> u32 \<Rightarrow> SigVersion \<Rightarrow> ScriptError + valtype list" where
  "EvalScript E stack script flags sigversion =
     (if length script > MAX_SCRIPT_SIZE then Inl SCRIPT_ERR_SCRIPT_SIZE
      else eval_loop E flags sigversion script script (eval_start stack script))"

definition VerifyScript :: "script_env \<Rightarrow> CScript \<Rightarrow> CScript \<Rightarrow> u32 \<Rightarrow> SigVersion \<Rightarrow> ScriptError + unit" where
  "VerifyScript E sigScript pubScript flags sigversion =
     (if has_flag flags SCRIPT_VERIFY_SIGPUSHONLY \<and> \<not> IsPushOnly sigScript then Inl SCRIPT_ERR_SIG_PUSHONLY
      else case EvalScript E [] sigScript flags sigversion of
          Inl e \<Rightarrow> Inl e
        | Inr stack1 \<Rightarrow> (case EvalScript E stack1 pubScript flags sigversion of
            Inl e \<Rightarrow> Inl e
          | Inr stack2 \<Rightarrow>
              if stack2 = [] then Inl SCRIPT_ERR_EVAL_FALSE
              else if \<not> CastToBool (hd stack2) then Inl SCRIPT_ERR_EVAL_FALSE
              else if has_flag flags SCRIPT_VERIFY_P2SH \<and> IsPayToScriptHash pubScript
              then (if \<not> IsPushOnly sigScript then Inl SCRIPT_ERR_SIG_PUSHONLY
                    else case EvalScript E (tl stack1) (hd stack1) flags sigversion of
                        Inl e \<Rightarrow> Inl e
                      | Inr stack3 \<Rightarrow>
                          if stack3 = [] then Inl SCRIPT_ERR_EVAL_FALSE
                          else if \<not> CastToBool (hd stack3) then Inl SCRIPT_ERR_EVAL_FALSE
                          else Inr ())
              else Inr ()))"

section \<open>Reachable states\<close>

text \<open>
  The states at the head of the loop, as a step relation over the position in the script and the
  evaluation state.
\<close>

inductive eval_step :: "script_env \<Rightarrow> u32 \<Rightarrow> SigVersion \<Rightarrow> CScript \<times> eval_state \<Rightarrow> CScript \<times> eval_state \<Rightarrow> bool"
  for E flags sigversion where
  "GetOp2 pc = Some (opcode, vch, pc') \<Longrightarrow> fetch_checks opcode vch st = Inr st1 \<Longrightarrow>
   \<not> (executing st1 \<and> opcode = OP_CHECKCOLDSTAKEVERIFY) \<Longrightarrow>
   dispatch E flags sigversion pc' opcode vch st1 = Inr st2 \<Longrightarrow> eval_step E flags sigversion (pc, st) (pc', st2)"

inductive_cases eval_stepE: "eval_step E flags sigversion (pc, st) c"

text \<open>The sizes an evaluation keeps to.\<close>

definition elements_ok :: "valtype list \<Rightarrow> bool" where
  "elements_ok s \<longleftrightarrow> list_all (\<lambda>x. length x \<le> MAX_SCRIPT_ELEMENT_SIZE) s"

definition sizes_ok :: "eval_state \<Rightarrow> bool" where
  "sizes_ok st \<longleftrightarrow> elements_ok (es_stack st) \<and> elements_ok (es_alt st) \<and> nOpCount st \<le> 201 \<and>
     length (es_stack st) + length (es_alt st) \<le> 1000"

text \<open>What an operation keeps of it; the total size is looked at after the operation.\<close>

definition op_ok :: "(eval_state \<Rightarrow> op_result) \<Rightarrow> bool" where
  "op_ok f \<longleftrightarrow> (\<forall>st st'. sizes_ok st \<and> f st = Inr st' \<longrightarrow>
     elements_ok (es_stack st') \<and> elements_ok (es_alt st') \<and> nOpCount st' \<le> 201)"

named_theorems op_oks

lemma elements_ok_simps [simp]:
  "elements_ok []" "elements_ok (x # s) \<longleftrightarrow> length x \<le> MAX_SCRIPT_ELEMENT_SIZE \<and> elements_ok s"
  "elements_ok (s @ t) \<longleftrightarrow> elements_ok s \<and> elements_ok t"
  by (simp_all add: elements_ok_def)

lemma elements_ok_part [simp]:
  "elements_ok s \<Longrightarrow> elements_ok (take k s)" "elements_ok s \<Longrightarrow> elements_ok (drop k s)"
  "elements_ok s \<Longrightarrow> k < length s \<Longrightarrow> length (s ! k) \<le> MAX_SCRIPT_ELEMENT_SIZE"
  by (auto simp: elements_ok_def list_all_iff dest: in_set_takeD in_set_dropD)

lemma vch_bool_length [simp]: "length vchTrue \<le> MAX_SCRIPT_ELEMENT_SIZE" "length vchFalse \<le> MAX_SCRIPT_ELEMENT_SIZE"
  by (simp_all add: vchTrue_def vchFalse_def MAX_SCRIPT_ELEMENT_SIZE_def)

lemma serialize_small: "\<bar>n\<bar> < 2 ^ 33 \<Longrightarrow> length (scriptnum_serialize n) \<le> MAX_SCRIPT_ELEMENT_SIZE"
  using serialize_length [of n 5] by (simp add: MAX_SCRIPT_ELEMENT_SIZE_def)

lemma CScriptNum_bound: "CScriptNum vch b nDefaultMaxNumSize = Some n \<Longrightarrow> \<bar>n\<bar> < 2 ^ 31"
proof -
  assume "CScriptNum vch b nDefaultMaxNumSize = Some n"
  then have n: "n = set_vch vch" and l: "length vch \<le> 4"
    by (auto simp: CScriptNum_def nDefaultMaxNumSize_def split: if_splits)
  show ?thesis
  proof (cases "vch = []")
    case False
    have "(256 :: int) ^ length vch \<le> 256 ^ 4" using l by (intro power_increasing) simp_all
    then show ?thesis using set_vch_bound [OF False] n by simp
  qed (simp add: n set_vch_def)
qed

lemma with_num_Inr:
  "with_num flags k vch f = Inr st \<longleftrightarrow> (\<exists>n. CScriptNum vch (minimal_flag flags) k = Some n \<and> f n = Inr st)"
  by (auto simp: with_num_def split: option.splits)

lemma push_result_Inr:
  "push_result verify e b s st = Inr st' \<longleftrightarrow> st' = st\<lparr>es_stack := if verify then s else vch_bool b # s\<rparr> \<and> (verify \<longrightarrow> b)"
  by (auto simp: push_result_def)

section \<open>Sizes\<close>

lemma lift_stack_ok:
  assumes "\<And>s s'. f s = Some s' \<Longrightarrow> elements_ok s \<Longrightarrow> length s \<le> 1000 \<Longrightarrow> elements_ok s'"
  shows "op_ok (lift_stack f)"
  using assms by (fastforce simp: op_ok_def lift_stack_def sizes_ok_def split: option.splits)

lemma op_2DROP_ok [op_oks]: "op_ok (lift_stack op_2DROP)"
  by (rule lift_stack_ok) (auto elim: op_2DROP.elims)

lemma op_2DUP_ok [op_oks]: "op_ok (lift_stack op_2DUP)"
  by (rule lift_stack_ok) (auto elim!: op_2DUP.elims)

lemma op_3DUP_ok [op_oks]: "op_ok (lift_stack op_3DUP)"
  by (rule lift_stack_ok) (auto elim!: op_3DUP.elims)

lemma op_2OVER_ok [op_oks]: "op_ok (lift_stack op_2OVER)"
  by (rule lift_stack_ok) (auto elim!: op_2OVER.elims)

lemma op_2ROT_ok [op_oks]: "op_ok (lift_stack op_2ROT)"
  by (rule lift_stack_ok) (auto elim!: op_2ROT.elims)

lemma op_2SWAP_ok [op_oks]: "op_ok (lift_stack op_2SWAP)"
  by (rule lift_stack_ok) (auto elim!: op_2SWAP.elims)

lemma op_IFDUP_ok [op_oks]: "op_ok (lift_stack op_IFDUP)"
  by (rule lift_stack_ok) (auto elim!: op_IFDUP.elims split: if_splits)

lemma op_DEPTH_ok [op_oks]: "op_ok (lift_stack op_DEPTH)"
  by (rule lift_stack_ok) (auto simp: op_DEPTH_def intro!: serialize_small)

lemma op_DROP_DUP_ok [op_oks]: "op_ok (lift_stack op_DROP)" "op_ok (lift_stack op_DUP)"
  by (rule lift_stack_ok, auto elim!: op_DROP.elims op_DUP.elims)+

lemma op_NIP_OVER_ok [op_oks]: "op_ok (lift_stack op_NIP)" "op_ok (lift_stack op_OVER)"
  by (rule lift_stack_ok, auto elim!: op_NIP.elims op_OVER.elims)+

lemma op_ROT_SWAP_ok [op_oks]: "op_ok (lift_stack op_ROT)" "op_ok (lift_stack op_SWAP)"
  by (rule lift_stack_ok, auto elim!: op_ROT.elims op_SWAP.elims)+

lemma op_TUCK_ok [op_oks]: "op_ok (lift_stack op_TUCK)"
  by (rule lift_stack_ok) (auto elim!: op_TUCK.elims)

lemma op_SIZE_ok [op_oks]: "op_ok (lift_stack op_SIZE)"
  by (rule lift_stack_ok) (auto elim!: op_SIZE.elims intro!: serialize_small, simp add: MAX_SCRIPT_ELEMENT_SIZE_def)

lemma op_PICK_ROLL_ok [op_oks]: "op_ok (op_PICK_ROLL flags roll)"
  by (auto simp: op_ok_def op_PICK_ROLL_def sizes_ok_def with_num_Inr Let_def nat_less_iff
      split: list.splits if_splits intro!: elements_ok_part)

lemma op_alt_ok [op_oks]: "op_ok op_TOALTSTACK" "op_ok op_FROMALTSTACK"
  by (auto simp: op_ok_def op_TOALTSTACK_def op_FROMALTSTACK_def sizes_ok_def split: list.splits)

lemma op_EQUAL_ok [op_oks]: "op_ok (op_EQUAL verify)"
  by (auto simp: op_ok_def op_EQUAL_def sizes_ok_def push_result_Inr split: list.splits)

lemma op_push_number_ok [op_oks]: "op_ok (op_push_number opcode)"
proof -
  have "uint opcode < 256" "0 \<le> uint opcode" using uint_lt2p [of opcode] by simp_all
  moreover have "0 \<le> n \<Longrightarrow> n < 256 \<Longrightarrow> \<bar>n - (0x51 - 1)\<bar> < 2 ^ 33" for n :: int by simp
  ultimately have "\<bar>uint opcode - (0x51 - 1)\<bar> < 2 ^ 33" by blast
  from serialize_small [OF this] show ?thesis by (simp add: op_ok_def op_push_number_def sizes_ok_def)
qed

lemma op_control_ok [op_oks]:
  "op_ok op_NOP" "op_ok (op_NOPn flags)" "op_ok (op_CHECKLOCKTIMEVERIFY E flags)" "op_ok (op_IF notif fExec)"
  "op_ok op_ELSE" "op_ok op_ENDIF" "op_ok op_VERIFY" "op_ok op_RETURN" "op_ok (op_CODESEPARATOR pc)"
  by (auto simp: op_ok_def sizes_ok_def op_NOP_def op_NOPn_def op_CHECKLOCKTIMEVERIFY_def with_num_Inr op_IF_def
      op_ELSE_def op_ENDIF_def op_VERIFY_def op_RETURN_def op_CODESEPARATOR_def Let_def split: list.splits if_splits)

lemma op_unary_ok:
  assumes "\<And>n. \<bar>n\<bar> < 2 ^ 31 \<Longrightarrow> \<bar>f n\<bar> < 2 ^ 33"
  shows "op_ok (op_unary flags f)"
  using assms by (auto simp: op_ok_def op_unary_def sizes_ok_def with_num_Inr split: list.splits
      intro!: serialize_small dest!: CScriptNum_bound)

lemma unary_ops_ok [op_oks]: "(opcode, f) \<in> set unary_ops \<Longrightarrow> op_ok (op_unary flags f)"
  by (rule op_unary_ok) (auto simp: unary_ops_def)

lemma op_binary_ok:
  assumes "\<And>m n. \<bar>m\<bar> < 2 ^ 31 \<Longrightarrow> \<bar>n\<bar> < 2 ^ 31 \<Longrightarrow> \<bar>f m n\<bar> < 2 ^ 33"
  shows "op_ok (op_binary flags verify f)"
  using assms by (auto simp: op_ok_def op_binary_def sizes_ok_def with_num_Inr Let_def split: list.splits if_splits
      intro!: serialize_small dest!: CScriptNum_bound)

lemma binary_ops_ok [op_oks]:
  "(opcode, f) \<in> set binary_ops \<Longrightarrow> op_ok (op_binary flags False f)"
  "op_ok (op_binary flags True (\<lambda>bn1 bn2. of_bool (bn1 = bn2)))"
  by (rule op_binary_ok, auto simp: binary_ops_def)+

lemma op_WITHIN_ok [op_oks]: "op_ok (op_WITHIN flags)"
  by (auto simp: op_ok_def op_WITHIN_def sizes_ok_def with_num_Inr split: list.splits)

lemma length_concat_map: "(\<And>i. length (f i) = k) \<Longrightarrow> length (concat (map f xs)) = k * length xs"
  by (induction xs) simp_all

lemma hash_lengths:
  "length (snd (CRIPEMD160_Finalize r)) = 20" "length (snd (CSHA1_Finalize h)) = 20"
  "length (snd (CSHA256_Finalize h)) = 32"
  by (simp_all add: CRIPEMD160_Finalize_def CSHA1_Finalize_def CSHA256_Finalize_def CSHA256_FinalizeNoPadding_def
      Let_def length_concat_map [where k = 4])

lemma hash_ops_length: "(opcode, f) \<in> set (hash_ops junk) \<Longrightarrow> length (f x) \<le> 32"
  by (auto simp: hash_ops_def hash_lengths CHash160_Finalize_def CHash256_Finalize_def split_beta)

lemma hash_ops_ok [op_oks]: "(opcode, f) \<in> set (hash_ops junk) \<Longrightarrow> op_ok (op_HASH f)"
  using hash_ops_length [of opcode f junk]
  by (fastforce simp: op_ok_def op_HASH_def sizes_ok_def MAX_SCRIPT_ELEMENT_SIZE_def split: list.splits intro: order_trans)

lemma op_CHECKSIG_ok [op_oks]: "op_ok (op_CHECKSIG E flags sigversion verify)"
  by (auto simp: op_ok_def op_CHECKSIG_def sizes_ok_def push_result_Inr Let_def split: list.splits option.splits)

lemma op_CHECKMULTISIG_Inr:
  assumes "op_CHECKMULTISIG E flags sigversion verify st = Inr st'"
  shows "\<exists>k n b. st' = st\<lparr>nOpCount := nOpCount st + k,
    es_stack := (if verify then drop n (es_stack st) else vch_bool b # drop n (es_stack st))\<rparr> \<and> nOpCount st + k \<le> 201"
  using assms unfolding op_CHECKMULTISIG_def Let_def
  by (clarsimp simp: with_num_Inr push_result_Inr not_less split: if_split_asm sum.split_asm) blast+

lemma op_CHECKMULTISIG_ok [op_oks]: "op_ok (op_CHECKMULTISIG E flags sigversion verify)"
  unfolding op_ok_def by (auto dest!: op_CHECKMULTISIG_Inr simp: sizes_ok_def)

lemma op_table_ok: "(opcode, f) \<in> set (op_table E flags sigversion pc fExec) \<Longrightarrow> op_ok f"
  unfolding op_table_def by (auto intro: op_oks)

lemma exec_op_ok: "op_ok (exec_op E flags sigversion pc fExec opcode)"
  using op_table_ok [OF map_of_SomeD]
  by (fastforce simp: exec_op_def op_ok_def split: option.splits)

lemma fetch_checks_ok: "fetch_checks opcode vch st = Inr st1 \<Longrightarrow> sizes_ok st \<Longrightarrow>
    sizes_ok st1 \<and> length vch \<le> MAX_SCRIPT_ELEMENT_SIZE"
  by (auto simp: fetch_checks_def sizes_ok_def Let_def split: if_splits)

lemma dispatch_Inr:
  "dispatch E flags sigversion pc opcode vch st = Inr st' \<longleftrightarrow>
   run_instruction E flags sigversion pc opcode vch st = Inr st' \<and> length (es_stack st') + length (es_alt st') \<le> 1000"
  unfolding dispatch_def by (cases "run_instruction E flags sigversion pc opcode vch st") auto

lemma run_instruction_cases:
  assumes "run_instruction E flags sigversion pc opcode vch st = Inr st'"
  obtains "st' = st\<lparr>es_stack := vch # es_stack st\<rparr>" | "exec_op E flags sigversion pc (executing st) opcode st = Inr st'"
    | "st' = st"
proof (cases "executing st \<and> opcode \<le> OP_PUSHDATA4")
  case True
  then have "st' = st\<lparr>es_stack := vch # es_stack st\<rparr>"
    using assms unfolding run_instruction_def by (simp split: if_split_asm)
  then show thesis by (rule that(1))
next
  case False
  note r = assms [unfolded run_instruction_def if_not_P [OF False]]
  show thesis
  proof (cases "executing st \<or> (OP_IF \<le> opcode \<and> opcode \<le> OP_ENDIF)")
    case True
    show thesis by (rule that(2)) (rule r [unfolded if_P [OF True]])
  next
    case False
    from r [unfolded if_not_P [OF False]] have "st' = st" by simp
    then show thesis by (rule that(3))
  qed
qed

lemma dispatch_ok:
  assumes "dispatch E flags sigversion pc opcode vch st = Inr st'" "sizes_ok st" "length vch \<le> MAX_SCRIPT_ELEMENT_SIZE"
  shows "sizes_ok st'"
proof -
  have r: "run_instruction E flags sigversion pc opcode vch st = Inr st'" "length (es_stack st') + length (es_alt st') \<le> 1000"
    using assms(1) by (simp_all add: dispatch_Inr)
  from r(1) have "elements_ok (es_stack st') \<and> elements_ok (es_alt st') \<and> nOpCount st' \<le> 201"
  proof (cases rule: run_instruction_cases)
    case 2
    then show ?thesis using exec_op_ok assms(2) unfolding op_ok_def by blast
  qed (use assms(2,3) in \<open>simp_all add: sizes_ok_def\<close>)
  with r(2) show ?thesis by (simp add: sizes_ok_def)
qed

lemma eval_step_ok: "eval_step E flags sigversion (pc, st) (pc', st') \<Longrightarrow> sizes_ok st \<Longrightarrow> sizes_ok st'"
  by (elim eval_stepE) (auto dest!: fetch_checks_ok dispatch_ok)

lemma eval_steps_ok:
  "(eval_step E flags sigversion)\<^sup>*\<^sup>* c d \<Longrightarrow> sizes_ok (snd c) \<Longrightarrow> sizes_ok (snd d) \<and> length (fst d) \<le> length (fst c)"
proof (induction rule: rtranclp_induct)
  case (step d e)
  obtain pc st pc' st' where de: "d = (pc, st)" "e = (pc', st')" by (cases d, cases e) auto
  then show ?case using step eval_step_ok [of E flags sigversion pc st pc' st']
    by (auto elim!: eval_stepE dest!: GetOp2_shorter)
qed simp

lemma eval_start_ok: "elements_ok s \<Longrightarrow> length s \<le> 1000 \<Longrightarrow> sizes_ok (eval_start s script)"
  by (simp add: sizes_ok_def eval_start_def)

lemma eval_loop_step:
  "GetOp2 pc = Some (opcode, vch, pc') \<Longrightarrow>
   eval_loop E flags sigversion script pc st =
     (case fetch_checks opcode vch st of
        Inl e \<Rightarrow> Inl e
      | Inr st1 \<Rightarrow>
          if executing st1 \<and> opcode = OP_CHECKCOLDSTAKEVERIFY
          then (case CheckColdStake E script (es_stack st1) flags of Inl e \<Rightarrow> Inl e | Inr _ \<Rightarrow> Inr (es_stack st1))
          else (case dispatch E flags sigversion pc' opcode vch st1 of
                  Inl e \<Rightarrow> Inl e
                | Inr st2 \<Rightarrow> eval_loop E flags sigversion script pc' st2))"
  by (cases pc) (simp, subst eval_loop.simps, simp del: GetOp2.simps)

text \<open>A successful evaluation is a path of the step relation to the end of the script or to the staking opcode.\<close>

lemma eval_loop_path:
  "eval_loop E flags sigversion script pc st = Inr s \<Longrightarrow>
   \<exists>pc' st'. (eval_step E flags sigversion)\<^sup>*\<^sup>* (pc, st) (pc', st') \<and> es_stack st' = s \<and>
     (pc' = [] \<and> vfExec st' = [] \<or> (\<exists>vch pc2. GetOp2 pc' = Some (OP_CHECKCOLDSTAKEVERIFY, vch, pc2)))"
proof (induction "length pc" arbitrary: pc st rule: less_induct)
  case less
  show ?case
  proof (cases "pc = []")
    case True
    then show ?thesis using less.prems by (subst (asm) eval_loop.simps) (auto split: if_splits)
  next
    case False
    then obtain opcode vch pc1 where g: "GetOp2 pc = Some (opcode, vch, pc1)"
      using less.prems by (subst (asm) eval_loop.simps) (auto split: option.splits)
    then obtain st1 where f: "fetch_checks opcode vch st = Inr st1"
      using less.prems by (auto simp: eval_loop_step split: sum.splits)
    have es: "es_stack st1 = es_stack st" using f by (auto simp: fetch_checks_def Let_def split: if_splits)
    show ?thesis
    proof (cases "executing st1 \<and> opcode = OP_CHECKCOLDSTAKEVERIFY")
      case True
      then have "es_stack st = s" using less.prems g f es by (auto simp: eval_loop_step split: sum.splits)
      then show ?thesis using g True by blast
    next
      case no: False
      then obtain st2 where d: "dispatch E flags sigversion pc1 opcode vch st1 = Inr st2"
          and l: "eval_loop E flags sigversion script pc1 st2 = Inr s"
        using less.prems unfolding eval_loop_step [OF g] f sum.case if_not_P [OF no] by (auto split: sum.split_asm)
      have st: "eval_step E flags sigversion (pc, st) (pc1, st2)" by (rule eval_step.intros [OF g f no d])
      from less.hyps [OF GetOp2_shorter [OF g] l] show ?thesis using converse_rtranclp_into_rtranclp [of "eval_step E flags sigversion", OF st] by blast
    qed
  qed
qed

lemma EvalScript_sizes:
  assumes "EvalScript E s script flags sigversion = Inr s'" "elements_ok s" "length s \<le> 1000"
  shows "elements_ok s' \<and> length s' \<le> 1000"
proof -
  have "eval_loop E flags sigversion script script (eval_start s script) = Inr s'"
    using assms(1) by (simp add: EvalScript_def split: if_splits)
  from eval_loop_path [OF this] obtain pc' st' where
    "(eval_step E flags sigversion)\<^sup>*\<^sup>* (script, eval_start s script) (pc', st')" "es_stack st' = s'" by blast
  then show ?thesis using eval_steps_ok [of E flags sigversion "(script, eval_start s script)" "(pc', st')"]
      eval_start_ok [OF assms(2,3)] by (auto simp: sizes_ok_def)
qed

section \<open>Running the standard scripts\<close>

lemma eval_loop_Nil [simp]:
  "eval_loop E flags sigversion script [] st =
     (if vfExec st \<noteq> [] then Inl SCRIPT_ERR_UNBALANCED_CONDITIONAL else Inr (es_stack st))"
  by (subst eval_loop.simps) simp

lemma minimal_push_data:
  assumes "length b < 2 ^ 32" "length b \<noteq> 1" "GetOp2 (push_data [] b @ r) = Some (opcode, vch, pc)"
  shows "CheckMinimalPush vch opcode"
proof -
  consider "length b < 0x4c" | "0x4c \<le> length b" "length b \<le> 0xff" | "0xff < length b" "length b \<le> 0xffff"
    | "0xffff < length b" by linarith
  moreover have "vch = b" using GetOp2_push_data [OF assms(1), of r] assms(3) by auto
  ultimately show ?thesis
  proof cases
    case 1
    then show ?thesis using assms(2,3) \<open>vch = b\<close> unfolding push_data_def
      by (auto simp: CheckMinimalPush_def push_size_def word_nat_simps unat_of_nat split: if_splits)
  qed (use assms(2,3) \<open>vch = b\<close> in \<open>auto simp: CheckMinimalPush_def push_data_def split: if_splits option.splits\<close>)
qed

lemma eval_push_data:
  assumes "executing st" "length b \<le> MAX_SCRIPT_ELEMENT_SIZE" "length b \<noteq> 1"
    and "length (es_stack st) + length (es_alt st) < 1000"
  shows "eval_loop E flags sigversion script (push_data [] b @ r) st =
    eval_loop E flags sigversion script r (st\<lparr>es_stack := b # es_stack st\<rparr>)"
proof -
  have l: "length b < 2 ^ 32" using assms(2) by (simp add: MAX_SCRIPT_ELEMENT_SIZE_def)
  obtain opcode where o1: "opcode \<le> OP_PUSHDATA4" "GetOp2 (push_data [] b @ r) = Some (opcode, b, r)"
    using GetOp2_push_data [OF l] by blast
  have "CheckMinimalPush b opcode" by (rule minimal_push_data [OF l assms(3) o1(2)])
  moreover have o2: "\<not> opcode > OP_16" "opcode \<noteq> OP_CHECKCOLDSTAKEVERIFY" "opcode \<notin> set disabled_opcodes"
    using o1(1) by (auto simp: disabled_opcodes_def word_nat_simps)
  moreover have "fetch_checks opcode b st = Inr st" using assms(2) o2 by (simp add: fetch_checks_def)
  ultimately show ?thesis
    using o1 assms(1,4) by (simp add: eval_loop_step dispatch_def run_instruction_def)
qed

lemma eval_instruction:
  assumes "opcode > OP_16" "\<not> executing st \<or> opcode \<noteq> OP_CHECKCOLDSTAKEVERIFY" "opcode \<notin> set disabled_opcodes" "nOpCount st < 201"
  shows "eval_loop E flags sigversion script (opcode # r) st =
    (case (if executing st \<or> (OP_IF \<le> opcode \<and> opcode \<le> OP_ENDIF)
           then exec_op E flags sigversion r (executing st) opcode (st\<lparr>nOpCount := nOpCount st + 1\<rparr>)
           else Inr (st\<lparr>nOpCount := nOpCount st + 1\<rparr>)) of
       Inl e \<Rightarrow> Inl e
     | Inr st' \<Rightarrow> if length (es_stack st') + length (es_alt st') > 1000 then Inl SCRIPT_ERR_STACK_SIZE
                  else eval_loop E flags sigversion script r st')"
    (is "_ = (case ?step of Inl e \<Rightarrow> Inl e | Inr st' \<Rightarrow> ?rest st')")
proof -
  let ?st = "st\<lparr>nOpCount := nOpCount st + 1\<rparr>"
  have o1: "\<not> opcode \<le> OP_PUSHDATA4" using assms(1) by (simp add: word_nat_simps)
  have g: "GetOp2 (opcode # r) = Some (opcode, [], r)" using o1 by simp
  have f: "fetch_checks opcode [] st = Inr ?st" using assms by (simp add: fetch_checks_def)
  have "run_instruction E flags sigversion r opcode [] ?st = ?step" using o1 by (simp add: run_instruction_def)
  moreover have n: "\<not> (executing ?st \<and> opcode = OP_CHECKCOLDSTAKEVERIFY)" using assms(2) by simp
  ultimately show ?thesis
    unfolding eval_loop_step [OF g] f sum.case if_not_P [OF n] dispatch_def by (cases ?step) simp_all
qed

lemma eval_op:
  assumes "executing st" "opcode > OP_16" "opcode \<noteq> OP_CHECKCOLDSTAKEVERIFY" "opcode \<notin> set disabled_opcodes" "nOpCount st < 201"
  shows "eval_loop E flags sigversion script (opcode # r) st =
    (case exec_op E flags sigversion r True opcode (st\<lparr>nOpCount := nOpCount st + 1\<rparr>) of
       Inl e \<Rightarrow> Inl e
     | Inr st' \<Rightarrow> if length (es_stack st') + length (es_alt st') > 1000 then Inl SCRIPT_ERR_STACK_SIZE
                  else eval_loop E flags sigversion script r st')"
  using assms by (simp add: eval_instruction)

lemma eval_skip_push:
  assumes "\<not> executing st" "length b \<le> MAX_SCRIPT_ELEMENT_SIZE" "length (es_stack st) + length (es_alt st) \<le> 1000"
  shows "eval_loop E flags sigversion script (push_data [] b @ r) st = eval_loop E flags sigversion script r st"
proof -
  have "length b < 2 ^ 32" using assms(2) by (simp add: MAX_SCRIPT_ELEMENT_SIZE_def)
  then obtain opcode where o1: "opcode \<le> OP_PUSHDATA4" "GetOp2 (push_data [] b @ r) = Some (opcode, b, r)"
    using GetOp2_push_data by blast
  then have o2: "\<not> opcode > OP_16" "\<not> OP_IF \<le> opcode" "opcode \<notin> set disabled_opcodes"
    by (auto simp: disabled_opcodes_def word_nat_simps)
  have "fetch_checks opcode b st = Inr st" using assms(2) o2 by (simp add: fetch_checks_def)
  then show ?thesis
    using o1 o2 assms(1,3) by (simp add: eval_loop_step dispatch_def run_instruction_def)
qed

lemmas op_table_defs = op_table_def unary_ops_def binary_ops_def hash_ops_def

lemma exec_op_simps:
  "exec_op E flags sigversion pc fExec OP_DUP = lift_stack op_DUP"
  "exec_op E flags sigversion pc fExec OP_ROT = lift_stack op_ROT"
  "exec_op E flags sigversion pc fExec OP_IF = op_IF False fExec"
  "exec_op E flags sigversion pc fExec OP_ELSE = op_ELSE"
  "exec_op E flags sigversion pc fExec OP_ENDIF = op_ENDIF"
  "exec_op E flags sigversion pc fExec OP_EQUAL = op_EQUAL False"
  "exec_op E flags sigversion pc fExec OP_EQUALVERIFY = op_EQUAL True"
  "exec_op E flags sigversion pc fExec OP_HASH160 = op_HASH (Hash160 (hash_junk E))"
  "exec_op E flags sigversion pc fExec OP_CHECKSIG = op_CHECKSIG E flags sigversion False"
  by (rule ext, simp add: exec_op_def op_table_defs Hash160_def [abs_def])+

lemma EvalScript_pushes:
  assumes "length a \<le> MAX_SCRIPT_ELEMENT_SIZE" "length a \<noteq> 1" "length b \<le> MAX_SCRIPT_ELEMENT_SIZE" "length b \<noteq> 1"
  shows "EvalScript E [] (push_data [] a @ push_data [] b) flags sigversion = Inr [b, a]"
proof -
  have "length (push_data [] a @ push_data [] b) \<le> MAX_SCRIPT_SIZE"
    using assms(1,3) by (simp add: push_data_def MAX_SCRIPT_ELEMENT_SIZE_def MAX_SCRIPT_SIZE_def)
  then show ?thesis using assms eval_push_data [of _ b E flags sigversion _ "[]"]
    by (simp add: EvalScript_def eval_push_data eval_start_def)
qed

definition p2pkh_script :: "byte list \<Rightarrow> CScript" where
  "p2pkh_script h = [OP_DUP, OP_HASH160] @ push_data [] h @ [OP_EQUALVERIFY, OP_CHECKSIG]"

lemma skip_none: "take (length b) pc \<noteq> b \<Longrightarrow> skip_occurrences b pc n = (pc, n)"
  by (subst skip_occurrences.simps) simp

lemma find_delete_none:
  "GetOp2 pc = Some (opcode, data, pc') \<Longrightarrow> take (length b) pc \<noteq> b \<Longrightarrow>
   find_delete_loop b pc res n = find_delete_loop b pc' (res @ take (length pc - length pc') pc) n"
  by (subst find_delete_loop.simps) (simp add: skip_none)

lemma p2pkh_FindAndDelete:
  assumes "length h = 20" "length vch \<noteq> 20"
  shows "snd (FindAndDelete (p2pkh_script h) (push_data [] vch)) = p2pkh_script h"
proof -
  let ?b = "push_data [] vch"
  obtain c cs where b: "?b = c # cs" "c = OP_PUSHDATA1 \<or> c = OP_PUSHDATA2 \<or> c = OP_PUSHDATA4 \<or> (unat c < 0x4c \<and> unat c \<noteq> 20)"
    using assms(2) by (cases ?b) (auto simp: push_data_def unat_of_nat split: if_splits)
  have "c \<noteq> OP_DUP \<and> c \<noteq> OP_HASH160 \<and> c \<noteq> 0x14 \<and> c \<noteq> OP_EQUALVERIFY \<and> c \<noteq> OP_CHECKSIG" using b(2) by auto
  then have differs: "take (length ?b) (x # xs) \<noteq> ?b" if "x \<in> {OP_DUP, OP_HASH160, 0x14, OP_EQUALVERIFY, OP_CHECKSIG}" for x xs
    using that b(1) by auto
  have p: "push_data [] h = 0x14 # h" using assms(1) by (simp add: push_data_def)
  have g: "GetOp2 (0x14 # h @ q) = Some (0x14, h, q)" for q using assms(1) by (simp add: push_size_def)
  have e: "find_delete_loop ?b [] res 0 = (res, 0)" for res
    using skip_none [where b = ?b and pc = "[]" and n = 0] b(1) by (subst find_delete_loop.simps) simp
  have k: "find_delete_loop ?b (x # r) res 0 = find_delete_loop ?b r (res @ [x]) 0"
    if "x \<in> {OP_DUP, OP_HASH160, OP_EQUALVERIFY, OP_CHECKSIG}" for x r res
    by (subst find_delete_none [where opcode = x and data = "[]" and pc' = r]) (use that differs [where x = x and xs = r] in auto)
  have "find_delete_loop ?b (0x14 # h @ q) res 0 = find_delete_loop ?b q (res @ 0x14 # h) 0" for q res
    by (subst find_delete_none [OF g]) (use differs [where x = "0x14" and xs = "h @ q"] in auto)
  then have "find_delete_loop ?b (p2pkh_script h) [] 0 = (p2pkh_script h, 0)"
    unfolding p2pkh_script_def p append_Cons append_Nil by (simp add: k e)
  then show ?thesis by (simp add: FindAndDelete_def)
qed

lemma EvalScript_p2pkh:
  assumes "length h = 20" "length sig \<noteq> 20"
  shows "EvalScript E [pk, sig] (p2pkh_script h) flags sigversion =
    (if Hash160 (hash_junk E) pk \<noteq> h then Inl SCRIPT_ERR_EQUALVERIFY
     else case check_encodings E sig pk flags of
         Some e \<Rightarrow> Inl e
       | None \<Rightarrow> (case CheckSig E sig pk (p2pkh_script h) sigversion of
           None \<Rightarrow> Inl SCRIPT_ERR_UNKNOWN_ERROR | Some b \<Rightarrow> Inr [vch_bool b]))"
proof -
  have size: "length (p2pkh_script h) \<le> MAX_SCRIPT_SIZE"
    using assms(1) by (simp add: p2pkh_script_def push_data_def MAX_SCRIPT_SIZE_def)
  have run: "eval_loop E flags sigversion P (OP_DUP # OP_HASH160 # push_data [] h @ q) (eval_start [pk, sig] P) =
      eval_loop E flags sigversion P q
        \<lparr>es_stack = [h, Hash160 (hash_junk E) pk, pk, sig], es_alt = [], vfExec = [], nOpCount = 2, pbegincodehash = P\<rparr>" for P q
    using assms(1) by (simp add: eval_start_def eval_op disabled_opcodes_def exec_op_simps lift_stack_def op_HASH_def
        eval_push_data MAX_SCRIPT_ELEMENT_SIZE_def)
  have "EvalScript E [pk, sig] (p2pkh_script h) flags sigversion =
      eval_loop E flags sigversion (p2pkh_script h) [OP_EQUALVERIFY, OP_CHECKSIG]
        \<lparr>es_stack = [h, Hash160 (hash_junk E) pk, pk, sig], es_alt = [], vfExec = [], nOpCount = 2, pbegincodehash = p2pkh_script h\<rparr>"
    using size run [of "p2pkh_script h"] by (simp add: EvalScript_def) (simp add: p2pkh_script_def)
  also have "\<dots> = (if Hash160 (hash_junk E) pk \<noteq> h then Inl SCRIPT_ERR_EQUALVERIFY
     else case check_encodings E sig pk flags of
         Some e \<Rightarrow> Inl e
       | None \<Rightarrow> (case CheckSig E sig pk (p2pkh_script h) sigversion of
           None \<Rightarrow> Inl SCRIPT_ERR_UNKNOWN_ERROR | Some b \<Rightarrow> Inr [vch_bool b]))"
    by (auto simp: eval_op disabled_opcodes_def exec_op_simps op_EQUAL_def push_result_def op_CHECKSIG_def
        p2pkh_FindAndDelete [OF assms] split: option.split)
  finally show ?thesis .
qed

text \<open>Cold staking: \<open>sig 1 pk\<close> takes the staker's branch, \<open>sig 0 pk\<close> the owner's.\<close>

lemma EvalScript_coldstake_stake:
  assumes "length staker = 20" "length owner = 20" "CastToBool b"
  shows "EvalScript E [pk, b, sig] (coldstake_script staker owner) flags sigversion =
    (case CheckColdStake E (coldstake_script staker owner) [Hash160 (hash_junk E) pk, pk, sig] flags of
       Inl e \<Rightarrow> Inl e | Inr _ \<Rightarrow> Inr [Hash160 (hash_junk E) pk, pk, sig])"
proof -
  have stake: "eval_loop E flags sigversion P (OP_CHECKCOLDSTAKEVERIFY # q) st =
      (case CheckColdStake E P (es_stack st) flags of Inl e \<Rightarrow> Inl e | Inr _ \<Rightarrow> Inr (es_stack st))"
    if "executing st" "nOpCount st < 201" for P q st
  proof -
    have "GetOp2 (OP_CHECKCOLDSTAKEVERIFY # q) = Some (OP_CHECKCOLDSTAKEVERIFY, [], q)" by simp
    then show ?thesis using that by (simp add: eval_loop_step fetch_checks_def disabled_opcodes_def split: sum.split)
  qed
  have "eval_loop E flags sigversion P (OP_DUP # OP_HASH160 # OP_ROT # OP_IF # OP_CHECKCOLDSTAKEVERIFY # q) (eval_start [pk, b, sig] P) =
      (case CheckColdStake E P [Hash160 (hash_junk E) pk, pk, sig] flags of
       Inl e \<Rightarrow> Inl e | Inr _ \<Rightarrow> Inr [Hash160 (hash_junk E) pk, pk, sig])" for P q
    using assms(3) by (simp add: eval_start_def eval_op disabled_opcodes_def exec_op_simps lift_stack_def op_HASH_def op_IF_def stake split: sum.split)
  then show ?thesis using assms(1,2)
    by (simp add: EvalScript_def coldstake_script_def push_data_def MAX_SCRIPT_SIZE_def)
qed

lemma EvalScript_coldstake_owner:
  assumes "length staker = 20" "length owner = 20" "\<not> CastToBool b"
  shows "EvalScript E [pk, b, sig] (coldstake_script staker owner) flags sigversion =
    (if Hash160 (hash_junk E) pk \<noteq> owner then Inl SCRIPT_ERR_EQUALVERIFY
     else case check_encodings E sig pk flags of
         Some e \<Rightarrow> Inl e
       | None \<Rightarrow> (case CheckSig E sig pk (snd (FindAndDelete (coldstake_script staker owner) (push_data [] sig))) sigversion of
           None \<Rightarrow> Inl SCRIPT_ERR_UNKNOWN_ERROR | Some r \<Rightarrow> Inr [vch_bool r]))"
proof -
  let ?K = "[OP_ENDIF, OP_EQUALVERIFY, OP_CHECKSIG]"
  have pre: "eval_loop E flags sigversion P
      (OP_DUP # OP_HASH160 # OP_ROT # OP_IF # OP_CHECKCOLDSTAKEVERIFY # push_data [] staker @ OP_ELSE # push_data [] owner @ q)
      (eval_start [pk, b, sig] P) =
      eval_loop E flags sigversion P q \<lparr>es_stack = [owner, Hash160 (hash_junk E) pk, pk, sig], es_alt = [], vfExec = [True],
        nOpCount = 6, pbegincodehash = P\<rparr>" for P q
    using assms by (simp add: eval_start_def eval_instruction disabled_opcodes_def exec_op_simps lift_stack_def op_HASH_def op_IF_def
        op_ELSE_def eval_skip_push eval_push_data MAX_SCRIPT_ELEMENT_SIZE_def)
  have post: "eval_loop E flags sigversion P ?K \<lparr>es_stack = [owner, Hash160 (hash_junk E) pk, pk, sig], es_alt = [], vfExec = [True],
        nOpCount = 6, pbegincodehash = P\<rparr> =
     (if Hash160 (hash_junk E) pk \<noteq> owner then Inl SCRIPT_ERR_EQUALVERIFY
     else case check_encodings E sig pk flags of
         Some e \<Rightarrow> Inl e
       | None \<Rightarrow> (case CheckSig E sig pk (snd (FindAndDelete P (push_data [] sig))) sigversion of
           None \<Rightarrow> Inl SCRIPT_ERR_UNKNOWN_ERROR | Some r \<Rightarrow> Inr [vch_bool r]))" for P
    by (auto simp: eval_op disabled_opcodes_def exec_op_simps op_EQUAL_def op_ENDIF_def push_result_def op_CHECKSIG_def split: option.split)
  have "length (coldstake_script staker owner) \<le> MAX_SCRIPT_SIZE"
    using assms by (simp add: coldstake_script_def push_data_def MAX_SCRIPT_SIZE_def)
  then show ?thesis using pre [of "coldstake_script staker owner" ?K] post [of "coldstake_script staker owner"]
    by (simp add: EvalScript_def) (simp add: coldstake_script_def)
qed

lemma IsPushOnly_push_data: "length b < 2 ^ 32 \<Longrightarrow> IsPushOnly (push_data [] b @ r) \<longleftrightarrow> IsPushOnly r"
  using GetOp2_push_data [of b r] by (auto simp: IsPushOnly_step word_nat_simps)

lemma IsPushOnly_Nil [simp]: "IsPushOnly []"
  by (subst IsPushOnly.simps) simp

lemma coldstake_sig_stake:
  assumes "length sig \<le> MAX_SCRIPT_ELEMENT_SIZE" "length sig \<noteq> 1" "length pk \<le> MAX_SCRIPT_ELEMENT_SIZE" "length pk \<noteq> 1"
  defines "S \<equiv> push_data [] sig @ [OP_1] @ push_data [] pk"
  shows "EvalScript E [] S flags sigversion = Inr [pk, [1], sig]" "IsPushOnly S"
proof -
  have size: "length S \<le> MAX_SCRIPT_SIZE"
    using assms by (simp add: push_data_def MAX_SCRIPT_ELEMENT_SIZE_def MAX_SCRIPT_SIZE_def)
  have g: "GetOp2 (OP_1 # r) = Some (OP_1, [], r)" for r by simp
  have x: "exec_op E flags sigversion pc True OP_1 = op_push_number OP_1" for pc
    by (rule ext) (simp add: exec_op_def op_table_defs)
  have one: "scriptnum_serialize 1 = [1]" by (simp add: scriptnum_serialize_def abs_bytes.simps)
  have "eval_loop E flags sigversion P (OP_1 # r) \<lparr>es_stack = [sig], es_alt = [], vfExec = [], nOpCount = 0, pbegincodehash = P\<rparr> =
      eval_loop E flags sigversion P r \<lparr>es_stack = [[1], sig], es_alt = [], vfExec = [], nOpCount = 0, pbegincodehash = P\<rparr>" for P r
    by (simp add: eval_loop_step [OF g] fetch_checks_def disabled_opcodes_def dispatch_def run_instruction_def x op_push_number_def one
        MAX_SCRIPT_ELEMENT_SIZE_def)
  moreover have "eval_loop E flags sigversion P (push_data [] pk) st = eval_loop E flags sigversion P [] (st\<lparr>es_stack := pk # es_stack st\<rparr>)"
    if "executing st" "length (es_stack st) + length (es_alt st) < 1000" for P st
    using that assms(3,4) eval_push_data [of st pk E flags sigversion P "[]"] by simp
  ultimately show "EvalScript E [] S flags sigversion = Inr [pk, [1], sig]"
    using size assms(1,2) by (simp add: EvalScript_def S_def eval_start_def eval_push_data)
  have l: "length sig < 2 ^ 32" "length pk < 2 ^ 32" using assms(1,3) by (simp_all add: MAX_SCRIPT_ELEMENT_SIZE_def)
  show "IsPushOnly S"
    using IsPushOnly_push_data [OF l(1)] IsPushOnly_push_data [OF l(2), of "[]"] by (simp add: S_def IsPushOnly_step [OF g])
qed

lemma EvalScript_p2sh:
  assumes "length h = 20" "length s \<le> 998"
  shows "EvalScript E (x # s) ([OP_HASH160] @ push_data [] h @ [OP_EQUAL]) flags sigversion =
    Inr (vch_bool (Hash160 (hash_junk E) x = h) # s)"
proof -
  have "eval_loop E flags sigversion P (OP_HASH160 # push_data [] h @ [OP_EQUAL]) (eval_start (x # s) P) =
      Inr (vch_bool (Hash160 (hash_junk E) x = h) # s)" for P
    using assms by (simp add: eval_start_def eval_op disabled_opcodes_def exec_op_simps op_HASH_def op_EQUAL_def push_result_def
        eval_push_data MAX_SCRIPT_ELEMENT_SIZE_def)
  then show ?thesis using assms(1) by (simp add: EvalScript_def push_data_def MAX_SCRIPT_SIZE_def)
qed

lemma EvalScript_p2sh_Nil:
  "EvalScript E [] ([OP_HASH160] @ r) flags sigversion \<noteq> Inr s"
  by (simp add: EvalScript_def eval_start_def eval_op disabled_opcodes_def exec_op_simps op_HASH_def)

lemma CastToBool_vch_bool [simp]: "CastToBool vchTrue" "\<not> CastToBool vchFalse"
  by (simp_all add: vchTrue_def vchFalse_def)

section \<open>Multisignatures\<close>

lemma multisig_loop_matching:
  assumes "\<And>g k. g \<in> set sigs \<Longrightarrow> k \<in> set keys \<Longrightarrow> check_encodings E g k flags = None \<and> CheckSig E g k scriptCode v \<noteq> None"
  shows "multisig_loop E flags v scriptCode sigs keys =
    Inr (list_emb (\<lambda>g k. CheckSig E g k scriptCode v = Some True) sigs keys)"
  using assms
proof (induction E flags v scriptCode sigs keys rule: multisig_loop.induct)
  case (3 E flags v scriptCode g sigs k keys)
  let ?P = "\<lambda>g k. CheckSig E g k scriptCode v = Some True"
  from "3.prems" [of g k] obtain ok where e: "check_encodings E g k flags = None" and ok: "CheckSig E g k scriptCode v = Some ok"
    by auto
  let ?rest = "if ok then sigs else g # sigs"
  have greedy: "list_emb ?P (g # sigs) (k # keys) = list_emb ?P ?rest keys" using ok by simp
  show ?case
  proof (cases "length ?rest > length keys")
    case True
    then have "\<not> list_emb ?P ?rest keys" using list_emb_length [of ?P ?rest keys] by linarith
    then show ?thesis unfolding greedy using e ok True by simp
  next
    case False
    have "multisig_loop E flags v scriptCode ?rest keys = Inr (list_emb ?P ?rest keys)"
      by (rule "3.IH" [OF e ok refl False]) (use "3.prems" in \<open>auto split: if_splits\<close>)
    then show ?thesis unfolding greedy using e ok False by simp
  qed
qed simp_all

lemma CScriptNum_count: "n < 2 ^ 31 \<Longrightarrow> CScriptNum (scriptnum_serialize (int n)) b nDefaultMaxNumSize = Some (int n)"
  using CScriptNum_serialize [of "int n"] by (auto simp: CScriptNum_def nDefaultMaxNumSize_def set_vch_serialize split: if_splits)

text \<open>An environment for concrete runs: one key signs, nothing is time-locked, every stake is allowed.\<close>

definition example_checks :: script_env where
  "example_checks = \<lparr>CheckSig = (\<lambda>sig pk code v. Some (sig = [7, 7] \<and> pk = [5, 5])), CheckLockTime = (\<lambda>_. True),
     CheckColdStake = (\<lambda>_ _ _. Inr ()), CheckLowS = (\<lambda>_. True), hash_junk = replicate 64 0\<rparr>"

section \<open>Properties\<close>

text \<open>
  C14. The resource limits hold at every point of an evaluation.  Started on a stack within the limits,
  the interpreter never holds more than 1000 elements on its two stacks, no element of more than 520
  bytes (whatever the arithmetic and hash operations produced), and never counts more than 201
  operations; a successful evaluation leaves a stack within the limits, and it is the stack of a state
  reached by these steps.
\<close>

theorem evaluation_bounded:
  assumes "list_all (\<lambda>x. length x \<le> MAX_SCRIPT_ELEMENT_SIZE) s" and "length s \<le> 1000"
  shows "((eval_step E flags sigversion)\<^sup>*\<^sup>* (script, eval_start s script) (pc, st) \<longrightarrow>
      (\<forall>x \<in> set (es_stack st) \<union> set (es_alt st). length x \<le> 520) \<and>
      length (es_stack st) + length (es_alt st) \<le> 1000 \<and> nOpCount st \<le> 201 \<and> length pc \<le> length script) \<and>
    (EvalScript E s script flags sigversion = Inr s' \<longrightarrow>
      (\<forall>x \<in> set s'. length x \<le> 520) \<and> length s' \<le> 1000 \<and>
      (\<exists>pc' st'. (eval_step E flags sigversion)\<^sup>*\<^sup>* (script, eval_start s script) (pc', st') \<and> es_stack st' = s'))"
proof -
  have ok: "sizes_ok (eval_start s script)" using assms by (intro eval_start_ok) (simp_all add: elements_ok_def)
  have run: "sizes_ok st \<and> length pc \<le> length script"
    if "(eval_step E flags sigversion)\<^sup>*\<^sup>* (script, eval_start s script) (pc, st)"
    using eval_steps_ok [OF that] ok by simp
  have "elements_ok s' \<and> length s' \<le> 1000" if "EvalScript E s script flags sigversion = Inr s'"
    by (rule EvalScript_sizes [OF that]) (use assms in \<open>simp_all add: elements_ok_def\<close>)
  moreover have "\<exists>pc' st'. (eval_step E flags sigversion)\<^sup>*\<^sup>* (script, eval_start s script) (pc', st') \<and> es_stack st' = s'"
    if "EvalScript E s script flags sigversion = Inr s'"
  proof -
    have "eval_loop E flags sigversion script script (eval_start s script) = Inr s'"
      using that by (simp add: EvalScript_def split: if_splits)
    from eval_loop_path [OF this] show ?thesis by blast
  qed
  ultimately show ?thesis using run
    by (auto simp: sizes_ok_def elements_ok_def list_all_iff MAX_SCRIPT_ELEMENT_SIZE_def)
qed

theorem evaluation_bounded_witness:
  "EvalScript example_checks [] (push_data [] [1, 2] @ push_data [] [3, 4]) 0 SIGVERSION_BASE = Inr [[3, 4], [1, 2]] \<and>
   list_all (\<lambda>x. length x \<le> 520) [[3 :: byte, 4], [1, 2]] \<and> length [[3 :: byte, 4], [1, 2]] \<le> 1000"
proof -
  have "EvalScript example_checks [] (push_data [] [1, 2] @ push_data [] [3, 4]) 0 SIGVERSION_BASE = Inr [[3, 4], [1, 2]]"
    by (rule EvalScript_pushes) (simp_all add: MAX_SCRIPT_ELEMENT_SIZE_def)
  then show ?thesis
    using evaluation_bounded [of "[]" example_checks 0 SIGVERSION_BASE "push_data [] [1, 2] @ push_data [] [3, 4]" _ _ "[[3, 4], [1, 2]]"]
    by simp
qed

text \<open>
  C12. \<open>OP_CHECKMULTISIG\<close> succeeds exactly when the signatures can be matched, in order, to a
  subsequence of the public keys each of which verifies its signature: the single pass that stops as
  soon as fewer keys than signatures are left decides this.  It removes the counts, the keys, the
  signatures and one extra element, and charges one operation per key.
\<close>

theorem multisig_is_matching:
  assumes "es_stack st = scriptnum_serialize (int (length keys)) # keys @ scriptnum_serialize (int (length sigs)) # sigs @ dummy # s"
    and "length sigs \<le> length keys" and "length keys \<le> 20" and "nOpCount st + int (length keys) \<le> 201"
    and "\<not> has_flag flags SCRIPT_VERIFY_NULLDUMMY \<or> dummy = []"
    and "scriptCode = foldl (\<lambda>sc vchSig. snd (FindAndDelete sc (push_data [] vchSig))) (pbegincodehash st) sigs"
    and "list_all (\<lambda>g. list_all (\<lambda>k. check_encodings E g k flags = None \<and> CheckSig E g k scriptCode v \<noteq> None) keys) sigs"
  shows "op_CHECKMULTISIG E flags v verify st =
    (let b = list_emb (\<lambda>g k. CheckSig E g k scriptCode v = Some True) sigs keys;
         st' = st\<lparr>nOpCount := nOpCount st + int (length keys)\<rparr>
     in if \<not> verify then Inr (st'\<lparr>es_stack := vch_bool b # s\<rparr>)
        else if b then Inr (st'\<lparr>es_stack := s\<rparr>) else Inl SCRIPT_ERR_CHECKMULTISIGVERIFY)"
proof -
  have m: "multisig_loop E flags v scriptCode sigs keys = Inr (list_emb (\<lambda>g k. CheckSig E g k scriptCode v = Some True) sigs keys)"
    by (rule multisig_loop_matching) (use assms(7) in \<open>auto simp: list_all_iff\<close>)
  have n: "CScriptNum (scriptnum_serialize (int n)) c nDefaultMaxNumSize = Some (int n)" "getint (int n) = int n" if "n \<le> 20" for n c
    using that CScriptNum_count [of n c] by (simp_all add: getint_def)
  show ?thesis
    using assms(1-5) n m [unfolded assms(6)] by (simp add: op_CHECKMULTISIG_def with_num_def nth_append push_result_def assms(6))
qed

theorem multisig_is_matching_witness:
  "op_CHECKMULTISIG example_checks 0 SIGVERSION_BASE False
     \<lparr>es_stack = [scriptnum_serialize 2, [9, 9], [5, 5], scriptnum_serialize 1, [7, 7], []], es_alt = [], vfExec = [],
      nOpCount = 1, pbegincodehash = []\<rparr> =
   Inr \<lparr>es_stack = [vchTrue], es_alt = [], vfExec = [], nOpCount = 3, pbegincodehash = []\<rparr>"
  using multisig_is_matching [of "\<lparr>es_stack = [scriptnum_serialize 2, [9, 9], [5, 5], scriptnum_serialize 1, [7, 7], []], es_alt = [],
      vfExec = [], nOpCount = 1, pbegincodehash = []\<rparr>" "[[9, 9], [5, 5]]" "[[7, 7]]" "[]" "[]" 0
      "snd (FindAndDelete [] (push_data [] [7, 7]))" example_checks SIGVERSION_BASE False]
  by (simp add: example_checks_def check_encodings_def CheckSignatureEncoding_def CheckPubKeyEncoding_def has_flag_def)

text \<open>
  C2. The two standard ways to pay.  An input that gives a signature and a key for a pay-to-key-hash
  output is accepted exactly when the key hashes to the 20 bytes of the output, the encodings pass the
  flags and the checker accepts the signature over the output script; each failure has its own error.
  An input for a pay-to-script-hash output that leaves \<open>x # s\<close> on the stack is accepted exactly when
  \<open>x\<close> hashes to the 20 bytes, the input consists of pushes, and \<open>x\<close> run as a script on \<open>s\<close> ends with a true
  element on top.  The assertion that the copied stack is not empty cannot fail: no evaluation of such
  an output on the empty stack succeeds.
\<close>

theorem standard_spends:
  assumes "length h = 20"
    and "length sig \<le> MAX_SCRIPT_ELEMENT_SIZE" "length sig \<notin> {1, 20}" "length pk \<le> MAX_SCRIPT_ELEMENT_SIZE" "length pk \<noteq> 1"
  shows "VerifyScript E (push_data [] sig @ push_data [] pk) (p2pkh_script h) flags v =
      (if Hash160 (hash_junk E) pk \<noteq> h then Inl SCRIPT_ERR_EQUALVERIFY
       else case check_encodings E sig pk flags of
           Some e \<Rightarrow> Inl e
         | None \<Rightarrow> (case CheckSig E sig pk (p2pkh_script h) v of
             None \<Rightarrow> Inl SCRIPT_ERR_UNKNOWN_ERROR
           | Some b \<Rightarrow> if b then Inr () else Inl SCRIPT_ERR_EVAL_FALSE)) \<and>
    (EvalScript E [] S flags v = Inr (x # s) \<and> length s \<le> 998 \<and> has_flag flags SCRIPT_VERIFY_P2SH \<longrightarrow>
      (VerifyScript E S ([OP_HASH160] @ push_data [] h @ [OP_EQUAL]) flags v = Inr () \<longleftrightarrow>
        Hash160 (hash_junk E) x = h \<and> IsPushOnly S \<and>
        (\<exists>y t. EvalScript E s x flags v = Inr (y # t) \<and> CastToBool y))) \<and>
    EvalScript E [] ([OP_HASH160] @ push_data [] h @ [OP_EQUAL]) flags v \<noteq> Inr r"
proof -
  have l: "length sig < 2 ^ 32" "length pk < 2 ^ 32" using assms(2,4) by (simp_all add: MAX_SCRIPT_ELEMENT_SIZE_def)
  have po: "IsPushOnly (push_data [] sig @ push_data [] pk)"
    using IsPushOnly_push_data [OF l(1)] IsPushOnly_push_data [OF l(2), of "[]"] by simp
  have np: "\<not> IsPayToScriptHash (p2pkh_script h)" using assms(1) by (simp add: IsPayToScriptHash_def p2pkh_script_def push_data_def)
  have ps: "IsPayToScriptHash (OP_HASH160 # push_data [] h @ [OP_EQUAL])"
    using assms(1) by (simp add: IsPayToScriptHash_def push_data_def nth_append)
  have "VerifyScript E (push_data [] sig @ push_data [] pk) (p2pkh_script h) flags v =
      (if Hash160 (hash_junk E) pk \<noteq> h then Inl SCRIPT_ERR_EQUALVERIFY
       else case check_encodings E sig pk flags of
           Some e \<Rightarrow> Inl e
         | None \<Rightarrow> (case CheckSig E sig pk (p2pkh_script h) v of
             None \<Rightarrow> Inl SCRIPT_ERR_UNKNOWN_ERROR
           | Some b \<Rightarrow> if b then Inr () else Inl SCRIPT_ERR_EVAL_FALSE))"
    using assms po np by (simp add: VerifyScript_def EvalScript_pushes EvalScript_p2pkh split: option.split)
  moreover have "VerifyScript E S ([OP_HASH160] @ push_data [] h @ [OP_EQUAL]) flags v = Inr () \<longleftrightarrow>
        Hash160 (hash_junk E) x = h \<and> IsPushOnly S \<and> (\<exists>y t. EvalScript E s x flags v = Inr (y # t) \<and> CastToBool y)"
    if e: "EvalScript E [] S flags v = Inr (x # s)" "length s \<le> 998" "has_flag flags SCRIPT_VERIFY_P2SH"
  proof -
    note r = EvalScript_p2sh [OF assms(1) e(2), of E x flags v, simplified]
    show ?thesis using e r ps by (auto simp: VerifyScript_def neq_Nil_conv split: sum.split)
  qed
  ultimately show ?thesis using EvalScript_p2sh_Nil by blast
qed

theorem standard_spends_witness:
  "VerifyScript example_checks (push_data [] [7, 7] @ push_data [] [5, 5])
     (p2pkh_script (Hash160 (replicate 64 0) [5, 5])) 0 SIGVERSION_BASE = Inr ()"
proof -
  have l: "length (Hash160 (replicate 64 0) [5, 5]) = 20" by (simp add: Hash160_def CHash160_Finalize_def split_beta hash_lengths)
  have "check_encodings example_checks [7, 7] [5, 5] 0 = None"
    by (simp add: check_encodings_def CheckSignatureEncoding_def CheckPubKeyEncoding_def has_flag_def)
  then show ?thesis
    using standard_spends [OF l, of "[7, 7]" "[5, 5]" example_checks 0 SIGVERSION_BASE]
    by (simp add: example_checks_def MAX_SCRIPT_ELEMENT_SIZE_def)
qed

text \<open>
  Cold staking outputs, for any \<open>CheckColdStake\<close>.  With a true selector the result is that of
  \<open>CheckColdStake\<close> on the stack of key hash, key and signature (and the hash of the key must not be a false value),
  because \<open>OP_CHECKCOLDSTAKEVERIFY\<close> ends the evaluation before the rest of the script runs.  With a false selector the key must
  hash to the owner's hash and the signature must be accepted.
\<close>

lemma coldstake_branches:
  assumes "length staker = 20" "length owner = 20"
    and "length sig \<le> MAX_SCRIPT_ELEMENT_SIZE" "length sig \<noteq> 1" "length pk \<le> MAX_SCRIPT_ELEMENT_SIZE" "length pk \<noteq> 1"
  shows "VerifyScript E (push_data [] sig @ [OP_1] @ push_data [] pk) (coldstake_script staker owner) flags v =
      (case CheckColdStake E (coldstake_script staker owner) [Hash160 (hash_junk E) pk, pk, sig] flags of
         Inl e \<Rightarrow> Inl e
       | Inr _ \<Rightarrow> if CastToBool (Hash160 (hash_junk E) pk) then Inr () else Inl SCRIPT_ERR_EVAL_FALSE) \<and>
    (EvalScript E [] S flags v = Inr [pk, [], sig] \<and> IsPushOnly S \<longrightarrow>
     VerifyScript E S (coldstake_script staker owner) flags v =
      (if Hash160 (hash_junk E) pk \<noteq> owner then Inl SCRIPT_ERR_EQUALVERIFY
       else case check_encodings E sig pk flags of
           Some e \<Rightarrow> Inl e
         | None \<Rightarrow> (case CheckSig E sig pk (snd (FindAndDelete (coldstake_script staker owner) (push_data [] sig))) v of
             None \<Rightarrow> Inl SCRIPT_ERR_UNKNOWN_ERROR
           | Some b \<Rightarrow> if b then Inr () else Inl SCRIPT_ERR_EVAL_FALSE)))"
proof -
  have np: "\<not> IsPayToScriptHash (coldstake_script staker owner)"
    using assms(1,2) by (simp add: IsPayToScriptHash_def coldstake_script_def push_data_def)
  have c: "CastToBool [1]" "\<not> CastToBool []" by simp_all
  show ?thesis
  proof (intro conjI impI)
    show "VerifyScript E (push_data [] sig @ [OP_1] @ push_data [] pk) (coldstake_script staker owner) flags v =
      (case CheckColdStake E (coldstake_script staker owner) [Hash160 (hash_junk E) pk, pk, sig] flags of
         Inl e \<Rightarrow> Inl e
       | Inr _ \<Rightarrow> if CastToBool (Hash160 (hash_junk E) pk) then Inr () else Inl SCRIPT_ERR_EVAL_FALSE)"
      using np coldstake_sig_stake [OF assms(3-6)] EvalScript_coldstake_stake [OF assms(1,2) c(1)]
      by (simp add: VerifyScript_def split: sum.split)
    assume "EvalScript E [] S flags v = Inr [pk, [], sig] \<and> IsPushOnly S"
    then show "VerifyScript E S (coldstake_script staker owner) flags v =
      (if Hash160 (hash_junk E) pk \<noteq> owner then Inl SCRIPT_ERR_EQUALVERIFY
       else case check_encodings E sig pk flags of
           Some e \<Rightarrow> Inl e
         | None \<Rightarrow> (case CheckSig E sig pk (snd (FindAndDelete (coldstake_script staker owner) (push_data [] sig))) v of
             None \<Rightarrow> Inl SCRIPT_ERR_UNKNOWN_ERROR
           | Some b \<Rightarrow> if b then Inr () else Inl SCRIPT_ERR_EVAL_FALSE))"
      using np EvalScript_coldstake_owner [OF assms(1,2) c(2)] by (simp add: VerifyScript_def split: option.split)
  qed
qed

end
