(* ===== verification/Checker.thy ===== *)
theory Checker
  imports Interpreter
begin

unbundle bit_operations_syntax

text \<open>
  Signature hashes and the transaction signature checker: \<open>SignatureHash\<close>, \<open>PrecomputedTransactionData\<close> and
  \<open>TransactionSignatureChecker\<close> of \<open>src/src/script/interpreter.cpp\<close>.  \<open>blake2b personal data\<close> is the 32-byte
  BLAKE2b hash of libsodium and \<open>ecdsa hash sig pubkey\<close> is \<open>CPubKey::Verify\<close> (libsecp256k1); both are
  parameters.  An input index is a natural number; the hash type is kept at its 32 bits.  What a
  hash writer is given is the list of bytes written to it.  The reference the legacy hash is
  compared with is \<open>SignatureHashOld\<close> of \<open>src/src/test/sighash_tests.cpp\<close>.
\<close>

section \<open>Hash types\<close>

definition SIGHASH_ALL :: u32 where "SIGHASH_ALL = 1"
definition SIGHASH_NONE :: u32 where "SIGHASH_NONE = 2"
definition SIGHASH_SINGLE :: u32 where "SIGHASH_SINGLE = 3"
definition SIGHASH_ANYONECANPAY :: u32 where "SIGHASH_ANYONECANPAY = 0x80"

definition NOT_AN_INPUT :: nat where "NOT_AN_INPUT = 2 ^ 32 - 1"

abbreviation fAnyoneCanPay :: "u32 \<Rightarrow> bool" where "fAnyoneCanPay ht \<equiv> ht AND SIGHASH_ANYONECANPAY \<noteq> 0"
abbreviation fHashSingle :: "u32 \<Rightarrow> bool" where "fHashSingle ht \<equiv> ht AND 0x1f = SIGHASH_SINGLE"
abbreviation fHashNone :: "u32 \<Rightarrow> bool" where "fHashNone ht \<equiv> ht AND 0x1f = SIGHASH_NONE"

section \<open>The legacy serialisation\<close>

text \<open>Where a failing \<open>GetOp\<close> leaves its iterator: after the opcode and the size bytes it could read.\<close>

definition failed_pos :: "CScript \<Rightarrow> CScript" where
  "failed_pos pc = (case pc of [] \<Rightarrow> []
     | opcode # r \<Rightarrow> (case push_size opcode r of None \<Rightarrow> r | Some (n, r') \<Rightarrow> r'))"

text \<open>The second loop of \<open>SerializeScriptCode\<close> with the write after it.\<close>

function code_loop :: "CScript \<Rightarrow> CScript \<Rightarrow> byte list \<Rightarrow> byte list" where
  "code_loop itBegin it s =
     (case GetOp2 it of
        None \<Rightarrow> if itBegin \<noteq> [] then s @ take (length itBegin - length (failed_pos it)) itBegin else s
      | Some (opcode, data, it') \<Rightarrow>
          if opcode = OP_CODESEPARATOR then code_loop it' it' (s @ take (length itBegin - length it' - 1) itBegin)
          else code_loop itBegin it' s)"
  by pat_completeness auto

termination by (relation "measure (\<lambda>(b, it, s). length it)") (auto dest: GetOp2_shorter)

declare code_loop.simps [simp del]

text \<open>The first loop counts the separators; it is the loop of \<open>CScript::Find\<close>.\<close>

definition SerializeScriptCode :: "CScript \<Rightarrow> byte list" where
  "SerializeScriptCode scriptCode =
     (let nCodeSeparators = script_Find scriptCode OP_CODESEPARATOR
      in write_size (length scriptCode - nCodeSeparators) @ code_loop scriptCode scriptCode [])"

definition SerializeInput :: "CTransaction \<Rightarrow> CScript \<Rightarrow> nat \<Rightarrow> u32 \<Rightarrow> nat \<Rightarrow> byte list" where
  "SerializeInput txTo scriptCode nIn ht nInput0 =
     (let nInput = (if fAnyoneCanPay ht then nIn else nInput0) in
      Serialize_outpoint (prevout (vin txTo ! nInput)) @
      (if nInput \<noteq> nIn then Serialize_bytes [] else SerializeScriptCode scriptCode) @
      (if nInput \<noteq> nIn \<and> (fHashSingle ht \<or> fHashNone ht) then Serialize_int32 0
       else ser_writedata32 (nSequence (vin txTo ! nInput))))"

definition SerializeOutput :: "CTransaction \<Rightarrow> nat \<Rightarrow> u32 \<Rightarrow> nat \<Rightarrow> byte list" where
  "SerializeOutput txTo nIn ht nOutput =
     (if fHashSingle ht \<and> nOutput \<noteq> nIn then Serialize_txout txout_null else Serialize_txout (vout txTo ! nOutput))"

definition sig_Serialize :: "CTransaction \<Rightarrow> CScript \<Rightarrow> nat \<Rightarrow> u32 \<Rightarrow> byte list" where
  "sig_Serialize txTo scriptCode nIn ht =
     (let nInputs = (if fAnyoneCanPay ht then 1 else length (vin txTo));
          nOutputs = (if fHashNone ht then 0 else if fHashSingle ht then nIn + 1 else length (vout txTo))
      in Serialize_int16 (tx_version txTo) @ Serialize_int16 (tx_type txTo) @
         write_size nInputs @ concat (map (SerializeInput txTo scriptCode nIn ht) [0..<nInputs]) @
         write_size nOutputs @ concat (map (SerializeOutput txTo nIn ht) [0..<nOutputs]) @
         ser_writedata32 (nLockTime txTo))"

section \<open>The Sapling hashes\<close>

definition char_bytes :: "string \<Rightarrow> byte list" where
  "char_bytes s = map (\<lambda>c. of_nat (of_char c)) s"

definition personal16 :: "string \<Rightarrow> byte list" where
  "personal16 s = char_bytes s @ replicate (16 - length s) 0"

definition C_Note_PREVOUTS_HASH_PERSONALIZATION :: "byte list" where
  "C_Note_PREVOUTS_HASH_PERSONALIZATION = personal16 ''PIVXPrevoutHash''"
definition C_Note_SEQUENCE_HASH_PERSONALIZATION :: "byte list" where
  "C_Note_SEQUENCE_HASH_PERSONALIZATION = personal16 ''PIVXSequencHash''"
definition C_Note_OUTPUTS_HASH_PERSONALIZATION :: "byte list" where
  "C_Note_OUTPUTS_HASH_PERSONALIZATION = personal16 ''PIVXOutputsHash''"
definition C_Note_SHIELDED_SPENDS_HASH_PERSONALIZATION :: "byte list" where
  "C_Note_SHIELDED_SPENDS_HASH_PERSONALIZATION = personal16 ''PIVXSSpendsHash''"
definition C_Note_SHIELDED_OUTPUTS_HASH_PERSONALIZATION :: "byte list" where
  "C_Note_SHIELDED_OUTPUTS_HASH_PERSONALIZATION = personal16 ''PIVXSOutputHash''"

type_synonym blake2b_fun = "byte list \<Rightarrow> byte list \<Rightarrow> byte list"

definition blake_GetHash :: "blake2b_fun \<Rightarrow> byte list \<Rightarrow> byte list \<Rightarrow> uint256" where
  "blake_GetHash blake2b personal written = limbs_of_bytes 8 (blake2b personal written)"

definition GetPrevoutHash :: "blake2b_fun \<Rightarrow> CTransaction \<Rightarrow> uint256" where
  "GetPrevoutHash blake2b txTo = blake_GetHash blake2b C_Note_PREVOUTS_HASH_PERSONALIZATION
     (concat (map (\<lambda>i. Serialize_outpoint (prevout i)) (vin txTo)))"

definition GetSequenceHash :: "blake2b_fun \<Rightarrow> CTransaction \<Rightarrow> uint256" where
  "GetSequenceHash blake2b txTo = blake_GetHash blake2b C_Note_SEQUENCE_HASH_PERSONALIZATION
     (concat (map (\<lambda>i. ser_writedata32 (nSequence i)) (vin txTo)))"

definition GetOutputsHash :: "blake2b_fun \<Rightarrow> CTransaction \<Rightarrow> uint256" where
  "GetOutputsHash blake2b txTo = blake_GetHash blake2b C_Note_OUTPUTS_HASH_PERSONALIZATION
     (concat (map Serialize_txout (vout txTo)))"

text \<open>The two functions assert that the Sapling data is there; they take it as an argument.\<close>

definition GetShieldedSpendsHash :: "blake2b_fun \<Rightarrow> SaplingTxData \<Rightarrow> uint256" where
  "GetShieldedSpendsHash blake2b d = blake_GetHash blake2b C_Note_SHIELDED_SPENDS_HASH_PERSONALIZATION
     (concat (map (\<lambda>n. Serialize_uint256 (spend_cv n) @ Serialize_uint256 (spend_anchor n) @
        Serialize_uint256 (spend_nullifier n) @ Serialize_uint256 (spend_rk n) @ Serialize_blob (spend_zkproof n)) (vShieldedSpend d)))"

definition GetShieldedOutputsHash :: "blake2b_fun \<Rightarrow> SaplingTxData \<Rightarrow> uint256" where
  "GetShieldedOutputsHash blake2b d = blake_GetHash blake2b C_Note_SHIELDED_OUTPUTS_HASH_PERSONALIZATION
     (concat (map Serialize_output (vShieldedOutput d)))"

record PrecomputedTransactionData =
  hashPrevouts :: uint256
  hashSequence :: uint256
  hashOutputs :: uint256
  hashShieldedSpends :: uint256
  hashShieldedOutputs :: uint256

definition PrecomputedTransactionData_new :: "blake2b_fun \<Rightarrow> CTransaction \<Rightarrow> PrecomputedTransactionData" where
  "PrecomputedTransactionData_new blake2b txTo =
     \<lparr>hashPrevouts = GetPrevoutHash blake2b txTo, hashSequence = GetSequenceHash blake2b txTo,
      hashOutputs = GetOutputsHash blake2b txTo,
      hashShieldedSpends = (case sapData txTo of None \<Rightarrow> base_uint_zero 8 | Some d \<Rightarrow> GetShieldedSpendsHash blake2b d),
      hashShieldedOutputs = (case sapData txTo of None \<Rightarrow> base_uint_zero 8 | Some d \<Rightarrow> GetShieldedOutputsHash blake2b d)\<rparr>"

definition cached :: "PrecomputedTransactionData option \<Rightarrow> (PrecomputedTransactionData \<Rightarrow> uint256) \<Rightarrow> uint256 \<Rightarrow> uint256" where
  "cached cache field h = (case cache of Some c \<Rightarrow> field c | None \<Rightarrow> h)"

text \<open>The \<open>memcpy\<close> of 12 bytes copies the first 12 of the 13 characters.\<close>

definition sighash_personalization :: "byte list" where
  "sighash_personalization = take 12 (char_bytes ''C_NoteSigHash'') @ WriteLE32 0"

definition sapling_preimage ::
  "blake2b_fun \<Rightarrow> CScript \<Rightarrow> CTransaction \<Rightarrow> nat \<Rightarrow> u32 \<Rightarrow> CAmount \<Rightarrow> PrecomputedTransactionData option \<Rightarrow> byte list" where
  "sapling_preimage blake2b scriptCode txTo nIn ht amount cache =
     (let zero = base_uint_zero 8;
          hPrevouts = (if \<not> fAnyoneCanPay ht then cached cache hashPrevouts (GetPrevoutHash blake2b txTo) else zero);
          hSequence = (if \<not> fAnyoneCanPay ht \<and> \<not> fHashSingle ht \<and> \<not> fHashNone ht
                       then cached cache hashSequence (GetSequenceHash blake2b txTo) else zero);
          hOutputs = (if \<not> fHashSingle ht \<and> \<not> fHashNone ht then cached cache hashOutputs (GetOutputsHash blake2b txTo)
                      else if fHashSingle ht \<and> nIn < length (vout txTo)
                      then blake_GetHash blake2b C_Note_OUTPUTS_HASH_PERSONALIZATION (Serialize_txout (vout txTo ! nIn))
                      else zero);
          shielded = (case sapData txTo of
              None \<Rightarrow> []
            | Some d \<Rightarrow>
                if vShieldedSpend d = [] \<and> vShieldedOutput d = [] then []
                else Serialize_uint256 (if vShieldedSpend d \<noteq> [] then cached cache hashShieldedSpends (GetShieldedSpendsHash blake2b d) else zero) @
                  Serialize_uint256 (if vShieldedOutput d \<noteq> [] then cached cache hashShieldedOutputs (GetShieldedOutputsHash blake2b d) else zero) @
                  Serialize_int64 (valueBalance d))
      in Serialize_int16 (tx_version txTo) @ Serialize_int16 (tx_type txTo) @
         Serialize_uint256 hPrevouts @ Serialize_uint256 hSequence @ Serialize_uint256 hOutputs @ shielded @
         (if nIn \<noteq> NOT_AN_INPUT
          then Serialize_outpoint (prevout (vin txTo ! nIn)) @ Serialize_bytes scriptCode @ Serialize_int64 amount @
               ser_writedata32 (nSequence (vin txTo ! nIn))
          else []) @
         (case extraPayload txTo of Some p \<Rightarrow> if IsSpecialTx txTo then Serialize_bytes p else [] | None \<Rightarrow> []) @
         ser_writedata32 (nLockTime txTo) @ ser_writedata32 ht)"

section \<open>Signature hash\<close>

datatype sighash_error = WrongSigVersion | AssertNotAnInput

definition UINT256_ONE :: uint256 where
  "UINT256_ONE = [1, 0, 0, 0, 0, 0, 0, 0]"

definition SignatureHash :: "blake2b_fun \<Rightarrow> byte list \<Rightarrow> CScript \<Rightarrow> CTransaction \<Rightarrow> nat \<Rightarrow> u32 \<Rightarrow> CAmount \<Rightarrow> SigVersion \<Rightarrow>
    PrecomputedTransactionData option \<Rightarrow> sighash_error + uint256" where
  "SignatureHash blake2b junk scriptCode txTo nIn ht amount sigversion cache =
     (if nIn \<ge> length (vin txTo) \<and> nIn \<noteq> NOT_AN_INPUT then Inr UINT256_ONE
      else if isSaplingVersion txTo \<and> sigversion \<noteq> SIGVERSION_SAPLING then Inl WrongSigVersion
      else if sigversion = SIGVERSION_SAPLING
      then Inr (blake_GetHash blake2b sighash_personalization (sapling_preimage blake2b scriptCode txTo nIn ht amount cache))
      else if fHashSingle ht \<and> nIn \<ge> length (vout txTo) then Inr UINT256_ONE
      else if fAnyoneCanPay ht \<and> nIn = NOT_AN_INPUT then Inl AssertNotAnInput
      else Inr (SerializeHash junk (sig_Serialize txTo scriptCode nIn ht @ ser_writedata32 ht)))"

section \<open>Checkers\<close>

text \<open>\<open>BaseSignatureChecker\<close> refuses everything and leaves the error code as \<open>EvalScript\<close> set it.\<close>

definition BaseSignatureChecker :: "(valtype \<Rightarrow> bool) \<Rightarrow> byte list \<Rightarrow> script_env" where
  "BaseSignatureChecker lowS junk = \<lparr>CheckSig = (\<lambda>_ _ _ _. Some False), CheckLockTime = (\<lambda>_. False),
     CheckColdStake = (\<lambda>_ _ _. Inl SCRIPT_ERR_UNKNOWN_ERROR), CheckLowS = lowS, hash_junk = junk\<rparr>"

record TransactionSignatureChecker =
  sc_txTo :: CTransaction
  sc_nIn :: nat
  sc_amount :: CAmount
  sc_precomTxData :: "PrecomputedTransactionData option"

type_synonym ecdsa_fun = "uint256 \<Rightarrow> byte list \<Rightarrow> CPubKey \<Rightarrow> bool"

definition checker_CheckSig ::
  "blake2b_fun \<Rightarrow> byte list \<Rightarrow> ecdsa_fun \<Rightarrow> TransactionSignatureChecker \<Rightarrow> valtype \<Rightarrow> valtype \<Rightarrow> CScript \<Rightarrow> SigVersion \<Rightarrow> bool option" where
  "checker_CheckSig blake2b junk ecdsa c vchSigIn vchPubKey scriptCode sigversion =
     (let pubkey = pk_Set vchPubKey in
      if \<not> pk_IsValid pubkey then Some False
      else if vchSigIn = [] then Some False
      else let nHashType = ucast (last vchSigIn); vchSig = butlast vchSigIn in
        case SignatureHash blake2b junk scriptCode (sc_txTo c) (sc_nIn c) nHashType (sc_amount c) sigversion (sc_precomTxData c) of
          Inl _ \<Rightarrow> None
        | Inr sighash \<Rightarrow> if \<not> ecdsa sighash vchSig pubkey then Some False else Some True)"

definition checker_CheckLockTime :: "TransactionSignatureChecker \<Rightarrow> int \<Rightarrow> bool" where
  "checker_CheckLockTime c n =
     (let txLock = uint (nLockTime (sc_txTo c)) in
      if \<not> ((txLock < LOCKTIME_THRESHOLD \<and> n < LOCKTIME_THRESHOLD) \<or> (txLock \<ge> LOCKTIME_THRESHOLD \<and> n \<ge> LOCKTIME_THRESHOLD)) then False
      else if n > txLock then False
      else if txin_IsFinal (vin (sc_txTo c) ! sc_nIn c) then False
      else True)"

text \<open>The loop over the outputs from index \<open>i\<close>; \<open>None\<close> is the early return.\<close>

fun coldstake_loop :: "CScript \<Rightarrow> nat \<Rightarrow> nat \<Rightarrow> CTxOut list \<Rightarrow> CAmount \<Rightarrow> CAmount option" where
  "coldstake_loop prevoutScript outs i [] outValue = Some outValue"
| "coldstake_loop prevoutScript outs i (out # rest) outValue =
     (if scriptPubKey out \<noteq> prevoutScript
      then (if i \<noteq> outs - 1 \<or> outs < 3 then None else coldstake_loop prevoutScript outs (i + 1) rest outValue)
      else coldstake_loop prevoutScript outs (i + 1) rest (wrap64 (outValue + nValue out)))"

definition checker_CheckColdStake ::
  "bool \<Rightarrow> script_env \<Rightarrow> TransactionSignatureChecker \<Rightarrow> CScript \<Rightarrow> valtype list \<Rightarrow> u32 \<Rightarrow> ScriptError + unit" where
  "checker_CheckColdStake g_newP2CSRules E c prevoutScript stack flags =
     (case (if g_newP2CSRules
            then (case stack of
                [vchPubKeyHash, vchPubKey, vchSig] \<Rightarrow>
                  (case check_encodings E vchSig vchPubKey flags of
                     Some e \<Rightarrow> Some e
                   | None \<Rightarrow> if length vchPubKeyHash \<noteq> 20 then Some SCRIPT_ERR_SCRIPT_SIZE else None)
              | _ \<Rightarrow> Some SCRIPT_ERR_INVALID_STACK_OPERATION)
            else None) of
        Some e \<Rightarrow> Inl e
      | None \<Rightarrow>
          let txTo = sc_txTo c; outs = length (vout txTo) in
          if \<not> IsCoinStake txTo then Inl SCRIPT_ERR_CHECKCOLDSTAKEVERIFY
          else if length (vin txTo) \<noteq> 1 then Inl SCRIPT_ERR_CHECKCOLDSTAKEVERIFY
          else case coldstake_loop prevoutScript outs 1 (drop 1 (vout txTo)) 0 of
              None \<Rightarrow> Inl SCRIPT_ERR_CHECKCOLDSTAKEVERIFY
            | Some outValue \<Rightarrow> if outValue < sc_amount c then Inl SCRIPT_ERR_CHECKCOLDSTAKEVERIFY else Inr ())"

definition checker_env ::
  "blake2b_fun \<Rightarrow> byte list \<Rightarrow> ecdsa_fun \<Rightarrow> (valtype \<Rightarrow> bool) \<Rightarrow> bool \<Rightarrow> TransactionSignatureChecker \<Rightarrow> script_env" where
  "checker_env blake2b junk ecdsa lowS g_newP2CSRules c =
     (let base = BaseSignatureChecker lowS junk
      in base\<lparr>CheckSig := checker_CheckSig blake2b junk ecdsa c, CheckLockTime := checker_CheckLockTime c,
           CheckColdStake := checker_CheckColdStake g_newP2CSRules base c\<rparr>)"

section \<open>The reference signature hash\<close>

definition old_inputs :: "CScript \<Rightarrow> CTransaction \<Rightarrow> nat \<Rightarrow> u32 \<Rightarrow> CTxIn list" where
  "old_inputs scriptCode txTo nIn ht =
     (let ins = map (\<lambda>i. i\<lparr>scriptSig := []\<rparr>) (vin txTo);
          ins = ins[nIn := (ins ! nIn)\<lparr>scriptSig := snd (FindAndDelete scriptCode [OP_CODESEPARATOR])\<rparr>];
          ins = (if fHashNone ht \<or> fHashSingle ht
                 then map (\<lambda>i. if i \<noteq> nIn then (ins ! i)\<lparr>nSequence := 0\<rparr> else ins ! i) [0..<length ins] else ins)
      in if fAnyoneCanPay ht then [ins ! nIn] else ins)"

definition old_outputs :: "CTransaction \<Rightarrow> nat \<Rightarrow> u32 \<Rightarrow> CTxOut list" where
  "old_outputs txTo nIn ht =
     (if fHashNone ht then []
      else if fHashSingle ht
      then map (\<lambda>o1. o1\<lparr>nValue := -1, scriptPubKey := []\<rparr>) (take nIn (vout txTo)) @ [vout txTo ! nIn]
      else vout txTo)"

definition SignatureHashOld :: "byte list \<Rightarrow> CScript \<Rightarrow> CTransaction \<Rightarrow> nat \<Rightarrow> u32 \<Rightarrow> uint256" where
  "SignatureHashOld junk scriptCode txTo nIn ht =
     (if nIn \<ge> length (vin txTo) then UINT256_ONE
      else if \<not> fHashNone ht \<and> fHashSingle ht \<and> nIn \<ge> length (vout txTo) then UINT256_ONE
      else let txTmp = txTo\<lparr>vin := old_inputs scriptCode txTo nIn ht, vout := old_outputs txTo nIn ht\<rparr>
           in SerializeHash junk (SerializeTransaction txTmp @ ser_writedata32 ht))"

section \<open>Code separators\<close>

text \<open>A script all of whose instructions can be read.\<close>

function script_parses :: "CScript \<Rightarrow> bool" where
  "script_parses pc \<longleftrightarrow> pc = [] \<or> (case GetOp2 pc of None \<Rightarrow> False | Some (opcode, data, pc') \<Rightarrow> script_parses pc')"
  by pat_completeness auto

termination by (relation "measure length") (auto dest: GetOp2_shorter)

text \<open>The instructions other than the separators.\<close>

function strip_separators :: "CScript \<Rightarrow> CScript" where
  "strip_separators pc = (case GetOp2 pc of None \<Rightarrow> pc
     | Some (opcode, data, pc') \<Rightarrow>
         (if opcode = OP_CODESEPARATOR then [] else take (length pc - length pc') pc) @ strip_separators pc')"
  by pat_completeness auto

termination by (relation "measure length") (auto dest: GetOp2_shorter)

declare script_parses.simps [simp del] and strip_separators.simps [simp del]

lemma strip_step:
  "GetOp2 pc = Some (opcode, data, pc') \<Longrightarrow> strip_separators pc =
     (if opcode = OP_CODESEPARATOR then [] else take (length pc - length pc') pc) @ strip_separators pc'"
  "GetOp2 pc = None \<Longrightarrow> strip_separators pc = pc"
  by (subst strip_separators.simps, simp)+

lemma parses_step: "GetOp2 pc = Some (opcode, data, pc') \<Longrightarrow> script_parses pc \<longleftrightarrow> script_parses pc'"
  by (cases pc) (simp, subst script_parses.simps, simp del: GetOp2.simps)

lemma Find_step:
  "GetOp2 pc = Some (opcode, data, pc') \<Longrightarrow> script_Find pc op1 = (if opcode = op1 then 1 else 0) + script_Find pc' op1"
  "GetOp2 pc = None \<Longrightarrow> script_Find pc op1 = 0"
  by (subst script_Find.simps, simp)+

lemma GetOp2_split:
  assumes "GetOp2 pc = Some (opcode, data, pc')"
  shows "pc = take (length pc - length pc') pc @ pc'"
proof -
  have "\<exists>k. pc' = drop k pc"
  proof (cases pc)
    case (Cons c r)
    have "\<exists>k. r' = drop k r" if "push_size c r = Some (n, r')" for n r'
      using that by (auto simp: push_size_def drop_Suc split: if_splits intro: exI [of _ 0] exI [of _ 1] exI [of _ 2] exI [of _ 4])
    then have "\<exists>k. pc' = drop k r" using assms Cons by (fastforce split: if_splits option.splits intro: exI [of _ 0])
    then show ?thesis using Cons by (metis drop_Suc_Cons)
  qed (use assms in simp)
  then obtain k where k: "pc' = drop k pc" by blast
  show ?thesis
  proof (cases "k \<le> length pc")
    case True
    then show ?thesis unfolding k by simp
  qed (simp add: k)
qed

lemma GetOp2_separator: "GetOp2 pc = Some (OP_CODESEPARATOR, data, pc') \<Longrightarrow> pc = OP_CODESEPARATOR # pc'"
  by (cases pc) (auto split: if_splits option.splits)

lemma code_loop_strip:
  "script_parses it \<Longrightarrow> code_loop (pre @ it) it s = s @ pre @ strip_separators it"
proof (induction "length it" arbitrary: pre it s rule: less_induct)
  case less
  show ?case
  proof (cases "GetOp2 it")
    case None
    then have "it = []" using less.prems by (subst (asm) script_parses.simps) simp
    then show ?thesis by (subst code_loop.simps) (simp add: failed_pos_def strip_step)
  next
    case (Some t)
    obtain opcode data it' where g: "GetOp2 it = Some (opcode, data, it')" using Some by (cases t) auto
    have p: "script_parses it'" using less.prems by (simp add: parses_step [OF g])
    note ih = less.hyps [OF GetOp2_shorter [OF g] p]
    show ?thesis
    proof (cases "opcode = OP_CODESEPARATOR")
      case True
      then have "it = OP_CODESEPARATOR # it'" using g GetOp2_separator by blast
      then have "code_loop (pre @ it) it s = code_loop it' it' (s @ pre)" using g True by (subst code_loop.simps) simp
      also have "\<dots> = (s @ pre) @ [] @ strip_separators it'" using ih [of "[]" "s @ pre"] by simp
      finally show ?thesis using True by (simp add: strip_step(1) [OF g])
    next
      case False
      let ?chunk = "take (length it - length it') it"
      have "code_loop (pre @ it) it s = code_loop (pre @ it) it' s" using g False by (subst code_loop.simps) simp
      also have "\<dots> = code_loop ((pre @ ?chunk) @ it') it' s" using GetOp2_split [OF g] by simp
      also have "\<dots> = s @ (pre @ ?chunk) @ strip_separators it'" by (rule ih)
      finally show ?thesis using False by (simp add: strip_step(1) [OF g])
    qed
  qed
qed

lemma find_delete_separators:
  "find_delete_loop [OP_CODESEPARATOR] pc res n = (res @ strip_separators pc, n + script_Find pc OP_CODESEPARATOR)"
proof (induction "length pc" arbitrary: pc res n rule: less_induct)
  case less
  show ?case
  proof (cases "\<exists>r. pc = OP_CODESEPARATOR # r")
    case True
    then obtain r where r: "pc = OP_CODESEPARATOR # r" by blast
    have g: "GetOp2 pc = Some (OP_CODESEPARATOR, [], r)" by (simp add: r)
    have "skip_occurrences [OP_CODESEPARATOR] pc n = skip_occurrences [OP_CODESEPARATOR] r (n + 1)"
      unfolding r by (subst skip_occurrences.simps) simp
    then have "find_delete_loop [OP_CODESEPARATOR] pc res n = find_delete_loop [OP_CODESEPARATOR] r res (n + 1)"
      by (subst (1 2) find_delete_loop.simps) simp
    then show ?thesis using less.hyps [of r res "n + 1"] by (simp add: r strip_step(1) [OF g [unfolded r]] Find_step(1) [OF g [unfolded r]])
  next
    case False
    then have t: "take (length [OP_CODESEPARATOR]) pc \<noteq> [OP_CODESEPARATOR]" by (cases pc) auto
    show ?thesis
    proof (cases "GetOp2 pc")
      case None
      then show ?thesis using t by (subst find_delete_loop.simps) (simp add: skip_none strip_step Find_step)
    next
      case (Some u)
      obtain opcode data pc' where g: "GetOp2 pc = Some (opcode, data, pc')" using Some by (cases u) auto
      then have "opcode \<noteq> OP_CODESEPARATOR" using False GetOp2_separator by blast
      then show ?thesis using less.hyps [OF GetOp2_shorter [OF g]]
        by (simp add: find_delete_none [OF g t] strip_step(1) [OF g] Find_step(1) [OF g])
    qed
  qed
qed

lemma strip_length: "length (strip_separators pc) + script_Find pc OP_CODESEPARATOR = length pc"
  using find_delete_length [OF find_delete_separators [of pc "[]" 0]] by simp

lemma strip_none: "script_Find pc OP_CODESEPARATOR = 0 \<Longrightarrow> strip_separators pc = pc"
proof (induction "length pc" arbitrary: pc rule: less_induct)
  case less
  show ?case
  proof (cases "GetOp2 pc")
    case (Some u)
    obtain opcode data pc' where g: "GetOp2 pc = Some (opcode, data, pc')" using Some by (cases u) auto
    then have "opcode \<noteq> OP_CODESEPARATOR" "script_Find pc' OP_CODESEPARATOR = 0"
      using less.prems by (auto simp: Find_step(1) [OF g] split: if_splits)
    then show ?thesis using less.hyps [OF GetOp2_shorter [OF g]] GetOp2_split [OF g] by (simp add: strip_step(1) [OF g])
  qed (simp add: strip_step)
qed

lemma FindAndDelete_separators: "snd (FindAndDelete pc [OP_CODESEPARATOR]) = strip_separators pc"
  by (simp add: FindAndDelete_def find_delete_separators strip_none)

lemma SerializeScriptCode_strip:
  "script_parses sc \<Longrightarrow> SerializeScriptCode sc = Serialize_bytes (snd (FindAndDelete sc [OP_CODESEPARATOR]))"
proof -
  assume p: "script_parses sc"
  have "length sc - script_Find sc OP_CODESEPARATOR = length (strip_separators sc)" using strip_length [of sc] by linarith
  then show ?thesis using code_loop_strip [OF p, of "[]" "[]"]
    by (simp add: SerializeScriptCode_def Serialize_bytes_def FindAndDelete_separators)
qed

section \<open>The legacy hash and its reference\<close>

lemma SerializeInput_old:
  assumes "script_parses sc" "nIn < length (vin tx)" "i < length (vin tx)" "\<not> fAnyoneCanPay ht"
  shows "SerializeInput tx sc nIn ht i = Serialize_txin (old_inputs sc tx nIn ht ! i)"
  using assms by (auto simp: SerializeInput_def old_inputs_def Let_def Serialize_txin_def SerializeScriptCode_strip nth_list_update
      Serialize_int32_def)

lemma SerializeInput_old_single:
  assumes "script_parses sc" "nIn < length (vin tx)" "fAnyoneCanPay ht"
  shows "SerializeInput tx sc nIn ht i = Serialize_txin (old_inputs sc tx nIn ht ! 0)" "length (old_inputs sc tx nIn ht) = 1"
  using assms by (auto simp: SerializeInput_def old_inputs_def Let_def Serialize_txin_def SerializeScriptCode_strip nth_list_update)

lemma old_inputs_bytes:
  assumes "script_parses sc" "nIn < length (vin tx)"
  shows "Serialize_vector Serialize_txin (old_inputs sc tx nIn ht) =
    (let n = (if fAnyoneCanPay ht then 1 else length (vin tx)) in write_size n @ concat (map (SerializeInput tx sc nIn ht) [0..<n]))"
proof (cases "fAnyoneCanPay ht")
  case True
  then show ?thesis using SerializeInput_old_single [OF assms True]
    by (cases "old_inputs sc tx nIn ht") (simp_all add: Serialize_vector_def)
next
  case False
  have l: "length (old_inputs sc tx nIn ht) = length (vin tx)" using False by (simp add: old_inputs_def Let_def)
  have "map Serialize_txin (old_inputs sc tx nIn ht) = map (SerializeInput tx sc nIn ht) [0..<length (vin tx)]"
    by (rule nth_equalityI) (simp_all add: l SerializeInput_old [OF assms _ False])
  then show ?thesis using False by (simp add: Serialize_vector_def l Let_def)
qed

lemma old_outputs_bytes:
  assumes "\<not> fHashNone ht \<and> fHashSingle ht \<longrightarrow> nIn < length (vout tx)"
  shows "Serialize_vector Serialize_txout (old_outputs tx nIn ht) =
    (let n = (if fHashNone ht then 0 else if fHashSingle ht then nIn + 1 else length (vout tx))
     in write_size n @ concat (map (SerializeOutput tx nIn ht) [0..<n]))"
proof -
  consider "fHashNone ht" | "\<not> fHashNone ht" "fHashSingle ht" | "\<not> fHashNone ht" "\<not> fHashSingle ht" by blast
  then show ?thesis
  proof cases
    case 1
    then show ?thesis by (simp add: old_outputs_def Serialize_vector_def)
  next
    case 2
    then have n: "nIn < length (vout tx)" using assms by blast
    let ?f = "\<lambda>o1. Serialize_txout (o1\<lparr>nValue := -1, scriptPubKey := []\<rparr>)"
    have "map ?f (take nIn (vout tx)) = map (SerializeOutput tx nIn ht) [0..<nIn]"
      by (rule nth_equalityI) (use n 2 in \<open>simp_all add: SerializeOutput_def Serialize_txout_def txout_null_def\<close>)
    moreover have "SerializeOutput tx nIn ht nIn = Serialize_txout (vout tx ! nIn)" by (simp add: SerializeOutput_def)
    ultimately show ?thesis using 2 n by (simp add: old_outputs_def Serialize_vector_def comp_def)
  next
    case 3
    have "map Serialize_txout (vout tx) = map (SerializeOutput tx nIn ht) [0..<length (vout tx)]"
      by (rule nth_equalityI) (use 3 in \<open>simp_all add: SerializeOutput_def\<close>)
    then show ?thesis using 3 by (simp add: old_outputs_def Serialize_vector_def Let_def)
  qed
qed

lemma sig_Serialize_old:
  assumes "script_parses sc" "nIn < length (vin tx)" "\<not> fHashNone ht \<and> fHashSingle ht \<longrightarrow> nIn < length (vout tx)" "\<not> isSaplingVersion tx"
  shows "sig_Serialize tx sc nIn ht =
    SerializeTransaction (tx\<lparr>vin := old_inputs sc tx nIn ht, vout := old_outputs tx nIn ht\<rparr>)"
  using old_inputs_bytes [OF assms(1,2), of ht] old_outputs_bytes [OF assms(3)] assms(4)
  by (simp add: sig_Serialize_def SerializeTransaction_def isSaplingVersion_def Let_def)

lemma cached_new:
  "cached (Some (PrecomputedTransactionData_new b tx)) hashPrevouts h = GetPrevoutHash b tx"
  "cached (Some (PrecomputedTransactionData_new b tx)) hashSequence h = GetSequenceHash b tx"
  "cached (Some (PrecomputedTransactionData_new b tx)) hashOutputs h = GetOutputsHash b tx"
  "sapData tx = Some d \<Longrightarrow> cached (Some (PrecomputedTransactionData_new b tx)) hashShieldedSpends h = GetShieldedSpendsHash b d"
  "sapData tx = Some d \<Longrightarrow> cached (Some (PrecomputedTransactionData_new b tx)) hashShieldedOutputs h = GetShieldedOutputsHash b d"
  "cached None f h = h"
  by (simp_all add: cached_def PrecomputedTransactionData_new_def)

lemma sapling_preimage_cached:
  "sapling_preimage b sc tx nIn ht amount (Some (PrecomputedTransactionData_new b tx)) = sapling_preimage b sc tx nIn ht amount None"
  unfolding sapling_preimage_def by (simp add: cached_new Let_def split: option.split)

section \<open>Staking outputs\<close>

lemma coldstake_loop_outputs:
  "coldstake_loop P outs i os v = Some w \<Longrightarrow> i + length os = outs \<Longrightarrow> list_all (\<lambda>x. 0 \<le> nValue x) os \<Longrightarrow> 0 \<le> v \<Longrightarrow>
   v + sum_list (map nValue os) < 2 ^ 63 \<Longrightarrow>
   w = v + sum_list (map nValue (filter (\<lambda>x. scriptPubKey x = P) os)) \<and>
   (\<forall>k < length os. scriptPubKey (os ! k) = P \<or> i + k = outs - 1 \<and> outs \<ge> 3)"
proof (induction os arbitrary: i v)
  case (Cons out rest)
  have "0 \<le> sum_list (map nValue rest)" using Cons.prems(3) by (intro sum_list_nonneg) (auto simp: list_all_iff)
  then have wrap: "wrap64 (v + nValue out) = v + nValue out" using Cons.prems by (simp add: wrap64_def)
  show ?case
  proof (cases "scriptPubKey out = P")
    case True
    then have "coldstake_loop P outs (i + 1) rest (v + nValue out) = Some w" using Cons.prems(1) wrap by simp
    from Cons.IH [OF this] True Cons.prems show ?thesis by (auto simp: All_less_Suc2)
  next
    case False
    then have s: "i = outs - 1" "outs \<ge> 3" "coldstake_loop P outs (i + 1) rest v = Some w"
      using Cons.prems(1) by (auto split: if_splits)
    then have "rest = []" using Cons.prems(2) by auto
    then show ?thesis using s False by auto
  qed
qed simp

text \<open>A coinstake for concrete runs, locked until height 100.\<close>

definition example_checker :: TransactionSignatureChecker where
  "example_checker = \<lparr>sc_txTo = CTransaction_new\<lparr>vin := [txin_new \<lparr>op_hash = UINT256_ONE, op_n = 0\<rparr> [] 5],
       vout := [txout_new 0 [], txout_new 60 [OP_1], txout_new 50 [OP_1], txout_new 3 [OP_2]], nLockTime := 100\<rparr>,
     sc_nIn = 0, sc_amount = 105, sc_precomTxData = None\<rparr>"

section \<open>Properties\<close>

text \<open>
  C11. The optimised legacy signature hash, which serialises the changed transaction on the fly, is the
  hash of the original implementation that builds the changed transaction (separators deleted from the
  script, the other inputs and outputs blanked as the hash type says): they agree on every
  transaction of version 1 or 2, every input index and every hash type, for scripts whose instructions
  can all be read.  And a precomputed cache of the transaction changes no signature hash.
\<close>

theorem signature_hash_matches_reference:
  assumes "script_parses scriptCode" and "\<not> isSaplingVersion tx" and "nIn \<noteq> NOT_AN_INPUT"
  shows "SignatureHash blake2b junk scriptCode tx nIn ht amount SIGVERSION_BASE cache =
      Inr (SignatureHashOld junk scriptCode tx nIn ht) \<and>
    SignatureHash blake2b junk code tx' n ht amount v (Some (PrecomputedTransactionData_new blake2b tx')) =
      SignatureHash blake2b junk code tx' n ht amount v None"
proof
  have "fHashSingle ht \<Longrightarrow> \<not> fHashNone ht" by (simp add: SIGHASH_SINGLE_def SIGHASH_NONE_def)
  then show "SignatureHash blake2b junk scriptCode tx nIn ht amount SIGVERSION_BASE cache =
      Inr (SignatureHashOld junk scriptCode tx nIn ht)"
    using assms(2,3) sig_Serialize_old [OF assms(1) _ _ assms(2), of nIn ht]
    by (auto simp: SignatureHash_def SignatureHashOld_def Let_def not_le)
  show "SignatureHash blake2b junk code tx' n ht amount v (Some (PrecomputedTransactionData_new blake2b tx')) =
      SignatureHash blake2b junk code tx' n ht amount v None"
    by (simp add: SignatureHash_def sapling_preimage_cached)
qed

theorem signature_hash_matches_reference_witness:
  "SignatureHash (\<lambda>p d. d) (replicate 64 0) [OP_CODESEPARATOR, OP_CHECKSIG]
     (CTransaction_new\<lparr>vin := [txin_new outpoint_null [] 5]\<rparr>) 0 SIGHASH_ALL 0 SIGVERSION_BASE None =
   Inr (SignatureHashOld (replicate 64 0) [OP_CODESEPARATOR, OP_CHECKSIG] (CTransaction_new\<lparr>vin := [txin_new outpoint_null [] 5]\<rparr>) 0 SIGHASH_ALL)"
proof -
  have "script_parses [OP_CODESEPARATOR, OP_CHECKSIG]" by (simp add: script_parses.simps)
  moreover have "\<not> isSaplingVersion (CTransaction_new\<lparr>vin := [txin_new outpoint_null [] 5]\<rparr>)"
    by (simp add: isSaplingVersion_def CTransaction_new_def)
  ultimately show ?thesis using signature_hash_matches_reference [of "[OP_CODESEPARATOR, OP_CHECKSIG]"
        "CTransaction_new\<lparr>vin := [txin_new outpoint_null [] 5]\<rparr>" 0] by (simp add: NOT_AN_INPUT_def)
qed

text \<open>
  C16. Time locks of scripts are enforced by the chain.  If \<open>OP_CHECKLOCKTIMEVERIFY\<close> lets an input pass
  with the operand on top of its stack, and the transaction is final in a block, then the block lies
  above the operand: its height if the operand is a height, its time if it is a time.
\<close>

theorem locktime_enforced:
  assumes "op_CHECKLOCKTIMEVERIFY (checker_env blake2b junk ecdsa lowS newRules c) flags st = Inr st'"
    and "has_flag flags SCRIPT_VERIFY_CHECKLOCKTIMEVERIFY"
    and "CScriptNum (hd (es_stack st)) (has_flag flags SCRIPT_VERIFY_MINIMALDATA) 5 = Some n"
    and "sc_nIn c < length (vin (sc_txTo c))"
    and "IsFinalTx now (sc_txTo c) nBlockHeight nBlockTime" and "nBlockHeight > 0" and "nBlockTime > 0"
  shows "0 \<le> n \<and> (if n < LOCKTIME_THRESHOLD then n < nBlockHeight else n < nBlockTime)"
proof -
  obtain x s where st: "es_stack st = x # s" using assms(1,2) by (cases "es_stack st") (simp_all add: op_CHECKLOCKTIMEVERIFY_def)
  then have n: "0 \<le> n" "checker_CheckLockTime c n"
    using assms(1,2,3) by (auto simp: op_CHECKLOCKTIMEVERIFY_def with_num_def checker_env_def Let_def split: if_splits)
  let ?l = "uint (nLockTime (sc_txTo c))"
  have c: "?l < LOCKTIME_THRESHOLD \<longleftrightarrow> n < LOCKTIME_THRESHOLD" "n \<le> ?l" "\<not> txin_IsFinal (vin (sc_txTo c) ! sc_nIn c)"
    using n(2) by (auto simp: checker_CheckLockTime_def Let_def split: if_splits)
  then have "\<not> list_all txin_IsFinal (vin (sc_txTo c))" using assms(4) by (auto simp: list_all_length)
  then have "?l = 0 \<or> ?l < (if ?l < LOCKTIME_THRESHOLD then nBlockHeight else nBlockTime)"
    using assms(5,7) by (auto simp: IsFinalTx_def Let_def split: if_splits)
  then show ?thesis using c(1,2) n(1) assms(6,7) by (auto simp: LOCKTIME_THRESHOLD_def split: if_splits)
qed

theorem locktime_enforced_witness:
  "op_CHECKLOCKTIMEVERIFY (checker_env (\<lambda>p d. d) [] (\<lambda>h s p. True) (\<lambda>s. True) True example_checker) 512
     \<lparr>es_stack = [[100]], es_alt = [], vfExec = [], nOpCount = 1, pbegincodehash = []\<rparr> =
   Inr \<lparr>es_stack = [[100]], es_alt = [], vfExec = [], nOpCount = 1, pbegincodehash = []\<rparr> \<and>
   IsFinalTx 0 (sc_txTo example_checker) 101 7 \<and> (0 :: int) \<le> 100 \<and> (100 :: int) < 101"
proof -
  let ?st = "\<lparr>es_stack = [[100]], es_alt = [], vfExec = [], nOpCount = 1, pbegincodehash = []\<rparr>"
  have num: "CScriptNum [100] (has_flag 512 SCRIPT_VERIFY_MINIMALDATA) 5 = Some 100"
    by (simp add: CScriptNum_def has_flag_def SCRIPT_VERIFY_MINIMALDATA_def set_vch_def)
  have flag: "has_flag 512 SCRIPT_VERIFY_CHECKLOCKTIMEVERIFY" by (simp add: has_flag_def SCRIPT_VERIFY_CHECKLOCKTIMEVERIFY_def)
  have run: "op_CHECKLOCKTIMEVERIFY (checker_env (\<lambda>p d. d) [] (\<lambda>h s p. True) (\<lambda>s. True) True example_checker) 512 ?st = Inr ?st"
    using num flag by (simp add: op_CHECKLOCKTIMEVERIFY_def with_num_def checker_env_def BaseSignatureChecker_def
        checker_CheckLockTime_def example_checker_def LOCKTIME_THRESHOLD_def txin_IsFinal_def txin_new_def SEQUENCE_FINAL_def)
  have fin: "IsFinalTx 0 (sc_txTo example_checker) 101 7" by (simp add: IsFinalTx_def example_checker_def LOCKTIME_THRESHOLD_def)
  have inp: "sc_nIn example_checker < length (vin (sc_txTo example_checker))" by (simp add: example_checker_def)
  show ?thesis using locktime_enforced [OF run flag, of 100 0 101 7] run num inp fin by (simp add: LOCKTIME_THRESHOLD_def)
qed

text \<open>
  C15. A stake accepted by \<open>CheckColdStake\<close> keeps the money with its owner: the transaction is a coinstake
  with a single input, every output but the empty first one, and but the last one of at least three,
  pays to the script that is spent, and the outputs to that script hold at least the amount spent.
\<close>

theorem coldstake_keeps_value:
  assumes "checker_CheckColdStake newRules E c P stack flags = Inr ()"
    and "\<forall>o1 \<in> set (vout (sc_txTo c)). 0 \<le> nValue o1" and "sum_list (map nValue (vout (sc_txTo c))) < 2 ^ 63"
  shows "IsCoinStake (sc_txTo c) \<and> length (vin (sc_txTo c)) = 1 \<and>
    (\<forall>i. 1 \<le> i \<and> i < length (vout (sc_txTo c)) \<longrightarrow>
      scriptPubKey (vout (sc_txTo c) ! i) = P \<or> i = length (vout (sc_txTo c)) - 1 \<and> length (vout (sc_txTo c)) \<ge> 3) \<and>
    sc_amount c \<le> sum_list (map nValue (filter (\<lambda>o1. scriptPubKey o1 = P) (drop 1 (vout (sc_txTo c)))))"
proof -
  define tx where "tx = sc_txTo c"
  have "IsCoinStake tx \<and> length (vin tx) = 1 \<and> (\<exists>w. coldstake_loop P (length (vout tx)) 1 (drop 1 (vout tx)) 0 = Some w \<and> sc_amount c \<le> w)"
    using assms(1) unfolding checker_CheckColdStake_def Let_def tx_def [symmetric]
    by (simp split: option.split_asm if_split_asm)
  then obtain w where w: "IsCoinStake tx" "length (vin tx) = 1" "coldstake_loop P (length (vout tx)) 1 (drop 1 (vout tx)) 0 = Some w"
    "sc_amount c \<le> w" by blast
  obtain o0 os where o0: "vout tx = o0 # os" using w(1) by (cases "vout tx") (auto simp: IsCoinStake_def split: if_splits)
  have "0 + sum_list (map nValue os) < 2 ^ 63" "list_all (\<lambda>x. 0 \<le> nValue x) os"
    using assms(2,3) unfolding tx_def [symmetric] o0 by (simp_all add: list_all_iff)
  with coldstake_loop_outputs [of P "length (vout tx)" 1 os 0 w] w(3)
  have l: "w = sum_list (map nValue (filter (\<lambda>x. scriptPubKey x = P) os))"
    "\<forall>k < length os. scriptPubKey (os ! k) = P \<or> 1 + k = length (vout tx) - 1 \<and> length (vout tx) \<ge> 3" by (simp_all add: o0)
  have "scriptPubKey (vout tx ! i) = P \<or> i = length (vout tx) - 1 \<and> length (vout tx) \<ge> 3" if "1 \<le> i" "i < length (vout tx)" for i
    using l(2) [rule_format, of "i - 1"] that by (simp add: o0 nth_Cons' less_diff_conv2)
  then show ?thesis using w(1,2,4) l(1) unfolding tx_def [symmetric] by (simp add: o0)
qed

theorem coldstake_keeps_value_witness:
  "checker_CheckColdStake False (BaseSignatureChecker (\<lambda>s. True) []) example_checker [OP_1] [] 0 = Inr () \<and>
   sc_amount example_checker \<le> sum_list (map nValue (filter (\<lambda>o1. scriptPubKey o1 = [OP_1]) (drop 1 (vout (sc_txTo example_checker)))))"
proof -
  have run: "checker_CheckColdStake False (BaseSignatureChecker (\<lambda>s. True) []) example_checker [OP_1] [] 0 = Inr ()"
    by (simp add: checker_CheckColdStake_def example_checker_def IsCoinStake_def outpoint_IsNull_def txin_new_def txout_new_def
        txout_IsEmpty_def wrap64_def UINT256_ONE_def)
  moreover have "\<forall>o1 \<in> set (vout (sc_txTo example_checker)). 0 \<le> nValue o1" by (simp add: example_checker_def txout_new_def)
  moreover have "sum_list (map nValue (vout (sc_txTo example_checker))) < 2 ^ 63" by (simp add: example_checker_def txout_new_def)
  ultimately show ?thesis using coldstake_keeps_value by blast
qed






end
