(* ===== verification/Block.thy ===== *)
theory Block
  imports Standard Merkle Pow Checker
begin

unbundle bit_operations_syntax

text \<open>
  Blocks: \<open>src/src/primitives/block.h/.cpp\<close>, \<open>HashQuark\<close> of \<open>src/src/hash.h\<close>, \<open>src/src/blocksignature.cpp\<close>,
  \<open>src/src/checkpoints.cpp\<close>, the reward schedule and the checks of a block before it is connected
  (\<open>CheckColdStakeFreeOutput\<close> to \<open>ContextualCheckBlock\<close> of \<open>src/src/validation.cpp\<close>), and the contextual Sapling check of
  \<open>src/src/sapling/sapling_validation.cpp\<close>.  A \<open>uint512\<close> is its 64 bytes.  The \<open>sph\<close> hash functions, ECDSA verification and
  the proof checks of librustzcash are parameters.
\<close>

section \<open>Headers and blocks\<close>

record sph_hashes =
  sph_blake512 :: "byte list \<Rightarrow> byte list"
  sph_bmw512 :: "byte list \<Rightarrow> byte list"
  sph_groestl512 :: "byte list \<Rightarrow> byte list"
  sph_jh512 :: "byte list \<Rightarrow> byte list"
  sph_keccak512 :: "byte list \<Rightarrow> byte list"
  sph_skein512 :: "byte list \<Rightarrow> byte list"

abbreviation quark_bit :: "byte list \<Rightarrow> bool" where
  "quark_bit h \<equiv> hd h AND 8 \<noteq> 0"

definition HashQuark :: "sph_hashes \<Rightarrow> byte list \<Rightarrow> uint256" where
  "HashQuark S data =
     (let h0 = sph_blake512 S data;
          h1 = sph_bmw512 S h0;
          h2 = (if quark_bit h1 then sph_groestl512 S h1 else sph_skein512 S h1);
          h3 = sph_groestl512 S h2;
          h4 = sph_jh512 S h3;
          h5 = (if quark_bit h4 then sph_blake512 S h4 else sph_bmw512 S h4);
          h6 = sph_keccak512 S h5;
          h7 = sph_skein512 S h6;
          h8 = (if quark_bit h7 then sph_keccak512 S h7 else sph_jh512 S h7)
      in limbs_of_bytes 8 h8)"

definition header_CURRENT_VERSION :: int where "header_CURRENT_VERSION = 10"

definition header_null :: CBlockHeader where
  "header_null = \<lparr>hdr_nVersion = header_CURRENT_VERSION, hdr_hashPrevBlock = base_uint_zero 8, hdr_hashMerkleRoot = base_uint_zero 8,
     hdr_nTime = 0, hdr_nBits = 0, hdr_nNonce = 0, hdr_hashFinalSaplingRoot = base_uint_zero 8\<rparr>"

definition header_IsNull :: "('a CBlockHeader_scheme) \<Rightarrow> bool" where
  "header_IsNull h \<longleftrightarrow> hdr_nBits h = 0"

definition header_GetBlockTime :: "('a CBlockHeader_scheme) \<Rightarrow> int" where
  "header_GetBlockTime h = uint (hdr_nTime h)"

text \<open>The fields in front of the Sapling root: on a little-endian host also the memory from \<open>nVersion\<close> to \<open>nNonce\<close>.\<close>

definition Serialize_header80 :: "('a CBlockHeader_scheme) \<Rightarrow> byte list" where
  "Serialize_header80 h = Serialize_int32 (hdr_nVersion h) @ Serialize_uint256 (hdr_hashPrevBlock h) @ Serialize_uint256 (hdr_hashMerkleRoot h) @
     ser_writedata32 (hdr_nTime h) @ ser_writedata32 (hdr_nBits h) @ ser_writedata32 (hdr_nNonce h)"

definition Serialize_header :: "('a CBlockHeader_scheme) \<Rightarrow> byte list" where
  "Serialize_header h = Serialize_header80 h @ (if hdr_nVersion h \<ge> 8 then Serialize_uint256 (hdr_hashFinalSaplingRoot h) else [])"

definition Unserialize_header :: "CBlockHeader \<Rightarrow> CBlockHeader reader" where
  "Unserialize_header h0 =
     rbind Unserialize_int32 (\<lambda>v. rbind Unserialize_uint256 (\<lambda>p. rbind Unserialize_uint256 (\<lambda>r.
     rbind ser_readdata32 (\<lambda>t. rbind ser_readdata32 (\<lambda>b. rbind ser_readdata32 (\<lambda>n.
       let h = h0\<lparr>hdr_nVersion := v, hdr_hashPrevBlock := p, hdr_hashMerkleRoot := r, hdr_nTime := t, hdr_nBits := b, hdr_nNonce := n\<rparr>
       in if v \<ge> 8 then rbind Unserialize_uint256 (\<lambda>s. rreturn (h\<lparr>hdr_hashFinalSaplingRoot := s\<rparr>)) else rreturn h))))))"

definition header_GetHash :: "sph_hashes \<Rightarrow> byte list \<Rightarrow> ('a CBlockHeader_scheme) \<Rightarrow> uint256" where
  "header_GetHash S junk h =
     (if hdr_nVersion h < 4 then HashQuark S (Serialize_header80 h) else SerializeHash junk (Serialize_header h))"

record CBlock = CBlockHeader +
  block_vtx :: "CTransaction list"
  vchBlockSig :: "byte list"
  fChecked :: bool

definition block_of_header :: "CBlockHeader \<Rightarrow> CBlock" where
  "block_of_header h = CBlockHeader.extend h \<lparr>block_vtx = [], vchBlockSig = [], fChecked = False\<rparr>"

definition block_null :: CBlock where
  "block_null = block_of_header header_null"

definition block_GetBlockHeader :: "CBlock \<Rightarrow> CBlockHeader" where
  "block_GetBlockHeader b =
     (let h = header_null\<lparr>hdr_nVersion := hdr_nVersion b, hdr_hashPrevBlock := hdr_hashPrevBlock b, hdr_hashMerkleRoot := hdr_hashMerkleRoot b,
        hdr_nTime := hdr_nTime b, hdr_nBits := hdr_nBits b, hdr_nNonce := hdr_nNonce b\<rparr>
      in if hdr_nVersion b \<ge> 8 then h\<lparr>hdr_hashFinalSaplingRoot := hdr_hashFinalSaplingRoot b\<rparr> else h)"

definition vtx_proof_of_stake :: "CTransaction list \<Rightarrow> bool" where
  "vtx_proof_of_stake txs \<longleftrightarrow> length txs > 1 \<and> IsCoinStake (txs ! 1)"

definition block_IsProofOfStake :: "CBlock \<Rightarrow> bool" where
  "block_IsProofOfStake b = vtx_proof_of_stake (block_vtx b)"

definition block_IsProofOfWork :: "CBlock \<Rightarrow> bool" where
  "block_IsProofOfWork b \<longleftrightarrow> \<not> block_IsProofOfStake b"

definition Serialize_block :: "CBlock \<Rightarrow> byte list" where
  "Serialize_block b = Serialize_header b @ Serialize_vector SerializeTransaction (block_vtx b) @
     (if vtx_proof_of_stake (block_vtx b) then Serialize_bytes (vchBlockSig b) else [])"

text \<open>\<open>Suc k\<close> is \<open>5000000 / sizeof (CTransactionRef)\<close>.\<close>

definition Unserialize_block :: "(elem_type \<Rightarrow> nat) \<Rightarrow> nat \<Rightarrow> CBlock \<Rightarrow> CBlock reader" where
  "Unserialize_block vstep k b0 =
     rbind (Unserialize_header (CBlockHeader.truncate b0)) (\<lambda>h.
     rbind (Unserialize_vector (UnserializeTransaction vstep CTransaction_new) k) (\<lambda>txs.
       if vtx_proof_of_stake txs
       then rbind Unserialize_bytes (\<lambda>sig. rreturn (CBlockHeader.extend h \<lparr>block_vtx = txs, vchBlockSig = sig, fChecked = fChecked b0\<rparr>))
       else rreturn (CBlockHeader.extend h \<lparr>block_vtx = txs, vchBlockSig = vchBlockSig b0, fChecked = fChecked b0\<rparr>)))"

section \<open>Locators\<close>

text \<open>\<open>None\<close> for the version is a stream of type \<open>SER_GETHASH\<close>.\<close>

definition Serialize_locator :: "int option \<Rightarrow> uint256 list \<Rightarrow> byte list" where
  "Serialize_locator ver hashes = (case ver of None \<Rightarrow> [] | Some v \<Rightarrow> Serialize_int32 v) @ Serialize_vector Serialize_uint256 hashes"

definition Unserialize_locator :: "bool \<Rightarrow> uint256 list reader" where
  "Unserialize_locator fGetHash =
     (if fGetHash then Unserialize_vector Unserialize_uint256 156249
      else rbind Unserialize_int32 (\<lambda>v. Unserialize_vector Unserialize_uint256 156249))"

section \<open>Rewards\<close>

text \<open>
  The products of the source with \<open>0.0000015\<close>, \<open>100.0000015\<close> and \<open>0.00000131\<close> are exact in double precision: 150, 10000000150 and 131.
\<close>

definition reward_heights :: "int list" where
  "reward_heights = [12962047, 12443645, 11925243, 11406841, 10888439, 10370037, 9851635, 9333233, 8814833, 8296431, 7778029, 7259627,
     6741225, 6222823, 5704421, 5186019, 4667617, 4149215, 3630813, 3112411, 2594009, 2075607, 1557205, 1038803, 520401]"

fun block_value_chain :: "int list \<Rightarrow> int \<Rightarrow> CAmount" where
  "block_value_chain (h # rest) height =
     (if height > h then 150 else if height = h then 10000000150 else block_value_chain rest height)"
| "block_value_chain [] height = (if height > 2000 then 150 else if height > 1 then 3 * COIN else if height > 0 then 1000 * COIN else 0)"

definition GetBlockValue :: "bool \<Rightarrow> int \<Rightarrow> CAmount" where
  "GetBlockValue fRegTest height = (if fRegTest then 250 * COIN else block_value_chain reward_heights height)"

definition GetMasternodePayment :: "Params \<Rightarrow> int \<Rightarrow> CAmount" where
  "GetMasternodePayment consensus height =
     (if height > nActivationHeight (vUpgrades consensus ! UPGRADE_POS) then 131 else 0)"

fun dev_payment_chain :: "int list \<Rightarrow> int \<Rightarrow> CAmount" where
  "dev_payment_chain (h # rest) height = (if height = h then 100 * COIN else dev_payment_chain rest height)"
| "dev_payment_chain [] height = 0"

definition GetDevPayment :: "int \<Rightarrow> CAmount" where
  "GetDevPayment height = dev_payment_chain reward_heights height"

section \<open>Checkpoints\<close>

text \<open>The map of checkpoints in the order of its keys; \<open>hashes\<close> is \<open>mapBlockIndex\<close>.\<close>

type_synonym MapCheckpoints = "(int \<times> uint256) list"

definition Checkpoints_CheckBlock :: "bool \<Rightarrow> MapCheckpoints \<Rightarrow> int \<Rightarrow> uint256 \<Rightarrow> bool \<Rightarrow> bool" where
  "Checkpoints_CheckBlock fEnabled checkpoints height hash fMatchesCheckpoint =
     (if \<not> fEnabled then True
      else case map_of checkpoints height of None \<Rightarrow> \<not> fMatchesCheckpoint | Some h \<Rightarrow> hash = h)"

definition GetTotalBlocksEstimate :: "bool \<Rightarrow> MapCheckpoints \<Rightarrow> int" where
  "GetTotalBlocksEstimate fEnabled checkpoints = (if \<not> fEnabled then 0 else fst (last checkpoints))"

fun first_known :: "(uint256 \<rightharpoonup> ptr) \<Rightarrow> MapCheckpoints \<Rightarrow> ptr option" where
  "first_known hashes [] = None"
| "first_known hashes ((height, hash) # rest) = (case hashes hash of Some p \<Rightarrow> Some p | None \<Rightarrow> first_known hashes rest)"

definition GetLastCheckpoint :: "bool \<Rightarrow> MapCheckpoints \<Rightarrow> (uint256 \<rightharpoonup> ptr) \<Rightarrow> ptr option" where
  "GetLastCheckpoint fEnabled checkpoints hashes = (if \<not> fEnabled then None else first_known hashes (rev checkpoints))"

section \<open>Formats\<close>

definition header_ok :: "CBlockHeader \<Rightarrow> bool" where
  "header_ok h \<longleftrightarrow> in_int32 (hdr_nVersion h) \<and> WIDTH (hdr_hashPrevBlock h) = 8 \<and> WIDTH (hdr_hashMerkleRoot h) = 8 \<and>
     WIDTH (hdr_hashFinalSaplingRoot h) = 8 \<and> (hdr_nVersion h < 8 \<longrightarrow> hdr_hashFinalSaplingRoot h = base_uint_zero 8)"

definition block_ok :: "CBlock \<Rightarrow> bool" where
  "block_ok b \<longleftrightarrow> header_ok (CBlockHeader.truncate b) \<and> list_all tx_ok (block_vtx b) \<and> length (block_vtx b) \<le> MAX_SIZE \<and>
     (if block_IsProofOfStake b then length (vchBlockSig b) \<le> MAX_SIZE else vchBlockSig b = []) \<and> \<not> fChecked b"

lemma Serialize_header_truncate [simp]: "Serialize_header (CBlockHeader.truncate b) = Serialize_header b"
  by (simp add: Serialize_header_def Serialize_header80_def CBlockHeader.defs)

interpretation header_codec: codec Serialize_header "Unserialize_header header_null" header_ok
proof
  fix h s
  assume "header_ok h"
  then show "Unserialize_header header_null (Serialize_header h @ s) = Inr (h, s)"
    by (cases h) (simp add: header_ok_def Unserialize_header_def Serialize_header_def Serialize_header80_def header_null_def Let_def)
qed

interpretation vtx_codec: codec "Serialize_vector SerializeTransaction" "Unserialize_vector (UnserializeTransaction vstep CTransaction_new) k"
  "\<lambda>v. list_all tx_ok v \<and> length v \<le> MAX_SIZE" for vstep k
proof
  fix v s
  assume v: "list_all tx_ok v \<and> length v \<le> MAX_SIZE"
  have "ReadCompactSize (write_size (length v) @ t) = Inr (length v, t)" for t using size_codec.unser_ser [of "length v" t] v by simp
  then show "Unserialize_vector (UnserializeTransaction vstep CTransaction_new) k (Serialize_vector SerializeTransaction v @ s) = Inr (v, s)"
    using codec.read_vector_ser [OF transaction_codec.codec_axioms, of v 0 _ vstep k "[]" s] v
    by (simp add: Serialize_vector_def Unserialize_vector_def)
qed

lemma block_extend:
  "CBlockHeader.extend (CBlockHeader.truncate b) \<lparr>block_vtx = block_vtx b, vchBlockSig = vchBlockSig b, fChecked = fChecked b\<rparr> = b"
  by (cases b) (simp add: CBlockHeader.defs)

lemma block_null_truncate: "CBlockHeader.truncate block_null = header_null" "vchBlockSig block_null = []" "\<not> fChecked block_null"
  by (simp_all add: block_null_def block_of_header_def CBlockHeader.defs header_null_def)

interpretation block_codec: codec Serialize_block "Unserialize_block vstep k block_null" block_ok for vstep k
proof
  fix b s
  assume b: "block_ok b"
  have h: "Unserialize_header header_null (Serialize_header b @ t) = Inr (CBlockHeader.truncate b, t)" for t
    using header_codec.unser_ser [of "CBlockHeader.truncate b" t] b by (simp add: block_ok_def)
  show "Unserialize_block vstep k block_null (Serialize_block b @ s) = Inr (b, s)"
  proof (cases "vtx_proof_of_stake (block_vtx b)")
    case True
    then show ?thesis using b h block_extend [of b]
      by (simp add: Unserialize_block_def Serialize_block_def block_ok_def block_IsProofOfStake_def block_null_truncate)
  next
    case False
    then show ?thesis using b h block_extend [of b]
      by (simp add: Unserialize_block_def Serialize_block_def block_ok_def block_IsProofOfStake_def block_null_truncate)
  qed
qed

section \<open>What a block hash commits to\<close>

text \<open>The byte strings that are hashed to get from a block to its hash: header, transactions and inner nodes of the Merkle tree.\<close>

definition block_preimages :: "byte list \<Rightarrow> CBlock \<Rightarrow> byte list set" where
  "block_preimages junk b = insert (Serialize_header b) (SerializeTransaction ` set (block_vtx b) \<union>
     (\<lambda>(l, r). Serialize_uint256 l @ Serialize_uint256 r) ` nodes (merkle_node junk) (map (tx_GetHash junk) (block_vtx b)))"

abbreviation double_sha256 :: "byte list \<Rightarrow> byte list" where
  "double_sha256 x \<equiv> sha256 (sha256 x)"

lemma length_Hash: "length (Hash junk ranges) = 32"
  by (simp add: Hash_def CHash256_Finalize_def split_beta hash_lengths)

lemma limbs_inj:
  assumes "length a = 32" "length b = 32"
  shows "limbs_of_bytes 8 a = limbs_of_bytes 8 b \<longleftrightarrow> a = b"
proof
  assume e: "limbs_of_bytes 8 a = limbs_of_bytes 8 b"
  have "a = concat (map WriteLE32 (limbs_of_bytes 8 a))" by (rule bytes_of_limbs [symmetric]) (simp add: assms)
  also have "\<dots> = b" unfolding e by (rule bytes_of_limbs) (simp add: assms)
  finally show "a = b" .
qed simp

lemma Hash_double: "length junk = 64 \<Longrightarrow> Hash junk ranges = double_sha256 (concat ranges)"
  using double_hash_correct [of junk ranges] by simp

lemma limbs_Hash: "limbs_of_bytes 8 (Hash junk a) = limbs_of_bytes 8 (Hash junk b) \<longleftrightarrow> Hash junk a = Hash junk b"
  by (rule limbs_inj) (rule length_Hash)+

lemma SerializeHash_eq:
  "length junk = 64 \<Longrightarrow> SerializeHash junk x = SerializeHash junk y \<longleftrightarrow> double_sha256 x = double_sha256 y"
  by (simp only: SerializeHash_def limbs_Hash) (simp add: Hash_double)

lemma merkle_node_eq:
  "length junk = 64 \<Longrightarrow> merkle_node junk a b = merkle_node junk c d \<longleftrightarrow>
     double_sha256 (Serialize_uint256 a @ Serialize_uint256 b) = double_sha256 (Serialize_uint256 c @ Serialize_uint256 d)"
  by (simp only: merkle_node_def limbs_Hash) (simp add: Hash_double)

lemma pair_up_all: "list_all P xs \<Longrightarrow> (\<And>a b. P (H a b)) \<Longrightarrow> list_all P (pair_up H xs)"
  by (induction H xs rule: pair_up.induct) auto

lemma level_pairs_all: "(a, b) \<in> level_pairs xs \<Longrightarrow> list_all P xs \<Longrightarrow> P a \<and> P b"
  by (induction xs rule: level_pairs.induct) auto

lemma nodes_all:
  assumes "(a, b) \<in> nodes H xs" "list_all P xs" "\<And>a b. P (H a b)"
  shows "P a \<and> P b"
proof -
  have "list_all P (up H k xs)" for k by (induction k) (simp_all add: assms(2,3) pair_up_all)
  then show ?thesis using assms(1) level_pairs_all by (fastforce simp: nodes_def)
qed

lemma nodes_width: "(a, b) \<in> nodes (merkle_node junk) (map (tx_GetHash junk) txs) \<Longrightarrow> WIDTH a = 8 \<and> WIDTH b = 8"
  by (erule nodes_all) (simp_all add: list_all_iff tx_GetHash_def SerializeHash_def merkle_node_def)

lemma node_bytes_inj:
  "WIDTH a = 8 \<Longrightarrow> WIDTH b = 8 \<Longrightarrow> WIDTH c = 8 \<Longrightarrow> WIDTH d = 8 \<Longrightarrow>
     Serialize_uint256 a @ Serialize_uint256 b = Serialize_uint256 c @ Serialize_uint256 d \<longleftrightarrow> a = c \<and> b = d"
  using uint256_codec.prefix_free [of a c "Serialize_uint256 b" "Serialize_uint256 d"] uint256_codec.prefix_free [of b d "[]" "[]"] by auto

lemma node_collision:
  assumes "length junk = 64" "collision (merkle_node junk) (nodes (merkle_node junk) (map (tx_GetHash junk) xs) \<union>
    nodes (merkle_node junk) (map (tx_GetHash junk) ys))"
    and "(\<lambda>(l, r). Serialize_uint256 l @ Serialize_uint256 r) ` (nodes (merkle_node junk) (map (tx_GetHash junk) xs) \<union>
    nodes (merkle_node junk) (map (tx_GetHash junk) ys)) \<subseteq> S"
  shows "\<not> inj_on double_sha256 S"
proof
  assume inj: "inj_on double_sha256 S"
  let ?N = "nodes (merkle_node junk) (map (tx_GetHash junk) xs) \<union> nodes (merkle_node junk) (map (tx_GetHash junk) ys)"
  from assms(2) obtain a b c d where n: "(a, b) \<in> ?N" "(c, d) \<in> ?N" "(a, b) \<noteq> (c, d)" "merkle_node junk a b = merkle_node junk c d"
    by (auto simp: collision_def inj_on_def)
  have "Serialize_uint256 a @ Serialize_uint256 b \<in> S" "Serialize_uint256 c @ Serialize_uint256 d \<in> S"
    using subsetD [OF assms(3) imageI [OF n(1)]] subsetD [OF assms(3) imageI [OF n(2)]] by simp_all
  with inj n(4) merkle_node_eq [OF assms(1)] have "Serialize_uint256 a @ Serialize_uint256 b = Serialize_uint256 c @ Serialize_uint256 d"
    by (meson inj_onD)
  moreover have "WIDTH a = 8" "WIDTH b = 8" "WIDTH c = 8" "WIDTH d = 8" using n(1,2) nodes_width by blast+
  ultimately show False using node_bytes_inj n(3) by auto
qed

lemma txids_commit:
  assumes "length junk = 64" "list_all tx_ok xs" "list_all tx_ok ys" "map (tx_GetHash junk) xs = map (tx_GetHash junk) ys"
    and "inj_on double_sha256 (SerializeTransaction ` (set xs \<union> set ys))"
  shows "xs = ys"
proof (rule map_inj_on [OF assms(4)], rule inj_onI)
  fix x y
  assume x: "x \<in> set xs \<union> set ys" and y: "y \<in> set xs \<union> set ys" and e: "tx_GetHash junk x = tx_GetHash junk y"
  have "SerializeTransaction x = SerializeTransaction y"
    by (rule inj_onD [OF assms(5)]) (use e x y in \<open>auto simp: tx_GetHash_def SerializeHash_eq [OF assms(1)]\<close>)
  moreover have "tx_ok x" "tx_ok y" using x y assms(2,3) by (auto simp: list_all_iff)
  ultimately show "x = y" using transaction_codec.prefix_free [of x y "[]" "[]"] by simp
qed

text \<open>
  C35. A block hash commits to the whole block.  Let two well-formed blocks of version 4 or later have the same hash, let their Merkle
  roots match and be unmutated, as \<open>CheckBlock\<close> demands, and let their trees have the same height.  Then the blocks have the same
  header and the same transactions, or the byte strings that were hashed for the two blocks contain an explicit collision of the double
  SHA-256 hash.\<close>

theorem block_hash_commits:
  assumes "length junk = 64" "block_ok a" "block_ok b" "hdr_nVersion a \<ge> 4" "hdr_nVersion b \<ge> 4"
    and "BlockMerkleRoot junk (block_vtx a) = Some (hdr_hashMerkleRoot a, False)" "BlockMerkleRoot junk (block_vtx b) = Some (hdr_hashMerkleRoot b, False)"
    and "block_vtx a \<noteq> []" "block_vtx b \<noteq> []" "depth (length (block_vtx a)) = depth (length (block_vtx b))"
    and "header_GetHash S junk a = header_GetHash S junk b"
  shows "CBlockHeader.truncate a = CBlockHeader.truncate b \<and> block_vtx a = block_vtx b \<or>
    (\<exists>x y. x \<in> block_preimages junk a \<union> block_preimages junk b \<and> y \<in> block_preimages junk a \<union> block_preimages junk b \<and>
       x \<noteq> y \<and> sha256 (sha256 x) = sha256 (sha256 y))"
proof (rule disjCI)
  assume "\<not> (\<exists>x y. x \<in> block_preimages junk a \<union> block_preimages junk b \<and> y \<in> block_preimages junk a \<union> block_preimages junk b \<and>
       x \<noteq> y \<and> sha256 (sha256 x) = sha256 (sha256 y))"
  then have inj: "inj_on double_sha256 (block_preimages junk a \<union> block_preimages junk b)" by (auto intro: inj_onI)
  have ok: "header_ok (CBlockHeader.truncate a)" "header_ok (CBlockHeader.truncate b)" "list_all tx_ok (block_vtx a)" "list_all tx_ok (block_vtx b)"
    "length (block_vtx a) \<le> 2 ^ 31" "length (block_vtx b) \<le> 2 ^ 31"
    using assms(2,3) by (simp_all add: block_ok_def MAX_SIZE_def)
  have "Serialize_header a = Serialize_header b"
    using assms(1,4,5,11) inj_onD [OF inj, of "Serialize_header a" "Serialize_header b"]
    by (simp add: header_GetHash_def SerializeHash_eq block_preimages_def)
  then have h: "CBlockHeader.truncate a = CBlockHeader.truncate b" using header_codec.prefix_free [OF ok(1,2), of "[]" "[]"] by simp
  then have "hdr_hashMerkleRoot a = hdr_hashMerkleRoot b" by (simp add: CBlockHeader.defs)
  moreover have "\<not> collision (merkle_node junk) (nodes (merkle_node junk) (map (tx_GetHash junk) (block_vtx a)) \<union>
      nodes (merkle_node junk) (map (tx_GetHash junk) (block_vtx b)))"
  proof
    assume c: "collision (merkle_node junk) (nodes (merkle_node junk) (map (tx_GetHash junk) (block_vtx a)) \<union>
      nodes (merkle_node junk) (map (tx_GetHash junk) (block_vtx b)))"
    have "\<not> inj_on double_sha256 (block_preimages junk a \<union> block_preimages junk b)"
      by (rule node_collision [OF assms(1) c]) (auto simp: block_preimages_def)
    then show False using inj by contradiction
  qed
  ultimately have "map (tx_GetHash junk) (block_vtx a) = map (tx_GetHash junk) (block_vtx b)"
    using ComputeMerkleRoot_commits [of junk "map (tx_GetHash junk) (block_vtx a)" "hdr_hashMerkleRoot a" "map (tx_GetHash junk) (block_vtx b)"]
      assms(6-10) ok(5,6) by (simp add: BlockMerkleRoot_def)
  then have "block_vtx a = block_vtx b"
    using txids_commit [OF assms(1) ok(3,4)] inj_on_subset [OF inj, of "SerializeTransaction ` (set (block_vtx a) \<union> set (block_vtx b))"]
    by (auto simp: block_preimages_def)
  with h show "CBlockHeader.truncate a = CBlockHeader.truncate b \<and> block_vtx a = block_vtx b" by simp
qed

definition sample_block :: CBlock where
  "sample_block = block_null\<lparr>hdr_nVersion := 5, hdr_hashMerkleRoot := tx_GetHash (replicate 64 0) example_tx, block_vtx := [example_tx]\<rparr>"

lemma sample_block_ok: "block_ok sample_block"
  by (simp add: sample_block_def block_ok_def block_null_def block_of_header_def CBlockHeader.defs header_null_def header_ok_def
      in_int32_def tx_GetHash_def SerializeHash_def base_uint_zero_def block_IsProofOfStake_def vtx_proof_of_stake_def
      example_tx_def tx_ok_def CTransaction_new_def in_int16_def txin_ok_def txin_new_def outpoint_ok_def
      outpoint_null_def txout_ok_def txout_new_def in_int64_def isSaplingVersion_def IsNormalType_def sapling_ok_def
      SaplingTxData_new_def MAX_SIZE_def header_CURRENT_VERSION_def)

text \<open>Two blocks that differ in the lock time of their transaction: the hash tells them apart, or there is a collision.\<close>

definition sample_block2 :: CBlock where
  "sample_block2 = block_null\<lparr>hdr_nVersion := 5, hdr_hashMerkleRoot := tx_GetHash (replicate 64 0) (example_tx\<lparr>nLockTime := 7\<rparr>),
     block_vtx := [example_tx\<lparr>nLockTime := 7\<rparr>]\<rparr>"

lemma sample_block2_ok: "block_ok sample_block2"
  by (simp add: sample_block2_def block_ok_def block_null_def block_of_header_def CBlockHeader.defs header_null_def header_ok_def
      in_int32_def tx_GetHash_def SerializeHash_def base_uint_zero_def block_IsProofOfStake_def vtx_proof_of_stake_def
      example_tx_def tx_ok_def CTransaction_new_def in_int16_def txin_ok_def txin_new_def outpoint_ok_def
      outpoint_null_def txout_ok_def txout_new_def in_int64_def isSaplingVersion_def IsNormalType_def sapling_ok_def
      SaplingTxData_new_def MAX_SIZE_def header_CURRENT_VERSION_def)

theorem block_hash_commits_witness:
  "let S = \<lparr>sph_blake512 = id, sph_bmw512 = id, sph_groestl512 = id, sph_jh512 = id, sph_keccak512 = id, sph_skein512 = id\<rparr>; junk = replicate 64 0
   in inj_on (header_GetHash S junk) {sample_block, sample_block2} \<or>
     (\<exists>x y. x \<in> block_preimages junk sample_block \<union> block_preimages junk sample_block2 \<and>
        y \<in> block_preimages junk sample_block \<union> block_preimages junk sample_block2 \<and> x \<noteq> y \<and> sha256 (sha256 x) = sha256 (sha256 y))"
proof -
  let ?S = "\<lparr>sph_blake512 = id, sph_bmw512 = id, sph_groestl512 = id, sph_jh512 = id, sph_keccak512 = id, sph_skein512 = id\<rparr>"
  let ?j = "replicate 64 0 :: byte list"
  have j: "length ?j = 64" by simp
  have r: "BlockMerkleRoot ?j (block_vtx sample_block) = Some (hdr_hashMerkleRoot sample_block, False)"
    "BlockMerkleRoot ?j (block_vtx sample_block2) = Some (hdr_hashMerkleRoot sample_block2, False)"
    by (simp_all add: sample_block_def sample_block2_def BlockMerkleRoot_def ComputeMerkleRoot_def MerkleComputation_def merkle_top.simps climb.simps
        lowest_level.simps push_branch_def numeral_eq_Suc)
  have v: "hdr_nVersion sample_block \<ge> 4" "hdr_nVersion sample_block2 \<ge> 4" "block_vtx sample_block \<noteq> []" "block_vtx sample_block2 \<noteq> []"
    "depth (length (block_vtx sample_block)) = depth (length (block_vtx sample_block2))" "block_vtx sample_block \<noteq> block_vtx sample_block2"
    by (simp_all add: sample_block_def sample_block2_def example_tx_def CTransaction_new_def)
  show ?thesis
  proof (cases "header_GetHash ?S ?j sample_block = header_GetHash ?S ?j sample_block2")
    case True
    from block_hash_commits [OF j sample_block_ok sample_block2_ok v(1,2) r v(3,4,5) True] v(6) show ?thesis unfolding Let_def by simp
  next
    case False
    then show ?thesis unfolding Let_def by (simp add: inj_on_def)
  qed
qed

section \<open>The supply\<close>

definition base_reward :: "int \<Rightarrow> CAmount" where
  "base_reward h = (if h > 2000 then 150 else if h > 1 then 3 * COIN else if h > 0 then 1000 * COIN else 0)"

lemma length_reward_heights: "length reward_heights = 25"
  by (simp add: reward_heights_def)

lemma dev_payment_other: "h \<notin> set hl \<Longrightarrow> dev_payment_chain hl h = 0"
  by (induction hl) auto

lemma block_value_split:
  "sorted_wrt (>) hl \<Longrightarrow> list_all (\<lambda>x. x > 2000) hl \<Longrightarrow> block_value_chain hl h = base_reward h + dev_payment_chain hl h"
proof (induction hl)
  case (Cons x hl)
  have "h > x \<Longrightarrow> dev_payment_chain hl h = 0" using Cons.prems by (intro dev_payment_other) auto
  then show ?case using Cons by (auto simp: base_reward_def COIN_def)
qed (simp add: base_reward_def)

lemma GetBlockValue_split: "GetBlockValue False h = base_reward h + GetDevPayment h"
proof -
  have "sorted_wrt (>) reward_heights" "list_all (\<lambda>x. x > 2000) reward_heights" by (simp_all add: reward_heights_def)
  from block_value_split [OF this] show ?thesis by (simp add: GetBlockValue_def GetDevPayment_def)
qed

lemma dev_payments_total:
  "distinct hl \<Longrightarrow> list_all (\<lambda>x. 0 \<le> x) hl \<Longrightarrow> (\<Sum>h = 0..H. dev_payment_chain hl h) = 100 * COIN * int (length (filter (\<lambda>x. x \<le> H) hl))" for H :: int
proof (induction hl)
  case (Cons x hl)
  have "dev_payment_chain hl x = 0" using Cons.prems by (intro dev_payment_other) simp
  then have "(\<Sum>h = 0..H. dev_payment_chain (x # hl) h) = (\<Sum>h = 0..H. (if h = x then 100 * COIN else 0) + dev_payment_chain hl h)"
    by (intro sum.cong) auto
  also have "\<dots> = (if x \<le> H then 100 * COIN else 0) + (\<Sum>h = 0..H. dev_payment_chain hl h)" using Cons.prems by (simp add: sum.distrib)
  finally show ?case using Cons by (simp add: algebra_simps)
qed simp

lemma base_rewards_total:
  "0 \<le> H \<Longrightarrow> (\<Sum>h = 0..H. base_reward h) = (if 1 \<le> H then 1000 * COIN else 0) + 3 * COIN * max 0 (min H 2000 - 1) + 150 * max 0 (H - 2000)" for H :: int
proof (induction H rule: int_ge_induct)
  case (step i)
  have "{0..i + 1} = insert (i + 1) {0..i}" using step(1) by auto
  then have "(\<Sum>h = 0..i + 1. base_reward h) = base_reward (i + 1) + (\<Sum>h = 0..i. base_reward h)" by simp
  moreover have "base_reward (i + 1) = (if i = 0 then 1000 * COIN else if i < 2000 then 3 * COIN else 150)" using step(1) by (simp add: base_reward_def)
  ultimately show ?case using step by (auto simp: max_def min_def COIN_def)
qed (simp add: base_reward_def)

lemma rewards_closed_form:
  assumes "0 \<le> H"
  shows "(\<Sum>h = 0..H. GetBlockValue False h) = (if 1 \<le> H then 1000 * COIN else 0) + 3 * COIN * max 0 (min H 2000 - 1) + 150 * max 0 (H - 2000) +
    100 * COIN * int (length (filter (\<lambda>x. x \<le> H) reward_heights))"
proof -
  have "distinct reward_heights" "list_all (\<lambda>x. 0 \<le> x) reward_heights" by (simp_all add: reward_heights_def)
  from dev_payments_total [OF this, of H] base_rewards_total [OF assms] show ?thesis by (simp add: GetBlockValue_split sum.distrib GetDevPayment_def)
qed

text \<open>
  C36. The rewards of the main network and their sum.  Outside of the regression test network the rewards of the blocks 0 to \<open>H\<close> add up to 1000 coins for block 1, 3 coins
  for each of the blocks 2 to 2000, 150 units for each later block, and 100 coins for each of the 25 developer heights up to \<open>H\<close>.  For heights that fit in
  32 bits the sum is within the money supply limit of the main network.\<close>

theorem rewards_within_supply:
  assumes "0 \<le> H" "H < 2 ^ 31"
  shows "(\<Sum>h = 0..H. GetBlockValue False h) = (if 1 \<le> H then 1000 * COIN else 0) + 3 * COIN * max 0 (min H 2000 - 1) + 150 * max 0 (H - 2000) +
      100 * COIN * int (length (filter (\<lambda>x. x \<le> H) reward_heights)) \<and>
    (\<Sum>h = 0..H. GetBlockValue False h) \<le> nMaxMoneyOut main_params"
proof -
  have "x + 3 * COIN * a + 150 * b + 100 * COIN * n \<le> 100000 * COIN" if "x \<le> 1000 * COIN" "a \<le> 1999" "b \<le> 2 ^ 31" "n \<le> 25" for x a b n :: int
    using that by (simp add: COIN_def)
  moreover have "int (length (filter (\<lambda>x. x \<le> H) reward_heights)) \<le> 25"
    using length_filter_le [of "\<lambda>x. x \<le> H" reward_heights] length_reward_heights by simp
  moreover have "max 0 (min H 2000 - 1) \<le> 1999" "max 0 (H - 2000) \<le> 2 ^ 31" "(if 1 \<le> H then 1000 * COIN else 0) \<le> 1000 * COIN"
    using assms(2) by (simp_all add: COIN_def)
  ultimately have "(\<Sum>h = 0..H. GetBlockValue False h) \<le> 100000 * COIN" unfolding rewards_closed_form [OF assms(1)] by blast
  then have "(\<Sum>h = 0..H. GetBlockValue False h) \<le> nMaxMoneyOut main_params" by (simp add: main_params_def)
  then show ?thesis using rewards_closed_form [OF assms(1)] by simp
qed

text \<open>The sum up to block 259200 is 6997.3858 coins; \<open>subsidy_limit_test\<close> in \<open>test/main_tests.cpp\<close> expects 41099751 coins.\<close>

theorem rewards_within_supply_witness:
  "(\<Sum>h = 0..259200. GetBlockValue False h) = 699738580000 \<and> (\<Sum>h = 0..2100000000. GetBlockValue False h) = 1264699700000"
  using rewards_within_supply [of 259200] rewards_within_supply [of 2100000000] by (simp add: COIN_def reward_heights_def)

end
