(* ===== verification/BlockCheck.thy ===== *)
theory BlockCheck
  imports Block
begin

unbundle bit_operations_syntax

text \<open>
  The checks of a block before it is connected: \<open>CheckBlockSignature\<close> of \<open>src/src/blocksignature.cpp\<close>, the spork values of
  \<open>src/src/spork.cpp\<close>, \<open>IsInitialBlockDownload\<close> and \<open>CheckColdStakeFreeOutput\<close> to \<open>ContextualCheckBlock\<close> of
  \<open>src/src/validation.cpp\<close>, and \<open>ContextualCheckTransaction\<close> of \<open>src/src/sapling/sapling_validation.cpp\<close>.  The state of the node a check
  reads is a record; in it, what the masternode and budget services answer and what \<open>GetTransaction\<close> finds are values.  The map
  \<open>mapRejectedBlocks\<close>, which is written but never read, is left out.
\<close>

section \<open>Results\<close>

text \<open>
  \<open>Invalid\<close> carries the ban score, the reason and whether corruption is possible; \<open>Abort\<close> is a run-time error (\<open>state.Error\<close>,
  \<open>AbortNode\<close>); \<open>Crash\<close> is a failed assertion, an access outside of an object, or an exception the function does not catch.
\<close>

datatype crash = AssertionFailed | OutOfBounds | MerkleCounterWrapped | Thrown value_error | CoinsThrown coins_error | SigHashThrown | TreeIsFull

datatype 'a outcome = Pass 'a | Invalid nat string bool | ReturnFalse | Abort string | Crash crash

fun obind :: "'a outcome \<Rightarrow> ('a \<Rightarrow> 'b outcome) \<Rightarrow> 'b outcome" where
  "obind (Pass x) f = f x"
| "obind (Invalid n r c) f = Invalid n r c"
| "obind ReturnFalse f = ReturnFalse"
| "obind (Abort m) f = Abort m"
| "obind (Crash c) f = Crash c"

lemma obind_Pass: "obind m f = Pass y \<longleftrightarrow> (\<exists>x. m = Pass x \<and> f x = Pass y)"
  by (cases m) simp_all

fun opt_outcome :: "crash \<Rightarrow> 'a option \<Rightarrow> 'a outcome" where
  "opt_outcome c None = Crash c"
| "opt_outcome c (Some x) = Pass x"

lemma opt_outcome_Pass [simp]: "opt_outcome c x = Pass y \<longleftrightarrow> x = Some y"
  by (cases x) auto

section \<open>Sporks\<close>

definition SPORK_5_MAX_VALUE :: nat where "SPORK_5_MAX_VALUE = 10004"
definition SPORK_8_MASTERNODE_PAYMENT_ENFORCEMENT :: nat where "SPORK_8_MASTERNODE_PAYMENT_ENFORCEMENT = 10007"
definition SPORK_9_MASTERNODE_BUDGET_ENFORCEMENT :: nat where "SPORK_9_MASTERNODE_BUDGET_ENFORCEMENT = 10008"
definition SPORK_13_ENABLE_SUPERBLOCKS :: nat where "SPORK_13_ENABLE_SUPERBLOCKS = 10012"
definition SPORK_14_NEW_PROTOCOL_ENFORCEMENT :: nat where "SPORK_14_NEW_PROTOCOL_ENFORCEMENT = 10013"
definition SPORK_15_NEW_PROTOCOL_ENFORCEMENT_2 :: nat where "SPORK_15_NEW_PROTOCOL_ENFORCEMENT_2 = 10014"
definition SPORK_19_COLDSTAKING_MAINTENANCE :: nat where "SPORK_19_COLDSTAKING_MAINTENANCE = 10019"
definition SPORK_20_SAPLING_MAINTENANCE :: nat where "SPORK_20_SAPLING_MAINTENANCE = 10020"

definition sporkDefs :: "(nat \<times> int) list" where
  "sporkDefs = [(SPORK_5_MAX_VALUE, 1000), (SPORK_8_MASTERNODE_PAYMENT_ENFORCEMENT, 4070908800),
     (SPORK_9_MASTERNODE_BUDGET_ENFORCEMENT, 4070908800), (SPORK_13_ENABLE_SUPERBLOCKS, 4070908800),
     (SPORK_14_NEW_PROTOCOL_ENFORCEMENT, 4070908800), (SPORK_15_NEW_PROTOCOL_ENFORCEMENT_2, 4070908800),
     (SPORK_19_COLDSTAKING_MAINTENANCE, 4070908800), (SPORK_20_SAPLING_MAINTENANCE, 4070908800)]"

definition GetSporkValue :: "(nat \<rightharpoonup> int) \<Rightarrow> nat \<Rightarrow> int" where
  "GetSporkValue mapSporksActive sporkId =
     (case mapSporksActive sporkId of Some v \<Rightarrow> v | None \<Rightarrow> (case map_of sporkDefs sporkId of Some v \<Rightarrow> v | None \<Rightarrow> - 1))"

definition IsSporkActive :: "(nat \<rightharpoonup> int) \<Rightarrow> int \<Rightarrow> nat \<Rightarrow> bool" where
  "IsSporkActive mapSporksActive adjustedTime sporkId \<longleftrightarrow> GetSporkValue mapSporksActive sporkId < adjustedTime"

section \<open>The state of the node\<close>

datatype TrxValidationStatus = TrxInValid | TrxValid | TrxDoublePayment | TrxVoteThreshold

record node_state =
  nd_consensus :: Params
  nd_fRegTest :: bool
  nd_fTestnet :: bool
  nd_hashGenesisBlock :: uint256
  nd_checkpoints :: MapCheckpoints
  nd_fCheckpoints :: bool
  nd_newP2CSRules :: bool
  nd_maxreorg :: int
  nd_adjustedTime :: int
  nd_index :: index_store
  nd_mapBlockIndex :: "uint256 \<rightharpoonup> ptr"
  nd_chainActive :: CChain
  nd_fInitialBlockDownload :: bool
  nd_mapSporksActive :: "nat \<rightharpoonup> int"
  nd_mnSynced :: bool
  nd_IsBudgetPaymentBlock :: "int \<Rightarrow> bool"
  nd_GetTotalBudget :: "int \<Rightarrow> CAmount"
  nd_GetExpectedPayeeAmount :: "int \<Rightarrow> CAmount option"
  nd_BudgetIsTransactionValid :: "CTransaction \<Rightarrow> uint256 \<Rightarrow> int \<Rightarrow> TrxValidationStatus"
  nd_MnIsTransactionValid :: "CTransaction \<Rightarrow> int \<Rightarrow> bool"
  nd_GetTransaction :: "uint256 \<Rightarrow> CTransaction option"
  nd_sph :: sph_hashes
  nd_junk :: "byte list"
  nd_ecdsa :: ecdsa_fun
  nd_blake2b :: blake2b_fun
  nd_lowS :: "valtype \<Rightarrow> bool"

abbreviation nd_spork :: "node_state \<Rightarrow> nat \<Rightarrow> bool" where
  "nd_spork N \<equiv> IsSporkActive (nd_mapSporksActive N) (nd_adjustedTime N)"

abbreviation nd_hash :: "node_state \<Rightarrow> CBlock \<Rightarrow> uint256" where
  "nd_hash N b \<equiv> header_GetHash (nd_sph N) (nd_junk N) b"

text \<open>\<open>latch\<close> is \<open>latchToFalse\<close>; \<open>fBusy\<close> is \<open>fImporting || fReindex || fVerifyingBlocks\<close>.\<close>

definition IsInitialBlockDownload ::
  "bool \<Rightarrow> bool \<Rightarrow> int \<Rightarrow> int \<Rightarrow> CBlockIndex \<Rightarrow> int \<Rightarrow> int \<Rightarrow> bool \<times> bool" where
  "IsInitialBlockDownload latch fBusy chainHeight estimate bestHeader now nMaxTipAge =
     (if latch then (False, latch)
      else if fBusy \<or> chainHeight < estimate then (True, latch)
      else let state = (chainHeight < nHeight bestHeader - 24 * 6 \<or> GetBlockTime bestHeader < now - nMaxTipAge)
           in (state, if \<not> state then True else latch))"

section \<open>Block signatures\<close>

text \<open>
  The key that signs a block: \<open>None\<close> is a read outside of \<open>scriptSig\<close>, \<open>Some None\<close> the early return of \<open>false\<close>.
\<close>

definition block_pubkey :: "txnouttype \<Rightarrow> valtype list \<Rightarrow> CScript \<Rightarrow> CPubKey option option" where
  "block_pubkey whichType vSolutions sig =
     (if whichType = TX_PUBKEY then Some (Some (pk_Set (vSolutions ! 0)))
      else if whichType = TX_PUBKEYHASH
      then (if length sig = 73 then Some None
            else if sig = [] then None
            else let start = 1 + unat (sig ! 0)
                 in if start + 1 > length sig then None else Some (Some (pk_Set (drop (start + 1) sig))))
      else if whichType = TX_COLDSTAKE
      then (if sig = [] then None
            else let start = 1 + unat (sig ! 0)
                 in if start \<ge> length sig then None
                    else let start = start + 1 + unat (sig ! start)
                         in if start + 1 > length sig then None else Some (Some (pk_Set (drop (start + 1) sig))))
      else Some (Some []))"

definition CheckBlockSignature :: "node_state \<Rightarrow> CBlock \<Rightarrow> bool option" where
  "CheckBlockSignature N b =
     (if block_IsProofOfWork b then Some (vchBlockSig b = [])
      else if vchBlockSig b = [] then Some False
      else case Solver (nd_newP2CSRules N) (scriptPubKey (vout (block_vtx b ! 1) ! 1)) of
        None \<Rightarrow> Some False
      | Some (whichType, vSolutions) \<Rightarrow>
          (case block_pubkey whichType vSolutions (scriptSig (vin (block_vtx b ! 1) ! 0)) of
             None \<Rightarrow> None
           | Some None \<Rightarrow> Some False
           | Some (Some pubkey) \<Rightarrow> if \<not> pk_IsValid pubkey then Some False else Some (nd_ecdsa N (nd_hash N b) (vchBlockSig b) pubkey)))"

section \<open>CheckBlock\<close>

definition MAX_BLOCK_SIZE_LEGACY :: nat where "MAX_BLOCK_SIZE_LEGACY = 1000000"
definition MAX_BLOCK_SHIELDED_TXES_SIZE :: nat where "MAX_BLOCK_SHIELDED_TXES_SIZE = 750000"
definition MAX_BLOCK_SIGOPS_CURRENT :: nat where "MAX_BLOCK_SIGOPS_CURRENT = MAX_BLOCK_SIZE_CURRENT div 50"
definition MAX_BLOCK_SIGOPS_LEGACY :: nat where "MAX_BLOCK_SIGOPS_LEGACY = MAX_BLOCK_SIZE_LEGACY div 50"

text \<open>\<open>None\<close> is an access to the outputs of the previous transaction out of range.\<close>

definition CheckColdStakeFreeOutput :: "node_state \<Rightarrow> CTransaction \<Rightarrow> int \<Rightarrow> bool option" where
  "CheckColdStakeFreeOutput N tx height =
     (if \<not> HasP2CSOutputs (nd_newP2CSRules N) tx then Some True
      else let outs = length (vout tx); lastOut = vout tx ! (outs - 1)
        in if outs \<ge> 3 \<and> scriptPubKey lastOut \<noteq> scriptPubKey (vout tx ! (outs - 2))
           then (if nValue lastOut = GetMasternodePayment (nd_consensus N) height then Some True
             else if nd_fRegTest N then Some False
             else if \<not> nd_mnSynced N
             then (case nd_GetTransaction N (op_hash (prevout (vin tx ! 0))) of
                     None \<Rightarrow> Some False
                   | Some txPrev \<Rightarrow>
                       let n = unat (op_n (prevout (vin tx ! 0)))
                       in if n \<ge> length (vout txPrev) then None
                          else let amtIn = wrap64 (nValue (vout txPrev ! n) + GetBlockValue (nd_fRegTest N) height);
                                   amtOut = foldl (\<lambda>a o1. wrap64 (a + nValue o1)) 0 (drop 1 (butlast (vout tx)))
                               in Some (amtOut = amtIn))
             else if nd_IsBudgetPaymentBlock N height then Some (nd_spork N SPORK_13_ENABLE_SUPERBLOCKS)
             else Some False)
           else Some True)"

definition GetTotalShieldedTxSize :: "CBlock \<Rightarrow> nat" where
  "GetTotalShieldedTxSize b = sum_list (map (\<lambda>tx. if IsShieldedTx tx then GetTotalSize tx else 0) (block_vtx b)) mod 2 ^ 32"

definition check_merkle :: "node_state \<Rightarrow> CBlock \<Rightarrow> unit outcome" where
  "check_merkle N b = obind (opt_outcome MerkleCounterWrapped (BlockMerkleRoot (nd_junk N) (block_vtx b))) (\<lambda>(root, mutated).
     if hdr_hashMerkleRoot b \<noteq> root then Invalid 100 ''bad-txnmrklroot'' True
     else if mutated then Invalid 100 ''bad-txns-duplicate'' True
     else Pass ())"

definition check_layout :: "CBlock \<Rightarrow> unit outcome" where
  "check_layout b =
     (let nBlockSize = length (Serialize_block b) mod 2 ^ 32; txs = block_vtx b in
      if txs = [] \<or> length txs > MAX_BLOCK_SIZE_CURRENT \<or> nBlockSize > MAX_BLOCK_SIZE_CURRENT then Invalid 100 ''bad-blk-length'' False
      else if nBlockSize > MAX_BLOCK_SHIELDED_TXES_SIZE \<and> GetTotalShieldedTxSize b > MAX_BLOCK_SHIELDED_TXES_SIZE
      then Invalid 100 ''bad-blk-shielded-size'' False
      else if txs = [] \<or> \<not> IsCoinBase (txs ! 0) then Invalid 100 ''bad-cb-missing'' False
      else if list_ex IsCoinBase (drop 1 txs) then Invalid 100 ''bad-cb-multiple'' False
      else if block_IsProofOfStake b
      then (if length (vout (txs ! 0)) \<noteq> 1 \<or> \<not> txout_IsEmpty (vout (txs ! 0) ! 0) then Invalid 100 ''bad-cb-pos'' False
            else if txs = [] \<or> \<not> IsCoinStake (txs ! 1) then Invalid 100 ''bad-cs-missing'' False
            else if list_ex IsCoinStake (drop 2 txs) then Invalid 100 ''bad-cs-multiple'' False
            else Pass ())
      else Pass ())"

text \<open>The height of the block (0 when it is not known) and whether cold staking is accepted.\<close>

definition block_height :: "node_state \<Rightarrow> CBlock \<Rightarrow> CBlockIndex \<Rightarrow> int option" where
  "block_height N b tip =
     (if phashBlock tip = hdr_hashPrevBlock b then Some (nHeight tip + 1)
      else case nd_mapBlockIndex N (hdr_hashPrevBlock b) of
        None \<Rightarrow> Some 0
      | Some p \<Rightarrow> map_option (\<lambda>prev. nHeight prev + 1) (nd_index N p))"

definition check_coldstaking :: "node_state \<Rightarrow> CBlock \<Rightarrow> bool outcome" where
  "check_coldstaking N b =
     obind (opt_outcome OutOfBounds (Tip (nd_index N) (nd_chainActive N) False)) (\<lambda>tip.
       case tip of
         None \<Rightarrow> Pass True
       | Some p \<Rightarrow>
           obind (opt_outcome OutOfBounds (nd_index N p)) (\<lambda>pindexPrev.
           obind (opt_outcome OutOfBounds (block_height N b pindexPrev)) (\<lambda>height.
             if height \<noteq> 0 \<and> \<not> nd_fInitialBlockDownload N
             then obind (if block_IsProofOfStake b then opt_outcome OutOfBounds (CheckColdStakeFreeOutput N (block_vtx b ! 1) height) else Pass True) (\<lambda>ok.
               if \<not> ok then Invalid 0 ''bad-p2cs-outs'' False
               else Pass (\<not> nd_spork N SPORK_19_COLDSTAKING_MAINTENANCE))
             else Pass True)))"

fun check_transactions :: "node_state \<Rightarrow> bool \<Rightarrow> bool \<Rightarrow> CTransaction list \<Rightarrow> unit outcome" where
  "check_transactions N fColdStakingActive fSaplingActive [] = Pass ()"
| "check_transactions N fColdStakingActive fSaplingActive (tx # rest) =
     (case CheckTransaction (nd_consensus N) (nd_newP2CSRules N) tx fColdStakingActive fSaplingActive of
        Accept _ \<Rightarrow> check_transactions N fColdStakingActive fSaplingActive rest
      | Reject n r \<Rightarrow> Invalid n r False
      | RejectSilent \<Rightarrow> Invalid 0 [] False)"

definition CheckBlock :: "node_state \<Rightarrow> bool \<Rightarrow> bool \<Rightarrow> bool \<Rightarrow> CBlock \<Rightarrow> CBlock outcome" where
  "CheckBlock N fCheckPOW fCheckMerkleRoot fCheckSig b =
     (if fChecked b then Pass b
      else if \<not> block_IsProofOfStake b \<and> fCheckPOW \<and> \<not> CheckProofOfWork (nd_consensus N) (nd_fRegTest N) (nd_hash N b) (hdr_nBits b)
      then Invalid 50 ''high-hash'' False
      else obind (if fCheckMerkleRoot then check_merkle N b else Pass ()) (\<lambda>_.
        obind (check_layout b) (\<lambda>_.
        obind (check_coldstaking N b) (\<lambda>fColdStakingActive.
        obind (check_transactions N fColdStakingActive
                 (NetworkUpgradeActive (nd_consensus N) (Height (nd_chainActive N) + 1) UPGRADE_V5_0) (block_vtx b)) (\<lambda>_.
        if sum_list (map GetLegacySigOpCount (block_vtx b)) mod 2 ^ 32 > MAX_BLOCK_SIGOPS_LEGACY then Invalid 100 ''bad-blk-sigops'' True
        else obind (if fCheckSig then opt_outcome OutOfBounds (CheckBlockSignature N b) else Pass True) (\<lambda>ok.
          if \<not> ok then Invalid 100 ''bad-PoS-sig'' True
          else Pass (if fCheckPOW \<and> fCheckMerkleRoot \<and> fCheckSig then b\<lparr>fChecked := True\<rparr> else b)))))))"

section \<open>Contextual checks\<close>

definition CheckBlockTime :: "node_state \<Rightarrow> ('a CBlockHeader_scheme) \<Rightarrow> ptr \<Rightarrow> unit outcome" where
  "CheckBlockTime N h p =
     (if nd_fRegTest N then Pass ()
      else obind (opt_outcome OutOfBounds (nd_index N p)) (\<lambda>pindexPrev.
        if header_GetBlockTime h > MaxFutureBlockTime (nd_consensus N) (nd_adjustedTime N) pindexPrev then Invalid 0 ''time-too-new'' False
        else obind (opt_outcome OutOfBounds (MinPastBlockTime (nd_consensus N) (nd_index N) p)) (\<lambda>past.
          if header_GetBlockTime h \<le> past then Invalid 50 ''time-too-old'' False
          else if \<not> IsValidBlockTimeStamp (nd_consensus N) (header_GetBlockTime h) (nHeight pindexPrev + 1) then Invalid 100 ''invalid-time-mask'' False
          else Pass ())))"

definition outdated_version :: "Params \<Rightarrow> int \<Rightarrow> int \<Rightarrow> bool" where
  "outdated_version consensus version height \<longleftrightarrow>
     (version < 3 \<and> height \<ge> 1) \<or> (version < 5 \<and> NetworkUpgradeActive consensus height UPGRADE_BIP65) \<or>
     (version < 6 \<and> NetworkUpgradeActive consensus height UPGRADE_V3_4) \<or>
     (version < 7 \<and> NetworkUpgradeActive consensus height UPGRADE_V4_0) \<or>
     (version < 8 \<and> NetworkUpgradeActive consensus height UPGRADE_V5_0)"

definition ContextualCheckBlockHeader :: "node_state \<Rightarrow> ('a CBlockHeader_scheme) \<Rightarrow> ptr option \<Rightarrow> unit outcome" where
  "ContextualCheckBlockHeader N h prev =
     (let hash = header_GetHash (nd_sph N) (nd_junk N) h in
      if hash = nd_hashGenesisBlock N then Pass ()
      else obind (opt_outcome AssertionFailed prev) (\<lambda>p.
        obind (opt_outcome OutOfBounds (nd_index N p)) (\<lambda>pindexPrev.
        let height = nHeight pindexPrev + 1 in
        if Height (nd_chainActive N) - height \<ge> nd_maxreorg N then Invalid 1 [] False
        else obind (CheckBlockTime N h p) (\<lambda>_.
          if \<not> Checkpoints_CheckBlock (nd_fCheckpoints N) (nd_checkpoints N) height hash False then Invalid 100 ''checkpoint mismatch'' False
          else obind (case GetLastCheckpoint (nd_fCheckpoints N) (nd_checkpoints N) (nd_mapBlockIndex N) of
                        None \<Rightarrow> Pass False
                      | Some q \<Rightarrow> obind (opt_outcome OutOfBounds (nd_index N q)) (\<lambda>pcheckpoint. Pass (height < nHeight pcheckpoint))) (\<lambda>old.
            if old then Invalid 0 [] False
            else if outdated_version (nd_consensus N) (hdr_nVersion h) height then Invalid 0 ''bad-version'' False
            else Pass ())))))"

text \<open>The proof verifier of librustzcash; its context collects the value commitments.\<close>

record 'c sapling_verifier =
  verification_ctx_init :: 'c
  sapling_check_spend :: "'c \<Rightarrow> SpendDescription \<Rightarrow> uint256 \<Rightarrow> bool \<times> 'c"
  sapling_check_output :: "'c \<Rightarrow> uint256 \<Rightarrow> uint256 \<Rightarrow> uint256 \<Rightarrow> byte list \<Rightarrow> bool \<times> 'c"
  sapling_final_check :: "'c \<Rightarrow> CAmount \<Rightarrow> byte list \<Rightarrow> uint256 \<Rightarrow> bool"

fun check_spends :: "'c sapling_verifier \<Rightarrow> uint256 \<Rightarrow> SpendDescription list \<Rightarrow> 'c \<Rightarrow> 'c option" where
  "check_spends Z dataToBeSigned [] ctx = Some ctx"
| "check_spends Z dataToBeSigned (spend # rest) ctx =
     (case sapling_check_spend Z ctx spend dataToBeSigned of (ok, ctx') \<Rightarrow> if \<not> ok then None else check_spends Z dataToBeSigned rest ctx')"

fun check_output_proofs :: "'c sapling_verifier \<Rightarrow> OutputDescription list \<Rightarrow> 'c \<Rightarrow> 'c option" where
  "check_output_proofs Z [] ctx = Some ctx"
| "check_output_proofs Z (out # rest) ctx =
     (case sapling_check_output Z ctx (output_cv out) (output_cmu out) (output_ephemeralKey out) (output_zkproof out) of
        (ok, ctx') \<Rightarrow> if \<not> ok then None else check_output_proofs Z rest ctx')"

definition ContextualCheckTransaction ::
  "'c sapling_verifier \<Rightarrow> blake2b_fun \<Rightarrow> byte list \<Rightarrow> Params \<Rightarrow> CTransaction \<Rightarrow> int \<Rightarrow> bool \<Rightarrow> bool \<Rightarrow> unit outcome" where
  "ContextualCheckTransaction Z blake2b junk consensus tx height isMined isInitBlockDownload =
     (let dosLevelConstricting = (if isMined then 100 else 10);
          dosLevelPotentiallyRelaxing = (if isMined then 100 else if isInitBlockDownload then 0 else 10) in
      if \<not> NetworkUpgradeActive consensus height UPGRADE_V5_0 then Pass ()
      else if \<not> isSaplingVersion tx \<and> hasSaplingData tx then Invalid dosLevelConstricting ''bad-tx-sapling-version-too-low'' False
      else if (IsCoinBase tx \<or> IsCoinStake tx) \<and> hasSaplingData tx then Invalid dosLevelPotentiallyRelaxing ''bad-cs-has-shielded-data'' False
      else case (if hasSaplingData tx then sapData tx else None) of
        None \<Rightarrow> Pass ()
      | Some d \<Rightarrow>
          (case SignatureHash blake2b junk [] tx NOT_AN_INPUT SIGHASH_ALL 0 SIGVERSION_SAPLING None of
             Inl WrongSigVersion \<Rightarrow> Invalid 100 ''error-computing-signature-hash'' False
           | Inl AssertNotAnInput \<Rightarrow> Crash AssertionFailed
           | Inr dataToBeSigned \<Rightarrow>
               (case check_spends Z dataToBeSigned (vShieldedSpend d) (verification_ctx_init Z) of
                  None \<Rightarrow> Invalid dosLevelPotentiallyRelaxing ''bad-txns-sapling-spend-description-invalid'' False
                | Some ctx \<Rightarrow>
                    (case check_output_proofs Z (vShieldedOutput d) ctx of
                       None \<Rightarrow> Invalid 100 ''bad-txns-sapling-output-description-invalid'' False
                     | Some ctx' \<Rightarrow>
                         if \<not> sapling_final_check Z ctx' (valueBalance d) (bindingSig d) dataToBeSigned
                         then Invalid dosLevelPotentiallyRelaxing ''bad-txns-sapling-binding-signature-invalid'' False
                         else Pass ()))))"

fun contextual_transactions :: "'c sapling_verifier \<Rightarrow> node_state \<Rightarrow> int \<Rightarrow> int \<Rightarrow> CTransaction list \<Rightarrow> unit outcome" where
  "contextual_transactions Z N height blockTime [] = Pass ()"
| "contextual_transactions Z N height blockTime (tx # rest) =
     obind (ContextualCheckTransaction Z (nd_blake2b N) (nd_junk N) (nd_consensus N) tx height True (nd_fInitialBlockDownload N)) (\<lambda>_.
       if \<not> IsFinalTx (nd_adjustedTime N) tx height blockTime then Invalid 10 ''bad-txns-nonfinal'' False
       else contextual_transactions Z N height blockTime rest)"

definition ContextualCheckBlock :: "'c sapling_verifier \<Rightarrow> node_state \<Rightarrow> CBlock \<Rightarrow> ptr option \<Rightarrow> unit outcome" where
  "ContextualCheckBlock Z N b prev =
     obind (case prev of None \<Rightarrow> Pass 0 | Some p \<Rightarrow> obind (opt_outcome OutOfBounds (nd_index N p)) (\<lambda>i. Pass (nHeight i + 1))) (\<lambda>height.
     obind (contextual_transactions Z N height (header_GetBlockTime b) (block_vtx b)) (\<lambda>_.
     if prev \<noteq> None
     then (if block_vtx b = [] \<or> vin (block_vtx b ! 0) = [] then Crash OutOfBounds
           else let expect = push_int64 [] height; sig = scriptSig (vin (block_vtx b ! 0) ! 0)
                in if length sig < length expect \<or> take (length expect) sig \<noteq> expect then Invalid 100 ''bad-cb-height'' False else Pass ())
     else Pass ()))"

section \<open>Initial block download\<close>

text \<open>Once the node has left the initial download it never returns to it.\<close>

lemma initial_download_latched:
  "fst (IsInitialBlockDownload latch busy h e best now age) = False \<Longrightarrow>
   fst (IsInitialBlockDownload (snd (IsInitialBlockDownload latch busy h e best now age)) busy' h' e' best' now' age') = False"
  by (auto simp: IsInitialBlockDownload_def Let_def split: if_splits)

section \<open>Block signatures\<close>

text \<open>
  The public key is taken from \<open>scriptSig\<close> at offsets that are read from it without a bound: the check of a proof-of-stake block whose
  stake has an empty \<open>scriptSig\<close> reads outside of it.
\<close>

theorem CheckBlockSignature_out_of_bounds:
  assumes "block_IsProofOfStake b" "vchBlockSig b \<noteq> []" "scriptSig (vin (block_vtx b ! 1) ! 0) = []"
    and "Solver (nd_newP2CSRules N) (scriptPubKey (vout (block_vtx b ! 1) ! 1)) = Some (whichType, sol)"
    and "whichType = TX_PUBKEYHASH \<or> whichType = TX_COLDSTAKE"
  shows "CheckBlockSignature N b = None"
  using assms by (auto simp: CheckBlockSignature_def block_IsProofOfWork_def block_pubkey_def)

section \<open>What CheckBlock guarantees\<close>

lemma check_layout_Pass:
  assumes "check_layout b = Pass u" "length (Serialize_block b) < 2 ^ 32"
  shows "length (Serialize_block b) \<le> MAX_BLOCK_SIZE_CURRENT \<and> block_vtx b \<noteq> [] \<and> IsCoinBase (block_vtx b ! 0) \<and>
    \<not> list_ex IsCoinBase (drop 1 (block_vtx b)) \<and>
    (block_IsProofOfStake b \<longrightarrow> length (vout (block_vtx b ! 0)) = 1 \<and> txout_IsEmpty (vout (block_vtx b ! 0) ! 0) \<and>
       \<not> list_ex IsCoinStake (drop 2 (block_vtx b)))"
  using assms by (auto simp: check_layout_def Let_def split: if_splits)

lemma check_merkle_Pass: "check_merkle N b = Pass u \<Longrightarrow> BlockMerkleRoot (nd_junk N) (block_vtx b) = Some (hdr_hashMerkleRoot b, False)"
  by (auto simp: check_merkle_def obind_Pass split: if_splits)

lemma check_transactions_Pass:
  "check_transactions N cs sap txs = Pass u \<longleftrightarrow>
   list_all (\<lambda>tx. CheckTransaction (nd_consensus N) (nd_newP2CSRules N) tx cs sap = Accept ()) txs"
  by (induction txs) (auto split: check.splits)

lemma none_in_drop: "\<not> list_ex P (drop k xs) \<Longrightarrow> i < length xs \<Longrightarrow> P (xs ! i) \<Longrightarrow> i < k"
proof (rule ccontr)
  assume a: "\<not> list_ex P (drop k xs)" "i < length xs" "P (xs ! i)" "\<not> i < k"
  then have "drop k xs ! (i - k) = xs ! i" "i - k < length (drop k xs)" by simp_all
  then have "xs ! i \<in> set (drop k xs)" by (metis nth_mem)
  with a show False by (auto simp: list_ex_iff)
qed

lemma coinbase_not_coinstake: "IsCoinBase tx \<Longrightarrow> \<not> IsCoinStake tx"
  by (auto simp: IsCoinBase_def IsCoinStake_def)

lemma CheckBlock_unfold:
  assumes "CheckBlock N True True True b = Pass b'" "\<not> fChecked b"
  obtains cs where "check_merkle N b = Pass ()" "check_layout b = Pass ()"
    "check_transactions N cs (NetworkUpgradeActive (nd_consensus N) (Height (nd_chainActive N) + 1) UPGRADE_V5_0) (block_vtx b) = Pass ()"
    "CheckBlockSignature N b = Some True" "b' = b\<lparr>fChecked := True\<rparr>"
    "block_IsProofOfStake b \<or> CheckProofOfWork (nd_consensus N) (nd_fRegTest N) (nd_hash N b) (hdr_nBits b)"
  using assms by (auto simp: CheckBlock_def obind_Pass split: if_splits)

text \<open>
  C5. What a block that was not checked before has when \<open>CheckBlock\<close> with all three tests switched on accepts it, its serialised size being
  below \<open>2 ^ 32\<close>: its Merkle root matches and is unmutated; it is within the size limit; the first
  transaction and no other is a coinbase; in a proof-of-stake block the coinbase pays nothing and the second transaction and no other is a
  coinstake, and in a proof-of-work block the second transaction is not a coinstake (later ones may be); every transaction passes
  \<open>CheckTransaction\<close>; the block signature verifies; and a proof-of-work block meets its target.\<close>

theorem CheckBlock_sound:
  assumes "CheckBlock N True True True b = Pass b'" "\<not> fChecked b" "length (Serialize_block b) < 2 ^ 32"
  shows "b' = b\<lparr>fChecked := True\<rparr> \<and> BlockMerkleRoot (nd_junk N) (block_vtx b) = Some (hdr_hashMerkleRoot b, False) \<and>
    length (Serialize_block b) \<le> 2000000 \<and> CheckBlockSignature N b = Some True \<and> block_vtx b \<noteq> [] \<and>
    (\<forall>i < length (block_vtx b). IsCoinBase (block_vtx b ! i) \<longleftrightarrow> i = 0) \<and>
    (block_IsProofOfStake b \<longrightarrow> length (vout (block_vtx b ! 0)) = 1 \<and> txout_IsEmpty (vout (block_vtx b ! 0) ! 0) \<and>
       (\<forall>i < length (block_vtx b). IsCoinStake (block_vtx b ! i) \<longleftrightarrow> i = 1)) \<and>
    (block_IsProofOfWork b \<longrightarrow> length (block_vtx b) > 1 \<longrightarrow> \<not> IsCoinStake (block_vtx b ! 1)) \<and>
    (\<exists>cs. \<forall>tx \<in> set (block_vtx b). CheckTransaction (nd_consensus N) (nd_newP2CSRules N) tx cs
       (NetworkUpgradeActive (nd_consensus N) (Height (nd_chainActive N) + 1) UPGRADE_V5_0) = Accept ()) \<and>
    (block_IsProofOfWork b \<longrightarrow> CheckProofOfWork (nd_consensus N) (nd_fRegTest N) (nd_hash N b) (hdr_nBits b))"
proof -
  from CheckBlock_unfold [OF assms(1,2)] obtain cs where c: "check_merkle N b = Pass ()" "check_layout b = Pass ()"
    "check_transactions N cs (NetworkUpgradeActive (nd_consensus N) (Height (nd_chainActive N) + 1) UPGRADE_V5_0) (block_vtx b) = Pass ()"
    "CheckBlockSignature N b = Some True" "b' = b\<lparr>fChecked := True\<rparr>"
    "block_IsProofOfStake b \<or> CheckProofOfWork (nd_consensus N) (nd_fRegTest N) (nd_hash N b) (hdr_nBits b)" by metis
  note l = check_layout_Pass [OF c(2) assms(3)]
  have cb: "\<forall>i < length (block_vtx b). IsCoinBase (block_vtx b ! i) \<longleftrightarrow> i = 0"
    using l none_in_drop [of IsCoinBase 1 "block_vtx b"] by (auto simp: less_Suc0)
  have cs: "\<forall>i < length (block_vtx b). IsCoinStake (block_vtx b ! i) \<longleftrightarrow> i = 1" if p: "block_IsProofOfStake b"
  proof (intro allI impI iffI)
    fix i
    assume i: "i < length (block_vtx b)" "IsCoinStake (block_vtx b ! i)"
    then have "i < 2" using none_in_drop [of IsCoinStake 2 "block_vtx b" i] l p by auto
    moreover have "i \<noteq> 0" using i l coinbase_not_coinstake by (metis (no_types))
    ultimately show "i = 1" by simp
  qed (use p in \<open>simp add: block_IsProofOfStake_def vtx_proof_of_stake_def\<close>)
  show ?thesis using c cb cs l check_merkle_Pass [OF c(1)]
    by (auto simp: check_transactions_Pass list_all_iff MAX_BLOCK_SIZE_CURRENT_def block_IsProofOfWork_def block_IsProofOfStake_def vtx_proof_of_stake_def)
qed

definition sample_node :: node_state where
  "sample_node = \<lparr>nd_consensus = regtest_params, nd_fRegTest = True, nd_fTestnet = False, nd_hashGenesisBlock = [],
     nd_checkpoints = [(0, base_uint_zero 8)], nd_fCheckpoints = True, nd_newP2CSRules = True, nd_maxreorg = 100, nd_adjustedTime = 0,
     nd_index = [0 \<mapsto> example_block 4 0 None None], nd_mapBlockIndex = Map.empty, nd_chainActive = \<lparr>vChain = []\<rparr>,
     nd_fInitialBlockDownload = False, nd_mapSporksActive = Map.empty, nd_mnSynced = True, nd_IsBudgetPaymentBlock = (\<lambda>_. False),
     nd_GetTotalBudget = (\<lambda>_. 0), nd_GetExpectedPayeeAmount = (\<lambda>_. None), nd_BudgetIsTransactionValid = (\<lambda>_ _ _. TrxInValid),
     nd_MnIsTransactionValid = (\<lambda>_ _. True), nd_GetTransaction = (\<lambda>_. None), nd_sph = \<lparr>sph_blake512 = id, sph_bmw512 = id, sph_groestl512 = id, sph_jh512 = id,
       sph_keccak512 = id, sph_skein512 = id\<rparr>, nd_junk = replicate 64 0, nd_ecdsa = (\<lambda>_ _ _. False), nd_blake2b = (\<lambda>_ _. []),
     nd_lowS = (\<lambda>_. True)\<rparr>"

definition sample_coinbase :: CTransaction where
  "sample_coinbase = CTransaction_new\<lparr>vin := [txin_new outpoint_null [0x55, 0x51] 0], vout := [txout_new 7 []]\<rparr>"

definition sample_pow_block :: CBlock where
  "sample_pow_block = block_null\<lparr>hdr_nVersion := 5, hdr_hashMerkleRoot := tx_GetHash (replicate 64 0) sample_coinbase,
     block_vtx := [sample_coinbase]\<rparr>"

lemmas sample_coinbase_defs = sample_coinbase_def CTransaction_new_def txin_new_def txout_new_def outpoint_null_def SaplingTxData_new_def

lemma sample_sizes: "GetTotalSize sample_coinbase = 62" "length (Serialize_block sample_pow_block) = 143"
proof -
  show l: "GetTotalSize sample_coinbase = 62"
    by (simp add: sample_coinbase_defs GetTotalSize_def SerializeTransaction_def Serialize_int16_def ser_writedata16_def Serialize_vector_def
        write_size_def WriteCompactSize_def ser_writedata8_def ser_writedata32_def isSaplingVersion_def Serialize_txin_def
        Serialize_outpoint_def Serialize_uint256_def length_uint_bytes Serialize_bytes_def Serialize_txout_def Serialize_int64_def
        ser_writedata64_def base_uint_zero_def)
  then have "length (SerializeTransaction sample_coinbase) = 62" by (simp add: GetTotalSize_def)
  then show "length (Serialize_block sample_pow_block) = 143"
    by (simp add: sample_pow_block_def block_null_def block_of_header_def CBlockHeader.defs header_null_def Serialize_block_def
        Serialize_header_def Serialize_header80_def Serialize_int32_def ser_writedata32_def Serialize_uint256_def length_uint_bytes
        base_uint_zero_def tx_GetHash_def SerializeHash_def Serialize_vector_def write_size_def WriteCompactSize_def ser_writedata8_def
        vtx_proof_of_stake_def)
qed

lemma sample_coinbase_accepted: "CheckTransaction regtest_params True sample_coinbase True False = Accept ()"
proof -
  have "GetTotalSize sample_coinbase \<le> MAX_STANDARD_TX_SIZE" by (simp add: sample_sizes MAX_STANDARD_TX_SIZE_def)
  then show ?thesis
    by (simp add: CheckTransaction_def) (simp add: sample_coinbase_defs isSaplingVersion_def IsShieldedTx_def Sapling_CheckTransaction_def
        hasSaplingData_def hasBindingSig_def CheckSpecialTx_def hasExtraPayload_def check_inputs_def IsCoinBase_def outpoint_IsNull_def
        txout_IsEmpty_def IsPayToColdStaking_def MoneyRange_def regtest_params_def COIN_def list_ex_iff)
qed

lemma sample_block_accepted: "CheckBlock sample_node True True True sample_pow_block = Pass (sample_pow_block\<lparr>fChecked := True\<rparr>)"
proof -
  have v: "block_vtx sample_pow_block = [sample_coinbase]" "vchBlockSig sample_pow_block = []" "\<not> fChecked sample_pow_block"
    by (simp_all add: sample_pow_block_def block_null_def block_of_header_def CBlockHeader.defs)
  have w: "\<not> block_IsProofOfStake sample_pow_block" by (simp add: block_IsProofOfStake_def v vtx_proof_of_stake_def)
  have m: "check_merkle sample_node sample_pow_block = Pass ()"
    by (simp add: check_merkle_def sample_node_def sample_pow_block_def BlockMerkleRoot_def ComputeMerkleRoot_def MerkleComputation_def
        merkle_top.simps climb.simps lowest_level.simps push_branch_def numeral_eq_Suc)
  have "IsCoinBase sample_coinbase" by (simp add: sample_coinbase_defs IsCoinBase_def outpoint_IsNull_def base_uint_zero_def numeral_eq_Suc)
  then have l: "check_layout sample_pow_block = Pass ()"
    by (simp add: check_layout_def v w sample_sizes MAX_BLOCK_SIZE_CURRENT_def MAX_BLOCK_SHIELDED_TXES_SIZE_def)
  have c: "check_coldstaking sample_node sample_pow_block = Pass True" by (simp add: check_coldstaking_def sample_node_def Tip_def)
  have t: "check_transactions sample_node True (NetworkUpgradeActive regtest_params 0 UPGRADE_V5_0) [sample_coinbase] = Pass ()"
    using sample_coinbase_accepted
    by (simp add: sample_node_def NetworkUpgradeActive_def NetworkUpgradeState_def regtest_params_def upgrade_def
       )
  have g: "GetLegacySigOpCount sample_coinbase = 0"
    by (simp add: GetLegacySigOpCount_def sample_coinbase_defs GetSigOpCount_def sigop_loop.simps)
  have n: "nd_consensus sample_node = regtest_params" "Height (nd_chainActive sample_node) + 1 = 0" "nd_fRegTest sample_node"
    by (simp_all add: sample_node_def Height_def)
  show ?thesis
    by (simp add: CheckBlock_def v w m l c n t g CheckBlockSignature_def block_IsProofOfWork_def CheckProofOfWork_def
        del: check_transactions.simps)
qed

theorem CheckBlock_sound_witness:
  "CheckBlock sample_node True True True sample_pow_block = Pass (sample_pow_block\<lparr>fChecked := True\<rparr>) \<and>
   BlockMerkleRoot (replicate 64 0) [sample_coinbase] = Some (hdr_hashMerkleRoot sample_pow_block, False) \<and>
   length (Serialize_block sample_pow_block) \<le> 2000000 \<and> CheckBlockSignature sample_node sample_pow_block = Some True"
proof -
  have a: "\<not> fChecked sample_pow_block" "length (Serialize_block sample_pow_block) < 2 ^ 32" "nd_junk sample_node = replicate 64 0"
      "block_vtx sample_pow_block = [sample_coinbase]"
    by (simp add: sample_pow_block_def block_null_def block_of_header_def CBlockHeader.defs, simp add: sample_sizes)
      (simp_all add: sample_node_def sample_pow_block_def)
  from CheckBlock_sound [OF sample_block_accepted a(1,2)] show ?thesis unfolding a(3,4) using sample_block_accepted by blast
qed

section \<open>The height in the coinbase\<close>

lemma serialize_short: "\<bar>n\<bar> < 2 ^ 32 \<Longrightarrow> length (scriptnum_serialize n) \<le> 5"
  by (rule serialize_length) simp_all

lemma push_height: "0 \<le> h \<Longrightarrow> h < 2 ^ 32 \<Longrightarrow> push_int64 [] h =
    (if h = 0 then [0] else if h \<le> 16 then [word_of_int (h + 0x50)] else of_nat (length (scriptnum_serialize h)) # scriptnum_serialize h)"
  using serialize_short [of h] by (simp add: push_int64_def push_short)

lemma serialize_pos: "n \<noteq> 0 \<Longrightarrow> length (scriptnum_serialize n) > 0"
  using set_vch_serialize [of n] by (auto simp: set_vch_def)

lemma push_height_head:
  assumes "0 \<le> h" "h < 2 ^ 32"
  shows "push_int64 [] h \<noteq> []" "unat (hd (push_int64 [] h)) =
    (if h = 0 then 0 else if h \<le> 16 then nat h + 80 else length (scriptnum_serialize h))"
proof -
  have "unat (word_of_int (h + 80) :: byte) = nat h + 80" if "h \<le> 16"
  proof -
    have "uint (word_of_int (h + 80) :: byte) = h + 80" unfolding uint_word_of_int using that assms by simp
    then have "nat (uint (word_of_int (h + 80) :: byte)) = nat (h + 80)" by (rule arg_cong)
    then show ?thesis unfolding unat_eq_nat_uint using assms by (simp add: nat_add_distrib)
  qed
  moreover have "unat (of_nat (length (scriptnum_serialize h)) :: byte) = length (scriptnum_serialize h)"
    using serialize_short [of h] assms by (simp add: unsigned_of_nat take_bit_nat_eq_self)
  ultimately show "push_int64 [] h \<noteq> []" "unat (hd (push_int64 [] h)) =
    (if h = 0 then 0 else if h \<le> 16 then nat h + 80 else length (scriptnum_serialize h))"
    using push_height [OF assms] by auto
qed

lemma push_height_inj:
  assumes "0 \<le> g" "g < 2 ^ 32" "0 \<le> h" "h < 2 ^ 32"
    and "take (length (push_int64 [] g)) sig = push_int64 [] g" "take (length (push_int64 [] h)) sig = push_int64 [] h"
  shows "g = h"
proof -
  note hg = push_height_head [OF assms(1,2)] and hh = push_height_head [OF assms(3,4)]
  have pre: "hd (push_int64 [] n) = hd sig" if "take (length (push_int64 [] n)) sig = push_int64 [] n" "push_int64 [] n \<noteq> []" for n
    using arg_cong [OF that(1), of hd] that(2) by (simp add: hd_take)
  have e: "unat (hd (push_int64 [] g)) = unat (hd (push_int64 [] h))" using pre [OF assms(5) hg(1)] pre [OF assms(6) hh(1)] by simp
  have s: "0 < length (scriptnum_serialize n) \<and> length (scriptnum_serialize n) \<le> 5" if "16 < n" "n < 2 ^ 32" for n
    using serialize_short [of n] serialize_pos [of n] that by simp
  consider "g > 16" "h > 16" | "g \<le> 16" "h \<le> 16" | "g > 16" "h \<le> 16" | "g \<le> 16" "h > 16" by linarith
  then show ?thesis
  proof cases
    case 1
    then have "length (scriptnum_serialize g) = length (scriptnum_serialize h)" using e unfolding hg(2) hh(2) by simp
    then have "length (push_int64 [] g) = length (push_int64 [] h)"
      using 1 unfolding push_height [OF assms(1,2)] push_height [OF assms(3,4)] by simp
    then have "take (length (push_int64 [] g)) sig = take (length (push_int64 [] h)) sig" by (rule arg_cong)
    then have "push_int64 [] g = push_int64 [] h" by (rule trans [OF trans [OF assms(5) [symmetric]] assms(6)])
    then have "scriptnum_serialize g = scriptnum_serialize h"
      using 1 unfolding push_height [OF assms(1,2)] push_height [OF assms(3,4)] by simp
    then show ?thesis by (metis set_vch_serialize)
  next
    case 2
    then show ?thesis using e assms(1,3) unfolding hg(2) hh(2) by (auto split: if_splits)
  next
    case 3
    then show ?thesis using e s [of g] assms(2,3) unfolding hg(2) hh(2) by (auto split: if_splits)
  next
    case 4
    then show ?thesis using e s [of h] assms(1,4) unfolding hg(2) hh(2) by (auto split: if_splits)
  qed
qed

lemma ContextualCheckBlock_height:
  assumes "ContextualCheckBlock Z N b (Some p) = Pass ()" "nd_index N p = Some i"
  shows "take (length (push_int64 [] (nHeight i + 1))) (scriptSig (vin (block_vtx b ! 0) ! 0)) = push_int64 [] (nHeight i + 1)"
  using assms by (auto simp: ContextualCheckBlock_def obind_Pass Let_def split: if_splits)

text \<open>
  C37. Coinbases of different heights differ: if two blocks that pass \<open>ContextualCheckBlock\<close>, possibly at different times on different
  states of the node, have the same coinbase transaction, they are at the same height.  So no coinbase of an accepted chain repeats an
  earlier one.\<close>

theorem coinbase_commits_to_height:
  assumes "ContextualCheckBlock Z N a (Some p) = Pass ()" "nd_index N p = Some i" "0 \<le> nHeight i" "nHeight i < 2 ^ 31"
    and "ContextualCheckBlock Z' N' b (Some q) = Pass ()" "nd_index N' q = Some j" "0 \<le> nHeight j" "nHeight j < 2 ^ 31"
    and "block_vtx a ! 0 = block_vtx b ! 0"
  shows "nHeight i = nHeight j"
  using push_height_inj [of "nHeight i + 1" "nHeight j + 1"] ContextualCheckBlock_height [OF assms(1,2)]
    ContextualCheckBlock_height [OF assms(5,6)] assms by simp

text \<open>The sample block is accepted on a block of height 4 and, having the same coinbase, not on one of height 9.\<close>

theorem coinbase_commits_to_height_witness:
  "let Z = \<lparr>verification_ctx_init = (), sapling_check_spend = \<lambda>_ _ _. (True, ()), sapling_check_output = \<lambda>_ _ _ _ _. (True, ()),
         sapling_final_check = \<lambda>_ _ _ _. True\<rparr>
   in ContextualCheckBlock Z sample_node sample_pow_block (Some 0) = Pass () \<and>
      ContextualCheckBlock Z (sample_node\<lparr>nd_index := [0 \<mapsto> example_block 9 0 None None]\<rparr>) sample_pow_block (Some 0) \<noteq> Pass ()"
proof -
  let ?Z = "\<lparr>verification_ctx_init = (), sapling_check_spend = \<lambda>_ _ _. (True, ()), sapling_check_output = \<lambda>_ _ _ _ _. (True, ()),
    sapling_final_check = \<lambda>_ _ _ _. True\<rparr>"
  let ?N = "sample_node\<lparr>nd_index := [0 \<mapsto> example_block 9 0 None None]\<rparr>"
  have a: "ContextualCheckBlock ?Z sample_node sample_pow_block (Some 0) = Pass ()"
    by (simp add: ContextualCheckBlock_def sample_node_def sample_pow_block_def ContextualCheckTransaction_def NetworkUpgradeActive_def
        NetworkUpgradeState_def regtest_params_def upgrade_def
        example_block_def sample_coinbase_defs IsFinalTx_def push_int64_def)
  have i: "nd_index sample_node 0 = Some (example_block 4 0 None None)" "nd_index ?N 0 = Some (example_block 9 0 None None)"
    by (simp_all add: sample_node_def)
  have "ContextualCheckBlock ?Z ?N sample_pow_block (Some 0) \<noteq> Pass ()"
  proof
    assume "ContextualCheckBlock ?Z ?N sample_pow_block (Some 0) = Pass ()"
    from coinbase_commits_to_height [OF a i(1) _ _ this i(2)] show False by (simp add: example_block_def)
  qed
  then show ?thesis using a by simp
qed

end
