(* ===== verification/BlockFiles.thy ===== *)
theory BlockFiles
  imports Chain Serialize
begin

unbundle bit_operations_syntax

text \<open>
  Where blocks and undo data are stored: \<open>CBlockFileInfo\<close> of \<open>src/src/chain.h\<close>, \<open>CDiskTxPos\<close> of \<open>src/src/txdb.h\<close>, \<open>FindBlockPos\<close> and
  \<open>FindUndoPos\<close> of \<open>src/src/validation.cpp\<close>.  Sizes are 32-bit words.  Flushing and pre-allocating files is input and output; whether the disk has
  room is an argument.  The search for a file with room is a partial function: it need not end for a block as large as a file.
\<close>

record CBlockFileInfo =
  fi_nBlocks :: u32
  fi_nSize :: u32
  fi_nUndoSize :: u32
  fi_nHeightFirst :: u32
  fi_nHeightLast :: u32
  fi_nTimeFirst :: u64
  fi_nTimeLast :: u64

definition fileinfo_null :: CBlockFileInfo where
  "fileinfo_null = \<lparr>fi_nBlocks = 0, fi_nSize = 0, fi_nUndoSize = 0, fi_nHeightFirst = 0, fi_nHeightLast = 0, fi_nTimeFirst = 0, fi_nTimeLast = 0\<rparr>"

definition Serialize_fileinfo :: "CBlockFileInfo \<Rightarrow> byte list" where
  "Serialize_fileinfo f = WriteVarInt (fi_nBlocks f) @ WriteVarInt (fi_nSize f) @ WriteVarInt (fi_nUndoSize f) @
     WriteVarInt (fi_nHeightFirst f) @ WriteVarInt (fi_nHeightLast f) @ WriteVarInt (fi_nTimeFirst f) @ WriteVarInt (fi_nTimeLast f)"

definition Unserialize_fileinfo :: "CBlockFileInfo reader" where
  "Unserialize_fileinfo =
     rbind ReadVarInt (\<lambda>b. rbind ReadVarInt (\<lambda>s. rbind ReadVarInt (\<lambda>u. rbind ReadVarInt (\<lambda>hf. rbind ReadVarInt (\<lambda>hl.
     rbind ReadVarInt (\<lambda>tf. rbind ReadVarInt (\<lambda>tl.
       rreturn \<lparr>fi_nBlocks = b, fi_nSize = s, fi_nUndoSize = u, fi_nHeightFirst = hf, fi_nHeightLast = hl, fi_nTimeFirst = tf, fi_nTimeLast = tl\<rparr>)))))))"

definition fileinfo_AddBlock :: "u32 \<Rightarrow> u64 \<Rightarrow> CBlockFileInfo \<Rightarrow> CBlockFileInfo" where
  "fileinfo_AddBlock nHeightIn nTimeIn f =
     (let f = (if fi_nBlocks f = 0 \<or> fi_nHeightFirst f > nHeightIn then f\<lparr>fi_nHeightFirst := nHeightIn\<rparr> else f);
          f = (if fi_nBlocks f = 0 \<or> fi_nTimeFirst f > nTimeIn then f\<lparr>fi_nTimeFirst := nTimeIn\<rparr> else f);
          f = f\<lparr>fi_nBlocks := fi_nBlocks f + 1\<rparr>;
          f = (if nHeightIn > fi_nHeightLast f then f\<lparr>fi_nHeightLast := nHeightIn\<rparr> else f)
      in if nTimeIn > fi_nTimeLast f then f\<lparr>fi_nTimeLast := nTimeIn\<rparr> else f)"

record CDiskTxPos = CDiskBlockPos +
  nTxOffset :: u32

definition CDiskTxPos_new :: "CDiskBlockPos \<Rightarrow> u32 \<Rightarrow> CDiskTxPos" where
  "CDiskTxPos_new blockIn nTxOffsetIn = CDiskBlockPos.extend blockIn \<lparr>nTxOffset = nTxOffsetIn\<rparr>"

definition MAX_BLOCKFILE_SIZE :: u32 where "MAX_BLOCKFILE_SIZE = 0x8000000"
definition BLOCKFILE_CHUNK_SIZE :: u32 where "BLOCKFILE_CHUNK_SIZE = 0x1000000"
definition UNDOFILE_CHUNK_SIZE :: u32 where "UNDOFILE_CHUNK_SIZE = 0x100000"

record block_files =
  vinfoBlockFile :: "CBlockFileInfo list"
  nLastBlockFile :: nat
  setDirtyFileInfo :: "nat set"

definition resize_files :: "nat \<Rightarrow> CBlockFileInfo list \<Rightarrow> CBlockFileInfo list" where
  "resize_files n fs = take n fs @ replicate (n - length fs) fileinfo_null"

abbreviation grow_files :: "nat \<Rightarrow> CBlockFileInfo list \<Rightarrow> CBlockFileInfo list" where
  "grow_files file fs \<equiv> (if length fs \<le> file then resize_files (file + 1) fs else fs)"

partial_function (option) find_file :: "CBlockFileInfo list \<Rightarrow> nat \<Rightarrow> u32 \<Rightarrow> (CBlockFileInfo list \<times> nat) option" where
  "find_file fs file nAddSize =
     (if fi_nSize (fs ! file) + nAddSize \<ge> MAX_BLOCKFILE_SIZE then find_file (grow_files (file + 1) fs) (file + 1) nAddSize
      else Some (fs, file))"

definition chunks :: "u32 \<Rightarrow> u32 \<Rightarrow> u32" where
  "chunks used chunk = (used + chunk - 1) div chunk"

text \<open>The result tells the position, the new state, and \<open>False\<close> for the error \<open>out of disk space\<close>.\<close>

definition FindBlockPos :: "(u32 \<Rightarrow> bool) \<Rightarrow> block_files \<Rightarrow> CDiskBlockPos \<Rightarrow> u32 \<Rightarrow> u32 \<Rightarrow> u64 \<Rightarrow> bool \<Rightarrow>
    (CDiskBlockPos \<times> block_files \<times> bool) option" where
  "FindBlockPos CheckDiskSpace st pos nAddSize height time fKnown =
     (let file0 = (if fKnown then nat (pos_nFile pos mod 2 ^ 32) else nLastBlockFile st);
          fs0 = grow_files file0 (vinfoBlockFile st)
      in case (if fKnown then Some (fs0, file0) else find_file fs0 file0 nAddSize) of
           None \<Rightarrow> None
         | Some (fs1, file) \<Rightarrow>
             let pos1 = (if fKnown then pos else pos\<lparr>pos_nFile := int file, pos_nPos := fi_nSize (fs1 ! file)\<rparr>);
                 info = fileinfo_AddBlock height time (fs1 ! file);
                 info1 = info\<lparr>fi_nSize := (if fKnown then max (pos_nPos pos + nAddSize) (fi_nSize info) else fi_nSize info + nAddSize)\<rparr>;
                 st1 = st\<lparr>vinfoBlockFile := fs1[file := info1], nLastBlockFile := file\<rparr>;
                 nOldChunks = chunks (pos_nPos pos1) BLOCKFILE_CHUNK_SIZE;
                 nNewChunks = chunks (fi_nSize info1) BLOCKFILE_CHUNK_SIZE
             in if \<not> fKnown \<and> nNewChunks > nOldChunks \<and> \<not> CheckDiskSpace (nNewChunks * BLOCKFILE_CHUNK_SIZE - pos_nPos pos1)
                then Some (pos1, st1, False)
                else Some (pos1, st1\<lparr>setDirtyFileInfo := insert file (setDirtyFileInfo st1)\<rparr>, True))"

text \<open>\<open>None\<close> is a file number out of range.\<close>

definition FindUndoPos :: "(u32 \<Rightarrow> bool) \<Rightarrow> block_files \<Rightarrow> int \<Rightarrow> u32 \<Rightarrow> (CDiskBlockPos \<times> block_files \<times> bool) option" where
  "FindUndoPos CheckDiskSpace st nFileIn nAddSize =
     (if nFileIn < 0 \<or> nat nFileIn \<ge> length (vinfoBlockFile st) then None
      else let file = nat nFileIn;
               info = vinfoBlockFile st ! file;
               pos = \<lparr>pos_nFile = nFileIn, pos_nPos = fi_nUndoSize info\<rparr>;
               nNewSize = fi_nUndoSize info + nAddSize;
               st1 = st\<lparr>vinfoBlockFile := (vinfoBlockFile st)[file := info\<lparr>fi_nUndoSize := nNewSize\<rparr>],
                        setDirtyFileInfo := insert file (setDirtyFileInfo st)\<rparr>;
               nOldChunks = chunks (pos_nPos pos) UNDOFILE_CHUNK_SIZE;
               nNewChunks = chunks nNewSize UNDOFILE_CHUNK_SIZE
           in if nNewChunks > nOldChunks \<and> \<not> CheckDiskSpace (nNewChunks * UNDOFILE_CHUNK_SIZE - pos_nPos pos)
              then Some (pos, st1, False)
              else Some (pos, st1, True))"

section \<open>Positions\<close>

definition files_ok :: "block_files \<Rightarrow> bool" where
  "files_ok st \<longleftrightarrow> list_all (\<lambda>f. fi_nSize f < MAX_BLOCKFILE_SIZE) (vinfoBlockFile st)"

text \<open>The used bytes of a file; a file that does not exist yet is empty.\<close>

definition file_size :: "block_files \<Rightarrow> nat \<Rightarrow> nat" where
  "file_size st file = (if file < length (vinfoBlockFile st) then unat (fi_nSize (vinfoBlockFile st ! file)) else 0)"

lemma AddBlock_nSize [simp]: "fi_nSize (fileinfo_AddBlock h t f) = fi_nSize f"
  by (simp add: fileinfo_AddBlock_def Let_def)

lemma nth_grow:
  "i < length (grow_files k fs) \<Longrightarrow> grow_files k fs ! i = (if i < length fs then fs ! i else fileinfo_null)"
  by (auto simp: resize_files_def nth_append split: if_splits)

lemma length_grow: "length (grow_files k fs) = max (length fs) (Suc k)"
  by (auto simp: resize_files_def)

lemma all_grow: "list_all P fs \<Longrightarrow> P fileinfo_null \<Longrightarrow> list_all P (grow_files k fs)"
  by (auto simp: resize_files_def list_all_iff dest: in_set_takeD)

lemma find_file_returns:
  assumes "nAddSize < MAX_BLOCKFILE_SIZE" "f0 < length fs" "list_all (\<lambda>f. fi_nSize f < MAX_BLOCKFILE_SIZE) fs"
  shows "\<exists>fs' f0'. find_file fs f0 nAddSize = Some (fs', f0') \<and> f0' < length fs' \<and> length fs \<le> length fs' \<and>
    list_all (\<lambda>f. fi_nSize f < MAX_BLOCKFILE_SIZE) fs' \<and> fi_nSize (fs' ! f0') + nAddSize < MAX_BLOCKFILE_SIZE \<and>
    (\<forall>i < length fs'. fs' ! i = (if i < length fs then fs ! i else fileinfo_null))"
  using assms(2,3)
proof (induction "length fs - f0" arbitrary: fs f0 rule: less_induct)
  case less
  show ?case
  proof (cases "fi_nSize (fs ! f0) + nAddSize \<ge> MAX_BLOCKFILE_SIZE")
    case False
    then show ?thesis using less.prems by (subst find_file.simps) auto
  next
    case True
    let ?g = "grow_files (f0 + 1) fs"
    have "f0 + 1 < length ?g" unfolding length_grow by simp
    moreover have "list_all (\<lambda>f. fi_nSize f < MAX_BLOCKFILE_SIZE) ?g"
      by (rule all_grow [OF less.prems(2)]) (simp add: fileinfo_null_def MAX_BLOCKFILE_SIZE_def)
    ultimately have g: "f0 + 1 < length ?g" "list_all (\<lambda>f. fi_nSize f < MAX_BLOCKFILE_SIZE) ?g" by auto
    show ?thesis
    proof (cases "f0 + 1 < length fs")
      case in_range: True
      then have "?g = fs" by simp
      then show ?thesis using less.hyps [of fs "f0 + 1"] less.prems in_range True by (subst find_file.simps) simp
    next
      case False
      then have "?g ! (f0 + 1) = fileinfo_null" using g(1) less.prems by (subst nth_grow) auto
      then have "find_file ?g (f0 + 1) nAddSize = Some (?g, f0 + 1)"
        using assms(1) by (subst find_file.simps) (auto simp: fileinfo_null_def)
      moreover have "find_file fs f0 nAddSize = find_file ?g (f0 + 1) nAddSize" using True by (subst find_file.simps) simp
      moreover have "length fs \<le> length ?g" by (simp add: resize_files_def)
      moreover have "fi_nSize (?g ! (f0 + 1)) + nAddSize < MAX_BLOCKFILE_SIZE"
        using \<open>?g ! (f0 + 1) = fileinfo_null\<close> assms(1) by (simp add: fileinfo_null_def)
      ultimately show ?thesis using g nth_grow [where k = "f0 + 1" and fs = fs] by metis
    qed
  qed
qed

text \<open>A call for a new block: it returns, the block starts at the end of a file and the file ends after it.\<close>

lemma FindBlockPos_new:
  assumes "files_ok st" "nAddSize < MAX_BLOCKFILE_SIZE"
  shows "\<exists>p st' b f0. FindBlockPos space st pos nAddSize h t False = Some (p, st', b) \<and> files_ok st' \<and> pos_nFile p = int f0 \<and>
    unat (pos_nPos p) = file_size st f0 \<and> file_size st f0 + unat nAddSize < 2 ^ 27 \<and>
    (\<forall>i. file_size st' i = (if i = f0 then file_size st f0 + unat nAddSize else file_size st i))"
proof -
  let ?fs0 = "grow_files (nLastBlockFile st) (vinfoBlockFile st)" and ?ok = "list_all (\<lambda>f. fi_nSize f < MAX_BLOCKFILE_SIZE)"
  have z: "fi_nSize fileinfo_null = 0" by (simp add: fileinfo_null_def)
  have "?ok ?fs0" using assms(1) by (intro all_grow) (simp_all add: files_ok_def z MAX_BLOCKFILE_SIZE_def)
  moreover have "nLastBlockFile st < length ?fs0" unfolding length_grow by simp
  ultimately obtain fs f0 where f: "find_file ?fs0 (nLastBlockFile st) nAddSize = Some (fs, f0)" "f0 < length fs" "length ?fs0 \<le> length fs"
    "?ok fs" "fi_nSize (fs ! f0) + nAddSize < MAX_BLOCKFILE_SIZE" "\<forall>i < length fs. fs ! i = (if i < length ?fs0 then ?fs0 ! i else fileinfo_null)"
    using find_file_returns [OF assms(2)] by (metis (no_types, lifting))
  have l: "length (vinfoBlockFile st) \<le> length fs" using f(3) unfolding length_grow by simp
  have "fs ! i = (if i < length (vinfoBlockFile st) then vinfoBlockFile st ! i else fileinfo_null)" if "i < length fs" for i
    using f(6) that nth_grow [where i = i and k = "nLastBlockFile st" and fs = "vinfoBlockFile st"] unfolding length_grow by (metis (no_types, lifting) max.strict_coboundedI1)
  then have sz: "file_size st i = (if i < length fs then unat (fi_nSize (fs ! i)) else 0)" for i
    using l z by (auto simp: file_size_def)
  have small: "unat (fi_nSize (fs ! f0)) < 2 ^ 27" "unat nAddSize < 2 ^ 27"
    using f(2,4) assms(2) by (auto simp: list_all_length MAX_BLOCKFILE_SIZE_def word_less_nat_alt)
  then have add: "unat (fi_nSize (fs ! f0) + nAddSize) = unat (fi_nSize (fs ! f0)) + unat nAddSize"
    by (intro unat_add_lem [THEN iffD1]) simp
  let ?info = "(fileinfo_AddBlock h t (fs ! f0))\<lparr>fi_nSize := fi_nSize (fs ! f0) + nAddSize\<rparr>"
  have ok: "?ok (fs[f0 := ?info])" using f(4,5) by (auto simp: list_all_iff dest!: set_update_subset_insert [THEN subsetD])
  have new: "(if i < length (fs[f0 := ?info]) then unat (fi_nSize (fs[f0 := ?info] ! i)) else 0) =
      (if i = f0 then file_size st f0 + unat nAddSize else file_size st i)" for i
    using f(2) add by (auto simp: sz nth_list_update)
  have bound: "file_size st f0 + unat nAddSize < 2 ^ 27"
    using f(2,5) add by (simp add: sz MAX_BLOCKFILE_SIZE_def word_less_nat_alt)
  have "\<exists>st' b. FindBlockPos space st pos nAddSize h t False = Some (pos\<lparr>pos_nFile := int f0, pos_nPos := fi_nSize (fs ! f0)\<rparr>, st', b) \<and>
      vinfoBlockFile st' = fs[f0 := ?info]"
    using f(1) by (auto simp: FindBlockPos_def Let_def)
  then obtain st' b where r: "FindBlockPos space st pos nAddSize h t False = Some (pos\<lparr>pos_nFile := int f0, pos_nPos := fi_nSize (fs ! f0)\<rparr>, st', b)"
    "vinfoBlockFile st' = fs[f0 := ?info]" by blast
  have "\<forall>i. file_size st' i = (if i = f0 then file_size st f0 + unat nAddSize else file_size st i)"
    unfolding file_size_def [of st'] r(2) using new by blast
  moreover have "files_ok st'" using ok by (simp add: files_ok_def r(2))
  ultimately show ?thesis using r(1) bound f(2) by (auto simp: sz)
qed

text \<open>A sequence of new blocks, each with its size, height and time; the positions they get as file, start and size.\<close>

fun place_blocks :: "(u32 \<Rightarrow> bool) \<Rightarrow> block_files \<Rightarrow> (u32 \<times> u32 \<times> u64) list \<Rightarrow> (int \<times> nat \<times> nat) list option" where
  "place_blocks space st [] = Some []"
| "place_blocks space st ((add, h, t) # rest) =
     (case FindBlockPos space st null_block_pos add h t False of
        None \<Rightarrow> None
      | Some (p, st', _) \<Rightarrow> map_option (\<lambda>ps. (pos_nFile p, unat (pos_nPos p), unat add) # ps) (place_blocks space st' rest))"

definition ranges_disjoint :: "(int \<times> nat \<times> nat) list \<Rightarrow> bool" where
  "ranges_disjoint ps \<longleftrightarrow> (\<forall>i j. i < j \<longrightarrow> j < length ps \<longrightarrow> fst (ps ! i) = fst (ps ! j) \<longrightarrow>
     fst (snd (ps ! i)) + snd (snd (ps ! i)) \<le> fst (snd (ps ! j)))"

lemma place_blocks_spec:
  "files_ok st \<Longrightarrow> list_all (\<lambda>(add, h, t). add < MAX_BLOCKFILE_SIZE) bs \<Longrightarrow>
   \<exists>ps. place_blocks space st bs = Some ps \<and> length ps = length bs \<and> ranges_disjoint ps \<and>
     (\<forall>(f, a, n) \<in> set ps. f \<ge> 0 \<and> file_size st (nat f) \<le> a \<and> a + n < 2 ^ 27)"
proof (induction bs arbitrary: st)
  case (Cons x bs)
  obtain add h t where x: "x = (add, h, t)" by (cases x)
  have "add < MAX_BLOCKFILE_SIZE" using Cons.prems x by simp
  from FindBlockPos_new [OF Cons.prems(1) this, of space null_block_pos h t] obtain p st' b f0 where
    s: "FindBlockPos space st null_block_pos add h t False = Some (p, st', b)" "files_ok st'" "pos_nFile p = int f0"
      "unat (pos_nPos p) = file_size st f0" "file_size st f0 + unat add < 2 ^ 27"
      "\<forall>i. file_size st' i = (if i = f0 then file_size st f0 + unat add else file_size st i)" by metis
  from Cons.IH [OF s(2)] Cons.prems(2) obtain ps where
    ps: "place_blocks space st' bs = Some ps" "length ps = length bs" "ranges_disjoint ps"
      "\<forall>(f, a, n) \<in> set ps. f \<ge> 0 \<and> file_size st' (nat f) \<le> a \<and> a + n < 2 ^ 27" by auto
  let ?p = "(int f0, file_size st f0, unat add)"
  have later: "file_size st f0 + unat add \<le> a" if "(int f0, a, n) \<in> set ps" for a n
    using ps(4) that s(6) by fastforce
  have mono: "file_size st i \<le> file_size st' i" for i using s(6) by simp
  have "ranges_disjoint (?p # ps)"
    unfolding ranges_disjoint_def
  proof (intro allI impI)
    fix i j
    assume a: "i < j" "j < length (?p # ps)" "fst ((?p # ps) ! i) = fst ((?p # ps) ! j)"
    then obtain k where k: "j = Suc k" "k < length ps" by (cases j) auto
    show "fst (snd ((?p # ps) ! i)) + snd (snd ((?p # ps) ! i)) \<le> fst (snd ((?p # ps) ! j))"
    proof (cases i)
      case 0
      obtain f b n where e: "ps ! k = (f, b, n)" by (cases "ps ! k")
      then have "(f, b, n) \<in> set ps" using nth_mem [OF k(2)] by simp
      then show ?thesis using a(3) 0 k(1) later e by simp
    next
      case (Suc l)
      then show ?thesis using a k ps(3) by (auto simp: ranges_disjoint_def)
    qed
  qed
  moreover have "\<forall>(f, a, n) \<in> set (?p # ps). f \<ge> 0 \<and> file_size st (nat f) \<le> a \<and> a + n < 2 ^ 27"
    using ps(4) s(5) mono by (fastforce intro: order.trans [OF mono])
  ultimately show ?case using x s ps by simp
qed (simp add: ranges_disjoint_def)

text \<open>
  C38. \<open>FindBlockPos\<close> never gives two blocks overlapping bytes.  From any state whose files are within the size limit, and for any sequence of
  blocks smaller than a file, the search for a file always ends, every block gets a position, the ranges of different blocks in the same file are
  disjoint and follow each other, and all end below the limit of 128 MiB; this holds also when the disk runs out of space on the way.\<close>

theorem block_positions_disjoint:
  assumes "files_ok st" "list_all (\<lambda>(add, h, t). add < MAX_BLOCKFILE_SIZE) bs"
  shows "\<exists>ps. place_blocks space st bs = Some ps \<and> length ps = length bs \<and> ranges_disjoint ps \<and>
    list_all (\<lambda>(f, a, n). a + n < unat MAX_BLOCKFILE_SIZE) ps"
  using place_blocks_spec [OF assms, of space] by (fastforce simp: list_all_iff MAX_BLOCKFILE_SIZE_def)

theorem block_positions_disjoint_witness:
  "\<exists>ps. place_blocks (\<lambda>_. True) \<lparr>vinfoBlockFile = [], nLastBlockFile = 0, setDirtyFileInfo = {}\<rparr> [(300, 1, 5), (0x7ffffff, 2, 6), (400, 3, 7)] = Some ps \<and>
     length ps = 3 \<and> ranges_disjoint ps"
proof -
  have "files_ok \<lparr>vinfoBlockFile = [], nLastBlockFile = 0, setDirtyFileInfo = {}\<rparr>" by (simp add: files_ok_def)
  moreover have "list_all (\<lambda>(add, h, t). add < MAX_BLOCKFILE_SIZE) [(300, 1 :: u32, 5 :: u64), (0x7ffffff, 2, 6), (400, 3, 7)]"
    by (simp add: MAX_BLOCKFILE_SIZE_def)
  ultimately show ?thesis using block_positions_disjoint [of _ _ "\<lambda>_. True"] by fastforce
qed

end
