(* ===== verification/TxDb.thy ===== *)
theory TxDb
  imports Compressor
begin

unbundle bit_operations_syntax

text \<open>
  The coin database: \<open>src/src/dbwrapper.h\<close>, \<open>txdb.cpp\<close> and \<open>sapling/sapling_txdb.cpp\<close>.  LevelDB is the map
  from byte strings to byte strings it documents; a batch is the sequence of its operations and is written
  atomically.  An I/O error, which the wrapper throws, is not modelled.  \<open>CCoinsViewDB::BatchWrite\<close> writes
  several batches: the model keeps the list of the states of the database after each of them, which are
  the states a crash can leave behind.  The record \<open>db_env\<close> holds what comes from outside: the curve, the
  Sapling tree with its serialisation, and the option \<open>-dbbatchsize\<close>.
\<close>

section \<open>Key-value store\<close>

type_synonym leveldb = "byte list \<Rightarrow> byte list option"

datatype db_op = Put "byte list" "byte list" | Delete "byte list"

record CDBBatch =
  batch_ops :: "db_op list"
  size_estimate :: nat

definition CDBBatch_new :: CDBBatch where
  "CDBBatch_new = \<lparr>batch_ops = [], size_estimate = 0\<rparr>"

definition batch_Clear :: "CDBBatch \<Rightarrow> CDBBatch" where
  "batch_Clear b = b\<lparr>batch_ops := [], size_estimate := 0\<rparr>"

definition batch_Write :: "byte list \<Rightarrow> byte list \<Rightarrow> CDBBatch \<Rightarrow> CDBBatch" where
  "batch_Write slKey slValue b = b\<lparr>batch_ops := batch_ops b @ [Put slKey slValue],
     size_estimate := size_estimate b + (3 + (if length slKey > 127 then 1 else 0) + length slKey +
       (if length slValue > 127 then 1 else 0) + length slValue)\<rparr>"

definition batch_Erase :: "byte list \<Rightarrow> CDBBatch \<Rightarrow> CDBBatch" where
  "batch_Erase slKey b = b\<lparr>batch_ops := batch_ops b @ [Delete slKey],
     size_estimate := size_estimate b + (2 + (if length slKey > 127 then 1 else 0) + length slKey)\<rparr>"

fun apply_op :: "db_op \<Rightarrow> leveldb \<Rightarrow> leveldb" where
  "apply_op (Put k v) d = d(k := Some v)"
| "apply_op (Delete k) d = d(k := None)"

definition WriteBatch :: "leveldb \<Rightarrow> CDBBatch \<Rightarrow> leveldb" where
  "WriteBatch d b = fold apply_op (batch_ops b) d"

definition db_Read :: "leveldb \<Rightarrow> byte list \<Rightarrow> 'a reader \<Rightarrow> 'a option" where
  "db_Read d slKey rd = (case d slKey of
       None \<Rightarrow> None
     | Some strValue \<Rightarrow> (case rd strValue of Inl _ \<Rightarrow> None | Inr (v, _) \<Rightarrow> Some v))"

definition db_Exists :: "leveldb \<Rightarrow> byte list \<Rightarrow> bool" where
  "db_Exists d slKey \<longleftrightarrow> d slKey \<noteq> None"

definition db_Write :: "leveldb \<Rightarrow> byte list \<Rightarrow> byte list \<Rightarrow> leveldb" where
  "db_Write d slKey slValue = WriteBatch d (batch_Write slKey slValue CDBBatch_new)"

definition db_Erase :: "leveldb \<Rightarrow> byte list \<Rightarrow> leveldb" where
  "db_Erase d slKey = WriteBatch d (batch_Erase slKey CDBBatch_new)"

section \<open>Keys\<close>

definition DB_COIN :: byte where "DB_COIN = 67"
definition DB_BEST_BLOCK :: byte where "DB_BEST_BLOCK = 66"
definition DB_HEAD_BLOCKS :: byte where "DB_HEAD_BLOCKS = 72"
definition DB_FLAG :: byte where "DB_FLAG = 70"
definition DB_REINDEX_FLAG :: byte where "DB_REINDEX_FLAG = 82"
definition DB_LAST_BLOCK :: byte where "DB_LAST_BLOCK = 108"
definition DB_SAPLING_ANCHOR :: byte where "DB_SAPLING_ANCHOR = 90"
definition DB_SAPLING_NULLIFIER :: byte where "DB_SAPLING_NULLIFIER = 83"
definition DB_BEST_SAPLING_ANCHOR :: byte where "DB_BEST_SAPLING_ANCHOR = 122"

lemmas db_chars = DB_COIN_def DB_BEST_BLOCK_def DB_HEAD_BLOCKS_def DB_FLAG_def DB_REINDEX_FLAG_def
  DB_LAST_BLOCK_def DB_SAPLING_ANCHOR_def DB_SAPLING_NULLIFIER_def DB_BEST_SAPLING_ANCHOR_def

definition CoinEntry :: "COutPoint \<Rightarrow> byte list" where
  "CoinEntry outpoint = [DB_COIN] @ Serialize_uint256 (op_hash outpoint) @ WriteVarInt (op_n outpoint)"

definition hash_key :: "byte \<Rightarrow> uint256 \<Rightarrow> byte list" where
  "hash_key dbChar h = [dbChar] @ Serialize_uint256 h"

record ('p, 't) db_env =
  env_ec_parse :: "byte list \<Rightarrow> 'p option"
  env_ec_ser :: "'p \<Rightarrow> byte list"
  env_tree_ser :: "'t \<Rightarrow> byte list"
  env_tree_unser :: "'t reader"
  env_empty_root :: uint256
  env_new_tree :: 't
  env_batch_size :: nat

section \<open>Reading\<close>

definition CoinsDB_GetCoin :: "('p, 't) db_env \<Rightarrow> leveldb \<Rightarrow> COutPoint \<Rightarrow> Coin option" where
  "CoinsDB_GetCoin E d outpoint = db_Read d (CoinEntry outpoint) (Unserialize_coin (env_ec_parse E) (env_ec_ser E) coinEmpty)"

definition CoinsDB_HaveCoin :: "leveldb \<Rightarrow> COutPoint \<Rightarrow> bool" where
  "CoinsDB_HaveCoin d outpoint = db_Exists d (CoinEntry outpoint)"

definition CoinsDB_GetBestBlock :: "leveldb \<Rightarrow> uint256" where
  "CoinsDB_GetBestBlock d = (case db_Read d [DB_BEST_BLOCK] Unserialize_uint256 of
     None \<Rightarrow> base_uint_zero 8 | Some hashBestChain \<Rightarrow> hashBestChain)"

text \<open>The vector of hashes is read in steps of \<open>5000000 / sizeof (uint256)\<close> elements.\<close>

definition CoinsDB_GetHeadBlocks :: "leveldb \<Rightarrow> uint256 list" where
  "CoinsDB_GetHeadBlocks d = (case db_Read d [DB_HEAD_BLOCKS] (Unserialize_vector Unserialize_uint256 156249) of
     None \<Rightarrow> [] | Some vhashHeadBlocks \<Rightarrow> vhashHeadBlocks)"

definition CoinsDB_GetSaplingAnchorAt :: "('p, 't) db_env \<Rightarrow> leveldb \<Rightarrow> uint256 \<Rightarrow> 't option" where
  "CoinsDB_GetSaplingAnchorAt E d rt = (if rt = env_empty_root E then Some (env_new_tree E)
     else db_Read d (hash_key DB_SAPLING_ANCHOR rt) (env_tree_unser E))"

definition CoinsDB_GetNullifier :: "leveldb \<Rightarrow> uint256 \<Rightarrow> bool" where
  "CoinsDB_GetNullifier d n \<longleftrightarrow> db_Read d (hash_key DB_SAPLING_NULLIFIER n) Unserialize_bool \<noteq> None"

definition CoinsDB_GetBestAnchor :: "('p, 't) db_env \<Rightarrow> leveldb \<Rightarrow> uint256" where
  "CoinsDB_GetBestAnchor E d = (case db_Read d [DB_BEST_SAPLING_ANCHOR] Unserialize_uint256 of
     None \<Rightarrow> env_empty_root E | Some hashBestAnchor \<Rightarrow> hashBestAnchor)"

section \<open>Writing\<close>

fun CoinsDB_BatchWriteNullifiers :: "CNullifiersMap \<Rightarrow> byte \<Rightarrow> CDBBatch \<Rightarrow> CDBBatch" where
  "CoinsDB_BatchWriteNullifiers [] dbChar batch = batch"
| "CoinsDB_BatchWriteNullifiers ((n, e) # rest) dbChar batch =
     CoinsDB_BatchWriteNullifiers rest dbChar
       (if nf_DIRTY e
        then (if \<not> nf_entered e then batch_Erase (hash_key dbChar n) batch
              else batch_Write (hash_key dbChar n) (Serialize_bool True) batch)
        else batch)"

fun CoinsDB_BatchWriteAnchors :: "('p, 't) db_env \<Rightarrow> 't CAnchorsSaplingMap \<Rightarrow> byte \<Rightarrow> CDBBatch \<Rightarrow> CDBBatch" where
  "CoinsDB_BatchWriteAnchors E [] dbChar batch = batch"
| "CoinsDB_BatchWriteAnchors E ((r, e) # rest) dbChar batch =
     CoinsDB_BatchWriteAnchors E rest dbChar
       (if anchor_DIRTY e
        then (if \<not> anchor_entered e then batch_Erase (hash_key dbChar r) batch
              else if r \<noteq> env_empty_root E then batch_Write (hash_key dbChar r) (env_tree_ser E (anchor_tree e)) batch
              else batch)
        else batch)"

definition BatchWriteSapling :: "('p, 't) db_env \<Rightarrow> uint256 \<Rightarrow> 't CAnchorsSaplingMap \<Rightarrow> CNullifiersMap \<Rightarrow> CDBBatch \<Rightarrow> CDBBatch" where
  "BatchWriteSapling E hashSaplingAnchorIn mapSaplingAnchors mapSaplingNullifiers batch =
     (let batch = CoinsDB_BatchWriteAnchors E mapSaplingAnchors DB_SAPLING_ANCHOR batch;
          batch = CoinsDB_BatchWriteNullifiers mapSaplingNullifiers DB_SAPLING_NULLIFIER batch
      in if \<not> bu_is_null hashSaplingAnchorIn
         then batch_Write [DB_BEST_SAPLING_ANCHOR] (Serialize_uint256 hashSaplingAnchorIn) batch else batch)"

text \<open>The loop over the coins: the batch that is being filled and the states written so far.\<close>

fun write_coins :: "('p, 't) db_env \<Rightarrow> CCoinsMap \<Rightarrow> CDBBatch \<Rightarrow> leveldb list \<Rightarrow> coins_error + (CDBBatch \<times> leveldb list)" where
  "write_coins E [] batch ds = Inr (batch, ds)"
| "write_coins E ((p, e) # rest) batch ds =
     (case (if DIRTY e
            then (if coin_IsSpent (entry_coin e) then Inr (batch_Erase (CoinEntry p) batch)
                  else (case Serialize_coin (env_ec_parse E) (entry_coin e) of
                          None \<Rightarrow> Inl AddingSpentCoin
                        | Some v \<Rightarrow> Inr (batch_Write (CoinEntry p) v batch)))
            else Inr batch) of
        Inl err \<Rightarrow> Inl err
      | Inr batch \<Rightarrow>
          if size_estimate batch > env_batch_size E
          then write_coins E rest (batch_Clear batch) (ds @ [WriteBatch (last ds) batch])
          else write_coins E rest batch ds)"

definition old_tip_of :: "leveldb \<Rightarrow> uint256 \<Rightarrow> coins_error + uint256" where
  "old_tip_of d hashBlockIn = (let old_tip = CoinsDB_GetBestBlock d in
     if bu_is_null old_tip
     then (let old_heads = CoinsDB_GetHeadBlocks d in
           if length old_heads = 2
           then (if old_heads ! 0 = hashBlockIn then Inr (old_heads ! 1) else Inl HeadMismatch)
           else Inr old_tip)
     else Inr old_tip)"

definition CoinsDB_BatchWrite :: "('p, 't) db_env \<Rightarrow> leveldb \<Rightarrow> CCoinsMap \<Rightarrow> uint256 \<Rightarrow> uint256 \<Rightarrow> 't CAnchorsSaplingMap \<Rightarrow>
    CNullifiersMap \<Rightarrow> coins_error + (bool \<times> leveldb list)" where
  "CoinsDB_BatchWrite E d mapCoins hashBlockIn hashSaplingAnchorIn mapSaplingAnchors mapSaplingNullifiers =
     (if bu_is_null hashBlockIn then Inl NullBlockHash
      else case old_tip_of d hashBlockIn of
        Inl err \<Rightarrow> Inl err
      | Inr old_tip \<Rightarrow>
          (let batch = batch_Erase [DB_BEST_BLOCK] CDBBatch_new;
               batch = batch_Write [DB_HEAD_BLOCKS] (Serialize_vector Serialize_uint256 [hashBlockIn, old_tip]) batch
           in case write_coins E mapCoins batch [d] of
             Inl err \<Rightarrow> Inl err
           | Inr (batch, ds) \<Rightarrow>
               (let batch = BatchWriteSapling E hashSaplingAnchorIn mapSaplingAnchors mapSaplingNullifiers batch;
                    batch = batch_Erase [DB_HEAD_BLOCKS] batch;
                    batch = batch_Write [DB_BEST_BLOCK] (Serialize_uint256 hashBlockIn) batch
                in Inr (True, tl ds @ [WriteBatch (last ds) batch]))))"

definition db_view :: "('p, 't) db_env \<Rightarrow> (leveldb, 't) CCoinsView" where
  "db_view E = \<lparr>view_GetCoin = (\<lambda>d p. (CoinsDB_GetCoin E d p, d)), view_HaveCoin = (\<lambda>d p. (CoinsDB_HaveCoin d p, d)),
     view_GetBestBlock = (\<lambda>d. (CoinsDB_GetBestBlock d, d)),
     view_BatchWrite = (\<lambda>d m h a ms ns. case CoinsDB_BatchWrite E d m h a ms ns of
        Inl err \<Rightarrow> Inl err | Inr (r, ds) \<Rightarrow> Inr (r, last ds)),
     view_GetSaplingAnchorAt = (\<lambda>d r. (CoinsDB_GetSaplingAnchorAt E d r, d)),
     view_GetNullifier = (\<lambda>d n. (CoinsDB_GetNullifier d n, d)), view_GetBestAnchor = (\<lambda>d. (CoinsDB_GetBestAnchor E d, d))\<rparr>"

section \<open>Flags of the block index database\<close>

definition name_key :: "byte \<Rightarrow> byte list \<Rightarrow> byte list" where
  "name_key dbChar nm = [dbChar] @ Serialize_bytes nm"

definition WriteReindexing :: "leveldb \<Rightarrow> bool \<Rightarrow> leveldb" where
  "WriteReindexing d fReindexing = (if fReindexing then db_Write d [DB_REINDEX_FLAG] [49] else db_Erase d [DB_REINDEX_FLAG])"

definition ReadReindexing :: "leveldb \<Rightarrow> bool" where
  "ReadReindexing d = db_Exists d [DB_REINDEX_FLAG]"

definition ReadLastBlockFile :: "leveldb \<Rightarrow> int option" where
  "ReadLastBlockFile d = db_Read d [DB_LAST_BLOCK] Unserialize_int32"

definition WriteFlag :: "leveldb \<Rightarrow> byte list \<Rightarrow> bool \<Rightarrow> leveldb" where
  "WriteFlag d nm fValue = db_Write d (name_key DB_FLAG nm) [if fValue then 49 else 48]"

definition ReadFlag :: "leveldb \<Rightarrow> byte list \<Rightarrow> bool option" where
  "ReadFlag d nm = map_option (\<lambda>ch. ch = 49) (db_Read d (name_key DB_FLAG nm) ser_readdata8)"

definition WriteInt :: "leveldb \<Rightarrow> byte list \<Rightarrow> int \<Rightarrow> leveldb" where
  "WriteInt d nm n = db_Write d (name_key 73 nm) (Serialize_int32 n)"

definition ReadInt :: "leveldb \<Rightarrow> byte list \<Rightarrow> int option" where
  "ReadInt d nm = db_Read d (name_key 73 nm) Unserialize_int32"

section \<open>What a batch does to one key\<close>

fun op_key :: "db_op \<Rightarrow> byte list" where
  "op_key (Put k v) = k"
| "op_key (Delete k) = k"

lemma apply_op_other: "op_key op \<noteq> k \<Longrightarrow> apply_op op d k = d k"
  by (cases op) auto

lemma fold_other: "k \<notin> op_key ` set ops \<Longrightarrow> fold apply_op ops d k = d k"
  by (induction ops arbitrary: d) (auto simp: apply_op_other)

lemma WriteBatch_simps [simp]:
  "WriteBatch d (batch_Write k v b) = (WriteBatch d b)(k := Some v)"
  "WriteBatch d (batch_Erase k b) = (WriteBatch d b)(k := None)"
  "WriteBatch d (batch_Clear b) = d" "WriteBatch d CDBBatch_new = d"
  by (simp_all add: WriteBatch_def batch_Write_def batch_Erase_def batch_Clear_def CDBBatch_new_def)

lemma CoinEntry_inj: "outpoint_ok p \<Longrightarrow> outpoint_ok q \<Longrightarrow> CoinEntry p = CoinEntry q \<Longrightarrow> p = q"
proof -
  assume ok: "outpoint_ok p" "outpoint_ok q" and e: "CoinEntry p = CoinEntry q"
  have "Serialize_uint256 (op_hash p) @ WriteVarInt (op_n p) = Serialize_uint256 (op_hash q) @ WriteVarInt (op_n q)"
    using e by (simp add: CoinEntry_def)
  then have h: "op_hash p = op_hash q" "WriteVarInt (op_n p) = WriteVarInt (op_n q)"
    using uint256_codec.prefix_free ok unfolding outpoint_ok_def by blast+
  have "op_n p = op_n q" using varint_codec.ser_inj h(2) by (auto simp: inj_on_def)
  then show "p = q" using h(1) by simp
qed

lemma hash_key_inj: "WIDTH n = 8 \<Longrightarrow> WIDTH n' = 8 \<Longrightarrow> hash_key c n = hash_key c n' \<Longrightarrow> n = n'"
  using uint256_codec.ser_inj by (auto simp: hash_key_def inj_on_def)

text \<open>The operations that the three loops queue.\<close>

definition coin_op :: "('p, 't) db_env \<Rightarrow> COutPoint \<times> CCoinsCacheEntry \<Rightarrow> db_op list" where
  "coin_op E pe = (if DIRTY (snd pe)
     then [case (if coin_IsSpent (entry_coin (snd pe)) then None else Serialize_coin (env_ec_parse E) (entry_coin (snd pe))) of
             None \<Rightarrow> Delete (CoinEntry (fst pe)) | Some v \<Rightarrow> Put (CoinEntry (fst pe)) v]
     else [])"

definition coin_ops :: "('p, 't) db_env \<Rightarrow> CCoinsMap \<Rightarrow> db_op list" where
  "coin_ops E m = concat (map (coin_op E) m)"

definition nf_op :: "uint256 \<times> CNullifiersCacheEntry \<Rightarrow> db_op list" where
  "nf_op ne = (if nf_DIRTY (snd ne)
     then [if nf_entered (snd ne) then Put (hash_key DB_SAPLING_NULLIFIER (fst ne)) (Serialize_bool True)
           else Delete (hash_key DB_SAPLING_NULLIFIER (fst ne))]
     else [])"

definition nf_ops :: "CNullifiersMap \<Rightarrow> db_op list" where
  "nf_ops ns = concat (map nf_op ns)"

lemma write_coins_ops:
  "ds \<noteq> [] \<Longrightarrow> \<exists>b' ws. write_coins E m b ds = Inr (b', ds @ ws) \<and>
     WriteBatch (last (ds @ ws)) b' = fold apply_op (coin_ops E m) (WriteBatch (last ds) b) \<and>
     (\<forall>w \<in> set ws. \<exists>i. w = fold apply_op (coin_ops E (take i m)) (WriteBatch (last ds) b))"
proof (induction m arbitrary: b ds)
  case Nil
  then show ?case by (simp add: coin_ops_def)
next
  case (Cons pe rest)
  obtain p e where pe: "pe = (p, e)" by (cases pe)
  define b1 where "b1 = (if DIRTY e then (if coin_IsSpent (entry_coin e) then batch_Erase (CoinEntry p) b
      else batch_Write (CoinEntry p) (the (Serialize_coin (env_ec_parse E) (entry_coin e))) b) else b)"
  have v: "WriteBatch d b1 = fold apply_op (coin_op E pe) (WriteBatch d b)" for d
    by (simp add: b1_def coin_op_def pe Serialize_coin_def)
  have step: "write_coins E (pe # rest) b ds = (if size_estimate b1 > env_batch_size E
      then write_coins E rest (batch_Clear b1) (ds @ [WriteBatch (last ds) b1]) else write_coins E rest b1 ds)"
    by (simp add: pe b1_def Serialize_coin_def)
  have tk: "\<exists>i. w = fold apply_op (coin_ops E (take i (pe # rest))) (WriteBatch (last ds) b)"
    if "w = fold apply_op (coin_ops E (take i rest)) (WriteBatch (last ds) b1)" for i w
    using that by (intro exI [of _ "Suc i"]) (simp add: v coin_ops_def)
  show ?case
  proof (cases "size_estimate b1 > env_batch_size E")
    case True
    let ?w = "WriteBatch (last ds) b1"
    from Cons.IH [of "ds @ [?w]" "batch_Clear b1"] obtain b' ws where ih:
      "write_coins E rest (batch_Clear b1) (ds @ [?w]) = Inr (b', (ds @ [?w]) @ ws)"
      "WriteBatch (last ((ds @ [?w]) @ ws)) b' = fold apply_op (coin_ops E rest) ?w"
      "\<forall>w \<in> set ws. \<exists>i. w = fold apply_op (coin_ops E (take i rest)) ?w" by auto
    have "\<exists>i. ?w = fold apply_op (coin_ops E (take i rest)) ?w" by (intro exI [of _ 0]) (simp add: coin_ops_def)
    then have "\<forall>w \<in> set (?w # ws). \<exists>i. w = fold apply_op (coin_ops E (take i (pe # rest))) (WriteBatch (last ds) b)"
      using ih(3) tk by (metis set_ConsD)
    moreover have "WriteBatch (last (ds @ ?w # ws)) b' = fold apply_op (coin_ops E (pe # rest)) (WriteBatch (last ds) b)"
      using ih(2) by (simp add: v coin_ops_def)
    ultimately show ?thesis using step True ih(1)
      by (intro exI [of _ b'] exI [of _ "?w # ws"]) simp
  next
    case False
    from Cons.IH [OF Cons.prems, of b1] obtain b' ws where ih: "write_coins E rest b1 ds = Inr (b', ds @ ws)"
      "WriteBatch (last (ds @ ws)) b' = fold apply_op (coin_ops E rest) (WriteBatch (last ds) b1)"
      "\<forall>w \<in> set ws. \<exists>i. w = fold apply_op (coin_ops E (take i rest)) (WriteBatch (last ds) b1)" by auto
    have "\<forall>w \<in> set ws. \<exists>i. w = fold apply_op (coin_ops E (take i (pe # rest))) (WriteBatch (last ds) b)"
      using ih(3) tk by blast
    then show ?thesis using step False ih(1,2) by (auto simp: v coin_ops_def)
  qed
qed

lemma coin_op_key: "op \<in> set (coin_op E pe) \<Longrightarrow> op_key op = CoinEntry (fst pe)"
  by (auto simp: coin_op_def split: if_splits option.splits)

lemma nf_op_key: "op \<in> set (nf_op ne) \<Longrightarrow> op_key op = hash_key DB_SAPLING_NULLIFIER (fst ne)"
  by (auto simp: nf_op_def split: if_splits)

lemma ops_keys:
  "op_key ` set (coin_ops E m) \<subseteq> CoinEntry ` fst ` set m"
  "op_key ` set (nf_ops ns) \<subseteq> hash_key DB_SAPLING_NULLIFIER ` fst ` set ns"
  by (force simp: coin_ops_def coin_op_key, force simp: nf_ops_def nf_op_key)

lemma ops_hd: "k \<in> op_key ` set (coin_ops E m) \<Longrightarrow> hd k = DB_COIN" "k \<in> op_key ` set (nf_ops ns) \<Longrightarrow> hd k = DB_SAPLING_NULLIFIER"
  using ops_keys(1) [of E m] ops_keys(2) [of ns] by (auto simp: CoinEntry_def hash_key_def subset_iff)

text \<open>A key that no element of a list shares with a given one.\<close>

lemma coin_key_fresh:
  assumes "\<forall>q \<in> fst ` set m. outpoint_ok q" and "outpoint_ok p" and "p \<notin> fst ` set m"
  shows "CoinEntry p \<notin> op_key ` set (coin_ops E m)"
  using ops_keys(1) [of E m] CoinEntry_inj assms by (metis imageE subsetD)

lemma nf_key_fresh:
  assumes "\<forall>q \<in> fst ` set ns. WIDTH q = 8" and "WIDTH n = 8" and "n \<notin> fst ` set ns"
  shows "hash_key DB_SAPLING_NULLIFIER n \<notin> op_key ` set (nf_ops ns)"
  using ops_keys(2) [of ns] hash_key_inj [OF assms(2), of _ DB_SAPLING_NULLIFIER] assms(1,3) by blast

text \<open>The value of a coin record after the operations of a map of coins.\<close>

lemma coin_ops_lookup:
  assumes "\<forall>q \<in> fst ` set m. outpoint_ok q" and "distinct (map fst m)" and "outpoint_ok p"
  shows "fold apply_op (coin_ops E m) d (CoinEntry p) = (case map_of m p of
     Some e \<Rightarrow> if DIRTY e then (if coin_IsSpent (entry_coin e) then None else Serialize_coin (env_ec_parse E) (entry_coin e))
               else d (CoinEntry p)
   | None \<Rightarrow> d (CoinEntry p))"
  using assms
proof (induction m arbitrary: d)
  case Nil
  then show ?case by (simp add: coin_ops_def)
next
  case (Cons qe rest)
  obtain q e where qe: "qe = (q, e)" by (cases qe)
  let ?d = "fold apply_op (coin_op E qe) d"
  have fold: "fold apply_op (coin_ops E (qe # rest)) d (CoinEntry p) = fold apply_op (coin_ops E rest) ?d (CoinEntry p)"
    by (simp add: coin_ops_def)
  show ?case
  proof (cases "q = p")
    case True
    have "CoinEntry p \<notin> op_key ` set (coin_ops E rest)"
      by (rule coin_key_fresh) (use Cons.prems in \<open>simp_all add: qe True\<close>)
    from fold_other [OF this, of ?d] show ?thesis by (simp only: fold) (simp add: qe True coin_op_def Serialize_coin_def)
  next
    case False
    have "?d (CoinEntry p) = d (CoinEntry p)"
      using CoinEntry_inj [of q p] Cons.prems(1,3) False by (intro fold_other) (auto simp: qe dest!: coin_op_key)
    then show ?thesis using False Cons.IH [of ?d] Cons.prems by (simp only: fold) (simp add: qe)
  qed
qed

lemma nf_ops_lookup:
  assumes "\<forall>q \<in> fst ` set ns. WIDTH q = 8" and "distinct (map fst ns)" and "WIDTH n = 8"
  shows "fold apply_op (nf_ops ns) d (hash_key DB_SAPLING_NULLIFIER n) = (case map_of ns n of
     Some e \<Rightarrow> if nf_DIRTY e then (if nf_entered e then Some (Serialize_bool True) else None) else d (hash_key DB_SAPLING_NULLIFIER n)
   | None \<Rightarrow> d (hash_key DB_SAPLING_NULLIFIER n))"
  using assms
proof (induction ns arbitrary: d)
  case Nil
  then show ?case by (simp add: nf_ops_def)
next
  case (Cons qe rest)
  obtain q e where qe: "qe = (q, e)" by (cases qe)
  let ?d = "fold apply_op (nf_op qe) d" and ?k = "hash_key DB_SAPLING_NULLIFIER n"
  have fold: "fold apply_op (nf_ops (qe # rest)) d ?k = fold apply_op (nf_ops rest) ?d ?k"
    by (simp add: nf_ops_def)
  show ?case
  proof (cases "q = n")
    case True
    have "?k \<notin> op_key ` set (nf_ops rest)"
      by (rule nf_key_fresh) (use Cons.prems in \<open>simp_all add: qe True\<close>)
    from fold_other [OF this, of ?d] show ?thesis by (simp only: fold) (simp add: qe True nf_op_def)
  next
    case False
    have "?d ?k = d ?k"
      using hash_key_inj [of q n DB_SAPLING_NULLIFIER] Cons.prems(1,3) False by (intro fold_other) (auto simp: qe dest!: nf_op_key)
    then show ?thesis using False Cons.IH [of ?d] Cons.prems by (simp only: fold) (simp add: qe)
  qed
qed

lemma BatchWriteNullifiers_ops:
  "WriteBatch d (CoinsDB_BatchWriteNullifiers ns DB_SAPLING_NULLIFIER b) = fold apply_op (nf_ops ns) (WriteBatch d b)"
proof (induction ns arbitrary: b)
  case (Cons ne rest)
  then show ?case by (cases ne) (simp add: nf_ops_def nf_op_def)
qed (simp add: nf_ops_def)

lemma BatchWriteAnchors_other:
  "hd k \<noteq> DB_SAPLING_ANCHOR \<Longrightarrow> WriteBatch d (CoinsDB_BatchWriteAnchors E ms DB_SAPLING_ANCHOR b) k = WriteBatch d b k"
proof (induction ms arbitrary: b)
  case (Cons re rest)
  then show ?case by (cases re) (auto simp: hash_key_def)
qed simp

text \<open>Sapling writes touch neither coins nor markers, and exactly the dirty nullifiers.\<close>

lemma BatchWriteSapling_lookup:
  "hd k \<notin> {DB_SAPLING_ANCHOR, DB_SAPLING_NULLIFIER, DB_BEST_SAPLING_ANCHOR} \<Longrightarrow>
     WriteBatch d (BatchWriteSapling E a ms ns b) k = WriteBatch d b k"
  "WIDTH n = 8 \<Longrightarrow> nullifiers_valid ns \<Longrightarrow> WriteBatch d (BatchWriteSapling E a ms ns b) (hash_key DB_SAPLING_NULLIFIER n) =
     fold apply_op (nf_ops ns) (WriteBatch d b) (hash_key DB_SAPLING_NULLIFIER n)"
proof -
  let ?b = "CoinsDB_BatchWriteAnchors E ms DB_SAPLING_ANCHOR b"
  have w: "WriteBatch d (BatchWriteSapling E a ms ns b) k = fold apply_op (nf_ops ns) (WriteBatch d ?b) k"
    if "k \<noteq> [DB_BEST_SAPLING_ANCHOR]" for k
    using that by (simp add: BatchWriteSapling_def BatchWriteNullifiers_ops Let_def)
  show "WriteBatch d (BatchWriteSapling E a ms ns b) k = WriteBatch d b k"
    if k: "hd k \<notin> {DB_SAPLING_ANCHOR, DB_SAPLING_NULLIFIER, DB_BEST_SAPLING_ANCHOR}"
  proof -
    have "k \<notin> op_key ` set (nf_ops ns)" using k ops_hd(2) by auto
    moreover have "k \<noteq> [DB_BEST_SAPLING_ANCHOR]" using k by auto
    ultimately show ?thesis using k w by (simp add: fold_other BatchWriteAnchors_other)
  qed
  show "WriteBatch d (BatchWriteSapling E a ms ns b) (hash_key DB_SAPLING_NULLIFIER n) =
     fold apply_op (nf_ops ns) (WriteBatch d b) (hash_key DB_SAPLING_NULLIFIER n)" if "WIDTH n = 8" "nullifiers_valid ns"
  proof -
    have "\<forall>q \<in> fst ` set ns. WIDTH q = 8" "distinct (map fst ns)"
      using that(2) by (fastforce simp: nullifiers_valid_def)+
    note look = nf_ops_lookup [OF this that(1)]
    let ?k = "hash_key DB_SAPLING_NULLIFIER n"
    have b: "WriteBatch d ?b ?k = WriteBatch d b ?k" by (rule BatchWriteAnchors_other) (simp add: hash_key_def db_chars)
    have "?k \<noteq> [DB_BEST_SAPLING_ANCHOR]" by (simp add: hash_key_def db_chars)
    from w [OF this] show ?thesis by (simp only: look b)
  qed
qed

section \<open>The database is a view\<close>

definition db_utxo :: "('p, 't) db_env \<Rightarrow> leveldb \<Rightarrow> COutPoint \<Rightarrow> Coin option" where
  "db_utxo E d p = (if outpoint_ok p then CoinsDB_GetCoin E d p else None)"

definition db_nf :: "leveldb \<Rightarrow> uint256 \<Rightarrow> bool" where
  "db_nf d n \<longleftrightarrow> WIDTH n = 8 \<and> CoinsDB_GetNullifier d n"

text \<open>The invariant: no transition is under way and every coin record holds a coin that can be stored.\<close>

abbreviation env_ok :: "('p, 't) db_env \<Rightarrow> bool" where
  "env_ok E \<equiv> ec_laws (env_ec_parse E) (env_ec_ser E)"

definition db_ok :: "('p, 't) db_env \<Rightarrow> leveldb \<Rightarrow> bool" where
  "db_ok E d \<longleftrightarrow> env_ok E \<and> d [DB_HEAD_BLOCKS] = None \<and> (\<forall>p coin. db_utxo E d p = Some coin \<longrightarrow> coin_ok coin)"

text \<open>Databases that agree on the coin records after a map of coins was applied.\<close>

lemma db_utxo_apply:
  assumes "env_ok E" and "batch_valid m u"
    and "\<And>p. outpoint_ok p \<Longrightarrow> d' (CoinEntry p) = fold apply_op (coin_ops E m) d (CoinEntry p)"
  shows "db_utxo E d' = apply_coins m (db_utxo E d)"
proof
  fix p
  have m: "\<forall>q \<in> fst ` set m. outpoint_ok q" "distinct (map fst m)" using assms(2) by (auto simp: batch_valid_entries)
  show "db_utxo E d' p = apply_coins m (db_utxo E d) p"
  proof (cases "outpoint_ok p")
    case False
    then have "map_of m p = None" using m(1) by (metis map_of_eq_None_iff)
    then show ?thesis using False by (simp add: db_utxo_def apply_coins_def)
  next
    case True
    note d' = assms(3) [OF True, unfolded coin_ops_lookup [OF m True]]
    show ?thesis
    proof (cases "\<exists>e. map_of m p = Some e \<and> DIRTY e \<and> \<not> coin_IsSpent (entry_coin e)")
      case False
      then show ?thesis using True d'
        by (auto simp: db_utxo_def apply_coins_def CoinsDB_GetCoin_def db_Read_def visible_def split: option.split)
    next
      case unspent: True
      then obtain e where e: "map_of m p = Some e" "DIRTY e" "\<not> coin_IsSpent (entry_coin e)" by blast
      then have "coin_ok (entry_coin e)" using assms(2) unfolding batch_valid_def by blast
      from coin_storage [OF assms(1) this] obtain bs where
        "Serialize_coin (env_ec_parse E) (entry_coin e) = Some bs"
        "Unserialize_coin (env_ec_parse E) (env_ec_ser E) coinEmpty bs = Inr (entry_coin e, [])"
        by (metis append_Nil2)
      then show ?thesis using True d' e by (simp add: db_utxo_def apply_coins_def CoinsDB_GetCoin_def db_Read_def)
    qed
  qed
qed

lemma db_nf_apply:
  assumes "nullifiers_valid ns"
    and "\<And>n. WIDTH n = 8 \<Longrightarrow> d' (hash_key DB_SAPLING_NULLIFIER n) = fold apply_op (nf_ops ns) d (hash_key DB_SAPLING_NULLIFIER n)"
  shows "db_nf d' = apply_nullifiers ns (db_nf d)"
proof
  fix n
  have m: "\<forall>q \<in> fst ` set ns. WIDTH q = 8" "distinct (map fst ns)" using assms(1) by (fastforce simp: nullifiers_valid_def)+
  show "db_nf d' n = apply_nullifiers ns (db_nf d) n"
  proof (cases "WIDTH n = 8")
    case False
    then have "map_of ns n = None" using m(1) by (metis map_of_eq_None_iff)
    then show ?thesis using False by (simp add: db_nf_def apply_nullifiers_def)
  next
    case True
    have "Unserialize_bool (Serialize_bool True) = Inr (True, [])" by (rule bool_codec.unser_ser_only) simp
    then show ?thesis using True assms(2) [OF True, unfolded nf_ops_lookup [OF m True]]
      by (auto simp: db_nf_def apply_nullifiers_def CoinsDB_GetNullifier_def db_Read_def split: option.split)
  qed
qed

interpretation hashes_codec: canonical_codec "Serialize_vector Serialize_uint256" "Unserialize_vector Unserialize_uint256 k"
  "\<lambda>v. list_all (\<lambda>x. WIDTH x = 8) v \<and> length v \<le> MAX_SIZE" for k
  by (rule vector_codec(1)) (rule uint256_codec.canonical_codec_axioms)

lemma WIDTH_GetBestBlock: "WIDTH (CoinsDB_GetBestBlock d) = 8"
  by (auto simp: CoinsDB_GetBestBlock_def db_Read_def uint256_codec.unser_iff split: option.split sum.split prod.split)

text \<open>All states of the database that one call of \<open>BatchWrite\<close> leaves behind.\<close>

definition marked :: "leveldb \<Rightarrow> uint256 \<Rightarrow> uint256 \<Rightarrow> leveldb" where
  "marked d h old_tip = d([DB_BEST_BLOCK] := None, [DB_HEAD_BLOCKS] := Some (Serialize_vector Serialize_uint256 [h, old_tip]))"

lemma old_tip_ok: "d [DB_HEAD_BLOCKS] = None \<Longrightarrow> old_tip_of d h = Inr (CoinsDB_GetBestBlock d)"
  by (simp add: old_tip_of_def CoinsDB_GetHeadBlocks_def db_Read_def Let_def)

lemma CoinEntry_neq: "CoinEntry p \<noteq> [DB_BEST_BLOCK]" "CoinEntry p \<noteq> [DB_HEAD_BLOCKS]"
  "hd (CoinEntry p) \<notin> {DB_SAPLING_ANCHOR, DB_SAPLING_NULLIFIER, DB_BEST_SAPLING_ANCHOR}"
  "hash_key DB_SAPLING_NULLIFIER n \<noteq> [DB_BEST_BLOCK]" "hash_key DB_SAPLING_NULLIFIER n \<noteq> [DB_HEAD_BLOCKS]"
  by (simp_all add: CoinEntry_def hash_key_def db_chars)

lemma BatchWrite_states:
  assumes "d [DB_HEAD_BLOCKS] = None" and "\<not> bu_is_null h" and "nullifiers_valid ns"
  shows "\<exists>ws d'. CoinsDB_BatchWrite E d m h a ms ns = Inr (True, ws @ [d']) \<and>
    (\<forall>w \<in> set ws. \<exists>i. w = fold apply_op (coin_ops E (take i m)) (marked d h (CoinsDB_GetBestBlock d))) \<and>
    (\<forall>p. d' (CoinEntry p) = fold apply_op (coin_ops E m) (marked d h (CoinsDB_GetBestBlock d)) (CoinEntry p)) \<and>
    (\<forall>n. WIDTH n = 8 \<longrightarrow> d' (hash_key DB_SAPLING_NULLIFIER n) = fold apply_op (nf_ops ns) d (hash_key DB_SAPLING_NULLIFIER n)) \<and>
    d' [DB_HEAD_BLOCKS] = None \<and> d' [DB_BEST_BLOCK] = Some (Serialize_uint256 h)"
proof -
  let ?M = "marked d h (CoinsDB_GetBestBlock d)"
  define b0 where "b0 = batch_Write [DB_HEAD_BLOCKS] (Serialize_vector Serialize_uint256 [h, CoinsDB_GetBestBlock d])
    (batch_Erase [DB_BEST_BLOCK] CDBBatch_new)"
  have M: "WriteBatch d b0 = ?M" by (simp add: b0_def marked_def)
  obtain b ws where w: "write_coins E m b0 [d] = Inr (b, [d] @ ws)"
      "WriteBatch (last ([d] @ ws)) b = fold apply_op (coin_ops E m) ?M"
      "\<forall>w \<in> set ws. \<exists>i. w = fold apply_op (coin_ops E (take i m)) ?M"
    using write_coins_ops [of "[d]" E m b0] by (auto simp: M)
  define L where "L = last ([d] @ ws)"
  note w2 = w(2) [folded L_def]
  define W where "W = WriteBatch L (BatchWriteSapling E a ms ns b)"
  define d' where "d' = W([DB_HEAD_BLOCKS] := None, [DB_BEST_BLOCK] := Some (Serialize_uint256 h))"
  have "CoinsDB_BatchWrite E d m h a ms ns = Inr (True, ws @ [d'])"
    using assms(2) w(1) by (simp add: CoinsDB_BatchWrite_def old_tip_ok [of d, OF assms(1)] b0_def [symmetric] Let_def d'_def W_def L_def)
  moreover have "d' (CoinEntry p) = fold apply_op (coin_ops E m) ?M (CoinEntry p)" for p
    by (simp add: d'_def CoinEntry_neq W_def w2 BatchWriteSapling_lookup(1) [OF CoinEntry_neq(3)])
  moreover have "d' (hash_key DB_SAPLING_NULLIFIER n) = fold apply_op (nf_ops ns) d (hash_key DB_SAPLING_NULLIFIER n)"
    if n: "WIDTH n = 8" for n
  proof -
    let ?k = "hash_key DB_SAPLING_NULLIFIER n"
    have v: "\<forall>q \<in> fst ` set ns. WIDTH q = 8" "distinct (map fst ns)" using assms(3) by (fastforce simp: nullifiers_valid_def)+
    have "?k \<notin> op_key ` set (coin_ops E m)" using ops_hd(1) [of ?k E m] by (auto simp: hash_key_def db_chars)
    then have "fold apply_op (coin_ops E m) ?M ?k = d ?k" by (simp add: fold_other marked_def CoinEntry_neq)
    moreover have "W ?k = fold apply_op (nf_ops ns) (fold apply_op (coin_ops E m) ?M) ?k"
      by (simp add: W_def w2 BatchWriteSapling_lookup(2) [OF n assms(3)])
    ultimately show ?thesis by (simp add: d'_def CoinEntry_neq nf_ops_lookup [OF v n] split: option.split)
  qed
  moreover have "d' [DB_HEAD_BLOCKS] = None" "d' [DB_BEST_BLOCK] = Some (Serialize_uint256 h)"
    by (simp_all add: d'_def db_chars)
  ultimately show ?thesis using w(3) by blast
qed

lemma marked_coin: "fold apply_op (coin_ops E m) (marked d h t) (CoinEntry p) = fold apply_op (coin_ops E m) d (CoinEntry p)"
  if "\<forall>q \<in> fst ` set m. outpoint_ok q" "distinct (map fst m)" "outpoint_ok p"
  by (simp add: coin_ops_lookup [OF that] marked_def CoinEntry_neq split: option.split)

lemma apply_coins_coin_ok:
  assumes "batch_valid m u" and "\<And>p coin. u p = Some coin \<Longrightarrow> coin_ok coin" and "apply_coins m u p = Some coin"
  shows "coin_ok coin"
proof (cases "map_of m p")
  case None
  then show ?thesis using assms(2,3) by (simp add: apply_coins_def)
next
  case (Some e)
  then have "DIRTY e \<longrightarrow> coin_IsSpent (entry_coin e) \<or> coin_ok (entry_coin e)" using assms(1) unfolding batch_valid_def by blast
  then show ?thesis using assms(2,3) Some by (auto simp: apply_coins_def visible_def split: if_splits)
qed

lemma CoinsDB_BatchWrite_refines:
  assumes d: "db_ok E d" and m: "batch_valid m (db_utxo E d)" and ns: "nullifiers_valid ns" and h: "\<not> bu_is_null h"
  shows "\<exists>ws d'. CoinsDB_BatchWrite E d m h a ms ns = Inr (True, ws @ [d']) \<and> db_ok E d' \<and>
    db_utxo E d' = apply_coins m (db_utxo E d) \<and> db_nf d' = apply_nullifiers ns (db_nf d) \<and>
    d' [DB_BEST_BLOCK] = Some (Serialize_uint256 h) \<and>
    (\<forall>w \<in> set ws. \<exists>i. w = fold apply_op (coin_ops E (take i m)) (marked d h (CoinsDB_GetBestBlock d)))"
proof -
  have E: "env_ok E" and head: "d [DB_HEAD_BLOCKS] = None" using d by (simp_all add: db_ok_def)
  from BatchWrite_states [of d h ns E m a ms, OF head h ns] obtain ws d' where
    w: "CoinsDB_BatchWrite E d m h a ms ns = Inr (True, ws @ [d'])"
      "\<forall>w \<in> set ws. \<exists>i. w = fold apply_op (coin_ops E (take i m)) (marked d h (CoinsDB_GetBestBlock d))"
      "\<And>p. d' (CoinEntry p) = fold apply_op (coin_ops E m) (marked d h (CoinsDB_GetBestBlock d)) (CoinEntry p)"
      "\<And>n. WIDTH n = 8 \<Longrightarrow> d' (hash_key DB_SAPLING_NULLIFIER n) = fold apply_op (nf_ops ns) d (hash_key DB_SAPLING_NULLIFIER n)"
      "d' [DB_HEAD_BLOCKS] = None" "d' [DB_BEST_BLOCK] = Some (Serialize_uint256 h)" by blast
  have "\<forall>q \<in> fst ` set m. outpoint_ok q" "distinct (map fst m)" using m by (auto simp: batch_valid_entries)
  then have u: "db_utxo E d' = apply_coins m (db_utxo E d)"
    by (intro db_utxo_apply [OF E m]) (simp add: w(3) marked_coin)
  have "db_ok E d'"
    using E w(5) apply_coins_coin_ok [OF m, folded u] d unfolding db_ok_def by blast
  then show ?thesis using w u db_nf_apply [OF ns w(4)] by blast
qed

lemma db_view_is_view: "coins_view (db_view E) (db_ok E) (db_utxo E) db_nf"
proof
  fix d d' p coin r n b h rt t m a ms ns
  assume d: "db_ok E d"
  show un: "\<not> coin_IsSpent coin \<and> coin_ok coin" if "db_utxo E d p = Some coin" for p coin
    using d that coin_ok_unspent by (auto simp: db_ok_def)
  show "db_ok E d' \<and> db_utxo E d' = db_utxo E d \<and> db_nf d' = db_nf d \<and> db_utxo E d p = Option.bind r visible"
    if "outpoint_ok p" "view_GetCoin (db_view E) d p = (r, d')"
    using that d un [of p] by (cases r) (auto simp: db_view_def db_utxo_def)
  show "db_ok E d' \<and> db_utxo E d' = db_utxo E d \<and> db_nf d' = db_nf d \<and> b = db_nf d n"
    if "WIDTH n = 8" "view_GetNullifier (db_view E) d n = (b, d')"
    using that d by (auto simp: db_view_def db_nf_def)
  show "db_ok E d' \<and> db_utxo E d' = db_utxo E d \<and> db_nf d' = db_nf d" if "view_GetBestBlock (db_view E) d = (h, d')"
    using that d by (auto simp: db_view_def)
  show "db_ok E d' \<and> db_utxo E d' = db_utxo E d \<and> db_nf d' = db_nf d" if "view_GetSaplingAnchorAt (db_view E) d rt = (t, d')"
    using that d by (auto simp: db_view_def)
  show "db_ok E d' \<and> db_utxo E d' = db_utxo E d \<and> db_nf d' = db_nf d" if "view_GetBestAnchor (db_view E) d = (h, d')"
    using that d by (auto simp: db_view_def)
  show "\<exists>d'. view_BatchWrite (db_view E) d m h a ms ns = Inr (True, d') \<and> db_ok E d' \<and>
      db_utxo E d' = apply_coins m (db_utxo E d) \<and> db_nf d' = apply_nullifiers ns (db_nf d)"
    if "batch_valid m (db_utxo E d)" "nullifiers_valid ns" "\<not> bu_is_null h"
    using CoinsDB_BatchWrite_refines [OF d that, of a ms] by (auto simp: db_view_def)
qed

interpretation coins_db: coins_view "db_view E" "db_ok E" "db_utxo E" db_nf for E
  by (rule db_view_is_view)

interpretation coins_tip: coins_view "cache_view (db_view E) mem tmem" "cache_ok (db_ok E) (db_utxo E) db_nf"
  "cache_utxo (db_utxo E)" "cache_nf db_nf" for E mem tmem
  by (rule coins_db.cache_is_view)

text \<open>Names for the two levels that the node stacks: the tip cache over the database and a cache over it.\<close>

abbreviation tip_ok :: "('p, 't) db_env \<Rightarrow> (leveldb, 't) CCoinsViewCache \<Rightarrow> bool" where
  "tip_ok E \<equiv> cache_ok (db_ok E) (db_utxo E) db_nf"
abbreviation tip_utxo :: "('p, 't) db_env \<Rightarrow> (leveldb, 't) CCoinsViewCache \<Rightarrow> COutPoint \<Rightarrow> Coin option" where
  "tip_utxo E \<equiv> cache_utxo (db_utxo E)"
abbreviation top_ok :: "('p, 't) db_env \<Rightarrow> ((leveldb, 't) CCoinsViewCache, 't) CCoinsViewCache \<Rightarrow> bool" where
  "top_ok E \<equiv> cache_ok (tip_ok E) (tip_utxo E) (cache_nf db_nf)"
abbreviation top_utxo :: "('p, 't) db_env \<Rightarrow> ((leveldb, 't) CCoinsViewCache, 't) CCoinsViewCache \<Rightarrow> COutPoint \<Rightarrow> Coin option" where
  "top_utxo E \<equiv> cache_utxo (tip_utxo E)"

lemma Flush_hashBlock:
  assumes "Flush (cache_view V mem tmem) c = Inr (r, c')"
  shows "hashBlock (cv_base c') = hashBlock c"
proof -
  obtain b where b: "BatchWrite mem tmem (cv_base c) (cacheCoins c) (hashBlock c) (hashSaplingAnchor c)
      (cacheSaplingAnchors c) (cacheSaplingNullifiers c) = Inr (r, b)" "cv_base c' = b"
    using assms by (cases c) (auto simp: Flush_def cache_view_def split: sum.splits)
  from b(1) have "hashBlock b = hashBlock c" by (auto simp: BatchWrite_def split: sum.splits prod.splits)
  then show ?thesis using b(2) by simp
qed

text \<open>A small concrete world for the witnesses: an empty database and an empty tip cache.\<close>

definition example_env :: "(byte list \<times> byte, unit) db_env" where
  "example_env = \<lparr>env_ec_parse = toy_parse, env_ec_ser = toy_ser, env_tree_ser = (\<lambda>_. []), env_tree_unser = rreturn (),
     env_empty_root = base_uint_zero 8, env_new_tree = (), env_batch_size = 0\<rparr>"

lemma example_db_ok: "db_ok example_env (\<lambda>_. None)"
  by (simp add: db_ok_def db_utxo_def CoinsDB_GetCoin_def db_Read_def example_env_def toy_laws)

definition example_point :: COutPoint where
  "example_point = \<lparr>op_hash = base_uint_zero 8, op_n = 0\<rparr>"

lemma example_point_ok: "outpoint_ok example_point"
  by (simp add: example_point_def outpoint_ok_def)

lemma example_tip_ok: "tip_ok example_env (CCoinsViewCache_new (\<lambda>_. None))"
  "tip_utxo example_env (CCoinsViewCache_new (\<lambda>_. None)) p = None"
  using example_db_ok
  by (simp_all add: cache_ok_def CCoinsViewCache_new_def cache_utxo_def db_utxo_def CoinsDB_GetCoin_def db_Read_def)

section \<open>Properties\<close>

text \<open>
  C13. A cache over the coin database implements the map of unspent outputs.  On a cache that satisfies
  the invariant, \<open>HaveCoin\<close> tests the map; \<open>SpendCoin\<close> returns the coin that was there and removes it;
  \<open>AddCoin\<close> of a storable coin, either with the overwrite flag or at a free outpoint, adds it unless its
  script is unspendable and never throws; \<open>Uncache\<close> and the reads leave the map alone; and all of them keep
  the invariant, whatever the cache happened to hold.
\<close>

theorem cache_implements_utxo_map:
  assumes c: "tip_ok E c" and p: "outpoint_ok p"
  shows "(case HaveCoin (db_view E) mem c p of (b, c') \<Rightarrow>
        tip_ok E c' \<and> tip_utxo E c' = tip_utxo E c \<and> b = (tip_utxo E c p \<noteq> None)) \<and>
    (case SpendCoin (db_view E) mem c p of (r, c') \<Rightarrow>
        tip_ok E c' \<and> tip_utxo E c' = (tip_utxo E c)(p := None) \<and> tip_utxo E c p = Option.bind r visible) \<and>
    (coin_ok coin \<longrightarrow> ow \<or> tip_utxo E c p = None \<longrightarrow> (\<exists>c'. AddCoin mem c p coin ow = Inr c' \<and> tip_ok E c' \<and>
        tip_utxo E c' = (if IsUnspendable (scriptPubKey (coin_out coin)) then tip_utxo E c
                         else (tip_utxo E c)(p \<mapsto> coin)))) \<and>
    tip_ok E (Uncache mem c p) \<and> tip_utxo E (Uncache mem c p) = tip_utxo E c"
proof (intro conjI impI)
  show "case HaveCoin (db_view E) mem c p of (b, c') \<Rightarrow>
      tip_ok E c' \<and> tip_utxo E c' = tip_utxo E c \<and> b = (tip_utxo E c p \<noteq> None)"
    using coins_db.HaveCoin_refines [OF c p] by (auto split: prod.split)
  show "case SpendCoin (db_view E) mem c p of (r, c') \<Rightarrow>
      tip_ok E c' \<and> tip_utxo E c' = (tip_utxo E c)(p := None) \<and> tip_utxo E c p = Option.bind r visible"
    using coins_db.SpendCoin_refines [OF c p] by (auto split: prod.split)
  show "\<exists>c'. AddCoin mem c p coin ow = Inr c' \<and> tip_ok E c' \<and>
      tip_utxo E c' = (if IsUnspendable (scriptPubKey (coin_out coin)) then tip_utxo E c else (tip_utxo E c)(p \<mapsto> coin))"
    if "coin_ok coin" "ow \<or> tip_utxo E c p = None"
    using coins_db.AddCoin_refines [OF c p coin_ok_unspent [OF that(1)] that] by blast
qed (use coins_db.Uncache_refines [OF c] in blast)+

theorem cache_implements_utxo_map_witness:
  "\<exists>c'. AddCoin (\<lambda>_. 0) (CCoinsViewCache_new (\<lambda>_. None)) example_point example_coin False = Inr c' \<and> tip_ok example_env c' \<and>
     tip_utxo example_env c' = [example_point \<mapsto> example_coin]"
proof -
  have "\<not> IsUnspendable (scriptPubKey (coin_out example_coin))"
    by (simp add: example_coin_def IsUnspendable_def MAX_SCRIPT_SIZE_def)
  moreover have "tip_utxo example_env (CCoinsViewCache_new (\<lambda>_. None)) = Map.empty"
    by (rule ext) (rule example_tip_ok(2))
  ultimately show ?thesis
    using cache_implements_utxo_map [OF example_tip_ok(1) example_point_ok, of "\<lambda>_. 0" example_coin False] example_coin_ok
    by simp
qed

text \<open>
  C19. Flushing a stack of caches.  With a cache over the tip cache over the database, flushing the upper
  and then the lower cache never fails: afterwards the database itself holds the unspent outputs and the
  spent nullifiers that the upper cache showed before, and both caches still show them.
\<close>

theorem flush_stack_reaches_db:
  assumes c: "top_ok E c" and h: "\<not> bu_is_null (hashBlock c)"
  shows "\<exists>c1 t. Flush (cache_view (db_view E) mem tmem) c = Inr (True, c1) \<and> top_ok E c1 \<and> top_utxo E c1 = top_utxo E c \<and>
    Flush (db_view E) (cv_base c1) = Inr (True, t) \<and> tip_ok E t \<and> cacheCoins t = [] \<and> tip_utxo E t = top_utxo E c \<and>
    db_utxo E (cv_base t) = top_utxo E c \<and> db_nf (cv_base t) = cache_nf (cache_nf db_nf) c"
proof -
  from coins_tip.Flush_refines [OF c h, of mem tmem] obtain c1 where
    c1: "Flush (cache_view (db_view E) mem tmem) c = Inr (True, c1)" "top_ok E c1" "top_utxo E c1 = top_utxo E c"
      "tip_utxo E (cv_base c1) = top_utxo E c" "cache_nf db_nf (cv_base c1) = cache_nf (cache_nf db_nf) c" by blast
  have "tip_ok E (cv_base c1)" using c1(2) by (simp add: cache_ok_def)
  moreover have "\<not> bu_is_null (hashBlock (cv_base c1))" using h Flush_hashBlock [OF c1(1)] by simp
  ultimately obtain t where "Flush (db_view E) (cv_base c1) = Inr (True, t)" "tip_ok E t" "cacheCoins t = []"
      "tip_utxo E t = tip_utxo E (cv_base c1)" "db_utxo E (cv_base t) = tip_utxo E (cv_base c1)"
      "db_nf (cv_base t) = cache_nf db_nf (cv_base c1)"
    using coins_db.Flush_refines by blast
  then show ?thesis using c1 by auto
qed

definition example_stack :: "((leveldb, unit) CCoinsViewCache, unit) CCoinsViewCache" where
  "example_stack = (CCoinsViewCache_new (CCoinsViewCache_new (\<lambda>_. None)))\<lparr>hashBlock := replicate 8 1,
     cacheCoins := [(example_point, \<lparr>entry_coin = example_coin, DIRTY = True, FRESH = True\<rparr>)]\<rparr>"

theorem flush_stack_reaches_db_witness:
  "\<exists>c1 t. Flush (cache_view (db_view example_env) (\<lambda>_. 0) (\<lambda>_. 0)) example_stack = Inr (True, c1) \<and>
     Flush (db_view example_env) (cv_base c1) = Inr (True, t) \<and> db_utxo example_env (cv_base t) = [example_point \<mapsto> example_coin]"
proof -
  have ok: "top_ok example_env example_stack"
    using example_tip_ok example_coin_ok example_point_ok
    by (simp add: example_stack_def cache_ok_def [of "tip_ok example_env"] CCoinsViewCache_new_def entry_ok_def)
  have h: "\<not> bu_is_null (hashBlock example_stack)"
    by (simp add: example_stack_def numeral_eq_Suc)
  have "top_utxo example_env example_stack = [example_point \<mapsto> example_coin]"
    using example_tip_ok(2) coin_ok_unspent [OF example_coin_ok]
    by (auto simp: example_stack_def cache_utxo_def [of "tip_utxo example_env"] CCoinsViewCache_new_def)
  then show ?thesis using flush_stack_reaches_db [OF ok h, of "\<lambda>_. 0" "\<lambda>_. 0"] by auto
qed

text \<open>What a partial write leaves behind.\<close>

lemma batch_valid_take: "batch_valid m u \<Longrightarrow> batch_valid (take i m) u"
  by (auto simp: batch_valid_entries distinct_take simp flip: take_map dest: in_set_takeD)

lemma apply_coins_take:
  assumes "distinct (map fst m)"
  shows "apply_coins (take i m) u p \<in> {u p, apply_coins m u p}"
proof (cases "map_of (take i m) p")
  case (Some e)
  then have "(p, e) \<in> set m" by (metis map_of_SomeD in_set_takeD)
  then have "map_of m p = Some e" using assms by simp
  then show ?thesis using Some by (simp add: apply_coins_def)
qed (simp add: apply_coins_def)

lemma partial_write:
  assumes E: "env_ok E" and m: "batch_valid m (db_utxo E d)" and h: "WIDTH h = 8" and t: "WIDTH t = 8"
    and w: "w = fold apply_op (coin_ops E (take i m)) (marked d h t)"
  shows "bu_is_null (CoinsDB_GetBestBlock w) \<and> CoinsDB_GetHeadBlocks w = [h, t] \<and> old_tip_of w h = Inr t \<and>
    (\<forall>p. db_utxo E w p \<in> {db_utxo E d p, apply_coins m (db_utxo E d) p})"
proof -
  have k: "[DB_BEST_BLOCK] \<notin> op_key ` set (coin_ops E (take i m))" "[DB_HEAD_BLOCKS] \<notin> op_key ` set (coin_ops E (take i m))"
    using ops_hd(1) [of "[DB_BEST_BLOCK]" E "take i m"] ops_hd(1) [of "[DB_HEAD_BLOCKS]" E "take i m"] by (auto simp: db_chars)
  have "w [DB_BEST_BLOCK] = None" "w [DB_HEAD_BLOCKS] = Some (Serialize_vector Serialize_uint256 [h, t])"
    unfolding w fold_other [OF k(1)] fold_other [OF k(2)] by (simp_all add: marked_def db_chars)
  moreover have "Unserialize_vector Unserialize_uint256 156249 (Serialize_vector Serialize_uint256 [h, t]) = Inr ([h, t], [])"
    by (rule hashes_codec.unser_ser_only) (simp add: h t MAX_SIZE_def)
  ultimately have best: "CoinsDB_GetBestBlock w = base_uint_zero 8" and heads: "CoinsDB_GetHeadBlocks w = [h, t]"
    by (simp_all add: CoinsDB_GetBestBlock_def CoinsDB_GetHeadBlocks_def db_Read_def)
  have null: "bu_is_null (base_uint_zero 8)" by (simp add: base_uint_zero_def numeral_eq_Suc)
  note mi = batch_valid_take [OF m, of i]
  then have "\<forall>q \<in> fst ` set (take i m). outpoint_ok q" "distinct (map fst (take i m))" by (auto simp: batch_valid_entries)
  then have "db_utxo E w = apply_coins (take i m) (db_utxo E d)"
    by (intro db_utxo_apply [OF E mi]) (simp add: w marked_coin)
  moreover have "distinct (map fst m)" using m by (simp add: batch_valid_def)
  ultimately have "\<forall>p. db_utxo E w p \<in> {db_utxo E d p, apply_coins m (db_utxo E d) p}" using apply_coins_take by metis
  then show ?thesis using best heads null by (simp add: old_tip_of_def)
qed

text \<open>
  C10. A write of the coin database survives a crash.  On a consistent database \<open>BatchWrite\<close> succeeds and
  leaves a consistent one whose best block is the new one and whose coins and nullifiers are the old ones
  with the dirty entries of the maps applied.  In every state that is on disk between its batches, the
  best block is unset, the head blocks record exactly the transition from the old to the new block, every
  output has either its old or its new value, and a repeated write towards the same block passes the
  assertion and continues from the recorded old tip.
\<close>

theorem batch_write_crash_consistent:
  assumes "db_ok E d" and "batch_valid m (db_utxo E d)" and "nullifiers_valid ns" and "\<not> bu_is_null h" and "WIDTH h = 8"
  shows "\<exists>ws d'. CoinsDB_BatchWrite E d m h a ms ns = Inr (True, ws @ [d']) \<and> db_ok E d' \<and>
    CoinsDB_GetBestBlock d' = h \<and> CoinsDB_GetHeadBlocks d' = [] \<and>
    db_utxo E d' = apply_coins m (db_utxo E d) \<and> db_nf d' = apply_nullifiers ns (db_nf d) \<and>
    (\<forall>w \<in> set ws. bu_is_null (CoinsDB_GetBestBlock w) \<and> CoinsDB_GetHeadBlocks w = [h, CoinsDB_GetBestBlock d] \<and>
       old_tip_of w h = Inr (CoinsDB_GetBestBlock d) \<and> (\<forall>p. db_utxo E w p \<in> {db_utxo E d p, db_utxo E d' p}))"
proof -
  from CoinsDB_BatchWrite_refines [OF assms(1-4), of a ms] obtain ws d' where
    w: "CoinsDB_BatchWrite E d m h a ms ns = Inr (True, ws @ [d'])" "db_ok E d'"
      "db_utxo E d' = apply_coins m (db_utxo E d)" "db_nf d' = apply_nullifiers ns (db_nf d)"
      "d' [DB_BEST_BLOCK] = Some (Serialize_uint256 h)"
      "\<forall>w \<in> set ws. \<exists>i. w = fold apply_op (coin_ops E (take i m)) (marked d h (CoinsDB_GetBestBlock d))" by blast
  have "CoinsDB_GetBestBlock d' = h" "CoinsDB_GetHeadBlocks d' = []"
    using w(2,5) uint256_codec.unser_ser_only [of h] assms(5)
    by (simp_all add: CoinsDB_GetBestBlock_def CoinsDB_GetHeadBlocks_def db_Read_def db_ok_def)
  moreover have "env_ok E" using assms(1) by (simp add: db_ok_def)
  then have "\<forall>w \<in> set ws. bu_is_null (CoinsDB_GetBestBlock w) \<and> CoinsDB_GetHeadBlocks w = [h, CoinsDB_GetBestBlock d] \<and>
       old_tip_of w h = Inr (CoinsDB_GetBestBlock d) \<and> (\<forall>p. db_utxo E w p \<in> {db_utxo E d p, db_utxo E d' p})"
    using w(6) partial_write [OF _ assms(2,5) WIDTH_GetBestBlock] unfolding w(3) by blast
  ultimately show ?thesis using w by blast
qed

theorem batch_write_crash_consistent_witness:
  "\<exists>ws d'. CoinsDB_BatchWrite example_env (\<lambda>_. None)
       [(example_point, \<lparr>entry_coin = example_coin, DIRTY = True, FRESH = True\<rparr>)] (replicate 8 1) (base_uint_zero 8) [] [] = Inr (True, ws @ [d']) \<and>
     CoinsDB_GetBestBlock d' = replicate 8 1 \<and> (\<forall>w \<in> set ws. CoinsDB_GetHeadBlocks w = [replicate 8 1, base_uint_zero 8])"
proof -
  have "batch_valid [(example_point, \<lparr>entry_coin = example_coin, DIRTY = True, FRESH = True\<rparr>)] (db_utxo example_env (\<lambda>_. None))"
    using example_point_ok example_coin_ok by (simp add: batch_valid_def db_utxo_def CoinsDB_GetCoin_def db_Read_def)
  moreover have "\<not> bu_is_null (replicate 8 1)" by (simp add: numeral_eq_Suc)
  moreover have "CoinsDB_GetBestBlock (\<lambda>_. None) = base_uint_zero 8" by (simp add: CoinsDB_GetBestBlock_def db_Read_def)
  moreover have "nullifiers_valid []" by (simp add: nullifiers_valid_def)
  ultimately show ?thesis
    using batch_write_crash_consistent [OF example_db_ok, of _ "[]" "replicate 8 1" "base_uint_zero 8" "[]"] by fastforce
qed

text \<open>
  The coins of a transaction.  \<open>HaveInputs\<close> holds exactly if every output that the transaction spends
  is in the map of unspent outputs, and then \<open>GetValueIn\<close> is the sum of their values plus the shielded
  value, modulo 64 bits (nothing for a coinbase).  \<open>AddCoins\<close>, called with its overwrite check or for a transaction none
  of whose outputs is in the map, never throws and adds exactly its spendable outputs, each with the
  height and the kind of the transaction.
\<close>

theorem transaction_coins:
  assumes c: "tip_ok E c" and ins: "list_all (\<lambda>i. outpoint_ok (prevout i)) (vin tx)"
  shows "(case HaveInputs (db_view E) mem c tx of (b, c') \<Rightarrow> tip_ok E c' \<and> tip_utxo E c' = tip_utxo E c \<and>
        b = (IsCoinBase tx \<or> list_all (\<lambda>i. tip_utxo E c (prevout i) \<noteq> None) (vin tx))) \<and>
    (\<not> IsCoinBase tx \<longrightarrow> list_all (\<lambda>i. tip_utxo E c (prevout i) \<noteq> None) (vin tx) \<longrightarrow> GetShieldedValueIn tx = Inr sh \<longrightarrow>
      (\<exists>c'. GetValueIn (db_view E) mem c tx =
        Inr (wrap64 ((\<Sum>i\<leftarrow>vin tx. nValue (coin_out (the (tip_utxo E c (prevout i))))) + sh), c') \<and>
        tip_ok E c' \<and> tip_utxo E c' = tip_utxo E c)) \<and>
    (length (vout tx) \<le> 2 ^ 32 \<longrightarrow> list_all (\<lambda>o1. coin_ok (Coin_new o1 h (IsCoinBase tx) (IsCoinStake tx))) (vout tx) \<longrightarrow>
      chk \<or> (\<forall>p. op_hash p = tx_GetHash junk tx \<longrightarrow> unat (op_n p) < length (vout tx) \<longrightarrow> tip_utxo E c p = None) \<longrightarrow>
      (\<exists>c'. AddCoins (db_view E) mem junk c tx h chk skip = Inr c' \<and> tip_ok E c' \<and>
        tip_utxo E c' = tip_utxo E c ++ out_coin (tx_GetHash junk tx) (IsCoinBase tx) (IsCoinStake tx) h 0 (vout tx)))"
proof (intro conjI impI)
  show "case HaveInputs (db_view E) mem c tx of (b, c') \<Rightarrow> tip_ok E c' \<and> tip_utxo E c' = tip_utxo E c \<and>
      b = (IsCoinBase tx \<or> list_all (\<lambda>i. tip_utxo E c (prevout i) \<noteq> None) (vin tx))"
    using coins_db.have_inputs_refines [OF c ins] c by (auto simp: HaveInputs_def split: prod.split)
next
  assume tx: "\<not> IsCoinBase tx" "list_all (\<lambda>i. tip_utxo E c (prevout i) \<noteq> None) (vin tx)" "GetShieldedValueIn tx = Inr sh"
  obtain s c' where s: "sum_inputs (db_view E) mem (vin tx) 0 c = (s, c')" by (cases "sum_inputs (db_view E) mem (vin tx) 0 c")
  have "list_all (\<lambda>i. outpoint_ok (prevout i) \<and> tip_utxo E c (prevout i) \<noteq> None) (vin tx)"
    using ins tx(2) by (simp add: list_all_iff)
  from coins_db.sum_inputs_refines [OF c this s] wrap64_simps
  show "\<exists>c'. GetValueIn (db_view E) mem c tx = Inr (wrap64 ((\<Sum>i\<leftarrow>vin tx. nValue (coin_out (the (tip_utxo E c (prevout i))))) + sh), c') \<and>
      tip_ok E c' \<and> tip_utxo E c' = tip_utxo E c"
    using tx(1,3) s by (simp add: GetValueIn_def)
next
  assume o: "length (vout tx) \<le> 2 ^ 32" "list_all (\<lambda>o1. coin_ok (Coin_new o1 h (IsCoinBase tx) (IsCoinStake tx))) (vout tx)"
    "chk \<or> (\<forall>p. op_hash p = tx_GetHash junk tx \<longrightarrow> unat (op_n p) < length (vout tx) \<longrightarrow> tip_utxo E c p = None)"
  have "WIDTH (tx_GetHash junk tx) = 8" by (simp add: tx_GetHash_def SerializeHash_def)
  then show "\<exists>c'. AddCoins (db_view E) mem junk c tx h chk skip = Inr c' \<and> tip_ok E c' \<and>
      tip_utxo E c' = tip_utxo E c ++ out_coin (tx_GetHash junk tx) (IsCoinBase tx) (IsCoinStake tx) h 0 (vout tx)"
    using coins_db.add_outputs_refines [OF c, of "tx_GetHash junk tx" 0 "vout tx" h "IsCoinBase tx" "IsCoinStake tx" chk mem] o
    by (auto simp: AddCoins_def)
qed

definition example_payment :: CTransaction where
  "example_payment = CTransaction_new\<lparr>vin := [txin_new outpoint_null [1, 2] 5], vout := [txout_new 7 [OP_1], txout_new 8 [OP_2]]\<rparr>"

theorem transaction_coins_witness:
  "\<exists>c'. AddCoins (db_view example_env) (\<lambda>_. 0) [] (CCoinsViewCache_new (\<lambda>_. None)) example_payment 7 False False = Inr c' \<and>
     tip_ok example_env c' \<and> tip_utxo example_env c' =
       out_coin (tx_GetHash [] example_payment) (IsCoinBase example_payment) (IsCoinStake example_payment) 7 0 (vout example_payment)"
proof -
  have "list_all (\<lambda>i. outpoint_ok (prevout i)) (vin example_payment)"
    by (simp add: example_payment_def outpoint_ok_def txin_new_def outpoint_null_def)
  moreover have "list_all (\<lambda>o1. coin_ok (Coin_new o1 7 cb cs)) (vout example_payment)" "length (vout example_payment) \<le> 2 ^ 32" for cb cs
    by (simp_all add: example_payment_def txout_new_def coin_ok_def Coin_new_def MAX_SCRIPT_SIZE_def)
  moreover have "tip_utxo example_env (CCoinsViewCache_new (\<lambda>_. None)) = Map.empty"
    by (rule ext) (rule example_tip_ok(2))
  ultimately show ?thesis
    using transaction_coins [OF example_tip_ok(1), of example_payment "\<lambda>_. 0" 0 7 False "[]" False] by simp
qed

end
