(* ===== verification/Undo.thy ===== *)
theory Undo
  imports TxDb TxVerify
begin

unbundle bit_operations_syntax

text \<open>
  Applying the transactions of a block to the coins and taking them back: \<open>src/src/undo.h\<close>, \<open>UpdateCoins\<close>,
  \<open>ApplyTxInUndo\<close>, \<open>DisconnectBlock\<close> and the undo records on disk of \<open>src/src/validation.cpp\<close>, and \<open>AccessByTxid\<close>
  of \<open>src/src/coins.cpp\<close>.  A block is the list of its transactions.  The removal of budget objects in
  \<open>DisconnectBlock\<close> does not touch the coins and is left out.  An access to the undo data at position -1
  (the first transaction is not a coinbase, which \<open>CheckBlock\<close> refuses) is the error \<open>UndoOutOfRange\<close>.
\<close>

section \<open>Undo records\<close>

record CTxUndo =
  vprevout :: "Coin list"

record CBlockUndo =
  vtxundo :: "CTxUndo list"

definition MAX_INPUTS_PER_BLOCK :: nat where
  "MAX_INPUTS_PER_BLOCK = MAX_BLOCK_SIZE_CURRENT div length (Serialize_txin (txin_new outpoint_null [] SEQUENCE_FINAL))"

definition MAX_OUTPUTS_PER_BLOCK :: nat where
  "MAX_OUTPUTS_PER_BLOCK = MAX_BLOCK_SIZE_CURRENT div length (Serialize_txout txout_null)"

definition Serialize_TxInUndo :: "(byte list \<Rightarrow> 'p option) \<Rightarrow> Coin \<Rightarrow> byte list" where
  "Serialize_TxInUndo ec_parse txout =
     WriteVarInt (coin_code txout) @ (if coin_height txout > 0 then ser_writedata8 0 else []) @
     Serialize_txout_compressed ec_parse (coin_out txout)"

definition Unserialize_TxInUndo :: "(byte list \<Rightarrow> 'p option) \<Rightarrow> ('p \<Rightarrow> byte list) \<Rightarrow> Coin \<Rightarrow> Coin reader" where
  "Unserialize_TxInUndo ec_parse ec_ser txout = rbind ReadVarInt (\<lambda>nCode :: u32.
     let txout = txout\<lparr>coin_height := drop_bit 2 nCode, fCoinBase := (nCode AND 2 \<noteq> 0), fCoinStake := (nCode AND 1 \<noteq> 0)\<rparr>
     in rbind (if coin_height txout > 0 then rbind ReadVarInt (\<lambda>nVersionDummy :: u32. rreturn ()) else rreturn ()) (\<lambda>_.
        rbind (Unserialize_txout_compressed ec_parse ec_ser (coin_out txout)) (\<lambda>out. rreturn (txout\<lparr>coin_out := out\<rparr>))))"

definition Serialize_CTxUndo :: "(byte list \<Rightarrow> 'p option) \<Rightarrow> CTxUndo \<Rightarrow> byte list" where
  "Serialize_CTxUndo ec_parse u = write_size (length (vprevout u)) @ concat (map (Serialize_TxInUndo ec_parse) (vprevout u))"

definition Unserialize_CTxUndo :: "(byte list \<Rightarrow> 'p option) \<Rightarrow> ('p \<Rightarrow> byte list) \<Rightarrow> CTxUndo reader" where
  "Unserialize_CTxUndo ec_parse ec_ser = rbind ReadCompactSize (\<lambda>count.
     if count > MAX_INPUTS_PER_BLOCK then rfail TooManyUndoRecords
     else rbind (Unserialize_array (Unserialize_TxInUndo ec_parse ec_ser coinEmpty) count) (\<lambda>v. rreturn \<lparr>vprevout = v\<rparr>))"

definition Serialize_CBlockUndo :: "(byte list \<Rightarrow> 'p option) \<Rightarrow> CBlockUndo \<Rightarrow> byte list" where
  "Serialize_CBlockUndo ec_parse b = Serialize_vector (Serialize_CTxUndo ec_parse) (vtxundo b)"

text \<open>\<open>Suc k\<close> is \<open>5000000 / sizeof (CTxUndo)\<close>.\<close>

definition Unserialize_CBlockUndo :: "(byte list \<Rightarrow> 'p option) \<Rightarrow> ('p \<Rightarrow> byte list) \<Rightarrow> nat \<Rightarrow> CBlockUndo reader" where
  "Unserialize_CBlockUndo ec_parse ec_ser k =
     rbind (Unserialize_vector (Unserialize_CTxUndo ec_parse ec_ser) k) (\<lambda>v. rreturn \<lparr>vtxundo = v\<rparr>)"

text \<open>
  The undo file from the position that is recorded: the data and its checksum.  The bytes in front of it
  (message start and size) are written but not read.
\<close>

definition UndoWriteToDisk :: "(byte list \<Rightarrow> 'p option) \<Rightarrow> byte list \<Rightarrow> CBlockUndo \<Rightarrow> uint256 \<Rightarrow> byte list" where
  "UndoWriteToDisk ec_parse junk blockundo hBlock =
     Serialize_CBlockUndo ec_parse blockundo @
     Serialize_uint256 (SerializeHash junk (Serialize_uint256 hBlock @ Serialize_CBlockUndo ec_parse blockundo))"

definition UndoReadFromDisk :: "(byte list \<Rightarrow> 'p option) \<Rightarrow> ('p \<Rightarrow> byte list) \<Rightarrow> nat \<Rightarrow> byte list \<Rightarrow> byte list \<Rightarrow> uint256 \<Rightarrow> CBlockUndo option" where
  "UndoReadFromDisk ec_parse ec_ser k junk filein hBlock =
     (case Unserialize_CBlockUndo ec_parse ec_ser k filein of
        Inl e \<Rightarrow> None
      | Inr (blockundo, rest) \<Rightarrow>
          (case Unserialize_uint256 rest of
             Inl e \<Rightarrow> None
           | Inr (hashChecksum, _) \<Rightarrow>
               let raw = take (length filein - length rest) filein
               in if hashChecksum \<noteq> SerializeHash junk (Serialize_uint256 hBlock @ raw) then None else Some blockundo))"

section \<open>Applying a transaction\<close>

fun spend_inputs :: "('v, 't) CCoinsView \<Rightarrow> (Coin \<Rightarrow> int) \<Rightarrow> CTxIn list \<Rightarrow> ('v, 't) CCoinsViewCache \<Rightarrow>
    Coin list \<times> ('v, 't) CCoinsViewCache" where
  "spend_inputs V mem [] c = ([], c)"
| "spend_inputs V mem (txin # ins) c =
     (let (moveto, c1) = SpendCoin V mem c (prevout txin);
          (rest, c2) = spend_inputs V mem ins c1
      in ((case moveto of Some coin \<Rightarrow> coin | None \<Rightarrow> coinEmpty) # rest, c2))"

definition UpdateCoins :: "('v, 't) CCoinsView \<Rightarrow> (Coin \<Rightarrow> int) \<Rightarrow> byte list \<Rightarrow> CTransaction \<Rightarrow> ('v, 't) CCoinsViewCache \<Rightarrow> int \<Rightarrow> bool \<Rightarrow>
    coins_error + (CTxUndo \<times> ('v, 't) CCoinsViewCache)" where
  "UpdateCoins V mem junk tx inputs nHeight fSkipInvalid =
     (let (prevouts, c1) = (if \<not> IsCoinBase tx then spend_inputs V mem (vin tx) inputs else ([], inputs));
          c2 = SetNullifiers c1 tx True
      in case AddCoins V mem junk c2 tx nHeight False fSkipInvalid of
           Inl e \<Rightarrow> Inl e
         | Inr c3 \<Rightarrow> Inr (\<lparr>vprevout = prevouts\<rparr>, c3))"

section \<open>Taking a transaction back\<close>

datatype DisconnectResult = DISCONNECT_OK | DISCONNECT_UNCLEAN | DISCONNECT_FAILED

datatype disconnect_error = LogicError coins_error | UndoOutOfRange

text \<open>The loop of \<open>AccessByTxid\<close> from output \<open>n\<close>, with \<open>k\<close> outputs left to look at.\<close>

fun access_by_txid_loop :: "('v, 't) CCoinsView \<Rightarrow> (Coin \<Rightarrow> int) \<Rightarrow> uint256 \<Rightarrow> nat \<Rightarrow> nat \<Rightarrow> ('v, 't) CCoinsViewCache \<Rightarrow>
    Coin \<times> ('v, 't) CCoinsViewCache" where
  "access_by_txid_loop V mem txid n 0 view = (coinEmpty, view)"
| "access_by_txid_loop V mem txid n (Suc k) view =
     (case AccessCoin V mem view \<lparr>op_hash = txid, op_n = of_nat n\<rparr> of
        (alternate, view') \<Rightarrow> if \<not> coin_IsSpent alternate then (alternate, view')
          else access_by_txid_loop V mem txid (Suc n) k view')"

definition AccessByTxid :: "('v, 't) CCoinsView \<Rightarrow> (Coin \<Rightarrow> int) \<Rightarrow> ('v, 't) CCoinsViewCache \<Rightarrow> uint256 \<Rightarrow>
    Coin \<times> ('v, 't) CCoinsViewCache" where
  "AccessByTxid V mem view txid = access_by_txid_loop V mem txid 0 MAX_OUTPUTS_PER_BLOCK view"

definition ApplyTxInUndo :: "('v, 't) CCoinsView \<Rightarrow> (Coin \<Rightarrow> int) \<Rightarrow> Coin \<Rightarrow> ('v, 't) CCoinsViewCache \<Rightarrow> COutPoint \<Rightarrow>
    disconnect_error + (DisconnectResult \<times> ('v, 't) CCoinsViewCache)" where
  "ApplyTxInUndo V mem undo view out =
     (let (have_it, view1) = HaveCoin V mem view out;
          fClean = \<not> have_it;
          (undo1, view2) = (if coin_height undo = 0
             then (let (alternate, v) = AccessByTxid V mem view1 (op_hash out)
                   in (if \<not> coin_IsSpent alternate
                       then Some (undo\<lparr>coin_height := coin_height alternate, fCoinBase := fCoinBase alternate, fCoinStake := fCoinStake alternate\<rparr>)
                       else None, v))
             else (Some undo, view1))
      in case undo1 of
           None \<Rightarrow> Inr (DISCONNECT_FAILED, view2)
         | Some u \<Rightarrow> (case AddCoin mem view2 out u (\<not> fClean) of
             Inl e \<Rightarrow> Inl (LogicError e)
           | Inr view3 \<Rightarrow> Inr (if fClean then DISCONNECT_OK else DISCONNECT_UNCLEAN, view3)))"

text \<open>The loop over the outputs from index \<open>i\<close>: spend them and compare them with the block.\<close>

fun undo_outputs :: "('v, 't) CCoinsView \<Rightarrow> (Coin \<Rightarrow> int) \<Rightarrow> uint256 \<Rightarrow> nat \<Rightarrow> CTxOut list \<Rightarrow> bool \<Rightarrow> ('v, 't) CCoinsViewCache \<Rightarrow>
    bool \<times> ('v, 't) CCoinsViewCache" where
  "undo_outputs V mem txid i [] fClean view = (fClean, view)"
| "undo_outputs V mem txid i (o1 # outs) fClean view =
     (if \<not> IsUnspendable (scriptPubKey o1)
      then (let (moveto, view') = SpendCoin V mem view \<lparr>op_hash = txid, op_n = of_nat i\<rparr>;
                coin = (case moveto of Some coin \<Rightarrow> coin | None \<Rightarrow> coinEmpty)
            in undo_outputs V mem txid (Suc i) outs (if o1 \<noteq> coin_out coin then False else fClean) view')
      else undo_outputs V mem txid (Suc i) outs fClean view)"

text \<open>The loop over the inputs, given from the last one on with their undo records.\<close>

fun undo_inputs :: "('v, 't) CCoinsView \<Rightarrow> (Coin \<Rightarrow> int) \<Rightarrow> (CTxIn \<times> Coin) list \<Rightarrow> bool \<Rightarrow> ('v, 't) CCoinsViewCache \<Rightarrow>
    disconnect_error + (bool option \<times> ('v, 't) CCoinsViewCache)" where
  "undo_inputs V mem [] fClean view = Inr (Some fClean, view)"
| "undo_inputs V mem ((txin, undo) # rest) fClean view =
     (case ApplyTxInUndo V mem undo view (prevout txin) of
        Inl e \<Rightarrow> Inl e
      | Inr (res, view') \<Rightarrow>
          if res = DISCONNECT_FAILED then Inr (None, view')
          else undo_inputs V mem rest (fClean \<and> res \<noteq> DISCONNECT_UNCLEAN) view')"

text \<open>One iteration over the transactions; \<open>None\<close> in the result is \<open>DISCONNECT_FAILED\<close>.\<close>

definition undo_transaction :: "('v, 't) CCoinsView \<Rightarrow> (Coin \<Rightarrow> int) \<Rightarrow> byte list \<Rightarrow> CTransaction \<Rightarrow> CTxUndo option \<Rightarrow> bool \<Rightarrow>
    ('v, 't) CCoinsViewCache \<Rightarrow> disconnect_error + (bool option \<times> ('v, 't) CCoinsViewCache)" where
  "undo_transaction V mem junk tx txundo fClean view =
     (case undo_outputs V mem (tx_GetHash junk tx) 0 (vout tx) fClean view of
        (fClean1, view1) \<Rightarrow>
          if IsCoinBase tx then Inr (Some fClean1, view1)
          else let view2 = SetNullifiers view1 tx False
               in case txundo of
                    None \<Rightarrow> Inl UndoOutOfRange
                  | Some u \<Rightarrow> if length (vprevout u) \<noteq> length (vin tx) then Inr (None, view2)
                      else undo_inputs V mem (rev (zip (vin tx) (vprevout u))) fClean1 view2)"

text \<open>The transactions from the last one on, each with \<open>vtxundo[i - 1]\<close>.\<close>

fun undo_transactions :: "('v, 't) CCoinsView \<Rightarrow> (Coin \<Rightarrow> int) \<Rightarrow> byte list \<Rightarrow> (CTransaction \<times> CTxUndo option) list \<Rightarrow> bool \<Rightarrow>
    ('v, 't) CCoinsViewCache \<Rightarrow> disconnect_error + (bool option \<times> ('v, 't) CCoinsViewCache)" where
  "undo_transactions V mem junk [] fClean view = Inr (Some fClean, view)"
| "undo_transactions V mem junk ((tx, u) # rest) fClean view =
     (case undo_transaction V mem junk tx u fClean view of
        Inl e \<Rightarrow> Inl e
      | Inr (None, view') \<Rightarrow> Inr (None, view')
      | Inr (Some fClean', view') \<Rightarrow> undo_transactions V mem junk rest fClean' view')"

definition DisconnectBlock :: "('v, 't) CCoinsView \<Rightarrow> (Coin \<Rightarrow> int) \<Rightarrow> ('t \<Rightarrow> int) \<Rightarrow> byte list \<Rightarrow> Params \<Rightarrow> uint256 \<Rightarrow>
    CTransaction list \<Rightarrow> CBlockUndo option \<Rightarrow> int \<Rightarrow> uint256 \<Rightarrow> uint256 \<Rightarrow> ('v, 't) CCoinsViewCache \<Rightarrow>
    disconnect_error + (DisconnectResult \<times> ('v, 't) CCoinsViewCache)" where
  "DisconnectBlock V mem tmem junk consensus empty_root vtx blockUndo prevHeight prevSaplingRoot prevHash view =
     (case blockUndo of
        None \<Rightarrow> Inr (DISCONNECT_FAILED, view)
      | Some b \<Rightarrow>
          if length (vtxundo b) + 1 \<noteq> length vtx then Inr (DISCONNECT_FAILED, view)
          else case undo_transactions V mem junk (rev (zip vtx (None # map Some (vtxundo b)))) True view of
              Inl e \<Rightarrow> Inl e
            | Inr (None, view1) \<Rightarrow> Inr (DISCONNECT_FAILED, view1)
            | Inr (Some fClean, view1) \<Rightarrow>
                let root = (if NetworkUpgradeActive consensus prevHeight UPGRADE_V5_0 then prevSaplingRoot else empty_root)
                in case PopAnchor V tmem root view1 of
                     Inl e \<Rightarrow> Inl (LogicError e)
                   | Inr view2 \<Rightarrow>
                       Inr (if fClean then DISCONNECT_OK else DISCONNECT_UNCLEAN, SetBestBlock view2 prevHash))"

text \<open>
  The part of the transaction loop of \<open>ConnectBlock\<close> that changes the coins: the undo data of the first
  transaction is dropped.
\<close>

fun connect_coins :: "('v, 't) CCoinsView \<Rightarrow> (Coin \<Rightarrow> int) \<Rightarrow> byte list \<Rightarrow> int \<Rightarrow> CTransaction list \<Rightarrow> ('v, 't) CCoinsViewCache \<Rightarrow>
    coins_error + (CTxUndo list \<times> ('v, 't) CCoinsViewCache)" where
  "connect_coins V mem junk nHeight [] view = Inr ([], view)"
| "connect_coins V mem junk nHeight (tx # rest) view =
     (case UpdateCoins V mem junk tx view nHeight False of
        Inl e \<Rightarrow> Inl e
      | Inr (txundo, view1) \<Rightarrow>
          (case connect_coins V mem junk nHeight rest view1 of
             Inl e \<Rightarrow> Inl e
           | Inr (undos, view2) \<Rightarrow> Inr (txundo # undos, view2)))"

section \<open>Undo records on disk\<close>

lemma TxInUndo_roundtrip:
  assumes "ec_laws ec_parse ec_ser" and "coin_ok coin"
  shows "Unserialize_TxInUndo ec_parse ec_ser coinEmpty (Serialize_TxInUndo ec_parse coin @ s) = Inr (coin, s)"
proof -
  note ok = assms(2) [unfolded coin_ok_def]
  have "nRounds (coin_out coin) = nRounds (coin_out coinEmpty)" using ok by (simp add: coinEmpty_def txout_null_def)
  then have t: "Unserialize_txout_compressed ec_parse ec_ser (coin_out coinEmpty) (Serialize_txout_compressed ec_parse (coin_out coin) @ r) =
      Inr (coin_out coin, r)" for r
    using ok txout_compressed_roundtrip [OF assms(1)] by simp
  have z: "ReadVarInt (ser_writedata8 0 @ r) = Inr (0 :: u32, r)" for r
    using ReadVarInt_Write [of "0 :: u32" r] by (simp add: WriteVarInt_def varint_tmp.simps ser_writedata8_def)
  show ?thesis using ok t z
    by (simp add: Serialize_TxInUndo_def Unserialize_TxInUndo_def ReadVarInt_Write coin_code_bits Let_def)
qed

definition txundo_ok :: "CTxUndo \<Rightarrow> bool" where
  "txundo_ok u \<longleftrightarrow> list_all coin_ok (vprevout u) \<and> length (vprevout u) \<le> MAX_INPUTS_PER_BLOCK"

lemma MAX_INPUTS_value: "MAX_INPUTS_PER_BLOCK = 48780"
  by (simp add: MAX_INPUTS_PER_BLOCK_def MAX_BLOCK_SIZE_CURRENT_def Serialize_txin_def Serialize_outpoint_def
      Serialize_uint256_def length_uint_bytes outpoint_null_def txin_new_def base_uint_zero_def ser_writedata32_def
      Serialize_bytes_def write_size_def WriteCompactSize_def ser_writedata8_def)

lemma CTxUndo_codec:
  assumes "ec_laws ec_parse ec_ser"
  shows "codec (Serialize_CTxUndo ec_parse) (Unserialize_CTxUndo ec_parse ec_ser) txundo_ok"
proof
  fix u :: CTxUndo and s
  assume ok: "txundo_ok u"
  have c: "codec (Serialize_TxInUndo ec_parse) (Unserialize_TxInUndo ec_parse ec_ser coinEmpty) coin_ok"
    by unfold_locales (rule TxInUndo_roundtrip [OF assms])
  have "ReadCompactSize (write_size (length (vprevout u)) @ t) = Inr (length (vprevout u), t)" for t
    using size_codec.unser_ser [of "length (vprevout u)" t] ok by (simp add: txundo_ok_def MAX_INPUTS_value MAX_SIZE_def)
  then show "Unserialize_CTxUndo ec_parse ec_ser (Serialize_CTxUndo ec_parse u @ s) = Inr (u, s)"
    using ok codec.read_items_ser [OF c, of "vprevout u" "[]" s]
    by (simp add: Unserialize_CTxUndo_def Serialize_CTxUndo_def Unserialize_array_def txundo_ok_def)
qed

lemma CBlockUndo_roundtrip:
  assumes "ec_laws ec_parse ec_ser" "list_all txundo_ok (vtxundo b)" "length (vtxundo b) \<le> MAX_SIZE"
  shows "Unserialize_CBlockUndo ec_parse ec_ser k (Serialize_CBlockUndo ec_parse b @ s) = Inr (b, s)"
proof -
  have "ReadCompactSize (write_size (length (vtxundo b)) @ t) = Inr (length (vtxundo b), t)" for t
    using size_codec.unser_ser [of "length (vtxundo b)" t] assms(3) by simp
  then show ?thesis using codec.read_vector_ser [OF CTxUndo_codec [OF assms(1)] assms(2), of 0 _ k "[]" s]
    by (simp add: Unserialize_CBlockUndo_def Serialize_CBlockUndo_def Serialize_vector_def Unserialize_vector_def)
qed

lemma UndoRead_Write:
  assumes "ec_laws ec_parse ec_ser" "list_all txundo_ok (vtxundo b)" "length (vtxundo b) \<le> MAX_SIZE"
  shows "UndoReadFromDisk ec_parse ec_ser k junk (UndoWriteToDisk ec_parse junk b h @ s) h = Some b"
proof -
  let ?u = "Serialize_CBlockUndo ec_parse b" and ?c = "SerializeHash junk (Serialize_uint256 h @ Serialize_CBlockUndo ec_parse b)"
  have "WIDTH ?c = 8" by (simp add: SerializeHash_def)
  then have "Unserialize_uint256 (Serialize_uint256 ?c @ s) = Inr (?c, s)" by (rule uint256_codec.unser_ser)
  then show ?thesis
    using CBlockUndo_roundtrip [OF assms, of k "Serialize_uint256 ?c @ s"] by (simp add: UndoReadFromDisk_def UndoWriteToDisk_def)
qed

section \<open>Abstract transactions\<close>

text \<open>What a transaction does to the map of unspent coins and to the set of nullifiers, and its undo data.\<close>

definition spent_points :: "CTransaction \<Rightarrow> COutPoint set" where
  "spent_points tx = (if IsCoinBase tx then {} else prevout ` set (vin tx))"

definition tx_nullifiers :: "CTransaction \<Rightarrow> uint256 set" where
  "tx_nullifiers tx = (case sapData tx of None \<Rightarrow> {} | Some d \<Rightarrow> spend_nullifier ` set (vShieldedSpend d))"

definition apply_tx :: "byte list \<Rightarrow> int \<Rightarrow> CTransaction \<Rightarrow> (COutPoint \<Rightarrow> Coin option) \<Rightarrow> COutPoint \<Rightarrow> Coin option" where
  "apply_tx junk h tx U = (U |` (- spent_points tx)) ++ out_coin (tx_GetHash junk tx) (IsCoinBase tx) (IsCoinStake tx) h 0 (vout tx)"

definition apply_tx_nf :: "CTransaction \<Rightarrow> (uint256 \<Rightarrow> bool) \<Rightarrow> uint256 \<Rightarrow> bool" where
  "apply_tx_nf tx N n \<longleftrightarrow> n \<in> tx_nullifiers tx \<or> N n"

definition tx_undo :: "CTransaction \<Rightarrow> (COutPoint \<Rightarrow> Coin option) \<Rightarrow> CTxUndo" where
  "tx_undo tx U = \<lparr>vprevout = (if IsCoinBase tx then [] else map (\<lambda>i. the (U (prevout i))) (vin tx))\<rparr>"

text \<open>
  When a transaction can be applied: its inputs are distinct, unspent and restorable, its outputs are new
  and storable, its nullifiers are new.
\<close>

definition restorable :: "Coin \<Rightarrow> bool" where
  "restorable coin \<longleftrightarrow> coin_height coin \<noteq> 0 \<and> \<not> IsUnspendable (scriptPubKey (coin_out coin))"

definition tx_applies :: "byte list \<Rightarrow> int \<Rightarrow> CTransaction \<Rightarrow> (COutPoint \<Rightarrow> Coin option) \<Rightarrow> (uint256 \<Rightarrow> bool) \<Rightarrow> bool" where
  "tx_applies junk h tx U N \<longleftrightarrow>
     (\<not> IsCoinBase tx \<longrightarrow> distinct (map prevout (vin tx)) \<and> length (vin tx) \<le> MAX_INPUTS_PER_BLOCK \<and>
        (\<forall>i \<in> set (vin tx). outpoint_ok (prevout i) \<and> (\<exists>coin. U (prevout i) = Some coin \<and> restorable coin))) \<and>
     length (vout tx) \<le> 2 ^ 32 \<and> list_all (\<lambda>o1. coin_ok (Coin_new o1 h (IsCoinBase tx) (IsCoinStake tx))) (vout tx) \<and>
     (\<forall>p. op_hash p = tx_GetHash junk tx \<longrightarrow> unat (op_n p) < length (vout tx) \<longrightarrow> U p = None) \<and>
     (\<forall>n \<in> tx_nullifiers tx. WIDTH n = 8 \<and> \<not> N n) \<and> (IsCoinBase tx \<longrightarrow> tx_nullifiers tx = {})"

fun block_applies :: "byte list \<Rightarrow> int \<Rightarrow> CTransaction list \<Rightarrow> (COutPoint \<Rightarrow> Coin option) \<Rightarrow> (uint256 \<Rightarrow> bool) \<Rightarrow> bool" where
  "block_applies junk h [] U N = True"
| "block_applies junk h (tx # txs) U N =
     (tx_applies junk h tx U N \<and> block_applies junk h txs (apply_tx junk h tx U) (apply_tx_nf tx N))"

fun block_undo :: "byte list \<Rightarrow> int \<Rightarrow> CTransaction list \<Rightarrow> (COutPoint \<Rightarrow> Coin option) \<Rightarrow> CTxUndo list" where
  "block_undo junk h [] U = []"
| "block_undo junk h (tx # txs) U = tx_undo tx U # block_undo junk h txs (apply_tx junk h tx U)"

lemma length_block_undo [simp]: "length (block_undo junk h txs U) = length txs"
  by (induction txs arbitrary: U) simp_all

lemma undo_transactions_append:
  "undo_transactions V mem junk (xs @ ys) b c = (case undo_transactions V mem junk xs b c of
     Inl e \<Rightarrow> Inl e | Inr (None, c') \<Rightarrow> Inr (None, c') | Inr (Some b', c') \<Rightarrow> undo_transactions V mem junk ys b' c')"
  by (induction xs arbitrary: b c) (auto split: sum.splits option.splits prod.splits)

lemma apply_tx_coin_ok:
  "apply_tx junk h tx U p = Some coin \<Longrightarrow> tx_applies junk h tx U N \<Longrightarrow> (\<And>p coin. U p = Some coin \<Longrightarrow> coin_ok coin) \<Longrightarrow> coin_ok coin"
  by (auto simp: apply_tx_def map_add_def restrict_map_def out_coin_def Let_def tx_applies_def list_all_length
      split: option.splits if_splits)

lemma WIDTH_GetHash [simp]: "WIDTH (tx_GetHash junk tx) = 8"
  by (simp add: tx_GetHash_def SerializeHash_def)

context coins_view
begin

lemma cache_unspent: "cok c \<Longrightarrow> cache_utxo utxo c p = Some coin \<Longrightarrow> \<not> coin_IsSpent coin \<and> coin_ok coin"
  using utxo_unspent [of "cv_base c" p coin]
  by (auto simp: cache_utxo_def cache_ok_def entry_ok_def visible_def split: option.splits if_splits)

lemma spend_inputs_refines:
  "cok c \<Longrightarrow> distinct (map prevout ins) \<Longrightarrow> list_all (\<lambda>i. outpoint_ok (prevout i) \<and> cache_utxo utxo c (prevout i) \<noteq> None) ins \<Longrightarrow>
   \<exists>c'. spend_inputs V mem ins c = (map (\<lambda>i. the (cache_utxo utxo c (prevout i))) ins, c') \<and> cok c' \<and>
     cache_utxo utxo c' = cache_utxo utxo c |` (- (prevout ` set ins)) \<and> cache_nf nf c' = cache_nf nf c"
proof (induction ins arbitrary: c)
  case Nil
  then show ?case by simp
next
  case (Cons i ins)
  obtain r c1 where s: "SpendCoin V mem c (prevout i) = (r, c1)" by (cases "SpendCoin V mem c (prevout i)")
  from SpendCoin_refines [OF Cons.prems(1) _ s] Cons.prems(3)
  have c1: "cok c1" "cache_utxo utxo c1 = (cache_utxo utxo c)(prevout i := None)" "cache_nf nf c1 = cache_nf nf c"
    "cache_utxo utxo c (prevout i) = Option.bind r visible" by auto
  then obtain coin where r: "r = Some coin" "cache_utxo utxo c (prevout i) = Some coin"
    using Cons.prems(3) by (cases r) (auto simp: visible_def split: if_splits)
  have same: "cache_utxo utxo c1 (prevout j) = cache_utxo utxo c (prevout j)" if "j \<in> set ins" for j
  proof -
    have "prevout j \<in> set (map prevout ins)" "prevout i \<notin> set (map prevout ins)" using that Cons.prems(2) by simp_all
    then have "prevout j \<noteq> prevout i" by metis
    then show ?thesis by (simp add: c1(2))
  qed
  then have "list_all (\<lambda>i. outpoint_ok (prevout i) \<and> cache_utxo utxo c1 (prevout i) \<noteq> None) ins"
    using Cons.prems(3) by (auto simp: list_all_iff)
  from Cons.IH [OF c1(1) _ this] Cons.prems(2) obtain c' where
    c': "spend_inputs V mem ins c1 = (map (\<lambda>i. the (cache_utxo utxo c1 (prevout i))) ins, c')" "cok c'"
      "cache_utxo utxo c' = cache_utxo utxo c1 |` (- (prevout ` set ins))" "cache_nf nf c' = cache_nf nf c1" by auto
  have "cache_utxo utxo c1 |` (- (prevout ` set ins)) = cache_utxo utxo c |` (- (prevout ` set (i # ins)))"
    unfolding c1(2) by (auto simp: restrict_map_def fun_eq_iff)
  moreover have "map (\<lambda>i. the (cache_utxo utxo c1 (prevout i))) ins = map (\<lambda>i. the (cache_utxo utxo c (prevout i))) ins"
    using same by simp
  ultimately show ?case using s r c' c1(3) by simp
qed

lemma SetNullifiers_refines:
  assumes "cok c" and "\<forall>n \<in> tx_nullifiers tx. WIDTH n = 8"
  shows "cok (SetNullifiers c tx b)" and "cache_utxo utxo (SetNullifiers c tx b) = cache_utxo utxo c"
    and "cache_nf nf (SetNullifiers c tx b) = (\<lambda>n. if n \<in> tx_nullifiers tx then b else cache_nf nf c n)"
proof -
  let ?f = "\<lambda>s. AList.update (spend_nullifier s) \<lparr>nf_entered = b, nf_DIRTY = True\<rparr>"
  have fold: "nf_agrees (fold ?f ss m) f \<and> nf_lookup (fold ?f ss m) f = (\<lambda>n. if n \<in> spend_nullifier ` set ss then b else nf_lookup m f n)"
    if "nf_agrees m f" "\<forall>s \<in> set ss. WIDTH (spend_nullifier s) = 8" for ss m f
    using that
  proof (induction ss arbitrary: m)
    case (Cons s ss)
    have "nf_agrees (?f s m) f" using Cons.prems by (intro nf_update(2)) auto
    from Cons.IH [OF this] Cons.prems(2) show ?case by (auto simp: nf_update(1) fun_eq_iff)
  qed (simp add: fun_eq_iff)
  have "cok (SetNullifiers c tx b) \<and> cache_utxo utxo (SetNullifiers c tx b) = cache_utxo utxo c \<and>
    cache_nf nf (SetNullifiers c tx b) = (\<lambda>n. if n \<in> tx_nullifiers tx then b else cache_nf nf c n)"
  proof (cases "sapData tx")
    case None
    then show ?thesis using assms(1) by (simp add: SetNullifiers_def tx_nullifiers_def)
  next
    case (Some d)
    let ?m = "fold ?f (vShieldedSpend d) (cacheSaplingNullifiers c)"
    have sc: "SetNullifiers c tx b = c\<lparr>cacheSaplingNullifiers := ?m\<rparr>" using Some by (simp add: SetNullifiers_def)
    have "nf_agrees ?m (nf (cv_base c)) \<and> nf_lookup ?m (nf (cv_base c)) =
        (\<lambda>n. if n \<in> spend_nullifier ` set (vShieldedSpend d) then b else nf_lookup (cacheSaplingNullifiers c) (nf (cv_base c)) n)"
      by (rule fold) (use assms Some in \<open>auto simp: tx_nullifiers_def cache_ok_nf\<close>)
    moreover have "cache_utxo utxo (c\<lparr>cacheSaplingNullifiers := ?m\<rparr>) = cache_utxo utxo c"
      by (rule ext) (simp add: cache_utxo_def split: option.split)
    ultimately show ?thesis using assms(1) Some by (simp add: sc tx_nullifiers_def cache_ok_nf cache_nf_lookup)
  qed
  then show "cok (SetNullifiers c tx b)" and "cache_utxo utxo (SetNullifiers c tx b) = cache_utxo utxo c"
    and "cache_nf nf (SetNullifiers c tx b) = (\<lambda>n. if n \<in> tx_nullifiers tx then b else cache_nf nf c n)" by blast+
qed

lemma UpdateCoins_refines:
  assumes c: "cok c" and a: "tx_applies junk h tx (cache_utxo utxo c) (cache_nf nf c)"
  shows "\<exists>c'. UpdateCoins V mem junk tx c h b = Inr (tx_undo tx (cache_utxo utxo c), c') \<and> cok c' \<and>
    cache_utxo utxo c' = apply_tx junk h tx (cache_utxo utxo c) \<and> cache_nf nf c' = apply_tx_nf tx (cache_nf nf c)"
proof -
  let ?U = "cache_utxo utxo c" and ?txid = "tx_GetHash junk tx"
  obtain c1 where c1: "(if \<not> IsCoinBase tx then spend_inputs V mem (vin tx) c else ([], c)) = (vprevout (tx_undo tx ?U), c1)"
      "cok c1" "cache_utxo utxo c1 = ?U |` (- spent_points tx)" "cache_nf nf c1 = cache_nf nf c"
  proof (cases "IsCoinBase tx")
    case True
    then show thesis by (intro that [of c]) (use c in \<open>simp_all add: tx_undo_def spent_points_def restrict_map_def\<close>)
  next
    case False
    then have "distinct (map prevout (vin tx))" "list_all (\<lambda>i. outpoint_ok (prevout i) \<and> ?U (prevout i) \<noteq> None) (vin tx)"
      using a by (auto simp: tx_applies_def list_all_iff)
    from spend_inputs_refines [OF c this, of mem] False that show thesis by (auto simp: tx_undo_def spent_points_def)
  qed
  define c2 where "c2 = SetNullifiers c1 tx True"
  have c2: "cok c2" "cache_utxo utxo c2 = ?U |` (- spent_points tx)" "cache_nf nf c2 = apply_tx_nf tx (cache_nf nf c)"
    using SetNullifiers_refines [OF c1(2), of tx True] a c1(3,4)
    by (auto simp: c2_def tx_applies_def apply_tx_nf_def fun_eq_iff)
  have "\<forall>p. op_hash p = ?txid \<longrightarrow> 0 \<le> unat (op_n p) \<longrightarrow> unat (op_n p) < 0 + length (vout tx) \<longrightarrow> cache_utxo utxo c2 p = None"
    using a by (auto simp: c2(2) tx_applies_def restrict_map_def)
  then obtain c3 where "add_outputs V mem ?txid (IsCoinBase tx) (IsCoinStake tx) h False 0 (vout tx) c2 = Inr c3" "cok c3"
      "cache_nf nf c3 = cache_nf nf c2" "cache_utxo utxo c3 = cache_utxo utxo c2 ++ out_coin ?txid (IsCoinBase tx) (IsCoinStake tx) h 0 (vout tx)"
    using add_outputs_refines [OF c2(1), of ?txid 0 "vout tx" h "IsCoinBase tx" "IsCoinStake tx" False mem] a
    by (auto simp: tx_applies_def)
  then show ?thesis using c1(1) c2
    by (auto simp: UpdateCoins_def AddCoins_def c2_def [symmetric] apply_tx_def tx_undo_def Let_def)
qed

text \<open>Taking back: outputs, inputs, a transaction.\<close>

lemma undo_outputs_refines:
  "cok c \<Longrightarrow> WIDTH txid = 8 \<Longrightarrow> cache_utxo utxo c = U ++ out_coin txid cb cs h i outs \<Longrightarrow>
   (\<forall>p. op_hash p = txid \<longrightarrow> i \<le> unat (op_n p) \<longrightarrow> unat (op_n p) < i + length outs \<longrightarrow> U p = None) \<Longrightarrow> i + length outs \<le> 2 ^ 32 \<Longrightarrow>
   list_all (\<lambda>o1. coin_ok (Coin_new o1 h cb cs)) outs \<Longrightarrow>
   \<exists>c'. undo_outputs V mem txid i outs fClean c = (fClean, c') \<and> cok c' \<and> cache_utxo utxo c' = U \<and> cache_nf nf c' = cache_nf nf c"
proof (induction outs arbitrary: i c U)
  case Nil
  have "out_coin txid cb cs h i [] = Map.empty" by (simp add: out_coin_def fun_eq_iff Let_def)
  then show ?case using Nil by simp
next
  case (Cons o1 outs)
  define p where "p = \<lparr>op_hash = txid, op_n = of_nat i\<rparr>"
  have pi: "op_hash p = txid" "unat (op_n p) = i" using Cons.prems(5) by (simp_all add: p_def unat_of_nat)
  have pok: "outpoint_ok p" using Cons.prems(2) by (simp add: p_def outpoint_ok_def)
  let ?coin = "Coin_new o1 h cb cs"
  have step: "(if IsUnspendable (scriptPubKey o1) then U else U(p \<mapsto> ?coin)) ++ out_coin txid cb cs h (Suc i) outs = cache_utxo utxo c"
    unfolding Cons.prems(3) by (rule out_coin_step [OF pi])
  have none: "out_coin txid cb cs h (Suc i) outs p = None" using pi by (simp add: out_coin_def Let_def)
  have rest: "\<forall>q. op_hash q = txid \<longrightarrow> Suc i \<le> unat (op_n q) \<longrightarrow> unat (op_n q) < Suc i + length outs \<longrightarrow> U q = None" "Suc i + length outs \<le> 2 ^ 32"
      "list_all (\<lambda>o1. coin_ok (Coin_new o1 h cb cs)) outs" using Cons.prems(4-6) by auto
  show ?case
  proof (cases "IsUnspendable (scriptPubKey o1)")
    case True
    then have "cache_utxo utxo c = U ++ out_coin txid cb cs h (Suc i) outs" using step by simp
    from Cons.IH [OF Cons.prems(1,2) this rest] True show ?thesis by simp
  next
    case False
    obtain r c1 where s: "SpendCoin V mem c p = (r, c1)" by (cases "SpendCoin V mem c p")
    have c1: "cok c1" "cache_utxo utxo c1 = (cache_utxo utxo c)(p := None)" "cache_nf nf c1 = cache_nf nf c"
      "cache_utxo utxo c p = Option.bind r visible" using SpendCoin_refines [OF Cons.prems(1) pok s] by blast+
    have "cache_utxo utxo c p = Some ?coin" using step none False by (simp add: map_add_def flip: step)
    then have r: "r = Some ?coin" using c1(4) by (cases r) (auto simp: visible_def split: if_splits)
    have "cache_utxo utxo c1 = U ++ out_coin txid cb cs h (Suc i) outs"
    proof
      fix q
      have "U p = None" using Cons.prems(4) pi by simp
      then show "cache_utxo utxo c1 q = (U ++ out_coin txid cb cs h (Suc i) outs) q"
        using False none by (simp add: c1(2) map_add_def flip: step split: option.split)
    qed
    from Cons.IH [OF c1(1) Cons.prems(2) this rest] obtain c' where
      "undo_outputs V mem txid (Suc i) outs fClean c1 = (fClean, c')" "cok c'" "cache_utxo utxo c' = U" "cache_nf nf c' = cache_nf nf c"
      using c1(3) by auto
    then show ?thesis using False s r by (simp add: p_def Coin_new_def)
  qed
qed

lemma ApplyTxInUndo_refines:
  assumes "cok c" "outpoint_ok p" "coin_ok coin" "restorable coin" "cache_utxo utxo c p = None"
  shows "\<exists>c'. ApplyTxInUndo V mem coin c p = Inr (DISCONNECT_OK, c') \<and> cok c' \<and>
    cache_utxo utxo c' = (cache_utxo utxo c)(p \<mapsto> coin) \<and> cache_nf nf c' = cache_nf nf c"
proof -
  obtain b c1 where h: "HaveCoin V mem c p = (b, c1)" by (cases "HaveCoin V mem c p")
  have c1: "cok c1" "cache_utxo utxo c1 = cache_utxo utxo c" "cache_nf nf c1 = cache_nf nf c" "\<not> b"
    using HaveCoin_refines [OF assms(1,2) h] assms(5) by auto
  have "cache_utxo utxo c1 p = None" using c1(2) assms(5) by simp
  from AddCoin_refines [OF c1(1) assms(2) coin_ok_unspent [OF assms(3)] assms(3), of False mem] this
  obtain c2 where "AddCoin mem c1 p coin False = Inr c2" "cok c2" "cache_nf nf c2 = cache_nf nf c"
      "cache_utxo utxo c2 = (cache_utxo utxo c)(p \<mapsto> coin)"
    using assms(4) c1(2,3) by (auto simp: restorable_def)
  then show ?thesis using h c1(4) assms(4) by (simp add: ApplyTxInUndo_def restorable_def)
qed

lemma undo_inputs_refines:
  "cok c \<Longrightarrow> distinct (map (\<lambda>x. prevout (fst x)) us) \<Longrightarrow>
   \<forall>(i, coin) \<in> set us. outpoint_ok (prevout i) \<and> coin_ok coin \<and> restorable coin \<and> cache_utxo utxo c (prevout i) = None \<Longrightarrow>
   \<exists>c'. undo_inputs V mem us fClean c = Inr (Some fClean, c') \<and> cok c' \<and>
     cache_utxo utxo c' = cache_utxo utxo c ++ map_of (map (\<lambda>(i, coin). (prevout i, coin)) us) \<and> cache_nf nf c' = cache_nf nf c"
proof (induction us arbitrary: c)
  case Nil
  then show ?case by simp
next
  case (Cons u us)
  obtain i coin where u: "u = (i, coin)" by (cases u)
  from ApplyTxInUndo_refines [OF Cons.prems(1), of "prevout i" coin mem] Cons.prems(3) obtain c1 where
    c1: "ApplyTxInUndo V mem coin c (prevout i) = Inr (DISCONNECT_OK, c1)" "cok c1"
      "cache_utxo utxo c1 = (cache_utxo utxo c)(prevout i \<mapsto> coin)" "cache_nf nf c1 = cache_nf nf c" by (auto simp: u)
  have fresh: "prevout i \<notin> set (map (\<lambda>x. prevout (fst x)) us)" using Cons.prems(2) by (simp add: u)
  have "cache_utxo utxo c1 (prevout j) = None" if "(j, d) \<in> set us" for j d
  proof -
    have "prevout j \<in> set (map (\<lambda>x. prevout (fst x)) us)" using that by force
    then have "prevout j \<noteq> prevout i" using fresh by metis
    then show ?thesis using that Cons.prems(3) by (auto simp: c1(3))
  qed
  then have "\<forall>(i, coin) \<in> set us. outpoint_ok (prevout i) \<and> coin_ok coin \<and> restorable coin \<and> cache_utxo utxo c1 (prevout i) = None"
    using Cons.prems(3) by auto
  from Cons.IH [OF c1(2) _ this] Cons.prems(2) obtain c' where
    c': "undo_inputs V mem us fClean c1 = Inr (Some fClean, c')" "cok c'" "cache_nf nf c' = cache_nf nf c"
      "cache_utxo utxo c' = cache_utxo utxo c1 ++ map_of (map (\<lambda>(i, coin). (prevout i, coin)) us)" using c1(4) by auto
  have "map_of (map (\<lambda>(i, coin). (prevout i, coin)) us) (prevout i) = None"
    using fresh by (simp add: map_of_eq_None_iff image_image split_beta)
  then have "cache_utxo utxo c' = cache_utxo utxo c ++ map_of (map (\<lambda>(i, coin). (prevout i, coin)) (u # us))"
    unfolding c'(4) c1(3) by (auto simp: u fun_eq_iff map_add_def split: option.split)
  moreover have "undo_inputs V mem (u # us) fClean c = Inr (Some fClean, c')" using c1(1) c'(1) by (simp add: u)
  ultimately show ?case using c'(2,3) by blast
qed

lemma undo_transaction_refines:
  assumes c: "cok c" and a: "tx_applies junk h tx U N" and U: "\<And>p coin. U p = Some coin \<Longrightarrow> coin_ok coin"
    and u: "cache_utxo utxo c = apply_tx junk h tx U" and n: "cache_nf nf c = apply_tx_nf tx N"
    and und: "IsCoinBase tx \<or> txundo = Some (tx_undo tx U)"
  shows "\<exists>c'. undo_transaction V mem junk tx txundo fClean c = Inr (Some fClean, c') \<and> cok c' \<and> cache_utxo utxo c' = U \<and> cache_nf nf c' = N"
proof -
  let ?txid = "tx_GetHash junk tx" and ?U1 = "U |` (- spent_points tx)"
  have fresh: "\<forall>p. op_hash p = ?txid \<longrightarrow> 0 \<le> unat (op_n p) \<longrightarrow> unat (op_n p) < 0 + length (vout tx) \<longrightarrow> ?U1 p = None"
    using a by (auto simp: tx_applies_def restrict_map_def)
  have "0 + length (vout tx) \<le> 2 ^ 32" "list_all (\<lambda>o1. coin_ok (Coin_new o1 h (IsCoinBase tx) (IsCoinStake tx))) (vout tx)"
    using a by (simp_all add: tx_applies_def)
  from undo_outputs_refines [OF c WIDTH_GetHash u [unfolded apply_tx_def] fresh this, of mem fClean] obtain c1 where
    c1: "undo_outputs V mem ?txid 0 (vout tx) fClean c = (fClean, c1)" "cok c1" "cache_utxo utxo c1 = ?U1" "cache_nf nf c1 = cache_nf nf c"
    by blast
  show ?thesis
  proof (cases "IsCoinBase tx")
    case True
    then have "?U1 = U" "cache_nf nf c1 = N"
      using a c1(4) n by (auto simp: spent_points_def restrict_map_def tx_applies_def apply_tx_nf_def fun_eq_iff)
    then show ?thesis using c1 True by (simp add: undo_transaction_def)
  next
    case False
    define c2 where "c2 = SetNullifiers c1 tx False"
    have w: "\<forall>n \<in> tx_nullifiers tx. WIDTH n = 8 \<and> \<not> N n" using a by (simp add: tx_applies_def)
    then have c2: "cok c2" "cache_utxo utxo c2 = ?U1" "cache_nf nf c2 = N"
      using SetNullifiers_refines [OF c1(2), of tx False] c1(3,4) n by (auto simp: c2_def apply_tx_nf_def fun_eq_iff)
    define us where "us = rev (zip (vin tx) (vprevout (tx_undo tx U)))"
    have zip: "zip (vin tx) (vprevout (tx_undo tx U)) = map (\<lambda>i. (i, the (U (prevout i)))) (vin tx)"
      using False by (simp add: tx_undo_def zip_map2 zip_same_conv_map)
    have ins: "distinct (map prevout (vin tx))"
      "\<forall>i \<in> set (vin tx). outpoint_ok (prevout i) \<and> (\<exists>coin. U (prevout i) = Some coin \<and> restorable coin)"
      using a False by (simp_all add: tx_applies_def)
    have d: "distinct (map (\<lambda>x. prevout (fst x)) us)" using ins(1) by (simp add: us_def zip comp_def flip: rev_map)
    have e: "\<forall>(i, coin) \<in> set us. outpoint_ok (prevout i) \<and> coin_ok coin \<and> restorable coin \<and> cache_utxo utxo c2 (prevout i) = None"
      using ins(2) U False by (fastforce simp: us_def zip c2(2) spent_points_def restrict_map_def)
    from undo_inputs_refines [OF c2(1) d e, of mem fClean] obtain c' where
      c': "undo_inputs V mem us fClean c2 = Inr (Some fClean, c')" "cok c'" "cache_nf nf c' = N"
        "cache_utxo utxo c' = ?U1 ++ map_of (map (\<lambda>(i, coin). (prevout i, coin)) us)" using c2(2,3) by auto
    have keys: "distinct (map fst (map (\<lambda>(i, coin). (prevout i, coin)) us))" using d by (simp add: comp_def split_beta)
    have "cache_utxo utxo c' = U"
    proof
      fix p
      show "cache_utxo utxo c' p = U p"
      proof (cases "p \<in> prevout ` set (vin tx)")
        case True
        then obtain i coin where i: "i \<in> set (vin tx)" "p = prevout i" "U p = Some coin" using ins(2) by auto
        then have "(p, coin) \<in> set (map (\<lambda>(i, coin). (prevout i, coin)) us)" by (force simp: us_def zip)
        then have "map_of (map (\<lambda>(i, coin). (prevout i, coin)) us) p = Some coin" using keys by (rule map_of_is_SomeI [rotated])
        then show ?thesis using i(3) by (simp add: c'(4) map_add_def)
      next
        case no: False
        then have "map_of (map (\<lambda>(i, coin). (prevout i, coin)) us) p = None" by (auto simp: map_of_eq_None_iff us_def zip)
        then show ?thesis using no False by (simp add: c'(4) map_add_def spent_points_def restrict_map_def)
      qed
    qed
    moreover have "length (vprevout (tx_undo tx U)) = length (vin tx)" using False by (simp add: tx_undo_def)
    ultimately show ?thesis using c1(1) c' False und by (simp add: undo_transaction_def c2_def us_def)
  qed
qed

lemma PopAnchor_refines:
  assumes "cok c"
  shows "PopAnchor V tmem rt c = Inl NoBestAnchor \<or>
    (\<exists>c'. PopAnchor V tmem rt c = Inr c' \<and> cok c' \<and> cache_utxo utxo c' = cache_utxo utxo c \<and> cache_nf nf c' = cache_nf nf c)"
proof -
  obtain r c1 where g: "GetBestAnchor V c = (r, c1)" by (cases "GetBestAnchor V c")
  obtain t c2 where h: "GetSaplingAnchorAt V tmem c1 r = (t, c2)" by (cases "GetSaplingAnchorAt V tmem c1 r")
  have c1: "cok c1" "cache_utxo utxo c1 = cache_utxo utxo c" "cache_nf nf c1 = cache_nf nf c"
    using getters_refine(2) [OF assms g] by auto
  have c2: "cok c2" "cache_utxo utxo c2 = cache_utxo utxo c" "cache_nf nf c2 = cache_nf nf c"
    using getters_refine(3) [OF c1(1) h] c1 by auto
  have same: "cok (c2\<lparr>cacheSaplingAnchors := x, hashSaplingAnchor := y\<rparr>) \<and>
      cache_utxo utxo (c2\<lparr>cacheSaplingAnchors := x, hashSaplingAnchor := y\<rparr>) = cache_utxo utxo c \<and>
      cache_nf nf (c2\<lparr>cacheSaplingAnchors := x, hashSaplingAnchor := y\<rparr>) = cache_nf nf c" for x y
    using c2 cache_base [of "c2\<lparr>cacheSaplingAnchors := x, hashSaplingAnchor := y\<rparr>" c2 ok utxo nf] by (simp add: cache_ok_def)
  show ?thesis using g h c1 same by (cases t) (auto simp: PopAnchor_def)
qed

text \<open>Blocks.\<close>

lemma connect_coins_refines:
  "cok c \<Longrightarrow> block_applies junk h txs (cache_utxo utxo c) (cache_nf nf c) \<Longrightarrow>
   \<exists>c'. connect_coins V mem junk h txs c = Inr (block_undo junk h txs (cache_utxo utxo c), c') \<and> cok c' \<and>
     cache_utxo utxo c' = fold (apply_tx junk h) txs (cache_utxo utxo c) \<and> cache_nf nf c' = fold apply_tx_nf txs (cache_nf nf c)"
proof (induction txs arbitrary: c)
  case Nil
  then show ?case by simp
next
  case (Cons tx txs)
  from UpdateCoins_refines [OF Cons.prems(1), of junk h tx mem False] Cons.prems(2) obtain c1 where
    c1: "UpdateCoins V mem junk tx c h False = Inr (tx_undo tx (cache_utxo utxo c), c1)" "cok c1"
      "cache_utxo utxo c1 = apply_tx junk h tx (cache_utxo utxo c)" "cache_nf nf c1 = apply_tx_nf tx (cache_nf nf c)" by auto
  from Cons.IH [OF c1(2)] Cons.prems(2) show ?case by (auto simp: c1)
qed

lemma undo_transactions_refines:
  "cok c \<Longrightarrow> block_applies junk h txs U N \<Longrightarrow> (\<And>p coin. U p = Some coin \<Longrightarrow> coin_ok coin) \<Longrightarrow>
   cache_utxo utxo c = fold (apply_tx junk h) txs U \<Longrightarrow> cache_nf nf c = fold apply_tx_nf txs N \<Longrightarrow>
   list_all2 (\<lambda>(tx, ut) u. IsCoinBase tx \<or> ut = Some u) (zip txs us) (block_undo junk h txs U) \<Longrightarrow> length us = length txs \<Longrightarrow>
   \<exists>c'. undo_transactions V mem junk (rev (zip txs us)) b c = Inr (Some b, c') \<and> cok c' \<and> cache_utxo utxo c' = U \<and> cache_nf nf c' = N"
proof (induction txs arbitrary: c U N us)
  case Nil
  then show ?case by simp
next
  case (Cons tx txs)
  obtain u us' where us: "us = u # us'" using Cons.prems(7) by (cases us) auto
  let ?U = "apply_tx junk h tx U" and ?N = "apply_tx_nf tx N"
  have a: "tx_applies junk h tx U N" "block_applies junk h txs ?U ?N" using Cons.prems(2) by simp_all
  have ok: "coin_ok coin" if "?U p = Some coin" for p coin using that a(1) Cons.prems(3) by (rule apply_tx_coin_ok)
  have "list_all2 (\<lambda>(tx, ut) u. IsCoinBase tx \<or> ut = Some u) (zip txs us') (block_undo junk h txs ?U)"
    "IsCoinBase tx \<or> u = Some (tx_undo tx U)" using Cons.prems(6) by (simp_all add: us)
  note und = this
  have "\<exists>c1. undo_transactions V mem junk (rev (zip txs us')) b c = Inr (Some b, c1) \<and> cok c1 \<and> cache_utxo utxo c1 = ?U \<and> cache_nf nf c1 = ?N"
    by (rule Cons.IH [OF Cons.prems(1) a(2) _ _ _ und(1)]) (use ok Cons.prems(4,5,7) us in auto)
  then obtain c1 where
    c1: "undo_transactions V mem junk (rev (zip txs us')) b c = Inr (Some b, c1)" "cok c1" "cache_utxo utxo c1 = ?U" "cache_nf nf c1 = ?N"
    by blast
  have "\<exists>c'. undo_transaction V mem junk tx u b c1 = Inr (Some b, c') \<and> cok c' \<and> cache_utxo utxo c' = U \<and> cache_nf nf c' = N"
    by (rule undo_transaction_refines [OF c1(2) a(1) _ c1(3,4) und(2)]) (rule Cons.prems(3))
  then obtain c' where
    "undo_transaction V mem junk tx u b c1 = Inr (Some b, c')" "cok c'" "cache_utxo utxo c' = U" "cache_nf nf c' = N" by blast
  then show ?case using c1(1) by (simp add: us undo_transactions_append)
qed

lemma SetBestBlock_refines:
  "cok (SetBestBlock x pH) \<longleftrightarrow> cok x" "cache_utxo utxo (SetBestBlock x pH) = cache_utxo utxo x"
  "cache_nf nf (SetBestBlock x pH) = cache_nf nf x" "hashBlock (SetBestBlock x pH) = pH"
  by (simp_all add: SetBestBlock_def cache_ok_def cache_utxo_def cache_nf_def fun_eq_iff split: option.split)

lemma DisconnectBlock_restores:
  assumes a: "block_applies junk h (cb # txs) U N" and ok: "\<And>p coin. U p = Some coin \<Longrightarrow> coin_ok coin" and cb: "IsCoinBase cb"
    and c1: "cok c1" "cache_utxo utxo c1 = fold (apply_tx junk h) (cb # txs) U" "cache_nf nf c1 = fold apply_tx_nf (cb # txs) N"
    and u: "undos = tl (block_undo junk h (cb # txs) U)"
  shows "DisconnectBlock V mem tmem junk params er (cb # txs) (Some \<lparr>vtxundo = undos\<rparr>) ph pr pH c1 = Inl (LogicError NoBestAnchor) \<or>
    (\<exists>c2. DisconnectBlock V mem tmem junk params er (cb # txs) (Some \<lparr>vtxundo = undos\<rparr>) ph pr pH c1 = Inr (DISCONNECT_OK, c2) \<and> cok c2 \<and>
      cache_utxo utxo c2 = U \<and> cache_nf nf c2 = N \<and> hashBlock c2 = pH)"
proof -
  have l: "length undos = length txs" using u by simp
  have "undos = block_undo junk h txs (apply_tx junk h cb U)" using u by simp
  moreover have "list_all2 (\<lambda>(tx, ut) u. IsCoinBase tx \<or> ut = Some u) (zip txs (map Some undos)) undos"
    by (simp add: list_all2_conv_all_nth l)
  ultimately have "list_all2 (\<lambda>(tx, ut) u. IsCoinBase tx \<or> ut = Some u) (zip (cb # txs) (None # map Some undos)) (block_undo junk h (cb # txs) U)"
    using cb by simp
  from undo_transactions_refines [OF c1(1) a _ c1(2,3) this, where mem = mem and b = True] l ok
  obtain c2 where c2: "undo_transactions V mem junk (rev (zip (cb # txs) (None # map Some undos))) True c1 = Inr (Some True, c2)" "cok c2"
      "cache_utxo utxo c2 = U" "cache_nf nf c2 = N" by auto
  let ?root = "if NetworkUpgradeActive params ph UPGRADE_V5_0 then pr else er"
  have d: "DisconnectBlock V mem tmem junk params er (cb # txs) (Some \<lparr>vtxundo = undos\<rparr>) ph pr pH c1 =
     (case PopAnchor V tmem ?root c2 of Inl e \<Rightarrow> Inl (LogicError e) | Inr v \<Rightarrow> Inr (DISCONNECT_OK, SetBestBlock v pH))"
    using c2(1) l by (simp add: DisconnectBlock_def Let_def)
  from PopAnchor_refines [OF c2(2), of tmem ?root] show ?thesis unfolding d
    by (elim disjE exE) (simp_all add: SetBestBlock_refines c2(3,4))
qed

lemma DisconnectBlock_refines:
  assumes "cok c" "block_applies junk h (cb # txs) (cache_utxo utxo c) (cache_nf nf c)" "IsCoinBase cb"
    and "connect_coins V mem junk h (cb # txs) c = Inr (u0 # undos, c1)"
  shows "DisconnectBlock V mem tmem junk params er (cb # txs) (Some \<lparr>vtxundo = undos\<rparr>) ph pr pH c1 = Inl (LogicError NoBestAnchor) \<or>
    (\<exists>c2. DisconnectBlock V mem tmem junk params er (cb # txs) (Some \<lparr>vtxundo = undos\<rparr>) ph pr pH c1 = Inr (DISCONNECT_OK, c2) \<and> cok c2 \<and>
      cache_utxo utxo c2 = cache_utxo utxo c \<and> cache_nf nf c2 = cache_nf nf c \<and> hashBlock c2 = pH)"
proof (rule DisconnectBlock_restores [OF assms(2) _ assms(3)])
  from connect_coins_refines [OF assms(1,2), of mem] assms(4) have
    bu: "u0 # undos = block_undo junk h (cb # txs) (cache_utxo utxo c)" and c1: "cok c1" "cache_utxo utxo c1 = fold (apply_tx junk h) (cb # txs) (cache_utxo utxo c)"
      "cache_nf nf c1 = fold apply_tx_nf (cb # txs) (cache_nf nf c)" by auto
  show "cok c1" "cache_utxo utxo c1 = fold (apply_tx junk h) (cb # txs) (cache_utxo utxo c)"
    "cache_nf nf c1 = fold apply_tx_nf (cb # txs) (cache_nf nf c)" by (fact c1)+
  show "undos = tl (block_undo junk h (cb # txs) (cache_utxo utxo c))" unfolding bu [symmetric] by simp
qed (use cache_unspent [OF assms(1)] in blast)

end

section \<open>Sapling anchors\<close>

text \<open>
  The trees a cache knows by their roots, and the root it takes for the current one.  A view is steady if reading from it leaves it as it
  is, as for the database; the operations on coins of a cache over it change neither, and \<open>PopAnchor\<close> succeeds if the tree of the current root is known.
\<close>

definition anchors :: "('v, 't) CCoinsView \<Rightarrow> ('v, 't) CCoinsViewCache \<Rightarrow> uint256 \<Rightarrow> 't option" where
  "anchors V c r = (case map_of (cacheSaplingAnchors c) r of Some e \<Rightarrow> if anchor_entered e then Some (anchor_tree e) else None
     | None \<Rightarrow> fst (view_GetSaplingAnchorAt V (cv_base c) r))"

definition best_anchor :: "('v, 't) CCoinsView \<Rightarrow> ('v, 't) CCoinsViewCache \<Rightarrow> uint256" where
  "best_anchor V c = (if bu_is_null (hashSaplingAnchor c) then fst (view_GetBestAnchor V (cv_base c)) else hashSaplingAnchor c)"

definition anchor_known :: "('v, 't) CCoinsView \<Rightarrow> ('v, 't) CCoinsViewCache \<Rightarrow> bool" where
  "anchor_known V c \<longleftrightarrow> anchors V c (best_anchor V c) \<noteq> None"

abbreviation anchor_frame :: "('v, 't) CCoinsViewCache \<Rightarrow> 'v \<times> 't CAnchorsSaplingMap \<times> uint256" where
  "anchor_frame c \<equiv> (cv_base c, cacheSaplingAnchors c, hashSaplingAnchor c)"

locale steady_view =
  fixes V :: "('v, 't) CCoinsView"
  assumes steady: "snd (view_GetCoin V b p) = b" "snd (view_HaveCoin V b p) = b" "snd (view_GetBestBlock V b) = b"
    "snd (view_GetSaplingAnchorAt V b r) = b" "snd (view_GetNullifier V b n) = b" "snd (view_GetBestAnchor V b) = b"
begin

abbreviation keeps :: "('v, 't) CCoinsViewCache \<Rightarrow> ('v, 't) CCoinsViewCache \<Rightarrow> bool" where
  "keeps c' c \<equiv> anchors V c' = anchors V c \<and> best_anchor V c' = best_anchor V c"

lemma frame_keeps: "anchor_frame c' = anchor_frame c \<Longrightarrow> keeps c' c"
  by (auto simp: anchors_def fun_eq_iff best_anchor_def split: option.split)

lemma steady_pair:
  "view_GetCoin V b p = (x, b') \<Longrightarrow> b' = b" "view_GetBestBlock V b = (h, b') \<Longrightarrow> b' = b" "view_GetSaplingAnchorAt V b r = (t, b') \<Longrightarrow> b' = b"
  "view_GetNullifier V b n = (f, b') \<Longrightarrow> b' = b" "view_GetBestAnchor V b = (a, b') \<Longrightarrow> b' = b"
  using steady by (metis snd_conv)+

lemma FetchCoin_frame: "FetchCoin V mem c p = (e, c') \<Longrightarrow> anchor_frame c' = anchor_frame c"
  by (auto simp: FetchCoin_def Let_def split: option.splits prod.splits dest: steady_pair)

lemma read_frame:
  "AccessCoin V mem c p = (coin, c') \<Longrightarrow> anchor_frame c' = anchor_frame c" "HaveCoin V mem c p = (b, c') \<Longrightarrow> anchor_frame c' = anchor_frame c"
  by (auto simp: AccessCoin_def HaveCoin_def split: option.splits prod.splits dest: FetchCoin_frame)

lemma SpendCoin_frame: "SpendCoin V mem c p = (coin, c') \<Longrightarrow> anchor_frame c' = anchor_frame c"
  by (auto simp: SpendCoin_def Let_def split: option.splits prod.splits if_splits dest: FetchCoin_frame)

lemma AddCoin_frame: "AddCoin mem c p coin f = Inr c' \<Longrightarrow> anchor_frame c' = anchor_frame c"
  by (auto simp: AddCoin_def Let_def split: if_splits)

lemma SetNullifiers_frame: "anchor_frame (SetNullifiers c tx f) = anchor_frame c"
  by (simp add: SetNullifiers_def split: option.split)

lemma spend_inputs_frame: "spend_inputs V mem ins c = (coins, c') \<Longrightarrow> anchor_frame c' = anchor_frame c"
proof (induction ins arbitrary: c coins c')
  case (Cons i ins)
  obtain x c1 where s: "SpendCoin V mem c (prevout i) = (x, c1)" by (cases "SpendCoin V mem c (prevout i)")
  obtain xs c2 where r: "spend_inputs V mem ins c1 = (xs, c2)" by (cases "spend_inputs V mem ins c1")
  show ?case using Cons.prems Cons.IH [OF r] SpendCoin_frame [OF s] by (simp add: s r)
qed simp

lemma add_outputs_frame: "add_outputs V mem txid cb cs h False i outs c = Inr c' \<Longrightarrow> anchor_frame c' = anchor_frame c"
  by (induction outs arbitrary: i c) (auto split: sum.splits dest: AddCoin_frame)

lemma UpdateCoins_frame:
  assumes "UpdateCoins V mem junk tx c h f = Inr (u, c')"
  shows "anchor_frame c' = anchor_frame c"
proof -
  obtain ps c1 where s: "(if \<not> IsCoinBase tx then spend_inputs V mem (vin tx) c else ([], c)) = (ps, c1)" by (cases "if \<not> IsCoinBase tx then spend_inputs V mem (vin tx) c else ([], c)")
  have "anchor_frame c1 = anchor_frame c" using s spend_inputs_frame by (auto split: if_splits)
  moreover have "add_outputs V mem (tx_GetHash junk tx) (IsCoinBase tx) (IsCoinStake tx) h False 0 (vout tx) (SetNullifiers c1 tx True) = Inr c'"
    using assms by (simp add: UpdateCoins_def s AddCoins_def split: sum.splits)
  ultimately show ?thesis using add_outputs_frame SetNullifiers_frame by metis
qed

lemma connect_coins_frame: "connect_coins V mem junk h txs c = Inr (us, c') \<Longrightarrow> anchor_frame c' = anchor_frame c"
proof (induction txs arbitrary: c us)
  case (Cons tx txs)
  from Cons.prems obtain u c1 vs where "UpdateCoins V mem junk tx c h False = Inr (u, c1)" "connect_coins V mem junk h txs c1 = Inr (vs, c')"
    by (auto split: sum.splits)
  then show ?case using Cons.IH UpdateCoins_frame by metis
qed simp

lemma access_loop_frame: "access_by_txid_loop V mem txid n k c = (coin, c') \<Longrightarrow> anchor_frame c' = anchor_frame c"
proof (induction k arbitrary: n c)
  case (Suc k)
  obtain x c1 where "AccessCoin V mem c \<lparr>op_hash = txid, op_n = of_nat n\<rparr> = (x, c1)" by (cases "AccessCoin V mem c \<lparr>op_hash = txid, op_n = of_nat n\<rparr>")
  then show ?case using Suc.prems Suc.IH [of "Suc n" c1] read_frame(1) by (auto split: if_splits)
qed simp

lemma ApplyTxInUndo_frame:
  assumes "ApplyTxInUndo V mem u c p = Inr (res, c')"
  shows "anchor_frame c' = anchor_frame c"
proof -
  obtain b c1 where h: "HaveCoin V mem c p = (b, c1)" by (cases "HaveCoin V mem c p")
  obtain x c2 where a: "AccessByTxid V mem c1 (op_hash p) = (x, c2)" by (cases "AccessByTxid V mem c1 (op_hash p)")
  have "anchor_frame c1 = anchor_frame c" "anchor_frame c2 = anchor_frame c"
    using read_frame(2) [OF h] access_loop_frame a by (auto simp: AccessByTxid_def)
  then show ?thesis using assms AddCoin_frame
    by (fastforce simp: ApplyTxInUndo_def h a Let_def split: if_splits sum.splits option.splits)
qed

lemma undo_outputs_frame: "undo_outputs V mem txid i outs f c = (b, c') \<Longrightarrow> anchor_frame c' = anchor_frame c"
proof (induction outs arbitrary: i f c)
  case (Cons out outs)
  obtain x c1 where s: "SpendCoin V mem c \<lparr>op_hash = txid, op_n = of_nat i\<rparr> = (x, c1)" by (cases "SpendCoin V mem c \<lparr>op_hash = txid, op_n = of_nat i\<rparr>")
  show ?case
  proof (cases "IsUnspendable (scriptPubKey out)")
    case True
    then show ?thesis using Cons.prems Cons.IH [of "Suc i" f c] by simp
  next
    case False
    then obtain f1 where "undo_outputs V mem txid (Suc i) outs f1 c1 = (b, c')" using Cons.prems s by (auto simp: Let_def)
    then show ?thesis using Cons.IH SpendCoin_frame [OF s] by metis
  qed
qed simp

lemma undo_inputs_frame: "undo_inputs V mem ius f c = Inr (b, c') \<Longrightarrow> anchor_frame c' = anchor_frame c"
proof (induction ius arbitrary: f c)
  case (Cons iu ius)
  obtain i u where iu: "iu = (i, u)" by (cases iu)
  from Cons.prems obtain res c1 where a: "ApplyTxInUndo V mem u c (prevout i) = Inr (res, c1)" by (auto simp: iu split: sum.splits)
  then have "c' = c1 \<or> (\<exists>f1. undo_inputs V mem ius f1 c1 = Inr (b, c'))" using Cons.prems by (auto simp: iu split: if_splits)
  then show ?case using Cons.IH ApplyTxInUndo_frame [OF a] by metis
qed simp

lemma undo_transaction_frame:
  assumes "undo_transaction V mem junk tx u f c = Inr (b, c')"
  shows "anchor_frame c' = anchor_frame c"
proof -
  obtain f1 c1 where o: "undo_outputs V mem (tx_GetHash junk tx) 0 (vout tx) f c = (f1, c1)" by (cases "undo_outputs V mem (tx_GetHash junk tx) 0 (vout tx) f c")
  have "c' = c1 \<or> c' = SetNullifiers c1 tx False \<or> (\<exists>ius. undo_inputs V mem ius f1 (SetNullifiers c1 tx False) = Inr (b, c'))"
    using assms by (auto simp: undo_transaction_def o Let_def split: if_splits option.splits)
  then show ?thesis using undo_outputs_frame [OF o] SetNullifiers_frame undo_inputs_frame by metis
qed

lemma undo_transactions_frame: "undo_transactions V mem junk txs f c = Inr (b, c') \<Longrightarrow> anchor_frame c' = anchor_frame c"
proof (induction txs arbitrary: f c)
  case (Cons tu txs)
  obtain tx u where tu: "tu = (tx, u)" by (cases tu)
  from Cons.prems obtain b1 c1 where t: "undo_transaction V mem junk tx u f c = Inr (b1, c1)" by (auto simp: tu split: sum.splits)
  then have "c' = c1 \<or> (\<exists>f1. undo_transactions V mem junk txs f1 c1 = Inr (b, c'))" using Cons.prems by (auto simp: tu split: option.splits)
  then show ?case using Cons.IH undo_transaction_frame [OF t] by metis
qed simp

lemma GetBestAnchor_keeps:
  assumes "GetBestAnchor V c = (r, c')"
  shows "r = best_anchor V c" "keeps c' c" "hashSaplingAnchor c' = r"
  using assms steady_pair(5) [of "cv_base c"]
  by (auto simp: GetBestAnchor_def best_anchor_def anchors_def fun_eq_iff split: if_splits prod.splits option.split)

lemma GetSaplingAnchorAt_keeps:
  assumes "GetSaplingAnchorAt V tmem c r = (t, c')"
  shows "t = anchors V c r" "keeps c' c" "hashSaplingAnchor c' = hashSaplingAnchor c"
  using assms steady_pair(3) [of "cv_base c" r]
  by (auto simp: GetSaplingAnchorAt_def best_anchor_def anchors_def fun_eq_iff update_conv' split: option.splits prod.splits if_splits)

lemma PopAnchor_known: "anchor_known V c \<Longrightarrow> PopAnchor V tmem rt c \<noteq> Inl e"
proof -
  assume k: "anchor_known V c"
  obtain r c1 where g: "GetBestAnchor V c = (r, c1)" by (cases "GetBestAnchor V c")
  obtain t c2 where h: "GetSaplingAnchorAt V tmem c1 r = (t, c2)" by (cases "GetSaplingAnchorAt V tmem c1 r")
  have "t \<noteq> None" using k GetBestAnchor_keeps [OF g] GetSaplingAnchorAt_keeps(1) [OF h] by (simp add: anchor_known_def)
  then show ?thesis using g h by (auto simp: PopAnchor_def)
qed

lemma PopAnchor_root: "PopAnchor V tmem rt c = Inr c' \<Longrightarrow> hashSaplingAnchor c' = rt"
  using GetBestAnchor_keeps(3) by (auto simp: PopAnchor_def split: prod.splits if_splits option.splits)

lemma anchor_known_frame: "anchor_frame c' = anchor_frame c \<Longrightarrow> anchor_known V c' = anchor_known V c"
  using frame_keeps [of c' c] by (simp add: anchor_known_def)

text \<open>The error of a missing anchor comes from \<open>PopAnchor\<close> only, so with a known tree \<open>DisconnectBlock\<close> does not stop there.\<close>

lemma undo_inputs_error: "undo_inputs V mem ius f c \<noteq> Inl (LogicError NoBestAnchor)"
proof (induction ius arbitrary: f c)
  case (Cons iu ius)
  have "ApplyTxInUndo V mem u c p \<noteq> Inl (LogicError NoBestAnchor)" for u p
    by (auto simp: ApplyTxInUndo_def AddCoin_def Let_def split: prod.splits if_splits sum.splits option.splits)
  then show ?case using Cons.IH by (cases iu) (auto split: sum.splits if_splits)
qed simp

lemma undo_transactions_error: "undo_transactions V mem junk txs f c \<noteq> Inl (LogicError NoBestAnchor)"
proof (induction txs arbitrary: f c)
  case (Cons tu txs)
  have "undo_transaction V mem junk tx u f c \<noteq> Inl (LogicError NoBestAnchor)" for tx u
    using undo_inputs_error by (auto simp: undo_transaction_def Let_def split: prod.splits if_splits option.splits)
  then show ?case using Cons.IH by (cases tu) (auto split: sum.splits option.splits)
qed simp

lemma DisconnectBlock_anchor:
  assumes "anchor_known V c"
  shows "DisconnectBlock V mem tmem junk params er txs u ph pr pH c \<noteq> Inl (LogicError NoBestAnchor)"
proof -
  have "anchor_known V c1" if "undo_transactions V mem junk xs f c = Inr (b, c1)" for xs f b c1
    using anchor_known_frame [OF undo_transactions_frame [OF that]] assms by simp
  then show ?thesis using undo_transactions_error PopAnchor_known
    by (auto simp: DisconnectBlock_def Let_def split: sum.splits option.splits if_splits)
qed

lemma DisconnectBlock_root:
  assumes "DisconnectBlock V mem tmem junk params er txs u ph pr pH c = Inr (DISCONNECT_OK, c')"
  shows "hashSaplingAnchor c' = (if NetworkUpgradeActive params ph UPGRADE_V5_0 then pr else er)"
  using assms PopAnchor_root by (fastforce simp: DisconnectBlock_def SetBestBlock_def Let_def split: sum.splits option.splits if_splits)

end

interpretation db_steady: steady_view "db_view E"
  by unfold_locales (simp_all add: db_view_def)

section \<open>Properties\<close>

text \<open>The undo data of a block can be stored.\<close>

lemma block_undo_ok:
  "block_applies junk h txs U N \<Longrightarrow> (\<And>p coin. U p = Some coin \<Longrightarrow> coin_ok coin) \<Longrightarrow> list_all txundo_ok (block_undo junk h txs U)"
proof (induction txs arbitrary: U N)
  case (Cons tx txs)
  have a: "tx_applies junk h tx U N" using Cons.prems(1) by simp
  have "coin_ok coin" if "apply_tx junk h tx U p = Some coin" for p coin
    using that a Cons.prems(2) by (rule apply_tx_coin_ok)
  moreover have "txundo_ok (tx_undo tx U)"
    using a Cons.prems(2) by (fastforce simp: txundo_ok_def tx_undo_def tx_applies_def list_all_iff)
  ultimately show ?case using Cons.IH Cons.prems(1) by auto
qed simp

text \<open>
  C7. Disconnecting a block undoes connecting it.  Let a block start with
  a coinbase and let each of its transactions find its inputs in the map of unspent outputs that the
  transactions before it leave, with new outputs and new nullifiers; and let the view know the Sapling tree of its current anchor.  Then the transactions are applied
  without an exception and leave the map that the abstract transactions give.  The undo data, written to
  disk and read back, is the same, and \<open>DisconnectBlock\<close> with it restores the map of unspent outputs and
  the set of nullifiers exactly, sets the best block to the previous one and the anchor to the Sapling root of the previous block (the empty root before
  the upgrade), and reports a clean result.
\<close>

theorem disconnect_undoes_connect:
  assumes c: "tip_ok E c" and a: "block_applies junk h (cb # txs) (tip_utxo E c) (cache_nf db_nf c)" and cb: "IsCoinBase cb"
    and l: "length txs \<le> MAX_SIZE" and k: "anchor_known (db_view E) c"
  shows "\<exists>u0 undos c1 c2. connect_coins (db_view E) mem junk h (cb # txs) c = Inr (u0 # undos, c1) \<and> tip_ok E c1 \<and>
    tip_utxo E c1 = fold (apply_tx junk h) (cb # txs) (tip_utxo E c) \<and>
    cache_nf db_nf c1 = fold apply_tx_nf (cb # txs) (cache_nf db_nf c) \<and>
    UndoReadFromDisk (env_ec_parse E) (env_ec_ser E) n junk (UndoWriteToDisk (env_ec_parse E) junk \<lparr>vtxundo = undos\<rparr> pH @ rest) pH =
      Some \<lparr>vtxundo = undos\<rparr> \<and>
    DisconnectBlock (db_view E) mem tmem junk params er (cb # txs) (Some \<lparr>vtxundo = undos\<rparr>) ph pr pH c1 = Inr (DISCONNECT_OK, c2) \<and>
    tip_ok E c2 \<and> tip_utxo E c2 = tip_utxo E c \<and> cache_nf db_nf c2 = cache_nf db_nf c \<and> hashBlock c2 = pH \<and>
    hashSaplingAnchor c2 = (if NetworkUpgradeActive params ph UPGRADE_V5_0 then pr else er)"
proof -
  from coins_db.connect_coins_refines [OF c a, of mem] obtain u0 undos c1 where
    conn: "connect_coins (db_view E) mem junk h (cb # txs) c = Inr (u0 # undos, c1)" "tip_ok E c1"
      "tip_utxo E c1 = fold (apply_tx junk h) (cb # txs) (tip_utxo E c)" "cache_nf db_nf c1 = fold apply_tx_nf (cb # txs) (cache_nf db_nf c)"
    and u: "u0 # undos = block_undo junk h (cb # txs) (tip_utxo E c)" by auto
  have ec: "ec_laws (env_ec_parse E) (env_ec_ser E)" using c by (simp add: cache_ok_def db_ok_def)
  have "list_all txundo_ok (u0 # undos)"
    unfolding u by (rule block_undo_ok [OF a]) (use coins_db.cache_unspent [OF c] in blast)
  moreover have "length undos \<le> MAX_SIZE" using u l by (metis length_block_undo length_Cons nat.inject)
  ultimately have stored: "UndoReadFromDisk (env_ec_parse E) (env_ec_ser E) n junk (UndoWriteToDisk (env_ec_parse E) junk \<lparr>vtxundo = undos\<rparr> pH @ rest) pH =
      Some \<lparr>vtxundo = undos\<rparr>"
    by (intro UndoRead_Write [OF ec]) simp_all
  have "anchor_known (db_view E) c1" using db_steady.anchor_known_frame [where E = E, OF db_steady.connect_coins_frame [OF conn(1)]] k by simp
  from coins_db.DisconnectBlock_refines [OF c a cb conn(1), of tmem params er ph pr pH] db_steady.DisconnectBlock_anchor [OF this]
  obtain c2 where d: "DisconnectBlock (db_view E) mem tmem junk params er (cb # txs) (Some \<lparr>vtxundo = undos\<rparr>) ph pr pH c1 = Inr (DISCONNECT_OK, c2)"
      "tip_ok E c2" "tip_utxo E c2 = tip_utxo E c" "cache_nf db_nf c2 = cache_nf db_nf c" "hashBlock c2 = pH" by blast
  then show ?thesis using conn stored db_steady.DisconnectBlock_root [OF d(1)] by blast
qed

text \<open>A block of a coinbase that burns its reward and a payment that spends a coin of the cache.\<close>

definition example_source :: COutPoint where
  "example_source = \<lparr>op_hash = base_uint_zero 8, op_n = 5\<rparr>"

definition example_reward :: CTransaction where
  "example_reward = CTransaction_new\<lparr>vin := [txin_new outpoint_null [1, 2] 5], vout := [txout_new 7 [OP_RETURN]]\<rparr>"

definition example_transfer :: CTransaction where
  "example_transfer = CTransaction_new\<lparr>vin := [txin_new example_source [1, 2] 5], vout := [txout_new 8 [OP_2]]\<rparr>"

definition example_cache :: "(leveldb, unit) CCoinsViewCache" where
  "example_cache = (CCoinsViewCache_new (\<lambda>_. None))\<lparr>cacheCoins :=
     [(example_source, \<lparr>entry_coin = example_coin, DIRTY = True, FRESH = True\<rparr>)]\<rparr>"

lemma example_cache_ok:
  "tip_ok example_env example_cache" "tip_utxo example_env example_cache = [example_source \<mapsto> example_coin]"
  "cache_nf db_nf example_cache = (\<lambda>_. False)"
proof -
  show "tip_ok example_env example_cache" using example_db_ok example_coin_ok
    by (simp add: example_cache_def cache_ok_def CCoinsViewCache_new_def entry_ok_def example_source_def outpoint_ok_def
        db_utxo_def CoinsDB_GetCoin_def db_Read_def)
  show "tip_utxo example_env example_cache = [example_source \<mapsto> example_coin]" using coin_ok_unspent [OF example_coin_ok]
    by (auto simp: example_cache_def cache_utxo_def CCoinsViewCache_new_def db_utxo_def CoinsDB_GetCoin_def db_Read_def)
  show "cache_nf db_nf example_cache = (\<lambda>_. False)"
    by (rule ext) (simp add: example_cache_def cache_nf_def CCoinsViewCache_new_def db_nf_def CoinsDB_GetNullifier_def db_Read_def)
qed

lemma example_block_applies:
  "IsCoinBase example_reward"
  "block_applies junk 7 [example_reward, example_transfer] [example_source \<mapsto> example_coin] (\<lambda>_. False)"
proof -
  show cb: "IsCoinBase example_reward"
    by (simp add: example_reward_def IsCoinBase_def txin_new_def outpoint_null_def outpoint_IsNull_def base_uint_zero_def numeral_eq_Suc)
  have nb: "\<not> IsCoinBase example_transfer" by (simp add: example_transfer_def IsCoinBase_def txin_new_def outpoint_IsNull_def example_source_def)
  have nf: "tx_nullifiers example_reward = {}" "tx_nullifiers example_transfer = {}"
    by (simp_all add: tx_nullifiers_def example_reward_def example_transfer_def CTransaction_new_def SaplingTxData_new_def)
  have burnt: "out_coin txid b cs h 0 (vout example_reward) = Map.empty" for txid b cs h
    by (rule ext) (auto simp: out_coin_def example_reward_def txout_new_def IsUnspendable_def Let_def)
  have r: "apply_tx junk 7 example_reward [example_source \<mapsto> example_coin] = [example_source \<mapsto> example_coin]"
    using cb by (simp add: apply_tx_def burnt spent_points_def)
  have i: "unat (op_n example_source) = 5" by (simp add: example_source_def)
  have o: "length (vout example_reward) = 1" "length (vout example_transfer) = 1" "length (vin example_transfer) = 1"
    "prevout ` set (vin example_transfer) = {example_source}" "distinct (map prevout (vin example_transfer))"
    by (simp_all add: example_reward_def example_transfer_def txin_new_def)
  have k: "list_all (\<lambda>o1. coin_ok (Coin_new o1 7 b cs)) (vout example_reward)" "list_all (\<lambda>o1. coin_ok (Coin_new o1 7 b cs)) (vout example_transfer)" for b cs
    by (simp_all add: example_reward_def example_transfer_def txout_new_def coin_ok_def Coin_new_def MAX_SCRIPT_SIZE_def)
  have "tx_applies junk 7 example_reward [example_source \<mapsto> example_coin] (\<lambda>_. False)"
    using cb nf k i o by (auto simp: tx_applies_def)
  moreover have "outpoint_ok example_source" "restorable example_coin"
    by (simp_all add: outpoint_ok_def example_source_def restorable_def example_coin_def IsUnspendable_def MAX_SCRIPT_SIZE_def)
  then have "tx_applies junk 7 example_transfer [example_source \<mapsto> example_coin] (\<lambda>_. False)"
    using nb nf k i o by (auto simp: tx_applies_def MAX_INPUTS_value)
  ultimately show "block_applies junk 7 [example_reward, example_transfer] [example_source \<mapsto> example_coin] (\<lambda>_. False)"
    using nf(1) by (simp add: r apply_tx_nf_def [abs_def])
qed

theorem disconnect_undoes_connect_witness:
  "\<exists>u0 undos c1 c2. connect_coins (db_view example_env) (\<lambda>_. 0) [] 7 [example_reward, example_transfer] example_cache = Inr (u0 # undos, c1) \<and>
     tip_utxo example_env c1 example_source = None \<and>
     DisconnectBlock (db_view example_env) (\<lambda>_. 0) (\<lambda>_. 0) [] main_params (base_uint_zero 8) [example_reward, example_transfer]
       (UndoReadFromDisk toy_parse toy_ser 0 [] (UndoWriteToDisk toy_parse [] \<lparr>vtxundo = undos\<rparr> (base_uint_zero 8) @ []) (base_uint_zero 8)) 6
       (base_uint_zero 8) (base_uint_zero 8) c1 = Inr (DISCONNECT_OK, c2) \<and>
     tip_utxo example_env c2 = [example_source \<mapsto> example_coin]"
proof -
  have a: "block_applies [] 7 [example_reward, example_transfer] (tip_utxo example_env example_cache) (cache_nf db_nf example_cache)"
    unfolding example_cache_ok(2,3) by (rule example_block_applies(2))
  have k: "anchor_known (db_view example_env) example_cache"
    by (simp add: anchor_known_def anchors_def best_anchor_def example_cache_def CCoinsViewCache_new_def db_view_def CoinsDB_GetBestAnchor_def
        CoinsDB_GetSaplingAnchorAt_def db_Read_def numeral_eq_Suc base_uint_zero_def)
  have s: "fold (apply_tx [] 7) [example_reward, example_transfer] [example_source \<mapsto> example_coin] example_source = None"
  proof -
    have "\<not> IsCoinBase example_transfer" by (simp add: example_transfer_def IsCoinBase_def txin_new_def outpoint_IsNull_def example_source_def)
    then show ?thesis
      by (simp add: apply_tx_def map_add_def restrict_map_def spent_points_def out_coin_def Let_def example_source_def example_transfer_def example_reward_def
          txin_new_def)
  qed
  have e: "env_ec_parse example_env = toy_parse" "env_ec_ser example_env = toy_ser" by (simp_all add: example_env_def)
  from disconnect_undoes_connect [OF example_cache_ok(1) a example_block_applies(1) _ k, of "\<lambda>_. 0" 0 "base_uint_zero 8" "[]" "\<lambda>_. 0" main_params
      "base_uint_zero 8" 6 "base_uint_zero 8"]
  show ?thesis unfolding e example_cache_ok(2) using s by (auto simp: MAX_SIZE_def)
qed

end
