(* ===== verification/ConnectBlock.thy ===== *)
theory ConnectBlock
  imports BlockCheck BlockFiles Undo
begin

unbundle bit_operations_syntax

text \<open>
  Connecting a block: \<open>CScriptCheck\<close>, \<open>Consensus::CheckTxInputs\<close>, \<open>CheckInputs\<close> and \<open>ConnectBlock\<close> of \<open>src/src/validation.cpp\<close>,
  \<open>IsBlockValueValid\<close> and \<open>IsBlockPayeeValid\<close> of \<open>src/src/masternode-payments.cpp\<close>.  Amounts are 64-bit numbers with the wrap-around written
  out.  The Sapling tree is a value with its \<open>append\<close> and \<open>root\<close>.  The signature cache, which only remembers signatures that verified, and the
  timing and log output are left out.  The text of a script error is not part of a reason.
\<close>

section \<open>Checks of scripts\<close>

definition MANDATORY_SCRIPT_VERIFY_FLAGS :: u32 where
  "MANDATORY_SCRIPT_VERIFY_FLAGS = SCRIPT_VERIFY_P2SH"

definition STANDARD_SCRIPT_VERIFY_FLAGS :: u32 where
  "STANDARD_SCRIPT_VERIFY_FLAGS = MANDATORY_SCRIPT_VERIFY_FLAGS OR SCRIPT_VERIFY_DERSIG OR SCRIPT_VERIFY_STRICTENC OR SCRIPT_VERIFY_MINIMALDATA OR
     SCRIPT_VERIFY_NULLDUMMY OR SCRIPT_VERIFY_DISCOURAGE_UPGRADABLE_NOPS OR SCRIPT_VERIFY_LOW_S"

definition STANDARD_NOT_MANDATORY_VERIFY_FLAGS :: u32 where
  "STANDARD_NOT_MANDATORY_VERIFY_FLAGS = STANDARD_SCRIPT_VERIFY_FLAGS AND NOT MANDATORY_SCRIPT_VERIFY_FLAGS"

record CScriptCheck =
  ck_scriptPubKey :: CScript
  ck_amount :: CAmount
  ck_txTo :: CTransaction
  ck_nIn :: nat
  ck_nFlags :: u32
  ck_precomTxData :: PrecomputedTransactionData

definition CScriptCheck_run :: "node_state \<Rightarrow> CScriptCheck \<Rightarrow> ScriptError + unit" where
  "CScriptCheck_run N ck =
     (let checker = \<lparr>sc_txTo = ck_txTo ck, sc_nIn = ck_nIn ck, sc_amount = ck_amount ck, sc_precomTxData = Some (ck_precomTxData ck)\<rparr>
      in VerifyScript (checker_env (nd_blake2b N) (nd_junk N) (nd_ecdsa N) (nd_lowS N) (nd_newP2CSRules N) checker)
           (scriptSig (vin (ck_txTo ck) ! ck_nIn ck)) (ck_scriptPubKey ck) (ck_nFlags ck) (GetRequiredSigVersion (ck_txTo ck)))"

abbreviation check_ok :: "node_state \<Rightarrow> CScriptCheck \<Rightarrow> bool" where
  "check_ok N ck \<equiv> CScriptCheck_run N ck = Inr ()"

text \<open>The loop of \<open>CheckInputs\<close> from input \<open>n\<close>; with \<open>queue\<close> the checks are collected instead of run.\<close>

fun check_inputs_loop :: "('v, 't) CCoinsView \<Rightarrow> (Coin \<Rightarrow> int) \<Rightarrow> node_state \<Rightarrow> CTransaction \<Rightarrow> u32 \<Rightarrow> PrecomputedTransactionData \<Rightarrow> bool \<Rightarrow>
    nat \<Rightarrow> CTxIn list \<Rightarrow> ('v, 't) CCoinsViewCache \<Rightarrow> (CScriptCheck list \<times> ('v, 't) CCoinsViewCache) outcome" where
  "check_inputs_loop V mem N tx flags precom queue n [] inputs = Pass ([], inputs)"
| "check_inputs_loop V mem N tx flags precom queue n (i # ins) inputs =
     (case AccessCoin V mem inputs (prevout i) of (coin, inputs1) \<Rightarrow>
        if coin_IsSpent coin then Crash AssertionFailed
        else let check = \<lparr>ck_scriptPubKey = scriptPubKey (coin_out coin), ck_amount = nValue (coin_out coin), ck_txTo = tx, ck_nIn = n,
                          ck_nFlags = flags, ck_precomTxData = precom\<rparr>
             in if queue
                then obind (check_inputs_loop V mem N tx flags precom queue (Suc n) ins inputs1) (\<lambda>(checks, inputs2). Pass (check # checks, inputs2))
                else if \<not> check_ok N check
                then (if flags AND STANDARD_NOT_MANDATORY_VERIFY_FLAGS \<noteq> 0 \<and>
                         check_ok N (check\<lparr>ck_nFlags := flags AND NOT STANDARD_NOT_MANDATORY_VERIFY_FLAGS\<rparr>)
                      then Invalid 0 ''non-mandatory-script-verify-flag'' False
                      else Invalid 100 ''mandatory-script-verify-flag-failed'' False)
                else check_inputs_loop V mem N tx flags precom queue (Suc n) ins inputs1)"

definition CheckInputs :: "('v, 't) CCoinsView \<Rightarrow> (Coin \<Rightarrow> int) \<Rightarrow> node_state \<Rightarrow> CTransaction \<Rightarrow> ('v, 't) CCoinsViewCache \<Rightarrow> bool \<Rightarrow> u32 \<Rightarrow>
    PrecomputedTransactionData \<Rightarrow> bool \<Rightarrow> (CScriptCheck list \<times> ('v, 't) CCoinsViewCache) outcome" where
  "CheckInputs V mem N tx inputs fScriptChecks flags precom queue =
     (if \<not> IsCoinBase tx \<and> fScriptChecks then check_inputs_loop V mem N tx flags precom queue 0 (vin tx) inputs else Pass ([], inputs))"

section \<open>CheckTxInputs\<close>

fun tx_inputs_loop :: "('v, 't) CCoinsView \<Rightarrow> (Coin \<Rightarrow> int) \<Rightarrow> Params \<Rightarrow> int \<Rightarrow> CTxIn list \<Rightarrow> CAmount \<Rightarrow> ('v, 't) CCoinsViewCache \<Rightarrow>
    (CAmount \<times> ('v, 't) CCoinsViewCache) outcome" where
  "tx_inputs_loop V mem consensus nSpendHeight [] nValueIn inputs = Pass (nValueIn, inputs)"
| "tx_inputs_loop V mem consensus nSpendHeight (i # ins) nValueIn inputs =
     (case AccessCoin V mem inputs (prevout i) of (coin, inputs1) \<Rightarrow>
        if coin_IsSpent coin then Crash AssertionFailed
        else if (fCoinBase coin \<or> fCoinStake coin) \<and> nSpendHeight - uint (coin_height coin) < nCoinbaseMaturity consensus
        then Invalid 0 ''bad-txns-premature-spend-of-coinbase-coinstake'' False
        else let nValueIn1 = wrap64 (nValueIn + nValue (coin_out coin))
             in if \<not> MoneyRange consensus (nValue (coin_out coin)) \<or> \<not> MoneyRange consensus nValueIn1
                then Invalid 100 ''bad-txns-inputvalues-outofrange'' False
                else tx_inputs_loop V mem consensus nSpendHeight ins nValueIn1 inputs1)"

fun sum_outcome :: "value_error + 'a \<Rightarrow> 'a outcome" where
  "sum_outcome (Inl e) = Crash (Thrown e)"
| "sum_outcome (Inr x) = Pass x"

lemma sum_outcome_Pass [simp]: "sum_outcome r = Pass x \<longleftrightarrow> r = Inr x"
  by (cases r) auto

definition CheckTxInputs :: "('v, 't) CCoinsView \<Rightarrow> (Coin \<Rightarrow> int) \<Rightarrow> ('t \<Rightarrow> int) \<Rightarrow> Params \<Rightarrow> CTransaction \<Rightarrow> ('v, 't) CCoinsViewCache \<Rightarrow> int \<Rightarrow>
    ('v, 't) CCoinsViewCache outcome" where
  "CheckTxInputs V mem tmem consensus tx inputs nSpendHeight =
     (case HaveInputs V mem inputs tx of (ok, inputs1) \<Rightarrow>
        if \<not> ok then Invalid 0 [] False
        else case HaveShieldedRequirements V tmem inputs1 tx of (ok, inputs2) \<Rightarrow>
          if \<not> ok then Invalid 0 [] False
          else obind (tx_inputs_loop V mem consensus nSpendHeight (vin tx) 0 inputs2) (\<lambda>(nValueIn, inputs3).
            obind (sum_outcome (GetShieldedValueIn tx)) (\<lambda>sh.
              let nValueIn = wrap64 (nValueIn + sh) in
              if IsCoinStake tx then Pass inputs3
              else obind (sum_outcome (GetValueOut tx)) (\<lambda>nOut.
                if nValueIn < nOut then Invalid 100 ''bad-txns-in-belowout'' False
                else let nTxFee = wrap64 (nValueIn - nOut) in
                  if nTxFee < 0 then Invalid 100 ''bad-txns-fee-negative'' False
                  else if \<not> MoneyRange consensus nTxFee then Invalid 100 ''bad-txns-fee-outofrange'' False
                  else Pass inputs3))))"

section \<open>Block rewards\<close>

definition IsBlockValueValid :: "node_state \<Rightarrow> int \<Rightarrow> CAmount \<Rightarrow> CAmount \<Rightarrow> bool" where
  "IsBlockValueValid N height nExpectedValue nMinted =
     (if \<not> nd_mnSynced N
      then (if height smod nBudgetCycleBlocks (nd_consensus N) < 100
            then (if nd_fTestnet N then True else nMinted \<le> wrap64 (nExpectedValue + nd_GetTotalBudget N height))
            else nMinted \<le> nExpectedValue)
      else (case (if nd_spork N SPORK_13_ENABLE_SUPERBLOCKS then nd_GetExpectedPayeeAmount N height else None) of
              Some expectedPayAmount \<Rightarrow> nMinted \<le> wrap64 (nExpectedValue + expectedPayAmount)
            | None \<Rightarrow> nMinted \<le> nExpectedValue))"

definition IsBlockPayeeValid :: "node_state \<Rightarrow> CBlock \<Rightarrow> int \<Rightarrow> bool" where
  "IsBlockPayeeValid N b height =
     (if \<not> nd_mnSynced N then True
      else let txNew = block_vtx b ! (if NetworkUpgradeActive (nd_consensus N) height UPGRADE_POS then 1 else 0);
               status = (if nd_spork N SPORK_13_ENABLE_SUPERBLOCKS \<and> nd_IsBudgetPaymentBlock N height
                         then Some (nd_BudgetIsTransactionValid N txNew (nd_hash N b) height) else None)
           in if status = Some TrxValid then True
              else if status = Some TrxInValid \<and> nd_spork N SPORK_9_MASTERNODE_BUDGET_ENFORCEMENT then False
              else if nd_MnIsTransactionValid N txNew height then True
              else \<not> nd_spork N SPORK_8_MASTERNODE_PAYMENT_ENFORCEMENT)"

section \<open>The loop over the transactions\<close>

record 't sapling_tree =
  sapling_append :: "'t \<Rightarrow> uint256 \<Rightarrow> 't option"
  sapling_root :: "'t \<Rightarrow> uint256"

text \<open>\<open>None\<close> is the exception of a full tree.\<close>

fun sapling_appends :: "'t sapling_tree \<Rightarrow> 't \<Rightarrow> uint256 list \<Rightarrow> 't option" where
  "sapling_appends T t [] = Some t"
| "sapling_appends T t (cmu # cmus) = Option.bind (sapling_append T t cmu) (\<lambda>t. sapling_appends T t cmus)"

definition tx_commitments :: "CTransaction \<Rightarrow> uint256 list" where
  "tx_commitments tx = (if IsShieldedTx tx then map output_cmu (vShieldedOutput (the (sapData tx))) else [])"

record ('v, 't) connect_state =
  cs_view :: "('v, 't) CCoinsViewCache"
  cs_nFees :: CAmount
  cs_nValueIn :: CAmount
  cs_nValueOut :: CAmount
  cs_nSigOps :: nat
  cs_undo :: "CTxUndo list"
  cs_tree :: 't
  cs_checks :: "CScriptCheck list"
  cs_pos :: CDiskTxPos
  cs_vPos :: "(uint256 \<times> CDiskTxPos) list"

text \<open>The values of \<open>ConnectBlock\<close> that do not change in the loop.\<close>

record connect_args =
  ca_height :: int
  ca_flags :: u32
  ca_fScriptChecks :: bool
  ca_queue :: bool
  ca_fSaplingMaintenance :: bool

fun p2sh_sigops :: "('v, 't) CCoinsView \<Rightarrow> (Coin \<Rightarrow> int) \<Rightarrow> CTxIn list \<Rightarrow> nat \<Rightarrow> ('v, 't) CCoinsViewCache \<Rightarrow> nat \<times> ('v, 't) CCoinsViewCache" where
  "p2sh_sigops V mem [] nSigOps c = (nSigOps, c)"
| "p2sh_sigops V mem (i # ins) nSigOps c =
     (case AccessCoin V mem c (prevout i) of (coin, c1) \<Rightarrow>
        p2sh_sigops V mem ins (if IsPayToScriptHash (scriptPubKey (coin_out coin))
          then nSigOps + GetSigOpCount_P2SH (scriptPubKey (coin_out coin)) (scriptSig i) else nSigOps) c1)"

text \<open>The branch \<open>if (!fInitialBlockDownload) ... else if (!tx.IsCoinBase ())\<close>.\<close>

definition connect_inputs_exist :: "('v, 't) CCoinsView \<Rightarrow> (Coin \<Rightarrow> int) \<Rightarrow> ('t \<Rightarrow> int) \<Rightarrow> node_state \<Rightarrow> connect_args \<Rightarrow> CTransaction \<Rightarrow> nat \<Rightarrow>
    ('v, 't) CCoinsViewCache \<Rightarrow> (nat \<times> ('v, 't) CCoinsViewCache) outcome" where
  "connect_inputs_exist V mem tmem N A tx nSigOps view =
     (if \<not> nd_fInitialBlockDownload N
      then (if ca_fSaplingMaintenance A \<and> IsShieldedTx tx then Invalid 100 [] False else Pass (nSigOps, view))
      else if \<not> IsCoinBase tx
      then (case HaveInputs V mem view tx of (ok, view1) \<Rightarrow>
              if \<not> ok then Invalid 100 ''bad-txns-inputs-missingorspent'' False
              else case HaveShieldedRequirements V tmem view1 tx of (ok, view2) \<Rightarrow>
                if \<not> ok then Invalid 100 ''bad-txns-sapling-requirements-not-met'' False
                else case p2sh_sigops V mem (vin tx) 0 view2 of (n, view3) \<Rightarrow>
                  let nSigOps1 = (nSigOps + n) mod 2 ^ 32
                  in if nSigOps1 > MAX_BLOCK_SIGOPS_CURRENT then Invalid 100 ''bad-blk-sigops'' False else Pass (nSigOps1, view3))
      else Pass (nSigOps, view))"

definition connect_values :: "('v, 't) CCoinsView \<Rightarrow> (Coin \<Rightarrow> int) \<Rightarrow> node_state \<Rightarrow> connect_args \<Rightarrow> CTransaction \<Rightarrow> ('v, 't) connect_state \<Rightarrow>
    ('v, 't) connect_state outcome" where
  "connect_values V mem N A tx st =
     (if \<not> IsCoinBase tx
      then obind (if \<not> IsCoinStake tx
                  then obind (sum_outcome (GetValueIn V mem (cs_view st) tx)) (\<lambda>(nIn, view).
                    obind (sum_outcome (GetValueOut tx)) (\<lambda>nOut.
                      Pass (st\<lparr>cs_view := view, cs_nFees := wrap64 (cs_nFees st + (nIn - nOut))\<rparr>)))
                  else Pass st) (\<lambda>st.
           obind (sum_outcome (GetValueIn V mem (cs_view st) tx)) (\<lambda>(nIn, view).
             let st = st\<lparr>cs_view := view, cs_nValueIn := wrap64 (cs_nValueIn st + nIn)\<rparr> in
             obind (CheckInputs V mem N tx (cs_view st) (ca_fScriptChecks A) (ca_flags A) (PrecomputedTransactionData_new (nd_blake2b N) tx) (ca_queue A))
               (\<lambda>(vChecks, view). Pass (st\<lparr>cs_view := view, cs_checks := cs_checks st @ vChecks\<rparr>))))
      else Pass st)"

fun update_outcome :: "coins_error + 'a \<Rightarrow> 'a outcome" where
  "update_outcome (Inl e) = Crash (CoinsThrown e)"
| "update_outcome (Inr x) = Pass x"

lemma update_outcome_Pass [simp]: "update_outcome r = Pass x \<longleftrightarrow> r = Inr x"
  by (cases r) auto

definition connect_tx :: "('v, 't) CCoinsView \<Rightarrow> (Coin \<Rightarrow> int) \<Rightarrow> ('t \<Rightarrow> int) \<Rightarrow> 't sapling_tree \<Rightarrow> node_state \<Rightarrow> connect_args \<Rightarrow> bool \<Rightarrow> CTransaction \<Rightarrow>
    ('v, 't) connect_state \<Rightarrow> ('v, 't) connect_state outcome" where
  "connect_tx V mem tmem T N A first tx st =
     (let nSigOps = (cs_nSigOps st + GetLegacySigOpCount tx) mod 2 ^ 32 in
      if nSigOps > MAX_BLOCK_SIGOPS_CURRENT then Invalid 100 ''bad-blk-sigops'' False
      else obind (connect_inputs_exist V mem tmem N A tx nSigOps (cs_view st)) (\<lambda>(nSigOps, view).
        obind (connect_values V mem N A tx (st\<lparr>cs_nSigOps := nSigOps, cs_view := view\<rparr>)) (\<lambda>st.
        obind (sum_outcome (GetValueOut tx)) (\<lambda>nOut.
        obind (update_outcome (UpdateCoins V mem (nd_junk N) tx (cs_view st) (ca_height A) False)) (\<lambda>(txundo, view).
        obind (opt_outcome TreeIsFull (sapling_appends T (cs_tree st) (tx_commitments tx))) (\<lambda>tree.
          Pass (st\<lparr>cs_view := view, cs_nValueOut := wrap64 (cs_nValueOut st + nOut),
            cs_undo := (if first then cs_undo st else cs_undo st @ [txundo]), cs_tree := tree,
            cs_vPos := cs_vPos st @ [(tx_GetHash (nd_junk N) tx, cs_pos st)],
            cs_pos := (cs_pos st)\<lparr>nTxOffset := nTxOffset (cs_pos st) + of_nat (length (SerializeTransaction tx))\<rparr>\<rparr>)))))))"

fun connect_txs :: "('v, 't) CCoinsView \<Rightarrow> (Coin \<Rightarrow> int) \<Rightarrow> ('t \<Rightarrow> int) \<Rightarrow> 't sapling_tree \<Rightarrow> node_state \<Rightarrow> connect_args \<Rightarrow> bool \<Rightarrow> CTransaction list \<Rightarrow>
    ('v, 't) connect_state \<Rightarrow> ('v, 't) connect_state outcome" where
  "connect_txs V mem tmem T N A first [] st = Pass st"
| "connect_txs V mem tmem T N A first (tx # rest) st =
     obind (connect_tx V mem tmem T N A first tx st) (\<lambda>st. connect_txs V mem tmem T N A False rest st)"

section \<open>ConnectBlock\<close>

definition BLOCK_VALID_SCRIPTS :: u32 where "BLOCK_VALID_SCRIPTS = 5"

text \<open>
  What the disk does, and what connecting leaves behind: the view, the index entry, whether it is to be written, the block files, the undo
  data to write with its position, and the transaction index to write.
\<close>

record disk_env =
  disk_space :: "u32 \<Rightarrow> bool"
  disk_undo_opens :: bool
  disk_fTxIndex :: bool
  disk_index_writes :: bool

record ('v, 't) connect_result =
  cr_view :: "('v, 't) CCoinsViewCache"
  cr_index :: CBlockIndex
  cr_dirty :: bool
  cr_files :: block_files
  cr_undo :: "(CDiskBlockPos \<times> byte list) option"
  cr_txindex :: "(uint256 \<times> CDiskTxPos) list option"

definition write_undo :: "(byte list \<Rightarrow> 'p option) \<Rightarrow> byte list \<Rightarrow> disk_env \<Rightarrow> CBlockUndo \<Rightarrow> uint256 option \<Rightarrow> ('v, 't) connect_result \<Rightarrow>
    ('v, 't) connect_result outcome" where
  "write_undo ec_parse junk D blockundo prevHash r =
     obind (opt_outcome AssertionFailed (IsValid (cr_index r) BLOCK_VALID_SCRIPTS)) (\<lambda>valid.
     if pos_nFile (GetUndoPos (cr_index r)) = - 1 \<or> \<not> valid
     then obind (if pos_nFile (GetUndoPos (cr_index r)) = - 1
                 then obind (opt_outcome OutOfBounds (FindUndoPos (disk_space D) (cr_files r) (nFile (cr_index r))
                               (of_nat (length (Serialize_CBlockUndo ec_parse blockundo)) + 40))) (\<lambda>(pos, files, ok).
                   if \<not> ok then Abort ''out of disk space''
                   else obind (opt_outcome OutOfBounds prevHash) (\<lambda>h.
                     if \<not> disk_undo_opens D then Abort ''Failed to write undo data''
                     else let pos = pos\<lparr>pos_nPos := pos_nPos pos + 8\<rparr> in
                       Pass (r\<lparr>cr_files := files, cr_undo := Some (pos, UndoWriteToDisk ec_parse junk blockundo h),
                         cr_index := (cr_index r)\<lparr>nUndoPos := pos_nPos pos, nStatus := nStatus (cr_index r) OR BLOCK_HAVE_UNDO\<rparr>\<rparr>)))
                 else Pass r) (\<lambda>r.
            obind (opt_outcome AssertionFailed (RaiseValidity (cr_index r) BLOCK_VALID_SCRIPTS)) (\<lambda>(index, _).
              Pass (r\<lparr>cr_index := index, cr_dirty := True\<rparr>)))
     else Pass r)"

definition connect_flags :: "bool \<Rightarrow> u32" where
  "connect_flags fCLTVIsActivated =
     SCRIPT_VERIFY_P2SH OR SCRIPT_VERIFY_DERSIG OR (if fCLTVIsActivated then SCRIPT_VERIFY_CHECKLOCKTIMEVERIFY else 0)"

text \<open>The checks after the loop: Sapling root, amount, payee, and the queue of script checks.\<close>

definition connect_final :: "node_state \<Rightarrow> 't sapling_tree \<Rightarrow> CBlock \<Rightarrow> int \<Rightarrow> ('v, 't) connect_state \<Rightarrow> unit outcome" where
  "connect_final N T b height st =
     (let nMint = wrap64 (wrap64 (cs_nValueOut st - cs_nValueIn st) + cs_nFees st);
          nExpectedMint = (if block_IsProofOfWork b then wrap64 (GetBlockValue (nd_fRegTest N) height + cs_nFees st)
                           else GetBlockValue (nd_fRegTest N) height)
      in if NetworkUpgradeActive (nd_consensus N) height UPGRADE_V5_0 \<and> hdr_hashFinalSaplingRoot b \<noteq> sapling_root T (cs_tree st)
         then Invalid 100 ''bad-sapling-root-in-block'' False
         else if \<not> IsBlockValueValid N height nExpectedMint nMint then Invalid 100 ''bad-cb-amount'' False
         else if \<not> nd_fInitialBlockDownload N \<and> \<not> IsBlockPayeeValid N b height then Invalid 0 ''bad-cb-payee'' False
         else if \<not> list_all (check_ok N) (cs_checks st) then Invalid 100 ''block-validation-failed'' False
         else Pass ())"

text \<open>The part of \<open>ConnectBlock\<close> from the script flags on, given the index entry of the previous block.\<close>

definition connect_args_of :: "node_state \<Rightarrow> CBlock \<Rightarrow> CBlockIndex \<Rightarrow> CBlockIndex option \<Rightarrow> bool \<Rightarrow> connect_args" where
  "connect_args_of N b pindex prev fThreads =
     (let fScriptChecks = (nHeight pindex \<ge> GetTotalBlocksEstimate (nd_fCheckpoints N) (nd_checkpoints N));
          fCLTVIsActivated = (fScriptChecks \<and>
            (case prev of None \<Rightarrow> False | Some i \<Rightarrow> NetworkUpgradeActive (nd_consensus N) (nHeight i) UPGRADE_BIP65))
      in \<lparr>ca_height = nHeight pindex, ca_flags = connect_flags fCLTVIsActivated, ca_fScriptChecks = fScriptChecks, ca_queue = fThreads,
          ca_fSaplingMaintenance = (header_GetBlockTime b > GetSporkValue (nd_mapSporksActive N) SPORK_20_SAPLING_MAINTENANCE)\<rparr>)"

definition connect_start :: "CBlock \<Rightarrow> CBlockIndex \<Rightarrow> ('v, 't) CCoinsViewCache \<Rightarrow> 't \<Rightarrow> ('v, 't) connect_state" where
  "connect_start b pindex view tree = \<lparr>cs_view = view, cs_nFees = 0, cs_nValueIn = 0, cs_nValueOut = 0, cs_nSigOps = 0, cs_undo = [],
     cs_tree = tree, cs_checks = [],
     cs_pos = CDiskTxPos_new (GetBlockPos pindex) (of_nat (GetSizeOfCompactSize (of_nat (length (block_vtx b))))), cs_vPos = []\<rparr>"

definition connect_body :: "('v, 't) CCoinsView \<Rightarrow> (Coin \<Rightarrow> int) \<Rightarrow> ('t \<Rightarrow> int) \<Rightarrow> 't sapling_tree \<Rightarrow> (byte list \<Rightarrow> 'p option) \<Rightarrow> disk_env \<Rightarrow> bool \<Rightarrow> node_state \<Rightarrow>
    CBlock \<Rightarrow> CBlockIndex option \<Rightarrow> ('v, 't) connect_result \<Rightarrow> bool \<Rightarrow> ('v, 't) connect_result outcome" where
  "connect_body V mem tmem T ec_parse D fThreads N b prev res fJustCheck =
     (case GetBestAnchor V (cr_view res) of (anchor, view) \<Rightarrow>
      case GetSaplingAnchorAt V tmem view anchor of (tree, view) \<Rightarrow>
      obind (opt_outcome AssertionFailed tree) (\<lambda>tree.
      obind (connect_txs V mem tmem T N (connect_args_of N b (cr_index res) prev fThreads) True (block_vtx b) (connect_start b (cr_index res) view tree)) (\<lambda>st.
      let res = res\<lparr>cr_view := PushAnchor V (sapling_root T) tmem (cs_tree st) (cs_view st)\<rparr> in
      obind (connect_final N T b (nHeight (cr_index res)) st) (\<lambda>_.
      if fJustCheck then Pass res
      else obind (write_undo ec_parse (nd_junk N) D \<lparr>vtxundo = cs_undo st\<rparr> (map_option phashBlock prev) res) (\<lambda>res.
        if disk_fTxIndex D \<and> \<not> disk_index_writes D then Abort ''Failed to write transaction index''
        else Pass (res\<lparr>cr_txindex := (if disk_fTxIndex D then Some (cs_vPos st) else None),
                       cr_view := SetBestBlock (cr_view res) (phashBlock (cr_index res))\<rparr>))))))"

definition ConnectBlock :: "('v, 't) CCoinsView \<Rightarrow> (Coin \<Rightarrow> int) \<Rightarrow> ('t \<Rightarrow> int) \<Rightarrow> 't sapling_tree \<Rightarrow> (byte list \<Rightarrow> 'p option) \<Rightarrow> disk_env \<Rightarrow> bool \<Rightarrow> node_state \<Rightarrow>
    CBlock \<Rightarrow> CBlockIndex \<Rightarrow> block_files \<Rightarrow> ('v, 't) CCoinsViewCache \<Rightarrow> bool \<Rightarrow> ('v, 't) connect_result outcome" where
  "ConnectBlock V mem tmem T ec_parse D fThreads N b pindex files view fJustCheck =
     obind (case CheckBlock N (\<not> fJustCheck) (\<not> fJustCheck) (\<not> fJustCheck) b of
              Invalid n r True \<Rightarrow> Abort ''Corrupt block found indicating potential hardware failure; shutting down''
            | x \<Rightarrow> x) (\<lambda>b.
     obind (case pprev pindex of None \<Rightarrow> Pass None | Some p \<Rightarrow> obind (opt_outcome OutOfBounds (nd_index N p)) (\<lambda>i. Pass (Some i))) (\<lambda>prev.
     let hPrev = (case prev of None \<Rightarrow> base_uint_zero 8 | Some i \<Rightarrow> phashBlock i);
         isPoSActive = NetworkUpgradeActive (nd_consensus N) (nHeight pindex) UPGRADE_POS in
     case GetBestBlock V view of (best, view) \<Rightarrow>
     let res = \<lparr>cr_view = view, cr_index = pindex, cr_dirty = False, cr_files = files, cr_undo = None, cr_txindex = None\<rparr> in
     if hPrev \<noteq> best then Crash AssertionFailed
     else if nd_hash N b = nd_hashGenesisBlock N
     then Pass (res\<lparr>cr_view := (if fJustCheck then view else SetBestBlock view (phashBlock pindex))\<rparr>)
     else if \<not> isPoSActive \<and> block_IsProofOfStake b then Invalid 100 ''PoS-early'' False
     else if isPoSActive \<and> block_IsProofOfWork b then Invalid 100 ''PoW-ended'' False
     else if (case nChainSaplingValue pindex of None \<Rightarrow> False | Some v \<Rightarrow> v < 0) then Invalid 100 ''turnstile-violation-sapling-shielded-pool'' False
     else connect_body V mem tmem T ec_parse D fThreads N b prev res fJustCheck))"

section \<open>Steps of a successful connection\<close>

lemma CheckBlock_same: "CheckBlock N p m k b = Pass b' \<Longrightarrow> b' = b \<or> b' = b\<lparr>fChecked := True\<rparr>"
  by (auto simp: CheckBlock_def obind_Pass split: if_splits)

lemma fChecked_irrelevant [simp]:
  "header_GetHash S junk (b\<lparr>fChecked := x\<rparr>) = header_GetHash S junk b" "block_IsProofOfStake (b\<lparr>fChecked := x\<rparr>) = block_IsProofOfStake b"
  "block_IsProofOfWork (b\<lparr>fChecked := x\<rparr>) = block_IsProofOfWork b"
  by (simp_all add: header_GetHash_def Serialize_header_def Serialize_header80_def block_IsProofOfStake_def block_IsProofOfWork_def)

lemma write_undo_Pass:
  assumes "write_undo ec_parse junk D u hPrev r = Pass r'"
  shows "cr_view r' = cr_view r \<and> phashBlock (cr_index r') = phashBlock (cr_index r) \<and> nHeight (cr_index r') = nHeight (cr_index r) \<and>
    (pos_nFile (GetUndoPos (cr_index r)) = - 1 \<longrightarrow> (\<exists>pos h. hPrev = Some h \<and> cr_undo r' = Some (pos, UndoWriteToDisk ec_parse junk u h)))"
proof -
  have rv: "phashBlock i' = phashBlock i \<and> nHeight i' = nHeight i" if "RaiseValidity i v = Some (i', x)" for i i' v x
    using that by (auto simp: RaiseValidity_def split: if_splits)
  show ?thesis using assms by (auto simp: write_undo_def obind_Pass Let_def split: if_splits dest: rv)
qed

lemma connect_body_Pass:
  assumes "connect_body V mem tmem T ec_parse D fThreads N b prev res False = Pass r"
  obtains anchor c1 tree c2 st res1 where "GetBestAnchor V (cr_view res) = (anchor, c1)" "GetSaplingAnchorAt V tmem c1 anchor = (Some tree, c2)"
    "connect_txs V mem tmem T N (connect_args_of N b (cr_index res) prev fThreads) True (block_vtx b) (connect_start b (cr_index res) c2 tree) = Pass st"
    "connect_final N T b (nHeight (cr_index res)) st = Pass ()"
    "write_undo ec_parse (nd_junk N) D \<lparr>vtxundo = cs_undo st\<rparr> (map_option phashBlock prev) (res\<lparr>cr_view := PushAnchor V (sapling_root T) tmem (cs_tree st) (cs_view st)\<rparr>) = Pass res1"
    "cr_view r = SetBestBlock (cr_view res1) (phashBlock (cr_index res1))" "cr_undo r = cr_undo res1"
  using assms unfolding connect_body_def Let_def by (auto simp: obind_Pass split: prod.splits if_splits)

lemma ConnectBlock_Pass:
  assumes "ConnectBlock V mem tmem T ec_parse D fThreads N b pindex files view False = Pass r" "nd_hash N b \<noteq> nd_hashGenesisBlock N"
  obtains b' prev best c0 where "b' = b \<or> b' = b\<lparr>fChecked := True\<rparr>" "GetBestBlock V view = (best, c0)"
    "\<forall>i. prev = Some i \<longrightarrow> phashBlock i = best" "connect_body V mem tmem T ec_parse D fThreads N b' prev
       \<lparr>cr_view = c0, cr_index = pindex, cr_dirty = False, cr_files = files, cr_undo = None, cr_txindex = None\<rparr> False = Pass r"
proof -
  from assms(1) obtain b' where b': "CheckBlock N True True True b = Pass b'"
    unfolding ConnectBlock_def by (auto simp: obind_Pass split: outcome.splits bool.splits)
  note s = CheckBlock_same [OF b']
  have g: "nd_hash N b' \<noteq> nd_hashGenesisBlock N" using s assms(2) by auto
  obtain best c0 where k: "GetBestBlock V view = (best, c0)" by (cases "GetBestBlock V view")
  from assms(1) obtain prev where "connect_body V mem tmem T ec_parse D fThreads N b' prev
       \<lparr>cr_view = c0, cr_index = pindex, cr_dirty = False, cr_files = files, cr_undo = None, cr_txindex = None\<rparr> False = Pass r"
      "\<forall>i. prev = Some i \<longrightarrow> phashBlock i = best"
    unfolding ConnectBlock_def by (auto simp: obind_Pass b' k g Let_def split: if_splits)
  then show thesis using that s k by blast
qed

lemma connect_tx_Pass:
  assumes "connect_tx V mem tmem T N A first tx st = Pass st'"
  obtains n c1 st2 nOut txundo c2 where
    "connect_inputs_exist V mem tmem N A tx ((cs_nSigOps st + GetLegacySigOpCount tx) mod 2 ^ 32) (cs_view st) = Pass (n, c1)"
    "connect_values V mem N A tx (st\<lparr>cs_nSigOps := n, cs_view := c1\<rparr>) = Pass st2"
    "GetValueOut tx = Inr nOut" "UpdateCoins V mem (nd_junk N) tx (cs_view st2) (ca_height A) False = Inr (txundo, c2)"
    "cs_view st' = c2" "cs_nFees st' = cs_nFees st2" "cs_nValueIn st' = cs_nValueIn st2" "cs_nValueOut st' = wrap64 (cs_nValueOut st2 + nOut)"
    "cs_undo st' = (if first then cs_undo st2 else cs_undo st2 @ [txundo])" "sapling_appends T (cs_tree st2) (tx_commitments tx) = Some (cs_tree st')"
proof -
  from assms obtain x where x: "connect_inputs_exist V mem tmem N A tx ((cs_nSigOps st + GetLegacySigOpCount tx) mod 2 ^ 32) (cs_view st) = Pass x"
    unfolding connect_tx_def Let_def by (auto simp only: obind_Pass split: if_splits)
  obtain n c1 where nc: "x = (n, c1)" by (cases x)
  from assms x nc obtain st2 where y: "connect_values V mem N A tx (st\<lparr>cs_nSigOps := n, cs_view := c1\<rparr>) = Pass st2"
    unfolding connect_tx_def Let_def by (auto simp only: obind_Pass obind.simps prod.case split: if_splits)
  from assms x nc y obtain nOut where o: "GetValueOut tx = Inr nOut"
    unfolding connect_tx_def Let_def by (auto simp only: obind_Pass obind.simps prod.case sum_outcome_Pass split: if_splits)
  from assms x nc y o obtain u where u: "UpdateCoins V mem (nd_junk N) tx (cs_view st2) (ca_height A) False = Inr u"
    unfolding connect_tx_def Let_def by (auto simp only: obind_Pass obind.simps prod.case sum_outcome.simps update_outcome_Pass split: if_splits)
  obtain txundo c2 where uc: "u = (txundo, c2)" by (cases u)
  from assms x nc y o u uc obtain tr where tr: "sapling_appends T (cs_tree st2) (tx_commitments tx) = Some tr"
    unfolding connect_tx_def Let_def
    by (auto simp only: obind_Pass obind.simps prod.case sum_outcome.simps update_outcome.simps opt_outcome_Pass split: if_splits)
  from assms have "\<exists>vp po. st' = st2\<lparr>cs_view := c2, cs_nValueOut := wrap64 (cs_nValueOut st2 + nOut),
      cs_undo := (if first then cs_undo st2 else cs_undo st2 @ [txundo]), cs_tree := tr, cs_vPos := vp, cs_pos := po\<rparr>"
    unfolding connect_tx_def Let_def x nc obind.simps prod.case y o u uc sum_outcome.simps update_outcome.simps tr opt_outcome.simps
    by (metis (no_types) outcome.inject(1) outcome.distinct(1))
  then obtain vp po where "st' = st2\<lparr>cs_view := c2, cs_nValueOut := wrap64 (cs_nValueOut st2 + nOut),
      cs_undo := (if first then cs_undo st2 else cs_undo st2 @ [txundo]), cs_tree := tr, cs_vPos := vp, cs_pos := po\<rparr>" by blast
  then have "cs_view st' = c2" "cs_nFees st' = cs_nFees st2" "cs_nValueIn st' = cs_nValueIn st2" "cs_nValueOut st' = wrap64 (cs_nValueOut st2 + nOut)"
    "cs_undo st' = (if first then cs_undo st2 else cs_undo st2 @ [txundo])" "cs_tree st' = tr" by simp_all
  then show thesis using that x y o u tr unfolding nc uc by blast
qed

text \<open>The loop appends the note commitments of all transactions to the tree.\<close>

lemma connect_values_tree: "connect_values V mem N A tx st = Pass st' \<Longrightarrow> cs_tree st' = cs_tree st"
  by (auto simp: connect_values_def obind_Pass Let_def split: if_splits)

lemma sapling_appends_append: "sapling_appends T t (xs @ ys) = Option.bind (sapling_appends T t xs) (\<lambda>t. sapling_appends T t ys)"
  by (induction xs arbitrary: t) (auto simp: bind_assoc)

lemma connect_txs_tree:
  "connect_txs V mem tmem T N A first txs st = Pass st' \<Longrightarrow> sapling_appends T (cs_tree st) (concat (map tx_commitments txs)) = Some (cs_tree st')"
proof (induction txs arbitrary: st first)
  case (Cons tx txs)
  obtain st1 where t: "connect_tx V mem tmem T N A first tx st = Pass st1" and r: "connect_txs V mem tmem T N A False txs st1 = Pass st'"
    using Cons.prems by (auto simp: obind_Pass)
  from connect_tx_Pass [OF t] obtain n c1 st2 where "connect_values V mem N A tx (st\<lparr>cs_nSigOps := n, cs_view := c1\<rparr>) = Pass st2"
    "sapling_appends T (cs_tree st2) (tx_commitments tx) = Some (cs_tree st1)" by metis
  then show ?case using Cons.IH [OF r] connect_values_tree by (fastforce simp: sapling_appends_append)
qed simp

lemma base_reward_bounds: "0 \<le> base_reward h" "base_reward h \<le> 1000 * COIN"
  by (auto simp: base_reward_def COIN_def)

lemma GetBlockValue_bounds: "0 \<le> GetBlockValue f h" "GetBlockValue f h \<le> 1100 * COIN"
proof -
  have d: "0 \<le> dev_payment_chain hl h \<and> dev_payment_chain hl h \<le> 100 * COIN" for hl by (induction hl) (auto simp: COIN_def)
  show "0 \<le> GetBlockValue f h" "GetBlockValue f h \<le> 1100 * COIN"
    using d [of reward_heights] base_reward_bounds [of h] GetBlockValue_split [of h]
    by (cases f; simp add: GetBlockValue_def GetDevPayment_def COIN_def)+
qed

section \<open>Amounts\<close>

text \<open>The value a transaction spends from a map of coins and the value it creates; the totals over the transactions of a block that satisfy \<open>P\<close>.\<close>

definition value_in :: "(COutPoint \<Rightarrow> Coin option) \<Rightarrow> CTransaction \<Rightarrow> CAmount" where
  "value_in U tx = (if IsCoinBase tx then 0
     else (\<Sum>i\<leftarrow>vin tx. nValue (coin_out (the (U (prevout i))))) + (case GetShieldedValueIn tx of Inl _ \<Rightarrow> 0 | Inr v \<Rightarrow> v))"

definition value_out :: "CTransaction \<Rightarrow> CAmount" where
  "value_out tx = (case GetValueOut tx of Inl _ \<Rightarrow> 0 | Inr v \<Rightarrow> v)"

fun sum_in :: "byte list \<Rightarrow> int \<Rightarrow> (CTransaction \<Rightarrow> bool) \<Rightarrow> CTransaction list \<Rightarrow> (COutPoint \<Rightarrow> Coin option) \<Rightarrow> CAmount" where
  "sum_in junk h P [] U = 0"
| "sum_in junk h P (tx # txs) U = (if P tx then value_in U tx else 0) + sum_in junk h P txs (apply_tx junk h tx U)"

fun sum_out :: "(CTransaction \<Rightarrow> bool) \<Rightarrow> CTransaction list \<Rightarrow> CAmount" where
  "sum_out P [] = 0"
| "sum_out P (tx # txs) = (if P tx then value_out tx else 0) + sum_out P txs"

definition ordinary :: "CTransaction \<Rightarrow> bool" where
  "ordinary tx \<longleftrightarrow> \<not> IsCoinBase tx \<and> \<not> IsCoinStake tx"

abbreviation any_tx :: "CTransaction \<Rightarrow> bool" where
  "any_tx \<equiv> \<lambda>_. True"

abbreviation minting :: "CTransaction \<Rightarrow> bool" where
  "minting \<equiv> \<lambda>tx. \<not> ordinary tx"

lemma sum_in_split: "sum_in junk h any_tx txs U = sum_in junk h ordinary txs U + sum_in junk h minting txs U"
  by (induction txs arbitrary: U) auto

lemma sum_out_split: "sum_out any_tx txs = sum_out ordinary txs + sum_out minting txs"
  by (induction txs) auto

declare wrap64_simps [simp]

section \<open>Connecting refines applying\<close>

context coins_view
begin

abbreviation same_coins :: "('v, 't) CCoinsViewCache \<Rightarrow> ('v, 't) CCoinsViewCache \<Rightarrow> bool" where
  "same_coins c' c \<equiv> cok c' \<and> cache_utxo utxo c' = cache_utxo utxo c \<and> cache_nf nf c' = cache_nf nf c"

lemma have_shielded_refines:
  "cok c \<Longrightarrow> \<forall>s \<in> set ss. WIDTH (spend_nullifier s) = 8 \<Longrightarrow> have_shielded V tmem ss c = (b, c') \<Longrightarrow> same_coins c' c"
proof (induction ss arbitrary: c)
  case (Cons s ss)
  obtain n c1 where g: "GetNullifier V c (spend_nullifier s) = (n, c1)" by (cases "GetNullifier V c (spend_nullifier s)")
  obtain t c2 where a: "GetSaplingAnchorAt V tmem c1 (spend_anchor s) = (t, c2)" by (cases "GetSaplingAnchorAt V tmem c1 (spend_anchor s)")
  have c1: "same_coins c1 c" using GetNullifier_refines [OF Cons.prems(1) _ g] Cons.prems(2) by simp
  have c2: "same_coins c2 c" using getters_refine(3) [of c1 tmem "spend_anchor s" t c2] a c1 by simp
  show ?case using Cons.prems(2,3) Cons.IH [of c2] g a c1 c2 by (auto split: bool.splits option.splits)
qed simp

lemma p2sh_sigops_refines:
  "cok c \<Longrightarrow> list_all (\<lambda>i. outpoint_ok (prevout i)) ins \<Longrightarrow> p2sh_sigops V mem ins n c = (m, c') \<Longrightarrow> same_coins c' c"
proof (induction ins arbitrary: c n)
  case (Cons i ins)
  obtain coin c1 where g: "AccessCoin V mem c (prevout i) = (coin, c1)" by (cases "AccessCoin V mem c (prevout i)")
  have c1: "same_coins c1 c" using AccessCoin_refines [OF Cons.prems(1) _ g] Cons.prems(2) by simp
  show ?case using Cons.prems(2,3) Cons.IH [of c1] g c1 by auto
qed simp

lemma check_inputs_loop_refines:
  "cok c \<Longrightarrow> list_all (\<lambda>i. outpoint_ok (prevout i)) ins \<Longrightarrow> check_inputs_loop V mem N tx flags pre q n ins c = Pass (cks, c') \<Longrightarrow> same_coins c' c"
proof (induction ins arbitrary: c n cks)
  case (Cons i ins)
  obtain coin c1 where g: "AccessCoin V mem c (prevout i) = (coin, c1)" by (cases "AccessCoin V mem c (prevout i)")
  have c1: "same_coins c1 c" using AccessCoin_refines [OF Cons.prems(1) _ g] Cons.prems(2) by simp
  obtain cks' n' where "check_inputs_loop V mem N tx flags pre q n' ins c1 = Pass (cks', c')"
    using Cons.prems(3) g by (auto simp: Let_def obind_Pass split: if_splits)
  then show ?case using Cons.IH [of c1] Cons.prems(2) c1 by auto
qed simp

lemma applies_inputs:
  assumes "tx_applies junk h tx U N" "\<not> IsCoinBase tx"
  shows "list_all (\<lambda>i. outpoint_ok (prevout i) \<and> U (prevout i) \<noteq> None) (vin tx)"
  using assms by (fastforce simp: tx_applies_def list_all_iff)

lemma GetValueIn_refines:
  assumes "cok c" "tx_applies junk h tx (cache_utxo utxo c) N" "\<not> IsCoinBase tx" "GetValueIn V mem c tx = Inr (v, c')"
  shows "same_coins c' c \<and> v = wrap64 (value_in (cache_utxo utxo c) tx)"
proof -
  obtain s c1 where g: "sum_inputs V mem (vin tx) 0 c = (s, c1)" by (cases "sum_inputs V mem (vin tx) 0 c")
  from sum_inputs_refines [OF assms(1) applies_inputs [OF assms(2,3)] g] show ?thesis
    using assms(3,4) g by (auto simp: GetValueIn_def value_in_def split: sum.splits)
qed

lemma connect_inputs_exist_refines:
  assumes "cok c" "tx_applies junk h tx (cache_utxo utxo c) Nf" "connect_inputs_exist V mem tmem N A tx n c = Pass (m, c')"
  shows "same_coins c' c"
proof (cases "nd_fInitialBlockDownload N \<and> \<not> IsCoinBase tx")
  case True
  have o: "list_all (\<lambda>i. outpoint_ok (prevout i)) (vin tx)" using applies_inputs [OF assms(2)] True by (auto simp: list_all_iff)
  obtain b1 c1 where h: "HaveInputs V mem c tx = (b1, c1)" by (cases "HaveInputs V mem c tx")
  obtain b2 c2 where r: "HaveShieldedRequirements V tmem c1 tx = (b2, c2)" by (cases "HaveShieldedRequirements V tmem c1 tx")
  obtain k c3 where p: "p2sh_sigops V mem (vin tx) 0 c2 = (k, c3)" by (cases "p2sh_sigops V mem (vin tx) 0 c2")
  have c1: "same_coins c1 c" using have_inputs_refines [OF assms(1) o] h True by (simp add: HaveInputs_def)
  have "\<forall>s \<in> set (vShieldedSpend (the (sapData tx))). WIDTH (spend_nullifier s) = 8" if "IsShieldedTx tx"
    using that assms(2) by (auto simp: tx_applies_def tx_nullifiers_def IsShieldedTx_def hasSaplingData_def split: option.splits)
  then have c2: "same_coins c2 c" using have_shielded_refines [of c1 _ tmem b2 c2] r c1 by (auto simp: HaveShieldedRequirements_def split: if_splits)
  have c3: "same_coins c3 c" using p2sh_sigops_refines [OF _ o p] c2 by simp
  then show ?thesis using assms(3) True h r p by (auto simp: connect_inputs_exist_def Let_def split: if_splits)
next
  case False
  then show ?thesis using assms(1,3) by (auto simp: connect_inputs_exist_def split: if_splits)
qed

lemma CheckInputs_refines:
  assumes "cok c" "tx_applies junk h tx (cache_utxo utxo c) Nf" "\<not> IsCoinBase tx" "CheckInputs V mem N tx c sc flags pre q = Pass (cks, c')"
  shows "same_coins c' c"
proof -
  have "list_all (\<lambda>i. outpoint_ok (prevout i)) (vin tx)" using applies_inputs [OF assms(2,3)] by (auto simp: list_all_iff)
  then show ?thesis using check_inputs_loop_refines [OF assms(1), of "vin tx" mem N tx flags pre q 0 cks c'] assms
    by (auto simp: CheckInputs_def split: if_splits)
qed

lemma connect_values_refines:
  assumes c: "cok (cs_view st)" "tx_applies junk h tx (cache_utxo utxo (cs_view st)) Nf" and p: "connect_values V mem N A tx st = Pass st'"
  shows "same_coins (cs_view st') (cs_view st) \<and>
    cs_nFees st' = (if ordinary tx then wrap64 (cs_nFees st + (value_in (cache_utxo utxo (cs_view st)) tx - value_out tx)) else cs_nFees st) \<and>
    cs_nValueIn st' = (if IsCoinBase tx then cs_nValueIn st else wrap64 (cs_nValueIn st + value_in (cache_utxo utxo (cs_view st)) tx)) \<and>
    cs_nValueOut st' = cs_nValueOut st \<and> cs_undo st' = cs_undo st"
proof (cases "IsCoinBase tx")
  case True
  then show ?thesis using c p by (simp add: connect_values_def ordinary_def)
next
  case False
  obtain st1 where s1: "(if \<not> IsCoinStake tx then obind (sum_outcome (GetValueIn V mem (cs_view st) tx)) (\<lambda>(nIn, view).
      obind (sum_outcome (GetValueOut tx)) (\<lambda>nOut. Pass (st\<lparr>cs_view := view, cs_nFees := wrap64 (cs_nFees st + (nIn - nOut))\<rparr>))) else Pass st) = Pass st1"
    and s2: "obind (sum_outcome (GetValueIn V mem (cs_view st1) tx)) (\<lambda>(nIn, view).
             let st = st1\<lparr>cs_view := view, cs_nValueIn := wrap64 (cs_nValueIn st1 + nIn)\<rparr> in
             obind (CheckInputs V mem N tx (cs_view st) (ca_fScriptChecks A) (ca_flags A) (PrecomputedTransactionData_new (nd_blake2b N) tx) (ca_queue A))
               (\<lambda>(vChecks, view). Pass (st\<lparr>cs_view := view, cs_checks := cs_checks st @ vChecks\<rparr>))) = Pass st'"
    using p False unfolding connect_values_def by (auto simp: obind_Pass)
  have f: "same_coins (cs_view st1) (cs_view st)" "cs_nValueIn st1 = cs_nValueIn st" "cs_nValueOut st1 = cs_nValueOut st" "cs_undo st1 = cs_undo st"
    "cs_nFees st1 = (if ordinary tx then wrap64 (cs_nFees st + (value_in (cache_utxo utxo (cs_view st)) tx - value_out tx)) else cs_nFees st)"
    using s1 False c(1)
    by (auto simp: obind_Pass ordinary_def value_out_def split: if_splits dest!: GetValueIn_refines [OF c False])
  from s2 obtain v c2 cks c3 where g: "GetValueIn V mem (cs_view st1) tx = Inr (v, c2)"
    "CheckInputs V mem N tx c2 (ca_fScriptChecks A) (ca_flags A) (PrecomputedTransactionData_new (nd_blake2b N) tx) (ca_queue A) = Pass (cks, c3)"
    "st' = st1\<lparr>cs_view := c3, cs_nValueIn := wrap64 (cs_nValueIn st1 + v), cs_checks := cs_checks st1 @ cks\<rparr>"
    by (auto simp: obind_Pass Let_def)
  have v: "same_coins c2 (cs_view st)" "v = wrap64 (value_in (cache_utxo utxo (cs_view st)) tx)"
    using GetValueIn_refines [of "cs_view st1" junk h tx Nf mem v c2] f(1) c(2) False g(1) by auto
  have "same_coins c3 (cs_view st)" using CheckInputs_refines [of c2 junk h tx Nf] v(1) c(2) False g(2) by auto
  then show ?thesis using f v False g(3) by simp
qed

lemma connect_tx_refines:
  assumes c: "cok (cs_view st)" "tx_applies junk h tx (cache_utxo utxo (cs_view st)) (cache_nf nf (cs_view st))"
    and e: "nd_junk N = junk" "ca_height A = h" and p: "connect_tx V mem tmem T N A first tx st = Pass st'"
  shows "cok (cs_view st') \<and> cache_utxo utxo (cs_view st') = apply_tx junk h tx (cache_utxo utxo (cs_view st)) \<and>
    cache_nf nf (cs_view st') = apply_tx_nf tx (cache_nf nf (cs_view st)) \<and>
    cs_nFees st' = (if ordinary tx then wrap64 (cs_nFees st + (value_in (cache_utxo utxo (cs_view st)) tx - value_out tx)) else cs_nFees st) \<and>
    cs_nValueIn st' = (if IsCoinBase tx then cs_nValueIn st else wrap64 (cs_nValueIn st + value_in (cache_utxo utxo (cs_view st)) tx)) \<and>
    cs_nValueOut st' = wrap64 (cs_nValueOut st + value_out tx) \<and>
    cs_undo st' = cs_undo st @ (if first then [] else [tx_undo tx (cache_utxo utxo (cs_view st))])"
proof -
  from connect_tx_Pass [OF p, unfolded e] obtain n c1 st2 nOut txundo c2 where
    x: "connect_inputs_exist V mem tmem N A tx ((cs_nSigOps st + GetLegacySigOpCount tx) mod 2 ^ 32) (cs_view st) = Pass (n, c1)"
    and y: "connect_values V mem N A tx (st\<lparr>cs_nSigOps := n, cs_view := c1\<rparr>) = Pass st2"
    and o: "GetValueOut tx = Inr nOut" and u: "UpdateCoins V mem junk tx (cs_view st2) h False = Inr (txundo, c2)"
    and st': "cs_view st' = c2" "cs_nFees st' = cs_nFees st2" "cs_nValueIn st' = cs_nValueIn st2" "cs_nValueOut st' = wrap64 (cs_nValueOut st2 + nOut)"
      "cs_undo st' = (if first then cs_undo st2 else cs_undo st2 @ [txundo])" by metis
  have c1: "same_coins c1 (cs_view st)" by (rule connect_inputs_exist_refines [OF c x])
  have st2: "same_coins (cs_view st2) (cs_view st)" "cs_nValueOut st2 = cs_nValueOut st" "cs_undo st2 = cs_undo st"
    "cs_nFees st2 = (if ordinary tx then wrap64 (cs_nFees st + (value_in (cache_utxo utxo (cs_view st)) tx - value_out tx)) else cs_nFees st)"
    "cs_nValueIn st2 = (if IsCoinBase tx then cs_nValueIn st else wrap64 (cs_nValueIn st + value_in (cache_utxo utxo (cs_view st)) tx))"
    using connect_values_refines [OF _ _ y, of junk h "cache_nf nf (cs_view st)"] c1 c(2) by simp_all
  from UpdateCoins_refines [of "cs_view st2" junk h tx mem False] st2(1) c(2) u
  have "txundo = tx_undo tx (cache_utxo utxo (cs_view st))" "cok c2" "cache_utxo utxo c2 = apply_tx junk h tx (cache_utxo utxo (cs_view st))"
    "cache_nf nf c2 = apply_tx_nf tx (cache_nf nf (cs_view st))" by auto
  then show ?thesis using st' st2 o by (simp add: value_out_def)
qed

lemma connect_txs_refines:
  assumes "cok (cs_view st)" "block_applies junk h txs (cache_utxo utxo (cs_view st)) (cache_nf nf (cs_view st))"
    and e: "nd_junk N = junk" "ca_height A = h" and "connect_txs V mem tmem T N A first txs st = Pass st'"
    and "wrap64 (cs_nFees st) = cs_nFees st" "wrap64 (cs_nValueIn st) = cs_nValueIn st" "wrap64 (cs_nValueOut st) = cs_nValueOut st"
  shows "cok (cs_view st') \<and> cache_utxo utxo (cs_view st') = fold (apply_tx junk h) txs (cache_utxo utxo (cs_view st)) \<and>
    cache_nf nf (cs_view st') = fold apply_tx_nf txs (cache_nf nf (cs_view st)) \<and>
    cs_nFees st' = wrap64 (cs_nFees st + (sum_in junk h ordinary txs (cache_utxo utxo (cs_view st)) - sum_out ordinary txs)) \<and>
    cs_nValueIn st' = wrap64 (cs_nValueIn st + sum_in junk h any_tx txs (cache_utxo utxo (cs_view st))) \<and>
    cs_nValueOut st' = wrap64 (cs_nValueOut st + sum_out any_tx txs) \<and>
    cs_undo st' = cs_undo st @ (if first then tl else id) (block_undo junk h txs (cache_utxo utxo (cs_view st)))"
  using assms
proof (induction txs arbitrary: st first)
  case (Cons tx txs)
  let ?U = "cache_utxo utxo (cs_view st)"
  obtain st1 where t: "connect_tx V mem tmem T N A first tx st = Pass st1" and r: "connect_txs V mem tmem T N A False txs st1 = Pass st'"
    using Cons.prems(5) by (auto simp: obind_Pass)
  have a: "tx_applies junk h tx ?U (cache_nf nf (cs_view st))" "block_applies junk h txs (apply_tx junk h tx ?U) (apply_tx_nf tx (cache_nf nf (cs_view st)))"
    using Cons.prems(2) by simp_all
  note s = connect_tx_refines [OF Cons.prems(1) a(1) Cons.prems(3,4) t]
  have w: "wrap64 (cs_nFees st1) = cs_nFees st1" "wrap64 (cs_nValueIn st1) = cs_nValueIn st1" "wrap64 (cs_nValueOut st1) = cs_nValueOut st1"
    using s Cons.prems(6-8) wrap64_simps(1) [of _ 0] by auto
  let ?U1 = "apply_tx junk h tx ?U"
  from Cons.IH [OF _ _ Cons.prems(3,4) r w] s a(2) have i: "cok (cs_view st')" "cache_utxo utxo (cs_view st') = fold (apply_tx junk h) txs ?U1"
    "cache_nf nf (cs_view st') = fold apply_tx_nf txs (apply_tx_nf tx (cache_nf nf (cs_view st)))"
    "cs_nFees st' = wrap64 (cs_nFees st1 + (sum_in junk h ordinary txs ?U1 - sum_out ordinary txs))"
    "cs_nValueIn st' = wrap64 (cs_nValueIn st1 + sum_in junk h any_tx txs ?U1)" "cs_nValueOut st' = wrap64 (cs_nValueOut st1 + sum_out any_tx txs)"
    "cs_undo st' = cs_undo st1 @ block_undo junk h txs ?U1" by simp_all
  have "cs_nFees st' = wrap64 (cs_nFees st + (sum_in junk h ordinary (tx # txs) ?U - sum_out ordinary (tx # txs)))"
  proof (cases "ordinary tx")
    case True
    then have "cs_nFees st1 = wrap64 (cs_nFees st + (value_in ?U tx - value_out tx))" using s by simp
    then have "cs_nFees st' = wrap64 (cs_nFees st + (value_in ?U tx - value_out tx) + (sum_in junk h ordinary txs ?U1 - sum_out ordinary txs))"
      unfolding i(4) by (simp only: wrap64_simps)
    also have "\<dots> = wrap64 (cs_nFees st + (sum_in junk h ordinary (tx # txs) ?U - sum_out ordinary (tx # txs)))"
      by (rule arg_cong [where f = wrap64]) (simp add: True)
    finally show ?thesis .
  qed (use s i(4) in simp)
  moreover have "cs_nValueIn st' = wrap64 (cs_nValueIn st + sum_in junk h any_tx (tx # txs) ?U)"
  proof (cases "IsCoinBase tx")
    case False
    then have "cs_nValueIn st' = wrap64 (cs_nValueIn st + value_in ?U tx + sum_in junk h any_tx txs ?U1)" using s i(5) by simp
    then show ?thesis by (simp add: add.assoc)
  qed (use s i(5) in \<open>simp add: value_in_def\<close>)
  moreover have "cs_nValueOut st' = wrap64 (cs_nValueOut st + sum_out any_tx (tx # txs))" using s i(6) by (simp add: add.assoc)
  moreover have "cs_undo st' = cs_undo st @ (if first then tl else id) (block_undo junk h (tx # txs) ?U)" using s i(7) by simp
  ultimately show ?case using i(1-3) by simp
qed (simp add: assms(3))

lemma PushAnchor_refines:
  assumes "cok c"
  shows "same_coins (PushAnchor V rt tmem tree c) c"
proof -
  obtain r c1 where g: "GetBestAnchor V c = (r, c1)" by (cases "GetBestAnchor V c")
  have c1: "same_coins c1 c" using getters_refine(2) [OF assms g] by simp
  have "same_coins (c1\<lparr>cachedCoinsUsage := w, cacheSaplingAnchors := x, hashSaplingAnchor := y\<rparr>) c" for w x y
    using c1 cache_base [of "c1\<lparr>cachedCoinsUsage := w, cacheSaplingAnchors := x, hashSaplingAnchor := y\<rparr>" c1 ok utxo nf] by (simp add: cache_ok_def)
  then show ?thesis using c1 by (auto simp: PushAnchor_def g)
qed

lemma mint_eq:
  "wrap64 (wrap64 (wrap64 (sum_out any_tx txs) - wrap64 (sum_in junk h any_tx txs U)) + wrap64 (sum_in junk h ordinary txs U - sum_out ordinary txs)) =
   wrap64 (sum_out minting txs - sum_in junk h minting txs U)"
  by (simp add: sum_in_split sum_out_split)

lemma ConnectBlock_refines:
  assumes c: "cok view" and a: "block_applies (nd_junk N) (nHeight pindex) (block_vtx b) (cache_utxo utxo view) (cache_nf nf view)"
    and p: "ConnectBlock V mem tmem T ec_parse D fThreads N b pindex files view False = Pass r" "nd_hash N b \<noteq> nd_hashGenesisBlock N"
  shows "cok (cr_view r)" (is ?ok)
    and "cache_utxo utxo (cr_view r) = fold (apply_tx (nd_junk N) (nHeight pindex)) (block_vtx b) (cache_utxo utxo view)" (is ?utxo)
    and "cache_nf nf (cr_view r) = fold apply_tx_nf (block_vtx b) (cache_nf nf view)" (is ?nf)
    and "hashBlock (cr_view r) = phashBlock pindex" (is ?best)
    and "pos_nFile (GetUndoPos pindex) = - 1 \<Longrightarrow> \<exists>pos. cr_undo r = Some (pos, UndoWriteToDisk ec_parse (nd_junk N)
      \<lparr>vtxundo = tl (block_undo (nd_junk N) (nHeight pindex) (block_vtx b) (cache_utxo utxo view))\<rparr> (fst (GetBestBlock V view)))"
      (is "_ \<Longrightarrow> ?undo")
    and "IsBlockValueValid N (nHeight pindex)
      (if block_IsProofOfWork b then wrap64 (GetBlockValue (nd_fRegTest N) (nHeight pindex) +
         (sum_in (nd_junk N) (nHeight pindex) ordinary (block_vtx b) (cache_utxo utxo view) - sum_out ordinary (block_vtx b)))
       else GetBlockValue (nd_fRegTest N) (nHeight pindex))
      (wrap64 (sum_out minting (block_vtx b) - sum_in (nd_junk N) (nHeight pindex) minting (block_vtx b) (cache_utxo utxo view)))" (is ?mint)
proof -
  obtain b' prev best c0 where b': "b' = b \<or> b' = b\<lparr>fChecked := True\<rparr>" and g: "GetBestBlock V view = (best, c0)"
    and best: "\<forall>i. prev = Some i \<longrightarrow> phashBlock i = best" and body: "connect_body V mem tmem T ec_parse D fThreads N b' prev
       \<lparr>cr_view = c0, cr_index = pindex, cr_dirty = False, cr_files = files, cr_undo = None, cr_txindex = None\<rparr> False = Pass r"
    by (rule ConnectBlock_Pass [OF p])
  have vtx: "block_vtx b' = block_vtx b" "block_IsProofOfWork b' = block_IsProofOfWork b" using b' by auto
  have c0: "same_coins c0 view" using getters_refine(1) [OF c g] by simp
  obtain anchor c1 tree c2 st res1 where
    x: "GetBestAnchor V c0 = (anchor, c1)" "GetSaplingAnchorAt V tmem c1 anchor = (Some tree, c2)"
      "connect_txs V mem tmem T N (connect_args_of N b' pindex prev fThreads) True (block_vtx b') (connect_start b' pindex c2 tree) = Pass st"
      "connect_final N T b' (nHeight pindex) st = Pass ()"
      "write_undo ec_parse (nd_junk N) D \<lparr>vtxundo = cs_undo st\<rparr> (map_option phashBlock prev) \<lparr>cr_view = PushAnchor V (sapling_root T) tmem (cs_tree st) (cs_view st),
         cr_index = pindex, cr_dirty = False, cr_files = files, cr_undo = None, cr_txindex = None\<rparr> = Pass res1"
      "cr_view r = SetBestBlock (cr_view res1) (phashBlock (cr_index res1))" "cr_undo r = cr_undo res1"
    by (rule connect_body_Pass [OF body, unfolded connect_result.simps])
  have c1: "same_coins c1 view" using getters_refine(2) [OF _ x(1)] c0 by simp
  have c2: "same_coins c2 view" using getters_refine(3) [OF _ x(2)] c1 by simp
  let ?U = "cache_utxo utxo view" and ?h = "nHeight pindex" and ?j = "nd_junk N" and ?txs = "block_vtx b"
  have "cok (cs_view st) \<and> cache_utxo utxo (cs_view st) = fold (apply_tx ?j ?h) ?txs ?U \<and> cache_nf nf (cs_view st) = fold apply_tx_nf ?txs (cache_nf nf view) \<and>
    cs_nFees st = wrap64 (sum_in ?j ?h ordinary ?txs ?U - sum_out ordinary ?txs) \<and> cs_nValueIn st = wrap64 (sum_in ?j ?h any_tx ?txs ?U) \<and>
    cs_nValueOut st = wrap64 (sum_out any_tx ?txs) \<and> cs_undo st = tl (block_undo ?j ?h ?txs ?U)"
    using connect_txs_refines [OF _ _ refl _ x(3), of ?h] c2 a by (simp add: connect_start_def connect_args_of_def Let_def vtx)
  then have st: "cok (cs_view st)" "cache_utxo utxo (cs_view st) = fold (apply_tx ?j ?h) ?txs ?U" "cache_nf nf (cs_view st) = fold apply_tx_nf ?txs (cache_nf nf view)"
    "cs_nFees st = wrap64 (sum_in ?j ?h ordinary ?txs ?U - sum_out ordinary ?txs)" "cs_nValueIn st = wrap64 (sum_in ?j ?h any_tx ?txs ?U)"
    "cs_nValueOut st = wrap64 (sum_out any_tx ?txs)" "cs_undo st = tl (block_undo ?j ?h ?txs ?U)" by auto
  note push = PushAnchor_refines [OF st(1), of "sapling_root T" tmem "cs_tree st"]
  note w = write_undo_Pass [OF x(5)]
  show ?ok ?utxo ?nf ?best using push w st x(6) by (auto simp: SetBestBlock_refines)
  show ?undo if null: "pos_nFile (GetUndoPos pindex) = - 1"
  proof -
    obtain pos h where "map_option phashBlock prev = Some h" "cr_undo res1 = Some (pos, UndoWriteToDisk ec_parse ?j \<lparr>vtxundo = cs_undo st\<rparr> h)"
      using w null by auto
    moreover from this(1) have "h = best" using best by auto
    ultimately show ?thesis using x(7) g st(7) by simp
  qed
  show ?mint using x(4) unfolding connect_final_def Let_def st(4-6) mint_eq vtx by (auto split: if_splits)
qed

text \<open>Inputs whose coins are missing.\<close>

lemma sum_inputs_same:
  "cok c \<Longrightarrow> list_all (\<lambda>i. outpoint_ok (prevout i)) ins \<Longrightarrow> sum_inputs V mem ins n c = (m, c') \<Longrightarrow> same_coins c' c"
proof (induction ins arbitrary: c n)
  case (Cons i ins)
  obtain coin c1 where g: "AccessCoin V mem c (prevout i) = (coin, c1)" by (cases "AccessCoin V mem c (prevout i)")
  have c1: "same_coins c1 c" using AccessCoin_refines [OF Cons.prems(1) _ g] Cons.prems(2) by simp
  show ?case using Cons.prems(2,3) Cons.IH [of c1] g c1 by auto
qed simp

lemma GetValueIn_same:
  "cok c \<Longrightarrow> list_all (\<lambda>i. outpoint_ok (prevout i)) (vin tx) \<Longrightarrow> GetValueIn V mem c tx = Inr (v, c') \<Longrightarrow> same_coins c' c"
  using sum_inputs_same by (fastforce simp: GetValueIn_def split: prod.splits sum.splits if_splits)

lemma check_inputs_loop_missing:
  "cok c \<Longrightarrow> list_all (\<lambda>i. outpoint_ok (prevout i)) ins \<Longrightarrow> \<not> list_all (\<lambda>i. cache_utxo utxo c (prevout i) \<noteq> None) ins \<Longrightarrow>
   check_inputs_loop V mem N tx flags pre True n ins c = Crash AssertionFailed"
proof (induction ins arbitrary: c n)
  case (Cons i ins)
  obtain coin c1 where g: "AccessCoin V mem c (prevout i) = (coin, c1)" by (cases "AccessCoin V mem c (prevout i)")
  have c1: "same_coins c1 c" "visible coin = cache_utxo utxo c (prevout i)" using AccessCoin_refines [OF Cons.prems(1) _ g] Cons.prems(2) by simp_all
  show ?case using Cons.prems(2,3) Cons.IH [of c1] g c1 by (auto simp: visible_def Let_def split: if_splits)
qed simp

lemma connect_values_missing:
  assumes "cok (cs_view st)" "list_all (\<lambda>i. outpoint_ok (prevout i)) (vin tx)" "\<not> list_all (\<lambda>i. cache_utxo utxo (cs_view st) (prevout i) \<noteq> None) (vin tx)"
    and "\<not> IsCoinBase tx" "ca_fScriptChecks A" "ca_queue A"
  shows "\<exists>e. connect_values V mem N A tx st = Crash e"
proof -
  have k: "CheckInputs V mem N tx c True flags pre True = Crash AssertionFailed" if "same_coins c (cs_view st)" for c flags pre
    using check_inputs_loop_missing [of c "vin tx" mem N tx flags pre 0] that assms(2-4) by (simp add: CheckInputs_def)
  have "\<exists>e. obind (sum_outcome (GetValueIn V mem (cs_view st1) tx)) (\<lambda>(nIn, view).
             let st = st1\<lparr>cs_view := view, cs_nValueIn := wrap64 (cs_nValueIn st1 + nIn)\<rparr> in
             obind (CheckInputs V mem N tx (cs_view st) True (ca_flags A) (PrecomputedTransactionData_new (nd_blake2b N) tx) True)
               (\<lambda>(vChecks, view). Pass (st\<lparr>cs_view := view, cs_checks := cs_checks st @ vChecks\<rparr>))) = Crash e"
    if "same_coins (cs_view st1) (cs_view st)" for st1
  proof (cases "GetValueIn V mem (cs_view st1) tx")
    case (Inr p)
    then obtain v c where p: "GetValueIn V mem (cs_view st1) tx = Inr (v, c)" by (cases p) auto
    have "same_coins c (cs_view st)" using GetValueIn_same [OF _ assms(2) p] that by simp
    then show ?thesis using k [of c] by (simp add: p Let_def)
  qed simp
  note fin = this
  show ?thesis
  proof (cases "IsCoinStake tx")
    case True
    then show ?thesis using fin [of st] assms by (simp add: connect_values_def)
  next
    case False
    consider e where "GetValueIn V mem (cs_view st) tx = Inl e" | e where "GetValueOut tx = Inl e"
      | v c w where "GetValueIn V mem (cs_view st) tx = Inr (v, c)" "GetValueOut tx = Inr w"
      by (metis old.sum.exhaust surj_pair)
    then show ?thesis
    proof cases
      case 2
      then show ?thesis using False assms(4) by (cases "GetValueIn V mem (cs_view st) tx") (auto simp: connect_values_def)
    next
      case 3
      have "same_coins c (cs_view st)" using GetValueIn_same [OF assms(1,2) 3(1)] .
      then show ?thesis using fin [of "st\<lparr>cs_view := c, cs_nFees := wrap64 (cs_nFees st + (v - w))\<rparr>"] False assms(4-6) 3
        by (simp add: connect_values_def)
    qed (use False assms(4) in \<open>simp add: connect_values_def\<close>)
  qed
qed

lemma connect_tx_missing:
  assumes c: "cok (cs_view st)" and o: "list_all (\<lambda>i. outpoint_ok (prevout i)) (vin tx)"
    and m: "\<not> list_all (\<lambda>i. cache_utxo utxo (cs_view st) (prevout i) \<noteq> None) (vin tx)"
    and cb: "\<not> IsCoinBase tx" and q: "ca_fScriptChecks A" "ca_queue A"
    and s: "(cs_nSigOps st + GetLegacySigOpCount tx) mod 2 ^ 32 \<le> MAX_BLOCK_SIGOPS_CURRENT"
  shows "nd_fInitialBlockDownload N \<Longrightarrow> connect_tx V mem tmem T N A first tx st = Invalid 100 ''bad-txns-inputs-missingorspent'' False"
    and "\<not> nd_fInitialBlockDownload N \<Longrightarrow> \<not> (ca_fSaplingMaintenance A \<and> IsShieldedTx tx) \<Longrightarrow> \<exists>e. connect_tx V mem tmem T N A first tx st = Crash e"
proof -
  show "connect_tx V mem tmem T N A first tx st = Invalid 100 ''bad-txns-inputs-missingorspent'' False" if "nd_fInitialBlockDownload N"
  proof -
    obtain b c1 where h: "have_inputs V mem (vin tx) (cs_view st) = (b, c1)" by (cases "have_inputs V mem (vin tx) (cs_view st)")
    then have "\<not> b" using have_inputs_refines [OF c o h] m by simp
    then show ?thesis using that h s cb by (simp add: connect_tx_def connect_inputs_exist_def HaveInputs_def)
  qed
  show "\<exists>e. connect_tx V mem tmem T N A first tx st = Crash e" if "\<not> nd_fInitialBlockDownload N" "\<not> (ca_fSaplingMaintenance A \<and> IsShieldedTx tx)"
  proof -
    let ?st = "st\<lparr>cs_nSigOps := (cs_nSigOps st + GetLegacySigOpCount tx) mod 2 ^ 32, cs_view := cs_view st\<rparr>"
    obtain e where "connect_values V mem N A tx ?st = Crash e" using connect_values_missing [of ?st tx A mem N] c o m cb q by auto
    then show ?thesis using that s by (simp add: connect_tx_def connect_inputs_exist_def)
  qed
qed

end

section \<open>The anchor after connecting\<close>

text \<open>The steps of the loop keep the trees the view knows, and \<open>PushAnchor\<close> makes the new tree known.\<close>

context steady_view
begin

lemma GetBestBlock_frame: "GetBestBlock V c = (h, c') \<Longrightarrow> anchor_frame c' = anchor_frame c"
  by (auto simp: GetBestBlock_def split: if_splits prod.splits dest: steady_pair)

lemma GetNullifier_frame: "GetNullifier V c n = (f, c') \<Longrightarrow> anchor_frame c' = anchor_frame c"
  by (auto simp: GetNullifier_def split: option.splits prod.splits dest: steady_pair)

lemma have_inputs_frame: "have_inputs V mem ins c = (b, c') \<Longrightarrow> anchor_frame c' = anchor_frame c"
proof (induction ins arbitrary: c)
  case (Cons i ins)
  obtain x c1 where h: "HaveCoin V mem c (prevout i) = (x, c1)" by (cases "HaveCoin V mem c (prevout i)")
  show ?case using Cons.prems Cons.IH [of c1] read_frame(2) [OF h] h by (cases x) auto
qed simp

lemma have_shielded_keeps: "have_shielded V tmem ss c = (b, c') \<Longrightarrow> keeps c' c"
proof (induction ss arbitrary: c)
  case (Cons s ss)
  obtain n c1 where g: "GetNullifier V c (spend_nullifier s) = (n, c1)" by (cases "GetNullifier V c (spend_nullifier s)")
  obtain t c2 where a: "GetSaplingAnchorAt V tmem c1 (spend_anchor s) = (t, c2)" by (cases "GetSaplingAnchorAt V tmem c1 (spend_anchor s)")
  have "keeps c1 c" by (rule frame_keeps [OF GetNullifier_frame [OF g]])
  moreover have "keeps c2 c1" by (rule GetSaplingAnchorAt_keeps(2) [OF a])
  ultimately show ?case using Cons.prems Cons.IH [of c2] g a by (auto split: bool.splits option.splits)
qed simp

lemma p2sh_sigops_frame: "p2sh_sigops V mem ins n c = (m, c') \<Longrightarrow> anchor_frame c' = anchor_frame c"
proof (induction ins arbitrary: c n)
  case (Cons i ins)
  obtain x c1 where a: "AccessCoin V mem c (prevout i) = (x, c1)" by (cases "AccessCoin V mem c (prevout i)")
  show ?case using Cons.prems Cons.IH [of _ c1] read_frame(1) [OF a] a by auto
qed simp

lemma sum_inputs_frame: "sum_inputs V mem ins n c = (m, c') \<Longrightarrow> anchor_frame c' = anchor_frame c"
proof (induction ins arbitrary: c n)
  case (Cons i ins)
  obtain x c1 where a: "AccessCoin V mem c (prevout i) = (x, c1)" by (cases "AccessCoin V mem c (prevout i)")
  show ?case using Cons.prems Cons.IH [of _ c1] read_frame(1) [OF a] a by auto
qed simp

lemma GetValueIn_frame: "GetValueIn V mem c tx = Inr (v, c') \<Longrightarrow> anchor_frame c' = anchor_frame c"
  using sum_inputs_frame by (fastforce simp: GetValueIn_def split: prod.splits sum.splits if_splits)

lemma check_inputs_loop_frame: "check_inputs_loop V mem N tx flags pre q n ins c = Pass (cks, c') \<Longrightarrow> anchor_frame c' = anchor_frame c"
proof (induction ins arbitrary: c n cks)
  case (Cons i ins)
  obtain x c1 where a: "AccessCoin V mem c (prevout i) = (x, c1)" by (cases "AccessCoin V mem c (prevout i)")
  obtain cks' n' where "check_inputs_loop V mem N tx flags pre q n' ins c1 = Pass (cks', c')"
    using Cons.prems a by (auto simp: Let_def obind_Pass split: if_splits)
  then show ?case using Cons.IH read_frame(1) [OF a] by metis
qed simp

lemma connect_inputs_exist_keeps:
  assumes "connect_inputs_exist V mem tmem N A tx n c = Pass (m, c')"
  shows "keeps c' c"
proof (cases "nd_fInitialBlockDownload N \<and> \<not> IsCoinBase tx")
  case True
  obtain b1 c1 where h: "HaveInputs V mem c tx = (b1, c1)" by (cases "HaveInputs V mem c tx")
  obtain b2 c2 where q: "HaveShieldedRequirements V tmem c1 tx = (b2, c2)" by (cases "HaveShieldedRequirements V tmem c1 tx")
  obtain k c3 where p: "p2sh_sigops V mem (vin tx) 0 c2 = (k, c3)" by (cases "p2sh_sigops V mem (vin tx) 0 c2")
  have "keeps c1 c" using frame_keeps [OF have_inputs_frame] h True by (simp add: HaveInputs_def)
  moreover have "keeps c2 c1" using have_shielded_keeps q by (auto simp: HaveShieldedRequirements_def split: if_splits)
  moreover have "keeps c3 c2" by (rule frame_keeps [OF p2sh_sigops_frame [OF p]])
  ultimately show ?thesis using assms True h q p by (auto simp: connect_inputs_exist_def Let_def split: if_splits)
next
  case False
  then show ?thesis using assms by (auto simp: connect_inputs_exist_def split: if_splits)
qed

lemma connect_values_frame:
  assumes "connect_values V mem N A tx st = Pass st'"
  shows "anchor_frame (cs_view st') = anchor_frame (cs_view st)"
proof (cases "IsCoinBase tx")
  case False
  have "anchor_frame c2 = anchor_frame c1" if "CheckInputs V mem N tx c1 sc flags pre q = Pass (cks, c2)" for c1 sc flags pre q cks c2
    using that check_inputs_loop_frame by (auto simp: CheckInputs_def split: if_splits)
  then show ?thesis using assms False
    by (fastforce simp: connect_values_def obind_Pass Let_def split: if_splits dest: GetValueIn_frame)
qed (use assms in \<open>simp add: connect_values_def\<close>)

lemma connect_txs_keeps: "connect_txs V mem tmem T N A first txs st = Pass st' \<Longrightarrow> keeps (cs_view st') (cs_view st)"
proof (induction txs arbitrary: st first)
  case (Cons tx txs)
  obtain st1 where t: "connect_tx V mem tmem T N A first tx st = Pass st1" and q: "connect_txs V mem tmem T N A False txs st1 = Pass st'"
    using Cons.prems by (auto simp: obind_Pass)
  from connect_tx_Pass [OF t] obtain n c1 st2 u where
    x: "connect_inputs_exist V mem tmem N A tx ((cs_nSigOps st + GetLegacySigOpCount tx) mod 2 ^ 32) (cs_view st) = Pass (n, c1)"
    and y: "connect_values V mem N A tx (st\<lparr>cs_nSigOps := n, cs_view := c1\<rparr>) = Pass st2"
    and z: "UpdateCoins V mem (nd_junk N) tx (cs_view st2) (ca_height A) False = Inr (u, cs_view st1)" by metis
  have "keeps (cs_view st2) c1" using frame_keeps [OF connect_values_frame [OF y]] by simp
  moreover have "keeps (cs_view st1) (cs_view st2)" by (rule frame_keeps [OF UpdateCoins_frame [OF z]])
  ultimately show ?case using connect_inputs_exist_keeps [OF x] Cons.IH [OF q] by simp
qed simp

lemma PushAnchor_known:
  assumes "anchor_known V c" "\<not> bu_is_null (root tree)"
  shows "anchor_known V (PushAnchor V root tmem tree c) \<and> hashSaplingAnchor (PushAnchor V root tmem tree c) = root tree"
proof -
  obtain q c1 where g: "GetBestAnchor V c = (q, c1)" by (cases "GetBestAnchor V c")
  note k = GetBestAnchor_keeps [OF g]
  show ?thesis
  proof (cases "q = root tree")
    case True
    then show ?thesis using assms(1) k g by (simp add: PushAnchor_def anchor_known_def)
  next
    case False
    then show ?thesis using assms(2) g by (simp add: PushAnchor_def anchor_known_def anchors_def best_anchor_def update_conv')
  qed
qed

lemma ConnectBlock_anchor:
  assumes "ConnectBlock V mem tmem T ec_parse D fThreads N b pindex files view False = Pass r" "nd_hash N b \<noteq> nd_hashGenesisBlock N"
  shows "\<exists>tree. hashSaplingAnchor (cr_view r) = sapling_root T tree \<and> (bu_is_null (sapling_root T tree) \<or> anchor_known V (cr_view r))"
proof -
  obtain b' prev best c0 where g: "GetBestBlock V view = (best, c0)" and body: "connect_body V mem tmem T ec_parse D fThreads N b' prev
       \<lparr>cr_view = c0, cr_index = pindex, cr_dirty = False, cr_files = files, cr_undo = None, cr_txindex = None\<rparr> False = Pass r"
    by (rule ConnectBlock_Pass [OF assms])
  obtain anchor c1 tree c2 st res1 where
    x: "GetBestAnchor V c0 = (anchor, c1)" "GetSaplingAnchorAt V tmem c1 anchor = (Some tree, c2)"
      "connect_txs V mem tmem T N (connect_args_of N b' pindex prev fThreads) True (block_vtx b') (connect_start b' pindex c2 tree) = Pass st"
      "write_undo ec_parse (nd_junk N) D \<lparr>vtxundo = cs_undo st\<rparr> (map_option phashBlock prev) \<lparr>cr_view = PushAnchor V (sapling_root T) tmem (cs_tree st) (cs_view st),
         cr_index = pindex, cr_dirty = False, cr_files = files, cr_undo = None, cr_txindex = None\<rparr> = Pass res1"
      "cr_view r = SetBestBlock (cr_view res1) (phashBlock (cr_index res1))"
    by (rule connect_body_Pass [OF body, unfolded connect_result.simps])
  let ?c = "PushAnchor V (sapling_root T) tmem (cs_tree st) (cs_view st)"
  have v: "anchor_frame (cr_view r) = anchor_frame ?c" using write_undo_Pass [OF x(4)] x(5) by (simp add: SetBestBlock_def)
  have "keeps (cs_view st) c2" using connect_txs_keeps [OF x(3)] by (simp add: connect_start_def)
  then have "anchors V (cs_view st) (best_anchor V (cs_view st)) = Some tree"
    using GetSaplingAnchorAt_keeps [OF x(2)] GetBestAnchor_keeps [OF x(1)] by simp
  then have "anchor_known V (cs_view st)" by (simp add: anchor_known_def)
  from PushAnchor_known [OF this, of "sapling_root T" "cs_tree st" tmem] have p: "bu_is_null (sapling_root T (cs_tree st)) \<or> anchor_known V ?c" by blast
  obtain q c3 where b: "GetBestAnchor V (cs_view st) = (q, c3)" by (cases "GetBestAnchor V (cs_view st)")
  have "hashSaplingAnchor ?c = sapling_root T (cs_tree st)" using b GetBestAnchor_keeps(3) [OF b] by (simp add: PushAnchor_def)
  then show ?thesis using p v anchor_known_frame [OF v] by (intro exI [of _ "cs_tree st"]) simp
qed

end

section \<open>Properties\<close>

text \<open>
  C1. Connecting and disconnecting a block.  Let the transactions of a block apply to the coins of the view in order (their inputs are there, their outputs and nullifiers
  are new; \<open>ConnectBlock\<close> does not test all of this after the initial download), and let \<open>ConnectBlock\<close> accept the
  block, which is not the genesis block.  Then the view holds the coins and nullifiers after applying all its transactions in order and points to the block.  If
  the block had no undo data and its Sapling root is not the null hash, the bytes written to the undo file read back, and with them \<open>DisconnectBlock\<close> succeeds,
  reports a clean result and restores the coins and nullifiers from before, with the given previous block and Sapling root as the current ones.\<close>

theorem connect_block_refines:
  assumes c: "tip_ok E view" and a: "block_applies (nd_junk N) (nHeight pindex) (block_vtx b) (tip_utxo E view) (cache_nf db_nf view)"
    and p: "ConnectBlock (db_view E) mem tmem T (env_ec_parse E) D fThreads N b pindex files view False = Pass r" "nd_hash N b \<noteq> nd_hashGenesisBlock N"
    and b: "block_vtx b = cb # txs" "IsCoinBase cb" "length txs \<le> MAX_SIZE" "pos_nFile (GetUndoPos pindex) = - 1"
    and s: "\<not> bu_is_null (hashSaplingAnchor (cr_view r))"
  shows "tip_ok E (cr_view r) \<and> tip_utxo E (cr_view r) = fold (apply_tx (nd_junk N) (nHeight pindex)) (block_vtx b) (tip_utxo E view) \<and>
    cache_nf db_nf (cr_view r) = fold apply_tx_nf (block_vtx b) (cache_nf db_nf view) \<and> hashBlock (cr_view r) = phashBlock pindex \<and>
    (\<exists>pos bytes u c2. cr_undo r = Some (pos, bytes) \<and>
       UndoReadFromDisk (env_ec_parse E) (env_ec_ser E) k (nd_junk N) (bytes @ rest) (fst (GetBestBlock (db_view E) view)) = Some u \<and>
       DisconnectBlock (db_view E) mem tmem (nd_junk N) (nd_consensus N) er (block_vtx b) (Some u) ph pr pH (cr_view r) = Inr (DISCONNECT_OK, c2) \<and>
       tip_ok E c2 \<and> tip_utxo E c2 = tip_utxo E view \<and> cache_nf db_nf c2 = cache_nf db_nf view \<and> hashBlock c2 = pH \<and>
       hashSaplingAnchor c2 = (if NetworkUpgradeActive (nd_consensus N) ph UPGRADE_V5_0 then pr else er))"
proof -
  note r = coins_db.ConnectBlock_refines [OF c a p]
  let ?bu = "block_undo (nd_junk N) (nHeight pindex) (block_vtx b) (tip_utxo E view)"
  obtain pos where u: "cr_undo r = Some (pos, UndoWriteToDisk (env_ec_parse E) (nd_junk N) \<lparr>vtxundo = tl ?bu\<rparr> (fst (GetBestBlock (db_view E) view)))"
    using r(5) b(4) by blast
  have ec: "ec_laws (env_ec_parse E) (env_ec_ser E)" using c by (simp add: cache_ok_def db_ok_def)
  have ok: "coin_ok coin" if "tip_utxo E view q = Some coin" for q coin using coins_db.cache_unspent [OF c that] by simp
  have "list_all txundo_ok ?bu" by (rule block_undo_ok [OF a]) (rule ok)
  then have "list_all txundo_ok (tl ?bu)" by (cases ?bu) simp_all
  moreover have "length (tl ?bu) \<le> MAX_SIZE" using b by simp
  ultimately have stored: "UndoReadFromDisk (env_ec_parse E) (env_ec_ser E) k (nd_junk N)
      (UndoWriteToDisk (env_ec_parse E) (nd_junk N) \<lparr>vtxundo = tl ?bu\<rparr> (fst (GetBestBlock (db_view E) view)) @ rest) (fst (GetBestBlock (db_view E) view)) =
      Some \<lparr>vtxundo = tl ?bu\<rparr>" by (intro UndoRead_Write [OF ec]) simp_all
  have "anchor_known (db_view E) (cr_view r)" using db_steady.ConnectBlock_anchor [OF p] s by auto
  note known = db_steady.DisconnectBlock_anchor [OF this]
  have "DisconnectBlock (db_view E) mem tmem (nd_junk N) (nd_consensus N) er (block_vtx b) (Some \<lparr>vtxundo = tl ?bu\<rparr>) ph pr pH (cr_view r) = Inl (LogicError NoBestAnchor) \<or>
      (\<exists>c2. DisconnectBlock (db_view E) mem tmem (nd_junk N) (nd_consensus N) er (block_vtx b) (Some \<lparr>vtxundo = tl ?bu\<rparr>) ph pr pH (cr_view r) = Inr (DISCONNECT_OK, c2) \<and>
         tip_ok E c2 \<and> tip_utxo E c2 = tip_utxo E view \<and> cache_nf db_nf c2 = cache_nf db_nf view \<and> hashBlock c2 = pH)"
    using coins_db.DisconnectBlock_restores [OF a [unfolded b(1)] _ b(2) r(1) r(2) [unfolded b(1)] r(3) [unfolded b(1)] refl] ok unfolding b(1) by blast
  then obtain c2 where d: "DisconnectBlock (db_view E) mem tmem (nd_junk N) (nd_consensus N) er (block_vtx b) (Some \<lparr>vtxundo = tl ?bu\<rparr>) ph pr pH (cr_view r) = Inr (DISCONNECT_OK, c2)"
      "tip_ok E c2" "tip_utxo E c2 = tip_utxo E view" "cache_nf db_nf c2 = cache_nf db_nf view" "hashBlock c2 = pH" using known by blast
  then show ?thesis using r(1-4) u stored db_steady.DisconnectBlock_root [OF d(1)] by blast
qed

text \<open>What the budget adds to the reward of a block: the payment of a superblock, or the total budget while the masternode data is not synced.\<close>

definition budget_allowance :: "node_state \<Rightarrow> int \<Rightarrow> CAmount" where
  "budget_allowance N height =
     (if \<not> nd_mnSynced N then (if height smod nBudgetCycleBlocks (nd_consensus N) < 100 then nd_GetTotalBudget N height else 0)
      else (case (if nd_spork N SPORK_13_ENABLE_SUPERBLOCKS then nd_GetExpectedPayeeAmount N height else None) of Some a \<Rightarrow> a | None \<Rightarrow> 0))"

text \<open>
  C6. The money a block creates.  Let \<open>ConnectBlock\<close> accept a block, not the genesis block, whose transactions apply to
  the coins and whose totals are far from the limits of 64 bits, on a node that is synced or not on the test network.  A proof-of-work block creates at most the block reward and what the
  budget allows at its height, over all its
  transactions together.  In a proof-of-stake block the coinbase and the coinstakes together create at most that amount; nothing is stated of its other transactions, whose
  values cancel out of the comparison.\<close>

theorem connect_block_amounts:
  assumes c: "tip_ok E view" and a: "block_applies (nd_junk N) (nHeight pindex) (block_vtx b) (tip_utxo E view) (cache_nf db_nf view)"
    and p: "ConnectBlock (db_view E) mem tmem T (env_ec_parse E) D fThreads N b pindex files view False = Pass r" "nd_hash N b \<noteq> nd_hashGenesisBlock N"
    and n: "nd_mnSynced N \<or> \<not> nd_fTestnet N" "\<bar>budget_allowance N (nHeight pindex)\<bar> < 2 ^ 60"
    and s: "\<bar>sum_out ordinary (block_vtx b)\<bar> < 2 ^ 60" "\<bar>sum_out minting (block_vtx b)\<bar> < 2 ^ 60"
      "\<bar>sum_in (nd_junk N) (nHeight pindex) ordinary (block_vtx b) (tip_utxo E view)\<bar> < 2 ^ 60"
      "\<bar>sum_in (nd_junk N) (nHeight pindex) minting (block_vtx b) (tip_utxo E view)\<bar> < 2 ^ 60"
  shows "(block_IsProofOfWork b \<longrightarrow> sum_out (\<lambda>_. True) (block_vtx b) - sum_in (nd_junk N) (nHeight pindex) (\<lambda>_. True) (block_vtx b) (tip_utxo E view)
      \<le> GetBlockValue (nd_fRegTest N) (nHeight pindex) + budget_allowance N (nHeight pindex)) \<and>
    (block_IsProofOfStake b \<longrightarrow> sum_out (\<lambda>tx. \<not> ordinary tx) (block_vtx b) -
      sum_in (nd_junk N) (nHeight pindex) (\<lambda>tx. \<not> ordinary tx) (block_vtx b) (tip_utxo E view)
      \<le> GetBlockValue (nd_fRegTest N) (nHeight pindex) + budget_allowance N (nHeight pindex))"
proof -
  let ?v = "GetBlockValue (nd_fRegTest N) (nHeight pindex)" and ?B = "budget_allowance N (nHeight pindex)"
  have w: "wrap64 x = x" if "\<bar>x\<bar> < 2 ^ 62" for x using that by (simp add: wrap64_def)
  have v: "\<bar>?v\<bar> < 2 ^ 60" using GetBlockValue_bounds [of "nd_fRegTest N" "nHeight pindex"] by (simp add: COIN_def)
  have valid: "m \<le> e + ?B" if "IsBlockValueValid N (nHeight pindex) e m" "\<bar>e\<bar> < 2 ^ 61 + 2 ^ 60" for e m
    using that n w [of "e + ?B"] by (auto simp: IsBlockValueValid_def budget_allowance_def split: if_splits option.splits)
  let ?e = "sum_in (nd_junk N) (nHeight pindex) ordinary (block_vtx b) (tip_utxo E view) - sum_out ordinary (block_vtx b)"
  let ?m = "sum_out minting (block_vtx b) - sum_in (nd_junk N) (nHeight pindex) minting (block_vtx b) (tip_utxo E view)"
  have e: "\<bar>?v + ?e\<bar> < 2 ^ 61 + 2 ^ 60" "wrap64 (?v + ?e) = ?v + ?e" "wrap64 ?m = ?m" using s v by (auto intro!: w)
  note q = coins_db.ConnectBlock_refines(6) [OF c a p, unfolded e(2,3)]
  have "?m \<le> (if block_IsProofOfWork b then ?v + ?e else ?v) + ?B" using q e(1) v by (intro valid) auto
  then show ?thesis by (simp add: block_IsProofOfWork_def sum_in_split sum_out_split split: if_splits)
qed

definition sample_root :: uint256 where
  "sample_root = replicate 8 1"

definition sample_view :: "'t \<Rightarrow> (leveldb, 't) CCoinsViewCache" where
  "sample_view t = (CCoinsViewCache_new (\<lambda>_. None))\<lparr>hashBlock := phashBlock (example_block 4 0 None None), hashSaplingAnchor := sample_root,
     cacheSaplingAnchors := [(sample_root, \<lparr>anchor_entered = True, anchor_tree = t, anchor_DIRTY = False\<rparr>)]\<rparr>"

definition sample_files :: block_files where
  "sample_files = \<lparr>vinfoBlockFile = [fileinfo_null], nLastBlockFile = 0, setDirtyFileInfo = {}\<rparr>"

abbreviation sample_connect :: "('p, 't) db_env \<Rightarrow> 't sapling_tree \<Rightarrow> 't \<Rightarrow> (leveldb, 't) connect_result outcome" where
  "sample_connect E T t \<equiv> ConnectBlock (db_view E) (\<lambda>_. 0) (\<lambda>_. 0) T (env_ec_parse E)
     \<lparr>disk_space = \<lambda>_. True, disk_undo_opens = True, disk_fTxIndex = True, disk_index_writes = True\<rparr> True sample_node sample_pow_block
     (example_block 5 0 (Some 0) None) sample_files (sample_view t) False"

abbreviation unit_tree :: "unit sapling_tree" where
  "unit_tree \<equiv> \<lparr>sapling_append = \<lambda>_ _. Some (), sapling_root = \<lambda>_. sample_root\<rparr>"

lemma sample_view_ok:
  "db_ok E (\<lambda>_. None) \<Longrightarrow> tip_ok E (sample_view t)" "tip_utxo E (sample_view t) = Map.empty" "cache_nf db_nf (sample_view t) = (\<lambda>_. False)"
proof -
  show "tip_ok E (sample_view t)" if "db_ok E (\<lambda>_. None)" using that by (simp add: sample_view_def cache_ok_def CCoinsViewCache_new_def)
  show "tip_utxo E (sample_view t) = Map.empty"
    by (rule ext) (simp add: sample_view_def cache_utxo_def CCoinsViewCache_new_def db_utxo_def CoinsDB_GetCoin_def db_Read_def)
  show "cache_nf db_nf (sample_view t) = (\<lambda>_. False)"
    by (rule ext) (simp add: sample_view_def cache_nf_def CCoinsViewCache_new_def db_nf_def CoinsDB_GetNullifier_def db_Read_def)
qed

lemma sample_best:
  "GetBestBlock (db_view E) (sample_view t) = ([4, 0, 0, 0, 0, 0, 0, 0], sample_view t)"
  "GetBestAnchor (db_view E) (sample_view t) = (sample_root, sample_view t)"
  "GetSaplingAnchorAt (db_view E) (\<lambda>_. 0) (sample_view t) sample_root = (Some t, sample_view t)"
proof -
  show "GetBestBlock (db_view E) (sample_view t) = ([4, 0, 0, 0, 0, 0, 0, 0], sample_view t)"
    by (simp add: GetBestBlock_def sample_view_def example_block_def)
  show "GetBestAnchor (db_view E) (sample_view t) = (sample_root, sample_view t)"
    "GetSaplingAnchorAt (db_view E) (\<lambda>_. 0) (sample_view t) sample_root = (Some t, sample_view t)"
    by (simp_all add: GetBestAnchor_def GetSaplingAnchorAt_def sample_view_def sample_root_def numeral_eq_Suc)
qed

lemma sample_coinbase_facts:
  "IsCoinBase sample_coinbase" "GetLegacySigOpCount sample_coinbase = 0" "GetValueOut sample_coinbase = Inr 7" "\<not> IsShieldedTx sample_coinbase"
proof -
  show "IsCoinBase sample_coinbase" by (simp add: sample_coinbase_defs IsCoinBase_def outpoint_IsNull_def base_uint_zero_def numeral_eq_Suc)
  show "GetLegacySigOpCount sample_coinbase = 0"
    by (simp add: GetLegacySigOpCount_def sample_coinbase_defs GetSigOpCount_def sigop_loop.simps)
  show "GetValueOut sample_coinbase = Inr 7" "\<not> IsShieldedTx sample_coinbase"
    by (simp_all add: sample_coinbase_defs GetValueOut_def IsShieldedTx_def hasSaplingData_def isSaplingVersion_def shielded_balance_def wrap64_def)
qed

lemma sample_applies: "block_applies junk 5 [sample_coinbase] Map.empty (\<lambda>_. False)"
proof -
  have "tx_nullifiers sample_coinbase = {}" by (simp add: tx_nullifiers_def sample_coinbase_defs)
  moreover have "list_all (\<lambda>o1. coin_ok (Coin_new o1 5 b cs)) (vout sample_coinbase)" "length (vout sample_coinbase) = 1" for b cs
    by (simp_all add: sample_coinbase_defs coin_ok_def Coin_new_def MAX_SCRIPT_SIZE_def)
  ultimately show ?thesis using sample_coinbase_facts(1) by (simp add: tx_applies_def)
qed

lemma sample_hash: "nd_hash sample_node sample_pow_block \<noteq> nd_hashGenesisBlock sample_node"
proof -
  have "WIDTH (nd_hash sample_node sample_pow_block) = 8"
    by (simp add: header_GetHash_def sample_pow_block_def block_null_def block_of_header_def CBlockHeader.defs header_null_def SerializeHash_def)
  then show ?thesis by (auto simp: sample_node_def)
qed

text \<open>The loop over the only transaction, the checks after it, and the write of the undo data.\<close>

lemma sample_connect_txs:
  assumes "tip_ok E (cs_view st)" "tip_utxo E (cs_view st) = Map.empty" "cache_nf db_nf (cs_view st) = (\<lambda>_. False)"
    and "ca_height A = 5" "\<not> ca_fSaplingMaintenance A" "cs_nSigOps st = 0"
  shows "\<exists>st'. connect_txs (db_view E) (\<lambda>_. 0) tmem T sample_node A True [sample_coinbase] st = Pass st' \<and> cs_nFees st' = cs_nFees st \<and>
    cs_nValueIn st' = cs_nValueIn st \<and> cs_nValueOut st' = wrap64 (cs_nValueOut st + 7) \<and> cs_checks st' = cs_checks st"
proof -
  let ?st = "st\<lparr>cs_nSigOps := 0, cs_view := cs_view st\<rparr>"
  have "tx_applies (nd_junk sample_node) 5 sample_coinbase Map.empty (\<lambda>_. False)" using sample_applies by simp
  then obtain u c where "UpdateCoins (db_view E) (\<lambda>_. 0) (nd_junk sample_node) sample_coinbase (cs_view st) 5 False = Inr (u, c)"
    using coins_db.UpdateCoins_refines [OF assms(1), of "nd_junk sample_node" 5 sample_coinbase "\<lambda>_. 0" False] assms(2,3) by auto
  then show ?thesis using assms(4-6)
    by (simp add: connect_tx_def sample_coinbase_facts connect_inputs_exist_def connect_values_def tx_commitments_def MAX_BLOCK_SIGOPS_CURRENT_def Let_def)
qed

lemma sample_final:
  assumes "cs_nFees st = 0" "cs_nValueIn st = 0" "cs_nValueOut st = 7" "cs_checks st = []"
  shows "connect_final sample_node T (sample_pow_block\<lparr>fChecked := x\<rparr>) 5 st = Pass ()"
proof -
  have w: "block_IsProofOfWork (sample_pow_block\<lparr>fChecked := x\<rparr>)"
    by (simp add: block_IsProofOfWork_def block_IsProofOfStake_def vtx_proof_of_stake_def sample_pow_block_def)
  have u: "\<not> NetworkUpgradeActive regtest_params 5 UPGRADE_V5_0" "\<not> NetworkUpgradeActive regtest_params 5 UPGRADE_POS"
    by (simp_all add: NetworkUpgradeActive_def NetworkUpgradeState_def regtest_params_def upgrade_def)
  have v: "7 \<le> GetBlockValue True 5" by (simp add: GetBlockValue_def COIN_def)
  have k: "wrap64 (GetBlockValue True 5) = GetBlockValue True 5" using GetBlockValue_bounds [of True 5] by (simp add: wrap64_def COIN_def)
  show ?thesis using assms v w u k
    by (simp add: connect_final_def sample_node_def IsBlockValueValid_def IsBlockPayeeValid_def Let_def wrap64_def)
qed

lemma sample_write_undo:
  assumes "cr_index r = example_block 5 0 (Some 0) None" "cr_files r = sample_files" "disk_undo_opens D" "disk_space D = (\<lambda>_. True)"
  shows "\<exists>r'. write_undo ec junk D u (Some h) r = Pass r'"
  using assms
  by (simp add: write_undo_def example_block_def IsValid_def BLOCK_VALID_MASK_def BLOCK_VALID_SCRIPTS_def BLOCK_FAILED_MASK_def GetUndoPos_def
      BLOCK_HAVE_UNDO_def null_block_pos_def FindUndoPos_def sample_files_def RaiseValidity_def Let_def)

lemma sample_connected:
  assumes "db_ok E (\<lambda>_. None)"
  shows "\<exists>r. sample_connect E T t = Pass r"
proof -
  let ?b = "sample_pow_block\<lparr>fChecked := True\<rparr>" and ?i = "example_block 5 0 (Some 0) None"
  let ?A = "connect_args_of sample_node ?b ?i (Some (example_block 4 0 None None)) True" and ?st = "connect_start ?b ?i (sample_view t) t"
  have n: "nd_index sample_node 0 = Some (example_block 4 0 None None)" "nd_consensus sample_node = regtest_params" by (simp_all add: sample_node_def)
  have v: "block_vtx ?b = [sample_coinbase]" "\<not> block_IsProofOfStake sample_pow_block"
    by (simp_all add: sample_pow_block_def block_IsProofOfStake_def vtx_proof_of_stake_def)
  have u: "\<not> NetworkUpgradeActive regtest_params 5 UPGRADE_POS"
    by (simp add: NetworkUpgradeActive_def NetworkUpgradeState_def regtest_params_def upgrade_def)
  have i: "nHeight ?i = 5" "pprev ?i = Some 0" "nChainSaplingValue ?i = None"
    "phashBlock (example_block 4 0 None None) = [4, 0, 0, 0, 0, 0, 0, 0]" by (simp_all add: example_block_def)
  have A: "ca_height ?A = 5" "\<not> ca_fSaplingMaintenance ?A"
    by (simp_all add: connect_args_of_def Let_def i sample_node_def GetSporkValue_def sporkDefs_def header_GetBlockTime_def sample_pow_block_def
        block_null_def block_of_header_def CBlockHeader.defs header_null_def)
  have st: "cs_view ?st = sample_view t" "cs_nSigOps ?st = 0" by (simp_all add: connect_start_def)
  obtain st where st': "connect_txs (db_view E) (\<lambda>_. 0) (\<lambda>_. 0) T sample_node ?A True
      [sample_coinbase] ?st = Pass st" "cs_nFees st = 0" "cs_nValueIn st = 0" "cs_nValueOut st = 7" "cs_checks st = []"
    using sample_connect_txs [of E ?st ?A "\<lambda>_. 0" T] sample_view_ok(1) [OF assms] A st
    by (auto simp: sample_view_ok(2,3) connect_start_def wrap64_def simp del: connect_txs.simps)
  note f = sample_final [OF st'(2-5)]
  let ?r = "\<lparr>cr_view = PushAnchor (db_view E) (sapling_root T) (\<lambda>_. 0) (cs_tree st) (cs_view st), cr_index = ?i, cr_dirty = False,
      cr_files = sample_files, cr_undo = None, cr_txindex = None\<rparr>"
  have "\<exists>r. write_undo (env_ec_parse E) (nd_junk sample_node)
      \<lparr>disk_space = \<lambda>_. True, disk_undo_opens = True, disk_fTxIndex = True, disk_index_writes = True\<rparr> \<lparr>vtxundo = cs_undo st\<rparr> (Some [4, 0, 0, 0, 0, 0, 0, 0]) ?r = Pass r"
    by (rule sample_write_undo) simp_all
  then show ?thesis
    by (simp add: ConnectBlock_def connect_body_def sample_block_accepted i n u [simplified] v sample_hash sample_best st' f Let_def
        del: connect_txs.simps) auto
qed

theorem connect_block_refines_witness:
  "\<exists>r pos bytes u c2. sample_connect example_env unit_tree () = Pass r \<and> hashBlock (cr_view r) = [5, 0, 0, 0, 0, 0, 0, 0] \<and> cr_undo r = Some (pos, bytes) \<and>
     UndoReadFromDisk toy_parse toy_ser 0 (replicate 64 0) bytes [4, 0, 0, 0, 0, 0, 0, 0] = Some u \<and>
     DisconnectBlock (db_view example_env) (\<lambda>_. 0) (\<lambda>_. 0) (replicate 64 0) regtest_params (base_uint_zero 8) [sample_coinbase] (Some u) 4 (base_uint_zero 8)
       [4, 0, 0, 0, 0, 0, 0, 0] (cr_view r) = Inr (DISCONNECT_OK, c2) \<and>
     tip_utxo example_env c2 = Map.empty \<and> hashBlock c2 = [4, 0, 0, 0, 0, 0, 0, 0]"
proof -
  obtain r where r: "sample_connect example_env unit_tree () = Pass r" using sample_connected [OF example_db_ok] by blast
  have v: "block_vtx sample_pow_block = [sample_coinbase]" by (simp add: sample_pow_block_def)
  have j: "nd_junk sample_node = replicate 64 0" "nHeight (example_block 5 0 (Some 0) None) = 5" "phashBlock (example_block 5 0 (Some 0) None) = [5, 0, 0, 0, 0, 0, 0, 0]"
    "pos_nFile (GetUndoPos (example_block 5 0 (Some 0) None)) = - 1" "env_ec_parse example_env = toy_parse" "env_ec_ser example_env = toy_ser"
    "nd_consensus sample_node = regtest_params"
    by (simp_all add: sample_node_def example_block_def GetUndoPos_def null_block_pos_def example_env_def)
  have a: "block_applies (nd_junk sample_node) (nHeight (example_block 5 0 (Some 0) None)) (block_vtx sample_pow_block) (tip_utxo example_env (sample_view ()))
      (cache_nf db_nf (sample_view ()))" unfolding v j(2) sample_view_ok(2,3) by (rule sample_applies)
  have n: "\<not> bu_is_null (hashSaplingAnchor (cr_view r))"
    using db_steady.ConnectBlock_anchor [OF r sample_hash] by (simp add: sample_root_def numeral_eq_Suc)
  from connect_block_refines [OF sample_view_ok(1) [OF example_db_ok] a r sample_hash v sample_coinbase_facts(1) _ j(4) n, where k = 0 and rest = "[]"
      and er = "base_uint_zero 8" and ph = 4 and pr = "base_uint_zero 8" and pH = "[4, 0, 0, 0, 0, 0, 0, 0]"]
  show ?thesis unfolding j sample_best fst_conv append_Nil2 list.size v sample_view_ok(2) using r unfolding j by blast
qed

theorem connect_block_amounts_witness:
  "\<exists>r. sample_connect example_env unit_tree () = Pass r \<and> tip_utxo example_env (sample_view ()) = Map.empty \<and>
     sum_out (\<lambda>_. True) (block_vtx sample_pow_block) - sum_in (nd_junk sample_node) 5 (\<lambda>_. True) (block_vtx sample_pow_block) Map.empty \<le>
       GetBlockValue True 5 + budget_allowance sample_node 5 \<and>
     budget_allowance sample_node 5 = 0 \<and> GetBlockValue True 5 = 25000000000"
proof -
  obtain r where r: "sample_connect example_env unit_tree () = Pass r" using sample_connected [OF example_db_ok] by blast
  have v: "block_vtx sample_pow_block = [sample_coinbase]" "block_IsProofOfWork sample_pow_block"
    by (simp_all add: sample_pow_block_def block_IsProofOfWork_def block_IsProofOfStake_def vtx_proof_of_stake_def)
  have j: "nd_junk sample_node = replicate 64 0" "nHeight (example_block 5 0 (Some 0) None) = 5" "nd_fRegTest sample_node" "nd_mnSynced sample_node"
    "budget_allowance sample_node 5 = 0"
    by (simp_all add: sample_node_def example_block_def IsSporkActive_def GetSporkValue_def sporkDefs_def budget_allowance_def)
  have g: "GetBlockValue True 5 = 25000000000" by (simp add: GetBlockValue_def COIN_def)
  have a: "block_applies (nd_junk sample_node) (nHeight (example_block 5 0 (Some 0) None)) (block_vtx sample_pow_block) (tip_utxo example_env (sample_view ()))
      (cache_nf db_nf (sample_view ()))" unfolding v j(2) sample_view_ok(2,3) by (rule sample_applies)
  from connect_block_amounts [OF sample_view_ok(1) [OF example_db_ok] a r sample_hash] show ?thesis
    unfolding v(1) sample_view_ok(2) j(1,2) using r v(2) j(3,4,5) g sample_coinbase_facts
    by (simp add: ordinary_def value_out_def value_in_def sample_view_ok(2))
qed

text \<open>
  C39. A transaction of a block that spends a coin the view does not have, when scripts are checked on several threads.  During the initial download
  \<open>ConnectBlock\<close> rejects it with \<open>bad-txns-inputs-missingorspent\<close>.  After the initial download the existence of the inputs is not
  tested any more, because that test is the \<open>else\<close> of the maintenance mode, and the process ends in an exception or a failed assertion.\<close>

theorem missing_inputs_stop_the_node:
  assumes "tip_ok E (cs_view st)" "list_all (\<lambda>i. outpoint_ok (prevout i)) (vin tx)"
    and "\<not> list_all (\<lambda>i. tip_utxo E (cs_view st) (prevout i) \<noteq> None) (vin tx)"
    and "\<not> IsCoinBase tx" "ca_fScriptChecks A" "ca_queue A" "(cs_nSigOps st + GetLegacySigOpCount tx) mod 2 ^ 32 \<le> MAX_BLOCK_SIGOPS_CURRENT"
  shows "(nd_fInitialBlockDownload N \<longrightarrow>
      connect_tx (db_view E) mem tmem T N A first tx st = Invalid 100 ''bad-txns-inputs-missingorspent'' False) \<and>
    (\<not> nd_fInitialBlockDownload N \<longrightarrow> \<not> (ca_fSaplingMaintenance A \<and> IsShieldedTx tx) \<longrightarrow>
      (\<exists>e. connect_tx (db_view E) mem tmem T N A first tx st = Crash e))"
  using coins_db.connect_tx_missing [OF assms] by blast

theorem missing_inputs_stop_the_node_witness:
  "\<exists>e. connect_tx (db_view example_env) (\<lambda>_. 0) (\<lambda>_. 0) unit_tree sample_node
     \<lparr>ca_height = 5, ca_flags = 0, ca_fScriptChecks = True, ca_queue = True, ca_fSaplingMaintenance = False\<rparr> False example_transfer
     (connect_start sample_pow_block (example_block 5 0 (Some 0) None) (sample_view ()) ()) = Crash e"
proof -
  let ?st = "connect_start sample_pow_block (example_block 5 0 (Some 0) None) (sample_view ()) ()"
  let ?A = "\<lparr>ca_height = 5, ca_flags = 0, ca_fScriptChecks = True, ca_queue = True, ca_fSaplingMaintenance = False\<rparr>"
  have v: "cs_view ?st = sample_view ()" "cs_nSigOps ?st = 0" by (simp_all add: connect_start_def)
  have s: "GetLegacySigOpCount example_transfer = 0"
    by (simp add: GetLegacySigOpCount_def example_transfer_def txin_new_def txout_new_def GetSigOpCount_def sigop_loop.simps push_size_def)
  have "tip_ok example_env (cs_view ?st)" "list_all (\<lambda>i. outpoint_ok (prevout i)) (vin example_transfer)"
    "\<not> list_all (\<lambda>i. tip_utxo example_env (cs_view ?st) (prevout i) \<noteq> None) (vin example_transfer)" "\<not> IsCoinBase example_transfer"
    by (simp_all add: v sample_view_ok example_db_ok example_transfer_def txin_new_def outpoint_ok_def example_source_def IsCoinBase_def outpoint_IsNull_def)
  from missing_inputs_stop_the_node [OF this, of ?A sample_node] show ?thesis using s v by (simp add: sample_node_def MAX_BLOCK_SIGOPS_CURRENT_def)
qed

end
