(* ===== verification/SaplingTree.thy ===== *)
theory SaplingTree
  imports Transaction
begin

unbundle bit_operations_syntax

text \<open>
  The incremental Merkle tree of note commitments and its witnesses: \<open>src/src/sapling/incrementalmerkletree.h\<close> and \<open>.cpp\<close>, with the
  conversions of \<open>src/src/sapling/sapling_util.cpp\<close>.  The class template is polymorphic in the hashes, and the hash class (its \<open>combine\<close>, which
  calls librustzcash, and its table of empty roots) is a record.  The specification is the root of the complete binary tree over the leaves,
  padded with empty leaves.
\<close>

section \<open>The tree\<close>

record 'h merkle_hash =
  hash_combine :: "'h \<Rightarrow> 'h \<Rightarrow> nat \<Rightarrow> 'h"
  hash_EmptyRoot :: "nat \<Rightarrow> 'h"

record 'h IncrementalMerkleTree =
  tree_left :: "'h option"
  tree_right :: "'h option"
  tree_parents :: "'h option list"

definition tree_new :: "'h IncrementalMerkleTree" where
  "tree_new = \<lparr>tree_left = None, tree_right = None, tree_parents = []\<rparr>"

datatype tree_error = TooManyParents | NonCanonicalParent | RightWithoutLeft | ParentsWithoutLeft

definition wfcheck :: "nat \<Rightarrow> 'h IncrementalMerkleTree \<Rightarrow> tree_error + unit" where
  "wfcheck Depth t =
     (if length (tree_parents t) \<ge> Depth then Inl TooManyParents
      else if tree_parents t \<noteq> [] \<and> last (tree_parents t) = None then Inl NonCanonicalParent
      else if tree_left t = None \<and> tree_right t \<noteq> None then Inl RightWithoutLeft
      else if tree_left t = None \<and> length (tree_parents t) > 0 then Inl ParentsWithoutLeft
      else Inr ())"

text \<open>\<open>None\<close> is the exception \<open>tree has no cursor\<close>.\<close>

definition tree_last :: "'h IncrementalMerkleTree \<Rightarrow> 'h option" where
  "tree_last t = (case tree_right t of Some r \<Rightarrow> Some r | None \<Rightarrow> tree_left t)"

text \<open>\<open>1 << (i + 1)\<close> is a 32-bit signed number before it is added to the \<open>size_t\<close>.\<close>

definition tree_size :: "'h IncrementalMerkleTree \<Rightarrow> u64" where
  "tree_size t = (if tree_left t \<noteq> None then 1 else 0) + (if tree_right t \<noteq> None then 1 else 0) +
     sum_list (map (\<lambda>i. if tree_parents t ! i \<noteq> None then scast (push_bit (i + 1) 1 :: u32) else 0) [0..<length (tree_parents t)])"

definition is_complete :: "nat \<Rightarrow> 'h IncrementalMerkleTree \<Rightarrow> bool" where
  "is_complete depth t \<longleftrightarrow> tree_left t \<noteq> None \<and> tree_right t \<noteq> None \<and> length (tree_parents t) + 1 = depth \<and>
     list_all (\<lambda>p. p \<noteq> None) (tree_parents t)"

text \<open>The loop of \<open>append\<close> from index \<open>i\<close> on.\<close>

fun tree_propagate :: "'h merkle_hash \<Rightarrow> nat \<Rightarrow> nat \<Rightarrow> 'h \<Rightarrow> 'h option list \<Rightarrow> 'h option list" where
  "tree_propagate H Depth i combined [] = (if i < Depth then [Some combined] else [])"
| "tree_propagate H Depth i combined (p # ps) =
     (if i < Depth
      then (case p of
              Some h \<Rightarrow> None # tree_propagate H Depth (Suc i) (hash_combine H h combined (i + 1)) ps
            | None \<Rightarrow> Some combined # ps)
      else p # ps)"

text \<open>\<open>None\<close> is the exception \<open>tree is full\<close>.\<close>

definition tree_append :: "'h merkle_hash \<Rightarrow> nat \<Rightarrow> 'h IncrementalMerkleTree \<Rightarrow> 'h \<Rightarrow> 'h IncrementalMerkleTree option" where
  "tree_append H Depth t obj =
     (if is_complete Depth t then None
      else case tree_left t of
        None \<Rightarrow> Some (t\<lparr>tree_left := Some obj\<rparr>)
      | Some l \<Rightarrow> (case tree_right t of
            None \<Rightarrow> Some (t\<lparr>tree_right := Some obj\<rparr>)
          | Some r \<Rightarrow> Some (t\<lparr>tree_left := Some obj, tree_right := None,
              tree_parents := tree_propagate H Depth 0 (hash_combine H l r 0) (tree_parents t)\<rparr>)))"

fun depth_of_parents :: "nat \<Rightarrow> nat \<Rightarrow> 'h option list \<Rightarrow> nat" where
  "depth_of_parents d skip [] = d + skip"
| "depth_of_parents d skip (p # ps) =
     (if p = None then (if skip > 0 then depth_of_parents (Suc d) (skip - 1) ps else d) else depth_of_parents (Suc d) skip ps)"

definition next_depth :: "'h IncrementalMerkleTree \<Rightarrow> nat \<Rightarrow> nat" where
  "next_depth t skip =
     (if tree_left t = None \<and> skip = 0 then 0
      else let skip = (if tree_left t = None then skip - 1 else skip) in
        if tree_right t = None \<and> skip = 0 then 0
        else let skip = (if tree_right t = None then skip - 1 else skip) in depth_of_parents 1 skip (tree_parents t))"

section \<open>Roots and paths\<close>

fun filler_next :: "'h merkle_hash \<Rightarrow> nat \<Rightarrow> 'h list \<Rightarrow> 'h \<times> 'h list" where
  "filler_next H depth [] = (hash_EmptyRoot H depth, [])"
| "filler_next H depth (h # queue) = (h, queue)"

function root_fill :: "'h merkle_hash \<Rightarrow> nat \<Rightarrow> nat \<Rightarrow> 'h \<Rightarrow> 'h list \<Rightarrow> 'h" where
  "root_fill H depth d root queue =
     (if d < depth then (case filler_next H d queue of (h, queue') \<Rightarrow> root_fill H depth (Suc d) (hash_combine H root h d) queue') else root)"
  by auto

termination by (relation "measure (\<lambda>(H, depth, d, root, queue). depth - d)") auto

declare root_fill.simps [simp del]

fun root_parents :: "'h merkle_hash \<Rightarrow> nat \<Rightarrow> nat \<Rightarrow> 'h \<Rightarrow> 'h option list \<Rightarrow> 'h list \<Rightarrow> 'h" where
  "root_parents H depth d root [] queue = root_fill H depth d root queue"
| "root_parents H depth d root (Some p # ps) queue = root_parents H depth (Suc d) (hash_combine H p root d) ps queue"
| "root_parents H depth d root (None # ps) queue =
     (case filler_next H d queue of (h, queue') \<Rightarrow> root_parents H depth (Suc d) (hash_combine H root h d) ps queue')"

definition leaf_or_filler :: "'h merkle_hash \<Rightarrow> 'h option \<Rightarrow> 'h list \<Rightarrow> 'h \<times> 'h list" where
  "leaf_or_filler H leaf queue = (case leaf of Some h \<Rightarrow> (h, queue) | None \<Rightarrow> filler_next H 0 queue)"

definition imt_root :: "'h merkle_hash \<Rightarrow> nat \<Rightarrow> 'h list \<Rightarrow> 'h IncrementalMerkleTree \<Rightarrow> 'h" where
  "imt_root H depth queue t =
     (case leaf_or_filler H (tree_left t) queue of (l, queue1) \<Rightarrow>
      case leaf_or_filler H (tree_right t) queue1 of (r, queue2) \<Rightarrow>
        root_parents H depth 1 (hash_combine H l r 0) (tree_parents t) queue2)"

function path_fill :: "'h merkle_hash \<Rightarrow> nat \<Rightarrow> nat \<Rightarrow> 'h list \<Rightarrow> (bool \<times> 'h) list" where
  "path_fill H Depth d queue =
     (if d < Depth then (case filler_next H d queue of (h, queue') \<Rightarrow> (False, h) # path_fill H Depth (Suc d) queue') else [])"
  by auto

termination by (relation "measure (\<lambda>(H, Depth, d, queue). Depth - d)") auto

declare path_fill.simps [simp del]

fun path_parents :: "'h merkle_hash \<Rightarrow> nat \<Rightarrow> nat \<Rightarrow> 'h option list \<Rightarrow> 'h list \<Rightarrow> (bool \<times> 'h) list" where
  "path_parents H Depth d [] queue = path_fill H Depth d queue"
| "path_parents H Depth d (Some p # ps) queue = (True, p) # path_parents H Depth (Suc d) ps queue"
| "path_parents H Depth d (None # ps) queue =
     (case filler_next H d queue of (h, queue') \<Rightarrow> (False, h) # path_parents H Depth (Suc d) ps queue')"

text \<open>The levels of a path from the leaf up; \<open>None\<close> is the exception for the beginning of the tree.\<close>

definition path_levels :: "'h merkle_hash \<Rightarrow> nat \<Rightarrow> 'h list \<Rightarrow> 'h IncrementalMerkleTree \<Rightarrow> (bool \<times> 'h) list option" where
  "path_levels H Depth queue t =
     (case tree_left t of
        None \<Rightarrow> None
      | Some l \<Rightarrow> Some (case tree_right t of
            Some r \<Rightarrow> (True, l) # path_parents H Depth 1 (tree_parents t) queue
          | None \<Rightarrow> (case filler_next H 0 queue of (h, queue') \<Rightarrow> (False, h) # path_parents H Depth 1 (tree_parents t) queue')))"

record MerklePath =
  authentication_path :: "bool list list"
  path_index :: "bool list"

definition convertBytesVectorToVector :: "byte list \<Rightarrow> bool list" where
  "convertBytesVectorToVector bytes = concat (map (\<lambda>c. map (\<lambda>j. bit c (7 - j)) [0..<8]) bytes)"

definition tree_path :: "('h \<Rightarrow> byte list) \<Rightarrow> 'h merkle_hash \<Rightarrow> nat \<Rightarrow> 'h list \<Rightarrow> 'h IncrementalMerkleTree \<Rightarrow> MerklePath option" where
  "tree_path bytes H Depth queue t = map_option (\<lambda>levels.
     \<lparr>authentication_path = rev (map (\<lambda>(_, h). convertBytesVectorToVector (bytes h)) levels), path_index = rev (map fst levels)\<rparr>)
     (path_levels H Depth queue t)"

section \<open>Witnesses\<close>

record 'h IncrementalWitness =
  wit_tree :: "'h IncrementalMerkleTree"
  wit_filled :: "'h list"
  wit_cursor :: "'h IncrementalMerkleTree option"
  wit_cursor_depth :: nat

definition witness_new :: "'h IncrementalMerkleTree \<Rightarrow> 'h IncrementalWitness" where
  "witness_new t = \<lparr>wit_tree = t, wit_filled = [], wit_cursor = None, wit_cursor_depth = 0\<rparr>"

definition partial_path :: "'h merkle_hash \<Rightarrow> 'h IncrementalWitness \<Rightarrow> 'h list" where
  "partial_path H w = wit_filled w @ (case wit_cursor w of None \<Rightarrow> [] | Some c \<Rightarrow> [imt_root H (wit_cursor_depth w) [] c])"

definition witness_root :: "'h merkle_hash \<Rightarrow> nat \<Rightarrow> 'h IncrementalWitness \<Rightarrow> 'h" where
  "witness_root H Depth w = imt_root H Depth (partial_path H w) (wit_tree w)"

definition witness_path :: "('h \<Rightarrow> byte list) \<Rightarrow> 'h merkle_hash \<Rightarrow> nat \<Rightarrow> 'h IncrementalWitness \<Rightarrow> MerklePath option" where
  "witness_path bytes H Depth w = tree_path bytes H Depth (partial_path H w) (wit_tree w)"

definition witness_element :: "'h IncrementalWitness \<Rightarrow> 'h option" where
  "witness_element w = tree_last (wit_tree w)"

definition witness_position :: "'h IncrementalWitness \<Rightarrow> u64" where
  "witness_position w = tree_size (wit_tree w) - 1"

definition witness_append :: "'h merkle_hash \<Rightarrow> nat \<Rightarrow> 'h IncrementalWitness \<Rightarrow> 'h \<Rightarrow> 'h IncrementalWitness option" where
  "witness_append H Depth w obj =
     (case wit_cursor w of
        Some c \<Rightarrow> (case tree_append H Depth c obj of
            None \<Rightarrow> None
          | Some c' \<Rightarrow>
              if is_complete (wit_cursor_depth w) c'
              then Some (w\<lparr>wit_filled := wit_filled w @ [imt_root H (wit_cursor_depth w) [] c'], wit_cursor := None\<rparr>)
              else Some (w\<lparr>wit_cursor := Some c'\<rparr>))
      | None \<Rightarrow>
          let d = next_depth (wit_tree w) (length (wit_filled w)); w = w\<lparr>wit_cursor_depth := d\<rparr>
          in if d \<ge> Depth then None
             else if d = 0 then Some (w\<lparr>wit_filled := wit_filled w @ [obj]\<rparr>)
             else map_option (\<lambda>c. w\<lparr>wit_cursor := Some c\<rparr>) (tree_append H Depth tree_new obj))"

section \<open>Formats\<close>

definition Serialize_tree :: "('h \<Rightarrow> byte list) \<Rightarrow> nat \<Rightarrow> 'h IncrementalMerkleTree \<Rightarrow> tree_error + byte list" where
  "Serialize_tree ser Depth t = (case wfcheck Depth t of
       Inl e \<Rightarrow> Inl e
     | Inr _ \<Rightarrow> Inr (Serialize_optional ser (tree_left t) @ Serialize_optional ser (tree_right t) @
         Serialize_vector (Serialize_optional ser) (tree_parents t)))"

definition Unserialize_tree :: "'h reader \<Rightarrow> nat \<Rightarrow> nat \<Rightarrow> (tree_error + 'h IncrementalMerkleTree) reader" where
  "Unserialize_tree rd k Depth =
     rbind (Unserialize_optional rd) (\<lambda>l. rbind (Unserialize_optional rd) (\<lambda>r. rbind (Unserialize_vector (Unserialize_optional rd) k) (\<lambda>ps.
       let t = \<lparr>tree_left = l, tree_right = r, tree_parents = ps\<rparr>
       in rreturn (case wfcheck Depth t of Inl e \<Rightarrow> Inl e | Inr _ \<Rightarrow> Inr t))))"

section \<open>The Sapling tree\<close>

definition SAPLING_INCREMENTAL_MERKLE_TREE_DEPTH :: nat where
  "SAPLING_INCREMENTAL_MERKLE_TREE_DEPTH = 32"

text \<open>The array has 65 elements, of which 63 are given.\<close>

definition pedersen_empty_roots :: "byte list list" where
  "pedersen_empty_roots = [
    [1, 0, 0, 0, 0, 0, 0, 0, 0, 0, 0, 0, 0, 0, 0, 0, 0, 0, 0, 0, 0, 0, 0, 0, 0, 0, 0, 0, 0, 0, 0, 0],
    [129, 125, 227, 106, 178, 213, 127, 235, 7, 118, 52, 188, 167, 120, 25, 200, 224, 189, 41, 140, 4, 246, 254, 208, 230, 168, 60, 193, 53, 108, 161, 85],
    [255, 233, 252, 3, 241, 139, 23, 108, 153, 136, 6, 67, 159, 240, 187, 138, 209, 147, 175, 219, 39, 178, 204, 188, 136, 133, 105, 22, 221, 128, 78, 52],
    [216, 40, 51, 134, 239, 46, 240, 126, 189, 187, 67, 131, 193, 42, 115, 154, 149, 58, 77, 110, 13, 111, 177, 19, 154, 64, 54, 214, 147, 191, 187, 108],
    [225, 16, 222, 101, 201, 7, 185, 222, 164, 174, 11, 216, 58, 75, 10, 81, 190, 161, 117, 100, 106, 100, 193, 43, 76, 159, 147, 27, 44, 179, 27, 73],
    [145, 45, 130, 178, 194, 188, 162, 49, 247, 30, 252, 246, 23, 55, 251, 240, 160, 139, 239, 160, 65, 98, 21, 174, 239, 83, 232, 187, 109, 35, 57, 10],
    [138, 201, 207, 156, 57, 30, 63, 212, 40, 145, 210, 114, 56, 168, 26, 138, 92, 29, 58, 114, 177, 188, 190, 168, 207, 68, 165, 140, 231, 56, 150, 19],
    [214, 198, 57, 172, 36, 180, 107, 209, 147, 65, 201, 27, 19, 253, 202, 179, 21, 129, 221, 175, 127, 20, 17, 51, 106, 39, 31, 61, 10, 165, 40, 19],
    [123, 153, 171, 220, 55, 48, 153, 28, 201, 39, 71, 39, 215, 216, 45, 40, 203, 121, 78, 219, 199, 3, 75, 79, 0, 83, 255, 124, 75, 104, 4, 68],
    [67, 255, 84, 87, 241, 59, 146, 107, 97, 223, 85, 45, 78, 64, 46, 230, 220, 20, 99, 249, 154, 83, 95, 154, 113, 52, 57, 38, 77, 91, 97, 107],
    [186, 73, 182, 89, 251, 208, 183, 51, 66, 17, 234, 106, 157, 157, 241, 133, 199, 87, 231, 10, 168, 29, 165, 98, 251, 145, 43, 132, 244, 155, 206, 114],
    [71, 119, 200, 119, 106, 59, 30, 105, 183, 58, 98, 250, 112, 31, 164, 247, 166, 40, 45, 154, 238, 44, 122, 107, 130, 231, 147, 125, 112, 129, 194, 60],
    [236, 103, 113, 20, 194, 114, 6, 245, 222, 188, 28, 30, 214, 111, 149, 226, 177, 136, 93, 165, 183, 190, 61, 115, 107, 29, 233, 133, 121, 71, 48, 72],
    [27, 119, 218, 196, 210, 79, 183, 37, 140, 60, 82, 135, 4, 197, 148, 48, 182, 48, 113, 139, 236, 72, 100, 33, 131, 112, 33, 207, 117, 218, 182, 81],
    [189, 116, 178, 90, 172, 185, 35, 120, 168, 113, 191, 39, 210, 37, 207, 194, 107, 172, 163, 68, 161, 234, 53, 253, 217, 69, 16, 243, 209, 87, 8, 44],
    [214, 172, 222, 223, 149, 246, 8, 224, 159, 165, 63, 180, 61, 205, 9, 144, 71, 87, 38, 197, 19, 18, 16, 201, 229, 202, 234, 185, 127, 14, 100, 47],
    [30, 166, 103, 95, 149, 81, 238, 185, 223, 170, 169, 36, 123, 201, 133, 130, 112, 211, 211, 164, 197, 175, 167, 23, 122, 152, 77, 94, 209, 190, 36, 81],
    [110, 219, 22, 208, 25, 7, 183, 89, 151, 125, 118, 80, 218, 215, 227, 236, 4, 154, 241, 163, 216, 117, 56, 11, 105, 124, 134, 44, 158, 197, 213, 28],
    [205, 28, 141, 191, 110, 58, 204, 122, 128, 67, 155, 196, 150, 44, 242, 91, 157, 206, 124, 137, 111, 58, 91, 215, 8, 3, 252, 90, 14, 51, 207, 0],
    [106, 202, 132, 72, 216, 38, 62, 84, 125, 95, 242, 149, 14, 46, 211, 131, 158, 153, 141, 49, 203, 198, 172, 159, 213, 123, 198, 0, 43, 21, 146, 22],
    [141, 95, 164, 62, 90, 16, 209, 22, 5, 172, 116, 48, 186, 31, 93, 129, 251, 27, 104, 210, 154, 100, 4, 5, 118, 119, 73, 232, 65, 82, 118, 115],
    [8, 238, 171, 12, 19, 171, 214, 6, 158, 99, 16, 25, 123, 248, 15, 156, 30, 166, 222, 120, 253, 25, 203, 174, 36, 212, 165, 32, 230, 207, 48, 35],
    [7, 105, 85, 123, 198, 130, 177, 191, 48, 134, 70, 253, 11, 34, 230, 72, 232, 185, 233, 143, 87, 226, 159, 90, 244, 15, 110, 219, 131, 62, 44, 73],
    [76, 105, 55, 215, 143, 66, 104, 95, 132, 180, 58, 211, 183, 176, 15, 129, 40, 86, 98, 248, 92, 106, 104, 239, 17, 214, 42, 209, 163, 238, 8, 80],
    [254, 224, 229, 40, 2, 203, 12, 70, 177, 235, 77, 55, 108, 98, 105, 127, 71, 89, 246, 200, 145, 127, 163, 82, 87, 18, 2, 253, 119, 143, 215, 18],
    [22, 214, 37, 41, 104, 151, 26, 131, 218, 133, 33, 214, 83, 130, 230, 31, 1, 118, 100, 109, 119, 28, 145, 82, 142, 50, 118, 238, 69, 56, 62, 74],
    [210, 225, 100, 44, 154, 70, 34, 41, 40, 158, 91, 14, 59, 127, 144, 8, 224, 48, 28, 187, 147, 56, 94, 224, 226, 29, 162, 84, 80, 115, 203, 88],
    [165, 18, 44, 8, 255, 156, 22, 29, 156, 166, 252, 70, 32, 115, 57, 108, 125, 125, 56, 232, 238, 72, 205, 179, 190, 167, 226, 35, 1, 52, 237, 106],
    [40, 231, 184, 65, 220, 188, 71, 204, 235, 105, 215, 203, 141, 148, 36, 95, 183, 203, 43, 163, 167, 166, 188, 24, 241, 63, 148, 95, 125, 189, 110, 42],
    [225, 243, 75, 3, 77, 74, 60, 210, 133, 87, 226, 144, 126, 191, 153, 12, 145, 143, 100, 236, 181, 10, 148, 240, 29, 111, 218, 92, 165, 199, 239, 114],
    [18, 147, 95, 20, 182, 118, 80, 155, 129, 235, 73, 239, 37, 243, 146, 105, 237, 114, 48, 146, 56, 180, 193, 69, 128, 53, 68, 182, 70, 220, 166, 45],
    [178, 238, 208, 49, 212, 214, 164, 240, 42, 9, 127, 128, 181, 76, 193, 84, 29, 65, 99, 198, 182, 245, 151, 31, 136, 182, 228, 29, 53, 197, 56, 20],
    [251, 194, 244, 48, 12, 1, 240, 183, 130, 13, 0, 227, 52, 124, 141, 164, 238, 97, 70, 116, 55, 108, 188, 69, 53, 157, 170, 84, 249, 181, 73, 62],
    [37, 46, 103, 152, 100, 95, 91, 241, 20, 228, 180, 233, 14, 150, 24, 40, 97, 72, 152, 64, 217, 180, 204, 196, 193, 251, 90, 70, 153, 124, 238, 20],
    [152, 177, 144, 66, 241, 247, 199, 221, 17, 236, 37, 234, 102, 182, 255, 116, 224, 140, 225, 29, 68, 126, 214, 241, 191, 232, 126, 17, 14, 51, 30, 17],
    [212, 81, 48, 71, 153, 87, 43, 169, 244, 44, 77, 171, 107, 7, 199, 3, 189, 44, 18, 58, 185, 214, 15, 42, 96, 249, 149, 88, 84, 145, 11, 106],
    [62, 205, 95, 39, 172, 240, 27, 211, 122, 51, 228, 81, 120, 103, 239, 118, 71, 76, 216, 63, 179, 28, 146, 8, 220, 239, 46, 237, 206, 243, 108, 114],
    [38, 195, 125, 166, 120, 148, 161, 61, 248, 170, 72, 120, 210, 81, 74, 66, 18, 87, 59, 115, 236, 202, 171, 22, 254, 79, 166, 96, 232, 254, 39, 7],
    [181, 69, 239, 52, 72, 94, 237, 48, 212, 43, 44, 41, 90, 74, 91, 104, 13, 232, 169, 213, 227, 131, 69, 120, 36, 98, 192, 79, 9, 220, 104, 81],
    [119, 253, 32, 179, 0, 148, 103, 101, 168, 127, 36, 189, 4, 80, 115, 114, 156, 189, 123, 102, 235, 143, 161, 64, 181, 131, 250, 169, 209, 66, 88, 1],
    [203, 170, 87, 107, 23, 153, 181, 143, 243, 166, 222, 203, 186, 145, 155, 11, 104, 215, 200, 147, 228, 111, 222, 153, 135, 104, 232, 126, 53, 10, 7, 37],
    [69, 254, 129, 177, 140, 163, 0, 116, 208, 18, 13, 43, 26, 13, 16, 179, 160, 80, 147, 53, 18, 219, 142, 227, 78, 82, 71, 61, 79, 8, 162, 103],
    [14, 96, 161, 240, 18, 31, 89, 30, 85, 29, 62, 209, 134, 91, 80, 167, 93, 124, 207, 241, 40, 157, 247, 196, 77, 212, 101, 165, 67, 23, 245, 106],
    [206, 223, 177, 132, 221, 146, 160, 203, 252, 17, 232, 190, 105, 123, 71, 105, 136, 237, 95, 57, 54, 154, 189, 217, 12, 97, 84, 73, 136, 96, 28, 13],
    [243, 98, 104, 102, 18, 100, 154, 49, 59, 164, 100, 67, 122, 12, 173, 14, 126, 61, 126, 27, 75, 55, 67, 249, 14, 5, 162, 16, 10, 73, 95, 66],
    [125, 234, 229, 243, 187, 222, 255, 211, 248, 82, 113, 160, 139, 94, 195, 31, 22, 249, 55, 150, 74, 231, 8, 253, 255, 124, 19, 229, 164, 243, 223, 107],
    [64, 204, 240, 252, 30, 171, 109, 133, 2, 189, 147, 220, 49, 52, 45, 253, 87, 223, 91, 187, 93, 112, 161, 191, 107, 146, 239, 198, 30, 201, 162, 88],
    [215, 128, 37, 73, 31, 27, 202, 133, 7, 246, 79, 37, 135, 45, 208, 35, 136, 71, 154, 26, 34, 81, 38, 228, 13, 47, 228, 24, 185, 142, 14, 44],
    [13, 183, 41, 70, 133, 200, 160, 114, 95, 21, 132, 110, 165, 137, 158, 160, 233, 134, 194, 112, 123, 215, 180, 18, 149, 68, 18, 242, 106, 191, 85, 10],
    [183, 226, 144, 190, 149, 85, 207, 117, 84, 134, 80, 218, 109, 71, 200, 147, 174, 247, 248, 198, 221, 39, 53, 73, 148, 149, 246, 54, 89, 13, 174, 10],
    [45, 210, 83, 42, 133, 140, 48, 1, 69, 166, 94, 53, 31, 145, 190, 106, 254, 171, 89, 124, 65, 239, 7, 63, 80, 182, 34, 213, 134, 255, 89, 39],
    [151, 47, 12, 92, 111, 154, 235, 14, 56, 191, 131, 25, 243, 165, 252, 220, 143, 216, 120, 46, 65, 136, 115, 12, 208, 130, 217, 186, 188, 88, 152, 81],
    [0, 30, 87, 123, 15, 67, 144, 24, 43, 74, 228, 61, 50, 155, 58, 168, 131, 93, 174, 27, 183, 158, 96, 75, 125, 45, 160, 233, 13, 6, 9, 41],
    [170, 110, 112, 169, 30, 188, 84, 238, 252, 229, 255, 213, 182, 117, 218, 243, 241, 217, 64, 168, 69, 31, 203, 1, 8, 31, 169, 212, 242, 98, 67, 111],
    [215, 112, 56, 191, 103, 230, 49, 117, 41, 64, 35, 18, 81, 215, 254, 133, 175, 82, 219, 221, 106, 171, 55, 199, 165, 236, 50, 182, 95, 230, 222, 3],
    [210, 39, 161, 122, 126, 12, 249, 109, 206, 221, 159, 199, 188, 228, 60, 108, 29, 102, 186, 221, 117, 67, 168, 135, 200, 101, 108, 84, 126, 207, 178, 79],
    [112, 232, 165, 33, 149, 21, 131, 229, 63, 192, 88, 92, 112, 126, 206, 218, 137, 183, 167, 209, 175, 65, 209, 160, 21, 215, 151, 250, 118, 192, 245, 105],
    [228, 133, 169, 104, 85, 232, 114, 252, 80, 144, 21, 14, 44, 210, 78, 16, 89, 29, 53, 22, 110, 176, 235, 48, 252, 223, 172, 147, 176, 29, 40, 28],
    [228, 161, 159, 235, 223, 42, 134, 137, 110, 65, 242, 206, 220, 242, 174, 88, 70, 113, 128, 46, 106, 70, 126, 132, 57, 202, 181, 214, 24, 67, 65, 107],
    [233, 39, 131, 136, 71, 128, 106, 67, 189, 108, 96, 136, 227, 159, 101, 184, 179, 229, 139, 45, 181, 247, 173, 86, 67, 217, 30, 6, 89, 162, 138, 42],
    [11, 211, 168, 24, 232, 63, 156, 210, 255, 79, 98, 1, 26, 81, 1, 118, 172, 50, 245, 68, 142, 110, 21, 69, 21, 4, 60, 89, 38, 213, 28, 111],
    [206, 65, 52, 69, 224, 55, 144, 73, 143, 231, 45, 142, 1, 145, 94, 127, 241, 32, 174, 53, 179, 181, 144, 210, 27, 127, 116, 222, 225, 131, 15, 13],
    [96, 14, 111, 147, 231, 61, 122, 189, 78, 224, 166, 92, 177, 177, 154, 163, 236, 197, 37, 104, 157, 191, 23, 119, 150, 88, 116, 27, 149, 193, 90, 85]] @ replicate 2 (replicate 32 0)"

text \<open>\<open>merkle_hash\<close> is \<open>librustzcash_merkle_hash\<close>.\<close>

definition PedersenHash :: "(nat \<Rightarrow> uint256 \<Rightarrow> uint256 \<Rightarrow> uint256) \<Rightarrow> uint256 merkle_hash" where
  "PedersenHash merkle_hash = \<lparr>hash_combine = (\<lambda>a b depth. merkle_hash depth a b),
     hash_EmptyRoot = (\<lambda>depth. limbs_of_bytes 8 (pedersen_empty_roots ! depth))\<rparr>"

section \<open>Specification\<close>

text \<open>The root of the complete tree of a depth over a list of leaves, padded with empty leaves.\<close>

fun complete_root :: "'h merkle_hash \<Rightarrow> nat \<Rightarrow> 'h list \<Rightarrow> 'h" where
  "complete_root H 0 xs = (case xs of [] \<Rightarrow> hash_EmptyRoot H 0 | x # _ \<Rightarrow> x)"
| "complete_root H (Suc d) xs = hash_combine H (complete_root H d (take (2 ^ d) xs)) (complete_root H d (drop (2 ^ d) xs)) d"

text \<open>What the table of empty roots promises.\<close>

definition empty_laws :: "'h merkle_hash \<Rightarrow> nat \<Rightarrow> bool" where
  "empty_laws H D \<longleftrightarrow> (\<forall>d < D. hash_EmptyRoot H (Suc d) = hash_combine H (hash_EmptyRoot H d) (hash_EmptyRoot H d) d)"

lemma complete_root_Nil: "empty_laws H D \<Longrightarrow> d \<le> D \<Longrightarrow> complete_root H d [] = hash_EmptyRoot H d"
  by (induction d) (auto simp: empty_laws_def)

lemma empty_laws_mono: "empty_laws H D \<Longrightarrow> d \<le> D \<Longrightarrow> empty_laws H d"
  by (auto simp: empty_laws_def)

lemma complete_root_join:
  "length xs = 2 ^ d \<Longrightarrow> hash_combine H (complete_root H d xs) (complete_root H d ys) d = complete_root H (Suc d) (xs @ ys)"
  by simp

lemma complete_root_pad:
  "length xs \<le> 2 ^ d \<Longrightarrow> hash_combine H (complete_root H d xs) (complete_root H d []) d = complete_root H (Suc d) xs"
  by simp

text \<open>The parents from depth \<open>d\<close> on hold the leaves \<open>zs\<close>; the largest subtree comes first among the leaves.\<close>

fun holds :: "'h merkle_hash \<Rightarrow> nat \<Rightarrow> 'h option list \<Rightarrow> 'h list \<Rightarrow> bool" where
  "holds H d [] zs \<longleftrightarrow> zs = []"
| "holds H d (None # ps) zs \<longleftrightarrow> ps \<noteq> [] \<and> holds H (Suc d) ps zs"
| "holds H d (Some h # ps) zs \<longleftrightarrow> (\<exists>ys ws. zs = ys @ ws \<and> length ws = 2 ^ d \<and> h = complete_root H d ws \<and> holds H (Suc d) ps ys)"

definition tree_holds :: "'h merkle_hash \<Rightarrow> 'h IncrementalMerkleTree \<Rightarrow> 'h list \<Rightarrow> bool" where
  "tree_holds H t xs \<longleftrightarrow> (case tree_left t of
       None \<Rightarrow> tree_right t = None \<and> tree_parents t = [] \<and> xs = []
     | Some l \<Rightarrow> (\<exists>zs. holds H 1 (tree_parents t) zs \<and> xs = zs @ l # (case tree_right t of None \<Rightarrow> [] | Some r \<Rightarrow> [r])))"

lemma holds_dvd: "holds H d ps zs \<Longrightarrow> 2 ^ d dvd length zs"
proof (induction H d ps zs rule: holds.induct)
  case (2 H d ps zs)
  then show ?case by (auto intro: dvd_trans [of _ "2 ^ Suc d"])
next
  case (3 H d h ps zs)
  then obtain ys ws where "zs = ys @ ws" "length ws = 2 ^ d" "2 ^ Suc d dvd length ys" by auto
  then show ?case by (auto elim: dvd_mult_right)
qed simp

lemma holds_bounds:
  "holds H d ps zs \<Longrightarrow> length zs + 2 ^ d \<le> 2 ^ (d + length ps) \<and> (ps \<noteq> [] \<longrightarrow> 2 ^ (d + length ps) \<le> 2 * length zs) \<and>
     (length zs + 2 ^ d = 2 ^ (d + length ps) \<longleftrightarrow> list_all (\<lambda>p. p \<noteq> None) ps)"
proof (induction H d ps zs rule: holds.induct)
  case (2 H d ps zs)
  then have "length zs + 2 ^ Suc d \<le> 2 ^ (d + length (None # ps))" "2 ^ (d + length (None # ps)) \<le> 2 * length zs" by auto
  moreover have "0 < (2::nat) ^ d" "(2::nat) ^ Suc d = 2 ^ d + 2 ^ d" by simp_all
  ultimately have "length zs + 2 ^ d < 2 ^ (d + length (None # ps))" by linarith
  then show ?case using 2 by auto
next
  case (3 H d h ps zs)
  then obtain ys ws where y: "zs = ys @ ws" "length ws = 2 ^ d" "holds H (Suc d) ps ys" by auto
  then show ?case using 3(1) [OF y(3)] by (cases ps) auto
qed auto

lemma propagate_holds:
  "holds H d ps zs \<Longrightarrow> length ws = 2 ^ d \<Longrightarrow> length zs + 2 ^ d < 2 ^ D \<Longrightarrow> d = Suc i \<Longrightarrow>
   holds H d (tree_propagate H D i (complete_root H d ws) ps) (zs @ ws)"
proof (induction ps arbitrary: d zs ws i)
  case Nil
  then have "(2::nat) ^ d < 2 ^ D" by simp
  then have "d < D" by (rule power_less_imp_less_exp [rotated]) simp
  then show ?case using Nil by simp
next
  case (Cons p ps)
  have "(2::nat) ^ d < 2 ^ D" using Cons.prems(3) by linarith
  then have "d < D" by (rule power_less_imp_less_exp [rotated]) simp
  then have i: "i < D" using Cons.prems(4) by simp
  show ?case
  proof (cases p)
    case None
    then show ?thesis using Cons.prems i by auto
  next
    case (Some h)
    then obtain ys vs where y: "zs = ys @ vs" "length vs = 2 ^ d" "h = complete_root H d vs" "holds H (Suc d) ps ys" using Cons.prems(1) by auto
    have "holds H (Suc d) (tree_propagate H D (Suc i) (complete_root H (Suc d) (vs @ ws)) ps) (ys @ (vs @ ws))"
      using Cons.prems y by (intro Cons.IH) auto
    moreover have "hash_combine H h (complete_root H d ws) d = complete_root H (Suc d) (vs @ ws)" using y(2,3) complete_root_join by simp
    moreover have "ws \<noteq> []" using Cons.prems(2) by auto
    ultimately show ?thesis using Some y(1) i Cons.prems(4)
      by (cases "tree_propagate H D (Suc i) (complete_root H (Suc d) (vs @ ws)) ps") (auto simp del: complete_root.simps)
  qed
qed

lemma tree_new_holds: "tree_holds H tree_new []"
  by (simp add: tree_holds_def tree_new_def)

lemma tree_parents_bound:
  assumes "tree_holds H t xs" "1 \<le> D" "length xs \<le> 2 ^ D"
  shows "1 + length (tree_parents t) \<le> D"
proof (cases "tree_parents t = []")
  case False
  then obtain l zs where z: "holds H 1 (tree_parents t) zs" "xs = zs @ l # (case tree_right t of None \<Rightarrow> [] | Some r \<Rightarrow> [r])"
    using assms(1) by (auto simp: tree_holds_def split: option.splits)
  have "2 ^ (1 + length (tree_parents t)) \<le> 2 * length zs" using holds_bounds [OF z(1)] False by simp
  moreover have "length zs < length xs" using z(2) by simp
  moreover have "(2::nat) ^ (1 + length (tree_parents t)) = 2 * 2 ^ length (tree_parents t)" by simp
  ultimately have "(2::nat) ^ length (tree_parents t) < 2 ^ D" using assms(3) by linarith
  then have "length (tree_parents t) < D" by (rule power_less_imp_less_exp [rotated]) simp
  then show ?thesis by simp
qed (use assms(2) in simp)

lemma is_complete_iff:
  assumes "tree_holds H t xs" "1 \<le> d"
  shows "is_complete d t \<longleftrightarrow> length xs = 2 ^ d"
proof (cases "tree_left t")
  case None
  then show ?thesis using assms(1) by (simp add: tree_holds_def is_complete_def)
next
  case (Some l)
  then obtain zs where z: "holds H 1 (tree_parents t) zs" "xs = zs @ l # (case tree_right t of None \<Rightarrow> [] | Some r \<Rightarrow> [r])"
    using assms(1) by (auto simp: tree_holds_def)
  show ?thesis
  proof (cases "tree_right t")
    case None
    have "even (length zs)" using holds_dvd [OF z(1)] by simp
    then have "odd (length xs)" using z(2) None by simp
    then have "length xs \<noteq> 2 ^ d" using assms(2) by auto
    then show ?thesis using None by (simp add: is_complete_def)
  next
    case (Some r)
    let ?n = "length (tree_parents t)"
    have len: "length xs = length zs + 2" using z(2) Some by simp
    have all: "length xs = 2 ^ (1 + ?n) \<longleftrightarrow> list_all (\<lambda>p. p \<noteq> None) (tree_parents t)" "length xs \<le> 2 ^ (1 + ?n)"
      "?n \<noteq> 0 \<longrightarrow> 2 ^ (1 + ?n) \<le> 2 * length zs"
      using holds_bounds [OF z(1)] len by simp_all
    have "length xs = 2 ^ d \<longrightarrow> d = 1 + ?n"
    proof
      assume d: "length xs = 2 ^ d"
      then have "(2::nat) ^ d \<le> 2 ^ (1 + ?n)" using all(2) by simp
      then have "d \<le> 1 + ?n" by (rule power_le_imp_le_exp [rotated]) simp
      moreover have "(2::nat) ^ ?n < 2 ^ d" unfolding d [symmetric] using all(3) len by (cases "?n = 0"; simp)
      then have "?n < d" by (rule power_less_imp_less_exp [rotated]) simp
      ultimately show "d = 1 + ?n" by simp
    qed
    then show ?thesis using \<open>tree_left t = Some l\<close> Some all(1) by (auto simp: is_complete_def)
  qed
qed

lemma tree_append_holds:
  assumes "tree_holds H t xs" "1 \<le> D" "length xs < 2 ^ D"
  shows "\<exists>t'. tree_append H D t x = Some t' \<and> tree_holds H t' (xs @ [x])"
proof -
  have c: "\<not> is_complete D t" using is_complete_iff [OF assms(1,2)] assms(3) by simp
  show ?thesis
  proof (cases "tree_left t")
    case None
    then show ?thesis using c assms(1) by (auto simp: tree_append_def tree_holds_def)
  next
    case l: (Some l)
    then obtain zs where z: "holds H 1 (tree_parents t) zs" "xs = zs @ l # (case tree_right t of None \<Rightarrow> [] | Some r \<Rightarrow> [r])"
      using assms(1) by (auto simp: tree_holds_def)
    show ?thesis
    proof (cases "tree_right t")
      case None
      then show ?thesis using c l z by (simp add: tree_append_def tree_holds_def)
    next
      case (Some r)
      have "holds H 1 (tree_propagate H D 0 (complete_root H 1 [l, r]) (tree_parents t)) (zs @ [l, r])"
        using z Some assms(3) by (intro propagate_holds) auto
      then show ?thesis using c l z Some by (simp add: tree_append_def tree_holds_def)
    qed
  qed
qed

section \<open>Roots\<close>

text \<open>The depths of the subtrees still to be filled, in the order in which leaves arrive, and the roots the leaves \<open>ys\<close> give them.\<close>

fun gap_depths :: "nat \<Rightarrow> nat \<Rightarrow> 'h option list \<Rightarrow> nat list" where
  "gap_depths D d [] = [d..<D]"
| "gap_depths D d (Some h # ps) = gap_depths D (Suc d) ps"
| "gap_depths D d (None # ps) = d # gap_depths D (Suc d) ps"

definition tree_gaps :: "nat \<Rightarrow> 'h IncrementalMerkleTree \<Rightarrow> nat list" where
  "tree_gaps D t = (if tree_right t = None then [0] else []) @ gap_depths D 1 (tree_parents t)"

fun chunk_roots :: "'h merkle_hash \<Rightarrow> nat list \<Rightarrow> 'h list \<Rightarrow> 'h list" where
  "chunk_roots H [] ys = []"
| "chunk_roots H (d # ds) ys = complete_root H d (take (2 ^ d) ys) # chunk_roots H ds (drop (2 ^ d) ys)"

text \<open>A queue of fillers, continued by empty roots, supplies the roots of \<open>ys\<close>.\<close>

definition supplies :: "'h merkle_hash \<Rightarrow> 'h list \<Rightarrow> nat list \<Rightarrow> 'h list \<Rightarrow> bool" where
  "supplies H queue ds ys \<longleftrightarrow> length queue \<le> length ds \<and> queue @ map (hash_EmptyRoot H) (drop (length queue) ds) = chunk_roots H ds ys"

lemma supplies_step:
  "supplies H queue (d # ds) ys \<Longrightarrow>
   \<exists>queue'. filler_next H d queue = (complete_root H d (take (2 ^ d) ys), queue') \<and> supplies H queue' ds (drop (2 ^ d) ys)"
  by (cases queue) (auto simp: supplies_def)

lemma chunk_roots_Nil: "empty_laws H D \<Longrightarrow> \<forall>d \<in> set ds. d \<le> D \<Longrightarrow> chunk_roots H ds [] = map (hash_EmptyRoot H) ds"
  by (induction ds) (auto simp: complete_root_Nil simp del: complete_root.simps)

lemma gap_depths_le: "d + length ps \<le> D \<Longrightarrow> e \<in> set (gap_depths D d ps) \<Longrightarrow> e < D"
  by (induction D d ps rule: gap_depths.induct) auto

text \<open>One level up: a subtree that is not full yet only meets the end of the leaves.\<close>

lemma level_up:
  assumes "length ws \<le> 2 ^ d" "ys = [] \<or> length ws = 2 ^ d"
  shows "hash_combine H (complete_root H d ws) (complete_root H d (take (2 ^ d) ys)) d = complete_root H (Suc d) (ws @ take (2 ^ d) ys)"
    "length (ws @ take (2 ^ d) ys) \<le> 2 ^ Suc d" "drop (2 ^ d) ys = [] \<or> length (ws @ take (2 ^ d) ys) = 2 ^ Suc d"
  using assms by auto

lemma root_fill_complete:
  "supplies H queue [d..<D] ys \<Longrightarrow> d \<le> D \<Longrightarrow> length ws \<le> 2 ^ d \<Longrightarrow> ys = [] \<or> length ws = 2 ^ d \<Longrightarrow> length (ws @ ys) \<le> 2 ^ D \<Longrightarrow>
   root_fill H D d (complete_root H d ws) queue = complete_root H D (ws @ ys)"
proof (induction "D - d" arbitrary: d ws ys queue)
  case 0
  then show ?case by (auto simp: root_fill.simps)
next
  case (Suc n)
  have d: "d < D" "[d..<D] = d # [Suc d..<D]" using Suc.hyps(2) by (auto simp: upt_conv_Cons)
  obtain queue' where q: "filler_next H d queue = (complete_root H d (take (2 ^ d) ys), queue')" "supplies H queue' [Suc d..<D] (drop (2 ^ d) ys)"
    using supplies_step Suc.prems(1) unfolding d(2) by blast
  note u = level_up [OF Suc.prems(3,4)]
  have "root_fill H D (Suc d) (complete_root H (Suc d) (ws @ take (2 ^ d) ys)) queue' = complete_root H D ((ws @ take (2 ^ d) ys) @ drop (2 ^ d) ys)"
    using Suc.hyps(2) Suc.prems(5) d(1) q(2) u by (intro Suc.hyps(1)) auto
  then show ?case using d(1) q(1) u(1) by (subst root_fill.simps) (simp del: complete_root.simps)
qed

lemma root_parents_complete:
  "holds H d ps zs \<Longrightarrow> supplies H queue (gap_depths D d ps) ys \<Longrightarrow> d + length ps \<le> D \<Longrightarrow> length ws \<le> 2 ^ d \<Longrightarrow> ys = [] \<or> length ws = 2 ^ d \<Longrightarrow>
   length (zs @ ws @ ys) \<le> 2 ^ D \<Longrightarrow> root_parents H D d (complete_root H d ws) ps queue = complete_root H D (zs @ ws @ ys)"
proof (induction ps arbitrary: d zs ws ys queue)
  case Nil
  then show ?case by (simp add: root_fill_complete)
next
  case (Cons p ps)
  show ?case
  proof (cases p)
    case None
    obtain queue' where q: "filler_next H d queue = (complete_root H d (take (2 ^ d) ys), queue')"
        "supplies H queue' (gap_depths D (Suc d) ps) (drop (2 ^ d) ys)"
      using supplies_step Cons.prems(2) unfolding None gap_depths.simps by blast
    note u = level_up [OF Cons.prems(4,5)]
    have "root_parents H D (Suc d) (complete_root H (Suc d) (ws @ take (2 ^ d) ys)) ps queue' =
        complete_root H D (zs @ (ws @ take (2 ^ d) ys) @ drop (2 ^ d) ys)"
      using Cons.prems None q(2) u by (intro Cons.IH) auto
    then show ?thesis using None q(1) u(1) by (simp del: complete_root.simps)
  next
    case (Some h)
    then obtain us vs where v: "zs = us @ vs" "length vs = 2 ^ d" "h = complete_root H d vs" "holds H (Suc d) ps us" using Cons.prems(1) by auto
    have "root_parents H D (Suc d) (complete_root H (Suc d) (vs @ ws)) ps queue = complete_root H D (us @ (vs @ ws) @ ys)"
      using Cons.prems Some v by (intro Cons.IH) auto
    then show ?thesis using Some v complete_root_join [OF v(2), of H ws] by (simp del: complete_root.simps)
  qed
qed

lemma imt_root_complete:
  assumes "tree_holds H t xs" "xs \<noteq> []" "supplies H queue (tree_gaps D t) ys" "1 + length (tree_parents t) \<le> D" "length (xs @ ys) \<le> 2 ^ D"
  shows "imt_root H D queue t = complete_root H D (xs @ ys)"
proof -
  obtain l zs where z: "tree_left t = Some l" "holds H 1 (tree_parents t) zs" "xs = zs @ l # (case tree_right t of None \<Rightarrow> [] | Some r \<Rightarrow> [r])"
    using assms(1,2) by (auto simp: tree_holds_def split: option.splits)
  show ?thesis
  proof (cases "tree_right t")
    case None
    then obtain queue' where q: "filler_next H 0 queue = (complete_root H 0 (take 1 ys), queue')" "supplies H queue' (gap_depths D 1 (tree_parents t)) (drop 1 ys)"
      using supplies_step [of H queue 0 "gap_depths D 1 (tree_parents t)" ys] assms(3) by (auto simp: tree_gaps_def)
    have "root_parents H D 1 (complete_root H 1 ([l] @ take 1 ys)) (tree_parents t) queue' = complete_root H D (zs @ ([l] @ take 1 ys) @ drop 1 ys)"
      using z None assms(4,5) q(2) by (intro root_parents_complete) auto
    moreover have "hash_combine H l (complete_root H 0 (take 1 ys)) 0 = complete_root H 1 ([l] @ take 1 ys)" by simp
    ultimately show ?thesis using z None q(1) by (simp add: imt_root_def leaf_or_filler_def del: complete_root.simps)
  next
    case (Some r)
    have "root_parents H D 1 (complete_root H 1 [l, r]) (tree_parents t) queue = complete_root H D (zs @ [l, r] @ ys)"
      using z Some assms(3-5) by (intro root_parents_complete) (auto simp: tree_gaps_def)
    then show ?thesis using z Some by (simp add: imt_root_def leaf_or_filler_def)
  qed
qed

text \<open>The root of the tree alone.\<close>

lemma imt_root_alone:
  assumes "tree_holds H t xs" "empty_laws H D" "1 \<le> D" "length xs \<le> 2 ^ D"
  shows "imt_root H D [] t = complete_root H D xs"
proof -
  have p: "1 + length (tree_parents t) \<le> D" by (rule tree_parents_bound [OF assms(1,3,4)])
  have s: "supplies H [] ds []" if "\<forall>d \<in> set ds. d \<le> D" for ds using chunk_roots_Nil [OF assms(2) that] by (simp add: supplies_def)
  show ?thesis
  proof (cases "xs = []")
    case True
    then have "tree_left t = None" "tree_right t = None" "tree_parents t = []" using assms(1) by (auto simp: tree_holds_def split: option.splits)
    moreover have "root_fill H D 1 (complete_root H 1 []) [] = complete_root H D ([] @ [])" using assms(3) s by (intro root_fill_complete) auto
    ultimately show ?thesis using True by (simp add: imt_root_def leaf_or_filler_def)
  next
    case False
    have "\<forall>d \<in> set (tree_gaps D t). d \<le> D" using gap_depths_le [of 1 "tree_parents t" D] p by (auto simp: tree_gaps_def less_imp_le)
    then show ?thesis using imt_root_complete [OF assms(1) False s p] assms(4) by simp
  qed
qed

section \<open>Paths\<close>

text \<open>The root a path gives to a leaf, from level \<open>d\<close> on.\<close>

fun path_root :: "'h merkle_hash \<Rightarrow> nat \<Rightarrow> 'h \<Rightarrow> (bool \<times> 'h) list \<Rightarrow> 'h" where
  "path_root H d h [] = h"
| "path_root H d h ((onright, sibling) # levels) =
     path_root H (Suc d) (if onright then hash_combine H sibling h d else hash_combine H h sibling d) levels"

fun bits_value :: "bool list \<Rightarrow> nat" where
  "bits_value [] = 0"
| "bits_value (b # bs) = of_bool b + 2 * bits_value bs"

lemma path_fill_root: "path_root H d root (path_fill H D d queue) = root_fill H D d root queue"
proof (induction H D d root queue rule: root_fill.induct)
  case (1 H depth d root queue)
  then show ?case by (subst path_fill.simps, subst root_fill.simps) (auto split: prod.splits)
qed

lemma path_fill_index: "map fst (path_fill H D d queue) = replicate (D - d) False"
proof (induction H D d queue rule: path_fill.induct)
  case (1 H D d queue)
  then show ?case by (subst path_fill.simps) (auto split: prod.splits simp: Suc_diff_Suc simp flip: replicate_Suc)
qed

lemma path_parents_root: "path_root H d root (path_parents H D d ps queue) = root_parents H D d root ps queue"
  by (induction H D d root ps queue rule: root_parents.induct) (auto simp: path_fill_root split: prod.splits)

lemma bits_value_replicate [simp]: "bits_value (replicate n False) = 0"
  by (induction n) simp_all

lemma path_parents_index:
  "holds H d ps zs \<Longrightarrow> d + length ps \<le> D \<Longrightarrow>
   length (path_parents H D d ps queue) = D - d \<and> 2 ^ d * bits_value (map fst (path_parents H D d ps queue)) = length zs"
proof (induction ps arbitrary: d zs queue)
  case Nil
  have "length (path_fill H D d queue) = D - d" using arg_cong [OF path_fill_index, of length] by simp
  then show ?case using Nil by (simp add: path_fill_index)
next
  case (Cons p ps)
  then show ?case
  proof (cases p)
    case None
    then show ?thesis using Cons.IH [of "Suc d" zs] Cons.prems by (fastforce split: prod.splits simp: algebra_simps)
  next
    case (Some h)
    then obtain us vs where v: "zs = us @ vs" "length vs = 2 ^ d" "holds H (Suc d) ps us" using Cons.prems(1) by auto
    then show ?thesis using Cons.IH [OF v(3), of queue] Cons.prems Some by (auto simp: algebra_simps)
  qed
qed

lemma path_levels_root:
  assumes "tree_left t \<noteq> None"
  shows "\<exists>levels h. path_levels H D queue t = Some levels \<and> tree_last t = Some h \<and> path_root H 0 h levels = imt_root H D queue t"
  using assms by (auto simp: path_levels_def tree_last_def imt_root_def leaf_or_filler_def path_parents_root split: option.splits prod.splits)

lemma path_levels_index:
  assumes "tree_holds H t xs" "xs \<noteq> []" "1 + length (tree_parents t) \<le> D" "path_levels H D queue t = Some levels"
  shows "length levels = D \<and> bits_value (map fst levels) = length xs - 1"
proof -
  obtain l zs where z: "tree_left t = Some l" "holds H 1 (tree_parents t) zs" "xs = zs @ l # (case tree_right t of None \<Rightarrow> [] | Some r \<Rightarrow> [r])"
    using assms(1,2) by (auto simp: tree_holds_def split: option.splits)
  have p: "length (path_parents H D 1 (tree_parents t) q) = D - 1" "2 * bits_value (map fst (path_parents H D 1 (tree_parents t) q)) = length zs" for q
    using path_parents_index [OF z(2), of D q] assms(3) by simp_all
  show ?thesis using assms(3,4) z(1,3) p by (auto simp: path_levels_def split: option.splits prod.splits)
qed

section \<open>Sizes\<close>

lemma holds_size:
  "holds H d ps zs \<Longrightarrow> length zs = (\<Sum>i\<leftarrow>[0..<length ps]. if ps ! i \<noteq> None then 2 ^ (i + d) else 0)"
proof (induction ps arbitrary: d zs)
  case (Cons p ps)
  have r: "(\<Sum>i\<leftarrow>[0..<length (p # ps)]. if (p # ps) ! i \<noteq> None then 2 ^ (i + d) else 0) =
      (if p \<noteq> None then 2 ^ d else 0) + (\<Sum>i\<leftarrow>[0..<length ps]. if ps ! i \<noteq> None then 2 ^ (i + Suc d) else (0::nat))"
    by (simp only: list.size add_0_right add_Suc_right upt_conv_Cons [OF zero_less_Suc] map_Suc_upt [symmetric] list.map map_map comp_def sum_list.Cons nth_Cons_0
        nth_Cons_Suc add_0 add_Suc_shift)
  show ?case using Cons.IH [of "Suc d"] Cons.prems unfolding r by (cases p) auto
qed simp

lemma of_nat_sum_map: "of_nat (sum_list (map f xs)) = sum_list (map (\<lambda>x. of_nat (f x)) xs)"
  by (induction xs) simp_all

lemma scast_small:
  assumes "i < 31"
  shows "(scast (push_bit i 1 :: u32) :: u64) = of_nat (2 ^ i)"
proof -
  have "(2::int) ^ i < 2 ^ 31" using assms by (intro power_strict_increasing) simp_all
  moreover have "uint (push_bit i 1 :: u32) = 2 ^ i"
  proof -
    have "push_bit i (1::u32) = word_of_int (2 ^ i)" by simp
    then show ?thesis using calculation by (simp only: uint_word_of_int) simp
  qed
  moreover have "- (2 ^ 31) \<le> (2::int) ^ i" by (rule order_trans [of _ 0]) simp_all
  ultimately have "sint (push_bit i 1 :: u32) = 2 ^ i" by (simp add: sint_uint signed_take_bit_int_eq_self)
  then show ?thesis by (simp add: scast_eq)
qed

lemma tree_size_correct:
  assumes "tree_holds H t xs" "length xs < 2 ^ 31"
  shows "unat (tree_size t) = length xs"
proof (cases "tree_left t")
  case (Some l)
  then obtain zs where z: "holds H 1 (tree_parents t) zs" "xs = zs @ l # (case tree_right t of None \<Rightarrow> [] | Some r \<Rightarrow> [r])"
    using assms(1) by (auto simp: tree_holds_def)
  let ?n = "length (tree_parents t)"
  have n: "?n \<le> 30" using tree_parents_bound [OF assms(1), of 31] assms(2) by simp
  have "(\<Sum>i\<leftarrow>[0..<?n]. if tree_parents t ! i \<noteq> None then scast (push_bit (i + 1) 1 :: u32) else 0) =
      (\<Sum>i\<leftarrow>[0..<?n]. (of_nat (if tree_parents t ! i \<noteq> None then 2 ^ (i + 1) else 0) :: u64))"
    using n by (intro arg_cong [where f = sum_list] map_cong) (use scast_small [of "Suc _"] in \<open>auto simp: less_Suc_eq_le\<close>)
  also have "\<dots> = of_nat (length zs)" unfolding holds_size [OF z(1)] by (rule of_nat_sum_map [symmetric])
  finally have "tree_size t = of_nat (length xs)" using Some z(2) by (auto simp: tree_size_def split: option.splits)
  then show ?thesis using assms(2) by (simp add: unat_of_nat)
qed (use assms in \<open>simp add: tree_holds_def tree_size_def\<close>)

text \<open>From \<open>2 ^ 31\<close> leaves on the shift overflows and the size is wrong.\<close>

lemma tree_size_overflow:
  "tree_size \<lparr>tree_left = Some x, tree_right = None, tree_parents = replicate 30 None @ [Some y]\<rparr> = 0xFFFFFFFF80000001"
proof -
  have z: "(\<Sum>i\<leftarrow>[0..<30]. if (replicate 30 None @ [Some y]) ! i \<noteq> None then f i else 0) = (0 :: u64)" for f
  proof -
    have "map (\<lambda>i. if (replicate 30 None @ [Some y]) ! i \<noteq> None then f i else 0) [0..<30] = map (\<lambda>_. 0) [0..<30]"
      by (rule map_cong) (auto simp: nth_append)
    then show ?thesis by (simp only: sum_list_0)
  qed
  have u: "[0..<length (replicate 30 None @ [Some y])] = [0..<30] @ [30]" by (simp add: numeral_eq_Suc)
  have s: "(scast (push_bit 31 1 :: u32) :: u64) = 0xFFFFFFFF80000000" by code_simp
  show ?thesis unfolding tree_size_def IncrementalMerkleTree.simps u map_append sum_list_append z using s by (simp add: nth_append)
qed

section \<open>Witnesses follow the tree\<close>

abbreviation sizes :: "nat list \<Rightarrow> nat" where
  "sizes ds \<equiv> \<Sum>d\<leftarrow>ds. 2 ^ d"

lemma sizes_upt: "d \<le> D \<Longrightarrow> sizes [d..<D] + 2 ^ d = 2 ^ D"
  by (induction D rule: dec_induct) auto

lemma gap_sizes: "holds H d ps zs \<Longrightarrow> d + length ps \<le> D \<Longrightarrow> length zs + 2 ^ d + sizes (gap_depths D d ps) = 2 ^ D"
proof (induction ps arbitrary: d zs)
  case Nil
  then show ?case using sizes_upt [of d D] by simp
next
  case (Cons p ps)
  then show ?case using Cons.IH [of "Suc d"] by (cases p) fastforce+
qed

lemma tree_gap_sizes:
  assumes "tree_holds H t xs" "xs \<noteq> []" "1 + length (tree_parents t) \<le> D"
  shows "length xs + sizes (tree_gaps D t) = 2 ^ D"
proof -
  obtain l zs where z: "holds H 1 (tree_parents t) zs" "xs = zs @ l # (case tree_right t of None \<Rightarrow> [] | Some r \<Rightarrow> [r])"
    using assms(1,2) by (auto simp: tree_holds_def split: option.splits)
  show ?thesis using gap_sizes [OF z(1), of D] assms(3) z(2) by (auto simp: tree_gaps_def split: option.splits)
qed

lemma depth_of_parents_gap:
  "d + length ps \<le> D \<Longrightarrow> depth_of_parents d k ps = (if k < length (gap_depths D d ps) then gap_depths D d ps ! k
     else D + (k - length (gap_depths D d ps)))"
  by (induction d k ps rule: depth_of_parents.induct) (auto simp: nth_Cons' split: option.splits)

lemma next_depth_gap:
  assumes "tree_left t \<noteq> None" "1 + length (tree_parents t) \<le> D"
  shows "k < length (tree_gaps D t) \<Longrightarrow> next_depth t k = tree_gaps D t ! k" "length (tree_gaps D t) \<le> k \<Longrightarrow> D \<le> next_depth t k"
  using assms depth_of_parents_gap [of 1 "tree_parents t" D] by (auto simp: next_depth_def tree_gaps_def Let_def nth_Cons')

lemma chunk_roots_append:
  "length us = sizes ds \<Longrightarrow> chunk_roots H (ds @ es) (us @ ys) = chunk_roots H ds us @ chunk_roots H es ys"
  by (induction ds arbitrary: us) (auto simp del: complete_root.simps)

text \<open>The state of a witness for the leaves \<open>xs\<close> of its tree and the later leaves \<open>ys\<close>: of these, \<open>us\<close> fill the first gaps and \<open>zs\<close> the cursor.\<close>

definition witness_holds :: "'h merkle_hash \<Rightarrow> nat \<Rightarrow> 'h IncrementalWitness \<Rightarrow> 'h list \<Rightarrow> 'h list \<Rightarrow> bool" where
  "witness_holds H D w xs ys \<longleftrightarrow> tree_holds H (wit_tree w) xs \<and> xs \<noteq> [] \<and> 1 + length (tree_parents (wit_tree w)) \<le> D \<and>
     (let ds = tree_gaps D (wit_tree w); k = length (wit_filled w) in
      k \<le> length ds \<and> (\<exists>us zs. ys = us @ zs \<and> length us = sizes (take k ds) \<and> wit_filled w = chunk_roots H (take k ds) us \<and>
        (case wit_cursor w of
           None \<Rightarrow> zs = []
         | Some c \<Rightarrow> k < length ds \<and> wit_cursor_depth w = ds ! k \<and> 1 \<le> ds ! k \<and> tree_holds H c zs \<and> zs \<noteq> [] \<and> length zs < 2 ^ (ds ! k))))"

lemma tree_gaps_less:
  assumes "1 + length (tree_parents t) \<le> D" "d \<in> set (tree_gaps D t)"
  shows "d < D"
  using assms gap_depths_le [of 1 "tree_parents t" D d] by (auto simp: tree_gaps_def split: if_splits)

lemma witness_new_holds:
  "tree_holds H t xs \<Longrightarrow> xs \<noteq> [] \<Longrightarrow> 1 + length (tree_parents t) \<le> D \<Longrightarrow> witness_holds H D (witness_new t) xs []"
  by (simp add: witness_holds_def witness_new_def)

lemma witness_holdsE:
  assumes "witness_holds H D w xs ys"
  obtains us zs where "ys = us @ zs" "length us = sizes (take (length (wit_filled w)) (tree_gaps D (wit_tree w)))"
    "wit_filled w = chunk_roots H (take (length (wit_filled w)) (tree_gaps D (wit_tree w))) us" "length (wit_filled w) \<le> length (tree_gaps D (wit_tree w))"
    "case wit_cursor w of None \<Rightarrow> zs = [] | Some c \<Rightarrow> length (wit_filled w) < length (tree_gaps D (wit_tree w)) \<and>
      wit_cursor_depth w = tree_gaps D (wit_tree w) ! length (wit_filled w) \<and> 1 \<le> wit_cursor_depth w \<and>
      tree_holds H c zs \<and> zs \<noteq> [] \<and> length zs < 2 ^ wit_cursor_depth w"
    "tree_holds H (wit_tree w) xs" "xs \<noteq> []" "1 + length (tree_parents (wit_tree w)) \<le> D"
  using assms by (auto simp: witness_holds_def Let_def split: option.splits)

lemma witness_cursorI:
  assumes "tree_holds H (wit_tree w) xs" "xs \<noteq> []" "1 + length (tree_parents (wit_tree w)) \<le> D"
    and "length us = sizes (take (length (wit_filled w)) (tree_gaps D (wit_tree w)))"
    and "wit_filled w = chunk_roots H (take (length (wit_filled w)) (tree_gaps D (wit_tree w))) us" "length (wit_filled w) < length (tree_gaps D (wit_tree w))"
    and "wit_cursor w = Some c" "wit_cursor_depth w = tree_gaps D (wit_tree w) ! length (wit_filled w)" "1 \<le> wit_cursor_depth w"
    and "tree_holds H c zs" "zs \<noteq> []" "length zs < 2 ^ wit_cursor_depth w"
  shows "witness_holds H D w xs (us @ zs)"
  unfolding witness_holds_def Let_def using assms by (intro conjI exI [of _ us] exI [of _ zs]) simp_all

lemma witness_supplies:
  assumes "witness_holds H D w xs ys" "empty_laws H D"
  shows "supplies H (partial_path H w) (tree_gaps D (wit_tree w)) ys"
proof -
  let ?ds = "tree_gaps D (wit_tree w)" and ?k = "length (wit_filled w)"
  from assms(1) obtain us zs where u: "ys = us @ zs" "length us = sizes (take ?k ?ds)" "wit_filled w = chunk_roots H (take ?k ?ds) us" "?k \<le> length ?ds"
    and c: "case wit_cursor w of None \<Rightarrow> zs = [] | Some c \<Rightarrow> ?k < length ?ds \<and> wit_cursor_depth w = ?ds ! ?k \<and> 1 \<le> wit_cursor_depth w \<and>
      tree_holds H c zs \<and> zs \<noteq> [] \<and> length zs < 2 ^ wit_cursor_depth w" by (rule witness_holdsE)
  have d: "\<forall>d \<in> set ?ds. d \<le> D" using tree_gaps_less [of "wit_tree w" D] assms(1) by (auto simp: witness_holds_def intro: less_imp_le)
  then have e: "chunk_roots H (drop j ?ds) [] = map (hash_EmptyRoot H) (drop j ?ds)" for j
    by (intro chunk_roots_Nil [OF assms(2)]) (auto dest: in_set_dropD)
  have split: "chunk_roots H ?ds ys = wit_filled w @ chunk_roots H (drop ?k ?ds) zs"
    using chunk_roots_append [OF u(2), of H "drop ?k ?ds" zs] u(1,3) by simp
  show ?thesis
  proof (cases "wit_cursor w")
    case None
    then show ?thesis using c u(4) split e [of ?k] by (simp add: supplies_def partial_path_def)
  next
    case (Some t)
    then have t: "?k < length ?ds" "wit_cursor_depth w = ?ds ! ?k" "1 \<le> ?ds ! ?k" "tree_holds H t zs" "length zs < 2 ^ (?ds ! ?k)" using c by auto
    have "empty_laws H (?ds ! ?k)" using empty_laws_mono [OF assms(2)] d t(1) by simp
    then have "imt_root H (?ds ! ?k) [] t = complete_root H (?ds ! ?k) zs" using t by (intro imt_root_alone) simp_all
    then have "chunk_roots H (drop ?k ?ds) zs = imt_root H (?ds ! ?k) [] t # map (hash_EmptyRoot H) (drop (Suc ?k) ?ds)"
      using t(1,5) e [of "Suc ?k"] by (simp add: Cons_nth_drop_Suc [symmetric] del: complete_root.simps)
    then show ?thesis using Some t(1,2) split by (simp add: supplies_def partial_path_def)
  qed
qed

lemma fill_gap:
  assumes "length us = sizes (take k ds)" "filled = chunk_roots H (take k ds) us" "k < length ds" "length vs = 2 ^ (ds ! k)"
  shows "chunk_roots H (take (Suc k) ds) (us @ vs) = filled @ [complete_root H (ds ! k) vs]" "length (us @ vs) = sizes (take (Suc k) ds)"
  using chunk_roots_append [OF assms(1), of H "[ds ! k]" vs] assms
  by (simp_all add: take_Suc_conv_app_nth [OF assms(3)] del: complete_root.simps)

lemma witness_append_gap:
  assumes w: "witness_holds H D w xs ys" and less: "length (xs @ ys) < 2 ^ D" and None: "wit_cursor w = None"
  shows "\<exists>w'. witness_append H D w y = Some w' \<and> wit_tree w' = wit_tree w \<and> witness_holds H D w' xs (ys @ [y])"
proof -
  let ?ds = "tree_gaps D (wit_tree w)" and ?k = "length (wit_filled w)"
  let ?n = "?ds ! ?k"
  from w obtain us where u: "ys = us" "length us = sizes (take ?k ?ds)" "wit_filled w = chunk_roots H (take ?k ?ds) us" "?k \<le> length ?ds"
    and x: "tree_holds H (wit_tree w) xs" "xs \<noteq> []" "1 + length (tree_parents (wit_tree w)) \<le> D"
    by (rule witness_holdsE) (use None in simp)
  have k: "?k < length ?ds"
  proof (rule ccontr)
    assume "\<not> ?k < length ?ds"
    then show False using tree_gap_sizes [OF x] u less by simp
  qed
  have left: "tree_left (wit_tree w) \<noteq> None" using x(1,2) by (cases "tree_left (wit_tree w)") (simp_all add: tree_holds_def)
  have nd: "next_depth (wit_tree w) ?k = ?n" "?n < D"
    using next_depth_gap(1) [OF left x(3) k] tree_gaps_less [OF x(3) nth_mem [OF k]] by simp_all
  show ?thesis
  proof (cases "?n = 0")
    case True
    let ?w = "w\<lparr>wit_cursor_depth := 0, wit_filled := wit_filled w @ [y]\<rparr>"
    have "witness_append H D w y = Some ?w" using None nd True by (simp add: witness_append_def Let_def)
    moreover have "witness_holds H D ?w xs (ys @ [y])"
      using x None fill_gap [OF u(2,3) k, of "[y]"] True k u(1) by (auto simp: witness_holds_def Let_def)
    ultimately show ?thesis by (intro exI [of _ ?w]) simp
  next
    case False
    let ?c = "tree_new\<lparr>tree_left := Some y\<rparr>"
    let ?w = "w\<lparr>wit_cursor_depth := ?n, wit_cursor := Some ?c\<rparr>"
    have "tree_append H D tree_new y = Some ?c" by (simp add: tree_append_def tree_new_def is_complete_def)
    then have a: "witness_append H D w y = Some ?w" using None nd False by (simp add: witness_append_def Let_def)
    have "tree_holds H ?c [y]" by (simp add: tree_holds_def tree_new_def)
    moreover have "1 < (2::nat) ^ ?n" using False by (intro one_less_power) simp_all
    ultimately have "witness_holds H D ?w xs (us @ [y])" using x u k False by (intro witness_cursorI [where c = ?c]; simp)
    then show ?thesis using u(1) a by (intro exI [of _ ?w]) simp
  qed
qed

lemma witness_append_cursor:
  assumes w: "witness_holds H D w xs ys" and laws: "empty_laws H D" and Some: "wit_cursor w = Some t"
  shows "\<exists>w'. witness_append H D w y = Some w' \<and> wit_tree w' = wit_tree w \<and> witness_holds H D w' xs (ys @ [y])"
proof -
  let ?ds = "tree_gaps D (wit_tree w)" and ?k = "length (wit_filled w)" and ?n = "wit_cursor_depth w"
  from w obtain us zs where u: "ys = us @ zs" "length us = sizes (take ?k ?ds)" "wit_filled w = chunk_roots H (take ?k ?ds) us"
    and t: "?k < length ?ds" "?n = ?ds ! ?k" "1 \<le> ?n" "tree_holds H t zs" "zs \<noteq> []" "length zs < 2 ^ ?n"
    and x: "tree_holds H (wit_tree w) xs" "xs \<noteq> []" "1 + length (tree_parents (wit_tree w)) \<le> D"
    by (rule witness_holdsE) (use Some in auto)
  have n: "?n \<le> D" using tree_gaps_less [OF x(3) nth_mem [OF t(1)]] t(2) by simp
  then have "length zs < 2 ^ D" using t(6) by (meson less_le_trans one_le_numeral power_increasing)
  then obtain t' where t': "tree_append H D t y = Some t'" "tree_holds H t' (zs @ [y])" using tree_append_holds [OF t(4), of D y] x(3) by auto
  have full: "is_complete ?n t' \<longleftrightarrow> length (zs @ [y]) = 2 ^ ?n" by (rule is_complete_iff [OF t'(2) t(3)])
  show ?thesis
  proof (cases "is_complete ?n t'")
    case True
    let ?w = "w\<lparr>wit_filled := wit_filled w @ [imt_root H ?n [] t'], wit_cursor := None\<rparr>"
    have "imt_root H ?n [] t' = complete_root H ?n (zs @ [y])"
      using t'(2) t(3) True full by (intro imt_root_alone empty_laws_mono [OF laws n]) simp_all
    then have "witness_holds H D ?w xs (ys @ [y])"
      using x fill_gap [OF u(2,3) t(1), of "zs @ [y]"] True full t(1,2) u(1) by (auto simp: witness_holds_def Let_def simp del: complete_root.simps)
    moreover have "witness_append H D w y = Some ?w" using Some t' True by (simp add: witness_append_def)
    ultimately show ?thesis by (intro exI [of _ ?w]) simp
  next
    case False
    let ?w = "w\<lparr>wit_cursor := Some t'\<rparr>"
    have "length (zs @ [y]) < 2 ^ ?n" using False full t(6) by simp
    then have "witness_holds H D ?w xs (us @ zs @ [y])" using x u t t'(2) by (intro witness_cursorI [where c = t']; simp)
    moreover have "witness_append H D w y = Some ?w" using Some t' False by (simp add: witness_append_def)
    ultimately show ?thesis using u(1) by (intro exI [of _ ?w]) simp
  qed
qed

lemma witness_append_holds:
  assumes "witness_holds H D w xs ys" "empty_laws H D" "length (xs @ ys) < 2 ^ D"
  shows "\<exists>w'. witness_append H D w y = Some w' \<and> wit_tree w' = wit_tree w \<and> witness_holds H D w' xs (ys @ [y])"
  using witness_append_gap [OF assms(1,3)] witness_append_cursor [OF assms(1,2)] by (cases "wit_cursor w") blast+

section \<open>The format of a tree\<close>

lemma vector_of_codec:
  assumes "codec ser unser ok"
  shows "codec (Serialize_vector ser) (Unserialize_vector unser k) (\<lambda>v. list_all ok v \<and> length v \<le> MAX_SIZE)"
  by unfold_locales (auto simp: Serialize_vector_def Unserialize_vector_def codec.read_vector_ser [OF assms])

text \<open>A tree that passes \<open>wfcheck\<close> is read back from what is written.\<close>

lemma tree_format:
  assumes "codec ser unser ok" "wfcheck D t = Inr ()" "D \<le> MAX_SIZE"
    and "pred_option ok (tree_left t)" "pred_option ok (tree_right t)" "list_all (pred_option ok) (tree_parents t)"
  shows "\<exists>bytes. Serialize_tree ser D t = Inr bytes \<and> Unserialize_tree unser k D (bytes @ s) = Inr (Inr t, s)"
proof -
  note opt = codec.unser_bind [OF optional_codec [OF assms(1)]]
  note vec = codec.unser_bind [OF vector_of_codec [OF optional_codec [OF assms(1)], of k]]
  have "length (tree_parents t) \<le> MAX_SIZE" using assms(2,3) by (auto simp: wfcheck_def split: if_splits)
  then show ?thesis using assms by (cases t) (simp add: Serialize_tree_def Unserialize_tree_def opt vec Let_def)
qed

section \<open>Properties\<close>

fun tree_appends :: "'h merkle_hash \<Rightarrow> nat \<Rightarrow> 'h IncrementalMerkleTree \<Rightarrow> 'h list \<Rightarrow> 'h IncrementalMerkleTree option" where
  "tree_appends H Depth t [] = Some t"
| "tree_appends H Depth t (x # xs) = Option.bind (tree_append H Depth t x) (\<lambda>t. tree_appends H Depth t xs)"

fun witness_appends :: "'h merkle_hash \<Rightarrow> nat \<Rightarrow> 'h IncrementalWitness \<Rightarrow> 'h list \<Rightarrow> 'h IncrementalWitness option" where
  "witness_appends H Depth w [] = Some w"
| "witness_appends H Depth w (x # xs) = Option.bind (witness_append H Depth w x) (\<lambda>w. witness_appends H Depth w xs)"

lemma tree_appends_holds:
  "tree_holds H t xs \<Longrightarrow> 1 \<le> D \<Longrightarrow> length (xs @ ys) \<le> 2 ^ D \<Longrightarrow> \<exists>t'. tree_appends H D t ys = Some t' \<and> tree_holds H t' (xs @ ys)"
proof (induction ys arbitrary: t xs)
  case (Cons y ys)
  then obtain t1 where "tree_append H D t y = Some t1" "tree_holds H t1 (xs @ [y])" using tree_append_holds [OF Cons.prems(1,2), of y] by auto
  then show ?case using Cons.IH [of t1 "xs @ [y]"] Cons.prems by simp
qed simp

lemma tree_appends_full:
  "tree_holds H t xs \<Longrightarrow> 1 \<le> D \<Longrightarrow> length xs \<le> 2 ^ D \<Longrightarrow> 2 ^ D < length (xs @ ys) \<Longrightarrow> tree_appends H D t ys = None"
proof (induction ys arbitrary: t xs)
  case (Cons y ys)
  show ?case
  proof (cases "length xs = 2 ^ D")
    case True
    then show ?thesis using is_complete_iff [OF Cons.prems(1,2)] by (simp add: tree_append_def)
  next
    case False
    then obtain t1 where "tree_append H D t y = Some t1" "tree_holds H t1 (xs @ [y])"
      using tree_append_holds [OF Cons.prems(1,2), of y] Cons.prems(3) by auto
    then show ?thesis using Cons.IH [of t1 "xs @ [y]"] Cons.prems False by simp
  qed
qed simp

lemma witness_appends_holds:
  "witness_holds H D w xs ys \<Longrightarrow> empty_laws H D \<Longrightarrow> length (xs @ ys @ vs) \<le> 2 ^ D \<Longrightarrow>
   \<exists>w'. witness_appends H D w vs = Some w' \<and> wit_tree w' = wit_tree w \<and> witness_holds H D w' xs (ys @ vs)"
proof (induction vs arbitrary: w ys)
  case (Cons v vs)
  then obtain w1 where "witness_append H D w v = Some w1" "wit_tree w1 = wit_tree w" "witness_holds H D w1 xs (ys @ [v])"
    using witness_append_holds [OF Cons.prems(1,2), of v] by auto
  then show ?case using Cons.IH [of w1 "ys @ [v]"] Cons.prems by simp
qed simp

lemma tree_holds_wf:
  assumes "tree_holds H t xs" "1 + length (tree_parents t) \<le> D"
  shows "wfcheck D t = Inr ()"
proof -
  have "holds H d ps zs \<Longrightarrow> ps \<noteq> [] \<Longrightarrow> last ps \<noteq> None" for d ps zs by (induction H d ps zs rule: holds.induct) auto
  then show ?thesis using assms by (auto simp: wfcheck_def tree_holds_def split: option.splits)
qed

lemma tree_holds_last: "tree_holds H t xs \<Longrightarrow> xs \<noteq> [] \<Longrightarrow> tree_left t \<noteq> None \<and> tree_last t = Some (last xs)"
  by (cases "tree_left t") (auto simp: tree_holds_def tree_last_def split: option.splits)

text \<open>
  C40. The incremental tree is a Merkle tree.  Appending leaves to an empty tree of depth \<open>D\<close> succeeds exactly up to \<open>2 ^ D\<close> leaves.  The result passes
  \<open>wfcheck\<close>, its root is that of the complete tree over the leaves padded with empty ones, its last element is the last leaf, and below
  \<open>2 ^ 31\<close> leaves its size is their number.  The table of empty roots has to be the chain of combined roots.\<close>

theorem tree_is_merkle_tree:
  assumes "empty_laws H D" "1 \<le> D"
  shows "(length xs \<le> 2 ^ D \<longrightarrow> (\<exists>t. tree_appends H D tree_new xs = Some t \<and> imt_root H D [] t = complete_root H D xs \<and> wfcheck D t = Inr () \<and>
      (xs \<noteq> [] \<longrightarrow> tree_last t = Some (last xs)) \<and> (length xs < 2 ^ 31 \<longrightarrow> unat (tree_size t) = length xs))) \<and>
    (2 ^ D < length xs \<longrightarrow> tree_appends H D tree_new xs = None)"
proof (intro conjI impI)
  assume l: "length xs \<le> 2 ^ D"
  then obtain t where t: "tree_appends H D tree_new xs = Some t" "tree_holds H t xs"
    using tree_appends_holds [OF tree_new_holds assms(2), of xs H] by auto
  show "\<exists>t. tree_appends H D tree_new xs = Some t \<and> imt_root H D [] t = complete_root H D xs \<and> wfcheck D t = Inr () \<and>
      (xs \<noteq> [] \<longrightarrow> tree_last t = Some (last xs)) \<and> (length xs < 2 ^ 31 \<longrightarrow> unat (tree_size t) = length xs)"
    using t imt_root_alone [OF t(2) assms l] tree_holds_wf [OF t(2) tree_parents_bound [OF t(2) assms(2) l]] tree_holds_last [OF t(2)]
      tree_size_correct [OF t(2)] by blast
qed (use tree_appends_full [OF tree_new_holds assms(2)] in simp)

definition sample_hash_class :: "nat merkle_hash" where
  "sample_hash_class = \<lparr>hash_combine = (\<lambda>a b d. if a = 0 \<and> b = 0 then 0 else 3 * a + 5 * b + d + 1), hash_EmptyRoot = (\<lambda>_. 0)\<rparr>"

lemma sample_hash_laws: "empty_laws sample_hash_class D"
  by (simp add: empty_laws_def sample_hash_class_def)

theorem tree_is_merkle_tree_witness:
  "\<exists>t. tree_appends sample_hash_class 2 tree_new [7, 8, 9] = Some t \<and> imt_root sample_hash_class 2 [] t = complete_root sample_hash_class 2 [7, 8, 9] \<and>
     unat (tree_size t) = 3 \<and> complete_root sample_hash_class 2 [7, 8, 9] = 328"
proof -
  have "complete_root sample_hash_class 2 [7, 8, 9] = 328" by (simp add: numeral_2_eq_2 sample_hash_class_def)
  then show ?thesis using tree_is_merkle_tree [OF sample_hash_laws, of 2 "[7, 8, 9]"] by auto
qed

text \<open>
  C4. Witnesses stay valid.  Take a witness of the last of the leaves \<open>xs\<close> and append the leaves \<open>ys\<close> to it, within the capacity of the tree.  This
  succeeds; the root of the witness is the root of the tree over \<open>xs @ ys\<close>; its path has \<open>D\<close> levels, leads from the witnessed leaf to that root, and
  its index is the position of the leaf.\<close>

theorem witness_follows_tree:
  assumes "empty_laws H D" "1 \<le> D" "xs \<noteq> []" "length (xs @ ys) \<le> 2 ^ D" "tree_appends H D tree_new xs = Some t"
  shows "\<exists>w levels. witness_appends H D (witness_new t) ys = Some w \<and> witness_root H D w = complete_root H D (xs @ ys) \<and>
    witness_element w = Some (last xs) \<and> path_levels H D (partial_path H w) (wit_tree w) = Some levels \<and>
    path_root H 0 (last xs) levels = complete_root H D (xs @ ys) \<and> length levels = D \<and> bits_value (map fst levels) = length xs - 1 \<and>
    witness_path bytes H D w = Some \<lparr>authentication_path = rev (map (\<lambda>(_, h). convertBytesVectorToVector (bytes h)) levels), path_index = rev (map fst levels)\<rparr>"
proof -
  have t: "tree_holds H t xs" using tree_appends_holds [OF tree_new_holds assms(2), of xs H] assms(4,5) by simp
  have p: "1 + length (tree_parents t) \<le> D" using tree_parents_bound [OF t assms(2)] assms(4) by simp
  obtain w where w: "witness_appends H D (witness_new t) ys = Some w" "wit_tree w = t" "witness_holds H D w xs ys"
    using witness_appends_holds [OF witness_new_holds [OF t assms(3) p] assms(1), of ys] assms(4) by (auto simp: witness_new_def)
  have root: "imt_root H D (partial_path H w) t = complete_root H D (xs @ ys)"
    using imt_root_complete [OF t assms(3) _ p assms(4)] witness_supplies [OF w(3) assms(1)] w(2) by simp
  have last: "tree_left t \<noteq> None" "tree_last t = Some (last xs)" using tree_holds_last [OF t assms(3)] by simp_all
  obtain levels where l: "path_levels H D (partial_path H w) t = Some levels" "path_root H 0 (last xs) levels = complete_root H D (xs @ ys)"
    using path_levels_root [OF last(1), of H D "partial_path H w"] last(2) root by auto
  show ?thesis using w root last l path_levels_index [OF t assms(3) p l(1)]
    by (intro exI [of _ w] exI [of _ levels]) (simp add: witness_root_def witness_element_def witness_path_def tree_path_def)
qed

theorem witness_follows_tree_witness:
  "\<exists>t w levels. tree_appends sample_hash_class 2 tree_new [7] = Some t \<and> witness_appends sample_hash_class 2 (witness_new t) [8, 9] = Some w \<and>
     witness_root sample_hash_class 2 w = 328 \<and> path_root sample_hash_class 0 7 levels = 328 \<and> length levels = 2"
proof -
  have r: "complete_root sample_hash_class 2 [7, 8, 9] = 328" by (simp add: numeral_2_eq_2 sample_hash_class_def)
  obtain t where t: "tree_appends sample_hash_class 2 tree_new [7] = Some t"
    by (simp add: tree_append_def tree_new_def is_complete_def)
  from witness_follows_tree [OF sample_hash_laws _ _ _ t, of "[8, 9]" "\<lambda>_. []"] show ?thesis using t r by auto
qed

end
