(* ===== verification/Spec2Isabelle.thy ===== *)
theory Spec2Isabelle
  imports Consensus Chain HashUtil Pow Serialize Streams BufferedFile TxVerify MerkleBlock ConnectBlock SaplingTree
begin

text \<open>
  Verification library of the C_Note node.

  \<^bold>\<open>The program.\<close>  C_Note is a proof-of-stake node derived from PIVX and Bitcoin.  Its core decides which
  blocks and transactions are valid and keeps the set of unspent outputs.  A transaction arrives as bytes
  (\<open>serialize.h\<close>, \<open>streams.h\<close>), is identified by its double SHA-256 hash (\<open>hash.h\<close>, \<open>crypto/\<close>), is checked on its
  own (\<open>consensus/tx_verify.cpp\<close>), and each input runs two scripts (\<open>script/interpreter.cpp\<close>) over a signature
  hash of the transaction; the outputs it spends are looked up in a stack of caches (\<open>coins.cpp\<close>) over a
  LevelDB database (\<open>txdb.cpp\<close>), where they are kept in compressed form (\<open>compressor.cpp\<close>).  Blocks form a tree
  with a skip list (\<open>chain.cpp\<close>); the work of a block and the next target are computed with 256-bit numbers
  (\<open>arith_uint256.cpp\<close>, \<open>pow.cpp\<close>), and the rules in force depend on the height (\<open>consensus/upgrades.cpp\<close>,
  \<open>chainparams.cpp\<close>).  All paths are relative to \<open>src/src/\<close>.

  \<^bold>\<open>Theories and the code they model.\<close>
  \<^item> \<open>Prelude\<close>: the collections of rewrite rules and the generic lemmas on lists, words and bounds.
  \<^item> \<open>Uint256\<close> (\<open>arith_uint256.h/.cpp\<close>): numbers as lists of 32-bit limbs with every operator, long division and
    the compact encoding.  The limb operations refine arithmetic modulo \<open>2 ^ (32 * WIDTH)\<close>; division is the
    quotient; the compact form keeps the three leading bytes, or two when the first is \<open>0x80\<close> or more.
  \<^item> \<open>Consensus\<close> (\<open>consensus/params.h\<close>, \<open>upgrades.cpp\<close>, \<open>chainparams.cpp\<close>): parameters of the three networks and the
    activation of upgrades.
  \<^item> \<open>Chain\<close> (\<open>chain.h/.cpp\<close>): the block tree as a store of \<open>CBlockIndex\<close> records, skip pointers, the active chain,
    locators, forks and median times.
  \<^item> \<open>Bytes\<close>, \<open>Hasher\<close>, \<open>Sha2\<close>, \<open>LegacyHash\<close>, \<open>HashUtil\<close> (\<open>crypto/common.h\<close>, \<open>sha256.cpp\<close>, \<open>sha512.cpp\<close>, \<open>sha1.cpp\<close>,
    \<open>ripemd160.cpp\<close>, \<open>hmac_*.cpp\<close>, \<open>hash.h/.cpp\<close>): the unrolled compression functions, the buffering objects, the
    double hashes, HMAC, MurmurHash3 and SipHash.  The locale of \<open>Hasher\<close> states what a block function promises
    and proves once that any split of a message into writes gives the same digest; it is interpreted for the
    four hash classes.  The constants of the SHA-2 standard are computed from the roots of the first primes and the tables of
    the code are proved equal to them.
  \<^item> \<open>Pow\<close> (\<open>pow.cpp\<close>, \<open>GetBlockProof\<close> of \<open>chain.cpp\<close>): retargeting, the proof-of-work test, the work of a block.
  \<^item> \<open>Serialize\<close>, \<open>Streams\<close>, \<open>BufferedFile\<close> (\<open>serialize.h\<close>, \<open>streams.h\<close>): writers to byte lists and readers that fail
    with an error; the locales \<open>codec\<close> and \<open>canonical_codec\<close> are the contract of a format (what is written is
    read back, and only that) and are interpreted for every format; the in-memory streams as a queue and the
    ring buffer over a file.
  \<^item> \<open>Script\<close> (\<open>script/script.h/.cpp\<close>): opcodes, script numbers, reading and writing scripts, templates,
    signature-operation counts, \<open>FindAndDelete\<close>.
  \<^item> \<open>Transaction\<close>, \<open>TxVerify\<close> (\<open>primitives/transaction.h/.cpp\<close>, \<open>sapling/sapling_transaction.h\<close>,
    \<open>consensus/tx_verify.cpp\<close>, \<open>sapling/sapling_validation.cpp\<close>, \<open>tiertwo/specialtx_validation.cpp\<close>): transactions, their
    serialisation, values and the checks that need no context.
  \<^item> \<open>Coins\<close>, \<open>Compressor\<close>, \<open>TxDb\<close> (\<open>coins.h/.cpp\<close>, \<open>compressor.h/.cpp\<close>, \<open>txdb.cpp\<close>, \<open>dbwrapper.h\<close>,
    \<open>sapling/sapling_txdb.cpp\<close>): views of the unspent outputs, the write-back cache with its \<open>DIRTY\<close> and \<open>FRESH\<close> flags,
    the stored form of a coin and the database.  The locale of views is the contract a cache relies on; it
    is interpreted for the database and for a cache over it, so that a stack of caches is covered.
  \<^item> \<open>Undo\<close> (\<open>undo.h\<close>, \<open>UpdateCoins\<close> to \<open>DisconnectBlock\<close> of \<open>validation.cpp\<close>): applying the transactions of a block,
    the undo records on disk, and taking the block back; the abstract transactions on the map of unspent
    outputs are its specification.  The locale \<open>steady_view\<close>, interpreted for the database, carries what the
    operations keep of the Sapling anchors, so that taking a block back is shown to succeed.
  \<^item> \<open>Merkle\<close>, \<open>MerkleBlock\<close> (\<open>consensus/merkle.cpp\<close>, \<open>merkleblock.h/.cpp\<close>): the constant-space Merkle computation,
    with the root and branches of the tree built level by level and a mutation flag compared with the one of that tree, and partial Merkle trees with their wire format.
  \<^item> \<open>Standard\<close> (\<open>script/standard.h/.cpp\<close>): the classification of output scripts, destinations, and the builders.
  \<^item> \<open>Interpreter\<close>, \<open>Checker\<close> (\<open>script/interpreter.h/.cpp\<close>): every opcode, the evaluation loop with its limits,
    \<open>VerifyScript\<close>, signature hashes and the transaction signature checker.
  \<^item> \<open>Block\<close> (\<open>primitives/block.h/.cpp\<close>, \<open>HashQuark\<close> of \<open>hash.h\<close>, \<open>checkpoints.cpp\<close>, the reward functions of \<open>validation.cpp\<close>):
    headers, blocks, their hashes and formats, the reward schedule and the checkpoints.
  \<^item> \<open>BlockCheck\<close> (\<open>blocksignature.cpp\<close>, \<open>spork.cpp\<close>, \<open>CheckBlock\<close> and the contextual checks of \<open>validation.cpp\<close> and
    \<open>sapling/sapling_validation.cpp\<close>): what a block has to satisfy before it is connected.
  \<^item> \<open>BlockFiles\<close> (\<open>CBlockFileInfo\<close> of \<open>chain.h\<close>, \<open>FindBlockPos\<close> and \<open>FindUndoPos\<close> of \<open>validation.cpp\<close>): where blocks and undo data go.
  \<^item> \<open>ConnectBlock\<close> (\<open>CheckInputs\<close>, \<open>CheckTxInputs\<close> and \<open>ConnectBlock\<close> of \<open>validation.cpp\<close>, \<open>masternode-payments.cpp\<close>): connecting a block to
    the coins, on top of \<open>BlockCheck\<close>, \<open>BlockFiles\<close>, \<open>Undo\<close> and the interpreter.
  \<^item> \<open>SaplingTree\<close> (\<open>sapling/incrementalmerkletree.h/.cpp\<close>, \<open>sapling/sapling_util.cpp\<close>): the incremental tree of note
    commitments with its roots and paths, the witnesses that follow it, the table of empty roots and the format of
    a tree; its specification is the complete Merkle tree over the leaves.  The section at the end of this theory
    puts that tree into \<open>ConnectBlock\<close>.

  \<^bold>\<open>How the code is represented.\<close>  Classes are records with the members of the source, integers of a fixed
  width are words (or integers with the wrap-around written out), pointers into the block tree are indices
  into a store, iterators into a script are suffixes of it, a stack has its top at the head.  A throw, a
  failed assertion or a \<open>return false\<close> is a value: \<open>None\<close>, \<open>Inl\<close> with the error, or a rejecting check.  Memory
  the source leaves uninitialised is an argument named \<open>junk\<close>.  Loops are recursive functions with a
  termination proof; the loops along the pointers of the block tree and the loop of the ring buffer, which
  need not end on a malformed state, are partial functions with values in \<open>option\<close> and are proved to return on
  every well-formed state.  There is no fuel.

  \<^bold>\<open>What the theorems show.\<close>
  \<^item> Validity: script evaluation keeps to its limits, pay-to-key-hash, pay-to-script-hash, multisignature and
    cold-staking inputs are accepted exactly under the stated conditions (for a cold stake these include no check of the
    signature or key of the staker), output scripts are classified exactly under the old and the new cold-staking rules, the optimised signature hash equals
    the original one, time locks are enforced together with \<open>IsFinalTx\<close>; an accepted transaction does not spend
    an output twice and its values stay within the money supply.
  \<^item> Blocks: an accepted block has a valid layout, Merkle root and signature or work; its coinbase determines its height;
    connecting it applies its transactions to the coins and disconnecting it takes them back; the created amount is bounded by
    the reward and the budget as far as the code checks it; the sum of all rewards is given exactly; blocks never share bytes of a file.
  \<^item> State: the cache over the database implements the map of unspent outputs, a flush of a stack of caches
    reaches the database, every state between the batches of a write is recognisable and consistent, and
    disconnecting a block restores the coins from before it.
  \<^item> Commitment: block hashes determine their blocks up to a hash collision; Merkle roots and branches are those of the reference tree, and the root of an unmutated tree
    determines its leaves up to a hash collision.  The incremental Sapling tree has the root of the complete tree, a
    witness keeps leading to the current root, and the Sapling anchor after a block is the root over all note
    commitments of the chain.
  \<^item> Chain and work: \<open>GetAncestor\<close> over the skip list equals the walk along the parents, \<open>SetTip\<close> lists the
    ancestors of the tip, targets never exceed the limit, the work of a block is exact.
  \<^item> Formats: transactions, coins, compact sizes, variable-length integers and script numbers round trip;
    partial Merkle trees yield what was put in; hashes equal their standards and do not depend on how the input is split.

  \<^bold>\<open>Parameters.\<close>  Code outside the repository's own sources is a parameter with its documented behaviour as a
  hypothesis where a theorem needs it: libsecp256k1 (parsing of public keys, ECDSA verification, low-S test),
  libsodium (BLAKE2b), LevelDB (a map with atomic batches), librustzcash (the verification of Sapling proofs, and
  \<open>librustzcash_merkle_hash\<close>, for which the table of empty roots in the source is the iterated hash of the empty leaf),
  the \<open>sph\<close> hash functions.
  The answers of the masternode and budget services, the free disk space and the adjusted time are values of the state a check reads.

  \<^bold>\<open>Not modelled.\<close>  The graphical interface, RPC, REST, HTTP, ZMQ and command-line front ends and start-up are input
  and output around the core.  The peer-to-peer network, address manager and message processing
  depend on sockets, time and randomness.  The wallet, key storage, masternode, budget and spork layers are
  built on the core and are left for later, as are the memory pool, block assembly and the selection of the
  active chain in \<open>validation.cpp\<close>, which drives the modelled operations with threads, signals and files.  Sapling proofs and notes call
  librustzcash.  The vendored libraries
  (LevelDB, libsecp256k1, univalue, crc32c, the \<open>sph\<close> hash functions) are third-party code.

  \<^bold>\<open>Plan.\<close>  Next: the text form of addresses, the staking kernel, the memory pool, the selection of the active chain.
\<close>

section \<open>The Sapling root of a block\<close>

text \<open>The tree class \<open>ConnectBlock\<close> works with, the tree of the current anchor of a view, and the note commitments of a block.\<close>

definition SaplingMerkleTree :: "(nat \<Rightarrow> uint256 \<Rightarrow> uint256 \<Rightarrow> uint256) \<Rightarrow> uint256 IncrementalMerkleTree sapling_tree" where
  "SaplingMerkleTree merkle_hash =
     \<lparr>sapling_append = tree_append (PedersenHash merkle_hash) SAPLING_INCREMENTAL_MERKLE_TREE_DEPTH,
      sapling_root = imt_root (PedersenHash merkle_hash) SAPLING_INCREMENTAL_MERKLE_TREE_DEPTH []\<rparr>"

definition current_tree :: "('v, 't) CCoinsView \<Rightarrow> ('t \<Rightarrow> int) \<Rightarrow> ('v, 't) CCoinsViewCache \<Rightarrow> 't option" where
  "current_tree V tmem view = (case GetBestBlock V view of (_, view) \<Rightarrow>
     case GetBestAnchor V view of (anchor, view) \<Rightarrow> fst (GetSaplingAnchorAt V tmem view anchor))"

definition block_commitments :: "CBlock \<Rightarrow> uint256 list" where
  "block_commitments b = concat (map tx_commitments (block_vtx b))"

lemma sapling_appends_tree: "sapling_appends (SaplingMerkleTree f) t xs = tree_appends (PedersenHash f) 32 t xs"
  by (induction xs arbitrary: t) (simp_all add: SaplingMerkleTree_def SAPLING_INCREMENTAL_MERKLE_TREE_DEPTH_def)

lemma tree_appends_append: "tree_appends H D t (xs @ ys) = Option.bind (tree_appends H D t xs) (\<lambda>t. tree_appends H D t ys)"
  by (induction xs arbitrary: t) (auto simp: bind_assoc)

lemma appended_root:
  assumes "tree_appends (PedersenHash f) 32 tree_new xs = Some t" "empty_laws (PedersenHash f) 32"
  shows "length xs \<le> 2 ^ 32 \<and> sapling_root (SaplingMerkleTree f) t = complete_root (PedersenHash f) 32 xs"
proof -
  have l: "length xs \<le> 2 ^ 32" using tree_appends_full [OF tree_new_holds, of 32 xs] assms(1) by (cases "length xs \<le> 2 ^ 32") auto
  then have "tree_holds (PedersenHash f) t xs" using tree_appends_holds [OF tree_new_holds, of 32 xs "PedersenHash f"] assms(1) by auto
  then show ?thesis using imt_root_alone [OF _ assms(2)] l by (simp add: SaplingMerkleTree_def SAPLING_INCREMENTAL_MERKLE_TREE_DEPTH_def)
qed

lemma PushAnchor_anchor: "hashSaplingAnchor (PushAnchor V root tmem tree c) = root tree"
  by (auto simp: PushAnchor_def GetBestAnchor_def split: prod.splits if_splits)

text \<open>
  C3. The Sapling root of a block.  Let \<open>ConnectBlock\<close> accept a block other than the genesis block, and let the tree of the current anchor hold the note commitments \<open>xs\<close> of
  the chain so far.  Then all commitments still fit into the tree, the new anchor is the root of the complete Merkle tree over the commitments of
  the chain followed by those of the block in order, and from the Sapling upgrade on the header contains that root.\<close>

theorem sapling_root_commits:
  assumes p: "ConnectBlock V mem tmem (SaplingMerkleTree f) ec_parse D fThreads N b pindex files view False = Pass r"
    and g: "nd_hash N b \<noteq> nd_hashGenesisBlock N" and laws: "empty_laws (PedersenHash f) 32"
    and t: "current_tree V tmem view = tree_appends (PedersenHash f) 32 tree_new xs"
  shows "length (xs @ block_commitments b) \<le> 2 ^ 32 \<and>
    hashSaplingAnchor (cr_view r) = complete_root (PedersenHash f) 32 (xs @ block_commitments b) \<and>
    (NetworkUpgradeActive (nd_consensus N) (nHeight pindex) UPGRADE_V5_0 \<longrightarrow>
      hdr_hashFinalSaplingRoot b = complete_root (PedersenHash f) 32 (xs @ block_commitments b))"
proof -
  let ?T = "SaplingMerkleTree f"
  obtain b' prev best c0 where b': "b' = b \<or> b' = b\<lparr>fChecked := True\<rparr>" and g: "GetBestBlock V view = (best, c0)"
    and body: "connect_body V mem tmem ?T ec_parse D fThreads N b' prev
       \<lparr>cr_view = c0, cr_index = pindex, cr_dirty = False, cr_files = files, cr_undo = None, cr_txindex = None\<rparr> False = Pass r"
    by (rule ConnectBlock_Pass [OF p g])
  obtain anchor c1 tree c2 st res1 where x: "GetBestAnchor V c0 = (anchor, c1)" "GetSaplingAnchorAt V tmem c1 anchor = (Some tree, c2)"
      "connect_txs V mem tmem ?T N (connect_args_of N b' pindex prev fThreads) True (block_vtx b') (connect_start b' pindex c2 tree) = Pass st"
      "connect_final N ?T b' (nHeight pindex) st = Pass ()"
      "write_undo ec_parse (nd_junk N) D \<lparr>vtxundo = cs_undo st\<rparr> (map_option phashBlock prev) \<lparr>cr_view = PushAnchor V (sapling_root ?T) tmem (cs_tree st) (cs_view st),
         cr_index = pindex, cr_dirty = False, cr_files = files, cr_undo = None, cr_txindex = None\<rparr> = Pass res1"
      "cr_view r = SetBestBlock (cr_view res1) (phashBlock (cr_index res1))"
    by (rule connect_body_Pass [OF body, unfolded connect_result.simps])
  have "tree_appends (PedersenHash f) 32 tree_new xs = Some tree" using t g x(1,2) by (simp add: current_tree_def)
  then have "tree_appends (PedersenHash f) 32 tree_new (xs @ block_commitments b) = Some (cs_tree st)"
    using connect_txs_tree [OF x(3)] b' by (auto simp: sapling_appends_tree tree_appends_append block_commitments_def connect_start_def)
  note root = appended_root [OF this laws]
  have "hashSaplingAnchor (cr_view r) = sapling_root ?T (cs_tree st)"
    using write_undo_Pass [OF x(5)] x(6) by (simp add: SetBestBlock_def PushAnchor_anchor)
  moreover have "hdr_hashFinalSaplingRoot b = sapling_root ?T (cs_tree st)" if "NetworkUpgradeActive (nd_consensus N) (nHeight pindex) UPGRADE_V5_0"
    using x(4) that b' by (auto simp: connect_final_def Let_def split: if_splits)
  ultimately show ?thesis using root by simp
qed

text \<open>A hash function that has the table as its empty roots.\<close>

definition sample_merkle_hash :: "nat \<Rightarrow> uint256 \<Rightarrow> uint256 \<Rightarrow> uint256" where
  "sample_merkle_hash d a b = limbs_of_bytes 8 (pedersen_empty_roots ! Suc d)"

lemma sample_pedersen_laws: "empty_laws (PedersenHash sample_merkle_hash) 32"
  by (simp add: empty_laws_def PedersenHash_def sample_merkle_hash_def)

definition sample_tree_env :: "(byte list \<times> byte, uint256 IncrementalMerkleTree) db_env" where
  "sample_tree_env = \<lparr>env_ec_parse = toy_parse, env_ec_ser = toy_ser, env_tree_ser = (\<lambda>_. []), env_tree_unser = rreturn tree_new,
     env_empty_root = base_uint_zero 8, env_new_tree = tree_new, env_batch_size = 0\<rparr>"

lemma sample_tree_db: "db_ok sample_tree_env (\<lambda>_. None)"
  by (simp add: db_ok_def db_utxo_def CoinsDB_GetCoin_def db_Read_def sample_tree_env_def toy_laws)

theorem sapling_root_commits_witness:
  "\<exists>r. sample_connect sample_tree_env (SaplingMerkleTree sample_merkle_hash) tree_new = Pass r \<and>
     hashSaplingAnchor (cr_view r) = complete_root (PedersenHash sample_merkle_hash) 32 (block_commitments sample_pow_block)"
proof -
  obtain r where r: "sample_connect sample_tree_env (SaplingMerkleTree sample_merkle_hash) tree_new = Pass r"
    using sample_connected [OF sample_tree_db] by blast
  from sapling_root_commits [OF r sample_hash sample_pedersen_laws, of "[]"] show ?thesis using r by (simp add: current_tree_def sample_best)
qed

end
